(* ===== verification/Zstd_Prelude.thy ===== *)
theory Zstd_Prelude
  imports Main "HOL-Library.Word"
begin

section \<open>Prelude: machine types, byte strings and shared lemmas\<close>

text \<open>
  The C types of \<^verbatim>\<open>common/mem.h\<close> as words, the little-endian reading of a byte string
  as a natural number, and the generic lemmas on words, powers of two and lists which the
  component theories share.  Buffers are lists of bytes and pointers into them are offsets;
  \<open>size_t\<close> is 64 bits wide (the builds of the library for LP64 targets).
\<close>

unbundle bit_operations_syntax

type_synonym BYTE = "8 word"
type_synonym U16 = "16 word"
type_synonym U32 = "32 word"
type_synonym U64 = "64 word"
type_synonym size_t = "64 word"
type_synonym buffer = "BYTE list"

named_theorems buf_simps "length and content facts of byte buffers"
named_theorems word_nat "facts that move word operations to natural numbers"
named_theorems tbl_defs "constant tables, unfolded for evaluation"

subsection \<open>Little-endian values\<close>

fun le_val :: "buffer \<Rightarrow> nat" where
  "le_val [] = 0"
| "le_val (b # bs) = unat b + 256 * le_val bs"

fun le_bytes :: "nat \<Rightarrow> nat \<Rightarrow> buffer" where
  "le_bytes 0 v = []"
| "le_bytes (Suc n) v = of_nat v # le_bytes n (v div 256)"

lemma length_le_bytes [simp, buf_simps]: "length (le_bytes n v) = n"
  by (induction n arbitrary: v) auto

lemma unat_byte_less [simp]: "unat (b :: BYTE) < 256"
  using unsigned_less[of b] by (simp del: unsigned_less)

lemma unat_less_exp: "unat (w :: 'a::len word) < 2 ^ LENGTH('a)"
  by (rule unsigned_less)

lemma unat_ucast_mod [word_nat]: "unat (ucast w :: 'b::len word) = unat w mod 2 ^ LENGTH('b)"
  by (simp add: unsigned_ucast_eq take_bit_eq_mod)

lemma unat_ucast_up [word_nat]:
  "LENGTH('a) \<le> LENGTH('b) \<Longrightarrow> unat (ucast (w :: 'a::len word) :: 'b::len word) = unat w"
proof -
  assume "LENGTH('a) \<le> LENGTH('b)"
  then have "(2::nat) ^ LENGTH('a) \<le> 2 ^ LENGTH('b)" by (intro power_increasing) simp_all
  with unat_less_exp[of w] have "unat w < 2 ^ LENGTH('b)" by (rule less_le_trans)
  then show ?thesis by (simp only: unat_ucast_mod mod_less)
qed

lemma unat_push_bit_mod [word_nat]:
  "unat (push_bit n w :: 'a::len word) = unat w * 2 ^ n mod 2 ^ LENGTH('a)"
  by (simp only: unsigned_push_bit_eq) (simp add: push_bit_eq_mult take_bit_eq_mod)

lemma unat_drop_bit_div [word_nat]: "unat (drop_bit n w) = unat w div 2 ^ n"
  by (simp only: unat_drop_bit_eq) (simp add: drop_bit_eq_div)

lemma unat_take_bit_mod [word_nat]: "unat (take_bit n w) = unat w mod 2 ^ n"
  by (simp only: unsigned_take_bit_eq) (simp add: take_bit_eq_mod)

lemma unat_and_mask [word_nat]: "unat (w AND mask n) = unat w mod 2 ^ n"
  by (simp add: take_bit_eq_mask[symmetric] unat_take_bit_mod)

lemma unat_uminus: "(w :: 'a::len word) \<noteq> 0 \<Longrightarrow> unat (- w) = 2 ^ LENGTH('a) - unat w"
  using unat_sub_if_size[of 0 w] by (simp add: word_size word_le_nat_alt unat_0_iff)

lemma mod_pow2_cancel: "n \<le> m \<Longrightarrow> x mod 2 ^ m mod 2 ^ n = x mod (2::nat) ^ n"
  by (simp add: mod_mod_cancel le_imp_power_dvd)

lemma pow256: "(256::nat) ^ n = 2 ^ (8 * n)"
  by (simp add: power_mult)

lemma le_val_less: "le_val bs < 256 ^ length bs"
proof (induction bs)
  case Nil
  then show ?case by simp
next
  case (Cons b bs)
  define p :: nat where "p = 256 ^ length bs"
  have "unat b < 256" by simp
  moreover from Cons have "le_val bs < p" by (simp add: p_def)
  ultimately have "unat b + 256 * le_val bs < 256 * p" by linarith
  then show ?case by (simp add: p_def)
qed

lemma unat_of_nat_byte [word_nat]: "unat (of_nat v :: BYTE) = v mod 256"
  by (simp add: unat_of_nat)

lemma mod_mult_split: "(v::nat) mod (a * b) = v mod a + a * (v div a mod b)"
  by (simp add: mod_mult2_eq add.commute)

lemma le_val_le_bytes [simp]: "le_val (le_bytes n v) = v mod 256 ^ n"
  by (induction n arbitrary: v) (simp_all add: unat_of_nat_byte mod_mult_split)

lemma le_bytes_le_val [simp]: "le_bytes (length bs) (le_val bs) = bs"
proof (induction bs)
  case Nil
  then show ?case by simp
next
  case (Cons b bs)
  have "(of_nat (unat b + 256 * le_val bs) :: BYTE) = b"
    by (rule word_unat_eq_iff[THEN iffD2]) (simp add: unat_of_nat del: of_nat_add of_nat_mult)
  moreover have "(unat b + 256 * le_val bs) div 256 = le_val bs"
    by (simp add: div_mult_self1)
  ultimately show ?case using Cons by (simp del: of_nat_add of_nat_mult)
qed

lemma le_val_append: "le_val (xs @ ys) = le_val xs + 256 ^ length xs * le_val ys"
  by (induction xs) (simp_all add: algebra_simps)

lemma le_val_take: "le_val (take n bs) = le_val bs mod 256 ^ n"
proof (cases "n \<le> length bs")
  case True
  have "le_val bs = le_val (take n bs @ drop n bs)" by simp
  also have "\<dots> = le_val (take n bs) + 256 ^ n * le_val (drop n bs)"
    using True by (simp only: le_val_append) (simp add: min_def)
  finally show ?thesis using le_val_less[of "take n bs"] True by (simp add: min_absorb2)
next
  case False
  then have "le_val bs < 256 ^ n"
    using le_val_less[of bs] by (meson le_trans less_le_trans nat_le_linear one_le_numeral power_increasing)
  with False show ?thesis by simp
qed

lemma le_val_drop: "le_val (drop n bs) = le_val bs div 256 ^ n"
proof (cases "n \<le> length bs")
  case True
  have "le_val bs = le_val (take n bs @ drop n bs)" by simp
  also have "\<dots> = le_val (take n bs) + 256 ^ n * le_val (drop n bs)"
    using True by (simp only: le_val_append) (simp add: min_def)
  finally show ?thesis using le_val_less[of "take n bs"] True by (simp add: min_absorb2)
next
  case False
  then have "le_val bs < 256 ^ n"
    using le_val_less[of bs] by (meson le_trans less_le_trans nat_le_linear one_le_numeral power_increasing)
  with False show ?thesis by simp
qed

lemma le_bytes_mod: "le_bytes n (v mod 256 ^ n) = le_bytes n v"
  by (metis le_bytes_le_val le_val_le_bytes length_le_bytes)

lemma le_bytes_append: "le_bytes (m + n) v = le_bytes m v @ le_bytes n (v div 256 ^ m)"
  by (induction m arbitrary: v) (simp_all add: div_mult2_eq)

lemma take_le_bytes: "m \<le> n \<Longrightarrow> take m (le_bytes n v) = le_bytes m v"
  using le_bytes_append[of m "n - m" v] by simp

lemma le_bytes_inject:
  "length xs = length ys \<Longrightarrow> le_val xs = le_val ys \<Longrightarrow> xs = ys"
  by (metis le_bytes_le_val)

end
