(* ===== verification/Zstd_Mem.thy ===== *)
theory Zstd_Mem
  imports Zstd_Prelude
begin

section \<open>Unaligned memory access (\<^verbatim>\<open>common/mem.h\<close>)\<close>

text \<open>
  A pointer is a buffer and an offset.  The byte order of the machine is a parameter of the
  accessors that depend on it, so that the little- and big-endian branches of the source are
  both present; \<open>size_t\<close> is 64 bits (\<open>MEM_64bits()\<close> holds).  An access is meaningful when
  it lies inside the buffer, which the lemmas state as a premise.
\<close>

datatype endian = LittleEndian | BigEndian

definition MEM_isLittleEndian :: "endian \<Rightarrow> bool" where
  "MEM_isLittleEndian e \<longleftrightarrow> e = LittleEndian"

definition bytes_at :: "buffer \<Rightarrow> nat \<Rightarrow> nat \<Rightarrow> buffer" where
  "bytes_at buf off n = take n (drop off buf)"

definition write_at :: "buffer \<Rightarrow> nat \<Rightarrow> buffer \<Rightarrow> buffer" where
  "write_at buf off bs = take off buf @ bs @ drop (off + length bs) buf"

text \<open>The native order: what a load of the machine makes of the bytes in memory order.\<close>

definition native :: "endian \<Rightarrow> buffer \<Rightarrow> buffer" where
  "native e bs = (case e of LittleEndian \<Rightarrow> bs | BigEndian \<Rightarrow> rev bs)"

definition MEM_read16 :: "endian \<Rightarrow> buffer \<Rightarrow> nat \<Rightarrow> U16" where
  "MEM_read16 e buf p = of_nat (le_val (native e (bytes_at buf p 2)))"

definition MEM_read32 :: "endian \<Rightarrow> buffer \<Rightarrow> nat \<Rightarrow> U32" where
  "MEM_read32 e buf p = of_nat (le_val (native e (bytes_at buf p 4)))"

definition MEM_read64 :: "endian \<Rightarrow> buffer \<Rightarrow> nat \<Rightarrow> U64" where
  "MEM_read64 e buf p = of_nat (le_val (native e (bytes_at buf p 8)))"

definition MEM_write16 :: "endian \<Rightarrow> buffer \<Rightarrow> nat \<Rightarrow> U16 \<Rightarrow> buffer" where
  "MEM_write16 e buf p v = write_at buf p (native e (le_bytes 2 (unat v)))"

definition MEM_write32 :: "endian \<Rightarrow> buffer \<Rightarrow> nat \<Rightarrow> U32 \<Rightarrow> buffer" where
  "MEM_write32 e buf p v = write_at buf p (native e (le_bytes 4 (unat v)))"

definition MEM_write64 :: "endian \<Rightarrow> buffer \<Rightarrow> nat \<Rightarrow> U64 \<Rightarrow> buffer" where
  "MEM_write64 e buf p v = write_at buf p (native e (le_bytes 8 (unat v)))"

subsection \<open>Byte swaps\<close>

text \<open>
  \<open>MEM_swap32\<close> and \<open>MEM_swap64\<close> are the compiler's byte-swap instructions: the value whose
  bytes are those of the argument in the opposite order.
\<close>

definition MEM_swap32 :: "U32 \<Rightarrow> U32" where
  "MEM_swap32 x = of_nat (le_val (rev (le_bytes 4 (unat x))))"

definition MEM_swap64 :: "U64 \<Rightarrow> U64" where
  "MEM_swap64 x = of_nat (le_val (rev (le_bytes 8 (unat x))))"

definition MEM_swap32_fallback :: "U32 \<Rightarrow> U32" where
  "MEM_swap32_fallback x =
     ((push_bit 24 x) AND 0xff000000) OR
     ((push_bit 8 x) AND 0x00ff0000) OR
     ((drop_bit 8 x) AND 0x0000ff00) OR
     ((drop_bit 24 x) AND 0x000000ff)"

definition MEM_swap64_fallback :: "U64 \<Rightarrow> U64" where
  "MEM_swap64_fallback x =
     ((push_bit 56 x) AND 0xff00000000000000) OR
     ((push_bit 40 x) AND 0x00ff000000000000) OR
     ((push_bit 24 x) AND 0x0000ff0000000000) OR
     ((push_bit 8 x)  AND 0x000000ff00000000) OR
     ((drop_bit 8 x)  AND 0x00000000ff000000) OR
     ((drop_bit 24 x) AND 0x0000000000ff0000) OR
     ((drop_bit 40 x) AND 0x000000000000ff00) OR
     ((drop_bit 56 x) AND 0x00000000000000ff)"

subsection \<open>Little- and big-endian accessors\<close>

definition MEM_readLE16 :: "endian \<Rightarrow> buffer \<Rightarrow> nat \<Rightarrow> U16" where
  "MEM_readLE16 e buf p =
     (if MEM_isLittleEndian e then MEM_read16 e buf p
      else ucast (buf ! p) + push_bit 8 (ucast (buf ! (p + 1))))"

definition MEM_writeLE16 :: "endian \<Rightarrow> buffer \<Rightarrow> nat \<Rightarrow> U16 \<Rightarrow> buffer" where
  "MEM_writeLE16 e buf p v =
     (if MEM_isLittleEndian e then MEM_write16 e buf p v
      else (buf[p := ucast v])[p + 1 := ucast (drop_bit 8 v)])"

definition MEM_readLE24 :: "endian \<Rightarrow> buffer \<Rightarrow> nat \<Rightarrow> U32" where
  "MEM_readLE24 e buf p = ucast (MEM_readLE16 e buf p) + push_bit 16 (ucast (buf ! (p + 2)))"

definition MEM_writeLE24 :: "endian \<Rightarrow> buffer \<Rightarrow> nat \<Rightarrow> U32 \<Rightarrow> buffer" where
  "MEM_writeLE24 e buf p v = (MEM_writeLE16 e buf p (ucast v))[p + 2 := ucast (drop_bit 16 v)]"

definition MEM_readLE32 :: "endian \<Rightarrow> buffer \<Rightarrow> nat \<Rightarrow> U32" where
  "MEM_readLE32 e buf p =
     (if MEM_isLittleEndian e then MEM_read32 e buf p else MEM_swap32 (MEM_read32 e buf p))"

definition MEM_writeLE32 :: "endian \<Rightarrow> buffer \<Rightarrow> nat \<Rightarrow> U32 \<Rightarrow> buffer" where
  "MEM_writeLE32 e buf p v =
     (if MEM_isLittleEndian e then MEM_write32 e buf p v else MEM_write32 e buf p (MEM_swap32 v))"

definition MEM_readLE64 :: "endian \<Rightarrow> buffer \<Rightarrow> nat \<Rightarrow> U64" where
  "MEM_readLE64 e buf p =
     (if MEM_isLittleEndian e then MEM_read64 e buf p else MEM_swap64 (MEM_read64 e buf p))"

definition MEM_writeLE64 :: "endian \<Rightarrow> buffer \<Rightarrow> nat \<Rightarrow> U64 \<Rightarrow> buffer" where
  "MEM_writeLE64 e buf p v =
     (if MEM_isLittleEndian e then MEM_write64 e buf p v else MEM_write64 e buf p (MEM_swap64 v))"

definition MEM_readLEST :: "endian \<Rightarrow> buffer \<Rightarrow> nat \<Rightarrow> size_t" where
  "MEM_readLEST e buf p = MEM_readLE64 e buf p"

definition MEM_writeLEST :: "endian \<Rightarrow> buffer \<Rightarrow> nat \<Rightarrow> size_t \<Rightarrow> buffer" where
  "MEM_writeLEST e buf p v = MEM_writeLE64 e buf p v"

definition MEM_readBE32 :: "endian \<Rightarrow> buffer \<Rightarrow> nat \<Rightarrow> U32" where
  "MEM_readBE32 e buf p =
     (if MEM_isLittleEndian e then MEM_swap32 (MEM_read32 e buf p) else MEM_read32 e buf p)"

definition MEM_writeBE32 :: "endian \<Rightarrow> buffer \<Rightarrow> nat \<Rightarrow> U32 \<Rightarrow> buffer" where
  "MEM_writeBE32 e buf p v =
     (if MEM_isLittleEndian e then MEM_write32 e buf p (MEM_swap32 v) else MEM_write32 e buf p v)"

definition MEM_readBE64 :: "endian \<Rightarrow> buffer \<Rightarrow> nat \<Rightarrow> U64" where
  "MEM_readBE64 e buf p =
     (if MEM_isLittleEndian e then MEM_swap64 (MEM_read64 e buf p) else MEM_read64 e buf p)"

definition MEM_writeBE64 :: "endian \<Rightarrow> buffer \<Rightarrow> nat \<Rightarrow> U64 \<Rightarrow> buffer" where
  "MEM_writeBE64 e buf p v =
     (if MEM_isLittleEndian e then MEM_write64 e buf p (MEM_swap64 v) else MEM_write64 e buf p v)"

subsection \<open>Buffers\<close>

lemma length_bytes_at [simp, buf_simps]: "p + n \<le> length buf \<Longrightarrow> length (bytes_at buf p n) = n"
  by (simp add: bytes_at_def)

lemma length_write_at [simp, buf_simps]:
  "p + length bs \<le> length buf \<Longrightarrow> length (write_at buf p bs) = length buf"
  by (simp add: write_at_def)

lemma bytes_at_write_at_same [simp, buf_simps]:
  "p + length bs \<le> length buf \<Longrightarrow> n = length bs \<Longrightarrow> bytes_at (write_at buf p bs) p n = bs"
  by (simp add: bytes_at_def write_at_def min_absorb2)

lemma take_write_at: "p + length bs \<le> length buf \<Longrightarrow> n \<le> p \<Longrightarrow> take n (write_at buf p bs) = take n buf"
  by (simp add: write_at_def min_def)

lemma length_native [simp, buf_simps]: "length (native e bs) = length bs"
  by (simp add: native_def split: endian.split)

lemma native_native [simp]: "native e (native e bs) = bs"
  by (simp add: native_def split: endian.split)

lemma le_bytes_of_nat:
  "length bs = n \<Longrightarrow> 8 * n = LENGTH('a::len) \<Longrightarrow>
    le_bytes n (unat (of_nat (le_val bs) :: 'a word)) = bs"
  using le_val_less[of bs] by (auto simp: unat_of_nat pow256)

lemma of_nat_le_bytes:
  "8 * n = LENGTH('a::len) \<Longrightarrow> of_nat (le_val (le_bytes n (unat (w :: 'a word)))) = w"
  by (rule word_unat_eq_iff[THEN iffD2]) (simp add: unat_of_nat pow256)

lemma bytes_at_2: "p + 2 \<le> length buf \<Longrightarrow> bytes_at buf p 2 = [buf ! p, buf ! (p + 1)]"
  by (rule nth_equalityI) (auto simp: bytes_at_def less_Suc_eq numeral_2_eq_2)

lemma bytes_at_3: "p + 3 \<le> length buf \<Longrightarrow> bytes_at buf p 3 = [buf ! p, buf ! (p + 1), buf ! (p + 2)]"
  by (rule nth_equalityI) (auto simp: bytes_at_def less_Suc_eq numeral_3_eq_3)

lemma nth_write_at:
  "p + length bs \<le> length buf \<Longrightarrow> i < length buf \<Longrightarrow>
    write_at buf p bs ! i = (if p \<le> i \<and> i < p + length bs then bs ! (i - p) else buf ! i)"
  by (auto simp: write_at_def nth_append min_def)

lemma write_at_2:
  "p + 2 \<le> length buf \<Longrightarrow> write_at buf p [x, y] = (buf[p := x])[p + 1 := y]"
  by (rule nth_equalityI) (auto simp: nth_write_at nth_list_update nth_Cons')

lemma write_at_3:
  "p + 3 \<le> length buf \<Longrightarrow> write_at buf p [x, y, z] = ((buf[p := x])[p + 1 := y])[p + 2 := z]"
  by (rule nth_equalityI) (auto simp: nth_write_at nth_list_update nth_Cons')

subsection \<open>The byte swaps reverse the bytes\<close>

lemma le_bytes_swap32: "le_bytes 4 (unat (MEM_swap32 x)) = rev (le_bytes 4 (unat x))"
  by (simp add: MEM_swap32_def le_bytes_of_nat)

lemma le_bytes_swap64: "le_bytes 8 (unat (MEM_swap64 x)) = rev (le_bytes 8 (unat x))"
  by (simp add: MEM_swap64_def le_bytes_of_nat)

lemma of_nat_unat_div: "(of_nat (unat x div 2 ^ n) :: BYTE) = ucast (drop_bit n x)"
  by (rule word_unat_eq_iff[THEN iffD2]) (simp add: unat_of_nat unat_ucast_mod unat_drop_bit_div)

lemma le_bytes_2_nat: "le_bytes 2 v = [of_nat v, of_nat (v div 256)]"
  by (simp add: numeral_2_eq_2)

lemma le_bytes_3_nat: "le_bytes 3 v = [of_nat v, of_nat (v div 256), of_nat (v div 65536)]"
  by (simp add: numeral_3_eq_3 div_mult2_eq[symmetric])

lemma le_bytes_4_nat:
  "le_bytes 4 v = [of_nat v, of_nat (v div 2 ^ 8), of_nat (v div 2 ^ 16), of_nat (v div 2 ^ 24)]"
proof -
  have "(4::nat) = Suc (Suc (Suc (Suc 0)))" by simp
  then show ?thesis
    by (simp only: le_bytes.simps) (simp add: div_mult2_eq[symmetric])
qed

lemma le_bytes_8_nat:
  "le_bytes 8 v = [of_nat v, of_nat (v div 2 ^ 8), of_nat (v div 2 ^ 16), of_nat (v div 2 ^ 24),
     of_nat (v div 2 ^ 32), of_nat (v div 2 ^ 40), of_nat (v div 2 ^ 48), of_nat (v div 2 ^ 56)]"
  using le_bytes_append[of 4 4 v] by (simp add: le_bytes_4_nat div_mult2_eq[symmetric])

lemmas le_bytes_bits = le_bytes_4_nat le_bytes_8_nat of_nat_unat_div

lemma byte_masks32:
  "(0xff000000 :: U32) = push_bit 24 (mask 8)" "(0x00ff0000 :: U32) = push_bit 16 (mask 8)"
  "(0x0000ff00 :: U32) = push_bit 8 (mask 8)" "(0x000000ff :: U32) = mask 8"
  by (simp_all add: mask_eq_exp_minus_1 push_bit_eq_mult)

lemma byte_masks64:
  "(0xff00000000000000 :: U64) = push_bit 56 (mask 8)"
  "(0x00ff000000000000 :: U64) = push_bit 48 (mask 8)"
  "(0x0000ff0000000000 :: U64) = push_bit 40 (mask 8)"
  "(0x000000ff00000000 :: U64) = push_bit 32 (mask 8)"
  "(0x00000000ff000000 :: U64) = push_bit 24 (mask 8)"
  "(0x0000000000ff0000 :: U64) = push_bit 16 (mask 8)"
  "(0x000000000000ff00 :: U64) = push_bit 8 (mask 8)"
  "(0x00000000000000ff :: U64) = mask 8"
  by (simp_all add: mask_eq_exp_minus_1 push_bit_eq_mult)

lemma swap32_fallback_bytes:
  "le_bytes 4 (unat (MEM_swap32_fallback x)) = rev (le_bytes 4 (unat x))"
proof -
  have "(ucast (drop_bit 0 (MEM_swap32_fallback x)) :: BYTE) = ucast (drop_bit 24 x)"
    "(ucast (drop_bit 8 (MEM_swap32_fallback x)) :: BYTE) = ucast (drop_bit 16 x)"
    "(ucast (drop_bit 16 (MEM_swap32_fallback x)) :: BYTE) = ucast (drop_bit 8 x)"
    "(ucast (drop_bit 24 (MEM_swap32_fallback x)) :: BYTE) = ucast (drop_bit 0 x)"
    unfolding MEM_swap32_fallback_def byte_masks32
    by ((rule bit_word_eqI; auto simp: bit_simps)[1])+
  then show ?thesis
    by (simp only: le_bytes_bits) simp
qed

lemma swap64_fallback_bytes:
  "le_bytes 8 (unat (MEM_swap64_fallback x)) = rev (le_bytes 8 (unat x))"
proof -
  have "(ucast (drop_bit 0 (MEM_swap64_fallback x)) :: BYTE) = ucast (drop_bit 56 x)"
    "(ucast (drop_bit 8 (MEM_swap64_fallback x)) :: BYTE) = ucast (drop_bit 48 x)"
    "(ucast (drop_bit 16 (MEM_swap64_fallback x)) :: BYTE) = ucast (drop_bit 40 x)"
    "(ucast (drop_bit 24 (MEM_swap64_fallback x)) :: BYTE) = ucast (drop_bit 32 x)"
    "(ucast (drop_bit 32 (MEM_swap64_fallback x)) :: BYTE) = ucast (drop_bit 24 x)"
    "(ucast (drop_bit 40 (MEM_swap64_fallback x)) :: BYTE) = ucast (drop_bit 16 x)"
    "(ucast (drop_bit 48 (MEM_swap64_fallback x)) :: BYTE) = ucast (drop_bit 8 x)"
    "(ucast (drop_bit 56 (MEM_swap64_fallback x)) :: BYTE) = ucast (drop_bit 0 x)"
    unfolding MEM_swap64_fallback_def byte_masks64
    by ((rule bit_word_eqI; auto simp: bit_simps)[1])+
  then show ?thesis
    by (simp only: le_bytes_bits) simp
qed

lemma word_eq_by_bytes:
  "8 * n = LENGTH('a::len) \<Longrightarrow> le_bytes n (unat v) = le_bytes n (unat (w :: 'a word)) \<Longrightarrow> v = w"
  by (metis of_nat_le_bytes)

subsection \<open>Every accessor in terms of the bytes\<close>

lemma readLE16_eq:
  "p + 2 \<le> length buf \<Longrightarrow> MEM_readLE16 e buf p = of_nat (le_val (bytes_at buf p 2))"
  by (cases e) (simp_all add: MEM_readLE16_def MEM_isLittleEndian_def MEM_read16_def native_def
      bytes_at_2 push_bit_eq_mult unsigned_ucast_eq)

lemma readLE32_eq:
  "p + 4 \<le> length buf \<Longrightarrow> MEM_readLE32 e buf p = of_nat (le_val (bytes_at buf p 4))"
  by (cases e) (simp_all add: MEM_readLE32_def MEM_isLittleEndian_def MEM_read32_def native_def
      MEM_swap32_def le_bytes_of_nat)

lemma readLE64_eq:
  "p + 8 \<le> length buf \<Longrightarrow> MEM_readLE64 e buf p = of_nat (le_val (bytes_at buf p 8))"
  by (cases e) (simp_all add: MEM_readLE64_def MEM_isLittleEndian_def MEM_read64_def native_def
      MEM_swap64_def le_bytes_of_nat)

lemma ucast_of_nat_16_32: "n < 2 ^ 16 \<Longrightarrow> (ucast (of_nat n :: U16) :: U32) = of_nat n"
  by (rule word_unat_eq_iff[THEN iffD2]) (simp add: unat_ucast_mod unat_of_nat)

lemma readLE24_eq:
  assumes "p + 3 \<le> length buf"
  shows "MEM_readLE24 e buf p = of_nat (le_val (bytes_at buf p 3))"
proof -
  have "le_val (bytes_at buf p 2) < 2 ^ 16"
    using le_val_less[of "bytes_at buf p 2"] assms by simp
  moreover have "le_val (bytes_at buf p 3) = le_val (bytes_at buf p 2) + 65536 * unat (buf ! (p + 2))"
    using assms by (simp add: bytes_at_2 bytes_at_3)
  ultimately show ?thesis
    using assms by (simp add: MEM_readLE24_def readLE16_eq ucast_of_nat_16_32 push_bit_eq_mult)
qed

lemma ucast_drop_bit_byte: "(ucast (drop_bit 8 x) :: BYTE) = of_nat (unat x div 256)"
  "(ucast (drop_bit 16 x) :: BYTE) = of_nat (unat x div 65536)"
  using of_nat_unat_div[of x 8] of_nat_unat_div[of x 16] by simp_all

lemma ucast_byte_of_nat: "(ucast x :: BYTE) = of_nat (unat x)"
  using of_nat_unat_div[of x 0] by simp

lemma writeLE16_eq:
  "p + 2 \<le> length buf \<Longrightarrow> MEM_writeLE16 e buf p v = write_at buf p (le_bytes 2 (unat v))"
  by (cases e) (simp_all only: MEM_writeLE16_def MEM_isLittleEndian_def MEM_write16_def native_def
      le_bytes_2_nat write_at_2 ucast_drop_bit_byte ucast_byte_of_nat[of v] endian.simps if_True if_False refl)

lemma writeLE24_eq:
  assumes "p + 3 \<le> length buf"
  shows "MEM_writeLE24 e buf p v = write_at buf p (le_bytes 3 (unat v))"
proof -
  have "le_bytes 2 (unat (ucast v :: U16)) = le_bytes 2 (unat v)"
    using le_bytes_mod[of 2 "unat v"] by (simp add: unat_ucast_mod)
  then have "MEM_writeLE24 e buf p v =
      (write_at buf p (le_bytes 2 (unat v)))[p + 2 := of_nat (unat v div 65536)]"
    using assms by (simp only: MEM_writeLE24_def writeLE16_eq ucast_drop_bit_byte)
  also have "\<dots> = write_at buf p (le_bytes 3 (unat v))"
    using assms by (simp only: le_bytes_2_nat le_bytes_3_nat write_at_2 write_at_3)
  finally show ?thesis .
qed

lemma writeLE32_eq: "MEM_writeLE32 e buf p v = write_at buf p (le_bytes 4 (unat v))"
  by (cases e) (simp_all add: MEM_writeLE32_def MEM_isLittleEndian_def MEM_write32_def native_def
      le_bytes_swap32)

lemma writeLE64_eq: "MEM_writeLE64 e buf p v = write_at buf p (le_bytes 8 (unat v))"
  by (cases e) (simp_all add: MEM_writeLE64_def MEM_isLittleEndian_def MEM_write64_def native_def
      le_bytes_swap64)

lemma writeBE32_eq: "MEM_writeBE32 e buf p v = write_at buf p (rev (le_bytes 4 (unat v)))"
  by (cases e) (simp_all add: MEM_writeBE32_def MEM_isLittleEndian_def MEM_write32_def native_def
      le_bytes_swap32)

lemma writeBE64_eq: "MEM_writeBE64 e buf p v = write_at buf p (rev (le_bytes 8 (unat v)))"
  by (cases e) (simp_all add: MEM_writeBE64_def MEM_isLittleEndian_def MEM_write64_def native_def
      le_bytes_swap64)

lemma readBE32_eq:
  "p + 4 \<le> length buf \<Longrightarrow> MEM_readBE32 e buf p = of_nat (le_val (rev (bytes_at buf p 4)))"
  by (cases e) (simp_all add: MEM_readBE32_def MEM_isLittleEndian_def MEM_read32_def native_def
      MEM_swap32_def le_bytes_of_nat)

lemma readBE64_eq:
  "p + 8 \<le> length buf \<Longrightarrow> MEM_readBE64 e buf p = of_nat (le_val (rev (bytes_at buf p 8)))"
  by (cases e) (simp_all add: MEM_readBE64_def MEM_isLittleEndian_def MEM_read64_def native_def
      MEM_swap64_def le_bytes_of_nat)

lemmas mem_read_eqs = readLE16_eq readLE24_eq readLE32_eq readLE64_eq readBE32_eq readBE64_eq
lemmas mem_write_eqs = writeLE16_eq writeLE24_eq writeLE32_eq writeLE64_eq writeBE32_eq writeBE64_eq

subsection \<open>Properties\<close>

text \<open>
  The portable fallback of each byte swap computes what the compiler's byte-swap
  instruction does, for every 32-bit and every 64-bit value, and swapping twice is the identity.
\<close>

theorem swap_fallback_equiv:
  "MEM_swap32_fallback x = MEM_swap32 x \<and> MEM_swap64_fallback y = MEM_swap64 y
    \<and> MEM_swap32 (MEM_swap32 x) = x \<and> MEM_swap64 (MEM_swap64 y) = y"
  by (intro conjI word_eq_by_bytes[of 4] word_eq_by_bytes[of 8])
     (simp_all add: swap32_fallback_bytes swap64_fallback_bytes le_bytes_swap32 le_bytes_swap64)

text \<open>
  Stored integers are portable.  A value written by the little-endian (big-endian)
  accessors on a machine of one byte order is read back unchanged on a machine of any byte
  order, for the widths 16, 24, 32 and 64 (24-bit stores keep the low 24 bits), wherever the
  field lies inside the buffer; the buffer's length never changes.
\<close>

theorem mem_roundtrip_portable:
  fixes e e' :: endian
  assumes "p + 8 \<le> length buf"
  shows "MEM_readLE16 e' (MEM_writeLE16 e buf p v16) p = v16
    \<and> MEM_readLE24 e' (MEM_writeLE24 e buf p v32) p = take_bit 24 v32
    \<and> MEM_readLE32 e' (MEM_writeLE32 e buf p v32) p = v32
    \<and> MEM_readLE64 e' (MEM_writeLE64 e buf p v64) p = v64
    \<and> MEM_readBE32 e' (MEM_writeBE32 e buf p v32) p = v32
    \<and> MEM_readBE64 e' (MEM_writeBE64 e buf p v64) p = v64
    \<and> length (MEM_writeLE16 e buf p v16) = length buf
    \<and> length (MEM_writeLE24 e buf p v32) = length buf
    \<and> length (MEM_writeLE32 e buf p v32) = length buf
    \<and> length (MEM_writeLE64 e buf p v64) = length buf"
proof -
  have t: "(of_nat (unat v32 mod 2 ^ 24) :: U32) = take_bit 24 v32"
    by (rule word_unat_eq_iff[THEN iffD2])
       (simp only: unat_take_bit_mod unat_of_nat, simp)
  have "unat v16 mod 65536 = unat v16" "unat v32 mod 4294967296 = unat v32"
    "unat v64 mod 18446744073709551616 = unat v64"
    using unat_less_exp[of v16] unat_less_exp[of v32] unat_less_exp[of v64] by simp_all
  with assms t show ?thesis
    by (simp add: mem_read_eqs mem_write_eqs)
qed

theorem mem_roundtrip_portable_witness:
  "MEM_readLE32 LittleEndian (MEM_writeLE32 BigEndian (replicate 9 0) 1 0xFD2FB528) 1 = 0xFD2FB528"
  using mem_roundtrip_portable[of 1 "replicate 9 0" LittleEndian BigEndian 0 "0xFD2FB528" 0]
  by simp

end
