(* ===== verification/Zstd_Bits.thy ===== *)
theory Zstd_Bits
  imports Zstd_Mem
begin

section \<open>Bit counting and rotation (\<^verbatim>\<open>common/bits.h\<close>)\<close>

text \<open>
  The compiler's count-zero instructions, the portable De Bruijn fallbacks, the rotations and
  \<open>ZSTD_NbCommonBytes\<close>.  Each counting function has the precondition \<open>val != 0\<close>, which the
  source asserts.
\<close>

text \<open>\<open>__builtin_ctz\<close> / \<open>__builtin_clz\<close>: zero bits below the lowest, above the highest set bit.\<close>

definition builtin_ctz :: "'a::len word \<Rightarrow> nat" where
  "builtin_ctz w = length (takeWhile (\<lambda>n. \<not> bit w n) [0..<LENGTH('a)])"

definition builtin_clz :: "'a::len word \<Rightarrow> nat" where
  "builtin_clz w = length (takeWhile (\<lambda>n. \<not> bit w (LENGTH('a) - 1 - n)) [0..<LENGTH('a)])"

definition DeBruijnBytePos :: "nat list" where
  "DeBruijnBytePos = [0, 1, 28, 2, 29, 14, 24, 3, 30, 22, 20, 15, 25, 17, 4, 8,
     31, 27, 13, 23, 21, 19, 16, 7, 26, 12, 18, 6, 11, 5, 10, 9]"

definition ZSTD_countTrailingZeros32_fallback :: "U32 \<Rightarrow> nat" where
  "ZSTD_countTrailingZeros32_fallback val =
     DeBruijnBytePos ! unat (drop_bit 27 ((val AND (- val)) * 0x077CB531))"

definition ZSTD_countTrailingZeros32 :: "U32 \<Rightarrow> nat" where
  "ZSTD_countTrailingZeros32 val = builtin_ctz val"

definition DeBruijnClz :: "nat list" where
  "DeBruijnClz = [0, 9, 1, 10, 13, 21, 2, 29, 11, 14, 16, 18, 22, 25, 3, 30,
     8, 12, 20, 28, 15, 17, 24, 7, 19, 27, 23, 6, 26, 5, 4, 31]"

definition ZSTD_countLeadingZeros32_fallback :: "U32 \<Rightarrow> nat" where
  "ZSTD_countLeadingZeros32_fallback val =
     (let v1 = val OR drop_bit 1 val;
          v2 = v1 OR drop_bit 2 v1;
          v3 = v2 OR drop_bit 4 v2;
          v4 = v3 OR drop_bit 8 v3;
          v5 = v4 OR drop_bit 16 v4
      in 31 - DeBruijnClz ! unat (drop_bit 27 (v5 * 0x07C4ACDD)))"

definition ZSTD_countLeadingZeros32 :: "U32 \<Rightarrow> nat" where
  "ZSTD_countLeadingZeros32 val = builtin_clz val"

text \<open>The 64-bit counters: the compiler's instruction, and the branch without one.\<close>

definition ZSTD_countTrailingZeros64 :: "U64 \<Rightarrow> nat" where
  "ZSTD_countTrailingZeros64 val = builtin_ctz val"

definition ZSTD_countTrailingZeros64_halves :: "U64 \<Rightarrow> nat" where
  "ZSTD_countTrailingZeros64_halves val =
     (let mostSignificantWord = (ucast (drop_bit 32 val) :: U32);
          leastSignificantWord = (ucast val :: U32)
      in if leastSignificantWord = 0 then 32 + ZSTD_countTrailingZeros32 mostSignificantWord
         else ZSTD_countTrailingZeros32 leastSignificantWord)"

definition ZSTD_countLeadingZeros64 :: "U64 \<Rightarrow> nat" where
  "ZSTD_countLeadingZeros64 val = builtin_clz val"

definition ZSTD_countLeadingZeros64_halves :: "U64 \<Rightarrow> nat" where
  "ZSTD_countLeadingZeros64_halves val =
     (let mostSignificantWord = (ucast (drop_bit 32 val) :: U32);
          leastSignificantWord = (ucast val :: U32)
      in if mostSignificantWord = 0 then 32 + ZSTD_countLeadingZeros32 leastSignificantWord
         else ZSTD_countLeadingZeros32 mostSignificantWord)"

definition ZSTD_NbCommonBytes :: "endian \<Rightarrow> size_t \<Rightarrow> nat" where
  "ZSTD_NbCommonBytes e val =
     (if MEM_isLittleEndian e then ZSTD_countTrailingZeros64 val div 8
      else ZSTD_countLeadingZeros64 val div 8)"

definition ZSTD_highbit32 :: "U32 \<Rightarrow> nat" where
  "ZSTD_highbit32 val = 31 - ZSTD_countLeadingZeros32 val"

definition ZSTD_rotateRight_U64 :: "U64 \<Rightarrow> U32 \<Rightarrow> U64" where
  "ZSTD_rotateRight_U64 value count =
     (let c = count AND 0x3F
      in drop_bit (unat c) value OR push_bit (unat ((0 - c) AND 0x3F)) value)"

definition ZSTD_rotateRight_U32 :: "U32 \<Rightarrow> U32 \<Rightarrow> U32" where
  "ZSTD_rotateRight_U32 value count =
     (let c = count AND 0x1F
      in drop_bit (unat c) value OR push_bit (unat ((0 - c) AND 0x1F)) value)"

definition ZSTD_rotateRight_U16 :: "U16 \<Rightarrow> U32 \<Rightarrow> U16" where
  "ZSTD_rotateRight_U16 value count =
     (let c = count AND 0x0F
      in drop_bit (unat c) value OR push_bit (unat ((0 - c) AND 0x0F)) value)"

subsection \<open>The counting instructions\<close>

lemma takeWhile_upt_length:
  assumes "k < m" "P k" "\<And>n. n < k \<Longrightarrow> \<not> P n"
  shows "length (takeWhile (\<lambda>n. \<not> P n) [0..<m]) = k"
proof -
  have "[0..<m] = [0..<k] @ [k..<m]"
    using assms(1) upt_add_eq_append[of 0 k "m - k"] by simp
  moreover have "takeWhile (\<lambda>n. \<not> P n) ([0..<k] @ [k..<m]) = [0..<k] @ takeWhile (\<lambda>n. \<not> P n) [k..<m]"
    using assms(3) by (intro takeWhile_append2) auto
  moreover have "takeWhile (\<lambda>n. \<not> P n) [k..<m] = []"
    using assms by (simp add: upt_conv_Cons)
  ultimately show ?thesis by simp
qed

lemma ctz_unique: "bit (w::'a::len word) k \<Longrightarrow> (\<And>n. n < k \<Longrightarrow> \<not> bit w n) \<Longrightarrow> builtin_ctz w = k"
  unfolding builtin_ctz_def by (rule takeWhile_upt_length) (auto simp: bit_imp_le_length)

lemma clz_unique:
  assumes "bit (w::'a::len word) k" "\<And>n. k < n \<Longrightarrow> \<not> bit w n"
  shows "builtin_clz w = LENGTH('a) - 1 - k"
proof -
  have "k < LENGTH('a)" using assms(1) by (rule bit_imp_le_length)
  then show ?thesis
    unfolding builtin_clz_def using assms
    by (intro takeWhile_upt_length) auto
qed

lemma lowbitE:
  assumes "(w::'a::len word) \<noteq> 0"
  obtains k where "bit w k" "\<And>n. n < k \<Longrightarrow> \<not> bit w n" "builtin_ctz w = k" "k < LENGTH('a)"
proof -
  have "\<exists>k. bit w k" using assms bit_eqI[of w 0] by auto
  then obtain k where "bit w k" "\<forall>n<k. \<not> bit w n" using exists_least_iff[of "bit w"] by blast
  with that[of k] show thesis by (simp add: ctz_unique bit_imp_le_length)
qed

lemma highbitE:
  assumes "(w::'a::len word) \<noteq> 0"
  obtains k where "bit w k" "\<And>n. k < n \<Longrightarrow> \<not> bit w n" "builtin_clz w = LENGTH('a) - 1 - k"
    "k < LENGTH('a)"
proof -
  obtain j where j: "bit w j" using lowbitE[OF assms] by blast
  define k where "k = (GREATEST n. bit w n)"
  have bnd: "\<forall>n. bit w n \<longrightarrow> n \<le> LENGTH('a)" by (auto dest: bit_imp_le_length)
  have 1: "bit w k" unfolding k_def by (rule GreatestI_nat[where P = "bit w" and k = j]) (use j bnd in auto)
  have 2: "n \<le> k" if "bit w n" for n
    unfolding k_def by (rule Greatest_le_nat[where P = "bit w"]) (use that bnd in auto)
  have "\<not> bit w n" if "k < n" for n using 2[of n] that by auto
  with 1 that[of k] show thesis by (simp add: clz_unique bit_imp_le_length)
qed

lemma unat_less_iff_bits: "unat (w::'a::len word) < 2 ^ k \<longleftrightarrow> (\<forall>n\<ge>k. \<not> bit w n)"
proof -
  have "unat w < 2 ^ k \<longleftrightarrow> unat (drop_bit k w) = 0"
    by (simp add: unat_drop_bit_div div_eq_0_iff del: unat_eq_0)
  also have "\<dots> \<longleftrightarrow> (\<forall>n. \<not> bit (drop_bit k w) n)"
    by (metis bit_0_eq bot_apply bot_bool_def bit_eqI unat_0_iff)
  also have "\<dots> \<longleftrightarrow> (\<forall>n\<ge>k. \<not> bit w n)"
    by (auto simp: bit_drop_bit_eq le_iff_add)
  finally show ?thesis .
qed

lemma highbit_bounds:
  assumes "bit (w::'a::len word) k" "\<And>n. k < n \<Longrightarrow> \<not> bit w n"
  shows "2 ^ k \<le> unat w" "unat w < 2 ^ Suc k"
proof -
  show "2 ^ k \<le> unat w" using unat_less_iff_bits[of w k] assms(1) by (meson not_less order_refl)
  show "unat w < 2 ^ Suc k" using unat_less_iff_bits[of w "Suc k"] assms(2) by auto
qed

text \<open>\<open>ZSTD_highbit32\<close> is the floor of the base-two logarithm.\<close>

lemma highbit32_bounds:
  "val \<noteq> 0 \<Longrightarrow> 2 ^ ZSTD_highbit32 val \<le> unat val \<and> unat val < 2 ^ Suc (ZSTD_highbit32 val)
     \<and> ZSTD_highbit32 val < 32"
  by (erule highbitE)
     (simp add: ZSTD_highbit32_def ZSTD_countLeadingZeros32_def highbit_bounds del: power_Suc)

lemma pow2_log_le: "2 ^ a \<le> n \<Longrightarrow> n < 2 ^ Suc b \<Longrightarrow> a \<le> b" for n :: nat
  by (rule less_Suc_eq_le[THEN iffD1], rule power_less_imp_less_exp[of "2::nat"]) auto

lemma pow2_log_unique: "2 ^ a \<le> n \<Longrightarrow> n < 2 ^ Suc a \<Longrightarrow> 2 ^ b \<le> n \<Longrightarrow> n < 2 ^ Suc b \<Longrightarrow> a = b"
  for n :: nat
  by (blast intro: pow2_log_le le_antisym)

lemma highbit32_unique: "2 ^ k \<le> unat val \<Longrightarrow> unat val < 2 ^ Suc k \<Longrightarrow> ZSTD_highbit32 val = k"
  using highbit32_bounds[of val] pow2_log_unique[of "ZSTD_highbit32 val" "unat val" k]
  by (metis le_zero_eq power_not_zero unsigned_0 zero_neq_numeral)

lemma smear_step:
  assumes "\<And>n. bit (v::'a::len word) n \<longleftrightarrow> (\<exists>j<k. bit w (n + j))"
  shows "bit (v OR drop_bit k v) n \<longleftrightarrow> (\<exists>j<2 * k. bit w (n + j))"
proof -
  have "(\<exists>j<2 * k. bit w (n + j)) \<longleftrightarrow> (\<exists>j<k. bit w (n + j)) \<or> (\<exists>j<k. bit w (k + n + j))"
  proof
    assume "\<exists>j<2 * k. bit w (n + j)"
    then obtain j where j: "j < 2 * k" "bit w (n + j)" by blast
    show "(\<exists>j<k. bit w (n + j)) \<or> (\<exists>j<k. bit w (k + n + j))"
    proof (cases "j < k")
      case False
      with j have "j - k < k" "bit w (k + n + (j - k))" by (auto simp: algebra_simps)
      then show ?thesis by blast
    qed (use j in blast)
  next
    assume "(\<exists>j<k. bit w (n + j)) \<or> (\<exists>j<k. bit w (k + n + j))"
    then show "\<exists>j<2 * k. bit w (n + j)"
    proof
      assume "\<exists>j<k. bit w (k + n + j)"
      then obtain j where "j < k" "bit w (n + (k + j))" by (auto simp: algebra_simps)
      then show ?thesis by (intro exI[of _ "k + j"]) auto
    qed force
  qed
  then show ?thesis by (simp add: bit_or_iff bit_drop_bit_eq assms add.commute)
qed

lemma smear_eq_mask:
  assumes "bit (w::U32) k" "\<And>n. k < n \<Longrightarrow> \<not> bit w n"
    and "v1 = w OR drop_bit 1 w" "v2 = v1 OR drop_bit 2 v1" "v3 = v2 OR drop_bit 4 v2"
    and "v4 = v3 OR drop_bit 8 v3" "v5 = v4 OR drop_bit 16 v4"
  shows "v5 = mask (Suc k)"
proof -
  have "\<And>n. bit v1 n \<longleftrightarrow> (\<exists>j<2. bit w (n + j))"
    using smear_step[of w 1 w] assms(3) by simp
  then have "\<And>n. bit v2 n \<longleftrightarrow> (\<exists>j<4. bit w (n + j))"
    using smear_step[of v1 2 w] assms(4) by simp
  then have "\<And>n. bit v3 n \<longleftrightarrow> (\<exists>j<8. bit w (n + j))"
    using smear_step[of v2 4 w] assms(5) by simp
  then have "\<And>n. bit v4 n \<longleftrightarrow> (\<exists>j<16. bit w (n + j))"
    using smear_step[of v3 8 w] assms(6) by simp
  then have b: "\<And>n. bit v5 n \<longleftrightarrow> (\<exists>j<32. bit w (n + j))"
    using smear_step[of v4 16 w] assms(7) by simp
  have "(\<exists>j<32. bit w (n + j)) \<longleftrightarrow> n \<le> k" for n
  proof
    assume "n \<le> k"
    moreover have "k < 32" using bit_imp_le_length[OF assms(1)] by simp
    ultimately show "\<exists>j<32. bit w (n + j)"
      using assms(1) by (intro exI[of _ "k - n"]) auto
  qed (use assms(2) in \<open>meson le_add1 not_less order_trans\<close>)
  with b show ?thesis
    by (intro bit_word_eqI) (simp add: bit_mask_iff less_Suc_eq_le)
qed

lemma lowest_bit_power:
  assumes "bit (w::'a::len word) k" "\<And>n. n < k \<Longrightarrow> \<not> bit w n"
  shows "w AND - w = 2 ^ k"
proof -
  define v where "v = drop_bit k w"
  have "k \<le> n" if "bit w n" for n using assms(2)[of n] that not_less by blast
  then have w: "w = push_bit k v"
    by (intro bit_word_eqI) (auto simp: v_def bit_simps)
  have "odd v" using assms(1) by (simp add: v_def bit_iff_odd_drop_bit)
  then have "even (NOT v)" by simp
  then have "- v = NOT v OR 1"
    by (simp add: minus_eq_not_plus_1 even_or_iff or_one_eq)
  moreover have "- w = push_bit k (- v)"
    by (simp add: w push_bit_eq_mult)
  ultimately have "w AND - w = push_bit k (v AND (NOT v OR 1))"
    by (simp add: w push_bit_and)
  also have "v AND (NOT v OR 1) = 1"
    using \<open>odd v\<close> by (simp add: bit.conj_disj_distrib and_one_eq odd_iff_mod_2_eq_one)
  finally show ?thesis by simp
qed

lemma all_less_32: "(\<forall>k<32. P k) \<longleftrightarrow> list_all P
  [0, 1, 2, 3, 4, 5, 6, 7, 8, 9, 10, 11, 12, 13, 14, 15, 16, 17, 18, 19, 20, 21, 22, 23, 24, 25,
   26, 27, 28, 29, 30, 31]" for P :: "nat \<Rightarrow> bool"
proof -
  have "[0..<32] = [0, 1, 2, 3, 4, 5, 6, 7, 8, 9, 10, 11, 12, 13, 14, 15, 16, 17, 18, 19, 20, 21,
    22, 23, 24, 25, 26, 27, 28, 29, 30, 31]" by code_simp
  moreover have "(\<forall>k<32. P k) \<longleftrightarrow> list_all P [0..<32]" by (auto simp: list_all_iff)
  ultimately show ?thesis by simp
qed

lemma debruijn_ctz:
  "k < 32 \<Longrightarrow> DeBruijnBytePos ! unat (drop_bit 27 (2 ^ k * 0x077CB531 :: U32)) = k"
proof -
  have "\<forall>k<32. DeBruijnBytePos ! unat (drop_bit 27 (2 ^ k * 0x077CB531 :: U32)) = k"
    unfolding all_less_32 DeBruijnBytePos_def by simp
  then show "k < 32 \<Longrightarrow> ?thesis" by blast
qed

lemma debruijn_clz:
  "k < 32 \<Longrightarrow> DeBruijnClz ! unat (drop_bit 27 (mask (Suc k) * 0x07C4ACDD :: U32)) = k"
proof -
  have "\<forall>k<32. DeBruijnClz ! unat (drop_bit 27 (mask (Suc k) * 0x07C4ACDD :: U32)) = k"
    unfolding all_less_32 DeBruijnClz_def by (simp add: mask_eq_exp_minus_1)
  then show "k < 32 \<Longrightarrow> ?thesis" by blast
qed

lemma ctz_halves:
  "val \<noteq> 0 \<Longrightarrow> ZSTD_countTrailingZeros64_halves val = ZSTD_countTrailingZeros64 val"
proof -
  assume "val \<noteq> 0"
  then obtain k where k: "bit val k" "\<And>n. n < k \<Longrightarrow> \<not> bit val n" "builtin_ctz val = k" "k < 64"
    by (rule lowbitE) auto
  show ?thesis
  proof (cases "k < 32")
    case True
    then have "bit (ucast val :: U32) k" using k(1) by (simp add: bit_simps)
    moreover from this have "(ucast val :: U32) \<noteq> 0" by auto
    moreover have "\<And>n. n < k \<Longrightarrow> \<not> bit (ucast val :: U32) n" using k(2) by (simp add: bit_simps)
    ultimately show ?thesis
      using k(3) by (simp add: ZSTD_countTrailingZeros64_halves_def ZSTD_countTrailingZeros32_def
          ZSTD_countTrailingZeros64_def ctz_unique)
  next
    case False
    then have "(ucast val :: U32) = 0" using k(2) by (intro bit_word_eqI) (simp add: bit_simps)
    moreover have "builtin_ctz (ucast (drop_bit 32 val) :: U32) = k - 32"
      using False k by (intro ctz_unique) (auto simp: bit_simps)
    ultimately show ?thesis
      using k(3) False by (simp add: ZSTD_countTrailingZeros64_halves_def
          ZSTD_countTrailingZeros32_def ZSTD_countTrailingZeros64_def)
  qed
qed

lemma clz_halves:
  "val \<noteq> 0 \<Longrightarrow> ZSTD_countLeadingZeros64_halves val = ZSTD_countLeadingZeros64 val"
proof -
  assume "val \<noteq> 0"
  then obtain k where k: "bit val k" "\<And>n. k < n \<Longrightarrow> \<not> bit val n" "builtin_clz val = 63 - k" "k < 64"
    by (rule highbitE) auto
  show ?thesis
  proof (cases "k < 32")
    case True
    then have "(ucast (drop_bit 32 val) :: U32) = 0"
      using k(2) by (intro bit_word_eqI) (simp add: bit_simps)
    moreover have "builtin_clz (ucast val :: U32) = LENGTH(32) - 1 - k"
      using True k by (intro clz_unique) (auto simp: bit_simps)
    ultimately show ?thesis
      using k(3) True by (simp add: ZSTD_countLeadingZeros64_halves_def
          ZSTD_countLeadingZeros32_def ZSTD_countLeadingZeros64_def)
  next
    case False
    have b: "bit (ucast (drop_bit 32 val) :: U32) (k - 32)" using False k by (simp add: bit_simps)
    then have "(ucast (drop_bit 32 val) :: U32) \<noteq> 0" by auto
    moreover have "builtin_clz (ucast (drop_bit 32 val) :: U32) = LENGTH(32) - 1 - (k - 32)"
      using False k b by (intro clz_unique) (auto simp: bit_simps)
    ultimately show ?thesis
      using k(3) False by (simp add: ZSTD_countLeadingZeros64_halves_def
          ZSTD_countLeadingZeros32_def ZSTD_countLeadingZeros64_def)
  qed
qed

lemma clz_fallback_eq:
  assumes "val \<noteq> 0"
  shows "ZSTD_countLeadingZeros32_fallback val = ZSTD_countLeadingZeros32 val"
proof -
  obtain k where k: "bit val k" "\<And>n. k < n \<Longrightarrow> \<not> bit val n" "builtin_clz val = 31 - k" "k < 32"
    using assms by (rule highbitE) auto
  define v1 v2 v3 v4 v5
    where v_defs: "v1 = val OR drop_bit 1 val" "v2 = v1 OR drop_bit 2 v1"
      "v3 = v2 OR drop_bit 4 v2" "v4 = v3 OR drop_bit 8 v3" "v5 = v4 OR drop_bit 16 v4"
  have "v5 = mask (Suc k)"
    using k(1,2) v_defs by (rule smear_eq_mask)
  moreover have "ZSTD_countLeadingZeros32_fallback val =
      31 - DeBruijnClz ! unat (drop_bit 27 (v5 * 0x07C4ACDD))"
    by (simp only: ZSTD_countLeadingZeros32_fallback_def Let_def v_defs)
  ultimately show ?thesis
    using k(3,4) by (simp only: debruijn_clz ZSTD_countLeadingZeros32_def)
qed

text \<open>
  On every non-zero input the portable bit counters (De Bruijn multiplication, and
  the split of a 64-bit value into halves) agree with the compiler's instructions, and
  \<open>ZSTD_highbit32\<close> is the floor of the base-two logarithm.
\<close>

theorem bit_count_fallbacks:
  fixes val :: U32 and wide :: U64
  assumes "val \<noteq> 0" "wide \<noteq> 0"
  shows "ZSTD_countTrailingZeros32_fallback val = ZSTD_countTrailingZeros32 val
    \<and> ZSTD_countLeadingZeros32_fallback val = ZSTD_countLeadingZeros32 val
    \<and> ZSTD_countTrailingZeros64_halves wide = ZSTD_countTrailingZeros64 wide
    \<and> ZSTD_countLeadingZeros64_halves wide = ZSTD_countLeadingZeros64 wide
    \<and> 2 ^ ZSTD_highbit32 val \<le> unat val \<and> unat val < 2 ^ (ZSTD_highbit32 val + 1)"
proof -
  have "ZSTD_countTrailingZeros32_fallback val = ZSTD_countTrailingZeros32 val"
    using assms(1) by (rule lowbitE) (simp add: ZSTD_countTrailingZeros32_fallback_def
        ZSTD_countTrailingZeros32_def lowest_bit_power debruijn_ctz)
  moreover have "ZSTD_countLeadingZeros32_fallback val = ZSTD_countLeadingZeros32 val"
    using assms(1) by (rule clz_fallback_eq)
  ultimately show ?thesis
    using assms ctz_halves clz_halves highbit32_bounds[of val] by simp
qed

theorem bit_count_fallbacks_witness:
  "ZSTD_countTrailingZeros32_fallback 0x50000 = ZSTD_countTrailingZeros32 0x50000
    \<and> ZSTD_countLeadingZeros64_halves 7 = ZSTD_countLeadingZeros64 7"
  using bit_count_fallbacks[of "0x50000" 7] by simp

subsection \<open>Rotations\<close>

lemma neg_count_mask: "c < 2 ^ m \<Longrightarrow> 0 < c \<Longrightarrow> m < 32 \<Longrightarrow> unat ((0 - of_nat c :: U32) AND mask m) = 2 ^ m - c"
proof -
  assume c: "c < 2 ^ m" "0 < c" "m < 32"
  then have small: "c < 2 ^ 32"
    using less_trans power_strict_increasing[of m 32 "2::nat"] by auto
  then have un: "unat (of_nat c :: U32) = c" by (simp add: unat_of_nat)
  then have "(of_nat c :: U32) \<noteq> 0" using c(2) by auto
  then have "unat (- of_nat c :: U32) = 2 ^ 32 - c" using un by (simp add: unat_uminus)
  moreover have "(2 ^ 32 - c) mod 2 ^ m = (2::nat) ^ m - c"
  proof -
    obtain q where q: "(2::nat) ^ (32 - m) = Suc q"
      using not0_implies_Suc[of "2 ^ (32 - m)"] by auto
    have "(2::nat) ^ 32 = 2 ^ m * 2 ^ (32 - m)" using c(3) by (simp only: power_add[symmetric]) simp
    also have "\<dots> = 2 ^ m + 2 ^ m * q" by (simp only: q) simp
    finally have "(2::nat) ^ 32 - c = (2 ^ m - c) + 2 ^ m * q" using c(1) by linarith
    then show ?thesis using c by (simp only: mod_mult_self2) simp
  qed
  ultimately show ?thesis by (simp add: unat_and_mask)
qed

lemma rotr_by_shifts:
  assumes "c < LENGTH('a::len)" and "s = (if c = 0 then 0 else LENGTH('a) - c)"
  shows "drop_bit c w OR push_bit s w = word_rotr c (w :: 'a word)"
proof (rule bit_word_eqI)
  fix n assume n: "n < LENGTH('a)"
  have "bit (word_rotr c w) n = bit w ((n + c) mod LENGTH('a))"
    using n by (simp add: bit_word_rotr_iff)
  also have "\<dots> = bit (drop_bit c w OR push_bit s w) n"
    using n assms by (auto simp: bit_simps mod_if add.commute bit_imp_le_length
        dest: bit_imp_le_length)
  finally show "bit (drop_bit c w OR push_bit s w) n = bit (word_rotr c w) n" by simp
qed

lemma rotate_count:
  fixes count :: U32
  assumes "unat count < 2 ^ m" "m < 32"
  shows "unat (count AND mask m) = unat count"
    and "unat ((0 - (count AND mask m)) AND mask m) = (if unat count = 0 then 0 else 2 ^ m - unat count)"
proof -
  show 1: "unat (count AND mask m) = unat count" using assms by (simp add: unat_and_mask)
  then have "count AND mask m = of_nat (unat count)" by (metis word_unat_eq_iff unsigned_of_nat
        of_nat_unat ucast_id)
  then show "unat ((0 - (count AND mask m)) AND mask m) = (if unat count = 0 then 0 else 2 ^ m - unat count)"
    using neg_count_mask[of "unat count" m] assms by (cases "count = 0") (auto simp: unat_gt_0)
qed

lemma rotate_masked:
  fixes count :: U32
  assumes "LENGTH('a::len) = 2 ^ m" "m < 32" "unat count < 2 ^ m"
  shows "drop_bit (unat (count AND mask m)) x
      OR push_bit (unat ((0 - (count AND mask m)) AND mask m)) x = word_rotr (unat count) (x :: 'a word)"
  using assms by (simp only: rotate_count) (rule rotr_by_shifts; simp)

text \<open>
  For every rotation count in range, \<open>ZSTD_rotateRight_U64\<close>, \<open>_U32\<close> and \<open>_U16\<close>,
  built from two shifts with a masked negated count, are the rotations of the word.
\<close>

theorem rotateRight_is_rotation:
  "(unat count < 64 \<longrightarrow> ZSTD_rotateRight_U64 x count = word_rotr (unat count) x)
    \<and> (unat count < 32 \<longrightarrow> ZSTD_rotateRight_U32 y count = word_rotr (unat count) y)
    \<and> (unat count < 16 \<longrightarrow> ZSTD_rotateRight_U16 z count = word_rotr (unat count) z)"
proof -
  have masks: "(0x3F::U32) = mask 6" "(0x1F::U32) = mask 5" "(0x0F::U32) = mask 4"
    by (simp_all add: mask_eq_exp_minus_1)
  show ?thesis
    unfolding ZSTD_rotateRight_U64_def ZSTD_rotateRight_U32_def ZSTD_rotateRight_U16_def Let_def masks
    by (intro conjI impI rotate_masked) simp_all
qed

theorem rotateRight_is_rotation_witness:
  "ZSTD_rotateRight_U64 1 4 = word_rotr 4 1 \<and> ZSTD_rotateRight_U32 1 4 = word_rotr 4 1
    \<and> ZSTD_rotateRight_U16 1 4 = word_rotr 4 1"
  using rotateRight_is_rotation[of 4 1 1 1] by simp

subsection \<open>Counting equal leading bytes\<close>

fun common_prefix :: "'a list \<Rightarrow> 'a list \<Rightarrow> nat" where
  "common_prefix (x # xs) (y # ys) = (if x = y then Suc (common_prefix xs ys) else 0)"
| "common_prefix _ _ = 0"

lemma common_prefix_unique:
  "k < length xs \<Longrightarrow> k < length ys \<Longrightarrow> xs ! k \<noteq> ys ! k \<Longrightarrow> (\<And>i. i < k \<Longrightarrow> xs ! i = ys ! i) \<Longrightarrow>
    common_prefix xs ys = k"
proof (induction xs ys arbitrary: k rule: common_prefix.induct)
  case (1 x xs y ys)
  show ?case
  proof (cases k)
    case 0
    with 1 show ?thesis by simp
  next
    case (Suc j)
    have "xs ! i = ys ! i" if "i < j" for i using 1(5)[of "Suc i"] that Suc by simp
    moreover have "x = y" using 1(5)[of 0] Suc by simp
    ultimately show ?thesis using 1 Suc by simp
  qed
qed auto

lemma nth_le_bytes: "i < n \<Longrightarrow> le_bytes n v ! i = of_nat (v div 256 ^ i)"
  by (induction n arbitrary: v i) (auto simp: nth_Cons' div_mult2_eq[symmetric] power_Suc[symmetric]
      simp del: power_Suc)

lemma byte_of_word: "(of_nat (unat (w::'a::len word) div 256 ^ i) :: BYTE) = ucast (drop_bit (8 * i) w)"
  using of_nat_unat_div[of w "8 * i"] by (simp add: pow256)

lemma bytes_equal_iff:
  "(ucast (drop_bit s (a::U64)) :: BYTE) = ucast (drop_bit s b)
     \<longleftrightarrow> (\<forall>n<8. \<not> bit (a XOR b) (s + n))"
  by (auto simp: bit_eq_iff bit_simps)

lemma xor_nonzero: "a \<noteq> b \<Longrightarrow> a XOR b \<noteq> (0::'a::len word)"
  by (metis xor.assoc xor_self_eq xor.right_neutral)

lemma common_bytes_LE:
  assumes "a \<noteq> (b::U64)"
  shows "common_prefix (le_bytes 8 (unat a)) (le_bytes 8 (unat b)) = builtin_ctz (a XOR b) div 8"
proof -
  have "a XOR b \<noteq> 0" using assms by (rule xor_nonzero)
  then obtain k where k: "bit (a XOR b) k" "\<And>n. n < k \<Longrightarrow> \<not> bit (a XOR b) n"
    "builtin_ctz (a XOR b) = k" "k < 64"
    by (rule lowbitE) auto
  have "k = 8 * (k div 8) + k mod 8" by simp
  then have "\<not> (\<forall>n<8. \<not> bit (a XOR b) (8 * (k div 8) + n))"
    using k(1) mod_less_divisor[of 8 k] by (metis zero_less_numeral)
  moreover have "\<forall>n<8. \<not> bit (a XOR b) (8 * i + n)" if "i < k div 8" for i
    using that k(2) by auto
  ultimately show ?thesis
    using k(3,4)
    by (intro common_prefix_unique) (auto simp: nth_le_bytes byte_of_word bytes_equal_iff simp del: bit_xor_iff)
qed

lemma common_bytes_BE:
  assumes "a \<noteq> (b::U64)"
  shows "common_prefix (rev (le_bytes 8 (unat a))) (rev (le_bytes 8 (unat b))) = builtin_clz (a XOR b) div 8"
proof -
  have "a XOR b \<noteq> 0" using assms by (rule xor_nonzero)
  then obtain k where k: "bit (a XOR b) k" "\<And>n. k < n \<Longrightarrow> \<not> bit (a XOR b) n"
    "builtin_clz (a XOR b) = 63 - k" "k < 64"
    by (rule highbitE) auto
  have d: "(63 - k) div 8 = 7 - k div 8" using k(4) by linarith
  have "k = 8 * (k div 8) + k mod 8" by simp
  then have "\<not> (\<forall>n<8. \<not> bit (a XOR b) (8 * (k div 8) + n))"
    using k(1) mod_less_divisor[of 8 k] by (metis zero_less_numeral)
  moreover have "7 - (7 - k div 8) = k div 8" using k(4) by linarith
  moreover have "\<forall>n<8. \<not> bit (a XOR b) (8 * (7 - i) + n)" if "i < 7 - k div 8" for i
    using that k(2) by auto
  ultimately show ?thesis
    using k(3,4) d
    by (intro common_prefix_unique)
       (auto simp: rev_nth nth_le_bytes byte_of_word bytes_equal_iff simp del: bit_xor_iff)
qed

text \<open>
  For two different machine words loaded from memory, \<open>ZSTD_NbCommonBytes\<close> of their
  exclusive-or is the number of bytes the two memory areas have in common at their start, on
  little- and on big-endian machines.
\<close>

theorem NbCommonBytes_correct:
  assumes "p + 8 \<le> length buf" "q + 8 \<le> length buf'"
    and "MEM_read64 e buf p \<noteq> MEM_read64 e buf' q"
  shows "ZSTD_NbCommonBytes e (MEM_read64 e buf p XOR MEM_read64 e buf' q)
    = common_prefix (bytes_at buf p 8) (bytes_at buf' q 8)"
proof -
  have "le_bytes 8 (unat (MEM_read64 e buf p)) = native e (bytes_at buf p 8)"
    "le_bytes 8 (unat (MEM_read64 e buf' q)) = native e (bytes_at buf' q 8)"
    using assms(1,2) by (simp_all add: MEM_read64_def le_bytes_of_nat)
  then show ?thesis
    using common_bytes_LE[OF assms(3)] common_bytes_BE[OF assms(3)]
    by (cases e) (simp_all add: ZSTD_NbCommonBytes_def MEM_isLittleEndian_def native_def
        ZSTD_countTrailingZeros64_def ZSTD_countLeadingZeros64_def)
qed

theorem NbCommonBytes_correct_witness:
  "ZSTD_NbCommonBytes LittleEndian (MEM_read64 LittleEndian [1,2,3,4,5,6,7,8] 0
      XOR MEM_read64 LittleEndian [1,2,3,0,5,6,7,8] 0) = 3"
proof -
  have "MEM_read64 LittleEndian [1,2,3,4,5,6,7,8] 0 \<noteq> MEM_read64 LittleEndian [1,2,3,0,5,6,7,8] 0"
    by (simp add: MEM_read64_def native_def bytes_at_def)
  from NbCommonBytes_correct[OF _ _ this] show ?thesis by (simp add: bytes_at_def)
qed

end
