(* ===== verification/Zstd_Spread.thy ===== *)
theory Zstd_Spread
  imports Zstd_Bits "HOL-Library.Multiset"
begin

section \<open>Spreading symbols over an FSE table\<close>

text \<open>
  Three table builders of the library (\<^verbatim>\<open>FSE_buildDTable_internal\<close> in
  \<^verbatim>\<open>common/fse_decompress.c\<close>, \<^verbatim>\<open>FSE_buildCTable_wksp\<close> in
  \<^verbatim>\<open>compress/fse_compress.c\<close> and \<^verbatim>\<open>ZSTD_buildFSETable_body\<close> in
  \<^verbatim>\<open>decompress/zstd_decompress_block.c\<close>) contain the same loops that distribute the
  symbols over the cells of a table of \<open>2 ^ tableLog\<close> cells.  The loops are modelled once, with
  the assignment \<open>table[position].symbol = s\<close> as the parameter \<open>put\<close>.  Unsigned 32-bit
  quantities that stay below the table size are natural numbers.

  The theory shows that the two variants (stepping over the cells of low-probability symbols, and
  the one that lays the symbols down eight bytes at a time and is unrolled) both write the
  symbols, in order, to the cells visited by the step sequence, that this sequence visits every
  cell once, and that the while loop which skips the low-probability area ends.
\<close>

subsection \<open>The loops\<close>

definition FSE_TABLESTEP :: "nat \<Rightarrow> nat" where
  "FSE_TABLESTEP tableSize = tableSize div 2 + tableSize div 8 + 3"

text \<open>Subtraction of unsigned 32-bit values, and the decrement.\<close>

definition sub32 :: "nat \<Rightarrow> nat \<Rightarrow> nat" where
  "sub32 a b = (a + 2 ^ 32 - b) mod 2 ^ 32"

definition dec32 :: "nat \<Rightarrow> nat" where
  "dec32 n = sub32 n 1"

text \<open>
  \<^verbatim>\<open>while (position > highThreshold) position = (position + step) & tableMask;\<close>
  The loop gets as many rounds as the table has cells; \<open>skip_low_ends\<close> shows that it has stopped
  by then.
\<close>

fun skip_low :: "nat \<Rightarrow> nat \<Rightarrow> nat \<Rightarrow> nat \<Rightarrow> nat \<Rightarrow> nat" where
  "skip_low 0 step tableMask highThreshold position = position"
| "skip_low (Suc rounds) step tableMask highThreshold position =
     (if position > highThreshold
      then skip_low rounds step tableMask highThreshold ((position + step) AND tableMask)
      else position)"

definition spread_one ::
  "(nat \<Rightarrow> nat \<Rightarrow> 't \<Rightarrow> 't) \<Rightarrow> nat \<Rightarrow> nat \<Rightarrow> nat \<Rightarrow> 't \<times> nat \<Rightarrow> 't \<times> nat" where
  "spread_one put tableSize highThreshold s st =
     (let tableMask = tableSize - 1; step = FSE_TABLESTEP tableSize; (table, position) = st;
          position' = (position + step) AND tableMask
      in (put position s table, skip_low tableSize step tableMask highThreshold position'))"

definition spread_slow ::
  "(nat \<Rightarrow> nat \<Rightarrow> 't \<Rightarrow> 't) \<Rightarrow> int list \<Rightarrow> nat \<Rightarrow> nat \<Rightarrow> 't \<Rightarrow> 't \<times> nat" where
  "spread_slow put norm tableSize highThreshold table =
     fold (\<lambda>s st. fold (\<lambda>_. spread_one put tableSize highThreshold s) [0..<nat (norm ! s)] st)
       [0..<length norm] (table, 0)"

text \<open>
  The first stage of the fast variant: \<open>sv\<close> is the symbol repeated in eight bytes, stored at
  \<open>spread + pos + i\<close> for \<open>i = 0, 8, ...\<close> below the count (once at least).
\<close>

definition fill_one :: "endian \<Rightarrow> int list \<Rightarrow> nat \<Rightarrow> buffer \<times> nat \<times> U64 \<Rightarrow> buffer \<times> nat \<times> U64" where
  "fill_one e norm s st =
     (let (spread, pos, sv) = st;
          n = norm ! s;
          spread = MEM_write64 e spread pos sv;
          spread = fold (\<lambda>k spread. MEM_write64 e spread (pos + 8 * k) sv)
                     [1..<(nat n + 7) div 8] spread
      in (spread, pos + nat n, sv + 0x0101010101010101))"

definition fill_spread :: "endian \<Rightarrow> int list \<Rightarrow> buffer \<Rightarrow> buffer" where
  "fill_spread e norm spread = fst (fold (fill_one e norm) [0..<length norm] (spread, 0, 0))"

text \<open>The second stage, with \<open>unroll = 2\<close>; round \<open>k\<close> starts at \<open>s = 2 k\<close>.\<close>

definition spread_pair ::
  "(nat \<Rightarrow> nat \<Rightarrow> 't \<Rightarrow> 't) \<Rightarrow> nat \<Rightarrow> buffer \<Rightarrow> nat \<Rightarrow> 't \<times> nat \<Rightarrow> 't \<times> nat" where
  "spread_pair put tableSize spread s st =
     (let tableMask = tableSize - 1; step = FSE_TABLESTEP tableSize; (table, position) = st;
          table = put ((position + 0 * step) AND tableMask) (unat (spread ! (s + 0))) table;
          table = put ((position + 1 * step) AND tableMask) (unat (spread ! (s + 1))) table
      in (table, (position + 2 * step) AND tableMask))"

definition spread_fast :: "(nat \<Rightarrow> nat \<Rightarrow> 't \<Rightarrow> 't) \<Rightarrow> nat \<Rightarrow> buffer \<Rightarrow> 't \<Rightarrow> 't \<times> nat" where
  "spread_fast put tableSize spread table =
     fold (\<lambda>k. spread_pair put tableSize spread (2 * k)) [0..<tableSize div 2] (table, 0)"

text \<open>Low-probability symbols take the cells from the end of the table, one each
  (\<^verbatim>\<open>table[highThreshold--].symbol = s\<close>); the choice between the two variants.\<close>

definition low_one :: "(nat \<Rightarrow> nat \<Rightarrow> 't \<Rightarrow> 't) \<Rightarrow> int list \<Rightarrow> nat \<Rightarrow> 't \<times> nat \<Rightarrow> 't \<times> nat" where
  "low_one put norm s st =
     (let (table, highThreshold) = st
      in if norm ! s = -1 then (put highThreshold s table, dec32 highThreshold) else st)"

definition spread_symbols ::
  "(nat \<Rightarrow> nat \<Rightarrow> 't \<Rightarrow> 't) \<Rightarrow> endian \<Rightarrow> int list \<Rightarrow> nat \<Rightarrow> nat \<Rightarrow> buffer \<Rightarrow> 't \<Rightarrow> 't \<times> nat" where
  "spread_symbols put e norm tableSize highThreshold spread table =
     (if highThreshold = tableSize - 1
      then spread_fast put tableSize (fill_spread e norm spread) table
      else spread_slow put norm tableSize highThreshold table)"

subsection \<open>Specification\<close>

text \<open>The symbols in the order in which they are laid down, and the cells in the order in which
  they are visited.\<close>

definition symbol_seq :: "int list \<Rightarrow> nat list" where
  "symbol_seq norm = concat (map (\<lambda>s. replicate (nat (norm ! s)) s) [0..<length norm])"

definition cell :: "nat \<Rightarrow> nat \<Rightarrow> nat" where
  "cell tableLog j = j * FSE_TABLESTEP (2 ^ tableLog) mod 2 ^ tableLog"

definition cells_from :: "nat \<Rightarrow> nat \<Rightarrow> nat \<Rightarrow> nat list" where
  "cells_from tableLog highThreshold j =
     filter (\<lambda>p. p \<le> highThreshold) (map (cell tableLog) [j..<2 ^ tableLog])"

definition lay :: "(nat \<Rightarrow> nat \<Rightarrow> 't \<Rightarrow> 't) \<Rightarrow> nat list \<Rightarrow> nat list \<Rightarrow> 't \<Rightarrow> 't" where
  "lay put cells symbols table = fold (\<lambda>(p, s). put p s) (zip cells symbols) table"

text \<open>A distribution is normalized to \<open>2 ^ tableLog\<close> cells: counts are at least \<open>-1\<close>, which
  stands for one cell of a low-probability symbol, and the cells add up.\<close>

definition ncount :: "int \<Rightarrow> nat" where
  "ncount c = (if c = -1 then 1 else nat c)"

definition low_symbols :: "int list \<Rightarrow> nat list" where
  "low_symbols norm = filter (\<lambda>s. norm ! s = -1) [0..<length norm]"

definition normalized :: "nat \<Rightarrow> int list \<Rightarrow> bool" where
  "normalized tableLog norm \<longleftrightarrow>
     (\<forall>c\<in>set norm. -1 \<le> c) \<and> sum_list (map ncount norm) = 2 ^ tableLog \<and> length norm \<le> 256
     \<and> 5 \<le> tableLog \<and> tableLog \<le> 12"

text \<open>The table all builders compute: the low-probability symbols from the end, the other
  symbols in the order of the step sequence.\<close>

definition all_cells :: "nat \<Rightarrow> int list \<Rightarrow> nat list" where
  "all_cells tableLog norm =
     (let low = length (low_symbols norm)
      in map (\<lambda>k. 2 ^ tableLog - 1 - k) [0..<low]
         @ take (2 ^ tableLog - low) (cells_from tableLog (2 ^ tableLog - 1 - low) 0))"

definition all_symbols :: "int list \<Rightarrow> nat list" where
  "all_symbols norm = low_symbols norm @ symbol_seq norm"

definition symtab :: "nat \<Rightarrow> int list \<Rightarrow> nat list" where
  "symtab tableLog norm =
     map (\<lambda>u. the (map_of (zip (all_cells tableLog norm) (all_symbols norm)) u)) [0..<2 ^ tableLog]"

subsection \<open>The step sequence\<close>

lemma and_mask_nat: "(n::nat) AND (2 ^ k - 1) = n mod 2 ^ k"
  by (simp add: take_bit_eq_mod[symmetric] take_bit_eq_mask mask_eq_exp_minus_1)

lemma step_odd: "4 \<le> tableLog \<Longrightarrow> odd (FSE_TABLESTEP (2 ^ tableLog))"
proof -
  assume "4 \<le> tableLog"
  then obtain k where "tableLog = 4 + k" using le_Suc_ex by blast
  then show ?thesis by (simp add: FSE_TABLESTEP_def power_add)
qed

lemma mult_odd_mod_inject:
  fixes i j T :: nat
  assumes "coprime m T" "i * m mod T = j * m mod T" "i < T" "j < T"
  shows "i = j"
proof -
  have main: "a = b" if "a \<le> b" "a * m mod T = b * m mod T" "b < T" for a b :: nat
  proof -
    have "T dvd b * m - a * m" using that mod_eq_dvd_iff_nat[of "a * m" "b * m" T] by auto
    then have "T dvd m * (b - a)" by (simp add: diff_mult_distrib2 mult.commute)
    then have "T dvd b - a" using assms(1) by (simp add: coprime_commute coprime_dvd_mult_right_iff)
    then show ?thesis using that by (metis diff_is_0_eq dvd_imp_le le_antisym less_imp_diff_less linorder_not_less neq0_conv)
  qed
  show ?thesis using main[of i j] main[of j i] assms by (metis nle_le)
qed

lemma step_coprime: "4 \<le> tableLog \<Longrightarrow> coprime (FSE_TABLESTEP (2 ^ tableLog)) (2 ^ tableLog)"
  using step_odd[of tableLog] by simp

lemma cell_inj: "4 \<le> tableLog \<Longrightarrow> inj_on (cell tableLog) {0..<2 ^ tableLog}"
  by (auto intro!: inj_onI dest: mult_odd_mod_inject[OF step_coprime] simp: cell_def)

lemma cell_less [simp]: "cell tableLog j < 2 ^ tableLog"
  by (simp add: cell_def)

lemma cell_0 [simp]: "cell tableLog 0 = 0"
  by (simp add: cell_def)

lemma cell_wrap [simp]: "cell tableLog (2 ^ tableLog) = 0"
  by (simp add: cell_def)

lemma cell_Suc: "(cell tableLog j + FSE_TABLESTEP (2 ^ tableLog)) AND (2 ^ tableLog - 1) = cell tableLog (Suc j)"
  unfolding and_mask_nat by (simp add: cell_def mod_simps add.commute)

lemma cell_bij: "4 \<le> tableLog \<Longrightarrow> cell tableLog ` {0..<2 ^ tableLog} = {0..<2 ^ tableLog}"
  by (rule endo_inj_surj) (auto simp: cell_inj)

text \<open>Every cell is visited exactly once in a round of \<open>2 ^ tableLog\<close> steps.\<close>

lemma cells_distinct: "4 \<le> tableLog \<Longrightarrow> distinct (cells_from tableLog highThreshold 0)"
  using cell_inj[of tableLog] by (auto simp: cells_from_def distinct_map)

lemma cells_set:
  "4 \<le> tableLog \<Longrightarrow> set (cells_from tableLog highThreshold 0) = {p. p < 2 ^ tableLog \<and> p \<le> highThreshold}"
  using cell_bij[of tableLog] by (auto simp: cells_from_def)

lemma cells_length:
  assumes "4 \<le> tableLog" "highThreshold < 2 ^ tableLog"
  shows "length (cells_from tableLog highThreshold 0) = Suc highThreshold"
proof -
  have "set (cells_from tableLog highThreshold 0) = {..highThreshold}"
    using assms by (auto simp: cells_set)
  then show ?thesis using distinct_card[OF cells_distinct[OF assms(1)]] by (metis card_atMost)
qed

lemma cells_from_Suc:
  "j < 2 ^ tableLog \<Longrightarrow> cells_from tableLog highThreshold j =
     (if cell tableLog j \<le> highThreshold then [cell tableLog j] else []) @ cells_from tableLog highThreshold (Suc j)"
  by (simp add: cells_from_def upt_conv_Cons)

lemma cells_from_end [simp]: "cells_from tableLog highThreshold (2 ^ tableLog) = []"
  by (simp add: cells_from_def)

subsection \<open>The loops write the specified cells\<close>

lemma skip_low_cell:
  "j \<le> 2 ^ tableLog \<Longrightarrow> 2 ^ tableLog - j \<le> rounds \<Longrightarrow>
    \<exists>j'. j \<le> j' \<and> j' \<le> 2 ^ tableLog
      \<and> skip_low rounds (FSE_TABLESTEP (2 ^ tableLog)) (2 ^ tableLog - 1) highThreshold (cell tableLog j) = cell tableLog j'
      \<and> cell tableLog j' \<le> highThreshold
      \<and> cells_from tableLog highThreshold j' = cells_from tableLog highThreshold j"
proof (induction rounds arbitrary: j)
  case 0
  then have "j = 2 ^ tableLog" by simp
  then show ?case by auto
next
  case (Suc rounds)
  show ?case
  proof (cases "cell tableLog j \<le> highThreshold")
    case True
    then show ?thesis using Suc.prems by auto
  next
    case False
    then have j: "j < 2 ^ tableLog" using Suc.prems by (metis cell_wrap le0 nless_le)
    obtain j' where "Suc j \<le> j'" "j' \<le> 2 ^ tableLog"
      "skip_low rounds (FSE_TABLESTEP (2 ^ tableLog)) (2 ^ tableLog - 1) highThreshold (cell tableLog (Suc j)) = cell tableLog j'"
      "cell tableLog j' \<le> highThreshold"
      "cells_from tableLog highThreshold j' = cells_from tableLog highThreshold (Suc j)"
      using Suc.IH[of "Suc j"] Suc.prems j by (metis Suc_diff_Suc Suc_leI Suc_le_mono)
    then show ?thesis using False j
      by (intro exI[of _ j']) (simp add: cell_Suc cells_from_Suc[of j] del: One_nat_def)
  qed
qed

lemma fold_counts:
  "fold (\<lambda>s. fold (\<lambda>_. g s) [0..<n s]) xs st = fold g (concat (map (\<lambda>s. replicate (n s) s) xs)) st"
proof -
  have "fold (\<lambda>_. g s) [0..<k] st = fold g (replicate k s) st" for s k st
    by (induction k) (simp_all add: replicate_append_same[symmetric])
  then show ?thesis by (induction xs arbitrary: st) simp_all
qed

lemma spread_slow_symbol_seq:
  "spread_slow put norm tableSize highThreshold table =
     fold (spread_one put tableSize highThreshold) (symbol_seq norm) (table, 0)"
  unfolding spread_slow_def symbol_seq_def
  using fold_counts[of "spread_one put tableSize highThreshold" "\<lambda>s. nat (norm ! s)" "[0..<length norm]" "(table, 0)"]
  by simp

lemma spread_run:
  "\<lbrakk>j \<le> 2 ^ tableLog; cell tableLog j \<le> highThreshold; length ss \<le> length (cells_from tableLog highThreshold j)\<rbrakk>
   \<Longrightarrow> \<exists>j'\<le>2 ^ tableLog. cell tableLog j' \<le> highThreshold
     \<and> cells_from tableLog highThreshold j' = drop (length ss) (cells_from tableLog highThreshold j)
     \<and> fold (spread_one put (2 ^ tableLog) highThreshold) ss (table, cell tableLog j)
         = (lay put (cells_from tableLog highThreshold j) ss table, cell tableLog j')"
proof (induction ss arbitrary: j table)
  case Nil
  then show ?case by (auto simp: lay_def)
next
  case (Cons s ss)
  then have j: "j < 2 ^ tableLog" by (metis cells_from_end le_antisym length_0_conv length_greater_0_conv
        list.distinct(1) nat_less_le not_less le_zero_eq list.size(3))
  with Cons.prems(2) have cf: "cells_from tableLog highThreshold j = cell tableLog j # cells_from tableLog highThreshold (Suc j)"
    by (simp add: cells_from_Suc)
  obtain j' where j': "j' \<le> 2 ^ tableLog" "cell tableLog j' \<le> highThreshold"
    "skip_low (2 ^ tableLog) (FSE_TABLESTEP (2 ^ tableLog)) (2 ^ tableLog - 1) highThreshold (cell tableLog (Suc j)) = cell tableLog j'"
    "cells_from tableLog highThreshold j' = cells_from tableLog highThreshold (Suc j)"
    using skip_low_cell[of "Suc j" tableLog "2 ^ tableLog" highThreshold] j by auto
  have "spread_one put (2 ^ tableLog) highThreshold s (table, cell tableLog j)
      = (put (cell tableLog j) s table, cell tableLog j')"
    unfolding spread_one_def Let_def prod.case cell_Suc j'(3) ..
  with Cons.IH[of j' "put (cell tableLog j) s table"] j' Cons.prems(3) cf
  show ?case by (auto simp: lay_def)
qed

text \<open>The slow variant fills the cells in the order of the step sequence and comes back to cell
  \<open>0\<close>, which is the check at its end.\<close>

lemma spread_slow_lay:
  assumes "4 \<le> tableLog" "highThreshold < 2 ^ tableLog" "length (symbol_seq norm) = Suc highThreshold"
  shows "spread_slow put norm (2 ^ tableLog) highThreshold table
    = (lay put (cells_from tableLog highThreshold 0) (symbol_seq norm) table, 0)"
proof -
  obtain j' where j': "j' \<le> 2 ^ tableLog" "cell tableLog j' \<le> highThreshold"
      "cells_from tableLog highThreshold j' = drop (length (symbol_seq norm)) (cells_from tableLog highThreshold 0)"
      "fold (spread_one put (2 ^ tableLog) highThreshold) (symbol_seq norm) (table, cell tableLog 0)
         = (lay put (cells_from tableLog highThreshold 0) (symbol_seq norm) table, cell tableLog j')"
    using spread_run[of 0 tableLog highThreshold "symbol_seq norm" put table] assms by (auto simp: cells_length)
  have "cells_from tableLog highThreshold j' = []" using j'(3) assms by (simp add: cells_length)
  then have "j' = 2 ^ tableLog" using j'(1,2) cells_from_Suc[of j' tableLog highThreshold] by (cases "j' < 2 ^ tableLog") auto
  then show ?thesis using j'(4) by (simp add: spread_slow_symbol_seq)
qed

lemma spread_pair_run:
  "2 * k \<le> 2 ^ tableLog \<Longrightarrow> 2 ^ tableLog \<le> length spread \<Longrightarrow>
    fold (\<lambda>k. spread_pair put (2 ^ tableLog) spread (2 * k)) [0..<k] (table, 0)
    = (fold (\<lambda>j. put (cell tableLog j) (unat (spread ! j))) [0..<2 * k] table, cell tableLog (2 * k))"
proof (induction k)
  case (Suc k)
  have "(cell tableLog j + 2 * FSE_TABLESTEP (2 ^ tableLog)) AND (2 ^ tableLog - 1) = cell tableLog (j + 2)" for j
    unfolding and_mask_nat
    by (simp add: cell_def mod_simps add_mult_distrib del: add_2_eq_Suc add_2_eq_Suc')
  moreover have "cell tableLog j AND (2 ^ tableLog - 1) = cell tableLog j" for j
    unfolding and_mask_nat by simp
  ultimately have "spread_pair put (2 ^ tableLog) spread (2 * k) (t, cell tableLog (2 * k)) =
    (put (cell tableLog (Suc (2 * k))) (unat (spread ! (Suc (2 * k))))
      (put (cell tableLog (2 * k)) (unat (spread ! (2 * k))) t), cell tableLog (2 * Suc k))" for t
    unfolding spread_pair_def Let_def prod.case mult_1 mult_0 add_0_right cell_Suc by simp
  with Suc show ?case by simp
qed simp

lemma spread_fast_lay:
  assumes "4 \<le> tableLog" "2 ^ tableLog \<le> length spread"
  shows "spread_fast put (2 ^ tableLog) spread table
    = (lay put (cells_from tableLog (2 ^ tableLog - 1) 0) (map unat (take (2 ^ tableLog) spread)) table, 0)"
proof -
  have ev: "2 * (2 ^ tableLog div 2) = (2::nat) ^ tableLog"
    using assms(1) by (intro dvd_mult_div_cancel) simp
  have c: "cells_from tableLog (2 ^ tableLog - 1) 0 = map (cell tableLog) [0..<2 ^ tableLog]"
    unfolding cells_from_def by (rule filter_True) (auto simp: Suc_leI less_Suc_eq_le[symmetric])
  have m: "map unat (take n spread) = map (\<lambda>j. unat (spread ! j)) [0..<n]" if "n \<le> length spread" for n
    using that by (auto intro!: nth_equalityI)
  have l: "lay put (map f xs) (map g xs) t = fold (\<lambda>j. put (f j) (g j)) xs t" for f g xs t
    by (induction xs arbitrary: t) (auto simp: lay_def)
  show ?thesis unfolding spread_fast_def c m[OF assms(2)] l
    using spread_pair_run[of "2 ^ tableLog div 2" tableLog spread put table] assms ev by simp
qed

subsection \<open>Laying symbols down eight bytes at a time\<close>

lemma repeated_byte:
  assumes "s < 256"
  shows "native e (le_bytes 8 (unat (of_nat s * 0x0101010101010101 :: U64))) = replicate 8 (of_nat s)"
proof -
  have "s * 0x0101010101010101 < 2 ^ 64" using assms by simp
  then have u: "unat (of_nat s * 0x0101010101010101 :: U64) = s * 0x0101010101010101"
    using unat_of_nat[of "s * 0x0101010101010101", where ?'a = 64] by simp
  have r: "replicate 8 b = [b, b, b, b, b, b, b, b]" for b :: BYTE
    by (simp add: numeral_eq_Suc)
  have "unat (of_nat s :: BYTE) = s" using assms by (simp add: unat_of_nat)
  then have v: "le_val (replicate 8 (of_nat s)) = s * 0x0101010101010101" unfolding r by simp
  have "le_bytes 8 (unat (of_nat s * 0x0101010101010101 :: U64)) = replicate 8 (of_nat s)"
    unfolding u v[symmetric] using le_bytes_le_val[of "replicate 8 (of_nat s)"] by (simp only: length_replicate)
  then show ?thesis by (simp add: native_def split: endian.split)
qed

lemma write_at_adjacent:
  assumes "pos + length xs \<le> length sp"
  shows "write_at (write_at sp pos xs) (pos + length xs) ys = write_at sp pos (xs @ ys)"
  using assms by (simp add: write_at_def ac_simps)

lemma fill_writes:
  assumes "s < 256" "pos + 8 * m \<le> length sp"
  shows "fold (\<lambda>k sp. MEM_write64 e sp (pos + 8 * k) (of_nat s * 0x0101010101010101)) [0..<m] sp
    = write_at sp pos (replicate (8 * m) (of_nat s))"
  using assms(2)
proof (induction m)
  case 0
  then show ?case by (simp add: write_at_def)
next
  case (Suc m)
  have r: "replicate (8 * Suc m) b = replicate (8 * m) b @ replicate 8 b" for b :: BYTE
    by (simp add: replicate_add[symmetric] add.commute)
  show ?case using Suc write_at_adjacent[of pos "replicate (8 * m) (of_nat s)" sp "replicate 8 (of_nat s)"]
    unfolding r by (simp add: MEM_write64_def repeated_byte[OF assms(1)])
qed

lemma fill_one_spec:
  assumes "s < 256" "pos + nat (norm ! s) + 8 \<le> length sp" "pos \<le> length sp"
  shows "\<exists>sp'. fill_one e norm s (sp, pos, of_nat s * 0x0101010101010101)
      = (sp', pos + nat (norm ! s), of_nat (Suc s) * 0x0101010101010101)
    \<and> length sp' = length sp \<and> take (pos + nat (norm ! s)) sp' = take pos sp @ replicate (nat (norm ! s)) (of_nat s)"
proof -
  let ?n = "nat (norm ! s)" and ?sv = "of_nat s * 0x0101010101010101 :: U64"
  define m where "m = max 1 ((?n + 7) div 8)"
  have m: "?n \<le> 8 * m" "8 * m \<le> ?n + 8" unfolding m_def by linarith+
  have "[0..<m] = 0 # [1..<(?n + 7) div 8]" by (auto simp: m_def upt_conv_Cons max_def)
  then have "fold (\<lambda>k sp. MEM_write64 e sp (pos + 8 * k) ?sv) [1..<(?n + 7) div 8] (MEM_write64 e sp pos ?sv)
      = fold (\<lambda>k sp. MEM_write64 e sp (pos + 8 * k) ?sv) [0..<m] sp" by simp
  also have "\<dots> = write_at sp pos (replicate (8 * m) (of_nat s))"
    using assms m by (intro fill_writes) auto
  finally have "fill_one e norm s (sp, pos, ?sv)
      = (write_at sp pos (replicate (8 * m) (of_nat s)), pos + ?n, of_nat (Suc s) * 0x0101010101010101)"
    by (simp add: fill_one_def Let_def algebra_simps)
  moreover have "length (write_at sp pos (replicate (8 * m) (of_nat s))) = length sp"
    using assms m by (simp add: write_at_def)
  moreover have "take (pos + ?n) (write_at sp pos (replicate (8 * m) (of_nat s)))
      = take pos sp @ replicate ?n (of_nat s)"
    using assms m by (simp add: write_at_def min_def)
  ultimately show ?thesis by blast
qed

lemma fill_run:
  assumes "length norm \<le> 256" "length (symbol_seq norm) + 8 \<le> length sp"
  shows "t \<le> length norm \<Longrightarrow>
    \<exists>sp'. fold (fill_one e norm) [0..<t] (sp, 0, 0)
       = (sp', length (concat (map (\<lambda>s. replicate (nat (norm ! s)) s) [0..<t])), of_nat t * 0x0101010101010101)
     \<and> length sp' = length sp
     \<and> take (length (concat (map (\<lambda>s. replicate (nat (norm ! s)) s) [0..<t]))) sp'
       = map of_nat (concat (map (\<lambda>s. replicate (nat (norm ! s)) s) [0..<t]))"
proof (induction t)
  case (Suc t)
  let ?seq = "\<lambda>t. concat (map (\<lambda>s. replicate (nat (norm ! s)) s) [0..<t])"
  obtain sp1 where sp1: "fold (fill_one e norm) [0..<t] (sp, 0, 0) = (sp1, length (?seq t), of_nat t * 0x0101010101010101)"
    "length sp1 = length sp" "take (length (?seq t)) sp1 = map of_nat (?seq t)" using Suc by auto
  have "[0..<length norm] = [0..<t] @ [t..<length norm]"
    using Suc.prems upt_add_eq_append[of 0 t "length norm - t"] by simp
  then have "length (?seq t) + nat (norm ! t) \<le> length (symbol_seq norm)"
    using Suc.prems by (simp add: symbol_seq_def upt_conv_Cons[of t])
  then have "length (?seq t) + nat (norm ! t) + 8 \<le> length sp1" using assms(2) sp1 by simp
  then show ?case
    using fill_one_spec[of t "length (?seq t)" norm sp1 e] sp1 assms(1) Suc.prems by auto
qed simp

lemma fill_spread_spec:
  assumes "length norm \<le> 256" "length (symbol_seq norm) + 8 \<le> length sp"
  shows "length (fill_spread e norm sp) = length sp"
    and "map unat (take (length (symbol_seq norm)) (fill_spread e norm sp)) = symbol_seq norm"
proof -
  obtain sp' where f: "fold (fill_one e norm) [0..<length norm] (sp, 0, 0)
      = (sp', length (symbol_seq norm), of_nat (length norm) * 0x0101010101010101)"
    and l: "length sp' = length sp" and t: "take (length (symbol_seq norm)) sp' = map of_nat (symbol_seq norm)"
    using fill_run[OF assms, of "length norm" e] unfolding symbol_seq_def by auto
  then show "length (fill_spread e norm sp) = length sp" by (simp add: fill_spread_def)
  have "\<forall>s\<in>set (symbol_seq norm). s < 256" using assms(1) by (auto simp: symbol_seq_def)
  then have "map (unat o (of_nat :: nat \<Rightarrow> BYTE)) (symbol_seq norm) = symbol_seq norm"
    by (intro map_idI) (simp add: unat_of_nat)
  with t f show "map unat (take (length (symbol_seq norm)) (fill_spread e norm sp)) = symbol_seq norm"
    by (simp add: fill_spread_def)
qed

subsection \<open>The table that results\<close>

abbreviation upd :: "nat \<Rightarrow> nat \<Rightarrow> nat list \<Rightarrow> nat list" where
  "upd p s t \<equiv> t[p := s]"

lemma length_lay_upd [simp]: "length (lay upd cells ss t) = length t"
proof -
  have "length (fold (\<lambda>(p, s). upd p s) ps t) = length t" for ps
    by (induction ps arbitrary: t) auto
  then show ?thesis by (simp add: lay_def)
qed

lemma lay_upd_nth:
  "\<lbrakk>length cells = length ss; distinct cells; u < length t\<rbrakk> \<Longrightarrow>
    lay upd cells ss t ! u = (case map_of (zip cells ss) u of Some s \<Rightarrow> s | None \<Rightarrow> t ! u)"
proof (induction cells ss arbitrary: t rule: list_induct2)
  case Nil
  then show ?case by (simp add: lay_def)
next
  case (Cons p cells s ss)
  have "lay upd (p # cells) (s # ss) t = lay upd cells ss (t[p := s])" by (simp add: lay_def)
  moreover have "map_of (zip cells ss) p = None" using Cons by (simp add: map_of_zip_is_None)
  ultimately show ?case using Cons.IH[of "t[p := s]"] Cons.prems
    by (cases "u = p") (simp_all split: option.split)
qed

lemma lay_append:
  "length cells = length ss \<Longrightarrow> lay put (cells @ cells') (ss @ ss') t = lay put cells' ss' (lay put cells ss t)"
  by (simp add: lay_def)

lemma counts_split:
  "length (low_symbols norm) + length (symbol_seq norm) = sum_list (map ncount norm)"
proof -
  have "length (filter (\<lambda>s. norm ! s = -1) [0..<n])
      + length (concat (map (\<lambda>s. replicate (nat (norm ! s)) s) [0..<n])) = (\<Sum>s\<leftarrow>[0..<n]. ncount (norm ! s))" for n
    by (induction n) (simp_all add: ncount_def)
  moreover have "map (\<lambda>s. ncount (norm ! s)) [0..<length norm] = map ncount norm"
    by (intro nth_equalityI) auto
  ultimately show ?thesis by (simp only: low_symbols_def symbol_seq_def)
qed

lemma normalized_lengths:
  assumes "normalized tableLog norm"
  shows "length (low_symbols norm) + length (symbol_seq norm) = 2 ^ tableLog"
    and "length (all_cells tableLog norm) = 2 ^ tableLog" "length (all_symbols norm) = 2 ^ tableLog"
proof -
  show l: "length (low_symbols norm) + length (symbol_seq norm) = 2 ^ tableLog"
    using assms counts_split[of norm] by (simp add: normalized_def)
  then show "length (all_symbols norm) = 2 ^ tableLog" by (simp add: all_symbols_def)
  have "4 \<le> tableLog" using assms by (simp add: normalized_def)
  then have "length (cells_from tableLog (2 ^ tableLog - 1 - length (low_symbols norm)) 0)
      = Suc (2 ^ tableLog - 1 - length (low_symbols norm))" by (intro cells_length) (auto simp: less_imp_diff_less)
  then show "length (all_cells tableLog norm) = 2 ^ tableLog"
    using l by (auto simp: all_cells_def Let_def)
qed

lemma all_cells_perm:
  assumes "normalized tableLog norm"
  shows "distinct (all_cells tableLog norm)" "set (all_cells tableLog norm) = {0..<2 ^ tableLog}"
proof -
  let ?low = "length (low_symbols norm)" and ?T = "(2::nat) ^ tableLog"
  have tl: "4 \<le> tableLog" and low: "?low \<le> ?T"
    using assms normalized_lengths[OF assms] by (auto simp: normalized_def)
  have "inj_on (\<lambda>k. ?T - 1 - k) {0..<?low}" using low by (auto intro!: inj_onI)
  moreover have "set (take (?T - ?low) (cells_from tableLog (?T - 1 - ?low) 0)) \<inter> (\<lambda>k. ?T - 1 - k) ` {0..<?low} = {}"
  proof (cases "?low = ?T")
    case False
    then have "\<forall>p\<in>set (cells_from tableLog (?T - 1 - ?low) 0). p \<le> ?T - 1 - ?low" by (simp add: cells_from_def)
    moreover have "\<forall>p\<in>(\<lambda>k. ?T - 1 - k) ` {0..<?low}. ?T - 1 - ?low < p" using low False by auto
    ultimately show ?thesis by (meson disjoint_iff in_set_takeD leD)
  qed simp
  ultimately show d: "distinct (all_cells tableLog norm)"
    using tl by (auto simp: all_cells_def Let_def distinct_map cells_distinct)
  have "set (all_cells tableLog norm) \<subseteq> {0..<?T}"
    using tl low by (auto simp: all_cells_def Let_def cells_set dest!: in_set_takeD)
  then show "set (all_cells tableLog norm) = {0..<?T}"
    using distinct_card[OF d] normalized_lengths[OF assms] by (intro card_subset_eq) auto
qed

lemma length_symtab [simp]: "length (symtab tableLog norm) = 2 ^ tableLog"
  by (simp add: symtab_def)

lemma lay_all:
  assumes "normalized tableLog norm" "2 ^ tableLog \<le> length t"
  shows "take (2 ^ tableLog) (lay upd (all_cells tableLog norm) (all_symbols norm) t) = symtab tableLog norm"
proof (rule nth_equalityI)
  fix u assume "u < length (take (2 ^ tableLog) (lay upd (all_cells tableLog norm) (all_symbols norm) t))"
  then have u: "u < 2 ^ tableLog" by simp
  note n = normalized_lengths[OF assms(1)] all_cells_perm[OF assms(1)]
  have "map_of (zip (all_cells tableLog norm) (all_symbols norm)) u \<noteq> None"
    using n u by (simp add: map_of_zip_is_None)
  then obtain s where "map_of (zip (all_cells tableLog norm) (all_symbols norm)) u = Some s" by blast
  then show "take (2 ^ tableLog) (lay upd (all_cells tableLog norm) (all_symbols norm) t) ! u = symtab tableLog norm ! u"
    using u assms(2) n lay_upd_nth[of "all_cells tableLog norm" "all_symbols norm" u t]
    by (auto simp: symtab_def)
qed (use assms in simp)

text \<open>Every symbol has as many cells as its normalized count says.\<close>

lemma mset_symtab:
  assumes "normalized tableLog norm"
  shows "mset (symtab tableLog norm) = mset (all_symbols norm)"
proof -
  note n = normalized_lengths[OF assms] all_cells_perm[OF assms]
  have "map (nth (symtab tableLog norm)) (all_cells tableLog norm) = all_symbols norm"
  proof (rule nth_equalityI)
    fix i assume i: "i < length (map (nth (symtab tableLog norm)) (all_cells tableLog norm))"
    then have "all_cells tableLog norm ! i < 2 ^ tableLog" using n(5) nth_mem[of i "all_cells tableLog norm"] by simp
    moreover have "map_of (zip (all_cells tableLog norm) (all_symbols norm)) (all_cells tableLog norm ! i) = Some (all_symbols norm ! i)"
      using i n by (intro map_of_zip_nth) auto
    ultimately show "map (nth (symtab tableLog norm)) (all_cells tableLog norm) ! i = all_symbols norm ! i"
      using i by (simp add: symtab_def)
  qed (use n in simp)
  moreover have "mset (all_cells tableLog norm) = mset [0..<2 ^ tableLog]"
    using n by (intro set_eq_iff_mset_eq_distinct[THEN iffD1]) auto
  ultimately have "mset (all_symbols norm) = image_mset (nth (symtab tableLog norm)) (mset [0..<2 ^ tableLog])"
    by (metis mset_map)
  also have "\<dots> = mset (map (nth (symtab tableLog norm)) [0..<length (symtab tableLog norm)])" by simp
  finally show ?thesis by (simp only: map_nth)
qed

lemma count_all_symbols:
  "s < length norm \<Longrightarrow> count_list (all_symbols norm) s = ncount (norm ! s)"
proof -
  have "count_list (filter (\<lambda>s. norm ! s = -1) [0..<n]) s
      + count_list (concat (map (\<lambda>s. replicate (nat (norm ! s)) s) [0..<n])) s
      = (if s < n then ncount (norm ! s) else 0)" for n
  proof (induction n)
    case (Suc n)
    have "count_list (replicate k x) s = (if x = s then k else 0)" for k x by (induction k) auto
    with Suc show ?case by (auto simp: ncount_def less_Suc_eq)
  qed simp
  then show "s < length norm \<Longrightarrow> ?thesis" by (simp add: all_symbols_def low_symbols_def symbol_seq_def)
qed

lemma count_symtab:
  "normalized tableLog norm \<Longrightarrow> s < length norm \<Longrightarrow> count_list (symtab tableLog norm) s = ncount (norm ! s)"
  using mset_symtab[of tableLog norm] by (metis count_all_symbols count_mset)

lemma symtab_less:
  assumes "normalized tableLog norm" "u < 2 ^ tableLog"
  shows "symtab tableLog norm ! u < length norm"
proof -
  have "symtab tableLog norm ! u \<in> set (all_symbols norm)"
    using assms mset_eq_setD[OF mset_symtab[OF assms(1)]] nth_mem[of u "symtab tableLog norm"] by simp
  then show ?thesis by (auto simp: all_symbols_def low_symbols_def symbol_seq_def)
qed

text \<open>
  The interface between the spreading loops and a table: an assignment of a symbol to a cell,
  and the list of symbols of a table.
\<close>

locale symbol_table =
  fixes put :: "nat \<Rightarrow> nat \<Rightarrow> 't \<Rightarrow> 't" and sym :: "'t \<Rightarrow> nat list"
  assumes sym_put: "sym (put p s t) = (sym t)[p := s]"
begin

lemma sym_lay: "sym (lay put cells ss t) = lay upd cells ss (sym t)"
proof -
  have "sym (fold (\<lambda>(p, s). put p s) ps t) = fold (\<lambda>(p, s). upd p s) ps (sym t)" for ps
    by (induction ps arbitrary: t) (auto simp: sym_put)
  then show ?thesis by (simp add: lay_def)
qed

end

lemma sub_wrap: "k \<le> h \<Longrightarrow> h < M \<Longrightarrow> (h + M - k) mod M = h - (k::nat)"
proof -
  assume "k \<le> h" "h < M"
  then have "h + M - k = (h - k) + M" by linarith
  moreover have "h - k < M" using \<open>h < M\<close> by linarith
  ultimately show ?thesis by (simp only: mod_add_self2 mod_less)
qed

lemma sub32_eq: "b \<le> a \<Longrightarrow> a < 2 ^ 32 \<Longrightarrow> sub32 a b = a - b"
  unfolding sub32_def by (rule sub_wrap)

lemma low_one_pair:
  "low_one put norm s (t, h) = (if norm ! s = -1 then (put h s t, dec32 h) else (t, h))"
  by (simp add: low_one_def)

lemma low_run:
  "length (filter (\<lambda>s. norm ! s = -1) [0..<n]) < 2 ^ 32 \<Longrightarrow> h < 2 ^ 32 \<Longrightarrow>
   length (filter (\<lambda>s. norm ! s = -1) [0..<n]) \<le> Suc h \<Longrightarrow>
   fold (low_one put norm) [0..<n] (t, h) =
     (lay put (map (\<lambda>k. h - k) [0..<length (filter (\<lambda>s. norm ! s = -1) [0..<n])])
        (filter (\<lambda>s. norm ! s = -1) [0..<n]) t,
      (h + 2 ^ 32 - length (filter (\<lambda>s. norm ! s = -1) [0..<n])) mod 2 ^ 32)"
proof (induction n)
  case (Suc n)
  let ?k = "length (filter (\<lambda>s. norm ! s = -1) [0..<n])"
  show ?case
  proof (cases "norm ! n = -1")
    case True
    have k: "?k \<le> h" "?k < 2 ^ 32" using Suc.prems True by auto
    have d: "dec32 (h - ?k) = (h + 2 ^ 32 - Suc ?k) mod 2 ^ 32" using k(1) by (simp add: dec32_def sub32_def)
    have "fold (low_one put norm) [0..<n] (t, h) =
      (lay put (map (\<lambda>k. h - k) [0..<?k]) (filter (\<lambda>s. norm ! s = -1) [0..<n]) t, h - ?k)"
      using Suc.IH[OF k(2) Suc.prems(2)] k(1) sub_wrap[OF k(1) Suc.prems(2)] by simp
    then show ?thesis using True by (simp add: low_one_pair lay_append lay_def d)
  qed (use Suc in \<open>simp add: low_one_def\<close>)
qed (simp add: lay_def)

text \<open>Both variants compute the same table, whatever it and the scratch buffer held before.\<close>

lemma spread_table:
  fixes put :: "nat \<Rightarrow> nat \<Rightarrow> 't \<Rightarrow> 't" and t :: 't
  assumes "normalized tableLog norm" "2 ^ tableLog + 8 \<le> length spread"
  defines "low \<equiv> fold (low_one put norm) [0..<length norm] (t, 2 ^ tableLog - 1)"
  shows "spread_symbols put e norm (2 ^ tableLog) (snd low) spread (fst low)
    = (lay put (all_cells tableLog norm) (all_symbols norm) t, 0)"
proof -
  let ?T = "(2::nat) ^ tableLog" and ?l = "length (low_symbols norm)"
  note n = normalized_lengths[OF assms(1)]
  have tl: "4 \<le> tableLog" "tableLog \<le> 12" and len: "length norm \<le> 256" using assms(1) by (auto simp: normalized_def)
  have T: "?T \<le> 2 ^ 12" using tl by (intro power_increasing) auto
  have T': "?T \<le> 4096" "0 < ?T" using T by simp_all
  have l: "?l < 2 ^ 32" "?T - 1 < 2 ^ 32" "?l \<le> Suc (?T - 1)"
    using n(1) T' by auto
  have low: "low = (lay put (map (\<lambda>k. ?T - 1 - k) [0..<?l]) (low_symbols norm) t, (?T - 1 + 2 ^ 32 - ?l) mod 2 ^ 32)"
    unfolding low_def low_symbols_def by (rule low_run[OF l[unfolded low_symbols_def]])
  have la: "lay put (all_cells tableLog norm) (all_symbols norm) t =
    lay put (take (?T - ?l) (cells_from tableLog (?T - 1 - ?l) 0)) (symbol_seq norm) (fst low)"
    unfolding low all_cells_def all_symbols_def Let_def by (simp add: lay_append)
  consider "?l = 0" | "0 < ?l" "?l < ?T" | "?l = ?T" using n(1) by linarith
  then show ?thesis
  proof cases
    case 1
    have h: "snd low = ?T - 1" using 1 T low sub_wrap[of 0 "?T - 1" "2 ^ 32"] by simp
    have "map unat (take ?T (fill_spread e norm spread)) = symbol_seq norm"
      "length (fill_spread e norm spread) = length spread"
      using fill_spread_spec[OF len, of spread e] n(1) 1 assms(2) by simp_all
    then show ?thesis unfolding la
      using h 1 spread_fast_lay[OF tl(1), of "fill_spread e norm spread" put] assms(2) cells_length[OF tl(1), of "?T - 1"]
      by (simp add: spread_symbols_def)
  next
    case 2
    have h: "snd low = ?T - 1 - ?l" using 2 T low sub_wrap[of ?l "?T - 1" "2 ^ 32"] by auto
    have "length (cells_from tableLog (?T - 1 - ?l) 0) = ?T - ?l"
      using 2 by (subst cells_length[OF tl(1)]) auto
    moreover have "length (symbol_seq norm) = Suc (?T - 1 - ?l)" using n(1) 2 by simp
    moreover have "snd low \<noteq> ?T - 1" unfolding h using 2 by linarith
    ultimately show ?thesis unfolding la
      using h 2 spread_slow_lay[OF tl(1), of "?T - 1 - ?l" norm put] by (simp add: spread_symbols_def)
  next
    case 3
    have "snd low = 2 ^ 32 - 1" using 3 low by (simp add: mod_less)
    then have "snd low \<noteq> ?T - 1" using T' by auto
    moreover have "symbol_seq norm = []" using n(1) 3 by simp
    ultimately show ?thesis unfolding la
      using T 3 by (simp add: spread_symbols_def spread_slow_symbol_seq lay_def)
  qed
qed

context symbol_table
begin

lemma sym_table:
  assumes "normalized tableLog norm" "2 ^ tableLog \<le> length (sym t)"
  shows "take (2 ^ tableLog) (sym (lay put (all_cells tableLog norm) (all_symbols norm) t)) = symtab tableLog norm"
    and "length (sym (lay put (all_cells tableLog norm) (all_symbols norm) t)) = length (sym t)"
  using lay_all[OF assms] by (simp_all add: sym_lay)

end

end
