(* ===== verification/Zstd_Errors.thy ===== *)
theory Zstd_Errors
  imports Zstd_Prelude
begin

section \<open>Error codes (\<^verbatim>\<open>zstd_errors.h\<close>, \<^verbatim>\<open>common/error_private.[ch]\<close>, \<^verbatim>\<open>common/zstd_common.c\<close>)\<close>

text \<open>
  Every fallible function of the library returns a \<open>size_t\<close> whose top values are negated
  error numbers.  The model's functions return the sum \<open>ZSTD_ErrorCode + 'a\<close>;
  \<open>size_result\<close> is the \<open>size_t\<close> the C code returns for it, and the lemmas show that a caller
  recovers the sum from it with \<open>ERR_isError\<close> and \<open>ERR_getErrorCode\<close>.
\<close>

datatype ZSTD_ErrorCode =
    ZSTD_error_no_error
  | ZSTD_error_GENERIC
  | ZSTD_error_prefix_unknown
  | ZSTD_error_version_unsupported
  | ZSTD_error_frameParameter_unsupported
  | ZSTD_error_frameParameter_windowTooLarge
  | ZSTD_error_corruption_detected
  | ZSTD_error_checksum_wrong
  | ZSTD_error_literals_headerWrong
  | ZSTD_error_dictionary_corrupted
  | ZSTD_error_dictionary_wrong
  | ZSTD_error_dictionaryCreation_failed
  | ZSTD_error_parameter_unsupported
  | ZSTD_error_parameter_combination_unsupported
  | ZSTD_error_parameter_outOfBound
  | ZSTD_error_tableLog_tooLarge
  | ZSTD_error_maxSymbolValue_tooLarge
  | ZSTD_error_maxSymbolValue_tooSmall
  | ZSTD_error_cannotProduce_uncompressedBlock
  | ZSTD_error_stabilityCondition_notRespected
  | ZSTD_error_stage_wrong
  | ZSTD_error_init_missing
  | ZSTD_error_memory_allocation
  | ZSTD_error_workSpace_tooSmall
  | ZSTD_error_dstSize_tooSmall
  | ZSTD_error_srcSize_wrong
  | ZSTD_error_dstBuffer_null
  | ZSTD_error_noForwardProgress_destFull
  | ZSTD_error_noForwardProgress_inputEmpty
  | ZSTD_error_frameIndex_tooLarge
  | ZSTD_error_seekableIO
  | ZSTD_error_dstBuffer_wrong
  | ZSTD_error_srcBuffer_wrong
  | ZSTD_error_sequenceProducer_failed
  | ZSTD_error_externalSequences_invalid
  | ZSTD_error_maxCode

text \<open>The numeric value of each enumerator.\<close>

fun err_value :: "ZSTD_ErrorCode \<Rightarrow> nat" where
  "err_value ZSTD_error_no_error = 0"
| "err_value ZSTD_error_GENERIC = 1"
| "err_value ZSTD_error_prefix_unknown = 10"
| "err_value ZSTD_error_version_unsupported = 12"
| "err_value ZSTD_error_frameParameter_unsupported = 14"
| "err_value ZSTD_error_frameParameter_windowTooLarge = 16"
| "err_value ZSTD_error_corruption_detected = 20"
| "err_value ZSTD_error_checksum_wrong = 22"
| "err_value ZSTD_error_literals_headerWrong = 24"
| "err_value ZSTD_error_dictionary_corrupted = 30"
| "err_value ZSTD_error_dictionary_wrong = 32"
| "err_value ZSTD_error_dictionaryCreation_failed = 34"
| "err_value ZSTD_error_parameter_unsupported = 40"
| "err_value ZSTD_error_parameter_combination_unsupported = 41"
| "err_value ZSTD_error_parameter_outOfBound = 42"
| "err_value ZSTD_error_tableLog_tooLarge = 44"
| "err_value ZSTD_error_maxSymbolValue_tooLarge = 46"
| "err_value ZSTD_error_maxSymbolValue_tooSmall = 48"
| "err_value ZSTD_error_cannotProduce_uncompressedBlock = 49"
| "err_value ZSTD_error_stabilityCondition_notRespected = 50"
| "err_value ZSTD_error_stage_wrong = 60"
| "err_value ZSTD_error_init_missing = 62"
| "err_value ZSTD_error_memory_allocation = 64"
| "err_value ZSTD_error_workSpace_tooSmall = 66"
| "err_value ZSTD_error_dstSize_tooSmall = 70"
| "err_value ZSTD_error_srcSize_wrong = 72"
| "err_value ZSTD_error_dstBuffer_null = 74"
| "err_value ZSTD_error_noForwardProgress_destFull = 80"
| "err_value ZSTD_error_noForwardProgress_inputEmpty = 82"
| "err_value ZSTD_error_frameIndex_tooLarge = 100"
| "err_value ZSTD_error_seekableIO = 102"
| "err_value ZSTD_error_dstBuffer_wrong = 104"
| "err_value ZSTD_error_srcBuffer_wrong = 105"
| "err_value ZSTD_error_sequenceProducer_failed = 106"
| "err_value ZSTD_error_externalSequences_invalid = 107"
| "err_value ZSTD_error_maxCode = 120"

text \<open>\<open>ERROR(name)\<close> is \<open>((size_t)-ZSTD_error_name)\<close>.\<close>

definition ZSTD_ERROR :: "ZSTD_ErrorCode \<Rightarrow> size_t" where
  "ZSTD_ERROR e = - of_nat (err_value e)"

definition ERR_isError :: "size_t \<Rightarrow> bool" where
  "ERR_isError code \<longleftrightarrow> code > ZSTD_ERROR ZSTD_error_maxCode"

text \<open>The C enum is an \<open>unsigned int\<close>; the cast of \<open>0-code\<close> keeps its low 32 bits.\<close>

definition ERR_getErrorCode :: "size_t \<Rightarrow> U32" where
  "ERR_getErrorCode code = (if \<not> ERR_isError code then 0 else ucast (0 - code))"

definition ERR_getErrorString :: "U32 \<Rightarrow> string" where
  "ERR_getErrorString code =
    (if code = 0 then ''No error detected''
     else if code = 1 then ''Error (generic)''
     else if code = 10 then ''Unknown frame descriptor''
     else if code = 12 then ''Version not supported''
     else if code = 14 then ''Unsupported frame parameter''
     else if code = 16 then ''Frame requires too much memory for decoding''
     else if code = 20 then ''Data corruption detected''
     else if code = 22 then ''Restored data doesn't match checksum''
     else if code = 24 then ''Header of Literals' block doesn't respect format specification''
     else if code = 40 then ''Unsupported parameter''
     else if code = 41 then ''Unsupported combination of parameters''
     else if code = 42 then ''Parameter is out of bound''
     else if code = 62 then ''Context should be init first''
     else if code = 64 then ''Allocation error : not enough memory''
     else if code = 66 then ''workSpace buffer is not large enough''
     else if code = 60 then ''Operation not authorized at current processing stage''
     else if code = 44 then ''tableLog requires too much memory : unsupported''
     else if code = 46 then ''Unsupported max Symbol Value : too large''
     else if code = 48 then ''Specified maxSymbolValue is too small''
     else if code = 49 then ''This mode cannot generate an uncompressed block''
     else if code = 50 then ''pledged buffer stability condition is not respected''
     else if code = 30 then ''Dictionary is corrupted''
     else if code = 32 then ''Dictionary mismatch''
     else if code = 34 then ''Cannot create Dictionary from provided samples''
     else if code = 70 then ''Destination buffer is too small''
     else if code = 72 then ''Src size is incorrect''
     else if code = 74 then ''Operation on NULL destination buffer''
     else if code = 80 then
       ''Operation made no progress over multiple calls, due to output buffer being full''
     else if code = 82 then
       ''Operation made no progress over multiple calls, due to input being empty''
     else if code = 100 then ''Frame index is too large''
     else if code = 102 then ''An I/O error occurred when reading/seeking''
     else if code = 104 then ''Destination buffer is wrong''
     else if code = 105 then ''Source buffer is wrong''
     else if code = 106 then ''Block-level external sequence producer returned an error code''
     else if code = 107 then ''External sequences are not valid''
     else ''Unspecified error code'')"

definition ERR_getErrorName :: "size_t \<Rightarrow> string" where
  "ERR_getErrorName code = ERR_getErrorString (ERR_getErrorCode code)"

definition ZSTD_isError :: "size_t \<Rightarrow> bool" where
  "ZSTD_isError code = ERR_isError code"

definition ZSTD_getErrorCode :: "size_t \<Rightarrow> U32" where
  "ZSTD_getErrorCode code = ERR_getErrorCode code"

definition ZSTD_getErrorName :: "size_t \<Rightarrow> string" where
  "ZSTD_getErrorName code = ERR_getErrorName code"

subsection \<open>Results as sums\<close>

text \<open>
  \<open>bindE\<close> is the pattern \<open>FORWARD_IF_ERROR(x, ...)\<close> / \<open>CHECK_V_F\<close>: an error of the first
  computation is returned at once, a value is passed on.
\<close>

fun bindE :: "'e + 'a \<Rightarrow> ('a \<Rightarrow> 'e + 'b) \<Rightarrow> 'e + 'b" where
  "bindE (Inl e) f = Inl e"
| "bindE (Inr x) f = f x"

lemma bindE_Inr [simp]: "bindE m f = Inr y \<longleftrightarrow> (\<exists>x. m = Inr x \<and> f x = Inr y)"
  by (cases m) auto

lemma bindE_Inl: "bindE m f = Inl e \<longleftrightarrow> m = Inl e \<or> (\<exists>x. m = Inr x \<and> f x = Inl e)"
  by (cases m) auto

lemma bindE_split: "P (bindE m f) \<longleftrightarrow> (\<forall>e. m = Inl e \<longrightarrow> P (Inl e)) \<and> (\<forall>x. m = Inr x \<longrightarrow> P (f x))"
  by (cases m) auto

lemma bindE_assoc [simp]: "bindE (bindE m f) g = bindE m (\<lambda>x. bindE (f x) g)"
  by (cases m) auto

lemma bindE_cong [fundef_cong]:
  "m = m' \<Longrightarrow> (\<And>x. m' = Inr x \<Longrightarrow> f x = f' x) \<Longrightarrow> bindE m f = bindE m' f'"
  by (cases m') auto

fun size_result :: "ZSTD_ErrorCode + nat \<Rightarrow> size_t" where
  "size_result (Inl e) = ZSTD_ERROR e"
| "size_result (Inr n) = of_nat n"

text \<open>An error a function may return: every enumerator but \<open>no_error\<close> and \<open>maxCode\<close>.\<close>

definition proper_error :: "ZSTD_ErrorCode \<Rightarrow> bool" where
  "proper_error e \<longleftrightarrow> e \<noteq> ZSTD_error_no_error \<and> e \<noteq> ZSTD_error_maxCode"

lemma err_value_bounds: "proper_error e \<Longrightarrow> 0 < err_value e \<and> err_value e < 120"
  by (cases e) (auto simp: proper_error_def)

lemma err_value_inject: "err_value e = err_value e' \<longleftrightarrow> e = e'"
  by (cases e; cases e'; simp)

lemma unat_ZSTD_ERROR: "0 < err_value e \<Longrightarrow> unat (ZSTD_ERROR e) = 2 ^ 64 - err_value e"
proof -
  assume pos: "0 < err_value e"
  have le: "err_value e \<le> 120" by (cases e) auto
  then have un: "unat (of_nat (err_value e) :: size_t) = err_value e"
    by (simp add: unat_of_nat)
  have "(of_nat (err_value e) :: size_t) \<noteq> 0"
    using pos un by auto
  then show ?thesis
    using un by (simp add: ZSTD_ERROR_def unat_uminus)
qed

lemma ERR_isError_iff: "ERR_isError c \<longleftrightarrow> 2 ^ 64 - 120 < unat c"
  by (simp add: ERR_isError_def word_less_nat_alt unat_ZSTD_ERROR)

lemma isError_ERROR: "proper_error e \<Longrightarrow> ERR_isError (ZSTD_ERROR e)"
  by (drule err_value_bounds) (simp add: ERR_isError_iff unat_ZSTD_ERROR less_diff_conv)

lemma getErrorCode_ERROR: "proper_error e \<Longrightarrow> ERR_getErrorCode (ZSTD_ERROR e) = of_nat (err_value e)"
proof -
  assume p: "proper_error e"
  have "(ucast (of_nat (err_value e) :: size_t) :: U32) = of_nat (err_value e)"
    by (rule word_unat_eq_iff[THEN iffD2])
       (use err_value_bounds[OF p] in \<open>simp add: unat_of_nat unat_ucast_mod\<close>)
  then show ?thesis
    using isError_ERROR[OF p] by (simp add: ERR_getErrorCode_def ZSTD_ERROR_def)
qed

lemma not_isError_size: "n \<le> 2 ^ 64 - 120 \<Longrightarrow> \<not> ERR_isError (of_nat n)"
  by (simp add: ERR_isError_iff unat_of_nat)

lemma getErrorCode_size: "n \<le> 2 ^ 64 - 120 \<Longrightarrow> ERR_getErrorCode (of_nat n) = 0"
  by (simp add: ERR_getErrorCode_def not_isError_size)

text \<open>
  Property C32: the \<open>size_t\<close> encoding of results is unambiguous.  For every proper error and
  every size up to \<open>2^64 - 120\<close>, \<open>ZSTD_isError\<close> tells the two kinds of result apart,
  \<open>ZSTD_getErrorCode\<close> returns the number of the error (0 for a size), and the value of a
  size is the \<open>size_t\<close> itself.
\<close>

theorem size_result_decodes:
  assumes "case r of Inl e \<Rightarrow> proper_error e | Inr n \<Rightarrow> n \<le> 2 ^ 64 - 120"
  shows "ZSTD_isError (size_result r) = isl r
    \<and> ZSTD_getErrorCode (size_result r) = (case r of Inl e \<Rightarrow> of_nat (err_value e) | Inr n \<Rightarrow> 0)
    \<and> (case r of Inl e \<Rightarrow> True | Inr n \<Rightarrow> unat (size_result r) = n)"
  using assms
  by (cases r)
     (simp_all add: ZSTD_isError_def ZSTD_getErrorCode_def isError_ERROR getErrorCode_ERROR
        not_isError_size getErrorCode_size unat_of_nat)

theorem size_result_decodes_witness:
  "ZSTD_isError (size_result (Inl ZSTD_error_srcSize_wrong))
    \<and> ZSTD_getErrorCode (size_result (Inl ZSTD_error_srcSize_wrong)) = 72
    \<and> \<not> ZSTD_isError (size_result (Inr 1000)) \<and> unat (size_result (Inr 1000)) = 1000"
  using size_result_decodes[of "Inl ZSTD_error_srcSize_wrong"]
    size_result_decodes[of "Inr 1000"]
  by (simp add: proper_error_def)

text \<open>
  The strings are pairwise distinct: their lengths and, where two lengths agree, their first
  character determine the error number.
\<close>

definition name_key :: "string \<Rightarrow> nat" where
  "name_key s = the (map_of
     [((17, CHR ''N''), 0), ((15, CHR ''E''), 1), ((24, CHR ''U''), 10), ((21, CHR ''V''), 12),
      ((27, CHR ''U''), 14), ((43, CHR ''F''), 16), ((24, CHR ''D''), 20),
      ((36, CHR ''R''), 22), ((62, CHR ''H''), 24), ((21, CHR ''U''), 40),
      ((37, CHR ''U''), 41), ((25, CHR ''P''), 42), ((28, CHR ''C''), 62),
      ((36, CHR ''A''), 64), ((36, CHR ''w''), 66), ((52, CHR ''O''), 60),
      ((47, CHR ''t''), 44), ((40, CHR ''U''), 46), ((37, CHR ''S''), 48),
      ((47, CHR ''T''), 49), ((51, CHR ''p''), 50), ((23, CHR ''D''), 30),
      ((19, CHR ''D''), 32), ((46, CHR ''C''), 34), ((31, CHR ''D''), 70),
      ((21, CHR ''S''), 72), ((36, CHR ''O''), 74), ((79, CHR ''O''), 80),
      ((72, CHR ''O''), 82), ((24, CHR ''F''), 100), ((42, CHR ''A''), 102),
      ((27, CHR ''D''), 104), ((22, CHR ''S''), 105), ((61, CHR ''B''), 106),
      ((32, CHR ''E''), 107), ((22, CHR ''U''), 120)]
     (length s, hd s))"

lemma name_key_ERR_getErrorString:
  "proper_error e \<Longrightarrow> name_key (ERR_getErrorString (of_nat (err_value e))) = err_value e"
  by (cases e) (simp_all add: ERR_getErrorString_def proper_error_def name_key_def)

text \<open>
  The error name identifies the error.  Two proper errors are returned with the
  same \<open>ZSTD_getErrorName\<close> string only if they are the same error, and none is reported as
  \<open>No error detected\<close> or as unspecified.
\<close>

theorem error_name_identifies:
  assumes "proper_error e" "proper_error e'"
  shows "(ZSTD_getErrorName (ZSTD_ERROR e) = ZSTD_getErrorName (ZSTD_ERROR e') \<longleftrightarrow> e = e')
    \<and> ZSTD_getErrorName (ZSTD_ERROR e) \<noteq> ''Unspecified error code''
    \<and> ZSTD_getErrorName (ZSTD_ERROR e) \<noteq> ''No error detected''"
proof -
  have len: "name_key (ZSTD_getErrorName (ZSTD_ERROR e)) = err_value e" if "proper_error e" for e
    using that by (simp add: ZSTD_getErrorName_def ERR_getErrorName_def getErrorCode_ERROR
        name_key_ERR_getErrorString)
  have "name_key ''Unspecified error code'' = 120" "name_key ''No error detected'' = 0"
    by (simp_all add: name_key_def)
  with len[OF assms(1)] len[OF assms(2)] err_value_bounds[OF assms(1)] show ?thesis
    by (metis err_value_inject less_irrefl)
qed

theorem error_name_identifies_witness:
  "ZSTD_getErrorName (ZSTD_ERROR ZSTD_error_dstSize_tooSmall)
    \<noteq> ZSTD_getErrorName (ZSTD_ERROR ZSTD_error_srcSize_wrong)"
  using error_name_identifies[of ZSTD_error_dstSize_tooSmall ZSTD_error_srcSize_wrong]
  by (simp add: proper_error_def)

end
