(* ===== verification/Zstd_Bitstream.thy ===== *)
theory Zstd_Bitstream
  imports Zstd_Errors Zstd_Bits
begin

section \<open>Bit streams written forwards and read backwards (\<^verbatim>\<open>common/bitstream.h\<close>)\<close>

text \<open>
  The entropy coders push bit fields into a \<open>BIT_CStream_t\<close> and pop them, last in first out,
  from a \<open>BIT_DStream_t\<close>.  Both registers are 64 bits wide.  The memory a stream works on is a
  field of its record (\<open>c_mem\<close>, \<open>d_src\<close>); the C pointers are offsets into it, with
  \<open>startPtr\<close> and \<open>start\<close> the offset 0.

  The abstract view of a stream is a natural number together with its number of bits: pushing
  \<open>n\<close> bits puts them above the bits already there, popping takes the top \<open>n\<close> bits.  The locales
  \<open>bit_writer\<close>, \<open>bit_reader\<close> and \<open>bit_lifo\<close> state this contract, and are interpreted with the
  operations of the source.
\<close>

record BIT_CStream_t =
  c_bitContainer :: U64
  c_bitPos :: nat
  c_mem :: buffer
  c_ptr :: nat
  c_endPtr :: nat

text \<open>
  After an overflow \<open>BIT_reloadDStream\<close> points the stream at a static zero word; \<open>ZeroFilled\<close>
  is that pointer, which compares unequal to every position in the source buffer.
\<close>

datatype d_pointer = At nat | ZeroFilled

record BIT_DStream_t =
  d_bitContainer :: U64
  d_bitsConsumed :: nat
  d_src :: buffer
  d_ptr :: d_pointer
  d_limitPtr :: nat

datatype BIT_DStream_status =
    BIT_DStream_unfinished | BIT_DStream_endOfBuffer | BIT_DStream_completed | BIT_DStream_overflow

definition BIT_mask :: "U32 list" where
  "BIT_mask = [0, 1, 3, 7, 0xF, 0x1F, 0x3F, 0x7F, 0xFF, 0x1FF, 0x3FF, 0x7FF,
     0xFFF, 0x1FFF, 0x3FFF, 0x7FFF, 0xFFFF, 0x1FFFF, 0x3FFFF, 0x7FFFF, 0xFFFFF, 0x1FFFFF,
     0x3FFFFF, 0x7FFFFF, 0xFFFFFF, 0x1FFFFFF, 0x3FFFFFF, 0x7FFFFFF, 0xFFFFFFF, 0x1FFFFFFF,
     0x3FFFFFFF, 0x7FFFFFFF]"

subsection \<open>Writing\<close>

definition BIT_initCStream :: "buffer \<Rightarrow> nat \<Rightarrow> ZSTD_ErrorCode + BIT_CStream_t" where
  "BIT_initCStream dst dstCapacity =
     (if dstCapacity \<le> 8 then Inl ZSTD_error_dstSize_tooSmall
      else Inr \<lparr>c_bitContainer = 0, c_bitPos = 0, c_mem = dst, c_ptr = 0, c_endPtr = dstCapacity - 8\<rparr>)"

definition BIT_getLowerBits :: "U64 \<Rightarrow> nat \<Rightarrow> U64" where
  "BIT_getLowerBits bitContainer nbBits = bitContainer AND ucast (BIT_mask ! nbBits)"

definition BIT_addBits :: "BIT_CStream_t \<Rightarrow> U64 \<Rightarrow> nat \<Rightarrow> BIT_CStream_t" where
  "BIT_addBits bitC value nbBits =
     bitC\<lparr>c_bitContainer :=
            c_bitContainer bitC OR push_bit (c_bitPos bitC) (BIT_getLowerBits value nbBits),
          c_bitPos := c_bitPos bitC + nbBits\<rparr>"

definition BIT_addBitsFast :: "BIT_CStream_t \<Rightarrow> U64 \<Rightarrow> nat \<Rightarrow> BIT_CStream_t" where
  "BIT_addBitsFast bitC value nbBits =
     bitC\<lparr>c_bitContainer := c_bitContainer bitC OR push_bit (c_bitPos bitC) value,
          c_bitPos := c_bitPos bitC + nbBits\<rparr>"

definition BIT_flushBitsFast :: "BIT_CStream_t \<Rightarrow> BIT_CStream_t" where
  "BIT_flushBitsFast bitC =
     (let nbBytes = c_bitPos bitC div 8
      in bitC\<lparr>c_mem := MEM_writeLEST LittleEndian (c_mem bitC) (c_ptr bitC) (c_bitContainer bitC),
              c_ptr := c_ptr bitC + nbBytes,
              c_bitPos := c_bitPos bitC mod 8,
              c_bitContainer := drop_bit (nbBytes * 8) (c_bitContainer bitC)\<rparr>)"

definition BIT_flushBits :: "BIT_CStream_t \<Rightarrow> BIT_CStream_t" where
  "BIT_flushBits bitC =
     (let nbBytes = c_bitPos bitC div 8;
          ptr = c_ptr bitC + nbBytes
      in bitC\<lparr>c_mem := MEM_writeLEST LittleEndian (c_mem bitC) (c_ptr bitC) (c_bitContainer bitC),
              c_ptr := (if ptr > c_endPtr bitC then c_endPtr bitC else ptr),
              c_bitPos := c_bitPos bitC mod 8,
              c_bitContainer := drop_bit (nbBytes * 8) (c_bitContainer bitC)\<rparr>)"

definition BIT_closeCStream :: "BIT_CStream_t \<Rightarrow> nat \<times> BIT_CStream_t" where
  "BIT_closeCStream bitC =
     (let bitC = BIT_flushBits (BIT_addBitsFast bitC 1 1)
      in if c_ptr bitC \<ge> c_endPtr bitC then (0, bitC)
         else (c_ptr bitC + (if c_bitPos bitC > 0 then 1 else 0), bitC))"

subsection \<open>Reading\<close>

text \<open>
  The seven-way \<open>switch\<close> for sources shorter than the register adds byte \<open>k\<close> at bit
  \<open>8 * k\<close>, falling through from the last byte down to the second.
\<close>

fun small_container :: "buffer \<Rightarrow> nat \<Rightarrow> U64 \<Rightarrow> U64" where
  "small_container src 0 acc = acc"
| "small_container src (Suc 0) acc = acc"
| "small_container src (Suc (Suc k)) acc =
     small_container src (Suc k) (acc + push_bit (8 * Suc k) (ucast (src ! Suc k)))"

definition BIT_initDStream :: "buffer \<Rightarrow> ZSTD_ErrorCode + BIT_DStream_t" where
  "BIT_initDStream src =
     (let srcSize = length src in
      if srcSize < 1 then Inl ZSTD_error_srcSize_wrong
      else let lastByte = src ! (srcSize - 1);
               consumed = (if lastByte \<noteq> 0 then 8 - ZSTD_highbit32 (ucast lastByte) else 0) in
      if srcSize \<ge> 8 then
        (if lastByte = 0 then Inl ZSTD_error_GENERIC
         else Inr \<lparr>d_bitContainer = MEM_readLEST LittleEndian src (srcSize - 8),
                   d_bitsConsumed = consumed, d_src = src, d_ptr = At (srcSize - 8),
                   d_limitPtr = 8\<rparr>)
      else
        (if lastByte = 0 then Inl ZSTD_error_corruption_detected
         else Inr \<lparr>d_bitContainer = small_container src srcSize (ucast (src ! 0)),
                   d_bitsConsumed = consumed + (8 - srcSize) * 8, d_src = src, d_ptr = At 0,
                   d_limitPtr = 8\<rparr>))"

definition BIT_getUpperBits :: "U64 \<Rightarrow> nat \<Rightarrow> U64" where
  "BIT_getUpperBits bitContainer start = drop_bit start bitContainer"

text \<open>
  \<open>start\<close> is an unsigned 32-bit value, masked with \<open>regMask = 63\<close>; a wrapped-around start is
  given here as an integer.
\<close>

definition BIT_getMiddleBits :: "U64 \<Rightarrow> int \<Rightarrow> nat \<Rightarrow> U64" where
  "BIT_getMiddleBits bitContainer start nbBits =
     drop_bit (nat (start mod 64)) bitContainer AND (push_bit nbBits 1 - 1)"

definition BIT_lookBits :: "BIT_DStream_t \<Rightarrow> nat \<Rightarrow> U64" where
  "BIT_lookBits bitD nbBits =
     BIT_getMiddleBits (d_bitContainer bitD) (64 - int (d_bitsConsumed bitD) - int nbBits) nbBits"

definition BIT_lookBitsFast :: "BIT_DStream_t \<Rightarrow> nat \<Rightarrow> U64" where
  "BIT_lookBitsFast bitD nbBits =
     drop_bit (nat ((64 - int nbBits) mod 64)) (push_bit (d_bitsConsumed bitD mod 64) (d_bitContainer bitD))"

definition BIT_skipBits :: "BIT_DStream_t \<Rightarrow> nat \<Rightarrow> BIT_DStream_t" where
  "BIT_skipBits bitD nbBits = bitD\<lparr>d_bitsConsumed := d_bitsConsumed bitD + nbBits\<rparr>"

definition BIT_readBits :: "BIT_DStream_t \<Rightarrow> nat \<Rightarrow> U64 \<times> BIT_DStream_t" where
  "BIT_readBits bitD nbBits = (BIT_lookBits bitD nbBits, BIT_skipBits bitD nbBits)"

definition BIT_readBitsFast :: "BIT_DStream_t \<Rightarrow> nat \<Rightarrow> U64 \<times> BIT_DStream_t" where
  "BIT_readBitsFast bitD nbBits = (BIT_lookBitsFast bitD nbBits, BIT_skipBits bitD nbBits)"

definition BIT_reloadDStream_internal :: "BIT_DStream_t \<Rightarrow> nat \<Rightarrow> BIT_DStream_status \<times> BIT_DStream_t" where
  "BIT_reloadDStream_internal bitD ptr =
     (let ptr' = ptr - d_bitsConsumed bitD div 8
      in (BIT_DStream_unfinished,
          bitD\<lparr>d_ptr := At ptr', d_bitsConsumed := d_bitsConsumed bitD mod 8,
               d_bitContainer := MEM_readLEST LittleEndian (d_src bitD) ptr'\<rparr>))"

definition BIT_reloadDStreamFast :: "BIT_DStream_t \<Rightarrow> nat \<Rightarrow> BIT_DStream_status \<times> BIT_DStream_t" where
  "BIT_reloadDStreamFast bitD ptr =
     (if ptr < d_limitPtr bitD then (BIT_DStream_overflow, bitD)
      else BIT_reloadDStream_internal bitD ptr)"

definition BIT_reloadDStream :: "BIT_DStream_t \<Rightarrow> BIT_DStream_status \<times> BIT_DStream_t" where
  "BIT_reloadDStream bitD =
     (if d_bitsConsumed bitD > 64 then (BIT_DStream_overflow, bitD\<lparr>d_ptr := ZeroFilled\<rparr>)
      else case d_ptr bitD of
        ZeroFilled \<Rightarrow> (BIT_DStream_overflow, bitD)
      | At ptr \<Rightarrow>
          if ptr \<ge> d_limitPtr bitD then BIT_reloadDStream_internal bitD ptr
          else if ptr = 0 then
            (if d_bitsConsumed bitD < 64 then (BIT_DStream_endOfBuffer, bitD)
             else (BIT_DStream_completed, bitD))
          else
            let n = d_bitsConsumed bitD div 8;
                (nbBytes, result) = (if ptr < n then (ptr, BIT_DStream_endOfBuffer)
                                     else (n, BIT_DStream_unfinished))
            in (result,
                bitD\<lparr>d_ptr := At (ptr - nbBytes),
                     d_bitsConsumed := d_bitsConsumed bitD - nbBytes * 8,
                     d_bitContainer := MEM_readLEST LittleEndian (d_src bitD) (ptr - nbBytes)\<rparr>))"

definition BIT_endOfDStream :: "BIT_DStream_t \<Rightarrow> bool" where
  "BIT_endOfDStream bitD \<longleftrightarrow> d_ptr bitD = At 0 \<and> d_bitsConsumed bitD = 64"

subsection \<open>The writer's abstraction\<close>

definition c_inv :: "BIT_CStream_t \<Rightarrow> bool" where
  "c_inv c \<longleftrightarrow> c_bitPos c < 64 \<and> unat (c_bitContainer c) < 2 ^ c_bitPos c
     \<and> c_ptr c \<le> c_endPtr c \<and> c_endPtr c + 8 \<le> length (c_mem c)"

definition c_val :: "BIT_CStream_t \<Rightarrow> nat" where
  "c_val c = le_val (take (c_ptr c) (c_mem c)) + 256 ^ c_ptr c * unat (c_bitContainer c)"

definition c_len :: "BIT_CStream_t \<Rightarrow> nat" where
  "c_len c = 8 * c_ptr c + c_bitPos c"

lemma unat_or_push_bit:
  fixes a b :: "'a::len word"
  assumes "unat a < 2 ^ p" "unat b * 2 ^ p < 2 ^ LENGTH('a)"
  shows "unat (a OR push_bit p b) = unat a + unat b * 2 ^ p"
proof -
  have pb: "unat (push_bit p b) = unat b * 2 ^ p"
    using assms(2) by (simp add: unat_push_bit_mod)
  have nb: "\<And>n. p \<le> n \<Longrightarrow> \<not> bit a n" using assms(1) by (simp add: unat_less_iff_bits)
  have "a AND push_bit p b = 0"
    by (rule bit_word_eqI) (use nb in \<open>auto simp: bit_simps\<close>)
  then have "a OR push_bit p b = a + push_bit p b"
    by (simp add: disjunctive_add_eq_or)
  moreover have "unat a + unat b * 2 ^ p < 2 ^ LENGTH('a)"
  proof (cases "unat b = 0")
    case True
    then show ?thesis using unat_less_exp[of a] by simp
  next
    case False
    then have "2 ^ p \<le> unat b * 2 ^ p" by simp
    then have "2 ^ p < (2::nat) ^ LENGTH('a)" using assms(2) by (rule le_less_trans)
    then have "p \<le> LENGTH('a)" by simp
    then have q: "(2::nat) ^ LENGTH('a) = 2 ^ p * 2 ^ (LENGTH('a) - p)"
      by (simp only: power_add[symmetric]) simp
    with assms(2) have "unat b < 2 ^ (LENGTH('a) - p)" by (simp add: mult.commute)
    then have "2 ^ p * (unat b + 1) \<le> 2 ^ p * 2 ^ (LENGTH('a) - p)" by (intro mult_le_mono2) simp
    then show ?thesis using assms(1) q by (simp add: algebra_simps)
  qed
  ultimately show ?thesis
    using pb by (simp add: unat_word_ariths)
qed

lemma BIT_mask_nth: "n < 32 \<Longrightarrow> BIT_mask ! n = mask n"
proof -
  have "\<forall>n<32. BIT_mask ! n = mask n"
    unfolding all_less_32 BIT_mask_def by (simp add: mask_eq_exp_minus_1)
  then show "n < 32 \<Longrightarrow> ?thesis" by blast
qed

lemma unat_getLowerBits: "n < 32 \<Longrightarrow> unat (BIT_getLowerBits v n) = unat v mod 2 ^ n"
proof -
  assume n: "n < 32"
  have "(ucast (mask n :: U32) :: U64) = mask n"
    using n by (intro bit_word_eqI) (auto simp: bit_simps)
  then show ?thesis using n by (simp add: BIT_getLowerBits_def BIT_mask_nth unat_and_mask)
qed

lemma addBits_gen:
  assumes "c_inv c" "c_bitPos c + nb < 64" "unat v < 2 ^ nb"
  shows "c_inv (BIT_addBitsFast c v nb)"
    and "c_val (BIT_addBitsFast c v nb) = c_val c + 2 ^ c_len c * unat v"
    and "c_len (BIT_addBitsFast c v nb) = c_len c + nb"
proof -
  have le: "(2::nat) ^ nb * 2 ^ c_bitPos c \<le> 2 ^ 63"
    using assms(2) power_increasing[of "nb + c_bitPos c" 63 "2::nat"] by (simp add: power_add)
  have sm: "unat v * 2 ^ c_bitPos c + 2 ^ c_bitPos c \<le> 2 ^ nb * 2 ^ c_bitPos c"
    using assms(3) mult_le_mono1[of "unat v + 1" "2 ^ nb" "2 ^ c_bitPos c"] by simp
  have "unat v * 2 ^ c_bitPos c \<le> 2 ^ 63" using sm le by linarith
  then have lt: "unat v * 2 ^ c_bitPos c < 2 ^ 64"
    by (rule le_less_trans) simp
  have or: "unat (c_bitContainer c OR push_bit (c_bitPos c) v)
      = unat (c_bitContainer c) + unat v * 2 ^ c_bitPos c"
    using assms(1) lt by (intro unat_or_push_bit) (simp_all add: c_inv_def)
  show "c_inv (BIT_addBitsFast c v nb)"
    using assms sm by (auto simp: c_inv_def BIT_addBitsFast_def or power_add mult.commute)
  show "c_val (BIT_addBitsFast c v nb) = c_val c + 2 ^ c_len c * unat v"
    by (simp add: c_val_def c_len_def BIT_addBitsFast_def or pow256 power_add algebra_simps)
  show "c_len (BIT_addBitsFast c v nb) = c_len c + nb"
    by (simp add: c_len_def BIT_addBitsFast_def)
qed

lemma addBits_as_fast: "BIT_addBits c v nb = BIT_addBitsFast c (BIT_getLowerBits v nb) nb"
  by (simp add: BIT_addBits_def BIT_addBitsFast_def)

lemma addBits_spec:
  assumes "c_inv c" "nb < 32" "c_bitPos c + nb < 64"
  shows "c_inv (BIT_addBits c v nb)"
    and "c_val (BIT_addBits c v nb) = c_val c + 2 ^ c_len c * (unat v mod 2 ^ nb)"
    and "c_len (BIT_addBits c v nb) = c_len c + nb"
  using addBits_gen[of c nb "BIT_getLowerBits v nb"] assms
  by (simp_all add: addBits_as_fast unat_getLowerBits)

lemma take_after_store:
  assumes "p + 8 \<le> length mem" "k \<le> 8"
  shows "take (p + k) (MEM_writeLEST LittleEndian mem p v) = take p mem @ le_bytes k (unat v)"
  using assms by (simp add: MEM_writeLEST_def writeLE64_eq write_at_def min_def take_le_bytes)

lemma flush_spec:
  assumes "c_inv c" "c_ptr c + c_bitPos c div 8 \<le> c_endPtr c"
  shows "c_inv (BIT_flushBits c)" "c_val (BIT_flushBits c) = c_val c"
    "c_len (BIT_flushBits c) = c_len c" "c_bitPos (BIT_flushBits c) < 8"
    "c_endPtr (BIT_flushBits c) = c_endPtr c"
proof -
  define n where "n = c_bitPos c div 8"
  have n: "n \<le> 8" "c_bitPos c = 8 * n + c_bitPos c mod 8"
    using assms(1) by (auto simp: n_def c_inv_def)
  have room: "c_ptr c + 8 \<le> length (c_mem c)" using assms(1) by (simp add: c_inv_def)
  have f: "BIT_flushBits c = c\<lparr>c_mem := MEM_writeLEST LittleEndian (c_mem c) (c_ptr c) (c_bitContainer c),
      c_ptr := c_ptr c + n, c_bitPos := c_bitPos c mod 8,
      c_bitContainer := drop_bit (n * 8) (c_bitContainer c)\<rparr>"
    using assms(2) by (simp add: BIT_flushBits_def n_def Let_def)
  have "unat (c_bitContainer c) < 2 ^ (8 * n + c_bitPos c mod 8)"
    using assms(1) n(2) by (simp add: c_inv_def)
  then have "unat (c_bitContainer c) div 2 ^ (8 * n) < 2 ^ (c_bitPos c mod 8)"
    by (simp add: power_add less_mult_imp_div_less mult.commute)
  then show "c_inv (BIT_flushBits c)"
    using assms room by (simp add: f c_inv_def n_def unat_drop_bit_div mult.commute
        MEM_writeLEST_def writeLE64_eq)
  have "le_val (take (c_ptr c + n) (c_mem (BIT_flushBits c)))
      = le_val (take (c_ptr c) (c_mem c)) + 256 ^ c_ptr c * (unat (c_bitContainer c) mod 256 ^ n)"
    using room n(1) by (simp add: f take_after_store le_val_append min_def)
  then have "c_val (BIT_flushBits c) = le_val (take (c_ptr c) (c_mem c))
      + 256 ^ c_ptr c * (unat (c_bitContainer c) mod 256 ^ n)
      + 256 ^ (c_ptr c + n) * (unat (c_bitContainer c) div 256 ^ n)"
    by (simp add: c_val_def f unat_drop_bit_div pow256 mult.commute)
  also have "\<dots> = le_val (take (c_ptr c) (c_mem c))
      + 256 ^ c_ptr c * (unat (c_bitContainer c) mod 256 ^ n + 256 ^ n * (unat (c_bitContainer c) div 256 ^ n))"
    by (simp only: power_add distrib_left mult.assoc add.assoc)
  finally show "c_val (BIT_flushBits c) = c_val c" by (simp add: c_val_def)
  show "c_len (BIT_flushBits c) = c_len c" using n(2) by (simp add: c_len_def f)
  show "c_bitPos (BIT_flushBits c) < 8" "c_endPtr (BIT_flushBits c) = c_endPtr c" by (simp_all add: f)
qed

lemma close_spec:
  assumes "c_inv c" "c_bitPos c < 63"
  shows "let (n, c') = BIT_closeCStream c in
      if (c_len c + 1) div 8 < c_endPtr c
      then n = c_len c div 8 + 1 \<and> take n (c_mem c') = le_bytes n (c_val c + 2 ^ c_len c)
      else n = 0"
proof -
  define a where "a = BIT_addBitsFast c 1 1"
  have a: "c_inv a" "c_val a = c_val c + 2 ^ c_len c" "c_len a = c_len c + 1"
    using addBits_gen[OF assms(1), of 1 1] assms(2) by (simp_all add: a_def)
  have same: "c_ptr a = c_ptr c" "c_endPtr a = c_endPtr c" "c_bitPos a = c_bitPos c + 1"
    by (simp_all add: a_def BIT_addBitsFast_def)
  have ptr: "c_ptr a + c_bitPos a div 8 = (c_len c + 1) div 8"
    using a(3) by (simp add: c_len_def)
  define f where "f = BIT_flushBits a"
  have fp: "c_ptr f = min ((c_len c + 1) div 8) (c_endPtr c)" "c_bitPos f = (c_len c + 1) mod 8"
    "c_endPtr f = c_endPtr c"
    using ptr same a(3) by (auto simp: f_def BIT_flushBits_def Let_def c_len_def)
  have cl: "BIT_closeCStream c = (if c_ptr f \<ge> c_endPtr f then (0, f)
      else (c_ptr f + (if c_bitPos f > 0 then 1 else 0), f))"
    by (simp only: BIT_closeCStream_def Let_def a_def f_def)
  show ?thesis
  proof (cases "(c_len c + 1) div 8 < c_endPtr c")
    case False
    then show ?thesis using cl fp by simp
  next
    case True
    define n where "n = c_len c div 8 + 1"
    have cl: "BIT_closeCStream c = (n, f)"
      using True cl fp by (simp add: n_def) (simp add: div_Suc mod_Suc)
    have k: "n - c_ptr c \<le> 8" "c_ptr c \<le> n" "c_ptr a + 8 \<le> length (c_mem a)"
      using a(1) assms by (auto simp: n_def c_len_def c_inv_def same)
    have mem: "take n (c_mem f) = take (c_ptr a) (c_mem a) @ le_bytes (n - c_ptr c) (unat (c_bitContainer a))"
      using take_after_store[of "c_ptr a" "c_mem a" "n - c_ptr c" "c_bitContainer a"] k same
      by (simp add: f_def BIT_flushBits_def Let_def)
    have "c_bitPos a \<le> 8 * (n - c_ptr c)" by (simp add: same n_def c_len_def)
    then have "unat (c_bitContainer a) < 256 ^ (n - c_ptr c)"
      using a(1) power_increasing[of "c_bitPos a" "8 * (n - c_ptr c)" "2::nat"]
      by (simp add: c_inv_def pow256 del: power_increasing_iff)
    then have v: "le_val (take n (c_mem f)) = c_val a"
      using k same by (simp add: mem le_val_append c_val_def min_def)
    have ln: "length (take n (c_mem f)) = n"
      using mem k same by simp
    then have "take n (c_mem f) = le_bytes n (c_val a)"
      using le_bytes_le_val[of "take n (c_mem f)"] v by simp
    then show ?thesis using True cl a(2) n_def by simp
  qed
qed

subsection \<open>The reader's abstraction\<close>

definition d_pos :: "BIT_DStream_t \<Rightarrow> nat" where
  "d_pos d = (case d_ptr d of At p \<Rightarrow> p | ZeroFilled \<Rightarrow> 0)"

definition d_inv :: "BIT_DStream_t \<Rightarrow> bool" where
  "d_inv d \<longleftrightarrow> d_ptr d = At (d_pos d) \<and> d_limitPtr d = 8 \<and> d_bitsConsumed d \<le> 64
     \<and> (d_pos d = 0 \<or> d_pos d + 8 \<le> length (d_src d))
     \<and> unat (d_bitContainer d) = le_val (d_src d) div 256 ^ d_pos d mod 2 ^ 64"

definition d_len :: "BIT_DStream_t \<Rightarrow> nat" where
  "d_len d = 8 * d_pos d + 64 - d_bitsConsumed d"

definition d_val :: "BIT_DStream_t \<Rightarrow> nat" where
  "d_val d = le_val (d_src d) mod 2 ^ d_len d"

lemma unat_readLEST:
  assumes "p + 8 \<le> length src"
  shows "unat (MEM_readLEST LittleEndian src p) = le_val src div 256 ^ p mod 2 ^ 64"
  using assms
  by (simp add: MEM_readLEST_def readLE64_eq unat_of_nat bytes_at_def le_val_take le_val_drop)

lemma small_container_val:
  assumes "k \<le> length src" "k \<le> 8" "1 \<le> k"
    "unat acc + 256 * le_val (take (k - 1) (tl src)) < 2 ^ 64"
  shows "unat (small_container src k acc) = unat acc + 256 * le_val (take (k - 1) (tl src))"
  using assms
proof (induction src k acc rule: small_container.induct)
  case (3 src k acc)
  let ?b = "src ! Suc k"
  have tk: "take (Suc k) (tl src) = take k (tl src) @ [?b]"
    using 3(2) by (simp add: take_Suc_conv_app_nth nth_tl)
  have len: "length (take k (tl src)) = k" using 3(2) by simp
  have pb: "256 * 256 ^ k * unat ?b \<le> 256 * le_val (take (Suc k) (tl src))"
    by (simp only: tk le_val_append len) simp
  have sh: "unat (push_bit (8 * Suc k) (ucast ?b :: U64)) = 256 * 256 ^ k * unat ?b"
  proof -
    have "unat (push_bit (8 * Suc k) (ucast ?b :: U64)) = unat ?b * 2 ^ (8 * Suc k) mod 2 ^ 64"
      by (simp only: unat_push_bit_mod unat_ucast_mod mod_mult_left_eq) simp
    also have "unat ?b * 2 ^ (8 * Suc k) = 256 * 256 ^ k * unat ?b"
      by (simp add: pow256 power_add)
    also have "256 * 256 ^ k * unat ?b mod 2 ^ 64 = 256 * 256 ^ k * unat ?b"
    proof (rule mod_less)
      have "256 * le_val (take (Suc k) (tl src)) < 2 ^ 64" using 3(5) by simp
      with pb show "256 * 256 ^ k * unat ?b < 2 ^ 64" by (rule le_less_trans)
    qed
    finally show ?thesis .
  qed
  have e: "256 * le_val (take (Suc k) (tl src)) = 256 * le_val (take k (tl src)) + 256 * 256 ^ k * unat ?b"
    by (simp only: tk le_val_append len) simp
  have s: "unat (acc + push_bit (8 * Suc k) (ucast ?b)) = unat acc + 256 * 256 ^ k * unat ?b"
    using 3(5) sh e by (simp only: unat_word_ariths) simp
  have "unat (small_container src (Suc k) (acc + push_bit (8 * Suc k) (ucast ?b)))
      = unat (acc + push_bit (8 * Suc k) (ucast ?b)) + 256 * le_val (take (Suc k - 1) (tl src))"
    by (rule 3(1)) (use 3(2-5) s e in simp_all)
  then show ?case using s e by simp
qed simp_all

lemma last_byte_bounds:
  assumes "src \<noteq> []" "last src \<noteq> 0"
  defines "L \<equiv> 8 * (length src - 1) + ZSTD_highbit32 (ucast (last src))"
  shows "2 ^ L \<le> le_val src" "le_val src < 2 ^ Suc L" "ZSTD_highbit32 (ucast (last src)) < 8"
proof -
  let ?h = "ZSTD_highbit32 (ucast (last src))" and ?m = "length src - 1"
  have v: "le_val src = le_val (butlast src) + 256 ^ ?m * unat (last src)"
    using assms(1) le_val_append[of "butlast src" "[last src]"] by simp
  have u: "unat (ucast (last src) :: U32) = unat (last src)"
    by (rule unat_ucast_up) simp
  have "(ucast (last src) :: U32) \<noteq> 0"
    using assms(2) u by (metis unat_0_iff unsigned_0)
  then have h: "2 ^ ?h \<le> unat (last src)" "unat (last src) < 2 ^ Suc ?h"
    using highbit32_bounds[of "ucast (last src)"] u by auto
  have "2 ^ ?h < (2::nat) ^ 8" using h(1) by (rule le_less_trans) simp
  then show "?h < 8" by (rule power_less_imp_less_exp[rotated]) simp
  have "256 ^ ?m * 2 ^ ?h \<le> 256 ^ ?m * unat (last src)" using h(1) by (rule mult_le_mono2)
  then have "256 ^ ?m * 2 ^ ?h \<le> le_val src" by (simp only: v trans_le_add2)
  then show "2 ^ L \<le> le_val src" by (simp add: L_def power_add pow256)
  have "256 ^ ?m * (unat (last src) + 1) \<le> 256 ^ ?m * 2 ^ Suc ?h" using h(2) by (intro mult_le_mono2) simp
  moreover have "le_val (butlast src) < 256 ^ ?m" using le_val_less[of "butlast src"] by simp
  ultimately have "le_val src < 256 ^ ?m * 2 ^ Suc ?h" by (simp add: v)
  then show "le_val src < 2 ^ Suc L" by (simp add: L_def power_add pow256)
qed

lemma initDStream_spec:
  assumes "src \<noteq> []" "last src \<noteq> 0"
  shows "\<exists>d. BIT_initDStream src = Inr d \<and> d_inv d \<and> d_src d = src
    \<and> 2 ^ d_len d \<le> le_val src \<and> le_val src < 2 ^ Suc (d_len d)"
proof -
  let ?n = "length src" and ?h = "ZSTD_highbit32 (ucast (last src))"
  have n: "?n \<ge> 1" using assms(1) by (cases src) auto
  have last: "src ! (?n - Suc 0) = last src" using assms(1) by (simp add: last_conv_nth)
  note lb = last_byte_bounds[OF assms]
  show ?thesis
  proof (cases "?n \<ge> 8")
    case True
    define d where "d = \<lparr>d_bitContainer = MEM_readLEST LittleEndian src (?n - 8),
      d_bitsConsumed = 8 - ?h, d_src = src, d_ptr = At (?n - 8), d_limitPtr = 8\<rparr>"
    have "BIT_initDStream src = Inr d"
      using True assms n by (simp add: BIT_initDStream_def d_def last Let_def)
    moreover have "d_inv d"
      using True unat_readLEST[of "?n - 8" src] by (simp add: d_inv_def d_def d_pos_def)
    moreover have "d_len d = 8 * (?n - 1) + ?h"
      using True lb(3) by (simp add: d_len_def d_def d_pos_def)
    ultimately show ?thesis using lb(1,2) by (intro exI[of _ d]) (simp add: d_def)
  next
    case False
    define d where "d = \<lparr>d_bitContainer = small_container src ?n (ucast (src ! 0)),
      d_bitsConsumed = 8 - ?h + (8 - ?n) * 8, d_src = src, d_ptr = At 0, d_limitPtr = 8\<rparr>"
    have "BIT_initDStream src = Inr d"
      using False assms n by (simp add: BIT_initDStream_def d_def last Let_def)
    moreover have "d_inv d"
    proof -
      have v: "le_val src = unat (src ! 0) + 256 * le_val (tl src)"
        using assms(1) by (cases src) simp_all
      have "256 ^ ?n \<le> (256::nat) ^ 8" using False by (intro power_increasing) simp_all
      then have lt: "le_val src < 2 ^ 64" using le_val_less[of src] by simp
      have u: "unat (ucast (src ! 0) :: U64) = unat (src ! 0)"
        by (rule unat_ucast_up) simp
      have "unat (small_container src ?n (ucast (src ! 0))) = le_val src"
        using small_container_val[of ?n src "ucast (src ! 0)"] False n u v lt by simp
      moreover have "8 - ?h + (8 - ?n) * 8 \<le> 64" using n by simp
      ultimately show ?thesis using lt False by (simp add: d_inv_def d_def d_pos_def)
    qed
    moreover have "d_len d = 8 * (?n - 1) + ?h"
      using False n lb(3) by (simp add: d_len_def d_def d_pos_def)
    ultimately show ?thesis using lb(1,2) by (intro exI[of _ d]) (simp add: d_def)
  qed
qed

lemma mod_div_mod: "b + c \<le> a \<Longrightarrow> x mod 2 ^ a div 2 ^ b mod 2 ^ c = x div 2 ^ b mod (2::nat) ^ c"
proof -
  assume "b + c \<le> a"
  then have e: "c \<le> a - b" "a = b + (a - b)" by auto
  have "x mod 2 ^ a div 2 ^ b = x div 2 ^ b mod 2 ^ (a - b)"
    by (subst e(2)) (simp add: power_add mod_mult2_eq)
  then show ?thesis using e(1) by (simp add: mod_mod_cancel le_imp_power_dvd)
qed

lemma top_bits: "n \<le> l \<Longrightarrow> x mod 2 ^ l div 2 ^ (l - n) = x div 2 ^ (l - n) mod (2::nat) ^ n"
  using mod_div_mod[of "l - n" n l x]
  by (simp add: less_mult_imp_div_less power_add[symmetric])

lemma d_len_eq: "d_inv d \<Longrightarrow> d_len d = 8 * d_pos d + (64 - d_bitsConsumed d)"
  by (simp add: d_inv_def d_len_def)

lemma readBits_spec:
  assumes "d_inv d" "d_bitsConsumed d + nb \<le> 64" "nb < 64"
  shows "unat (fst (BIT_readBits d nb)) = d_val d div 2 ^ (d_len d - nb)"
    and "d_inv (snd (BIT_readBits d nb))"
    and "d_len (snd (BIT_readBits d nb)) = d_len d - nb"
    and "d_val (snd (BIT_readBits d nb)) = d_val d mod 2 ^ (d_len d - nb)"
    and "d_src (snd (BIT_readBits d nb)) = d_src d"
proof -
  let ?V = "le_val (d_src d)" and ?p = "d_pos d" and ?bc = "d_bitsConsumed d"
  let ?s = "64 - ?bc - nb"
  have len: "d_len d = 8 * ?p + (64 - ?bc)" using assms(1) by (rule d_len_eq)
  have nbl: "nb \<le> d_len d" and dl: "d_len d - nb = 8 * ?p + ?s" using assms(2) len by auto
  have m: "(push_bit nb 1 - 1 :: U64) = mask nb" by (simp add: mask_eq_exp_minus_1)
  have st: "nat ((64 - int ?bc - int nb) mod 64) = ?s \<or> nb = 0"
    using assms(2,3) by (cases "nb = 0") (auto simp: nat_mod_distrib of_nat_diff[symmetric] simp del: of_nat_diff)
  have "unat (fst (BIT_readBits d nb)) = ?V div 256 ^ ?p mod 2 ^ 64 div 2 ^ ?s mod 2 ^ nb"
    using assms(1) st by (auto simp: BIT_readBits_def BIT_lookBits_def BIT_getMiddleBits_def m
        unat_and_mask unat_drop_bit_div d_inv_def simp del: push_bit_of_1)
  also have "\<dots> = ?V div 256 ^ ?p div 2 ^ ?s mod 2 ^ nb"
    using assms(2) by (intro mod_div_mod) simp
  also have "\<dots> = ?V div 2 ^ (d_len d - nb) mod 2 ^ nb"
    by (simp add: dl pow256 div_mult2_eq power_add)
  also have "\<dots> = d_val d div 2 ^ (d_len d - nb)"
    by (simp only: d_val_def top_bits[OF nbl])
  finally show "unat (fst (BIT_readBits d nb)) = d_val d div 2 ^ (d_len d - nb)" .
  have skip: "d_pos (snd (BIT_readBits d nb)) = ?p" "d_src (snd (BIT_readBits d nb)) = d_src d"
    by (simp_all add: BIT_readBits_def BIT_skipBits_def d_pos_def)
  then show i: "d_inv (snd (BIT_readBits d nb))"
    using assms(1,2) by (simp add: d_inv_def) (simp add: BIT_readBits_def BIT_skipBits_def)
  show l: "d_len (snd (BIT_readBits d nb)) = d_len d - nb"
    using dl skip by (simp add: d_len_def) (simp add: BIT_readBits_def BIT_skipBits_def)
  show "d_val (snd (BIT_readBits d nb)) = d_val d mod 2 ^ (d_len d - nb)"
    by (simp add: d_val_def l skip mod_mod_cancel le_imp_power_dvd)
  show "d_src (snd (BIT_readBits d nb)) = d_src d" by (rule skip)
qed

lemma pos_shift: "b div 8 \<le> p \<Longrightarrow> 8 * (p - b div 8) + 64 - b mod 8 = 8 * p + 64 - (b::nat)"
  using div_mult_mod_eq[of b 8] by linarith

lemma reload_spec:
  assumes "d_inv d"
  shows "d_inv (snd (BIT_reloadDStream d))"
    and "d_len (snd (BIT_reloadDStream d)) = d_len d"
    and "d_src (snd (BIT_reloadDStream d)) = d_src d"
    and "d_bitsConsumed (snd (BIT_reloadDStream d)) < 8 \<or> d_pos (snd (BIT_reloadDStream d)) = 0"
    and "fst (BIT_reloadDStream d) = BIT_DStream_unfinished \<Longrightarrow>
      d_bitsConsumed (snd (BIT_reloadDStream d)) < 8"
    and "fst (BIT_reloadDStream d) \<noteq> BIT_DStream_overflow"
    and "fst (BIT_reloadDStream d) = BIT_DStream_completed \<longleftrightarrow> BIT_endOfDStream d"
proof -
  obtain p where p: "d_ptr d = At p" "d_pos d = p" using assms by (auto simp: d_inv_def)
  let ?bc = "d_bitsConsumed d" and ?r = "BIT_reloadDStream d"
  have bc: "?bc \<le> 64" and lim: "d_limitPtr d = 8" and src: "p = 0 \<or> p + 8 \<le> length (d_src d)"
    using assms p by (auto simp: d_inv_def)
  consider (fast) "p \<ge> 8" | (zero) "p = 0" | (slow) "0 < p" "p < 8" by linarith
  then have "d_inv (snd ?r) \<and> d_len (snd ?r) = d_len d \<and> d_src (snd ?r) = d_src d
      \<and> (d_bitsConsumed (snd ?r) < 8 \<or> d_pos (snd ?r) = 0)
      \<and> (fst ?r = BIT_DStream_unfinished \<longrightarrow> d_bitsConsumed (snd ?r) < 8)
      \<and> fst ?r \<noteq> BIT_DStream_overflow
      \<and> (fst ?r = BIT_DStream_completed \<longleftrightarrow> BIT_endOfDStream d)"
  proof cases
    case fast
    have "?bc div 8 \<le> p" using fast bc by auto
    moreover from this have "8 * (p - ?bc div 8) + 64 - ?bc mod 8 = 8 * p + 64 - ?bc"
      by (rule pos_shift)
    moreover have "?bc mod 8 \<le> 64" using mod_le_divisor[of 8 ?bc] by linarith
    moreover have "p + 8 - ?bc div 8 \<le> length (d_src d)" using src fast by simp
    ultimately show ?thesis
      using fast bc lim p src
      by (simp add: BIT_reloadDStream_def BIT_reloadDStream_internal_def Let_def d_inv_def d_len_def
          d_pos_def unat_readLEST BIT_endOfDStream_def)
  next
    case zero
    then show ?thesis
      using assms bc lim p by (auto simp: BIT_reloadDStream_def d_inv_def BIT_endOfDStream_def)
  next
    case slow
    have "?bc - ?bc div 8 * 8 = ?bc mod 8" by (simp add: minus_div_mult_eq_mod)
    moreover have "8 * (p - ?bc div 8) + 64 - ?bc mod 8 = 8 * p + 64 - ?bc" if "\<not> p < ?bc div 8"
      using that by (intro pos_shift) simp
    moreover have "64 - (?bc - p * 8) = 8 * p + 64 - ?bc" "?bc - p * 8 \<le> 64" if "p < ?bc div 8"
      using that bc by linarith+
    moreover have "p * 8 \<le> ?bc" if "p < ?bc div 8" using that by linarith
    moreover have "?bc mod 8 \<le> 64" using mod_le_divisor[of 8 ?bc] by linarith
    moreover have "p - ?bc div 8 + 8 \<le> length (d_src d)" using src slow by simp
    moreover from this have "p = ?bc div 8 \<or> p + 8 - ?bc div 8 \<le> length (d_src d)" by linarith
    ultimately show ?thesis
      using slow bc lim p src
      by (cases "p < ?bc div 8")
         (simp_all add: BIT_reloadDStream_def Let_def d_inv_def d_len_def
          d_pos_def unat_readLEST BIT_endOfDStream_def)
  qed
  then show "d_inv (snd ?r)" "d_len (snd ?r) = d_len d" "d_src (snd ?r) = d_src d"
    "d_bitsConsumed (snd ?r) < 8 \<or> d_pos (snd ?r) = 0"
    "fst ?r = BIT_DStream_unfinished \<Longrightarrow> d_bitsConsumed (snd ?r) < 8"
    "fst ?r \<noteq> BIT_DStream_overflow"
    "fst ?r = BIT_DStream_completed \<longleftrightarrow> BIT_endOfDStream d"
    by auto
qed

subsection \<open>The contract: a stack of bit fields\<close>

fun push_all :: "('c \<Rightarrow> nat \<Rightarrow> nat \<Rightarrow> 'c) \<Rightarrow> 'c \<Rightarrow> (nat \<times> nat) list \<Rightarrow> 'c" where
  "push_all push c [] = c"
| "push_all push c ((v, nb) # fs) = push_all push (push c v nb) fs"

fun pop_all :: "('d \<Rightarrow> nat \<Rightarrow> nat \<times> 'd) \<Rightarrow> 'd \<Rightarrow> nat list \<Rightarrow> nat list \<times> 'd" where
  "pop_all pop d [] = ([], d)"
| "pop_all pop d (nb # nbs) = (let (v, d) = pop d nb; (vs, d) = pop_all pop d nbs in (v # vs, d))"

locale bit_writer =
  fixes push :: "'c \<Rightarrow> nat \<Rightarrow> nat \<Rightarrow> 'c"
    and w_val :: "'c \<Rightarrow> nat" and w_len :: "'c \<Rightarrow> nat"
    and w_inv :: "'c \<Rightarrow> bool" and w_room :: "'c \<Rightarrow> nat"
  assumes push_inv: "\<lbrakk>w_inv c; nb < 32; w_len c + nb \<le> w_room c\<rbrakk> \<Longrightarrow> w_inv (push c v nb)"
    and push_val: "\<lbrakk>w_inv c; nb < 32; w_len c + nb \<le> w_room c\<rbrakk> \<Longrightarrow>
      w_val (push c v nb) = w_val c + 2 ^ w_len c * (v mod 2 ^ nb)"
    and push_len: "\<lbrakk>w_inv c; nb < 32; w_len c + nb \<le> w_room c\<rbrakk> \<Longrightarrow> w_len (push c v nb) = w_len c + nb"
    and push_room: "\<lbrakk>w_inv c; nb < 32; w_len c + nb \<le> w_room c\<rbrakk> \<Longrightarrow> w_room (push c v nb) = w_room c"
begin

lemma push_all_append: "push_all push c (fs @ gs) = push_all push (push_all push c fs) gs"
  by (induction fs arbitrary: c) auto

lemma push_all_inv:
  "\<lbrakk>w_inv c; \<forall>(v, nb) \<in> set fs. nb < 32; w_len c + sum_list (map snd fs) \<le> w_room c\<rbrakk> \<Longrightarrow>
    w_inv (push_all push c fs) \<and> w_len (push_all push c fs) = w_len c + sum_list (map snd fs)
    \<and> w_room (push_all push c fs) = w_room c"
  by (induction fs arbitrary: c) (auto simp: push_inv push_len push_room)

end

locale bit_reader =
  fixes pop :: "'d \<Rightarrow> nat \<Rightarrow> nat \<times> 'd"
    and r_val :: "'d \<Rightarrow> nat" and r_len :: "'d \<Rightarrow> nat" and r_inv :: "'d \<Rightarrow> bool"
  assumes pop_fst: "\<lbrakk>r_inv d; nb < 57; nb \<le> r_len d\<rbrakk> \<Longrightarrow> fst (pop d nb) = r_val d div 2 ^ (r_len d - nb)"
    and pop_inv: "\<lbrakk>r_inv d; nb < 57; nb \<le> r_len d\<rbrakk> \<Longrightarrow> r_inv (snd (pop d nb))"
    and pop_len: "\<lbrakk>r_inv d; nb < 57; nb \<le> r_len d\<rbrakk> \<Longrightarrow> r_len (snd (pop d nb)) = r_len d - nb"
    and pop_val: "\<lbrakk>r_inv d; nb < 57; nb \<le> r_len d\<rbrakk> \<Longrightarrow>
      r_val (snd (pop d nb)) = r_val d mod 2 ^ (r_len d - nb)"

locale bit_lifo = bit_writer push w_val w_len w_inv w_room + bit_reader pop r_val r_len r_inv
  for push :: "'c \<Rightarrow> nat \<Rightarrow> nat \<Rightarrow> 'c" and w_val w_len w_inv w_room
    and pop :: "'d \<Rightarrow> nat \<Rightarrow> nat \<times> 'd" and r_val r_len r_inv +
  fixes transfer :: "'c \<Rightarrow> 'd option"
  assumes val_bound: "w_inv c \<Longrightarrow> w_val c < 2 ^ w_len c"
    and transfer_ok: "\<lbrakk>w_inv c; w_len c + 9 \<le> w_room c\<rbrakk> \<Longrightarrow>
      \<exists>d. transfer c = Some d \<and> r_inv d \<and> r_len d = w_len c \<and> r_val d = w_val c"
begin

lemma pop_after_push:
  assumes "w_inv c" "nb < 32" "w_len c + nb \<le> w_room c"
    and "r_inv d" "r_len d = w_len (push c v nb)" "r_val d = w_val (push c v nb)"
  shows "fst (pop d nb) = v mod 2 ^ nb \<and> r_inv (snd (pop d nb))
    \<and> r_len (snd (pop d nb)) = w_len c \<and> r_val (snd (pop d nb)) = w_val c"
proof -
  have len: "r_len d = w_len c + nb" using assms by (simp add: push_len)
  have val: "r_val d = w_val c + 2 ^ w_len c * (v mod 2 ^ nb)" using assms by (simp add: push_val)
  have b: "w_val c < 2 ^ w_len c" using assms(1) by (rule val_bound)
  have "nb < 57" "nb \<le> r_len d" using assms(2) len by auto
  then show ?thesis
    using assms(4) b by (simp add: pop_fst pop_inv pop_len pop_val len val)
qed

lemma pop_all_after_push_all:
  "\<lbrakk>w_inv c; \<forall>(v, nb) \<in> set fs. nb < 32; w_len c + sum_list (map snd fs) \<le> w_room c;
    r_inv d; r_len d = w_len (push_all push c fs); r_val d = w_val (push_all push c fs)\<rbrakk> \<Longrightarrow>
   fst (pop_all pop d (rev (map snd fs))) = rev (map (\<lambda>(v, nb). v mod 2 ^ nb) fs)
   \<and> r_len (snd (pop_all pop d (rev (map snd fs)))) = w_len c
   \<and> r_inv (snd (pop_all pop d (rev (map snd fs))))"
proof (induction fs arbitrary: d rule: rev_induct)
  case Nil
  then show ?case by simp
next
  case (snoc f fs)
  obtain v nb where f: "f = (v, nb)" by (cases f)
  define c' where "c' = push_all push c fs"
  have c': "w_inv c'" "w_len c' = w_len c + sum_list (map snd fs)" "w_room c' = w_room c"
    using push_all_inv[of c fs] snoc.prems(1-3) by (auto simp: c'_def)
  have e: "push_all push c (fs @ [f]) = push c' v nb"
    by (simp add: push_all_append f c'_def)
  have p: "fst (pop d nb) = v mod 2 ^ nb" "r_inv (snd (pop d nb))"
    "r_len (snd (pop d nb)) = w_len c'" "r_val (snd (pop d nb)) = w_val c'"
    using pop_after_push[of c' nb d v] c' snoc.prems e by (auto simp: f)
  have IH: "fst (pop_all pop (snd (pop d nb)) (rev (map snd fs))) = rev (map (\<lambda>(v, nb). v mod 2 ^ nb) fs)
    \<and> r_len (snd (pop_all pop (snd (pop d nb)) (rev (map snd fs)))) = w_len c
    \<and> r_inv (snd (pop_all pop (snd (pop d nb)) (rev (map snd fs))))"
    using snoc.prems p by (intro snoc.IH) (auto simp: c'_def)
  show ?case using p(1) IH by (simp add: f Let_def split_beta)
qed

lemma lifo_roundtrip:
  assumes "w_inv c" "w_len c = 0" "\<forall>(v, nb) \<in> set fs. nb < 32" "sum_list (map snd fs) + 9 \<le> w_room c"
  shows "\<exists>d. transfer (push_all push c fs) = Some d
    \<and> fst (pop_all pop d (rev (map snd fs))) = rev (map (\<lambda>(v, nb). v mod 2 ^ nb) fs)
    \<and> r_len (snd (pop_all pop d (rev (map snd fs)))) = 0
    \<and> r_inv (snd (pop_all pop d (rev (map snd fs))))"
proof -
  have c: "w_inv (push_all push c fs)" "w_len (push_all push c fs) + 9 \<le> w_room (push_all push c fs)"
    using push_all_inv[of c fs] assms by auto
  then obtain d where "transfer (push_all push c fs) = Some d" "r_inv d"
    "r_len d = w_len (push_all push c fs)" "r_val d = w_val (push_all push c fs)"
    using transfer_ok by blast
  then show ?thesis using pop_all_after_push_all[of c fs d] assms by auto
qed

end

subsection \<open>The streams of the source meet the contract\<close>

text \<open>
  The steps of a client: add a field and flush; reload and read a field; close the stream and
  open the bytes it produced.
\<close>

definition BIT_push :: "BIT_CStream_t \<Rightarrow> nat \<Rightarrow> nat \<Rightarrow> BIT_CStream_t" where
  "BIT_push c v nb = BIT_flushBits (BIT_addBits c (of_nat v) nb)"

definition BIT_pop :: "BIT_DStream_t \<Rightarrow> nat \<Rightarrow> nat \<times> BIT_DStream_t" where
  "BIT_pop d nb = (let (v, d') = BIT_readBits (snd (BIT_reloadDStream d)) nb in (unat v, d'))"

definition BIT_transfer :: "BIT_CStream_t \<Rightarrow> BIT_DStream_t option" where
  "BIT_transfer c =
     (let (n, c') = BIT_closeCStream c
      in if n = 0 then None
         else case BIT_initDStream (take n (c_mem c')) of Inl e \<Rightarrow> None | Inr d \<Rightarrow> Some d)"

definition cs_ready :: "BIT_CStream_t \<Rightarrow> bool" where
  "cs_ready c \<longleftrightarrow> c_inv c \<and> c_bitPos c < 8 \<and> c_val c < 2 ^ c_len c"

definition cs_room :: "BIT_CStream_t \<Rightarrow> nat" where
  "cs_room c = 8 * c_endPtr c + 7"

lemma cs_push:
  assumes "cs_ready c" "nb < 32" "c_len c + nb \<le> cs_room c"
  shows "cs_ready (BIT_push c v nb)"
    and "c_val (BIT_push c v nb) = c_val c + 2 ^ c_len c * (v mod 2 ^ nb)"
    and "c_len (BIT_push c v nb) = c_len c + nb"
    and "cs_room (BIT_push c v nb) = cs_room c"
proof -
  let ?a = "BIT_addBits c (of_nat v) nb"
  have c: "c_inv c" "c_bitPos c + nb < 64" using assms by (auto simp: cs_ready_def)
  have v: "unat (of_nat v :: U64) mod 2 ^ nb = v mod 2 ^ nb"
    using assms(2) by (simp only: unat_of_nat) (rule mod_pow2_cancel, simp)
  note a = addBits_spec[OF c(1) assms(2) c(2), of "of_nat v"]
  have same: "c_ptr ?a = c_ptr c" "c_endPtr ?a = c_endPtr c" "c_bitPos ?a = c_bitPos c + nb"
    by (simp_all add: BIT_addBits_def)
  have "c_ptr ?a + c_bitPos ?a div 8 \<le> c_endPtr ?a"
    using assms(3) same by (simp add: cs_room_def c_len_def)
  note f = flush_spec[OF a(1) this]
  show val: "c_val (BIT_push c v nb) = c_val c + 2 ^ c_len c * (v mod 2 ^ nb)"
    using a(2) f(2) v by (simp add: BIT_push_def)
  show len: "c_len (BIT_push c v nb) = c_len c + nb"
    using a(3) f(3) by (simp add: BIT_push_def)
  show "cs_room (BIT_push c v nb) = cs_room c"
    using f(5) same by (simp add: BIT_push_def cs_room_def)
  have "2 ^ c_len c * (v mod 2 ^ nb + 1) \<le> 2 ^ c_len c * 2 ^ nb"
    by (intro mult_le_mono2) (simp add: Suc_leI)
  then have "c_val (BIT_push c v nb) < 2 ^ (c_len c + nb)"
    using assms(1) by (simp add: val cs_ready_def power_add)
  then show "cs_ready (BIT_push c v nb)"
    using f(1,4) len by (simp add: cs_ready_def BIT_push_def)
qed

lemma ds_pop:
  assumes "d_inv d" "nb < 57" "nb \<le> d_len d"
  shows "fst (BIT_pop d nb) = d_val d div 2 ^ (d_len d - nb)"
    and "d_inv (snd (BIT_pop d nb))"
    and "d_len (snd (BIT_pop d nb)) = d_len d - nb"
    and "d_val (snd (BIT_pop d nb)) = d_val d mod 2 ^ (d_len d - nb)"
proof -
  let ?d = "snd (BIT_reloadDStream d)"
  note r = reload_spec[OF assms(1)]
  have b: "d_bitsConsumed ?d + nb \<le> 64"
    using r(1,2,4) assms(2,3) by (auto simp: d_len_def d_inv_def)
  have "nb < 64" using assms(2) by simp
  note rd = readBits_spec[OF r(1) b this]
  have "d_val ?d = d_val d" using r(2,3) by (simp add: d_val_def)
  then show "fst (BIT_pop d nb) = d_val d div 2 ^ (d_len d - nb)"
    and "d_inv (snd (BIT_pop d nb))"
    and "d_len (snd (BIT_pop d nb)) = d_len d - nb"
    and "d_val (snd (BIT_pop d nb)) = d_val d mod 2 ^ (d_len d - nb)"
    using rd r(2) by (simp_all add: BIT_pop_def split_beta Let_def)
qed

lemma cs_transfer:
  assumes "cs_ready c" "c_len c + 9 \<le> cs_room c"
  shows "\<exists>d. BIT_transfer c = Some d \<and> d_inv d \<and> d_len d = c_len c \<and> d_val d = c_val c"
proof -
  let ?L = "c_len c" and ?n = "c_len c div 8 + 1"
  obtain n c' where cl: "BIT_closeCStream c = (n, c')" by (cases "BIT_closeCStream c")
  have "c_inv c" "c_bitPos c < 63" and val: "c_val c < 2 ^ ?L" using assms(1) by (auto simp: cs_ready_def)
  moreover have "(?L + 1) div 8 < c_endPtr c" using assms(2) by (simp add: cs_room_def)
  ultimately have n: "n = ?n" and mem: "take n (c_mem c') = le_bytes n (c_val c + 2 ^ ?L)"
    using close_spec[of c] cl by auto
  let ?src = "le_bytes n (c_val c + 2 ^ ?L)"
  have "?L < 8 * n" using n by simp
  then have "Suc ?L \<le> 8 * n" by simp
  then have "(2::nat) ^ Suc ?L \<le> 2 ^ (8 * n)" by (rule power_increasing) simp
  then have lv: "le_val ?src = c_val c + 2 ^ ?L" using val by (simp add: pow256)
  have ne: "?src \<noteq> []" using n length_le_bytes[of n] by (metis list.size(3) add_is_0 one_neq_zero)
  have "last ?src \<noteq> 0"
  proof
    assume "last ?src = 0"
    then have "?src = butlast ?src @ [0]" using ne by (metis append_butlast_last_id)
    then have "le_val ?src = le_val (butlast ?src @ [0])" by (rule arg_cong)
    also have "\<dots> = le_val (butlast ?src)" by (simp add: le_val_append)
    also have "\<dots> < 256 ^ (n - 1)" using le_val_less[of "butlast ?src"] by simp
    also have "\<dots> \<le> 2 ^ ?L" using n by (simp add: pow256)
    finally show False using lv by simp
  qed
  with ne obtain d where d: "BIT_initDStream ?src = Inr d" "d_inv d" "d_src d = ?src"
    "2 ^ d_len d \<le> le_val ?src" "le_val ?src < 2 ^ Suc (d_len d)"
    using initDStream_spec by blast
  have len: "d_len d = ?L"
    using d(4,5) lv val by (intro pow2_log_unique[of _ "le_val ?src"]) simp_all
  moreover have "d_val d = c_val c" using lv val by (simp add: d_val_def d(3) len)
  ultimately show ?thesis
    using d(1,2) cl mem n by (simp add: BIT_transfer_def)
qed

lemma cs_ready_val: "cs_ready c \<Longrightarrow> c_val c < 2 ^ c_len c"
  by (simp add: cs_ready_def)

interpretation zbits: bit_lifo BIT_push c_val c_len cs_ready cs_room BIT_pop d_val d_len d_inv BIT_transfer
  by unfold_locales (simp_all add: cs_push ds_pop cs_transfer cs_ready_val)

lemma initCStream_ready:
  "8 < dstCapacity \<Longrightarrow> dstCapacity \<le> length dst \<Longrightarrow>
    \<exists>c. BIT_initCStream dst dstCapacity = Inr c \<and> cs_ready c \<and> c_len c = 0
      \<and> cs_room c = 8 * (dstCapacity - 8) + 7"
  by (simp add: BIT_initCStream_def cs_ready_def c_inv_def c_val_def c_len_def cs_room_def)

subsection \<open>Properties\<close>

text \<open>
  Property C22: bit streams are a stack of bit fields.  Any sequence of fields of fewer than 32
  bits, pushed with \<open>BIT_addBits\<close>/\<open>BIT_flushBits\<close> into a stream whose buffer has room for them,
  closed with \<open>BIT_closeCStream\<close>, opened with \<open>BIT_initDStream\<close> and popped with
  \<open>BIT_reloadDStream\<close>/\<open>BIT_readBits\<close> in the opposite order, comes back with the low bits of
  every value, and the stream is then exactly at its end.
\<close>

theorem bitstream_roundtrip:
  assumes "dstCapacity \<le> length dst" "\<forall>(v, nb) \<in> set fs. nb < 32"
    and "sum_list (map snd fs) + 66 \<le> 8 * dstCapacity"
  shows "\<exists>c d. BIT_initCStream dst dstCapacity = Inr c
    \<and> BIT_transfer (push_all BIT_push c fs) = Some d
    \<and> fst (pop_all BIT_pop d (rev (map snd fs))) = rev (map (\<lambda>(v, nb). v mod 2 ^ nb) fs)
    \<and> BIT_endOfDStream (snd (BIT_reloadDStream (snd (pop_all BIT_pop d (rev (map snd fs))))))"
proof -
  have "8 < dstCapacity" using assms(3) by linarith
  then obtain c where c: "BIT_initCStream dst dstCapacity = Inr c" "cs_ready c" "c_len c = 0"
    "cs_room c = 8 * (dstCapacity - 8) + 7"
    using initCStream_ready assms(1) by blast
  moreover have "sum_list (map snd fs) + 9 \<le> cs_room c" using assms(3) c(4) by linarith
  ultimately obtain d where d: "BIT_transfer (push_all BIT_push c fs) = Some d"
    "fst (pop_all BIT_pop d (rev (map snd fs))) = rev (map (\<lambda>(v, nb). v mod 2 ^ nb) fs)"
    "d_len (snd (pop_all BIT_pop d (rev (map snd fs)))) = 0"
    "d_inv (snd (pop_all BIT_pop d (rev (map snd fs))))"
    using zbits.lifo_roundtrip[of c fs] assms(2) by blast
  let ?e = "snd (BIT_reloadDStream (snd (pop_all BIT_pop d (rev (map snd fs)))))"
  have "d_inv ?e" "d_len ?e = 0" using reload_spec(1,2)[OF d(4)] d(3) by simp_all
  then have "BIT_endOfDStream ?e"
    by (auto simp: d_inv_def d_len_def BIT_endOfDStream_def)
  with c d show ?thesis by blast
qed

theorem bitstream_roundtrip_witness:
  "\<exists>c d. BIT_initCStream (replicate 12 0) 12 = Inr c
    \<and> BIT_transfer (push_all BIT_push c [(5, 3), (1000, 10), (1, 1)]) = Some d
    \<and> fst (pop_all BIT_pop d [1, 10, 3]) = [1, 1000, 5]"
  using bitstream_roundtrip[of 12 "replicate 12 0" "[(5, 3), (1000, 10), (1, 1)]"] by auto

subsection \<open>Overflow of the destination\<close>

text \<open>\<open>tracks\<close>: the stream holds all \<open>T\<close> bits, or its write pointer is stuck at the end.\<close>

definition tracks :: "buffer \<Rightarrow> nat \<Rightarrow> nat \<Rightarrow> BIT_CStream_t \<Rightarrow> bool" where
  "tracks dst cap T c \<longleftrightarrow> c_inv c \<and> c_bitPos c < 8 \<and> c_endPtr c + 8 = cap
     \<and> length (c_mem c) = length dst \<and> drop cap (c_mem c) = drop cap dst
     \<and> (c_len c = T \<or> c_ptr c = c_endPtr c \<and> 8 * c_endPtr c \<le> T)"

lemma flush_mem:
  assumes "c_inv c"
  shows "length (c_mem (BIT_flushBits c)) = length (c_mem c)"
    and "drop (c_endPtr c + 8) (c_mem (BIT_flushBits c)) = drop (c_endPtr c + 8) (c_mem c)"
  using assms
  by (auto simp: BIT_flushBits_def Let_def MEM_writeLEST_def writeLE64_eq c_inv_def write_at_def)

lemma flush_overflow:
  assumes "c_inv c" "\<not> c_ptr c + c_bitPos c div 8 \<le> c_endPtr c"
  shows "c_inv (BIT_flushBits c)" "c_ptr (BIT_flushBits c) = c_endPtr c"
    "c_endPtr (BIT_flushBits c) = c_endPtr c" "c_bitPos (BIT_flushBits c) < 8"
proof -
  have "unat (c_bitContainer c) < 2 ^ (8 * (c_bitPos c div 8) + c_bitPos c mod 8)"
    using assms(1) by (simp add: c_inv_def)
  then have "unat (c_bitContainer c) div 2 ^ (8 * (c_bitPos c div 8)) < 2 ^ (c_bitPos c mod 8)"
    by (simp only: power_add) (simp add: less_mult_imp_div_less mult.commute)
  then show "c_inv (BIT_flushBits c)"
    using assms flush_mem(1)[OF assms(1)]
    by (auto simp: c_inv_def BIT_flushBits_def Let_def unat_drop_bit_div mult.commute)
  show "c_ptr (BIT_flushBits c) = c_endPtr c" "c_endPtr (BIT_flushBits c) = c_endPtr c"
    "c_bitPos (BIT_flushBits c) < 8"
    using assms(2) by (simp_all add: BIT_flushBits_def Let_def)
qed

lemma tracks_push:
  assumes "tracks dst cap T c" "nb < 32"
  shows "tracks dst cap (T + nb) (BIT_push c v nb)"
proof -
  let ?a = "BIT_addBits c (of_nat v) nb"
  have c: "c_inv c" "c_bitPos c + nb < 64" using assms by (auto simp: tracks_def)
  note a = addBits_spec[OF c(1) assms(2) c(2), of "of_nat v"]
  have same: "c_ptr ?a = c_ptr c" "c_endPtr ?a = c_endPtr c" "c_bitPos ?a = c_bitPos c + nb" "c_mem ?a = c_mem c"
    by (simp_all add: BIT_addBits_def)
  have m: "length (c_mem (BIT_push c v nb)) = length dst" "drop cap (c_mem (BIT_push c v nb)) = drop cap dst"
    using flush_mem[OF a(1)] same assms(1) by (auto simp: BIT_push_def tracks_def)
  show ?thesis
  proof (cases "c_ptr ?a + c_bitPos ?a div 8 \<le> c_endPtr ?a")
    case True
    note f = flush_spec[OF a(1) True]
    have "c_len (BIT_push c v nb) = T + nb \<or>
        c_ptr (BIT_push c v nb) = c_endPtr c \<and> 8 * c_endPtr c \<le> T + nb"
    proof (cases "c_len c = T")
      case True
      then show ?thesis using f(3) a(3) by (simp add: BIT_push_def)
    next
      case False
      then show ?thesis using assms(1) True same
        by (auto simp: tracks_def BIT_push_def BIT_flushBits_def Let_def)
    qed
    then show ?thesis using f(1,4,5) m same assms(1) by (simp add: tracks_def BIT_push_def)
  next
    case False
    note f = flush_overflow[OF a(1) False]
    have "8 * c_endPtr c \<le> T + nb"
      using False same assms(1) by (auto simp: tracks_def c_len_def)
    then show ?thesis using f m same assms(1) by (simp add: tracks_def BIT_push_def)
  qed
qed

lemma tracks_push_all:
  "tracks dst cap T c \<Longrightarrow> \<forall>(v, nb) \<in> set fs. nb < 32 \<Longrightarrow>
    tracks dst cap (T + sum_list (map snd fs)) (push_all BIT_push c fs)"
proof (induction fs arbitrary: c T)
  case (Cons f fs)
  then show ?case
    using tracks_push[of dst cap T c "snd f" "fst f"] Cons.IH[of "T + snd f"]
    by (cases f) (simp add: add.assoc)
qed simp

text \<open>
  Property C28: the writer never leaves its buffer and never loses data silently.  Whatever fields
  of fewer than 32 bits are pushed, the bytes of memory past \<open>dstCapacity\<close> keep their values,
  and \<open>BIT_closeCStream\<close> returns 0 exactly when the fields and the end mark do not fit below
  \<open>dstCapacity - 8\<close> bytes; otherwise it returns the number of bytes that hold all of them.
\<close>

theorem bitstream_overflow_detected:
  assumes "BIT_initCStream dst dstCapacity = Inr c" "dstCapacity \<le> length dst"
    and "\<forall>(v, nb) \<in> set fs. nb < 32"
  defines "bits \<equiv> sum_list (map snd fs)"
  defines "res \<equiv> BIT_closeCStream (push_all BIT_push c fs)"
  shows "fst res = (if (bits + 1) div 8 < dstCapacity - 8 then bits div 8 + 1 else 0)
    \<and> fst res \<le> dstCapacity
    \<and> drop dstCapacity (c_mem (snd res)) = drop dstCapacity dst
    \<and> length (c_mem (snd res)) = length dst"
proof -
  have cap: "8 < dstCapacity" and "tracks dst dstCapacity 0 c"
    using assms(1,2) by (auto simp: BIT_initCStream_def tracks_def c_inv_def c_len_def split: if_splits)
  with tracks_push_all[of dst dstCapacity 0 c fs] assms(3)
  have t: "tracks dst dstCapacity bits (push_all BIT_push c fs)" (is "tracks _ _ _ ?c")
    by (simp add: bits_def)
  let ?a = "BIT_addBitsFast ?c 1 1"
  have inv: "c_inv ?c" "c_bitPos ?c < 63" "c_endPtr ?c = dstCapacity - 8"
    using t by (auto simp: tracks_def)
  have a: "c_inv ?a" using addBits_gen(1)[OF inv(1), of 1 1] inv(2) by simp
  have same: "c_ptr ?a = c_ptr ?c" "c_endPtr ?a = c_endPtr ?c" "c_mem ?a = c_mem ?c"
    by (simp_all add: BIT_addBitsFast_def)
  have "c_mem (snd res) = c_mem (BIT_flushBits ?a)"
    by (simp add: res_def BIT_closeCStream_def Let_def)
  then have mem: "drop dstCapacity (c_mem (snd res)) = drop dstCapacity dst"
    "length (c_mem (snd res)) = length dst"
    using flush_mem[OF a] same t by (auto simp: tracks_def)
  have "fst res = (if (bits + 1) div 8 < dstCapacity - 8 then bits div 8 + 1 else 0)"
  proof (cases "c_len ?c = bits")
    case True
    then show ?thesis using close_spec[OF inv(1,2)] inv(3) by (auto simp: res_def split_beta Let_def split: if_splits)
  next
    case False
    then have p: "c_ptr ?c = c_endPtr ?c" "8 * c_endPtr ?c \<le> bits" using t by (auto simp: tracks_def)
    then have "fst res = 0"
      by (simp add: res_def BIT_closeCStream_def Let_def BIT_flushBits_def BIT_addBitsFast_def)
    moreover have "\<not> (bits + 1) div 8 < dstCapacity - 8" using p(2) inv(3) by linarith
    ultimately show ?thesis by simp
  qed
  then show ?thesis using mem by auto
qed

theorem bitstream_overflow_detected_witness:
  "fst (BIT_closeCStream (push_all BIT_push
      \<lparr>c_bitContainer = 0, c_bitPos = 0, c_mem = replicate 10 0, c_ptr = 0, c_endPtr = 2\<rparr>
      [(1, 20), (2, 20)])) = 0"
  using bitstream_overflow_detected[of "replicate 10 0" 10
      "\<lparr>c_bitContainer = 0, c_bitPos = 0, c_mem = replicate 10 0, c_ptr = 0, c_endPtr = 2\<rparr>"
      "[(1, 20), (2, 20)]"]
  by (simp add: BIT_initCStream_def)

subsection \<open>Every use of a read stream\<close>

inductive d_reach :: "buffer \<Rightarrow> BIT_DStream_t \<Rightarrow> bool" for src where
  d_init: "BIT_initDStream src = Inr d \<Longrightarrow> d_reach src d"
| d_reload: "d_reach src d \<Longrightarrow> d_reach src (snd (BIT_reloadDStream d))"
| d_read: "d_reach src d \<Longrightarrow> d_bitsConsumed d + nb \<le> 64 \<Longrightarrow> nb < 64 \<Longrightarrow>
    d_reach src (snd (BIT_readBits d nb))"

lemma initDStream_Inr:
  "BIT_initDStream src = Inr d \<Longrightarrow> src \<noteq> [] \<and> last src \<noteq> 0"
  by (auto simp: BIT_initDStream_def Let_def last_conv_nth split: if_splits)

lemma d_reach_inv: "d_reach src d \<Longrightarrow> d_inv d \<and> d_src d = src"
proof (induction rule: d_reach.induct)
  case (d_init d)
  then show ?case using initDStream_Inr[OF d_init] initDStream_spec[of src] by auto
qed (simp_all add: reload_spec readBits_spec)

lemma readBitsFast_eq:
  assumes "d_bitsConsumed d + nb \<le> 64" "1 \<le> nb" "nb < 64"
  shows "BIT_readBitsFast d nb = BIT_readBits d nb"
proof -
  let ?x = "unat (d_bitContainer d)" and ?b = "d_bitsConsumed d"
  have m: "(push_bit nb 1 - 1 :: U64) = mask nb" by (simp add: mask_eq_exp_minus_1)
  have s1: "nat ((64 - int nb) mod 64) = 64 - nb" "?b mod 64 = ?b"
    "nat ((64 - int ?b - int nb) mod 64) = 64 - ?b - nb"
    using assms mod_pos_pos_trivial[of "64 - int nb" 64] mod_pos_pos_trivial[of "64 - int ?b - int nb" 64]
    by auto
  have "64 - nb = (64 - ?b - nb) + ?b" using assms by simp
  then have "?x * 2 ^ ?b div 2 ^ (64 - nb) = ?x div 2 ^ (64 - ?b - nb)"
    by (simp only: power_add) simp
  then have "unat (BIT_lookBitsFast d nb) = ?x div 2 ^ (64 - ?b - nb) mod 2 ^ nb"
    using top_bits[of nb 64 "?x * 2 ^ ?b"] assms
    by (simp only: BIT_lookBitsFast_def s1 unat_drop_bit_div unat_push_bit_mod) simp
  also have "\<dots> = unat (BIT_lookBits d nb)"
    by (simp only: BIT_lookBits_def BIT_getMiddleBits_def m s1 unat_and_mask unat_drop_bit_div)
  finally show ?thesis
    by (simp add: BIT_readBitsFast_def BIT_readBits_def word_unat_eq_iff)
qed

text \<open>
  On every stream obtained from \<open>BIT_initDStream\<close> by reloads and by reads that stay
  inside the register, the register is loaded from inside the source buffer only;
  \<open>BIT_reloadDStream\<close> never reports an overflow, leaves at least 57 unread bits in the register
  when it reports \<open>unfinished\<close>, and reports \<open>completed\<close> exactly at the end of the stream; and
  \<open>BIT_readBitsFast\<close> agrees with \<open>BIT_readBits\<close> on fields of at least one bit.
\<close>

theorem dstream_reload_guarantee:
  assumes "d_reach src d"
  shows "(\<exists>p. d_ptr d = At p \<and> (p = 0 \<or> p + 8 \<le> length src))
    \<and> fst (BIT_reloadDStream d) \<noteq> BIT_DStream_overflow
    \<and> (fst (BIT_reloadDStream d) = BIT_DStream_unfinished \<longrightarrow>
         57 \<le> 64 - d_bitsConsumed (snd (BIT_reloadDStream d)))
    \<and> (fst (BIT_reloadDStream d) = BIT_DStream_completed \<longleftrightarrow> BIT_endOfDStream d)
    \<and> (1 \<le> nb \<and> d_bitsConsumed d + nb \<le> 64 \<and> nb < 64 \<longrightarrow> BIT_readBitsFast d nb = BIT_readBits d nb)"
proof -
  have inv: "d_inv d" and src: "d_src d = src" using d_reach_inv[OF assms] by auto
  then have "\<exists>p. d_ptr d = At p \<and> (p = 0 \<or> p + 8 \<le> length src)" by (auto simp: d_inv_def)
  with reload_spec(5-7)[OF inv] readBitsFast_eq[of d nb] show ?thesis by fastforce
qed

theorem dstream_reload_guarantee_witness:
  "\<exists>d. BIT_initDStream [3, 1] = Inr d \<and> fst (BIT_reloadDStream d) \<noteq> BIT_DStream_overflow"
proof -
  obtain d where d: "BIT_initDStream [3, 1] = Inr d" using initDStream_spec[of "[3, 1]"] by auto
  then have "d_reach [3, 1] d" by (rule d_reach.d_init)
  from dstream_reload_guarantee[OF this] d show ?thesis by blast
qed

end
