(* ===== verification/Zstd_FSE.thy ===== *)
theory Zstd_FSE
  imports Zstd_Spread Zstd_Bitstream
begin

section \<open>Finite State Entropy: tables and states\<close>

text \<open>
  The coding tables of \<^verbatim>\<open>common/fse.h\<close>, \<^verbatim>\<open>common/fse_decompress.c\<close> and
  \<^verbatim>\<open>compress/fse_compress.c\<close>, and the operations on one coder state.  Both builders
  work on what the table and the work space held before.  Fields of 8, 16 and 32 bits are natural
  numbers, with the reductions of the casts written out.

  The main result is that the two tables are inverse to each other: a symbol encoded from a state
  leads to a state whose decoding yields that symbol, the number of bits that were written, and
  the state before.
\<close>

subsection \<open>Decoding table\<close>

record FSE_decode_t =
  newState :: nat
  symbol :: nat
  nbBits :: nat

record FSE_DTable =
  dt_tableLog :: nat
  dt_fastMode :: bool
  dt_table :: "FSE_decode_t list"

definition FSE_BUILD_DTABLE_WKSP_SIZE :: "nat \<Rightarrow> nat \<Rightarrow> nat" where
  "FSE_BUILD_DTABLE_WKSP_SIZE maxTableLog maxSymbolValue = 2 * (maxSymbolValue + 1) + 2 ^ maxTableLog + 8"

definition put_symbol :: "nat \<Rightarrow> nat \<Rightarrow> FSE_decode_t list \<Rightarrow> FSE_decode_t list" where
  "put_symbol p s table = table[p := (table ! p)\<lparr>symbol := s\<rparr>]"

text \<open>One round of the first loop, for any way to note a symbol in a cell: the decoding tables of
  sequences are started by the same loop.\<close>

definition dt_init_one ::
  "(nat \<Rightarrow> nat \<Rightarrow> 't \<Rightarrow> 't) \<Rightarrow> int list \<Rightarrow> int \<Rightarrow> nat \<Rightarrow> ('t \<times> nat) \<times> nat list \<times> bool
    \<Rightarrow> ('t \<times> nat) \<times> nat list \<times> bool" where
  "dt_init_one put norm largeLimit s st =
     (let (th, symbolNext, fastMode) = st;
          th = low_one put norm s th
      in if norm ! s = -1 then (th, symbolNext[s := 1], fastMode)
         else (th, symbolNext[s := nat (norm ! s mod 2 ^ 16)],
               if norm ! s \<ge> largeLimit then False else fastMode))"

definition dt_build_one ::
  "nat \<Rightarrow> nat \<Rightarrow> FSE_decode_t list \<times> nat list \<Rightarrow> FSE_decode_t list \<times> nat list" where
  "dt_build_one tableLog u st =
     (let (table, symbolNext) = st;
          s = symbol (table ! u);
          nextState = symbolNext ! s;
          nb = sub32 tableLog (ZSTD_highbit32 (of_nat nextState)) mod 2 ^ 8;
          new = sub32 (nextState * 2 ^ nb mod 2 ^ 32) (2 ^ tableLog) mod 2 ^ 16
      in (table[u := (table ! u)\<lparr>nbBits := nb, newState := new\<rparr>],
          symbolNext[s := (nextState + 1) mod 2 ^ 16]))"

definition FSE_buildDTable_internal ::
  "endian \<Rightarrow> FSE_DTable \<Rightarrow> int list \<Rightarrow> nat \<Rightarrow> nat \<Rightarrow> buffer \<Rightarrow> ZSTD_ErrorCode + FSE_DTable" where
  "FSE_buildDTable_internal e dt normalizedCounter maxSymbolValue tableLog workSpace =
     (let maxSV1 = maxSymbolValue + 1;
          tableSize = 2 ^ tableLog;
          norm = take maxSV1 normalizedCounter;
          spread = drop (2 * maxSV1) workSpace
      in if FSE_BUILD_DTABLE_WKSP_SIZE tableLog maxSymbolValue > length workSpace
         then Inl ZSTD_error_maxSymbolValue_tooLarge
         else if maxSymbolValue > 255 then Inl ZSTD_error_maxSymbolValue_tooLarge
         else if tableLog > 12 then Inl ZSTD_error_tableLog_tooLarge
         else
           let ((table, highThreshold), symbolNext, fastMode) =
                 fold (dt_init_one put_symbol norm (2 ^ (tableLog - 1))) [0..<maxSV1]
                   ((dt_table dt, tableSize - 1), replicate maxSV1 0, True);
               (table, position) = spread_symbols put_symbol e norm tableSize highThreshold spread table
           in if highThreshold \<noteq> tableSize - 1 \<and> position \<noteq> 0 then Inl ZSTD_error_GENERIC
              else let (table, symbolNext) = fold (dt_build_one tableLog) [0..<tableSize] (table, symbolNext)
                   in Inr \<lparr>dt_tableLog = tableLog mod 2 ^ 16, dt_fastMode = fastMode, dt_table = table\<rparr>)"

definition FSE_buildDTable_wksp ::
  "endian \<Rightarrow> FSE_DTable \<Rightarrow> int list \<Rightarrow> nat \<Rightarrow> nat \<Rightarrow> buffer \<Rightarrow> ZSTD_ErrorCode + FSE_DTable" where
  "FSE_buildDTable_wksp e dt normalizedCounter maxSymbolValue tableLog workSpace =
     FSE_buildDTable_internal e dt normalizedCounter maxSymbolValue tableLog workSpace"

subsection \<open>Encoding table\<close>

record FSE_symbolCompressionTransform =
  deltaFindState :: int
  deltaNbBits :: nat

record FSE_CTable =
  ct_tableLog :: nat
  ct_maxSymbolValue :: nat
  ct_tableU16 :: "nat list"
  ct_symbolTT :: "FSE_symbolCompressionTransform list"

definition FSE_BUILD_CTABLE_WORKSPACE_SIZE :: "nat \<Rightarrow> nat \<Rightarrow> nat" where
  "FSE_BUILD_CTABLE_WORKSPACE_SIZE maxSymbolValue tableLog =
     4 * (((maxSymbolValue + 2) + 2 ^ tableLog) div 2 + 2)"

text \<open>The cast of an unsigned 32-bit value to \<open>int\<close>.\<close>

definition s32 :: "nat \<Rightarrow> int" where
  "s32 n = (if n < 2 ^ 31 then int n else int n - 2 ^ 32)"

definition ct_init_one ::
  "int list \<Rightarrow> nat \<Rightarrow> (nat list \<times> nat) \<times> nat list \<Rightarrow> (nat list \<times> nat) \<times> nat list" where
  "ct_init_one norm s st =
     (let (th, cumul) = st;
          th = low_one upd norm s th
      in if norm ! s = -1 then (th, cumul[Suc s := (cumul ! s + 1) mod 2 ^ 16])
         else (th, cumul[Suc s := (cumul ! s + nat (norm ! s mod 2 ^ 16)) mod 2 ^ 16]))"

definition ct_build_one ::
  "nat \<Rightarrow> nat list \<Rightarrow> nat \<Rightarrow> nat list \<times> nat list \<Rightarrow> nat list \<times> nat list" where
  "ct_build_one tableLog tableSymbol u st =
     (let (tableU16, cumul) = st;
          s = tableSymbol ! u
      in (tableU16[cumul ! s := (2 ^ tableLog + u) mod 2 ^ 16],
          cumul[s := (cumul ! s + 1) mod 2 ^ 16]))"

definition ct_symbolTT_one ::
  "nat \<Rightarrow> int list \<Rightarrow> nat \<Rightarrow> FSE_symbolCompressionTransform list \<times> nat
    \<Rightarrow> FSE_symbolCompressionTransform list \<times> nat" where
  "ct_symbolTT_one tableLog norm s st =
     (let (symbolTT, total) = st in
      if norm ! s = 0 then
        (symbolTT[s := (symbolTT ! s)\<lparr>deltaNbBits := sub32 ((tableLog + 1) * 2 ^ 16) (2 ^ tableLog)\<rparr>], total)
      else if norm ! s = -1 \<or> norm ! s = 1 then
        (symbolTT[s := \<lparr>deltaFindState = s32 (sub32 total 1),
                        deltaNbBits = sub32 (tableLog * 2 ^ 16) (2 ^ tableLog)\<rparr>], total + 1)
      else
        let n = nat (norm ! s);
            maxBitsOut = sub32 tableLog (ZSTD_highbit32 (of_nat (n - 1)));
            minStatePlus = n * 2 ^ maxBitsOut mod 2 ^ 32
        in (symbolTT[s := \<lparr>deltaFindState = s32 (sub32 total n),
                           deltaNbBits = sub32 (maxBitsOut * 2 ^ 16 mod 2 ^ 32) minStatePlus\<rparr>], total + n))"

definition FSE_buildCTable_wksp ::
  "endian \<Rightarrow> FSE_CTable \<Rightarrow> int list \<Rightarrow> nat \<Rightarrow> nat \<Rightarrow> buffer \<Rightarrow> ZSTD_ErrorCode + FSE_CTable" where
  "FSE_buildCTable_wksp e ct normalizedCounter maxSymbolValue tableLog workSpace =
     (let maxSV1 = maxSymbolValue + 1;
          tableSize = 2 ^ tableLog;
          norm = take maxSV1 normalizedCounter;
          tableSymbol = map unat (take tableSize (drop (2 * (maxSV1 + 1)) workSpace));
          spread = drop (2 * (maxSV1 + 1) + tableSize) workSpace
      in if FSE_BUILD_CTABLE_WORKSPACE_SIZE maxSymbolValue tableLog > length workSpace
         then Inl ZSTD_error_tableLog_tooLarge
         else
           let ((tableSymbol, highThreshold), cumul) =
                 fold (ct_init_one norm) [0..<maxSV1] ((tableSymbol, tableSize - 1), replicate (maxSV1 + 1) 0);
               cumul = cumul[maxSV1 := (tableSize + 1) mod 2 ^ 16];
               (tableSymbol, position) = spread_symbols upd e norm tableSize highThreshold spread tableSymbol;
               (tableU16, cumul) =
                 fold (ct_build_one tableLog tableSymbol) [0..<tableSize] (ct_tableU16 ct, cumul);
               (symbolTT, total) = fold (ct_symbolTT_one tableLog norm) [0..<maxSV1] (ct_symbolTT ct, 0)
           in Inr \<lparr>ct_tableLog = tableLog mod 2 ^ 16, ct_maxSymbolValue = maxSymbolValue mod 2 ^ 16,
                   ct_tableU16 = tableU16, ct_symbolTT = symbolTT\<rparr>)"

subsection \<open>Coder states\<close>

record FSE_CState_t =
  cs_value :: nat
  cs_stateTable :: "nat list"
  cs_symbolTT :: "FSE_symbolCompressionTransform list"
  cs_stateLog :: nat

record FSE_DState_t =
  ds_state :: nat
  ds_table :: "FSE_decode_t list"

definition FSE_initCState :: "FSE_CTable \<Rightarrow> FSE_CState_t" where
  "FSE_initCState ct =
     \<lparr>cs_value = 2 ^ ct_tableLog ct, cs_stateTable = ct_tableU16 ct, cs_symbolTT = ct_symbolTT ct,
      cs_stateLog = ct_tableLog ct\<rparr>"

definition FSE_initCState2 :: "FSE_CTable \<Rightarrow> nat \<Rightarrow> FSE_CState_t" where
  "FSE_initCState2 ct s =
     (let statePtr = FSE_initCState ct;
          tt = cs_symbolTT statePtr ! s;
          nbBitsOut = (deltaNbBits tt + 2 ^ 15) mod 2 ^ 32 div 2 ^ 16;
          val = sub32 (nbBitsOut * 2 ^ 16) (deltaNbBits tt)
      in statePtr\<lparr>cs_value :=
           cs_stateTable statePtr ! nat (int (val div 2 ^ nbBitsOut) + deltaFindState tt)\<rparr>)"

definition FSE_encodeSymbol ::
  "BIT_CStream_t \<Rightarrow> FSE_CState_t \<Rightarrow> nat \<Rightarrow> BIT_CStream_t \<times> FSE_CState_t" where
  "FSE_encodeSymbol bitC statePtr s =
     (let tt = cs_symbolTT statePtr ! s;
          nbBitsOut = (cs_value statePtr + deltaNbBits tt) div 2 ^ 16 mod 2 ^ 32
      in (BIT_addBits bitC (of_nat (cs_value statePtr)) nbBitsOut,
          statePtr\<lparr>cs_value :=
            cs_stateTable statePtr ! nat (int (cs_value statePtr div 2 ^ nbBitsOut) + deltaFindState tt)\<rparr>))"

definition FSE_flushCState :: "BIT_CStream_t \<Rightarrow> FSE_CState_t \<Rightarrow> BIT_CStream_t" where
  "FSE_flushCState bitC statePtr =
     BIT_flushBits (BIT_addBits bitC (of_nat (cs_value statePtr)) (cs_stateLog statePtr))"

definition FSE_getMaxNbBits :: "FSE_symbolCompressionTransform list \<Rightarrow> nat \<Rightarrow> nat" where
  "FSE_getMaxNbBits symbolTT symbolValue =
     (deltaNbBits (symbolTT ! symbolValue) + (2 ^ 16 - 1)) mod 2 ^ 32 div 2 ^ 16"

definition FSE_bitCost :: "FSE_symbolCompressionTransform list \<Rightarrow> nat \<Rightarrow> nat \<Rightarrow> nat \<Rightarrow> nat" where
  "FSE_bitCost symbolTT tableLog symbolValue accuracyLog =
     (let minNbBits = deltaNbBits (symbolTT ! symbolValue) div 2 ^ 16;
          threshold = (minNbBits + 1) * 2 ^ 16 mod 2 ^ 32;
          tableSize = 2 ^ tableLog;
          deltaFromThreshold = sub32 threshold ((deltaNbBits (symbolTT ! symbolValue) + tableSize) mod 2 ^ 32);
          normalizedDeltaFromThreshold = deltaFromThreshold * 2 ^ accuracyLog mod 2 ^ 32 div 2 ^ tableLog;
          bitMultiplier = 2 ^ accuracyLog
      in sub32 ((minNbBits + 1) * bitMultiplier mod 2 ^ 32) normalizedDeltaFromThreshold)"

definition FSE_initDState :: "BIT_DStream_t \<Rightarrow> FSE_DTable \<Rightarrow> FSE_DState_t \<times> BIT_DStream_t" where
  "FSE_initDState bitD dt =
     (let (state, bitD) = BIT_readBits bitD (dt_tableLog dt);
          (status, bitD) = BIT_reloadDStream bitD
      in (\<lparr>ds_state = unat state, ds_table = dt_table dt\<rparr>, bitD))"

definition FSE_peekSymbol :: "FSE_DState_t \<Rightarrow> nat" where
  "FSE_peekSymbol DStatePtr = symbol (ds_table DStatePtr ! ds_state DStatePtr)"

definition FSE_updateState :: "FSE_DState_t \<Rightarrow> BIT_DStream_t \<Rightarrow> FSE_DState_t \<times> BIT_DStream_t" where
  "FSE_updateState DStatePtr bitD =
     (let DInfo = ds_table DStatePtr ! ds_state DStatePtr;
          (lowBits, bitD) = BIT_readBits bitD (nbBits DInfo)
      in (DStatePtr\<lparr>ds_state := newState DInfo + unat lowBits\<rparr>, bitD))"

definition FSE_decodeSymbol :: "FSE_DState_t \<Rightarrow> BIT_DStream_t \<Rightarrow> nat \<times> FSE_DState_t \<times> BIT_DStream_t" where
  "FSE_decodeSymbol DStatePtr bitD =
     (let DInfo = ds_table DStatePtr ! ds_state DStatePtr;
          (lowBits, bitD) = BIT_readBits bitD (nbBits DInfo)
      in (symbol DInfo, DStatePtr\<lparr>ds_state := newState DInfo + unat lowBits\<rparr>, bitD))"

definition FSE_decodeSymbolFast :: "FSE_DState_t \<Rightarrow> BIT_DStream_t \<Rightarrow> nat \<times> FSE_DState_t \<times> BIT_DStream_t" where
  "FSE_decodeSymbolFast DStatePtr bitD =
     (let DInfo = ds_table DStatePtr ! ds_state DStatePtr;
          (lowBits, bitD) = BIT_readBitsFast bitD (nbBits DInfo)
      in (symbol DInfo, DStatePtr\<lparr>ds_state := newState DInfo + unat lowBits\<rparr>, bitD))"

definition FSE_endOfDState :: "FSE_DState_t \<Rightarrow> bool" where
  "FSE_endOfDState DStatePtr \<longleftrightarrow> ds_state DStatePtr = 0"

subsection \<open>Occurrences of a symbol\<close>

definition rank :: "nat list \<Rightarrow> nat \<Rightarrow> nat" where
  "rank st u = count_list (take u st) (st ! u)"

lemma count_take_Suc:
  "u < length st \<Longrightarrow> count_list (take (Suc u) st) s = count_list (take u st) s + (if st ! u = s then 1 else 0)"
  by (simp add: take_Suc_conv_app_nth)

lemma count_take_le: "count_list (take u st) s \<le> count_list st s"
  by (metis append_take_drop_id count_list_append le_add1)

lemma rank_less: "u < length st \<Longrightarrow> rank st u < count_list st (st ! u)"
  using count_take_Suc[of u st "st ! u"] count_take_le[of "Suc u" st "st ! u"] by (simp add: rank_def)

lemma rank_exists: "k < count_list st s \<Longrightarrow> \<exists>u<length st. st ! u = s \<and> rank st u = k"
proof (induction st rule: rev_induct)
  case (snoc x st)
  show ?case
  proof (cases "k < count_list st s")
    case True
    then obtain u where "u < length st" "st ! u = s" "rank st u = k" using snoc by blast
    then show ?thesis by (intro exI[of _ u]) (auto simp: rank_def nth_append)
  next
    case False
    then have "x = s" "k = count_list st s" using snoc.prems by (auto split: if_splits)
    then show ?thesis by (intro exI[of _ "length st"]) (simp add: rank_def)
  qed
qed simp

lemma rank_inject:
  assumes "u < v" "v < length st" "st ! u = st ! v"
  shows "rank st u < rank st v"
proof -
  have "take v st = take (Suc u) st @ drop (Suc u) (take v st)"
    using assms by (metis Suc_leI append_take_drop_id min.absorb1 take_take)
  then have "count_list (take (Suc u) st) (st ! u) \<le> count_list (take v st) (st ! u)"
    by (metis count_list_append le_add1)
  with count_take_Suc[of u st "st ! u"] assms show ?thesis by (simp add: rank_def)
qed

subsection \<open>What the decoding table holds\<close>

definition entry_state :: "int list \<Rightarrow> nat list \<Rightarrow> nat \<Rightarrow> nat" where
  "entry_state norm st u = ncount (norm ! (st ! u)) + rank st u"

definition dentry :: "nat \<Rightarrow> int list \<Rightarrow> nat list \<Rightarrow> nat \<Rightarrow> FSE_decode_t" where
  "dentry tableLog norm st u =
     (let y = entry_state norm st u;
          nb = sub32 tableLog (ZSTD_highbit32 (of_nat y)) mod 2 ^ 8
      in \<lparr>newState = sub32 (y * 2 ^ nb mod 2 ^ 32) (2 ^ tableLog) mod 2 ^ 16, symbol = st ! u, nbBits = nb\<rparr>)"

interpretation dtab: symbol_table put_symbol "map symbol"
  by unfold_locales (simp add: put_symbol_def map_update)

interpretation ctab: symbol_table upd "\<lambda>t. t"
  by unfold_locales simp

lemma ncount_cast: "-1 \<le> c \<Longrightarrow> c < 2 ^ 15 \<Longrightarrow> (if c = -1 then 1 else nat (c mod 2 ^ 16)) = ncount c"
  by (simp add: ncount_def mod_pos_pos_trivial)

lemma normalized_bounds:
  assumes "normalized tableLog norm"
  shows "c \<in> set norm \<Longrightarrow> -1 \<le> c \<and> c < 2 ^ 15" "c \<in> set norm \<Longrightarrow> ncount c \<le> 2 ^ tableLog"
    "2 ^ tableLog \<le> (4096::nat)" "4 \<le> tableLog" "tableLog \<le> 12"
proof -
  show T: "2 ^ tableLog \<le> (4096::nat)" and tl: "4 \<le> tableLog" "tableLog \<le> 12"
    using assms power_increasing[of tableLog 12 "2::nat"] by (auto simp: normalized_def)
  assume "c \<in> set norm"
  then have "ncount c \<le> sum_list (map ncount norm)" by (intro member_le_sum_list) simp_all
  then show "ncount c \<le> 2 ^ tableLog" using assms by (simp add: normalized_def)
  with T have "ncount c \<le> 4096" by linarith
  with \<open>c \<in> set norm\<close> show "-1 \<le> c \<and> c < 2 ^ 15"
    using assms by (auto simp: normalized_def ncount_def split: if_splits)
qed

lemma dt_init_run:
  assumes "\<forall>c\<in>set norm. -1 \<le> c \<and> c < 2 ^ 15"
  shows "n \<le> length norm \<Longrightarrow>
    fold (dt_init_one put norm L) [0..<n] (th, replicate (length norm) 0, True) =
      (fold (low_one put norm) [0..<n] th,
       map (\<lambda>s. if s < n then ncount (norm ! s) else 0) [0..<length norm],
       \<forall>s<n. norm ! s = -1 \<or> norm ! s < L)"
proof (induction n)
  case 0
  show ?case by (simp add: map_replicate_const)
next
  case (Suc n)
  have "(map (\<lambda>s. if s < n then ncount (norm ! s) else 0) [0..<length norm])[n := ncount (norm ! n)]
      = map (\<lambda>s. if s < Suc n then ncount (norm ! s) else 0) [0..<length norm]"
    using Suc.prems by (intro nth_equalityI) (auto simp: nth_list_update less_Suc_eq)
  moreover have "(if norm ! n = -1 then 1 else nat (norm ! n mod 2 ^ 16)) = ncount (norm ! n)"
    using assms Suc.prems by (intro ncount_cast) (auto simp: Suc_le_eq)
  ultimately show ?case using Suc
    by (auto simp: dt_init_one_def Let_def less_Suc_eq split: if_splits)
qed

lemma count_bound:
  assumes "normalized tableLog norm" "s < length norm"
  shows "ncount (norm ! s) + count_list (take u (symtab tableLog norm)) s \<le> 2 * 2 ^ tableLog"
proof -
  have "count_list (take u (symtab tableLog norm)) s \<le> ncount (norm ! s)"
    using count_take_le[of u "symtab tableLog norm" s] count_symtab[OF assms] by simp
  moreover have "ncount (norm ! s) \<le> 2 ^ tableLog"
    by (rule normalized_bounds(2)[OF assms(1)]) (use assms in simp)
  ultimately show ?thesis by simp
qed

lemma entry_state_next:
  assumes "normalized tableLog norm" "u < 2 ^ tableLog"
  shows "(entry_state norm (symtab tableLog norm) u + 1) mod 2 ^ 16 = entry_state norm (symtab tableLog norm) u + 1"
proof -
  have "2 * 2 ^ tableLog < (2::nat) ^ 16 - 1" using normalized_bounds(3)[OF assms(1)] by simp
  then have "entry_state norm (symtab tableLog norm) u < 2 ^ 16 - 1"
    using count_bound[OF assms(1) symtab_less[OF assms], of u] by (simp add: entry_state_def rank_def)
  then show ?thesis by simp
qed

lemma small_counts:
  "(\<forall>s<length norm. norm ! s = -1 \<or> norm ! s < 2 ^ k) = (\<forall>c\<in>set norm. c < (2::int) ^ k)"
  unfolding all_set_conv_all_nth
  by (metis zero_less_power less_trans neg_0_less_iff_less zero_less_numeral neg_less_0_iff_less zero_less_one)

lemma dt_build_run:
  assumes "normalized tableLog norm"
    and sy: "map symbol (take (2 ^ tableLog) table) = symtab tableLog norm"
  defines "st \<equiv> symtab tableLog norm"
  shows "u \<le> 2 ^ tableLog \<Longrightarrow>
    fold (dt_build_one tableLog) [0..<u] (table, map (\<lambda>s. ncount (norm ! s)) [0..<length norm]) =
      (map (\<lambda>v. if v < u then dentry tableLog norm st v else table ! v) [0..<length table],
       map (\<lambda>s. ncount (norm ! s) + count_list (take u st) s) [0..<length norm])"
proof (induction u)
  case 0
  then show ?case by (simp add: map_nth)
next
  case (Suc u)
  let ?tb = "\<lambda>u. map (\<lambda>v. if v < u then dentry tableLog norm st v else table ! v) [0..<length table]"
    and ?sn = "\<lambda>u. map (\<lambda>s. ncount (norm ! s) + count_list (take u st) s) [0..<length norm]"
  have len: "2 ^ tableLog \<le> length table" using arg_cong[OF sy, of length] by simp
  then have u: "u < length table" "u < length st" using Suc.prems by (auto simp: st_def)
  have su: "symbol (table ! u) = st ! u"
    using arg_cong[OF sy, of "\<lambda>l. l ! u"] u Suc.prems by (simp add: st_def)
  have sl: "st ! u < length norm" using symtab_less[OF assms(1), of u] Suc.prems by (simp add: st_def)
  have y: "?sn u ! (st ! u) = entry_state norm st u" using sl by (simp add: entry_state_def rank_def)
  have m: "(entry_state norm st u + 1) mod 2 ^ 16 = entry_state norm st u + 1"
    using entry_state_next[OF assms(1), of u] Suc.prems by (simp add: st_def)
  have "(?sn u)[st ! u := entry_state norm st u + 1] = ?sn (Suc u)"
    using u by (intro nth_equalityI) (auto simp: nth_list_update count_take_Suc entry_state_def rank_def)
  moreover have "(?tb u)[u := (table ! u)\<lparr>nbBits := nbBits (dentry tableLog norm st u),
      newState := newState (dentry tableLog norm st u)\<rparr>] = ?tb (Suc u)"
    using u su by (intro nth_equalityI) (auto simp: nth_list_update less_Suc_eq dentry_def Let_def)
  moreover have "?tb u ! u = table ! u" using u by simp
  ultimately have "dt_build_one tableLog u (?tb u, ?sn u) = (?tb (Suc u), ?sn (Suc u))"
    unfolding dt_build_one_def Let_def prod.case by (simp only: su y m) (simp add: dentry_def Let_def)
  with Suc show ?case by simp
qed

text \<open>The builder succeeds on every normalized distribution, and the cells it writes do not
  depend on the memory it was given.\<close>

lemma FSE_buildDTable_table:
  assumes n: "normalized tableLog (take (maxSymbolValue + 1) normalizedCounter)"
    and "maxSymbolValue < length normalizedCounter" "maxSymbolValue \<le> 255"
    and "FSE_BUILD_DTABLE_WKSP_SIZE tableLog maxSymbolValue \<le> length workSpace"
    and "2 ^ tableLog \<le> length (dt_table dt)"
  defines "norm \<equiv> take (maxSymbolValue + 1) normalizedCounter"
  shows "\<exists>dt'. FSE_buildDTable_internal e dt normalizedCounter maxSymbolValue tableLog workSpace = Inr dt'
    \<and> dt_tableLog dt' = tableLog \<and> length (dt_table dt') = length (dt_table dt)
    \<and> dt_fastMode dt' = (\<forall>c\<in>set norm. c < 2 ^ (tableLog - 1))
    \<and> (\<forall>u<2 ^ tableLog. dt_table dt' ! u = dentry tableLog norm (symtab tableLog norm) u)"
proof -
  have nn: "normalized tableLog norm" using n by (simp add: norm_def)
  note b = normalized_bounds[OF nn]
  have len: "length norm = maxSymbolValue + 1" using assms(2) by (simp add: norm_def)
  define t where "t = lay put_symbol (all_cells tableLog norm) (all_symbols norm) (dt_table dt)"
  define low where "low = fold (low_one put_symbol norm) [0..<length norm] (dt_table dt, 2 ^ tableLog - 1)"
  have ini: "fold (dt_init_one put_symbol norm (2 ^ (tableLog - 1))) [0..<length norm]
       ((dt_table dt, 2 ^ tableLog - 1), replicate (length norm) 0, True) =
     (low, map (\<lambda>s. ncount (norm ! s)) [0..<length norm], \<forall>s<length norm. norm ! s = -1 \<or> norm ! s < 2 ^ (tableLog - 1))"
    unfolding low_def using b(1) by (subst dt_init_run) auto
  have "2 ^ tableLog + 8 \<le> length (drop (2 * (maxSymbolValue + 1)) workSpace)"
    using assms(4) by (simp add: FSE_BUILD_DTABLE_WKSP_SIZE_def)
  then have sp: "spread_symbols put_symbol e norm (2 ^ tableLog) (snd low) (drop (2 * (maxSymbolValue + 1)) workSpace) (fst low) = (t, 0)"
    unfolding t_def low_def by (rule spread_table[OF nn])
  have st: "map symbol (take (2 ^ tableLog) t) = symtab tableLog norm" "length t = length (dt_table dt)"
    using dtab.sym_table[OF nn, of "dt_table dt"] assms(5) by (simp_all add: t_def take_map)
  have "FSE_buildDTable_internal e dt normalizedCounter maxSymbolValue tableLog workSpace =
    Inr \<lparr>dt_tableLog = tableLog, dt_fastMode = (\<forall>s<length norm. norm ! s = -1 \<or> norm ! s < 2 ^ (tableLog - 1)),
      dt_table = map (\<lambda>v. if v < 2 ^ tableLog then dentry tableLog norm (symtab tableLog norm) v else t ! v) [0..<length t]\<rparr>"
    unfolding FSE_buildDTable_internal_def Let_def norm_def[symmetric]
    using ini[unfolded len] sp dt_build_run[OF nn st(1), of "2 ^ tableLog"] assms(3,4) b(5)
    by (cases low) (simp add: len)
  then show ?thesis using assms(5) st(2) small_counts[of norm "tableLog - 1"] by simp
qed

subsection \<open>What the encoding table holds\<close>

definition cum :: "int list \<Rightarrow> nat \<Rightarrow> nat" where
  "cum norm s = sum_list (map ncount (take s norm))"

lemma cum_0 [simp]: "cum norm 0 = 0"
  by (simp add: cum_def)

lemma cum_Suc: "s < length norm \<Longrightarrow> cum norm (Suc s) = cum norm s + ncount (norm ! s)"
  by (simp add: cum_def take_Suc_conv_app_nth)

lemma cum_mono: "s \<le> s' \<Longrightarrow> s' \<le> length norm \<Longrightarrow> cum norm s \<le> cum norm s'"
  by (induction rule: dec_induct) (auto simp: cum_Suc)

lemma cum_bound: "normalized tableLog norm \<Longrightarrow> s \<le> length norm \<Longrightarrow> cum norm s \<le> 2 ^ tableLog"
  using cum_mono[of s "length norm" norm] by (simp add: cum_def normalized_def)

text \<open>The slots of two different cells differ.\<close>

definition slot :: "int list \<Rightarrow> nat list \<Rightarrow> nat \<Rightarrow> nat" where
  "slot norm st u = cum norm (st ! u) + rank st u"

lemma slot_bounds:
  assumes "normalized tableLog norm" "u < 2 ^ tableLog"
  defines "st \<equiv> symtab tableLog norm"
  shows "cum norm (st ! u) \<le> slot norm st u" "slot norm st u < cum norm (Suc (st ! u))" "slot norm st u < 2 ^ tableLog"
proof -
  have s: "st ! u < length norm" unfolding st_def by (rule symtab_less) fact+
  have "rank st u < ncount (norm ! (st ! u))"
    using rank_less[of u st] count_symtab[OF assms(1) s] assms(2) by (simp add: st_def)
  then show "slot norm st u < cum norm (Suc (st ! u))" by (simp add: slot_def cum_Suc s)
  also have "\<dots> \<le> 2 ^ tableLog" using s by (intro cum_bound assms(1)) simp
  finally show "slot norm st u < 2 ^ tableLog" .
qed (simp add: slot_def)

lemma slot_inject:
  assumes "normalized tableLog norm" "u < v" "v < 2 ^ tableLog"
  shows "slot norm (symtab tableLog norm) u \<noteq> slot norm (symtab tableLog norm) v"
proof (cases "symtab tableLog norm ! u = symtab tableLog norm ! v")
  case True
  then show ?thesis using rank_inject[of u v "symtab tableLog norm"] assms by (simp add: slot_def)
next
  case False
  let ?st = "symtab tableLog norm"
  have sep: "slot norm ?st a < slot norm ?st b" if "?st ! a < ?st ! b" "a < 2 ^ tableLog" "b < 2 ^ tableLog" for a b
  proof -
    have "slot norm ?st a < cum norm (Suc (?st ! a))" using slot_bounds[OF assms(1) that(2)] by simp
    also have "\<dots> \<le> cum norm (?st ! b)" using that symtab_less[OF assms(1) that(3)] by (intro cum_mono) auto
    also have "\<dots> \<le> slot norm ?st b" by (simp add: slot_def)
    finally show ?thesis .
  qed
  show ?thesis using sep[of u v] sep[of v u] False assms by (metis less_trans linorder_neq_iff order_less_irrefl)
qed

lemma ct_init_one_pair:
  "ct_init_one norm s (th, c) =
     (low_one upd norm s th, c[Suc s := (c ! s + (if norm ! s = -1 then 1 else nat (norm ! s mod 2 ^ 16))) mod 2 ^ 16])"
  by (simp add: ct_init_one_def)

lemma ct_init_run:
  assumes "normalized tableLog norm"
  shows "n \<le> length norm \<Longrightarrow>
    fold (ct_init_one norm) [0..<n] (th, replicate (Suc (length norm)) 0) =
      (fold (low_one upd norm) [0..<n] th, map (\<lambda>s. if s \<le> n then cum norm s else 0) [0..<Suc (length norm)])"
proof (induction n)
  case 0
  show ?case by (auto intro!: nth_equalityI simp: nth_Cons' simp del: upt_Suc replicate_Suc)
next
  case (Suc n)
  have "(map (\<lambda>s. if s \<le> n then cum norm s else 0) [0..<Suc (length norm)])[Suc n := cum norm (Suc n)]
      = map (\<lambda>s. if s \<le> Suc n then cum norm s else 0) [0..<Suc (length norm)]"
    using Suc.prems by (intro nth_equalityI) (auto simp: nth_list_update le_Suc_eq simp del: upt_Suc)
  moreover have "(cum norm n + ncount (norm ! n)) mod 2 ^ 16 = cum norm (Suc n)"
    using Suc.prems cum_bound[OF assms, of "Suc n"] normalized_bounds(3)[OF assms] by (simp add: cum_Suc)
  moreover have "map (\<lambda>s. if s \<le> n then cum norm s else 0) [0..<Suc (length norm)] ! n = cum norm n"
    using Suc.prems by (simp del: upt_Suc)
  moreover have "(if norm ! n = -1 then 1 else nat (norm ! n mod 2 ^ 16)) = ncount (norm ! n)"
    using normalized_bounds(1)[OF assms, of "norm ! n"] Suc.prems by (intro ncount_cast) (auto simp: Suc_le_eq)
  ultimately have "ct_init_one norm n (th', map (\<lambda>s. if s \<le> n then cum norm s else 0) [0..<Suc (length norm)])
      = (low_one upd norm n th', map (\<lambda>s. if s \<le> Suc n then cum norm s else 0) [0..<Suc (length norm)])" for th'
    unfolding ct_init_one_pair by (simp only:)
  then show ?case using Suc by (simp add: upt_Suc_append[of 0 n] del: upt_Suc replicate_Suc)
qed

lemma ct_build_run:
  assumes "normalized tableLog norm" "2 ^ tableLog \<le> length tb" "take (2 ^ tableLog) ts = symtab tableLog norm"
    and "length cumul = Suc (length norm)" "\<forall>s<length norm. cumul ! s = cum norm s"
  defines "st \<equiv> symtab tableLog norm"
  shows "u \<le> 2 ^ tableLog \<Longrightarrow>
    \<exists>tb' cumul'. fold (ct_build_one tableLog ts) [0..<u] (tb, cumul) = (tb', cumul')
      \<and> length tb' = length tb \<and> length cumul' = length cumul
      \<and> (\<forall>s<length norm. cumul' ! s = cum norm s + count_list (take u st) s)
      \<and> (\<forall>v<u. tb' ! slot norm st v = 2 ^ tableLog + v)"
proof (induction u)
  case (Suc u)
  then obtain tb' cumul' where r: "fold (ct_build_one tableLog ts) [0..<u] (tb, cumul) = (tb', cumul')"
    "length tb' = length tb" "length cumul' = length cumul"
    "\<forall>s<length norm. cumul' ! s = cum norm s + count_list (take u st) s"
    "\<forall>v<u. tb' ! slot norm st v = 2 ^ tableLog + v" by auto
  have u: "u < 2 ^ tableLog" "u < length st" using Suc.prems by (auto simp: st_def)
  have tsu: "ts ! u = st ! u" using assms(3) u by (metis nth_take st_def)
  have sl: "st ! u < length norm" unfolding st_def by (rule symtab_less[OF assms(1) u(1)])
  have c: "cumul' ! (st ! u) = slot norm st u" using r(4) sl by (simp add: slot_def rank_def)
  note sb = slot_bounds[OF assms(1) u(1), folded st_def]
  have m: "(2 ^ tableLog + u) mod 2 ^ 16 = 2 ^ tableLog + u" "(slot norm st u + 1) mod 2 ^ 16 = slot norm st u + 1"
    using u(1) sb(3) normalized_bounds(3)[OF assms(1)] by simp_all
  have step: "ct_build_one tableLog ts u (tb', cumul')
      = (tb'[slot norm st u := 2 ^ tableLog + u], cumul'[st ! u := slot norm st u + 1])"
    unfolding ct_build_one_def Let_def prod.case tsu c m ..
  have "\<forall>s<length norm. cumul'[st ! u := slot norm st u + 1] ! s = cum norm s + count_list (take (Suc u) st) s"
    using r(3,4) assms(4) u(2) sl by (auto simp: nth_list_update count_take_Suc slot_def rank_def)
  moreover have "tb'[slot norm st u := 2 ^ tableLog + u] ! slot norm st v = 2 ^ tableLog + v" if "v < Suc u" for v
  proof (cases "v = u")
    case True
    then show ?thesis using sb(3) r(2) assms(2) by simp
  next
    case False
    then have "slot norm st v \<noteq> slot norm st u" using slot_inject[OF assms(1), of v u] that u st_def by simp
    then show ?thesis using r(5) that False by simp
  qed
  ultimately show ?case using r(1,2,3) by (simp add: step)
qed (simp add: assms)

lemma s32_sub32: "a \<le> 4096 \<Longrightarrow> b \<le> 4096 \<Longrightarrow> s32 (sub32 a b) = int a - int b"
proof -
  assume ab: "a \<le> 4096" "b \<le> 4096"
  show ?thesis
  proof (cases "b \<le> a")
    case True
    then show ?thesis using ab sub32_eq[of b a] by (simp add: s32_def)
  next
    case False
    then have "(a + 2 ^ 32 - b) mod 2 ^ 32 = a + 2 ^ 32 - b" by (intro mod_less) simp
    then show ?thesis using ab False by (simp add: s32_def sub32_def)
  qed
qed

definition dnb :: "nat \<Rightarrow> nat \<Rightarrow> nat" where
  "dnb tableLog f =
     (if f = 1 then tableLog * 2 ^ 16 - 2 ^ tableLog
      else (tableLog - ZSTD_highbit32 (of_nat (f - 1))) * 2 ^ 16 - f * 2 ^ (tableLog - ZSTD_highbit32 (of_nat (f - 1))))"

text \<open>The largest number of bits a symbol of count \<open>f\<close> needs.\<close>

lemma max_bits:
  assumes "2 \<le> f" "f \<le> 2 ^ tableLog" "tableLog \<le> 12"
  defines "h \<equiv> ZSTD_highbit32 (of_nat (f - 1))"
  shows "2 ^ h \<le> f - 1" "f \<le> 2 ^ Suc h" "h < tableLog" "f * 2 ^ (tableLog - h) \<le> 2 ^ Suc tableLog"
proof -
  have T: "(2::nat) ^ tableLog \<le> 4096" using assms(3) power_increasing[of tableLog 12 "2::nat"] by simp
  have "f - 1 \<le> 4096" using assms(2) T by linarith
  then have u: "unat (of_nat (f - 1) :: U32) = f - 1" by (simp add: unat_of_nat)
  have "(of_nat (f - 1) :: U32) \<noteq> 0"
  proof
    assume "(of_nat (f - 1) :: U32) = 0"
    with u have "f - 1 = 0" by (metis unsigned_0)
    with assms(1) show False by linarith
  qed
  from highbit32_bounds[OF this, unfolded u]
  have b: "2 ^ h \<le> f - 1" "f - 1 < 2 ^ Suc h" by (auto simp: h_def)
  show "2 ^ h \<le> f - 1" by fact
  show f: "f \<le> 2 ^ Suc h" using b(2) by linarith
  have "(2::nat) ^ h < 2 ^ tableLog" using b(1) assms(1,2) by linarith
  then show h: "h < tableLog" by simp
  have "f * 2 ^ (tableLog - h) \<le> 2 ^ Suc h * 2 ^ (tableLog - h)" using f by (rule mult_right_mono) simp
  also have "\<dots> = 2 ^ Suc tableLog" using h by (simp add: power_add[symmetric])
  finally show "f * 2 ^ (tableLog - h) \<le> 2 ^ Suc tableLog" .
qed

lemma pow_le_8192: "tableLog \<le> 12 \<Longrightarrow> 2 ^ Suc tableLog \<le> (8192::nat)"
  using power_increasing[of "Suc tableLog" 13 "2::nat"] by simp

lemma dnb_sub32:
  assumes "2 \<le> f" "f \<le> 2 ^ tableLog" "tableLog \<le> 12"
  defines "m \<equiv> sub32 tableLog (ZSTD_highbit32 (of_nat (f - 1)))"
  shows "sub32 (m * 2 ^ 16 mod 2 ^ 32) (f * 2 ^ m mod 2 ^ 32) = dnb tableLog f"
proof -
  note b = max_bits[OF assms(1-3)]
  have m: "m = tableLog - ZSTD_highbit32 (of_nat (f - 1))"
    unfolding m_def using b(3) assms(3) by (intro sub32_eq) auto
  have "f * 2 ^ m \<le> 8192" using b(4) pow_le_8192[OF assms(3)] unfolding m by linarith
  moreover have "1 \<le> m" "m \<le> 12" using b(3) assms(3) by (auto simp: m)
  ultimately have "m * 2 ^ 16 mod 2 ^ 32 = m * 2 ^ 16" "f * 2 ^ m mod 2 ^ 32 = f * 2 ^ m"
    "sub32 (m * 2 ^ 16) (f * 2 ^ m) = m * 2 ^ 16 - f * 2 ^ m"
    by (auto intro!: sub32_eq)
  then show ?thesis using assms(1) by (simp add: dnb_def m)
qed

lemma ct_symbolTT_run:
  assumes "normalized tableLog norm" "length norm \<le> length tt"
  shows "n \<le> length norm \<Longrightarrow>
    \<exists>tt'. fold (ct_symbolTT_one tableLog norm) [0..<n] (tt, 0) = (tt', cum norm n) \<and> length tt' = length tt
      \<and> (\<forall>s<n. ncount (norm ! s) \<noteq> 0 \<longrightarrow>
           tt' ! s = \<lparr>deltaFindState = int (cum norm s) - int (ncount (norm ! s)),
                      deltaNbBits = dnb tableLog (ncount (norm ! s))\<rparr>)"
proof (induction n)
  case (Suc n)
  then obtain tt' where r: "fold (ct_symbolTT_one tableLog norm) [0..<n] (tt, 0) = (tt', cum norm n)" "length tt' = length tt"
      "\<forall>s<n. ncount (norm ! s) \<noteq> 0 \<longrightarrow> tt' ! s = \<lparr>deltaFindState = int (cum norm s) - int (ncount (norm ! s)),
                      deltaNbBits = dnb tableLog (ncount (norm ! s))\<rparr>" by auto
  note nb = normalized_bounds[OF assms(1)]
  let ?c = "norm ! n" and ?f = "ncount (norm ! n)"
  have mem: "?c \<in> set norm" using Suc.prems by simp
  then have f: "?f \<le> 2 ^ tableLog" "-1 \<le> ?c" using nb(1,2) by auto
  have cu: "cum norm n \<le> 4096" using cum_bound[OF assms(1), of n] Suc.prems nb(3) by simp
  have "?f \<le> 4096" using f nb(3) by linarith
  note ds = s32_sub32[OF cu this]
  have "\<exists>e. ct_symbolTT_one tableLog norm n (tt', cum norm n) = (tt'[n := e], cum norm (Suc n))
    \<and> (?f \<noteq> 0 \<longrightarrow> e = \<lparr>deltaFindState = int (cum norm n) - int ?f, deltaNbBits = dnb tableLog ?f\<rparr>)"
  proof -
    consider "?c = 0" | "?c = -1 \<or> ?c = 1" | "2 \<le> ?c" using f(2) by linarith
    then show ?thesis
    proof cases
      case 2
      have "2 ^ tableLog \<le> tableLog * 2 ^ 16" using nb(3,4) by simp
      moreover have "tableLog * 2 ^ 16 < (2::nat) ^ 32" using nb(5) by simp
      ultimately have "sub32 (tableLog * 2 ^ 16) (2 ^ tableLog) = dnb tableLog 1"
        unfolding dnb_def by (simp add: sub32_eq)
      then show ?thesis using 2 ds Suc.prems by (auto simp: ct_symbolTT_one_def ncount_def cum_Suc)
    next
      case 3
      then have nf: "nat ?c = ?f" "2 \<le> ?f" by (auto simp: ncount_def)
      show ?thesis using 3 nf ds dnb_sub32[OF nf(2) f(1) nb(5)] Suc.prems
        by (auto simp: ct_symbolTT_one_def cum_Suc Let_def)
    qed (use Suc.prems in \<open>auto simp: ct_symbolTT_one_def ncount_def cum_Suc\<close>)
  qed
  then obtain e where "ct_symbolTT_one tableLog norm n (tt', cum norm n) = (tt'[n := e], cum norm (Suc n))"
    "?f \<noteq> 0 \<longrightarrow> e = \<lparr>deltaFindState = int (cum norm n) - int ?f, deltaNbBits = dnb tableLog ?f\<rparr>" by blast
  then show ?case using r assms(2) Suc.prems by (intro exI[of _ "tt'[n := e]"]) (auto simp: nth_list_update less_Suc_eq)
qed simp

subsection \<open>The two tables are inverse\<close>

text \<open>One encoding step without the bit stream: the number of bits and the new state value.\<close>

definition enc_step :: "nat list \<Rightarrow> FSE_symbolCompressionTransform list \<Rightarrow> nat \<Rightarrow> nat \<Rightarrow> nat \<times> nat" where
  "enc_step tb tt s x =
     (let nb = (x + deltaNbBits (tt ! s)) div 2 ^ 16 mod 2 ^ 32
      in (nb, tb ! nat (int (x div 2 ^ nb) + deltaFindState (tt ! s))))"

lemma enc_bits:
  assumes "1 \<le> f" "f \<le> 2 ^ tableLog" "4 \<le> tableLog" "tableLog \<le> 12" "2 ^ tableLog \<le> x" "x < 2 * 2 ^ tableLog"
  defines "nb \<equiv> (x + dnb tableLog f) div 2 ^ 16 mod 2 ^ 32"
  shows "nb \<le> tableLog" "f \<le> x div 2 ^ nb" "x div 2 ^ nb < 2 * f"
proof -
  have T: "(2::nat) ^ tableLog \<le> 4096" using assms(4) power_increasing[of tableLog 12 "2::nat"] by simp
  have q: "(k * 2 ^ 16 + r) div 2 ^ 16 mod 2 ^ 32 = k" if "r < 2 ^ 16" "k \<le> 12" for k r :: nat
    using that by simp
  have *: "nb \<le> tableLog \<and> f \<le> x div 2 ^ nb \<and> x div 2 ^ nb < 2 * f"
  proof (cases "f = 1")
    case True
    have "x + dnb tableLog f = tableLog * 2 ^ 16 + (x - 2 ^ tableLog)"
      using assms(3,5) T True by (simp add: dnb_def)
    then have nb: "nb = tableLog" unfolding nb_def using q[of "x - 2 ^ tableLog" tableLog] assms(4,6) T by simp
    have "x div 2 ^ tableLog = 1" using assms(5,6) by (simp add: div_nat_eqI)
    then show ?thesis using True by (simp add: nb)
  next
    case False
    then have f2: "2 \<le> f" using assms(1) by simp
    define h where "h = ZSTD_highbit32 (of_nat (f - 1))"
    note b = max_bits[OF f2 assms(2,4), folded h_def]
    define m where "m = tableLog - h"
    have m: "1 \<le> m" "m \<le> tableLog" "tableLog = h + m" using b(3) by (auto simp: m_def)
    have f8: "f * 2 ^ m \<le> 2 * 2 ^ tableLog" using b(4) by (simp add: m_def)
    have d: "dnb tableLog f = m * 2 ^ 16 - f * 2 ^ m" "f * 2 ^ m < 2 ^ 16" "f * 2 ^ m \<le> m * 2 ^ 16"
      using False f8 T m(1) by (auto simp: dnb_def h_def m_def)
    show ?thesis
    proof (cases "f * 2 ^ m \<le> x")
      case True
      then have "x + dnb tableLog f = m * 2 ^ 16 + (x - f * 2 ^ m)" using d by simp
      then have nb: "nb = m" unfolding nb_def using q[of "x - f * 2 ^ m" m] assms(4,6) T m by simp
      have "f \<le> x div 2 ^ m" using True by (simp add: less_eq_div_iff_mult_less_eq)
      moreover have "x div 2 ^ m < 2 * f"
      proof -
        have "x < 2 ^ Suc h * 2 ^ m" using assms(6) m(3) by (simp add: power_add)
        then have "x div 2 ^ m < 2 ^ Suc h" by (simp add: div_less_iff_less_mult)
        with b(1) show ?thesis by simp
      qed
      ultimately show ?thesis using m nb by simp
    next
      case False
      have "x + dnb tableLog f = (m - 1) * 2 ^ 16 + (2 ^ 16 + x - f * 2 ^ m)"
        using d m(1) by (cases m) auto
      then have nb: "nb = m - 1" unfolding nb_def
        using q[of "2 ^ 16 + x - f * 2 ^ m" "m - 1"] assms(4) False m d by simp
      have m1: "2 ^ m = 2 * (2::nat) ^ (m - 1)" using m(1) by (cases m) auto
      have "x < 2 * f * 2 ^ (m - 1)" using False m1 by simp
      then have "x div 2 ^ (m - 1) < 2 * f" by (simp add: div_less_iff_less_mult)
      moreover have "f * 2 ^ (m - 1) \<le> 2 ^ Suc h * 2 ^ (m - 1)" using b(2) by (rule mult_right_mono) simp
      moreover have "2 ^ Suc h * 2 ^ (m - 1) = (2::nat) ^ tableLog" using m(3) m1 by (simp add: power_add)
      ultimately have "x div 2 ^ (m - 1) < 2 * f" "f * 2 ^ (m - 1) \<le> x" using assms(5) by linarith+
      moreover from this(2) have "f \<le> x div 2 ^ (m - 1)" by (simp add: less_eq_div_iff_mult_less_eq)
      ultimately show ?thesis using nb m by simp
    qed
  qed
  from * show "nb \<le> tableLog" "f \<le> x div 2 ^ nb" "x div 2 ^ nb < 2 * f" by auto
qed

lemma dentry_spec:
  assumes "normalized tableLog norm" "nb \<le> tableLog"
    "2 ^ tableLog \<le> x" "x < 2 * 2 ^ tableLog" "entry_state norm st u = x div 2 ^ nb"
  shows "symbol (dentry tableLog norm st u) = st ! u" "nbBits (dentry tableLog norm st u) = nb"
    "newState (dentry tableLog norm st u) = x div 2 ^ nb * 2 ^ nb - 2 ^ tableLog"
proof -
  note b = normalized_bounds[OF assms(1)]
  let ?y = "x div 2 ^ nb" and ?k = "tableLog - nb"
  have tl: "tableLog = ?k + nb" using assms(2) by simp
  have x8: "x < 8192" using assms(4) b(3) by linarith
  have lo: "2 ^ ?k \<le> ?y" using assms(3) tl by (metis less_eq_div_iff_mult_less_eq power_add zero_less_numeral zero_less_power)
  have "x < 2 ^ Suc ?k * 2 ^ nb" using assms(4) tl by (metis mult.assoc power_Suc power_add)
  then have hi: "?y < 2 ^ Suc ?k" by (simp add: div_less_iff_less_mult)
  have "?y \<le> x" by simp
  then have "?y < 8192" using x8 by linarith
  then have "unat (of_nat ?y :: U32) = ?y" by (simp add: unat_of_nat)
  then have h: "ZSTD_highbit32 (of_nat ?y) = ?k" using lo hi by (intro highbit32_unique) simp_all
  have "sub32 tableLog ?k = nb" using b(5) assms(2) sub32_eq[of ?k tableLog] by simp
  then have nbb: "sub32 tableLog ?k mod 2 ^ 8 = nb" using b(5) assms(2) by simp
  have y1: "?y * 2 ^ nb \<le> x" by simp
  then have "?y * 2 ^ nb < 8192" using x8 by linarith
  moreover have y2: "2 ^ tableLog \<le> ?y * 2 ^ nb"
    using mult_right_mono[OF lo, of "2 ^ nb"] tl by (metis le0 power_add)
  ultimately have "sub32 (?y * 2 ^ nb mod 2 ^ 32) (2 ^ tableLog) mod 2 ^ 16 = ?y * 2 ^ nb - 2 ^ tableLog"
    using sub32_eq[of "2 ^ tableLog" "?y * 2 ^ nb"] by simp
  then show "symbol (dentry tableLog norm st u) = st ! u" "nbBits (dentry tableLog norm st u) = nb"
    "newState (dentry tableLog norm st u) = ?y * 2 ^ nb - 2 ^ tableLog"
    unfolding dentry_def Let_def assms(5) h nbb by simp_all
qed

text \<open>
  A pair of tables that fit together: for every symbol that can be encoded, from every state of
  the encoder.  Encoder states are \<open>2 ^ tableLog\<close> above the decoder's.
\<close>

definition fse_pair :: "nat \<Rightarrow> (nat \<Rightarrow> bool) \<Rightarrow> FSE_CTable \<Rightarrow> FSE_DTable \<Rightarrow> bool" where
  "fse_pair tableLog ok ct dt \<longleftrightarrow>
     tableLog \<le> 12 \<and> ct_tableLog ct = tableLog \<and> dt_tableLog dt = tableLog \<and>
     (\<forall>s x. ok s \<longrightarrow> 2 ^ tableLog \<le> x \<longrightarrow> x < 2 * 2 ^ tableLog \<longrightarrow>
        (let (nb, x') = enc_step (ct_tableU16 ct) (ct_symbolTT ct) s x;
             d = dt_table dt ! (x' - 2 ^ tableLog)
         in nb \<le> tableLog \<and> 2 ^ tableLog \<le> x' \<and> x' < 2 * 2 ^ tableLog
            \<and> symbol d = s \<and> nbBits d = nb \<and> newState d + x mod 2 ^ nb = x - 2 ^ tableLog))"

lemma fse_pairD:
  assumes "fse_pair tableLog ok ct dt" "ok s" "2 ^ tableLog \<le> x" "x < 2 * 2 ^ tableLog"
    and "enc_step (ct_tableU16 ct) (ct_symbolTT ct) s x = (nb, x')"
  shows "nb \<le> tableLog" "2 ^ tableLog \<le> x'" "x' < 2 * 2 ^ tableLog"
    "symbol (dt_table dt ! (x' - 2 ^ tableLog)) = s" "nbBits (dt_table dt ! (x' - 2 ^ tableLog)) = nb"
    "newState (dt_table dt ! (x' - 2 ^ tableLog)) + x mod 2 ^ nb = x - 2 ^ tableLog"
proof -
  have "let (nb, x') = enc_step (ct_tableU16 ct) (ct_symbolTT ct) s x; d = dt_table dt ! (x' - 2 ^ tableLog)
     in nb \<le> tableLog \<and> 2 ^ tableLog \<le> x' \<and> x' < 2 * 2 ^ tableLog
        \<and> symbol d = s \<and> nbBits d = nb \<and> newState d + x mod 2 ^ nb = x - 2 ^ tableLog"
    using assms(1-4) unfolding fse_pair_def by blast
  then show "nb \<le> tableLog" "2 ^ tableLog \<le> x'" "x' < 2 * 2 ^ tableLog"
    "symbol (dt_table dt ! (x' - 2 ^ tableLog)) = s" "nbBits (dt_table dt ! (x' - 2 ^ tableLog)) = nb"
    "newState (dt_table dt ! (x' - 2 ^ tableLog)) + x mod 2 ^ nb = x - 2 ^ tableLog"
    unfolding assms(5) Let_def prod.case by blast+
qed

definition ctable_ok :: "nat \<Rightarrow> int list \<Rightarrow> FSE_CTable \<Rightarrow> bool" where
  "ctable_ok tableLog norm ct \<longleftrightarrow> ct_tableLog ct = tableLog
     \<and> (\<forall>u<2 ^ tableLog. ct_tableU16 ct ! slot norm (symtab tableLog norm) u = 2 ^ tableLog + u)
     \<and> (\<forall>s<length norm. ncount (norm ! s) \<noteq> 0 \<longrightarrow>
          ct_symbolTT ct ! s = \<lparr>deltaFindState = int (cum norm s) - int (ncount (norm ! s)),
                                deltaNbBits = dnb tableLog (ncount (norm ! s))\<rparr>)"

definition dtable_ok :: "nat \<Rightarrow> int list \<Rightarrow> FSE_DTable \<Rightarrow> bool" where
  "dtable_ok tableLog norm dt \<longleftrightarrow> dt_tableLog dt = tableLog
     \<and> 2 ^ tableLog \<le> length (dt_table dt)
     \<and> dt_fastMode dt = (\<forall>c\<in>set norm. c < 2 ^ (tableLog - 1))
     \<and> (\<forall>u<2 ^ tableLog. dt_table dt ! u = dentry tableLog norm (symtab tableLog norm) u)"

lemma state_of_rank:
  assumes n: "normalized tableLog norm" and "ctable_ok tableLog norm ct" and s: "s < length norm"
    and k: "k < ncount (norm ! s)" and i: "i = cum norm s + k"
  shows "\<exists>u<2 ^ tableLog. ct_tableU16 ct ! i = 2 ^ tableLog + u
    \<and> symtab tableLog norm ! u = s \<and> entry_state norm (symtab tableLog norm) u = ncount (norm ! s) + k"
proof -
  obtain u where u: "u < 2 ^ tableLog" "symtab tableLog norm ! u = s" "rank (symtab tableLog norm) u = k"
    using rank_exists[of k "symtab tableLog norm" s] count_symtab[OF n s] k by auto
  then have "slot norm (symtab tableLog norm) u = i" using i by (simp add: slot_def)
  then show ?thesis using u assms(2) by (intro exI[of _ u]) (auto simp: ctable_ok_def entry_state_def)
qed

lemma fse_pair_tables:
  assumes n: "normalized tableLog norm" and c: "ctable_ok tableLog norm ct" and d: "dtable_ok tableLog norm dt"
  shows "fse_pair tableLog (\<lambda>s. s < length norm \<and> norm ! s \<noteq> 0) ct dt"
proof -
  note b = normalized_bounds[OF n]
  have "let (nb, x') = enc_step (ct_tableU16 ct) (ct_symbolTT ct) s x; e = dt_table dt ! (x' - 2 ^ tableLog)
     in nb \<le> tableLog \<and> 2 ^ tableLog \<le> x' \<and> x' < 2 * 2 ^ tableLog
        \<and> symbol e = s \<and> nbBits e = nb \<and> newState e + x mod 2 ^ nb = x - 2 ^ tableLog"
    if s: "s < length norm" "norm ! s \<noteq> 0" and x: "2 ^ tableLog \<le> x" "x < 2 * 2 ^ tableLog" for s x
  proof -
    let ?f = "ncount (norm ! s)" and ?st = "symtab tableLog norm"
    have mem: "norm ! s \<in> set norm" using s by simp
    have f: "1 \<le> ?f" "?f \<le> 2 ^ tableLog"
      using b(1)[OF mem] b(2)[OF mem] s(2) by (auto simp: ncount_def)
    define nb where "nb = (x + dnb tableLog ?f) div 2 ^ 16 mod 2 ^ 32"
    note eb = enc_bits[OF f b(4,5) x, folded nb_def]
    have tt: "ct_symbolTT ct ! s = \<lparr>deltaFindState = int (cum norm s) - int ?f, deltaNbBits = dnb tableLog ?f\<rparr>"
      using c s(1) f(1) by (simp add: ctable_ok_def)
    define k where "k = x div 2 ^ nb - ?f"
    have k: "k < ?f" "x div 2 ^ nb = ?f + k" using eb by (auto simp: k_def)
    obtain u where u: "u < 2 ^ tableLog" "ct_tableU16 ct ! (cum norm s + k) = 2 ^ tableLog + u"
      "?st ! u = s" "entry_state norm ?st u = ?f + k" using state_of_rank[OF n c s(1) k(1)] by blast
    have "nat (int (x div 2 ^ nb) + (int (cum norm s) - int ?f)) = cum norm s + k" using k(2) by simp
    then have es: "enc_step (ct_tableU16 ct) (ct_symbolTT ct) s x = (nb, 2 ^ tableLog + u)"
      unfolding enc_step_def Let_def tt FSE_symbolCompressionTransform.simps nb_def[symmetric]
      by (simp only: u(2))
    have e: "dt_table dt ! u = dentry tableLog norm ?st u" using d u(1) by (simp add: dtable_ok_def)
    have y: "entry_state norm ?st u = x div 2 ^ nb" using u(4) k(2) by simp
    note ds = dentry_spec[OF n eb(1) x y]
    have "2 ^ tableLog \<le> x div 2 ^ nb * 2 ^ nb"
    proof -
      have "2 ^ tableLog = 2 ^ (tableLog - nb) * (2::nat) ^ nb" using eb(1) by (simp add: power_add[symmetric])
      moreover have "2 ^ (tableLog - nb) \<le> x div 2 ^ nb"
        using x(1) calculation by (simp add: less_eq_div_iff_mult_less_eq)
      ultimately show ?thesis by simp
    qed
    then have "x div 2 ^ nb * 2 ^ nb - 2 ^ tableLog + x mod 2 ^ nb = x - 2 ^ tableLog"
      using div_mult_mod_eq[of x "2 ^ nb"] by linarith
    then show ?thesis unfolding es Let_def prod.case using eb(1) u(1,3) ds by (simp add: e)
  qed
  then show ?thesis using b(5) c d by (auto simp: fse_pair_def ctable_ok_def dtable_ok_def)
qed

lemma FSE_buildDTable_ok:
  assumes "normalized tableLog (take (maxSymbolValue + 1) normalizedCounter)"
    and "maxSymbolValue < length normalizedCounter" "maxSymbolValue \<le> 255"
    and "FSE_BUILD_DTABLE_WKSP_SIZE tableLog maxSymbolValue \<le> length workSpace"
    and "2 ^ tableLog \<le> length (dt_table dt)"
  shows "\<exists>dt'. FSE_buildDTable_wksp e dt normalizedCounter maxSymbolValue tableLog workSpace = Inr dt'
    \<and> dtable_ok tableLog (take (maxSymbolValue + 1) normalizedCounter) dt'"
  using FSE_buildDTable_table[OF assms, of e] assms(5)
  unfolding dtable_ok_def FSE_buildDTable_wksp_def by metis

text \<open>
  The encoding table is complete when the scratch space holds the eight bytes that the last
  eight-byte store may write past the end of the spread area.
\<close>

lemma FSE_buildCTable_ok:
  assumes "normalized tableLog (take (maxSymbolValue + 1) normalizedCounter)"
    and "maxSymbolValue < length normalizedCounter" "maxSymbolValue \<le> 255"
    and "2 * (maxSymbolValue + 2) + 2 * 2 ^ tableLog + 8 \<le> length workSpace"
    and "2 ^ tableLog \<le> length (ct_tableU16 ct)" "maxSymbolValue < length (ct_symbolTT ct)"
  shows "\<exists>ct'. FSE_buildCTable_wksp e ct normalizedCounter maxSymbolValue tableLog workSpace = Inr ct'
    \<and> ctable_ok tableLog (take (maxSymbolValue + 1) normalizedCounter) ct'"
proof -
  define norm where "norm = take (maxSymbolValue + 1) normalizedCounter"
  have nn: "normalized tableLog norm" using assms(1) by (simp add: norm_def)
  note b = normalized_bounds[OF nn]
  have len: "length norm = maxSymbolValue + 1" using assms(2) by (simp add: norm_def)
  define ts where "ts = map unat (take (2 ^ tableLog) (drop (2 * (maxSymbolValue + 1 + 1)) workSpace))"
  define t where "t = lay upd (all_cells tableLog norm) (all_symbols norm) ts"
  define low where "low = fold (low_one upd norm) [0..<length norm] (ts, 2 ^ tableLog - 1)"
  define cumul where "cumul = (map (\<lambda>s. if s \<le> length norm then cum norm s else 0) [0..<Suc (length norm)])
    [length norm := (2 ^ tableLog + 1) mod 2 ^ 16]"
  have ini: "fold (ct_init_one norm) [0..<length norm] ((ts, 2 ^ tableLog - 1), replicate (Suc (length norm)) 0) =
     (low, map (\<lambda>s. if s \<le> length norm then cum norm s else 0) [0..<Suc (length norm)])"
    unfolding low_def by (rule ct_init_run[OF nn]) simp
  have "2 ^ tableLog + 8 \<le> length (drop (2 * (maxSymbolValue + 1 + 1) + 2 ^ tableLog) workSpace)"
    using assms(4) by simp
  then have sp: "spread_symbols upd e norm (2 ^ tableLog) (snd low)
      (drop (2 * (maxSymbolValue + 1 + 1) + 2 ^ tableLog) workSpace) (fst low) = (t, 0)"
    unfolding t_def low_def by (rule spread_table[OF nn])
  have "2 ^ tableLog \<le> length ts" using assms(4) by (simp add: ts_def)
  then have st: "take (2 ^ tableLog) t = symtab tableLog norm"
    using ctab.sym_table[OF nn, of ts] by (simp add: t_def)
  have "length cumul = Suc (length norm)" "\<forall>s<length norm. cumul ! s = cum norm s"
    by (simp_all add: cumul_def del: upt_Suc)
  from ct_build_run[OF nn assms(5) st this, of "2 ^ tableLog"]
  obtain tb cu where tb: "fold (ct_build_one tableLog t) [0..<2 ^ tableLog] (ct_tableU16 ct, cumul) = (tb, cu)"
    "\<forall>u<2 ^ tableLog. tb ! slot norm (symtab tableLog norm) u = 2 ^ tableLog + u" by auto
  obtain tt where tt: "fold (ct_symbolTT_one tableLog norm) [0..<length norm] (ct_symbolTT ct, 0) = (tt, cum norm (length norm))"
    "\<forall>s<length norm. ncount (norm ! s) \<noteq> 0 \<longrightarrow> tt ! s = \<lparr>deltaFindState = int (cum norm s) - int (ncount (norm ! s)),
                      deltaNbBits = dnb tableLog (ncount (norm ! s))\<rparr>"
    using ct_symbolTT_run[OF nn, of "ct_symbolTT ct" "length norm"] assms(6) len by auto
  have "\<not> FSE_BUILD_CTABLE_WORKSPACE_SIZE maxSymbolValue tableLog > length workSpace"
    using assms(4) by (simp add: FSE_BUILD_CTABLE_WORKSPACE_SIZE_def)
  then have "FSE_buildCTable_wksp e ct normalizedCounter maxSymbolValue tableLog workSpace =
    Inr \<lparr>ct_tableLog = tableLog, ct_maxSymbolValue = maxSymbolValue, ct_tableU16 = tb, ct_symbolTT = tt\<rparr>"
    unfolding FSE_buildCTable_wksp_def Let_def norm_def[symmetric] ts_def[symmetric]
    using ini[unfolded len] sp tb(1)[unfolded cumul_def len] tt(1)[unfolded len] assms(3) b(5)
    by (cases low) (simp del: upt_Suc replicate_Suc)
  then show ?thesis using tb(2) tt(2) by (simp add: ctable_ok_def norm_def)
qed

subsection \<open>Initial states and the fast mode\<close>

lemma FSE_encodeSymbol_step:
  "FSE_encodeSymbol bitC st s =
     (let (nb, x') = enc_step (cs_stateTable st) (cs_symbolTT st) s (cs_value st)
      in (BIT_addBits bitC (of_nat (cs_value st)) nb, st\<lparr>cs_value := x'\<rparr>))"
  by (simp only: FSE_encodeSymbol_def enc_step_def Let_def prod.case)

lemma entry_bits:
  assumes n: "normalized tableLog norm" and u: "u < 2 ^ tableLog"
  defines "y \<equiv> entry_state norm (symtab tableLog norm) u"
  shows "nbBits (dentry tableLog norm (symtab tableLog norm) u) \<le> tableLog"
    and "y < 2 ^ tableLog \<Longrightarrow> 1 \<le> nbBits (dentry tableLog norm (symtab tableLog norm) u)"
    and "1 \<le> y" "y < 2 * ncount (norm ! (symtab tableLog norm ! u))"
proof -
  let ?st = "symtab tableLog norm" and ?f = "ncount (norm ! (symtab tableLog norm ! u))"
  note b = normalized_bounds[OF n]
  have sl: "?st ! u < length norm" by (rule symtab_less[OF n u])
  have r: "rank ?st u < ?f" using rank_less[of u ?st] count_symtab[OF n sl] u by simp
  then show y: "1 \<le> y" "y < 2 * ?f" by (auto simp: y_def entry_state_def)
  have f: "?f \<le> 2 ^ tableLog" using b(2)[of "norm ! (?st ! u)"] sl by simp
  define h where "h = ZSTD_highbit32 (of_nat y)"
  have "y < 2 * 2 ^ tableLog" using y(2) f by linarith
  moreover have "2 * 2 ^ tableLog \<le> (8192::nat)" using b(3) by simp
  ultimately have u32: "unat (of_nat y :: U32) = y" by (simp add: unat_of_nat)
  then have "(of_nat y :: U32) \<noteq> 0" using y(1) by (metis not_one_le_zero unsigned_0)
  from highbit32_bounds[OF this] have hb: "2 ^ h \<le> y" "y < 2 ^ Suc h" by (auto simp: h_def u32)
  have "(2::nat) ^ h < 2 ^ Suc tableLog" using hb(1) \<open>y < 2 * 2 ^ tableLog\<close> by simp
  then have hl: "h \<le> tableLog" using power_less_imp_less_exp[of "2::nat" h "Suc tableLog"] by simp
  have nb: "nbBits (dentry tableLog norm ?st u) = tableLog - h"
    using hl b(5) sub32_eq[of h tableLog]
    by (simp add: dentry_def Let_def y_def[symmetric] h_def[symmetric])
  then show "nbBits (dentry tableLog norm ?st u) \<le> tableLog" by simp
  assume "y < 2 ^ tableLog"
  with hb(1) have "(2::nat) ^ h < 2 ^ tableLog" by linarith
  then show "1 \<le> nbBits (dentry tableLog norm ?st u)" unfolding nb by simp
qed

text \<open>In fast mode, decided from the counts, no cell is left without reading a bit.\<close>

lemma fastMode_bits:
  assumes n: "normalized tableLog norm" and d: "dtable_ok tableLog norm dt" and "dt_fastMode dt" "u < 2 ^ tableLog"
  shows "1 \<le> nbBits (dt_table dt ! u)"
proof -
  let ?c = "norm ! (symtab tableLog norm ! u)"
  have sl: "symtab tableLog norm ! u < length norm" by (rule symtab_less[OF n assms(4)])
  have "?c < 2 ^ (tableLog - 1)" using assms(3) d sl by (simp add: dtable_ok_def)
  moreover have tl: "1 \<le> tableLog" using normalized_bounds(4)[OF n] by simp
  ultimately have "nat ?c < 2 ^ (tableLog - 1)" by (simp add: nat_less_iff)
  moreover have "(1::nat) \<le> 2 ^ (tableLog - 1)" by simp
  ultimately have "ncount ?c \<le> 2 ^ (tableLog - 1)" by (auto simp: ncount_def)
  moreover have "(2::nat) ^ tableLog = 2 * 2 ^ (tableLog - 1)" using tl by (cases tableLog) auto
  ultimately have "2 * ncount ?c \<le> 2 ^ tableLog" by linarith
  then have "entry_state norm (symtab tableLog norm) u < 2 ^ tableLog"
    using entry_bits(4)[OF n assms(4)] by linarith
  then show ?thesis using entry_bits(2)[OF n assms(4)] d assms(4) by (simp add: dtable_ok_def)
qed

lemma init2_bits:
  assumes "1 \<le> f" "f \<le> 2 ^ tableLog" "4 \<le> tableLog" "tableLog \<le> 12"
  defines "nb \<equiv> (dnb tableLog f + 2 ^ 15) mod 2 ^ 32 div 2 ^ 16"
  shows "sub32 (nb * 2 ^ 16) (dnb tableLog f) div 2 ^ nb = f"
proof -
  have "\<exists>m\<le>12. 1 \<le> m \<and> f * 2 ^ m \<le> 8192 \<and> dnb tableLog f = m * 2 ^ 16 - f * 2 ^ m"
  proof (cases "f = 1")
    case True
    have "(2::nat) ^ tableLog \<le> 2 ^ 13" using assms(4) by (intro power_increasing) auto
    then show ?thesis using True assms(3,4) by (intro exI[of _ tableLog]) (simp add: dnb_def)
  next
    case False
    then have "2 \<le> f" using assms(1) by simp
    note mb = max_bits[OF this assms(2,4)] pow_le_8192[OF assms(4)]
    show ?thesis using False mb assms(4)
      by (intro exI[of _ "tableLog - ZSTD_highbit32 (of_nat (f - 1))"]) (auto simp: dnb_def)
  qed
  then obtain m where m: "m \<le> 12" "1 \<le> m" "f * 2 ^ m \<le> 8192" "dnb tableLog f = m * 2 ^ 16 - f * 2 ^ m" by blast
  define q where "q = f * 2 ^ m"
  have q: "q \<le> 8192" "dnb tableLog f = m * 65536 - q" using m by (simp_all add: q_def)
  have "dnb tableLog f + 2 ^ 15 = m * 65536 + (32768 - q)" using q m(2) by simp
  then have nb: "nb = m" unfolding nb_def using q(1) m(1) by simp
  have "sub32 (m * 65536) (dnb tableLog f) = m * 65536 - dnb tableLog f"
    using m(1) q by (intro sub32_eq) simp_all
  also have "\<dots> = q" using q m(2) by simp
  finally show ?thesis unfolding nb by (simp add: q_def)
qed

lemma FSE_initCState2_state:
  assumes n: "normalized tableLog norm" and c: "ctable_ok tableLog norm ct" and d: "dtable_ok tableLog norm dt"
    and s: "s < length norm" "norm ! s \<noteq> 0"
  defines "st \<equiv> FSE_initCState2 ct s"
  shows "2 ^ tableLog \<le> cs_value st" "cs_value st < 2 * 2 ^ tableLog"
    "symbol (dt_table dt ! (cs_value st - 2 ^ tableLog)) = s"
    "ncount (norm ! s) < 2 ^ tableLog \<Longrightarrow> 1 \<le> nbBits (dt_table dt ! (cs_value st - 2 ^ tableLog))"
proof -
  let ?f = "ncount (norm ! s)" and ?st = "symtab tableLog norm"
  note b = normalized_bounds[OF n]
  have mem: "norm ! s \<in> set norm" using s by simp
  have f: "1 \<le> ?f" "?f \<le> 2 ^ tableLog" using b(1)[OF mem] b(2)[OF mem] s(2) by (auto simp: ncount_def)
  have tt: "ct_symbolTT ct ! s = \<lparr>deltaFindState = int (cum norm s) - int ?f, deltaNbBits = dnb tableLog ?f\<rparr>"
    using c s(1) f(1) by (simp add: ctable_ok_def)
  obtain u where u: "u < 2 ^ tableLog" "ct_tableU16 ct ! cum norm s = 2 ^ tableLog + u"
      "?st ! u = s" "entry_state norm ?st u = ?f"
    using state_of_rank[OF n c s(1), of 0 "cum norm s"] f(1) by auto
  have v: "cs_value st = 2 ^ tableLog + u"
    unfolding st_def FSE_initCState2_def Let_def FSE_initCState_def
    using init2_bits[OF f b(4,5)] tt u(2) by simp
  have e: "dt_table dt ! u = dentry tableLog norm ?st u" using d u(1) by (simp add: dtable_ok_def)
  from v u(1) show "2 ^ tableLog \<le> cs_value st" "cs_value st < 2 * 2 ^ tableLog" by simp_all
  show "symbol (dt_table dt ! (cs_value st - 2 ^ tableLog)) = s" using v e u(3) by (simp add: dentry_def Let_def)
  show "?f < 2 ^ tableLog \<Longrightarrow> 1 \<le> nbBits (dt_table dt ! (cs_value st - 2 ^ tableLog))"
    using entry_bits(2)[OF n u(1)] u(4) v e by simp
qed

subsection \<open>Properties\<close>

text \<open>
  Property C12: for every normalized distribution both table builders succeed, whatever the tables
  and the work spaces held and on either byte order, and the tables are inverse: encoding a symbol
  of non-zero count from any state of the encoder adds the low bits of the state to the stream and
  leads to a state whose decoding entry names that symbol, that number of bits, and a base from
  which the bits restore the state before.\<close>

theorem fse_tables_inverse:
  assumes n: "normalized tableLog (take (maxSymbolValue + 1) normalizedCounter)"
    and m: "maxSymbolValue < length normalizedCounter" "maxSymbolValue \<le> 255"
    and wC: "2 * (maxSymbolValue + 2) + 2 * 2 ^ tableLog + 8 \<le> length workSpaceC"
      "2 ^ tableLog \<le> length (ct_tableU16 ct)" "maxSymbolValue < length (ct_symbolTT ct)"
    and wD: "FSE_BUILD_DTABLE_WKSP_SIZE tableLog maxSymbolValue \<le> length workSpaceD"
      "2 ^ tableLog \<le> length (dt_table dt)"
  shows "\<exists>ct' dt'. FSE_buildCTable_wksp eC ct normalizedCounter maxSymbolValue tableLog workSpaceC = Inr ct'
    \<and> FSE_buildDTable_wksp eD dt normalizedCounter maxSymbolValue tableLog workSpaceD = Inr dt'
    \<and> (\<forall>s x bitC. s \<le> maxSymbolValue \<longrightarrow> normalizedCounter ! s \<noteq> 0 \<longrightarrow> 2 ^ tableLog \<le> x \<longrightarrow> x < 2 * 2 ^ tableLog \<longrightarrow>
         (let (bitC', st') = FSE_encodeSymbol bitC ((FSE_initCState ct')\<lparr>cs_value := x\<rparr>) s;
              d = dt_table dt' ! (cs_value st' - 2 ^ tableLog)
          in 2 ^ tableLog \<le> cs_value st' \<and> cs_value st' < 2 * 2 ^ tableLog
             \<and> symbol d = s \<and> nbBits d \<le> tableLog \<and> bitC' = BIT_addBits bitC (of_nat x) (nbBits d)
             \<and> newState d + x mod 2 ^ nbBits d = x - 2 ^ tableLog))"
proof -
  let ?norm = "take (maxSymbolValue + 1) normalizedCounter"
  obtain ct' where c: "FSE_buildCTable_wksp eC ct normalizedCounter maxSymbolValue tableLog workSpaceC = Inr ct'"
      "ctable_ok tableLog ?norm ct'" using FSE_buildCTable_ok[OF n m wC] by blast
  obtain dt' where d: "FSE_buildDTable_wksp eD dt normalizedCounter maxSymbolValue tableLog workSpaceD = Inr dt'"
      "dtable_ok tableLog ?norm dt'" using FSE_buildDTable_ok[OF n m wD] by blast
  note p = fse_pairD[OF fse_pair_tables[OF n c(2) d(2)]]
  have "let (bitC', st') = FSE_encodeSymbol bitC ((FSE_initCState ct')\<lparr>cs_value := x\<rparr>) s;
            e = dt_table dt' ! (cs_value st' - 2 ^ tableLog)
        in 2 ^ tableLog \<le> cs_value st' \<and> cs_value st' < 2 * 2 ^ tableLog
           \<and> symbol e = s \<and> nbBits e \<le> tableLog \<and> bitC' = BIT_addBits bitC (of_nat x) (nbBits e)
           \<and> newState e + x mod 2 ^ nbBits e = x - 2 ^ tableLog"
    if s: "s \<le> maxSymbolValue" "normalizedCounter ! s \<noteq> 0" "2 ^ tableLog \<le> x" "x < 2 * 2 ^ tableLog" for s x bitC
  proof -
    obtain nb x' where e: "enc_step (ct_tableU16 ct') (ct_symbolTT ct') s x = (nb, x')" by fastforce
    have "s < length ?norm \<and> ?norm ! s \<noteq> 0" using s m by simp
    note q = p[OF this s(3,4) e]
    show ?thesis
      unfolding FSE_encodeSymbol_step by (simp add: FSE_initCState_def e q)
  qed
  with c(1) d(1) show ?thesis by blast
qed

theorem fse_tables_inverse_witness:
  "\<exists>ct' dt'. FSE_buildCTable_wksp BigEndian
        \<lparr>ct_tableLog = 0, ct_maxSymbolValue = 0, ct_tableU16 = replicate 32 0,
         ct_symbolTT = replicate 3 \<lparr>deltaFindState = 0, deltaNbBits = 0\<rparr>\<rparr> [19, -1, 12] 2 5 (replicate 80 0) = Inr ct'
    \<and> FSE_buildDTable_wksp LittleEndian
        \<lparr>dt_tableLog = 0, dt_fastMode = False, dt_table = replicate 32 \<lparr>newState = 0, symbol = 0, nbBits = 0\<rparr>\<rparr>
        [19, -1, 12] 2 5 (replicate 46 0) = Inr dt'
    \<and> (\<forall>bitC. let (bitC', st') = FSE_encodeSymbol bitC ((FSE_initCState ct')\<lparr>cs_value := 40\<rparr>) 2
               in symbol (dt_table dt' ! (cs_value st' - 32)) = 2)"
proof -
  let ?c = "\<lparr>ct_tableLog = 0, ct_maxSymbolValue = 0, ct_tableU16 = replicate 32 0,
         ct_symbolTT = replicate 3 \<lparr>deltaFindState = 0, deltaNbBits = 0\<rparr>\<rparr>"
    and ?d = "\<lparr>dt_tableLog = 0, dt_fastMode = False, dt_table = replicate 32 \<lparr>newState = 0, symbol = 0, nbBits = 0\<rparr>\<rparr>"
  have n: "normalized 5 (take (2 + 1) [19, -1, 12])" by (simp add: normalized_def ncount_def)
  obtain ct' dt' where b: "FSE_buildCTable_wksp BigEndian ?c [19, -1, 12] 2 5 (replicate 80 0) = Inr ct'"
      "FSE_buildDTable_wksp LittleEndian ?d [19, -1, 12] 2 5 (replicate 46 0) = Inr dt'"
    and i: "\<forall>s x bitC. s \<le> 2 \<longrightarrow> [19, -1, 12 :: int] ! s \<noteq> 0 \<longrightarrow> 2 ^ 5 \<le> x \<longrightarrow> x < 2 * 2 ^ 5 \<longrightarrow>
         (let (bitC', st') = FSE_encodeSymbol bitC ((FSE_initCState ct')\<lparr>cs_value := x\<rparr>) s;
              d = dt_table dt' ! (cs_value st' - 2 ^ 5)
          in 2 ^ 5 \<le> cs_value st' \<and> cs_value st' < 2 * 2 ^ 5
             \<and> symbol d = s \<and> nbBits d \<le> 5 \<and> bitC' = BIT_addBits bitC (of_nat x) (nbBits d)
             \<and> newState d + x mod 2 ^ nbBits d = x - 2 ^ 5)"
    using fse_tables_inverse[OF n, of "replicate 80 0" ?c "replicate 46 0" ?d BigEndian LittleEndian]
    by (auto simp: FSE_BUILD_DTABLE_WKSP_SIZE_def)
  have "let (bitC', st') = FSE_encodeSymbol bitC ((FSE_initCState ct')\<lparr>cs_value := 40\<rparr>) 2
        in symbol (dt_table dt' ! (cs_value st' - 32)) = 2" for bitC
    using i[rule_format, of 2 40 bitC] by (simp add: Let_def split: prod.splits)
  with b show ?thesis by blast
qed

end
