(* ===== verification/Zstd_FSE_Stream.thy ===== *)
theory Zstd_FSE_Stream
  imports Zstd_FSE
begin

section \<open>Finite State Entropy: byte streams\<close>

text \<open>
  Compression and decompression of a byte string with given tables
  (\<^verbatim>\<open>FSE_compress_usingCTable\<close> in \<^verbatim>\<open>compress/fse_compress.c\<close>,
  \<^verbatim>\<open>FSE_decompress_usingDTable_generic\<close> in \<^verbatim>\<open>common/fse_decompress.c\<close>), with two
  interleaved states, on a 64-bit register: the tests marked static in the source are decided
  (\<open>64 > 12 * 4 + 7\<close>).  A pointer into the source that is decremented before each read is the
  number of bytes before it; the bytes written to the destination of the decoder are a list.

  The theory shows the round trip: the decoder returns the bytes the encoder read, and stops at
  the right symbol although the number of symbols is not transmitted.
\<close>

subsection \<open>Compression\<close>

definition FSE_FLUSHBITS :: "bool \<Rightarrow> BIT_CStream_t \<Rightarrow> BIT_CStream_t" where
  "FSE_FLUSHBITS fast bitC = (if fast then BIT_flushBitsFast bitC else BIT_flushBits bitC)"

fun FSE_compress_loop ::
  "bool \<Rightarrow> buffer \<Rightarrow> nat \<Rightarrow> BIT_CStream_t \<times> FSE_CState_t \<times> FSE_CState_t
    \<Rightarrow> BIT_CStream_t \<times> FSE_CState_t \<times> FSE_CState_t" where
  "FSE_compress_loop fast src ip (bitC, CState1, CState2) =
     (if ip > 0 then
        let (bitC, CState2) = FSE_encodeSymbol bitC CState2 (unat (src ! (ip - 1)));
            (bitC, CState1) = FSE_encodeSymbol bitC CState1 (unat (src ! (ip - 2)));
            (bitC, CState2) = FSE_encodeSymbol bitC CState2 (unat (src ! (ip - 3)));
            (bitC, CState1) = FSE_encodeSymbol bitC CState1 (unat (src ! (ip - 4)))
        in FSE_compress_loop fast src (ip - 4) (FSE_FLUSHBITS fast bitC, CState1, CState2)
      else (bitC, CState1, CState2))"

text \<open>The initial states and the first symbol of a source of odd length; the two symbols that
  leave a multiple of four.\<close>

definition FSE_compress_first ::
  "bool \<Rightarrow> FSE_CTable \<Rightarrow> buffer \<Rightarrow> BIT_CStream_t \<Rightarrow> nat \<times> BIT_CStream_t \<times> FSE_CState_t \<times> FSE_CState_t" where
  "FSE_compress_first fast ct src bitC =
     (let srcSize = length src in
      if odd srcSize then
        let CState1 = FSE_initCState2 ct (unat (src ! (srcSize - 1)));
            CState2 = FSE_initCState2 ct (unat (src ! (srcSize - 2)));
            (bitC, CState1) = FSE_encodeSymbol bitC CState1 (unat (src ! (srcSize - 3)))
        in (srcSize - 3, FSE_FLUSHBITS fast bitC, CState1, CState2)
      else
        let CState2 = FSE_initCState2 ct (unat (src ! (srcSize - 1)));
            CState1 = FSE_initCState2 ct (unat (src ! (srcSize - 2)))
        in (srcSize - 2, bitC, CState1, CState2))"

definition FSE_compress_join ::
  "bool \<Rightarrow> buffer \<Rightarrow> nat \<times> BIT_CStream_t \<times> FSE_CState_t \<times> FSE_CState_t
    \<Rightarrow> nat \<times> BIT_CStream_t \<times> FSE_CState_t \<times> FSE_CState_t" where
  "FSE_compress_join fast src st =
     (let (ip, bitC, CState1, CState2) = st in
      if (length src - 2) AND 2 \<noteq> 0 then
        let (bitC, CState2) = FSE_encodeSymbol bitC CState2 (unat (src ! (ip - 1)));
            (bitC, CState1) = FSE_encodeSymbol bitC CState1 (unat (src ! (ip - 2)))
        in (ip - 2, FSE_FLUSHBITS fast bitC, CState1, CState2)
      else st)"

definition FSE_compress_usingCTable_generic ::
  "buffer \<Rightarrow> nat \<Rightarrow> buffer \<Rightarrow> FSE_CTable \<Rightarrow> bool \<Rightarrow> nat \<times> buffer" where
  "FSE_compress_usingCTable_generic dst dstSize src ct fast =
     (if length src \<le> 2 then (0, dst)
      else case BIT_initCStream dst dstSize of Inl e \<Rightarrow> (0, dst)
      | Inr bitC \<Rightarrow>
          let (ip, st) = FSE_compress_join fast src (FSE_compress_first fast ct src bitC);
              (bitC, CState1, CState2) = FSE_compress_loop fast src ip st;
              bitC = FSE_flushCState bitC CState2;
              bitC = FSE_flushCState bitC CState1;
              (n, bitC) = BIT_closeCStream bitC
          in (n, c_mem bitC))"

definition FSE_BLOCKBOUND :: "nat \<Rightarrow> nat" where
  "FSE_BLOCKBOUND n = n + n div 2 ^ 7 + 4 + 8"

definition FSE_compress_usingCTable :: "buffer \<Rightarrow> nat \<Rightarrow> buffer \<Rightarrow> FSE_CTable \<Rightarrow> nat \<times> buffer" where
  "FSE_compress_usingCTable dst dstSize src ct =
     (if dstSize \<ge> FSE_BLOCKBOUND (length src)
      then FSE_compress_usingCTable_generic dst dstSize src ct True
      else FSE_compress_usingCTable_generic dst dstSize src ct False)"

subsection \<open>Decompression\<close>

definition FSE_GETSYMBOL :: "bool \<Rightarrow> FSE_DState_t \<Rightarrow> BIT_DStream_t \<Rightarrow> nat \<times> FSE_DState_t \<times> BIT_DStream_t" where
  "FSE_GETSYMBOL fast st bitD = (if fast then FSE_decodeSymbolFast st bitD else FSE_decodeSymbol st bitD)"

function FSE_decompress_loop4 ::
  "bool \<Rightarrow> nat \<Rightarrow> BIT_DStream_t \<times> FSE_DState_t \<times> FSE_DState_t \<times> nat list
    \<Rightarrow> BIT_DStream_t \<times> FSE_DState_t \<times> FSE_DState_t \<times> nat list" where
  "FSE_decompress_loop4 fast maxDstSize (bitD, state1, state2, out) =
     (let (status, bitD) = BIT_reloadDStream bitD in
      if status = BIT_DStream_unfinished \<and> length out + 3 < maxDstSize then
        let (o0, state1, bitD) = FSE_GETSYMBOL fast state1 bitD;
            (o1, state2, bitD) = FSE_GETSYMBOL fast state2 bitD;
            (o2, state1, bitD) = FSE_GETSYMBOL fast state1 bitD;
            (o3, state2, bitD) = FSE_GETSYMBOL fast state2 bitD
        in FSE_decompress_loop4 fast maxDstSize (bitD, state1, state2, out @ [o0, o1, o2, o3])
      else (bitD, state1, state2, out))"
  by pat_completeness auto
termination by (relation "measure (\<lambda>(fast, m, bitD, s1, s2, out). m - length out)") auto

function FSE_decompress_tail ::
  "bool \<Rightarrow> nat \<Rightarrow> BIT_DStream_t \<Rightarrow> FSE_DState_t \<Rightarrow> FSE_DState_t \<Rightarrow> nat list \<Rightarrow> ZSTD_ErrorCode + nat list" where
  "FSE_decompress_tail fast maxDstSize bitD state1 state2 out =
     (if length out + 2 > maxDstSize then Inl ZSTD_error_dstSize_tooSmall
      else
        let (s, state1, bitD) = FSE_GETSYMBOL fast state1 bitD;
            out = out @ [s];
            (status, bitD) = BIT_reloadDStream bitD
        in if status = BIT_DStream_overflow then
             let (s, state2, bitD) = FSE_GETSYMBOL fast state2 bitD in Inr (out @ [s])
           else if length out + 2 > maxDstSize then Inl ZSTD_error_dstSize_tooSmall
           else
             let (s, state2, bitD) = FSE_GETSYMBOL fast state2 bitD;
                 out = out @ [s];
                 (status, bitD) = BIT_reloadDStream bitD
             in if status = BIT_DStream_overflow then
                  let (s, state1, bitD) = FSE_GETSYMBOL fast state1 bitD in Inr (out @ [s])
                else FSE_decompress_tail fast maxDstSize bitD state1 state2 out)"
  by pat_completeness auto
termination by (relation "measure (\<lambda>(fast, m, bitD, s1, s2, out). m - length out)") auto

definition FSE_decompress_usingDTable_generic ::
  "nat \<Rightarrow> buffer \<Rightarrow> FSE_DTable \<Rightarrow> bool \<Rightarrow> ZSTD_ErrorCode + nat list" where
  "FSE_decompress_usingDTable_generic maxDstSize cSrc dt fast =
     bindE (BIT_initDStream cSrc) (\<lambda>bitD.
       let (state1, bitD) = FSE_initDState bitD dt;
           (state2, bitD) = FSE_initDState bitD dt;
           (status, bitD) = BIT_reloadDStream bitD
       in if status = BIT_DStream_overflow then Inl ZSTD_error_corruption_detected
          else let (bitD, state1, state2, out) =
                     FSE_decompress_loop4 fast maxDstSize (bitD, state1, state2, [])
               in FSE_decompress_tail fast maxDstSize bitD state1 state2 out)"

subsection \<open>Streams of bit fields\<close>

fun fval :: "(nat \<times> nat) list \<Rightarrow> nat" where
  "fval [] = 0"
| "fval ((v, nb) # fs) = v mod 2 ^ nb + 2 ^ nb * fval fs"

definition flen :: "(nat \<times> nat) list \<Rightarrow> nat" where
  "flen fs = sum_list (map snd fs)"

lemma flen_simps [simp]: "flen [] = 0" "flen ((v, nb) # fs) = nb + flen fs" "flen (fs @ gs) = flen fs + flen gs"
  by (simp_all add: flen_def)

lemma fval_snoc: "fval (fs @ [(v, nb)]) = fval fs + 2 ^ flen fs * (v mod 2 ^ nb)"
  by (induction fs rule: fval.induct) (simp_all add: power_add algebra_simps)

lemma fval_append: "fval (fs @ gs) = fval fs + 2 ^ flen fs * fval gs"
  by (induction fs rule: fval.induct) (simp_all add: power_add algebra_simps)

lemma fval_bound: "fval fs < 2 ^ flen fs"
proof (induction fs rule: fval.induct)
  case (2 v nb fs)
  have "2 ^ nb * fval fs + 2 ^ nb \<le> 2 ^ nb * (2::nat) ^ flen fs"
    using mult_le_mono2[of "Suc (fval fs)" "2 ^ flen fs" "2 ^ nb"] 2 by simp
  moreover have "v mod 2 ^ nb < 2 ^ nb" by simp
  ultimately have "v mod 2 ^ nb + 2 ^ nb * fval fs < 2 ^ nb * 2 ^ flen fs" by linarith
  then show ?case by (simp add: power_add)
qed simp

text \<open>The writer holds the fields \<open>fs\<close>, at most \<open>k\<close> bits of them in its register.\<close>

definition cst :: "nat \<Rightarrow> (nat \<times> nat) list \<Rightarrow> nat \<Rightarrow> BIT_CStream_t \<Rightarrow> bool" where
  "cst E fs k c \<longleftrightarrow> c_inv c \<and> c_endPtr c = E \<and> c_val c = fval fs \<and> c_len c = flen fs \<and> c_bitPos c \<le> k"

lemma cst_add:
  assumes "cst E fs k c" "nb < 32" "k + nb < 64" "x < 2 ^ 64"
  shows "cst E (fs @ [(x, nb)]) (k + nb) (BIT_addBits c (of_nat x) nb)"
proof -
  have c: "c_inv c" "c_bitPos c + nb < 64" using assms by (auto simp: cst_def)
  have "unat (of_nat x :: U64) = x" using assms(4) by (simp add: unat_of_nat)
  moreover have "c_endPtr (BIT_addBits c (of_nat x) nb) = c_endPtr c" "c_bitPos (BIT_addBits c (of_nat x) nb) = c_bitPos c + nb"
    by (simp_all add: BIT_addBits_def)
  ultimately show ?thesis
    using addBits_spec[OF c(1) assms(2) c(2), of "of_nat x"] assms(1) by (simp add: cst_def fval_snoc)
qed

lemma cst_room:
  assumes "cst E fs k c" "flen fs \<le> 8 * E + 7"
  shows "c_ptr c + c_bitPos c div 8 \<le> c_endPtr c"
  using assms by (auto simp: cst_def c_len_def)

lemma flushBitsFast_eq:
  "c_ptr c + c_bitPos c div 8 \<le> c_endPtr c \<Longrightarrow> BIT_flushBitsFast c = BIT_flushBits c"
  by (simp add: BIT_flushBitsFast_def BIT_flushBits_def Let_def)

lemma cst_flush:
  assumes "cst E fs k c" "flen fs \<le> 8 * E + 7"
  shows "cst E fs 7 (FSE_FLUSHBITS fast c)"
proof -
  note r = cst_room[OF assms]
  have "c_inv c" using assms by (simp add: cst_def)
  from flush_spec[OF this r] flushBitsFast_eq[OF r] assms(1) show ?thesis
    by (auto simp: FSE_FLUSHBITS_def cst_def)
qed

text \<open>The reader has the fields \<open>fs\<close> in front of it.\<close>

definition dst :: "(nat \<times> nat) list \<Rightarrow> BIT_DStream_t \<Rightarrow> bool" where
  "dst fs d \<longleftrightarrow> d_inv d \<and> d_len d = flen fs \<and> d_val d = fval fs"

definition room :: "nat \<Rightarrow> BIT_DStream_t \<Rightarrow> bool" where
  "room b d \<longleftrightarrow> d_pos d = 0 \<or> d_bitsConsumed d + b \<le> 64"

lemma dst_consumed:
  assumes "dst (fs @ [(v, nb)]) d" "room b d" "nb \<le> b"
  shows "d_bitsConsumed d + nb \<le> 64"
proof (cases "d_pos d = 0")
  case True
  have "nb \<le> d_len d" "d_inv d" using assms(1) by (auto simp: dst_def)
  then show ?thesis using True d_len_eq[of d] by (auto simp: d_inv_def)
qed (use assms in \<open>auto simp: room_def\<close>)

lemma dst_read:
  assumes "dst (fs @ [(v, nb)]) d" "room b d" "nb \<le> b" "nb < 64"
  shows "unat (fst (BIT_readBits d nb)) = v mod 2 ^ nb" "dst fs (snd (BIT_readBits d nb))"
    "room (b - nb) (snd (BIT_readBits d nb))"
proof -
  have d: "d_inv d" "d_len d = flen fs + nb" "d_val d = fval fs + 2 ^ flen fs * (v mod 2 ^ nb)"
    using assms(1) by (simp_all add: dst_def fval_snoc)
  note rs = readBits_spec[OF d(1) dst_consumed[OF assms(1-3)] assms(4)]
  have fb: "fval fs < 2 ^ flen fs" by (rule fval_bound)
  show "unat (fst (BIT_readBits d nb)) = v mod 2 ^ nb" using rs(1) d(2,3) fb by simp
  show "dst fs (snd (BIT_readBits d nb))" using rs(2-4) d(2,3) fb by (simp add: dst_def)
  show "room (b - nb) (snd (BIT_readBits d nb))"
    using assms(2,3) by (auto simp: room_def BIT_readBits_def BIT_skipBits_def d_pos_def)
qed

lemma dst_reload:
  assumes "dst fs d"
  shows "dst fs (snd (BIT_reloadDStream d))" "room 56 (snd (BIT_reloadDStream d))"
    "fst (BIT_reloadDStream d) \<noteq> BIT_DStream_overflow"
    "fst (BIT_reloadDStream d) = BIT_DStream_unfinished \<Longrightarrow> 57 \<le> flen fs \<and> d_bitsConsumed (snd (BIT_reloadDStream d)) < 8"
proof -
  have d: "d_inv d" using assms by (simp add: dst_def)
  note rl = reload_spec[OF d]
  have "d_val (snd (BIT_reloadDStream d)) = d_val d" by (simp only: d_val_def rl(2,3))
  then show "dst fs (snd (BIT_reloadDStream d))" using assms rl(1,2) by (simp only: dst_def)
  show "room 56 (snd (BIT_reloadDStream d))" using rl(4) by (auto simp: room_def)
  show "fst (BIT_reloadDStream d) \<noteq> BIT_DStream_overflow" by (rule rl(6))
  assume "fst (BIT_reloadDStream d) = BIT_DStream_unfinished"
  from rl(5)[OF this] rl(2) assms show "57 \<le> flen fs \<and> d_bitsConsumed (snd (BIT_reloadDStream d)) < 8"
    by (simp add: d_len_def dst_def)
qed

subsection \<open>Two interleaved states\<close>

text \<open>
  The encoder at work on a suffix of the source: the value of the state that encoded its first
  symbol, the value of the other state, and the bit fields written so far.  The last two symbols
  are the initial states.
\<close>

fun fse_enc :: "FSE_CTable \<Rightarrow> nat list \<Rightarrow> nat \<times> nat \<times> (nat \<times> nat) list" where
  "fse_enc ct (a # b # c # ss) =
     (let (x, y, fs) = fse_enc ct (b # c # ss);
          (nb, y') = enc_step (ct_tableU16 ct) (ct_symbolTT ct) a y
      in (y', x, fs @ [(y, nb)]))"
| "fse_enc ct [a, b] = (cs_value (FSE_initCState2 ct a), cs_value (FSE_initCState2 ct b), [])"
| "fse_enc ct _ = (0, 0, [])"

text \<open>A pair of tables for a text: tables that fit, for its symbols, and initial states that
  decode with at least one bit.\<close>

definition fse_text :: "nat \<Rightarrow> FSE_CTable \<Rightarrow> FSE_DTable \<Rightarrow> nat list \<Rightarrow> bool" where
  "fse_text tableLog ct dt ss \<longleftrightarrow> fse_pair tableLog (\<lambda>s. s \<in> set ss) ct dt
     \<and> (\<forall>s\<in>set ss. let x = cs_value (FSE_initCState2 ct s); d = dt_table dt ! (x - 2 ^ tableLog)
          in 2 ^ tableLog \<le> x \<and> x < 2 * 2 ^ tableLog \<and> symbol d = s \<and> 1 \<le> nbBits d \<and> nbBits d \<le> tableLog)"

lemma fse_enc_Cons:
  "2 \<le> length r \<Longrightarrow> fse_enc ct (a # r) =
     (let (x, y, fs) = fse_enc ct r; (nb, y') = enc_step (ct_tableU16 ct) (ct_symbolTT ct) a y
      in (y', x, fs @ [(y, nb)]))"
  by (cases r; cases "tl r") auto

lemma fse_enc_range:
  assumes t: "fse_text tableLog ct dt ts"
  shows "2 \<le> length ss \<Longrightarrow> set ss \<subseteq> set ts \<Longrightarrow> fse_enc ct ss = (x, y, fs) \<Longrightarrow>
    2 ^ tableLog \<le> x \<and> x < 2 * 2 ^ tableLog \<and> 2 ^ tableLog \<le> y \<and> y < 2 * 2 ^ tableLog
    \<and> flen fs \<le> tableLog * (length ss - 2)"
proof (induction ss arbitrary: x y fs)
  case (Cons a r)
  show ?case
  proof (cases "2 \<le> length r")
    case True
    obtain x0 y0 fs0 where r: "fse_enc ct r = (x0, y0, fs0)" by (cases "fse_enc ct r")
    obtain nb x' where e: "enc_step (ct_tableU16 ct) (ct_symbolTT ct) a y0 = (nb, x')" by fastforce
    have eq: "x = x'" "y = x0" "fs = fs0 @ [(y0, nb)]" using Cons.prems(3) r e True by (auto simp: fse_enc_Cons)
    have ih: "2 ^ tableLog \<le> x0" "x0 < 2 * 2 ^ tableLog" "2 ^ tableLog \<le> y0" "y0 < 2 * 2 ^ tableLog"
        "flen fs0 \<le> tableLog * (length r - 2)"
      using Cons.IH[OF True _ r] Cons.prems(2) by auto
    have p: "fse_pair tableLog (\<lambda>s. s \<in> set ts) ct dt" "a \<in> set ts" using t Cons.prems(2) by (auto simp: fse_text_def)
    note q = fse_pairD[OF p ih(3,4) e]
    have "tableLog * (length (a # r) - 2) = tableLog * (length r - 2) + tableLog"
      using True by (cases "length r"; cases "length r - 1") auto
    then show ?thesis using ih q eq by simp
  next
    case False
    then obtain b where "r = [b]" using Cons.prems(1) by (cases r; cases "tl r") auto
    then show ?thesis using Cons.prems(2,3) t by (auto simp: fse_text_def Let_def)
  qed
qed simp

lemma fse_enc_range_drop:
  assumes "fse_text tableLog ct dt ss" "ip + 2 \<le> length ss" "fse_enc ct (drop ip ss) = (x, y, fs)"
  shows "2 ^ tableLog \<le> x" "x < 2 * 2 ^ tableLog" "2 ^ tableLog \<le> y" "y < 2 * 2 ^ tableLog"
    "flen fs \<le> tableLog * (length ss - ip - 2)"
proof -
  have "2 \<le> length (drop ip ss)" using assms(2) by simp
  from fse_enc_range[OF assms(1) this set_drop_subset assms(3)]
  show "2 ^ tableLog \<le> x" "x < 2 * 2 ^ tableLog" "2 ^ tableLog \<le> y" "y < 2 * 2 ^ tableLog"
    "flen fs \<le> tableLog * (length ss - ip - 2)" by simp_all
qed

lemma fse_dec_step:
  assumes t: "fse_text tableLog ct dt ts" and r2: "2 \<le> length r" and s: "set (a # r) \<subseteq> set ts"
    and e: "fse_enc ct (a # r) = (x, y, fs)" "fse_enc ct r = (x0, y0, fs0)"
  defines "d \<equiv> dt_table dt ! (x - 2 ^ tableLog)"
  shows "symbol d = a" "nbBits d \<le> tableLog" "y = x0" "fs = fs0 @ [(y0, nbBits d)]"
    "newState d + y0 mod 2 ^ nbBits d = y0 - 2 ^ tableLog"
proof -
  obtain nb x' where es: "enc_step (ct_tableU16 ct) (ct_symbolTT ct) a y0 = (nb, x')" by fastforce
  have eq: "x = x'" "y = x0" "fs = fs0 @ [(y0, nb)]" using e es r2 by (auto simp: fse_enc_Cons)
  have ih: "2 ^ tableLog \<le> y0" "y0 < 2 * 2 ^ tableLog" using fse_enc_range[OF t r2 _ e(2)] s by auto
  have p: "fse_pair tableLog (\<lambda>s. s \<in> set ts) ct dt" "a \<in> set ts" using t s by (auto simp: fse_text_def)
  from fse_pairD[OF p ih es] eq show "symbol d = a" "nbBits d \<le> tableLog" "y = x0" "fs = fs0 @ [(y0, nbBits d)]"
    "newState d + y0 mod 2 ^ nbBits d = y0 - 2 ^ tableLog" unfolding d_def by auto
qed

subsection \<open>The encoder\<close>

text \<open>The encoder has processed the source from position \<open>ip\<close>, an even one, on.\<close>

definition cstate :: "FSE_CTable \<Rightarrow> nat \<Rightarrow> FSE_CState_t" where
  "cstate ct x = (FSE_initCState ct)\<lparr>cs_value := x\<rparr>"

definition enc_at ::
  "FSE_CTable \<Rightarrow> nat list \<Rightarrow> nat \<Rightarrow> nat \<Rightarrow> nat \<Rightarrow> BIT_CStream_t \<Rightarrow> FSE_CState_t \<Rightarrow> FSE_CState_t \<Rightarrow> bool" where
  "enc_at ct ss E ip k bitC cur other \<longleftrightarrow> (\<exists>x y fs. fse_enc ct (drop ip ss) = (x, y, fs)
     \<and> cst E fs k bitC \<and> cur = cstate ct x \<and> other = cstate ct y)"

lemma initCState2_cstate: "FSE_initCState2 ct s = cstate ct (cs_value (FSE_initCState2 ct s))"
  by (simp add: FSE_initCState2_def cstate_def FSE_initCState_def Let_def)

lemma enc_at_step:
  assumes t: "fse_text tableLog ct dt ss" and a: "enc_at ct ss E ip k bitC cur other"
    and ip: "1 \<le> ip" "ip + 2 \<le> length ss" and k: "k + tableLog < 64"
  shows "\<exists>bitC' other'. FSE_encodeSymbol bitC other (ss ! (ip - 1)) = (bitC', other')
    \<and> enc_at ct ss E (ip - 1) (k + tableLog) bitC' other' cur"
proof -
  obtain x y fs where r: "fse_enc ct (drop ip ss) = (x, y, fs)" "cst E fs k bitC" "cur = cstate ct x" "other = cstate ct y"
    using a by (auto simp: enc_at_def)
  obtain nb x' where e: "enc_step (ct_tableU16 ct) (ct_symbolTT ct) (ss ! (ip - 1)) y = (nb, x')" by fastforce
  have dr: "drop (ip - 1) ss = ss ! (ip - 1) # drop ip ss"
    using ip by (metis Cons_nth_drop_Suc Suc_diff_1 add_leD1 diff_less le_eq_less_or_eq less_le_trans less_numeral_extra(1) zero_less_one One_nat_def Suc_le_eq)
  have rng: "2 ^ tableLog \<le> y" "y < 2 * 2 ^ tableLog"
    using fse_enc_range_drop[OF t ip(2) r(1)] by auto
  have p: "fse_pair tableLog (\<lambda>s. s \<in> set ss) ct dt" "ss ! (ip - 1) \<in> set ss" and tl: "tableLog \<le> 12"
    using t ip by (auto simp: fse_text_def fse_pair_def)
  note q = fse_pairD[OF p rng e]
  have "2 * 2 ^ tableLog \<le> (2::nat) ^ 13" using pow_le_8192[OF tl] by simp
  then have y64: "y < 2 ^ 64" using rng(2) by simp
  have "cst E (fs @ [(y, nb)]) (k + nb) (BIT_addBits bitC (of_nat y) nb)"
    using cst_add[OF r(2) _ _ y64, of nb] q(1) tl k by simp
  then have "cst E (fs @ [(y, nb)]) (k + tableLog) (BIT_addBits bitC (of_nat y) nb)"
    using q(1) by (auto simp: cst_def)
  moreover have "fse_enc ct (drop (ip - 1) ss) = (x', x, fs @ [(y, nb)])"
    using r(1) e ip unfolding dr by (subst fse_enc_Cons) auto
  moreover have "FSE_encodeSymbol bitC other (ss ! (ip - 1)) = (BIT_addBits bitC (of_nat y) nb, cstate ct x')"
    unfolding FSE_encodeSymbol_step using e r(4) by (simp add: cstate_def FSE_initCState_def)
  ultimately show ?thesis using r(3) by (auto simp: enc_at_def)
qed

lemma enc_at_flush:
  assumes t: "fse_text tableLog ct dt ss" and a: "enc_at ct ss E ip k bitC cur other" and "ip + 2 \<le> length ss"
    and E: "tableLog * length ss \<le> 8 * E + 7"
  shows "enc_at ct ss E ip 7 (FSE_FLUSHBITS fast bitC) cur other"
proof -
  obtain x y fs where r: "fse_enc ct (drop ip ss) = (x, y, fs)" "cst E fs k bitC" "cur = cstate ct x" "other = cstate ct y"
    using a by (auto simp: enc_at_def)
  have "flen fs \<le> tableLog * (length ss - ip - 2)" by (rule fse_enc_range_drop[OF t assms(3) r(1)])
  also have "\<dots> \<le> tableLog * length ss" by simp
  finally have "cst E fs 7 (FSE_FLUSHBITS fast bitC)" using cst_flush[OF r(2)] E by simp
  then show ?thesis using r by (auto simp: enc_at_def)
qed

lemma enc_at_pair:
  assumes t: "fse_text tableLog ct dt ss" and a: "enc_at ct ss E ip k bitC CState1 CState2"
    and ip: "2 \<le> ip" "ip + 2 \<le> length ss" and k: "k + 2 * tableLog < 64"
  shows "\<exists>bitC1 bitC' CState1' CState2'. FSE_encodeSymbol bitC CState2 (ss ! (ip - 1)) = (bitC1, CState2')
    \<and> FSE_encodeSymbol bitC1 CState1 (ss ! (ip - 2)) = (bitC', CState1')
    \<and> enc_at ct ss E (ip - 2) (k + 2 * tableLog) bitC' CState1' CState2'"
proof -
  obtain bitC1 CState2' where 1: "FSE_encodeSymbol bitC CState2 (ss ! (ip - 1)) = (bitC1, CState2')"
      "enc_at ct ss E (ip - 1) (k + tableLog) bitC1 CState2' CState1"
    using enc_at_step[OF t a] ip k by auto
  have "1 \<le> ip - 1" "ip - 1 + 2 \<le> length ss" "k + tableLog + tableLog < 64" using ip k by auto
  from enc_at_step[OF t 1(2) this]
  obtain bitC' CState1' where "FSE_encodeSymbol bitC1 CState1 (ss ! (ip - 1 - 1)) = (bitC', CState1')"
      "enc_at ct ss E (ip - 1 - 1) (k + tableLog + tableLog) bitC' CState1' CState2'" by blast
  moreover have "ip - 1 - 1 = ip - 2" "k + tableLog + tableLog = k + 2 * tableLog" by auto
  ultimately show ?thesis using 1(1) by (metis (no_types))
qed

lemma FSE_compress_loop_spec:
  assumes t: "fse_text tableLog ct dt (map unat src)" and E: "tableLog * length src \<le> 8 * E + 7"
  shows "enc_at ct (map unat src) E ip 7 bitC CState1 CState2 \<Longrightarrow> 4 dvd ip \<Longrightarrow> ip + 2 \<le> length src \<Longrightarrow>
    \<exists>bitC' CState1' CState2'. FSE_compress_loop fast src ip (bitC, CState1, CState2) = (bitC', CState1', CState2')
      \<and> enc_at ct (map unat src) E 0 7 bitC' CState1' CState2'"
proof (induction ip arbitrary: bitC CState1 CState2 rule: less_induct)
  case (less ip)
  show ?case
  proof (cases "ip = 0")
    case True
    then show ?thesis using less.prems(1) by simp
  next
    case False
    then have ip: "4 \<le> ip" using less.prems(2) by (metis dvd_imp_le neq0_conv)
    have tl: "tableLog \<le> 12" using t by (simp add: fse_text_def fse_pair_def)
    have nth: "map unat src ! (ip - j) = unat (src ! (ip - j))" if "1 \<le> j" for j
      using that ip less.prems(3) by (intro nth_map) simp
    have p1: "2 \<le> ip" "ip + 2 \<le> length (map unat src)" "7 + 2 * tableLog < 64"
      and p2: "2 \<le> ip - 2" "ip - 2 + 2 \<le> length (map unat src)" "7 + 2 * tableLog + 2 * tableLog < 64"
      and p3: "ip - 2 - 2 + 2 \<le> length (map unat src)"
      using ip less.prems(3) tl by auto
    obtain b1 b2 s1 s2 where 1: "FSE_encodeSymbol bitC CState2 (map unat src ! (ip - 1)) = (b1, s2)"
        "FSE_encodeSymbol b1 CState1 (map unat src ! (ip - 2)) = (b2, s1)"
        "enc_at ct (map unat src) E (ip - 2) (7 + 2 * tableLog) b2 s1 s2"
      using enc_at_pair[OF t less.prems(1) p1] by blast
    obtain b3 b4 s3 s4 where 2: "FSE_encodeSymbol b2 s2 (map unat src ! (ip - 2 - 1)) = (b3, s4)"
        "FSE_encodeSymbol b3 s1 (map unat src ! (ip - 2 - 2)) = (b4, s3)"
        "enc_at ct (map unat src) E (ip - 2 - 2) (7 + 2 * tableLog + 2 * tableLog) b4 s3 s4"
      using enc_at_pair[OF t 1(3) p2] by blast
    have i: "ip - 2 - 1 = ip - 3" "ip - 2 - 2 = ip - 4" by auto
    have f: "enc_at ct (map unat src) E (ip - 4) 7 (FSE_FLUSHBITS fast b4) s3 s4"
      using enc_at_flush[OF t 2(3) p3] E by (simp add: i)
    have "FSE_compress_loop fast src ip (bitC, CState1, CState2) =
        FSE_compress_loop fast src (ip - 4) (FSE_FLUSHBITS fast b4, s3, s4)"
      using ip 1(1,2) 2(1,2) nth[of 1] nth[of 2] nth[of 3] nth[of 4] unfolding i by simp
    moreover have "4 dvd ip - 4" "ip - 4 < ip" "ip - 4 + 2 \<le> length src"
      using less.prems(2,3) ip by (simp_all add: dvd_diff_nat)
    ultimately show ?thesis using less.IH[OF _ f] by simp
  qed
qed

text \<open>The bytes of a stream of fields, with the end mark.\<close>

definition field_bytes :: "(nat \<times> nat) list \<Rightarrow> buffer" where
  "field_bytes fs = le_bytes (flen fs div 8 + 1) (fval fs + 2 ^ flen fs)"

lemma FSE_flushCState_cst:
  assumes "cst E fs 7 bitC" "ct_tableLog ct = tableLog" "tableLog \<le> 12" "x < 2 * 2 ^ tableLog"
    and "flen fs + tableLog \<le> 8 * E + 7"
  shows "cst E (fs @ [(x, tableLog)]) 7 (FSE_flushCState bitC (cstate ct x))"
proof -
  have "2 * 2 ^ tableLog \<le> (8192::nat)" using pow_le_8192[OF assms(3)] by simp
  then have "x < 2 ^ 64" using assms(4) by simp
  then have "cst E (fs @ [(x, tableLog)]) (7 + tableLog) (BIT_addBits bitC (of_nat x) tableLog)"
    using assms(1,3) by (intro cst_add) auto
  from cst_flush[OF this, of False] assms(2,5) show ?thesis
    by (simp add: FSE_flushCState_def cstate_def FSE_initCState_def FSE_FLUSHBITS_def)
qed

lemma cst_close:
  assumes "cst E fs 7 bitC" "(flen fs + 1) div 8 < E"
  shows "\<exists>bitC'. BIT_closeCStream bitC = (flen fs div 8 + 1, bitC') \<and> take (flen fs div 8 + 1) (c_mem bitC') = field_bytes fs"
proof -
  obtain n bitC' where c: "BIT_closeCStream bitC = (n, bitC')" by fastforce
  have "c_inv bitC" "c_bitPos bitC < 63" using assms(1) by (auto simp: cst_def)
  from close_spec[OF this] c assms show ?thesis
    by (auto simp: cst_def field_bytes_def Let_def simp del: le_bytes.simps)
qed

lemma init_cst:
  assumes "8 < dstSize" "dstSize \<le> length buf"
  shows "\<exists>bitC. BIT_initCStream buf dstSize = Inr bitC \<and> cst (dstSize - 8) [] 7 bitC"
  using assms by (simp add: BIT_initCStream_def cst_def c_inv_def c_val_def c_len_def)

lemma enc_at_start:
  assumes "2 \<le> length ss" "cst E [] 7 bitC"
  shows "enc_at ct ss E (length ss - 2) 7 bitC (FSE_initCState2 ct (ss ! (length ss - 2)))
    (FSE_initCState2 ct (ss ! (length ss - 1)))"
proof -
  have "drop (length ss - 2) ss = [ss ! (length ss - 2), ss ! (length ss - 1)]"
    using assms(1) by (intro nth_equalityI) (auto simp: less_2_cases_iff)
  then show ?thesis using assms(2) initCState2_cstate
    by (auto simp: enc_at_def intro!: exI[of _ "[]"] )
qed

lemma and_2_iff: "n AND 2 = 0 \<longleftrightarrow> even (n div 2)" for n :: nat
proof -
  have "n AND 2 = 2 * (n div 2 AND 1) + (n mod 2) * 0"
    by (subst and_rec[of n 2]) (simp add: one_and_eq)
  then show ?thesis by (simp add: and_one_eq even_iff_mod_2_eq_zero)
qed

lemma FSE_compress_first_spec:
  assumes t: "fse_text tableLog ct dt (map unat src)" and E: "tableLog * length src \<le> 8 * E + 7"
    and n: "3 \<le> length src" and c: "cst E [] 7 bitC"
  shows "\<exists>ip bitC' CState1 CState2. FSE_compress_first fast ct src bitC = (ip, bitC', CState1, CState2)
    \<and> ip = 2 * ((length src - 2) div 2) \<and> enc_at ct (map unat src) E ip 7 bitC' CState1 CState2"
proof -
  let ?ss = "map unat src" and ?n = "length src"
  have nth: "?ss ! (?n - j) = unat (src ! (?n - j))" if "1 \<le> j" for j
    using that n by (intro nth_map) simp
  have st: "enc_at ct ?ss E (?n - 2) 7 bitC (FSE_initCState2 ct (?ss ! (?n - 2))) (FSE_initCState2 ct (?ss ! (?n - 1)))"
    using enc_at_start[of ?ss E bitC ct] n c by simp
  show ?thesis
  proof (cases "odd ?n")
    case True
    have tl: "tableLog \<le> 12" using t by (simp add: fse_text_def fse_pair_def)
    have "1 \<le> ?n - 2" "?n - 2 + 2 \<le> length ?ss" "7 + tableLog < 64" using n tl by auto
    from enc_at_step[OF t st this] obtain b s1 where
      b: "FSE_encodeSymbol bitC (FSE_initCState2 ct (?ss ! (?n - 1))) (?ss ! (?n - 2 - 1)) = (b, s1)"
      "enc_at ct ?ss E (?n - 2 - 1) (7 + tableLog) b s1 (FSE_initCState2 ct (?ss ! (?n - 2)))" by blast
    have i: "?n - 2 - 1 = ?n - 3" by simp
    have "enc_at ct ?ss E (?n - 3) 7 (FSE_FLUSHBITS fast b) s1 (FSE_initCState2 ct (?ss ! (?n - 2)))"
      using enc_at_flush[OF t b(2)] n E by (simp add: i)
    moreover have "?n - 3 = 2 * ((?n - 2) div 2)" using True n by (auto elim!: oddE)
    moreover have "FSE_compress_first fast ct src bitC = (?n - 3, FSE_FLUSHBITS fast b, s1, FSE_initCState2 ct (?ss ! (?n - 2)))"
      unfolding FSE_compress_first_def using True b(1)[unfolded i] nth[of 1] nth[of 2] nth[of 3]
      by (simp add: Let_def)
    ultimately show ?thesis by blast
  next
    case False
    then have "?n - 2 = 2 * ((?n - 2) div 2)" using n by (auto elim!: evenE)
    moreover have "FSE_compress_first fast ct src bitC = (?n - 2, bitC, FSE_initCState2 ct (?ss ! (?n - 2)), FSE_initCState2 ct (?ss ! (?n - 1)))"
      unfolding FSE_compress_first_def using False nth[of 1] nth[of 2] by (simp add: Let_def)
    ultimately show ?thesis using st by metis
  qed
qed

lemma FSE_compress_join_spec:
  assumes t: "fse_text tableLog ct dt (map unat src)" and E: "tableLog * length src \<le> 8 * E + 7"
    and ip: "ip = 2 * ((length src - 2) div 2)" "3 \<le> length src"
    and a: "enc_at ct (map unat src) E ip 7 bitC CState1 CState2"
  shows "\<exists>ip' bitC' CState1' CState2'.
    FSE_compress_join fast src (ip, bitC, CState1, CState2) = (ip', bitC', CState1', CState2')
    \<and> 4 dvd ip' \<and> ip' + 2 \<le> length src \<and> enc_at ct (map unat src) E ip' 7 bitC' CState1' CState2'"
proof (cases "odd ((length src - 2) div 2)")
  case True
  then obtain m where m: "(length src - 2) div 2 = 2 * m + 1" by (rule oddE)
  have len: "ip + 2 \<le> length src" using ip by linarith
  have tl: "tableLog \<le> 12" using t by (simp add: fse_text_def fse_pair_def)
  have p: "2 \<le> ip" "ip + 2 \<le> length (map unat src)" "7 + 2 * tableLog < 64" using m ip len tl by auto
  obtain b1 b2 s1 s2 where 1: "FSE_encodeSymbol bitC CState2 (map unat src ! (ip - 1)) = (b1, s2)"
      "FSE_encodeSymbol b1 CState1 (map unat src ! (ip - 2)) = (b2, s1)"
      "enc_at ct (map unat src) E (ip - 2) (7 + 2 * tableLog) b2 s1 s2"
    using enc_at_pair[OF t a p] by blast
  have "enc_at ct (map unat src) E (ip - 2) 7 (FSE_FLUSHBITS fast b2) s1 s2"
    using enc_at_flush[OF t 1(3)] E len p(1) by simp
  moreover have "FSE_compress_join fast src (ip, bitC, CState1, CState2) = (ip - 2, FSE_FLUSHBITS fast b2, s1, s2)"
    using True 1(1,2) p(1) len by (simp add: FSE_compress_join_def and_2_iff)
  moreover have "4 dvd ip - 2" using m ip by simp
  ultimately show ?thesis using len by (auto simp: intro!: exI)
next
  case False
  then have "4 dvd ip" using ip(1) by (auto elim!: evenE)
  moreover have "ip + 2 \<le> length src" using ip by linarith
  ultimately show ?thesis using False a by (auto simp: FSE_compress_join_def and_2_iff)
qed

lemma FSE_compress_generic_spec:
  assumes t: "fse_text tableLog ct dt (map unat src)" and n: "3 \<le> length src"
    and sz: "dstSize \<le> length buf" "tableLog * length src + 66 \<le> 8 * dstSize"
  shows "\<exists>x y fs mem. fse_enc ct (map unat src) = (x, y, fs)
    \<and> FSE_compress_usingCTable_generic buf dstSize src ct fast = (length (field_bytes (fs @ [(y, tableLog), (x, tableLog)])), mem)
    \<and> take (length (field_bytes (fs @ [(y, tableLog), (x, tableLog)]))) mem = field_bytes (fs @ [(y, tableLog), (x, tableLog)])"
proof -
  let ?E = "dstSize - 8"
  have tl: "tableLog \<le> 12" "ct_tableLog ct = tableLog" using t by (auto simp: fse_text_def fse_pair_def)
  have E: "tableLog * length src \<le> 8 * ?E + 7" using sz(2) by simp
  obtain b0 where b0: "BIT_initCStream buf dstSize = Inr b0" "cst ?E [] 7 b0" using init_cst[of dstSize buf] sz by auto
  obtain ip b1 s1 s2 where 1: "FSE_compress_first fast ct src b0 = (ip, b1, s1, s2)" "ip = 2 * ((length src - 2) div 2)"
    "enc_at ct (map unat src) ?E ip 7 b1 s1 s2" using FSE_compress_first_spec[OF t E n b0(2)] by blast
  obtain ip' b2 s3 s4 where 2: "FSE_compress_join fast src (ip, b1, s1, s2) = (ip', b2, s3, s4)" "4 dvd ip'" "ip' + 2 \<le> length src"
    "enc_at ct (map unat src) ?E ip' 7 b2 s3 s4" using FSE_compress_join_spec[OF t E 1(2) n 1(3)] by blast
  obtain b3 s5 s6 where 3: "FSE_compress_loop fast src ip' (b2, s3, s4) = (b3, s5, s6)"
    "enc_at ct (map unat src) ?E 0 7 b3 s5 s6" using FSE_compress_loop_spec[OF t E 2(4,2,3)] by blast
  then obtain x y fs where r: "fse_enc ct (map unat src) = (x, y, fs)" "cst ?E fs 7 b3" "s5 = cstate ct x" "s6 = cstate ct y"
    by (auto simp: enc_at_def)
  have rng: "x < 2 * 2 ^ tableLog" "y < 2 * 2 ^ tableLog" "flen fs \<le> tableLog * (length src - 2)"
    using fse_enc_range_drop[OF t, of 0 x y fs] r(1) n by auto
  have "tableLog * (length src - 2) + 2 * tableLog = tableLog * length src"
    using n by (simp add: diff_mult_distrib2)
  then have fl: "flen fs + 2 * tableLog \<le> tableLog * length src" using rng(3) by linarith
  have 4: "cst ?E (fs @ [(y, tableLog)]) 7 (FSE_flushCState b3 s6)"
    unfolding r(4) using fl E by (intro FSE_flushCState_cst[OF r(2) tl(2,1) rng(2)]) simp
  have 5: "cst ?E (fs @ [(y, tableLog), (x, tableLog)]) 7 (FSE_flushCState (FSE_flushCState b3 s6) s5)"
    using FSE_flushCState_cst[OF 4 tl(2,1) rng(1)] fl E r(3) by simp
  have "(flen (fs @ [(y, tableLog), (x, tableLog)]) + 1) div 8 < ?E" using fl sz(2) by simp
  from cst_close[OF 5 this] obtain b4 where
    "BIT_closeCStream (FSE_flushCState (FSE_flushCState b3 s6) s5) = (length (field_bytes (fs @ [(y, tableLog), (x, tableLog)])), b4)"
    "take (length (field_bytes (fs @ [(y, tableLog), (x, tableLog)]))) (c_mem b4) = field_bytes (fs @ [(y, tableLog), (x, tableLog)])"
    by (auto simp: field_bytes_def simp del: le_bytes.simps)
  then show ?thesis using r(1) n 
    by (simp add: FSE_compress_usingCTable_generic_def b0(1) 1(1) 2(1) 3(1) Let_def del: FSE_compress_loop.simps)
qed

subsection \<open>The decoder\<close>

text \<open>The table serves the chosen decoding function: the fast one needs a bit in every cell.\<close>

definition fast_ok :: "nat \<Rightarrow> bool \<Rightarrow> FSE_DTable \<Rightarrow> bool" where
  "fast_ok tableLog fast dt \<longleftrightarrow> (fast \<longrightarrow> (\<forall>u<2 ^ tableLog. 1 \<le> nbBits (dt_table dt ! u)))"

definition dstate :: "nat \<Rightarrow> FSE_DTable \<Rightarrow> nat \<Rightarrow> FSE_DState_t" where
  "dstate tableLog dt x = \<lparr>ds_state = x - 2 ^ tableLog, ds_table = dt_table dt\<rparr>"

text \<open>The decoder in front of the suffix \<open>ss\<close>: the state that decodes its first symbol, the other
  state, and the reader.\<close>

definition dec_at ::
  "nat \<Rightarrow> FSE_CTable \<Rightarrow> FSE_DTable \<Rightarrow> nat list \<Rightarrow> FSE_DState_t \<Rightarrow> FSE_DState_t \<Rightarrow> BIT_DStream_t \<Rightarrow> bool" where
  "dec_at tableLog ct dt ss cur other bitD \<longleftrightarrow> (\<exists>x y fs. fse_enc ct ss = (x, y, fs)
     \<and> dst fs bitD \<and> cur = dstate tableLog dt x \<and> other = dstate tableLog dt y)"

lemma dec_at_reload:
  "dec_at tableLog ct dt ss cur other bitD \<Longrightarrow> dec_at tableLog ct dt ss cur other (snd (BIT_reloadDStream bitD))"
  by (auto simp: dec_at_def dst_reload)

lemma dec_at_step:
  assumes t: "fse_text tableLog ct dt ts" and f: "fast_ok tableLog fast dt"
    and a: "dec_at tableLog ct dt (s # r) cur other bitD" and r: "2 \<le> length r" "set (s # r) \<subseteq> set ts"
    and b: "room b bitD" "tableLog \<le> b"
  shows "\<exists>cur' bitD'. FSE_GETSYMBOL fast cur bitD = (s, cur', bitD')
    \<and> dec_at tableLog ct dt r other cur' bitD' \<and> room (b - tableLog) bitD'"
proof -
  obtain x y fs where e: "fse_enc ct (s # r) = (x, y, fs)" "dst fs bitD" "cur = dstate tableLog dt x" "other = dstate tableLog dt y"
    using a by (auto simp: dec_at_def)
  obtain x0 y0 fs0 where e0: "fse_enc ct r = (x0, y0, fs0)" by (cases "fse_enc ct r")
  let ?d = "dt_table dt ! (x - 2 ^ tableLog)"
  note st = fse_dec_step[OF t r e(1) e0]
  have tl: "tableLog \<le> 12" using t by (simp add: fse_text_def fse_pair_def)
  have xr: "x - 2 ^ tableLog < 2 ^ tableLog" using fse_enc_range[OF t _ r(2) e(1)] r(1) by auto
  have dst': "dst (fs0 @ [(y0, nbBits ?d)]) bitD" using e(2) st(4) by simp
  have nb: "nbBits ?d \<le> b" "nbBits ?d < 64" using st(2) b(2) tl by auto
  note rd = dst_read[OF dst' b(1) nb]
  have v: "newState ?d + unat (fst (BIT_readBits bitD (nbBits ?d))) = y0 - 2 ^ tableLog" using st(5) rd(1) by simp
  have "BIT_readBitsFast bitD (nbBits ?d) = BIT_readBits bitD (nbBits ?d)" if fast
    using readBitsFast_eq[OF dst_consumed[OF dst' b(1) nb(1)] _ nb(2)] f xr that by (simp add: fast_ok_def)
  then have "FSE_GETSYMBOL fast cur bitD = (s, dstate tableLog dt y0, snd (BIT_readBits bitD (nbBits ?d)))"
    using st(1) v by (cases "BIT_readBits bitD (nbBits ?d)")
      (simp add: FSE_GETSYMBOL_def FSE_decodeSymbol_def FSE_decodeSymbolFast_def e(3) dstate_def Let_def)
  moreover have "dec_at tableLog ct dt r other (dstate tableLog dt y0) (snd (BIT_readBits bitD (nbBits ?d)))"
    using e0 rd(2) e(4) st(3) by (auto simp: dec_at_def)
  moreover have "room (b - tableLog) (snd (BIT_readBits bitD (nbBits ?d)))"
    using rd(3) st(2) by (auto simp: room_def)
  ultimately show ?thesis by blast
qed

text \<open>With two symbols left the stream is at its end: the next symbol overruns it, and the last
  symbol is in the other state.\<close>

lemma dec_at_last:
  assumes t: "fse_text tableLog ct dt ts" and a: "dec_at tableLog ct dt [s, s'] cur other bitD" and m: "set [s, s'] \<subseteq> set ts"
  shows "\<exists>cur' bitD'. FSE_GETSYMBOL fast cur bitD = (s, cur', bitD') \<and> fst (BIT_reloadDStream bitD') = BIT_DStream_overflow
    \<and> fst (FSE_GETSYMBOL fast other (snd (BIT_reloadDStream bitD'))) = s'"
proof -
  obtain x y fs where e: "fse_enc ct [s, s'] = (x, y, fs)" "dst fs bitD" "cur = dstate tableLog dt x" "other = dstate tableLog dt y"
    using a by (auto simp: dec_at_def)
  let ?d = "dt_table dt ! (x - 2 ^ tableLog)"
  have "symbol ?d = s" "1 \<le> nbBits ?d" "symbol (dt_table dt ! (y - 2 ^ tableLog)) = s'"
    using e(1) t m by (auto simp: fse_text_def Let_def)
  moreover have "d_inv bitD" "d_len bitD = 0" using e(1,2) by (auto simp: dst_def)
  then have "d_bitsConsumed bitD = 64" using d_len_eq[of bitD] by (auto simp: d_inv_def)
  ultimately show ?thesis
    by (auto simp: FSE_GETSYMBOL_def FSE_decodeSymbol_def FSE_decodeSymbolFast_def e(3,4) dstate_def
        BIT_readBits_def BIT_readBitsFast_def BIT_skipBits_def BIT_reloadDStream_def Let_def)
qed

lemma FSE_decompress_tail_spec:
  assumes t: "fse_text tableLog ct dt ts" and f: "fast_ok tableLog fast dt"
  shows "dec_at tableLog ct dt ss state1 state2 bitD \<Longrightarrow> room 56 bitD \<Longrightarrow> 2 \<le> length ss \<Longrightarrow> set ss \<subseteq> set ts \<Longrightarrow>
    length out + length ss \<le> maxDstSize \<Longrightarrow> FSE_decompress_tail fast maxDstSize bitD state1 state2 out = Inr (out @ ss)"
proof (induction ss arbitrary: state1 state2 bitD out rule: length_induct)
  case (1 ss)
  have tl: "tableLog \<le> 56" using t by (simp add: fse_text_def fse_pair_def)
  obtain a b r where ss: "ss = a # b # r" using 1(4) by (cases ss; cases "tl ss") auto
  have step: "\<exists>c' d'. FSE_GETSYMBOL fast cur d = (s, c', d') \<and> dec_at tableLog ct dt r other c' (snd (BIT_reloadDStream d'))
      \<and> room 56 (snd (BIT_reloadDStream d')) \<and> fst (BIT_reloadDStream d') \<noteq> BIT_DStream_overflow"
    if h: "dec_at tableLog ct dt (s # r) cur other d" "room 56 d" "2 \<le> length r" "set (s # r) \<subseteq> set ts" for s r cur other d
  proof -
    obtain c' d' where "FSE_GETSYMBOL fast cur d = (s, c', d')" "dec_at tableLog ct dt r other c' d'"
      using dec_at_step[OF t f h(1,3,4,2) tl] by blast
    then show ?thesis using dec_at_reload dst_reload by (auto simp: dec_at_def)
  qed
  show ?case
  proof (cases r)
    case Nil
    obtain c' d' where "FSE_GETSYMBOL fast state1 bitD = (a, c', d')" "fst (BIT_reloadDStream d') = BIT_DStream_overflow"
        "fst (FSE_GETSYMBOL fast state2 (snd (BIT_reloadDStream d'))) = b"
      using dec_at_last[OF t, of a b state1 state2 bitD fast] 1(2,5) ss Nil by auto
    then show ?thesis using 1(6) ss Nil
      by (subst FSE_decompress_tail.simps) (simp add: case_prod_unfold Let_def)
  next
    case (Cons c r')
    obtain s1 d1 where 2: "FSE_GETSYMBOL fast state1 bitD = (a, s1, d1)" "dec_at tableLog ct dt (b # r) state2 s1 (snd (BIT_reloadDStream d1))"
        "room 56 (snd (BIT_reloadDStream d1))" "fst (BIT_reloadDStream d1) \<noteq> BIT_DStream_overflow"
      using step[OF 1(2)[unfolded ss] 1(3)] 1(5) ss Cons by auto
    show ?thesis
    proof (cases r')
      case Nil
      obtain c' d' where "FSE_GETSYMBOL fast state2 (snd (BIT_reloadDStream d1)) = (b, c', d')"
          "fst (BIT_reloadDStream d') = BIT_DStream_overflow" "fst (FSE_GETSYMBOL fast s1 (snd (BIT_reloadDStream d'))) = c"
        using dec_at_last[OF t, of b c state2 s1 _ fast] 2(2) 1(5) ss Cons Nil by fastforce
      then show ?thesis using 2(1,4) 1(6) ss Cons Nil
        by (subst FSE_decompress_tail.simps) (simp add: case_prod_unfold Let_def)
    next
      case (Cons e r'')
      then have r2: "2 \<le> length r" using \<open>r = c # r'\<close> by simp
      obtain s2 d2 where 3: "FSE_GETSYMBOL fast state2 (snd (BIT_reloadDStream d1)) = (b, s2, d2)"
          "dec_at tableLog ct dt r s1 s2 (snd (BIT_reloadDStream d2))"
          "room 56 (snd (BIT_reloadDStream d2))" "fst (BIT_reloadDStream d2) \<noteq> BIT_DStream_overflow"
        using step[OF 2(2,3) r2] 1(5) ss by auto
      have "FSE_decompress_tail fast maxDstSize (snd (BIT_reloadDStream d2)) s1 s2 (out @ [a, b]) = Inr ((out @ [a, b]) @ r)"
        by (rule 1(1)[rule_format, OF _ 3(2,3) r2]) (use 1(5,6) ss in auto)
      then show ?thesis using 2(1,4) 3(1,4) 1(6) ss r2
        by (subst FSE_decompress_tail.simps) (simp add: case_prod_unfold Let_def del: FSE_decompress_tail.simps)
    qed
  qed
qed

lemma FSE_decompress_loop4_spec:
  assumes t: "fse_text tableLog ct dt ts" and f: "fast_ok tableLog fast dt"
  shows "dec_at tableLog ct dt ss state1 state2 bitD \<Longrightarrow> 2 \<le> length ss \<Longrightarrow> set ss \<subseteq> set ts \<Longrightarrow>
    \<exists>front rest bitD' state1' state2'. ss = front @ rest \<and> 2 \<le> length rest \<and> room 56 bitD'
      \<and> dec_at tableLog ct dt rest state1' state2' bitD'
      \<and> FSE_decompress_loop4 fast maxDstSize (bitD, state1, state2, out) = (bitD', state1', state2', out @ front)"
proof (induction ss arbitrary: state1 state2 bitD out rule: length_induct)
  case (1 ss)
  have tl: "tableLog \<le> 12" using t by (simp add: fse_text_def fse_pair_def)
  then have tls: "tableLog \<le> 56" "tableLog \<le> 56 - tableLog" "tableLog \<le> 56 - tableLog - tableLog"
    "tableLog \<le> 56 - tableLog - tableLog - tableLog" by linarith+
  obtain status d0 where rl: "BIT_reloadDStream bitD = (status, d0)" by fastforce
  have d0: "dec_at tableLog ct dt ss state1 state2 d0" using dec_at_reload[OF 1(2)] rl by simp
  obtain x y fs where e: "fse_enc ct ss = (x, y, fs)" "dst fs bitD" using 1(2) by (auto simp: dec_at_def)
  have rm: "room 56 d0" using dst_reload(2)[OF e(2)] rl by simp
  show ?case
  proof (cases "status = BIT_DStream_unfinished \<and> length out + 3 < maxDstSize")
    case False
    then show ?thesis using d0 rm 1(3) rl
      by (intro exI[of _ "[]"] exI[of _ ss] exI[of _ d0] exI[of _ state1] exI[of _ state2])
         (subst FSE_decompress_loop4.simps, auto)
  next
    case True
    then have "57 \<le> flen fs" using dst_reload(4)[OF e(2)] rl by simp
    moreover have "flen fs \<le> tableLog * (length ss - 2)" using fse_enc_range[OF t 1(3,4) e(1)] by simp
    moreover have "tableLog * (length ss - 2) \<le> 12 * (length ss - 2)" using tl by simp
    ultimately have "6 \<le> length ss" by linarith
    then obtain a b c d r where ss: "ss = a # b # c # d # r" and r2: "2 \<le> length r"
      by (cases ss; cases "tl ss"; cases "tl (tl ss)"; cases "tl (tl (tl ss))") auto
    obtain s1 d1 where 2: "FSE_GETSYMBOL fast state1 d0 = (a, s1, d1)" "dec_at tableLog ct dt (b # c # d # r) state2 s1 d1" "room (56 - tableLog) d1"
      using dec_at_step[OF t f d0[unfolded ss] _ _ rm tls(1)] r2 1(4) ss by auto
    obtain s2 d2 where 3: "FSE_GETSYMBOL fast state2 d1 = (b, s2, d2)" "dec_at tableLog ct dt (c # d # r) s1 s2 d2" "room (56 - tableLog - tableLog) d2"
      using dec_at_step[OF t f 2(2) _ _ 2(3) tls(2)] r2 1(4) ss by auto
    obtain s3 d3 where 4: "FSE_GETSYMBOL fast s1 d2 = (c, s3, d3)" "dec_at tableLog ct dt (d # r) s2 s3 d3" "room (56 - tableLog - tableLog - tableLog) d3"
      using dec_at_step[OF t f 3(2) _ _ 3(3) tls(3)] r2 1(4) ss by auto
    obtain s4 d4 where 5: "FSE_GETSYMBOL fast s2 d3 = (d, s4, d4)" "dec_at tableLog ct dt r s3 s4 d4"
      using dec_at_step[OF t f 4(2) _ _ 4(3) tls(4)] r2 1(4) ss by auto
    obtain front rest d' s5 s6 where 6: "r = front @ rest" "2 \<le> length rest" "room 56 d'" "dec_at tableLog ct dt rest s5 s6 d'"
        "FSE_decompress_loop4 fast maxDstSize (d4, s3, s4, out @ [a, b, c, d]) = (d', s5, s6, (out @ [a, b, c, d]) @ front)"
      using 1(1)[rule_format, OF _ 5(2) r2, of "out @ [a, b, c, d]"] 1(4) ss by auto
    then show ?thesis using 2(1) 3(1) 4(1) 5(1) rl True ss
      by (intro exI[of _ "a # b # c # d # front"] exI[of _ rest] exI[of _ d'] exI[of _ s5] exI[of _ s6])
         (subst FSE_decompress_loop4.simps, simp del: FSE_decompress_loop4.simps)
  qed
qed

lemma field_bytes_reader:
  "\<exists>bitD. BIT_initDStream (field_bytes fs) = Inr bitD \<and> dst fs bitD"
proof -
  let ?L = "flen fs" and ?v = "fval fs + 2 ^ flen fs" and ?n = "flen fs div 8 + 1"
  have fb: "fval fs < 2 ^ ?L" by (rule fval_bound)
  have "?v < 2 ^ Suc ?L" using fb by simp
  also have "(2::nat) ^ Suc ?L \<le> 2 ^ (8 * ?n)" by (intro power_increasing) auto
  finally have "?v mod 256 ^ ?n = ?v" unfolding pow256 by (rule mod_less)
  then have lv: "le_val (field_bytes fs) = ?v" unfolding field_bytes_def le_val_le_bytes .
  have ne: "field_bytes fs \<noteq> []" by (simp add: field_bytes_def)
  have "last (field_bytes fs) \<noteq> 0"
  proof
    assume z: "last (field_bytes fs) = 0"
    have "field_bytes fs = butlast (field_bytes fs) @ [0]" using append_butlast_last_id[OF ne] z by simp
    then have "?v = le_val (butlast (field_bytes fs))" using lv by (metis le_val_append le_val.simps add_0_right mult_0_right unsigned_0)
    also have "\<dots> < 256 ^ length (butlast (field_bytes fs))" by (rule le_val_less)
    also have "\<dots> \<le> 2 ^ ?L" by (simp add: field_bytes_def pow256 del: le_bytes.simps)
    finally show False by simp
  qed
  from initDStream_spec[OF ne this] obtain d where d: "BIT_initDStream (field_bytes fs) = Inr d" "d_inv d" "d_src d = field_bytes fs"
    "2 ^ d_len d \<le> ?v" "?v < 2 ^ Suc (d_len d)" unfolding lv by blast
  have "d_len d = ?L" using pow2_log_unique[of "d_len d" ?v ?L] d(4,5) fb by simp
  moreover from this have "d_val d = fval fs" using d(3) lv fb by (simp add: d_val_def)
  ultimately show ?thesis using d by (auto simp: dst_def)
qed

lemma initDStream_room: "BIT_initDStream src = Inr d \<Longrightarrow> room 56 d"
  by (auto simp: BIT_initDStream_def Let_def room_def d_pos_def split: if_splits)

lemma FSE_initDState_spec:
  assumes "dst (fs @ [(x, tableLog)]) bitD" "room b bitD" "tableLog \<le> b" "dt_tableLog dt = tableLog"
    and "tableLog \<le> 12" "2 ^ tableLog \<le> x" "x < 2 * 2 ^ tableLog"
  shows "\<exists>bitD'. FSE_initDState bitD dt = (dstate tableLog dt x, bitD') \<and> dst fs bitD' \<and> room 56 bitD'"
proof -
  have nb: "tableLog < 64" using assms(5) by simp
  note rd = dst_read[OF assms(1-3) nb]
  have "x mod 2 ^ tableLog = x - 2 ^ tableLog" using assms(6,7) by (simp add: mod_if)
  then show ?thesis using rd dst_reload(1,2)[OF rd(2)] assms(4)
    by (cases "BIT_readBits bitD tableLog") (auto simp: FSE_initDState_def dstate_def Let_def case_prod_unfold)
qed

lemma FSE_decompress_spec:
  assumes t: "fse_text tableLog ct dt ss" and f: "fast_ok tableLog fast dt" and n: "2 \<le> length ss" "length ss \<le> maxDstSize"
    and e: "fse_enc ct ss = (x, y, fs)"
  shows "FSE_decompress_usingDTable_generic maxDstSize (field_bytes (fs @ [(y, tableLog), (x, tableLog)])) dt fast = Inr ss"
proof -
  have tl: "tableLog \<le> 12" "dt_tableLog dt = tableLog" using t by (auto simp: fse_text_def fse_pair_def)
  have rng: "2 ^ tableLog \<le> x" "x < 2 * 2 ^ tableLog" "2 ^ tableLog \<le> y" "y < 2 * 2 ^ tableLog"
    using fse_enc_range[OF t n(1) _ e] by auto
  obtain d0 where d0: "BIT_initDStream (field_bytes (fs @ [(y, tableLog), (x, tableLog)])) = Inr d0"
    "dst ((fs @ [(y, tableLog)]) @ [(x, tableLog)]) d0" using field_bytes_reader by (metis append.assoc append_Cons append_Nil)
  obtain d1 where d1: "FSE_initDState d0 dt = (dstate tableLog dt x, d1)" "dst (fs @ [(y, tableLog)]) d1" "room 56 d1"
    using FSE_initDState_spec[OF d0(2) initDStream_room[OF d0(1)] _ tl(2,1) rng(1,2)] tl by auto
  obtain d2 where d2: "FSE_initDState d1 dt = (dstate tableLog dt y, d2)" "dst fs d2"
    using FSE_initDState_spec[OF d1(2,3) _ tl(2,1) rng(3,4)] tl by auto
  obtain status d3 where d3: "BIT_reloadDStream d2 = (status, d3)" "status \<noteq> BIT_DStream_overflow" "dst fs d3"
    using dst_reload[OF d2(2)] by (cases "BIT_reloadDStream d2") auto
  have "dec_at tableLog ct dt ss (dstate tableLog dt x) (dstate tableLog dt y) d3" using e d3(3) by (auto simp: dec_at_def)
  from FSE_decompress_loop4_spec[OF t f this n(1), of maxDstSize "[]"]
  obtain front rest d4 s1 s2 where l: "ss = front @ rest" "2 \<le> length rest" "room 56 d4" "dec_at tableLog ct dt rest s1 s2 d4"
    "FSE_decompress_loop4 fast maxDstSize (d3, dstate tableLog dt x, dstate tableLog dt y, []) = (d4, s1, s2, front)" by auto
  have "FSE_decompress_tail fast maxDstSize d4 s1 s2 front = Inr (front @ rest)"
    using FSE_decompress_tail_spec[OF t f l(4,3,2)] l(1) n(2) by simp
  then show ?thesis
    using d0(1) d1(1) d2(1) d3(1,2) l(1,5)
    by (simp add: FSE_decompress_usingDTable_generic_def Let_def del: FSE_decompress_tail.simps FSE_decompress_loop4.simps)
qed

subsection \<open>Properties\<close>

lemma fse_text_built:
  assumes n: "normalized tableLog norm" and c: "ctable_ok tableLog norm ct" and d: "dtable_ok tableLog norm dt"
    and s: "\<forall>s\<in>set ss. s < length norm \<and> norm ! s \<noteq> 0 \<and> norm ! s < 2 ^ tableLog"
  shows "fse_text tableLog ct dt ss"
proof -
  have "fse_pair tableLog (\<lambda>s. s \<in> set ss) ct dt"
    using fse_pair_tables[OF n c d] s unfolding fse_pair_def by blast
  moreover have "2 ^ tableLog \<le> x \<and> x < 2 * 2 ^ tableLog \<and> symbol e = s \<and> 1 \<le> nbBits e \<and> nbBits e \<le> tableLog"
    if "s \<in> set ss" and x: "x = cs_value (FSE_initCState2 ct s)" and e: "e = dt_table dt ! (x - 2 ^ tableLog)" for s x e
  proof -
    have s': "s < length norm" "norm ! s \<noteq> 0" "norm ! s < 2 ^ tableLog" using s that(1) by auto
    have "nat (norm ! s) < 2 ^ tableLog" using s'(3) by (simp add: nat_less_iff)
    moreover have "(1::nat) < 2 ^ tableLog" using normalized_bounds(4)[OF n] by (intro one_less_power) auto
    ultimately have "ncount (norm ! s) < 2 ^ tableLog" by (simp add: ncount_def)
    note i = FSE_initCState2_state[OF n c d s'(1,2)] this
    have "x - 2 ^ tableLog < 2 ^ tableLog" using i(1,2) x by linarith
    then have "nbBits e \<le> tableLog" using entry_bits(1)[OF n] d e by (simp add: dtable_ok_def)
    then show ?thesis using i x e by blast
  qed
  ultimately show ?thesis unfolding fse_text_def Let_def by blast
qed

text \<open>
  Property C6: compressing a byte string of at least three bytes with the encoding table built
  from a normalized distribution, into a destination of sufficient size, and decompressing the
  bytes it returns with the decoding table built from the same distribution, in the mode the
  table asks for, gives back the string: the decoder finds the end of the text from the bit
  stream alone.  The source may use every symbol of non-zero count that does not fill the table.\<close>

theorem fse_stream_roundtrip:
  assumes n: "normalized tableLog (take (maxSymbolValue + 1) normalizedCounter)"
    and m: "maxSymbolValue < length normalizedCounter" "maxSymbolValue \<le> 255"
    and bC: "FSE_buildCTable_wksp eC ct0 normalizedCounter maxSymbolValue tableLog workSpaceC = Inr ct"
      "2 * (maxSymbolValue + 2) + 2 * 2 ^ tableLog + 8 \<le> length workSpaceC"
      "2 ^ tableLog \<le> length (ct_tableU16 ct0)" "maxSymbolValue < length (ct_symbolTT ct0)"
    and bD: "FSE_buildDTable_wksp eD dt0 normalizedCounter maxSymbolValue tableLog workSpaceD = Inr dt"
      "2 ^ tableLog \<le> length (dt_table dt0)"
    and src: "3 \<le> length src" "\<forall>b\<in>set src. unat b \<le> maxSymbolValue \<and> normalizedCounter ! unat b \<noteq> 0
      \<and> normalizedCounter ! unat b < 2 ^ tableLog"
    and cap: "dstSize \<le> length buf" "tableLog * length src + 66 \<le> 8 * dstSize" "length src \<le> maxDstSize"
  shows "let (cSize, mem) = FSE_compress_usingCTable buf dstSize src ct
    in 0 < cSize \<and> FSE_decompress_usingDTable_generic maxDstSize (take cSize mem) dt (dt_fastMode dt) = Inr (map unat src)"
proof -
  let ?norm = "take (maxSymbolValue + 1) normalizedCounter"
  have c: "ctable_ok tableLog ?norm ct" using FSE_buildCTable_ok[OF n m bC(2-4), of eC] bC(1) by auto
  have "FSE_BUILD_DTABLE_WKSP_SIZE tableLog maxSymbolValue \<le> length workSpaceD"
    using bD(1) by (auto simp: FSE_buildDTable_wksp_def FSE_buildDTable_internal_def Let_def split: if_splits)
  from FSE_buildDTable_ok[OF n m this bD(2), of eD] bD(1) have d: "dtable_ok tableLog ?norm dt" by auto
  have "\<forall>s\<in>set (map unat src). s < length ?norm \<and> ?norm ! s \<noteq> 0 \<and> ?norm ! s < 2 ^ tableLog"
    using src(2) m(1) by (auto simp: less_Suc_eq_le)
  then have t: "fse_text tableLog ct dt (map unat src)" by (rule fse_text_built[OF n c d])
  have f: "fast_ok tableLog (dt_fastMode dt) dt" using fastMode_bits[OF n d] by (simp add: fast_ok_def)
  obtain x y fs mem where r: "fse_enc ct (map unat src) = (x, y, fs)"
    "FSE_compress_usingCTable buf dstSize src ct = (length (field_bytes (fs @ [(y, tableLog), (x, tableLog)])), mem)"
    "take (length (field_bytes (fs @ [(y, tableLog), (x, tableLog)]))) mem = field_bytes (fs @ [(y, tableLog), (x, tableLog)])"
    using FSE_compress_generic_spec[OF t src(1) cap(1,2)] unfolding FSE_compress_usingCTable_def by metis
  have "FSE_decompress_usingDTable_generic maxDstSize (field_bytes (fs @ [(y, tableLog), (x, tableLog)])) dt (dt_fastMode dt)
      = Inr (map unat src)"
    using src(1) cap(3) by (intro FSE_decompress_spec[OF t f _ _ r(1)]) auto
  then show ?thesis using r(2,3) by (simp add: field_bytes_def del: le_bytes.simps)
qed

theorem fse_stream_roundtrip_witness:
  "\<exists>ct dt. FSE_buildCTable_wksp LittleEndian
        \<lparr>ct_tableLog = 0, ct_maxSymbolValue = 0, ct_tableU16 = replicate 32 0,
         ct_symbolTT = replicate 3 \<lparr>deltaFindState = 0, deltaNbBits = 0\<rparr>\<rparr> [19, -1, 12] 2 5 (replicate 80 0) = Inr ct
    \<and> FSE_buildDTable_wksp LittleEndian
        \<lparr>dt_tableLog = 0, dt_fastMode = False, dt_table = replicate 32 \<lparr>newState = 0, symbol = 0, nbBits = 0\<rparr>\<rparr>
        [19, -1, 12] 2 5 (replicate 46 0) = Inr dt
    \<and> (let (cSize, mem) = FSE_compress_usingCTable (replicate 20 0) 20 [0, 2, 2, 1, 0] ct
       in FSE_decompress_usingDTable_generic 5 (take cSize mem) dt (dt_fastMode dt) = Inr [0, 2, 2, 1, 0])"
proof -
  let ?c = "\<lparr>ct_tableLog = 0, ct_maxSymbolValue = 0, ct_tableU16 = replicate 32 0,
         ct_symbolTT = replicate 3 \<lparr>deltaFindState = 0, deltaNbBits = 0\<rparr>\<rparr>"
    and ?d = "\<lparr>dt_tableLog = 0, dt_fastMode = False, dt_table = replicate 32 \<lparr>newState = 0, symbol = 0, nbBits = 0\<rparr>\<rparr>"
  have n: "normalized 5 (take (2 + 1) [19, -1, 12])" by (simp add: normalized_def ncount_def)
  obtain ct where c: "FSE_buildCTable_wksp LittleEndian ?c [19, -1, 12] 2 5 (replicate 80 0) = Inr ct"
    using FSE_buildCTable_ok[OF n, of "replicate 80 0" ?c LittleEndian] by auto
  obtain dt where d: "FSE_buildDTable_wksp LittleEndian ?d [19, -1, 12] 2 5 (replicate 46 0) = Inr dt"
    using FSE_buildDTable_ok[OF n, of "replicate 46 0" ?d LittleEndian] by (auto simp: FSE_BUILD_DTABLE_WKSP_SIZE_def)
  show ?thesis
    using fse_stream_roundtrip[OF n _ _ c _ _ _ d, of "[0, 2, 2, 1, 0]" 20 "replicate 20 0" 5] c d
    by (auto simp: Let_def split: prod.splits)
qed

end
