(* ===== verification/Zstd_NCount.thy ===== *)
theory Zstd_NCount
  imports Zstd_FSE_Stream
begin

section \<open>Reading entropy statistics\<close>

text \<open>
  The readers of \<^verbatim>\<open>common/entropy_common.c\<close>: normalized counts of an FSE table
  (\<^verbatim>\<open>FSE_readNCount\<close>) and Huffman weights (\<^verbatim>\<open>HUF_readStats\<close>), and
  \<^verbatim>\<open>FSE_decompress_wksp\<close> of \<^verbatim>\<open>common/fse_decompress.c\<close>, which joins the first with
  the table builder and the decoder.  The bytes come from the outside, so the results are about
  every input: positions stay in the buffer, the loops end, and what is accepted is a distribution
  that fills the table exactly, the hypothesis of the table builders.
\<close>

declare FSE_decompress_tail.simps [simp del] FSE_decompress_loop4.simps [simp del]
declare FSE_compress_loop.simps [simp del]

subsection \<open>Normalized counts\<close>

record nc_state =
  nc_norm :: "int list"
  nc_charnum :: nat
  nc_ip :: nat
  nc_bitCount :: nat
  nc_bitStream :: U32
  nc_nbBits :: nat
  nc_remaining :: int
  nc_threshold :: nat
  nc_previous0 :: bool

text \<open>
  \<^verbatim>\<open>iend\<close> is the size of the buffer.  The bit count is masked with 31 after the subtraction,
  that is, reduced modulo 32.
\<close>

definition nc_reload :: "buffer \<Rightarrow> nc_state \<Rightarrow> nc_state" where
  "nc_reload hb st =
     st\<lparr>nc_bitStream := drop_bit (nc_bitCount st) (MEM_readLE32 LittleEndian hb (nc_ip st))\<rparr>"

definition nc_advance :: "buffer \<Rightarrow> nc_state \<Rightarrow> nc_state" where
  "nc_advance hb st =
     (let iend = length hb; ip = nc_ip st; bitCount = nc_bitCount st in
      nc_reload hb
        (if ip + 7 \<le> iend \<or> ip + bitCount div 8 + 4 \<le> iend
         then st\<lparr>nc_ip := ip + bitCount div 8, nc_bitCount := bitCount mod 8\<rparr>
         else st\<lparr>nc_ip := iend - 4,
                 nc_bitCount := nat ((int bitCount - 8 * (int iend - 4 - int ip)) mod 32)\<rparr>))"

definition nc_repeatCode :: "U32 \<Rightarrow> nat" where
  "nc_repeatCode bitStream = ZSTD_countTrailingZeros32 (NOT bitStream OR 0x80000000) div 2"

definition nc_skip :: "buffer \<Rightarrow> nc_state \<Rightarrow> nc_state" where
  "nc_skip hb st =
     (let iend = length hb; ip = nc_ip st;
            st = st\<lparr>nc_charnum := nc_charnum st + 3 * 12\<rparr>
      in nc_reload hb (if ip + 7 \<le> iend then st\<lparr>nc_ip := ip + 3\<rparr>
                  else st\<lparr>nc_bitCount := nat ((int (nc_bitCount st) - 8 * (int iend - 7 - int ip)) mod 32),
                          nc_ip := iend - 4\<rparr>))"

text \<open>
  \<^verbatim>\<open>while (repeats >= 12)\<close>: the number of rounds is bounded by the size of the buffer, see
  \<open>nc_repeats_ends\<close>.
\<close>

fun nc_repeats :: "nat \<Rightarrow> buffer \<Rightarrow> nc_state \<Rightarrow> nc_state" where
  "nc_repeats 0 hb st = st"
| "nc_repeats (Suc rounds) hb st =
     (if nc_repeatCode (nc_bitStream st) \<ge> 12 then nc_repeats rounds hb (nc_skip hb st) else st)"

definition nc_zeros :: "buffer \<Rightarrow> nat \<Rightarrow> nc_state \<Rightarrow> bool \<times> nc_state" where
  "nc_zeros hb maxSV1 st =
     (let st = nc_repeats (length hb + 4) hb st;
          repeats = nc_repeatCode (nc_bitStream st);
          bitStream = drop_bit (2 * repeats) (nc_bitStream st);
          st = st\<lparr>nc_charnum := nc_charnum st + 3 * repeats + unat (bitStream AND 3),
                  nc_bitStream := bitStream,
                  nc_bitCount := nc_bitCount st + 2 * repeats + 2\<rparr>
      in if nc_charnum st \<ge> maxSV1 then (True, st) else (False, nc_advance hb st))"

text \<open>The count that comes next in the stream and the number of bits consumed with it; its
  entry in the table.\<close>

definition nc_value :: "nc_state \<Rightarrow> int \<times> nat" where
  "nc_value st =
     (let threshold = nc_threshold st; bitStream = nc_bitStream st;
          max = (2 * int threshold - 1) - nc_remaining st;
          low = unat (bitStream AND of_nat (threshold - 1))
      in if low < nat (max mod 2 ^ 32) then (int low - 1, nc_bitCount st + (nc_nbBits st - 1))
         else let count = int (unat (bitStream AND of_nat (2 * threshold - 1)))
              in ((if count \<ge> int threshold then count - max else count) - 1, nc_bitCount st + nc_nbBits st))"

definition nc_store :: "nc_state \<Rightarrow> nc_state" where
  "nc_store st =
     (let (count, bitCount) = nc_value st
      in st\<lparr>nc_norm := (nc_norm st)[nc_charnum st := count],
            nc_charnum := nc_charnum st + 1,
            nc_bitCount := bitCount,
            nc_remaining := (if count \<ge> 0 then nc_remaining st - count else nc_remaining st + count),
            nc_previous0 := (count = 0)\<rparr>)"

definition nc_rescale :: "nc_state \<Rightarrow> nc_state" where
  "nc_rescale st =
     (if nc_remaining st < int (nc_threshold st) then
        let nbBits = ZSTD_highbit32 (of_int (nc_remaining st)) + 1
        in st\<lparr>nc_nbBits := nbBits, nc_threshold := 2 ^ (nbBits - 1)\<rparr>
      else st)"

definition nc_count :: "buffer \<Rightarrow> nat \<Rightarrow> nc_state \<Rightarrow> bool \<times> nc_state" where
  "nc_count hb maxSV1 st =
     (let st = nc_store st in
      if nc_remaining st < int (nc_threshold st) \<and> nc_remaining st \<le> 1 then (True, st)
      else let st = nc_rescale st
           in if nc_charnum st \<ge> maxSV1 then (True, st) else (False, nc_advance hb st))"

definition nc_body :: "buffer \<Rightarrow> nat \<Rightarrow> nc_state \<Rightarrow> bool \<times> nc_state" where
  "nc_body hb maxSV1 st =
     (let (brk, st) = (if nc_previous0 st then nc_zeros hb maxSV1 st else (False, st))
      in if brk then (True, st) else nc_count hb maxSV1 st)"

lemma nc_charnum_simps [simp]:
  "nc_charnum (nc_reload hb st) = nc_charnum st" "nc_charnum (nc_advance hb st) = nc_charnum st"
  "nc_charnum (nc_rescale st) = nc_charnum st" "nc_charnum (nc_store st) = nc_charnum st + 1"
  by (simp_all add: nc_reload_def nc_advance_def nc_rescale_def nc_store_def Let_def case_prod_unfold)

lemma nc_charnum_skip [simp]: "nc_charnum (nc_skip hb st) = nc_charnum st + 36"
  by (simp add: nc_skip_def Let_def)

lemma nc_repeats_charnum: "nc_charnum st \<le> nc_charnum (nc_repeats rounds hb st)"
proof (induction rounds arbitrary: st)
  case (Suc rounds)
  show ?case using Suc[of "nc_skip hb st"] by simp
qed simp

lemma nc_count_continue:
  "nc_count hb maxSV1 s = (False, s') \<Longrightarrow> nc_charnum s' = nc_charnum s + 1 \<and> nc_charnum s' < maxSV1"
  by (auto simp: nc_count_def Let_def split: if_splits)

lemma nc_zeros_charnum: "nc_charnum s \<le> nc_charnum (snd (nc_zeros hb maxSV1 s))"
  using nc_repeats_charnum[of s "length hb + 4" hb] by (simp add: nc_zeros_def Let_def)

lemma nc_body_continue:
  assumes "nc_body hb maxSV1 st = (False, st')"
  shows "nc_charnum st < nc_charnum st' \<and> nc_charnum st' < maxSV1"
proof (cases "nc_previous0 st")
  case True
  obtain brk s where z: "nc_zeros hb maxSV1 st = (brk, s)" by fastforce
  then have "nc_count hb maxSV1 s = (False, st')" using assms True by (simp add: nc_body_def split: if_splits)
  then show ?thesis using nc_count_continue[of hb maxSV1 s st'] nc_zeros_charnum[of st hb maxSV1] z by simp
next
  case False
  then show ?thesis using assms nc_count_continue[of hb maxSV1 st st'] by (simp add: nc_body_def)
qed

function nc_loop :: "buffer \<Rightarrow> nat \<Rightarrow> nc_state \<Rightarrow> nc_state" where
  "nc_loop hb maxSV1 st =
     (let (brk, st') = nc_body hb maxSV1 st in if brk then st' else nc_loop hb maxSV1 st')"
  by pat_completeness auto
termination
  by (relation "measure (\<lambda>(hb, maxSV1, st). maxSV1 - nc_charnum st)") (auto dest!: nc_body_continue[OF sym])

text \<open>The result: the number of bytes read, the counts, the largest symbol and the table log.\<close>

definition FSE_readNCount_body8 ::
  "nat \<Rightarrow> buffer \<Rightarrow> ZSTD_ErrorCode + nat \<times> int list \<times> nat \<times> nat" where
  "FSE_readNCount_body8 maxSV hb =
     (let maxSV1 = maxSV + 1;
          bitStream = MEM_readLE32 LittleEndian hb 0;
          nbBits = unat (bitStream AND 0xF) + 5
      in if nbBits > 15 then Inl ZSTD_error_tableLog_tooLarge
         else
           let st = nc_loop hb maxSV1
                 \<lparr>nc_norm = replicate maxSV1 0, nc_charnum = 0, nc_ip = 0, nc_bitCount = 4,
                  nc_bitStream = drop_bit 4 bitStream, nc_nbBits = nbBits + 1,
                  nc_remaining = 2 ^ nbBits + 1, nc_threshold = 2 ^ nbBits, nc_previous0 = False\<rparr>
           in if nc_remaining st \<noteq> 1 then Inl ZSTD_error_corruption_detected
              else if nc_charnum st > maxSV1 then Inl ZSTD_error_maxSymbolValue_tooSmall
              else if nc_bitCount st > 32 then Inl ZSTD_error_corruption_detected
              else Inr (nc_ip st + (nc_bitCount st + 7) div 8, nc_norm st, nc_charnum st - 1, nbBits))"

definition FSE_readNCount_body ::
  "nat \<Rightarrow> buffer \<Rightarrow> ZSTD_ErrorCode + nat \<times> int list \<times> nat \<times> nat" where
  "FSE_readNCount_body maxSV hb =
     (if length hb < 8 then
        bindE (FSE_readNCount_body8 maxSV (hb @ replicate (8 - length hb) 0)) (\<lambda>(countSize, r).
          if countSize > length hb then Inl ZSTD_error_corruption_detected else Inr (countSize, r))
      else FSE_readNCount_body8 maxSV hb)"

definition FSE_readNCount_bmi2 :: "nat \<Rightarrow> buffer \<Rightarrow> ZSTD_ErrorCode + nat \<times> int list \<times> nat \<times> nat" where
  "FSE_readNCount_bmi2 maxSV hb = FSE_readNCount_body maxSV hb"

definition FSE_readNCount :: "nat \<Rightarrow> buffer \<Rightarrow> ZSTD_ErrorCode + nat \<times> int list \<times> nat \<times> nat" where
  "FSE_readNCount maxSV hb = FSE_readNCount_bmi2 maxSV hb"

subsection \<open>Decompression with a header\<close>

text \<open>
  \<^verbatim>\<open>FSE_decompress_wksp_body\<close>: the work space starts with the counts (512 bytes), then the
  table, then the scratch space of the builder; \<open>dtable\<close> is what the table area held.
\<close>

definition FSE_DTABLE_SIZE :: "nat \<Rightarrow> nat" where
  "FSE_DTABLE_SIZE maxTableLog = (1 + 2 ^ maxTableLog) * 4"

definition FSE_DECOMPRESS_WKSP_SIZE :: "nat \<Rightarrow> nat \<Rightarrow> nat" where
  "FSE_DECOMPRESS_WKSP_SIZE maxTableLog maxSymbolValue =
     ((1 + 2 ^ maxTableLog) + 1 + (FSE_BUILD_DTABLE_WKSP_SIZE maxTableLog maxSymbolValue + 4 - 1) div 4
        + (255 + 1) div 2 + 1) * 4"

definition FSE_decompress_wksp_body ::
  "nat \<Rightarrow> buffer \<Rightarrow> nat \<Rightarrow> FSE_DTable \<Rightarrow> buffer \<Rightarrow> ZSTD_ErrorCode + nat list" where
  "FSE_decompress_wksp_body dstCapacity cSrc maxLog dtable workSpace =
     (if length workSpace < 512 then Inl ZSTD_error_GENERIC
      else bindE (FSE_readNCount_bmi2 255 cSrc) (\<lambda>(NCountLength, ncount, maxSymbolValue, tableLog).
        if tableLog > maxLog then Inl ZSTD_error_tableLog_tooLarge
        else if FSE_DECOMPRESS_WKSP_SIZE tableLog maxSymbolValue > length workSpace
             then Inl ZSTD_error_tableLog_tooLarge
        else bindE (FSE_buildDTable_internal LittleEndian dtable ncount maxSymbolValue tableLog
                      (drop (512 + FSE_DTABLE_SIZE tableLog) workSpace)) (\<lambda>dtable.
          FSE_decompress_usingDTable_generic dstCapacity (drop NCountLength cSrc) dtable (dt_fastMode dtable))))"

definition FSE_decompress_wksp_bmi2 ::
  "nat \<Rightarrow> buffer \<Rightarrow> nat \<Rightarrow> FSE_DTable \<Rightarrow> buffer \<Rightarrow> ZSTD_ErrorCode + nat list" where
  "FSE_decompress_wksp_bmi2 dstCapacity cSrc maxLog dtable workSpace =
     FSE_decompress_wksp_body dstCapacity cSrc maxLog dtable workSpace"

subsection \<open>Huffman weights\<close>

record huf_stats =
  hs_weights :: "nat list"
  hs_rankStats :: "nat list"
  hs_tableLog :: nat

text \<open>The weights of the two header forms, and the number of bytes after the first.\<close>

definition HUF_readWeights ::
  "nat \<Rightarrow> buffer \<Rightarrow> FSE_DTable \<Rightarrow> buffer \<Rightarrow> ZSTD_ErrorCode + nat list \<times> nat" where
  "HUF_readWeights hwSize src dtable workSpace =
     (let iSize = unat (src ! 0) in
      if iSize \<ge> 128 then
        let oSize = iSize - 127; iSize = (oSize + 1) div 2
        in if iSize + 1 > length src then Inl ZSTD_error_srcSize_wrong
           else if oSize \<ge> hwSize then Inl ZSTD_error_corruption_detected
           else Inr (take oSize (concat (map (\<lambda>b. [unat (drop_bit 4 b), unat (b AND 15)])
                       (take iSize (drop 1 src)))), iSize)
      else if iSize + 1 > length src then Inl ZSTD_error_srcSize_wrong
      else bindE (FSE_decompress_wksp_bmi2 (hwSize - 1) (take iSize (drop 1 src)) 6 dtable workSpace)
             (\<lambda>w. Inr (w, iSize)))"

text \<open>The loop that collects the statistics.\<close>

fun HUF_collect :: "nat list \<Rightarrow> nat list \<Rightarrow> nat \<Rightarrow> ZSTD_ErrorCode + nat list \<times> nat" where
  "HUF_collect [] rankStats weightTotal = Inr (rankStats, weightTotal)"
| "HUF_collect (w # ws) rankStats weightTotal =
     (if w > 12 then Inl ZSTD_error_corruption_detected
      else HUF_collect ws (rankStats[w := rankStats ! w + 1]) (weightTotal + 2 ^ w div 2))"

definition HUF_readStats_body ::
  "nat \<Rightarrow> buffer \<Rightarrow> FSE_DTable \<Rightarrow> buffer \<Rightarrow> ZSTD_ErrorCode + nat \<times> huf_stats" where
  "HUF_readStats_body hwSize src dtable workSpace =
     (if length src = 0 then Inl ZSTD_error_srcSize_wrong
      else bindE (HUF_readWeights hwSize src dtable workSpace) (\<lambda>(huffWeight, iSize).
        bindE (HUF_collect huffWeight (replicate 13 0) 0) (\<lambda>(rankStats, weightTotal).
          if weightTotal = 0 then Inl ZSTD_error_corruption_detected
          else
            let tableLog = ZSTD_highbit32 (of_nat weightTotal) + 1 in
            if tableLog > 12 then Inl ZSTD_error_corruption_detected
            else
              let total = 2 ^ tableLog;
                  rest = total - weightTotal;
                  verif = 2 ^ ZSTD_highbit32 (of_nat rest);
                  lastWeight = ZSTD_highbit32 (of_nat rest) + 1
              in if verif \<noteq> rest then Inl ZSTD_error_corruption_detected
                 else
                   let rankStats = rankStats[lastWeight := rankStats ! lastWeight + 1] in
                   if rankStats ! 1 < 2 \<or> odd (rankStats ! 1) then Inl ZSTD_error_corruption_detected
                   else Inr (iSize + 1, \<lparr>hs_weights = huffWeight @ [lastWeight], hs_rankStats = rankStats,
                                         hs_tableLog = tableLog\<rparr>))))"

definition HUF_readStats_wksp ::
  "nat \<Rightarrow> buffer \<Rightarrow> FSE_DTable \<Rightarrow> buffer \<Rightarrow> ZSTD_ErrorCode + nat \<times> huf_stats" where
  "HUF_readStats_wksp hwSize src dtable workSpace = HUF_readStats_body hwSize src dtable workSpace"

subsection \<open>The loop over repeat codes ends\<close>

definition nc_loaded :: "nc_state \<Rightarrow> bool" where
  "nc_loaded st \<longleftrightarrow> (\<exists>w. nc_bitStream st = drop_bit (nc_bitCount st) w)"

lemma nc_loaded_reload: "nc_loaded (nc_reload hb st)"
  by (auto simp: nc_loaded_def nc_reload_def)

lemma nc_loaded_simps [simp]: "nc_loaded (nc_skip hb st)" "nc_loaded (nc_advance hb st)"
  by (simp_all add: nc_skip_def nc_advance_def Let_def nc_loaded_reload del: if_split)

lemma ctz_bits:
  fixes w :: "'a::len word"
  assumes "n < builtin_ctz w"
  shows "\<not> bit w n"
proof -
  let ?t = "takeWhile (\<lambda>n. \<not> bit w n) [0..<LENGTH('a)]"
  have n: "n < length ?t" using assms by (simp add: builtin_ctz_def)
  then have "n < LENGTH('a)" using length_takeWhile_le[of "\<lambda>n. \<not> bit w n" "[0..<LENGTH('a)]"] by simp
  then have "?t ! n = n" using n by (simp add: takeWhile_nth)
  then show ?thesis using nth_mem[OF n] set_takeWhileD[of n] by metis
qed

text \<open>Twelve repeat codes fill the register, so few of its bits have been shifted out.\<close>

lemma repeatCode_shift:
  assumes "nc_loaded st" "12 \<le> nc_repeatCode (nc_bitStream st)"
  shows "nc_bitCount st \<le> 8"
proof -
  obtain w :: U32 where w: "nc_bitStream st = drop_bit (nc_bitCount st) w" using assms(1) by (auto simp: nc_loaded_def)
  have "23 < builtin_ctz (NOT (nc_bitStream st) OR 0x80000000 :: U32)"
    using assms(2) by (simp add: nc_repeatCode_def ZSTD_countTrailingZeros32_def)
  from ctz_bits[OF this] have "bit (nc_bitStream st) 23" by (simp add: bit_simps)
  then have "bit w (nc_bitCount st + 23)" by (simp add: w bit_simps)
  then show ?thesis using bit_imp_le_length[of w "nc_bitCount st + 23"] by simp
qed

definition nc_rank :: "buffer \<Rightarrow> nc_state \<Rightarrow> nat" where
  "nc_rank hb st =
     (if nc_ip st + 7 \<le> length hb then length hb - nc_ip st
      else if nc_ip st + 6 = length hb then 3
      else if nc_ip st + 4 = length hb \<and> nc_bitCount st = 8 then 2 else 1)"

lemma nc_skip_fields:
  "nc_ip (nc_skip hb st) = (if nc_ip st + 7 \<le> length hb then nc_ip st + 3 else length hb - 4)"
  "nc_bitCount (nc_skip hb st) = (if nc_ip st + 7 \<le> length hb then nc_bitCount st
     else nat ((int (nc_bitCount st) - 8 * (int (length hb) - 7 - int (nc_ip st))) mod 32))"
  by (simp_all add: nc_skip_def nc_reload_def Let_def)

lemma nc_skip_rank:
  assumes "nc_bitCount st \<le> 8" "nc_ip st + 4 \<le> length hb" "nc_bitCount (nc_skip hb st) \<le> 8"
  shows "nc_rank hb (nc_skip hb st) < nc_rank hb st"
proof -
  consider "nc_ip st + 7 \<le> length hb" | "length hb = nc_ip st + 6" | "length hb = nc_ip st + 5" | "length hb = nc_ip st + 4"
    using assms(2) by linarith
  then show ?thesis
  proof cases
    case 1
    then show ?thesis by (auto simp: nc_rank_def nc_skip_fields)
  next
    case 2
    then have "nc_bitCount (nc_skip hb st) = nc_bitCount st + 8"
      using assms(1) by (simp add: nc_skip_fields nat_add_distrib)
    then show ?thesis using 2 assms(3) by (simp add: nc_rank_def nc_skip_fields(1))
  next
    case 3
    then have "nc_bitCount (nc_skip hb st) = nc_bitCount st + 16"
      using assms(1) by (simp add: nc_skip_fields nat_add_distrib)
    then show ?thesis using assms(3) by simp
  next
    case 4
    then have b: "nc_bitCount (nc_skip hb st) = (nc_bitCount st + 24) mod 32"
      by (simp add: nc_skip_fields nat_mod_distrib nat_add_distrib)
    show ?thesis
    proof (cases "nc_bitCount st = 8")
      case True
      then show ?thesis using b 4 by (simp add: nc_rank_def nc_skip_fields(1))
    next
      case False
      then have "(nc_bitCount st + 24) mod 32 = nc_bitCount st + 24" using assms(1) by (intro mod_less) simp
      then show ?thesis using assms(3) b by simp
    qed
  qed
qed

lemma nc_repeats_ends:
  "\<lbrakk>nc_loaded st; nc_ip st + 4 \<le> length hb; nc_rank hb st \<le> rounds\<rbrakk> \<Longrightarrow>
    nc_repeatCode (nc_bitStream (nc_repeats rounds hb st)) < 12"
proof (induction rounds arbitrary: st)
  case 0
  then show ?case by (auto simp: nc_rank_def split: if_splits)
next
  case (Suc rounds)
  show ?case
  proof (cases "nc_repeatCode (nc_bitStream st) \<ge> 12")
    case True
    have b: "nc_bitCount st \<le> 8" by (rule repeatCode_shift[OF Suc.prems(1) True])
    show ?thesis
    proof (cases "nc_bitCount (nc_skip hb st) \<le> 8")
      case skip: True
      have "nc_ip (nc_skip hb st) + 4 \<le> length hb" using Suc.prems(2) by (simp add: nc_skip_fields)
      then show ?thesis using Suc.IH[of "nc_skip hb st"] nc_skip_rank[OF b Suc.prems(2) skip] Suc.prems(3) True by simp
    next
      case False
      then have "\<not> 12 \<le> nc_repeatCode (nc_bitStream (nc_skip hb st))"
        using repeatCode_shift[of "nc_skip hb st"] by auto
      then show ?thesis using True by (cases rounds) auto
    qed
  qed simp
qed

subsection \<open>The invariant of the reader\<close>

text \<open>Positions: a full window of seven bytes leaves at most seven bits consumed.\<close>

definition nc_pos :: "buffer \<Rightarrow> nc_state \<Rightarrow> bool" where
  "nc_pos hb st \<longleftrightarrow> nc_ip st + 4 \<le> length hb \<and> (nc_ip st + 7 \<le> length hb \<longrightarrow> nc_bitCount st \<le> 7)"

text \<open>Counts: the counts read and what remains add up to the table size plus one, and the
  threshold is the power of two below the rest.\<close>

definition nc_sum :: "nat \<Rightarrow> nat \<Rightarrow> nc_state \<Rightarrow> bool" where
  "nc_sum tableLog maxSV1 st \<longleftrightarrow> length (nc_norm st) = maxSV1 \<and> (\<forall>c\<in>set (nc_norm st). -1 \<le> c)
     \<and> (\<forall>i<maxSV1. nc_charnum st \<le> i \<longrightarrow> nc_norm st ! i = 0)
     \<and> int (sum_list (map ncount (nc_norm st))) + nc_remaining st = 2 ^ tableLog + 1"

definition nc_scale :: "nc_state \<Rightarrow> bool" where
  "nc_scale st \<longleftrightarrow> 2 \<le> nc_nbBits st \<and> nc_nbBits st \<le> 16 \<and> nc_threshold st = 2 ^ (nc_nbBits st - 1)
     \<and> int (nc_threshold st) \<le> nc_remaining st \<and> nc_remaining st \<le> 2 * int (nc_threshold st) - 1"

lemma nc_scale_min:
  assumes "nc_scale st"
  shows "2 \<le> int (nc_threshold st)" "2 \<le> nc_remaining st"
proof -
  have "(2::nat) ^ 1 \<le> 2 ^ (nc_nbBits st - 1)" using assms by (intro power_increasing) (auto simp: nc_scale_def)
  then have "2 \<le> nc_threshold st" using assms by (simp add: nc_scale_def)
  then show "2 \<le> int (nc_threshold st)" by simp
  then show "2 \<le> nc_remaining st" using assms by (simp add: nc_scale_def)
qed

lemma nc_scale_cong:
  "nc_scale st \<Longrightarrow> nc_nbBits st' = nc_nbBits st \<Longrightarrow> nc_threshold st' = nc_threshold st \<Longrightarrow>
    nc_remaining st' = nc_remaining st \<Longrightarrow> nc_scale st'"
  unfolding nc_scale_def by metis

lemma nc_advance_fields [simp]:
  "nc_norm (nc_advance hb st) = nc_norm st" "nc_remaining (nc_advance hb st) = nc_remaining st"
  "nc_nbBits (nc_advance hb st) = nc_nbBits st" "nc_threshold (nc_advance hb st) = nc_threshold st"
  by (simp_all add: nc_advance_def nc_reload_def Let_def)

lemma nc_advance_pos:
  assumes "nc_ip st + 4 \<le> length hb" "nc_ip st + 7 \<le> length hb \<longrightarrow> nc_bitCount st \<le> 31"
  shows "nc_pos hb (nc_advance hb st)"
proof -
  have "nc_bitCount st \<le> 31 \<Longrightarrow> nc_bitCount st div 8 \<le> 3" by linarith
  moreover have "nc_bitCount st mod 8 \<le> 7" by linarith
  ultimately show ?thesis
    using assms by (auto simp: nc_pos_def nc_advance_def nc_reload_def Let_def)
qed

lemma nc_skip_pos: "nc_pos hb st \<Longrightarrow> nc_pos hb (nc_skip hb st)"
  by (auto simp: nc_pos_def nc_skip_fields)

lemma nc_skip_counts [simp]:
  "nc_norm (nc_skip hb st) = nc_norm st" "nc_remaining (nc_skip hb st) = nc_remaining st"
  "nc_nbBits (nc_skip hb st) = nc_nbBits st" "nc_threshold (nc_skip hb st) = nc_threshold st"
  by (simp_all add: nc_skip_def nc_reload_def Let_def)

lemma nc_repeats_keeps:
  "nc_norm (nc_repeats rounds hb st) = nc_norm st \<and> nc_remaining (nc_repeats rounds hb st) = nc_remaining st
    \<and> nc_nbBits (nc_repeats rounds hb st) = nc_nbBits st \<and> nc_threshold (nc_repeats rounds hb st) = nc_threshold st
    \<and> (nc_pos hb st \<longrightarrow> nc_pos hb (nc_repeats rounds hb st))"
  by (induction rounds arbitrary: st) (auto simp: nc_skip_pos)

lemma nc_rank_bound: "nc_rank hb st \<le> length hb + 4"
  unfolding nc_rank_def by (auto intro: trans_le_add1)

definition nc_inv :: "nat \<Rightarrow> nat \<Rightarrow> buffer \<Rightarrow> nc_state \<Rightarrow> bool" where
  "nc_inv tableLog maxSV1 hb st \<longleftrightarrow> nc_pos hb st \<and> nc_loaded st \<and> nc_sum tableLog maxSV1 st \<and> nc_scale st
     \<and> nc_charnum st < maxSV1"

lemma nc_sum_later:
  "nc_sum tableLog maxSV1 st \<Longrightarrow> nc_norm st' = nc_norm st \<Longrightarrow> nc_remaining st' = nc_remaining st \<Longrightarrow>
    nc_charnum st \<le> nc_charnum st' \<Longrightarrow> nc_sum tableLog maxSV1 st'"
  by (auto simp: nc_sum_def)

lemma nc_zeros_inv:
  assumes "nc_inv tableLog maxSV1 hb st" "nc_zeros hb maxSV1 st = (brk, st')"
  shows "nc_sum tableLog maxSV1 st'" "1 < nc_remaining st'" "\<not> brk \<Longrightarrow> nc_inv tableLog maxSV1 hb st'"
    "nc_ip st' + 4 \<le> length hb"
proof -
  let ?r = "nc_repeats (length hb + 4) hb st"
  note k = nc_repeats_keeps[of "length hb + 4" hb st] nc_repeats_charnum[of st "length hb + 4" hb]
  have i: "nc_pos hb st" "nc_loaded st" "nc_sum tableLog maxSV1 st" "nc_scale st" using assms(1) by (auto simp: nc_inv_def)
  have "nc_repeatCode (nc_bitStream ?r) < 12"
    using i nc_rank_bound[of hb st] by (intro nc_repeats_ends) (auto simp: nc_pos_def)
  moreover define s1 where "s1 = ?r\<lparr>nc_charnum := nc_charnum ?r + 3 * nc_repeatCode (nc_bitStream ?r)
       + unat (drop_bit (2 * nc_repeatCode (nc_bitStream ?r)) (nc_bitStream ?r) AND 3),
     nc_bitStream := drop_bit (2 * nc_repeatCode (nc_bitStream ?r)) (nc_bitStream ?r),
     nc_bitCount := nc_bitCount ?r + 2 * nc_repeatCode (nc_bitStream ?r) + 2\<rparr>"
  ultimately have p: "nc_ip s1 + 4 \<le> length hb" "nc_ip s1 + 7 \<le> length hb \<longrightarrow> nc_bitCount s1 \<le> 31"
    using k i(1) by (auto simp: nc_pos_def)
  have s: "nc_sum tableLog maxSV1 s1" by (rule nc_sum_later[OF i(3)]) (use k in \<open>auto simp: s1_def\<close>)
  have z: "nc_zeros hb maxSV1 st = (if nc_charnum s1 \<ge> maxSV1 then (True, s1) else (False, nc_advance hb s1))"
    unfolding nc_zeros_def Let_def s1_def ..
  have f: "nc_remaining s1 = nc_remaining st" "nc_nbBits s1 = nc_nbBits st" "nc_threshold s1 = nc_threshold st"
    using k by (auto simp: s1_def)
  have a: "nc_sum tableLog maxSV1 (nc_advance hb s1)" by (rule nc_sum_later[OF s]) simp_all
  have ap: "nc_pos hb (nc_advance hb s1)" by (rule nc_advance_pos[OF p])
  show "nc_sum tableLog maxSV1 st'" "nc_ip st' + 4 \<le> length hb"
    using assms(2) s a p(1) ap unfolding z by (auto simp: nc_pos_def split: if_splits)
  have "1 < nc_remaining st" using nc_scale_min[OF i(4)] by simp
  then show "1 < nc_remaining st'" using assms(2) f unfolding z by (auto split: if_splits)
  assume "\<not> brk"
  then have "st' = nc_advance hb s1" "nc_charnum s1 < maxSV1" using assms(2) unfolding z by (auto split: if_splits)
  moreover have "nc_scale (nc_advance hb s1)" by (rule nc_scale_cong[OF i(4)]) (simp_all only: nc_advance_fields f)
  ultimately show "nc_inv tableLog maxSV1 hb st'" using ap a by (simp add: nc_inv_def)
qed

lemma nc_value_bounds:
  assumes "nc_scale st"
  shows "-1 \<le> fst (nc_value st)" "fst (nc_value st) \<le> nc_remaining st - 1" "snd (nc_value st) \<le> nc_bitCount st + 16"
proof -
  let ?t = "nc_threshold st" and ?n = "nc_nbBits st - 1"
  have t: "?t = 2 ^ ?n" "1 \<le> ?n" "?n \<le> 15" "int ?t \<le> nc_remaining st" "nc_remaining st \<le> 2 * int ?t - 1"
    using assms by (auto simp: nc_scale_def)
  have "(2::nat) ^ ?n \<le> 2 ^ 15" using t(3) by (intro power_increasing) auto
  then have t15: "?t \<le> 32768" by (simp add: t(1))
  have mk: "unat (b AND of_nat (2 ^ k - 1) :: U32) = unat b mod 2 ^ k" for b :: U32 and k
    using unat_and_mask[of b k] by (simp add: mask_eq_exp_minus_1)
  have lo: "unat (nc_bitStream st AND of_nat (?t - 1)) < ?t" unfolding t(1) mk by simp
  have two: "2 * ?t = 2 ^ Suc ?n" using t(1) by simp
  have hi: "unat (nc_bitStream st AND of_nat (2 * ?t - 1)) < 2 * ?t" unfolding two mk by simp
  define mx where "mx = (2 * int ?t - 1) - nc_remaining st"
  have mx: "0 \<le> mx" "mx < int ?t" using t(4,5) by (auto simp: mx_def)
  have "mx mod 2 ^ 32 = mx" using mx t15 by (intro mod_pos_pos_trivial) auto
  then have m: "nat (mx mod 2 ^ 32) = nat mx" by simp
  have b: "nc_nbBits st \<le> 16" using assms by (simp add: nc_scale_def)
  define L H where "L = unat (nc_bitStream st AND of_nat (?t - 1))" and "H = unat (nc_bitStream st AND of_nat (2 * ?t - 1))"
  have lh: "L < ?t" "H < 2 * ?t" using lo hi by (auto simp: L_def H_def)
  have "nc_value st = (if L < nat mx then (int L - 1, nc_bitCount st + (nc_nbBits st - 1))
      else ((if int H \<ge> int ?t then int H - mx else int H) - 1, nc_bitCount st + nc_nbBits st))"
    unfolding nc_value_def Let_def L_def[symmetric] H_def[symmetric] mx_def[symmetric] m ..
  then have "-1 \<le> fst (nc_value st) \<and> fst (nc_value st) \<le> nc_remaining st - 1 \<and> snd (nc_value st) \<le> nc_bitCount st + 16"
    using lh mx t(4) b by (auto simp: mx_def)
  then show "-1 \<le> fst (nc_value st)" "fst (nc_value st) \<le> nc_remaining st - 1" "snd (nc_value st) \<le> nc_bitCount st + 16"
    by auto
qed

lemma nc_store_inv:
  assumes "nc_inv tableLog maxSV1 hb st"
  shows "nc_sum tableLog maxSV1 (nc_store st)" "1 \<le> nc_remaining (nc_store st)"
    "nc_remaining (nc_store st) \<le> nc_remaining st"
    "nc_ip (nc_store st) + 4 \<le> length hb" "nc_ip (nc_store st) + 7 \<le> length hb \<longrightarrow> nc_bitCount (nc_store st) \<le> 31"
    "nc_nbBits (nc_store st) = nc_nbBits st" "nc_threshold (nc_store st) = nc_threshold st"
proof -
  have i: "nc_pos hb st" "nc_sum tableLog maxSV1 st" "nc_scale st" "nc_charnum st < maxSV1"
    using assms by (auto simp: nc_inv_def)
  obtain c b where cb: "nc_value st = (c, b)" by fastforce
  have cb': "-1 \<le> c" "c \<le> nc_remaining st - 1" "b \<le> nc_bitCount st + 16"
    using nc_value_bounds[OF i(3)] by (simp_all add: cb)
  note r2 = nc_scale_min(2)[OF i(3)]
  have len: "length (nc_norm st) = maxSV1" and z: "nc_norm st ! nc_charnum st = 0"
    using i(2,4) by (auto simp: nc_sum_def)
  have rem: "nc_remaining (nc_store st) = nc_remaining st - int (ncount c)"
    using cb'(1) by (simp add: nc_store_def cb ncount_def)
  have "map ncount ((nc_norm st)[nc_charnum st := c]) = (map ncount (nc_norm st))[nc_charnum st := ncount c]"
    by (simp add: map_update)
  then have "sum_list (map ncount ((nc_norm st)[nc_charnum st := c])) = sum_list (map ncount (nc_norm st)) + ncount c"
    using sum_list_update[of "nc_charnum st" "map ncount (nc_norm st)" "ncount c"] i(4) len z by (simp add: ncount_def)
  moreover have "\<forall>x\<in>set ((nc_norm st)[nc_charnum st := c]). -1 \<le> x"
    using i(2) cb'(1) by (auto simp: nc_sum_def dest!: subsetD[OF set_update_subset_insert])
  ultimately show "nc_sum tableLog maxSV1 (nc_store st)"
    using i(2) rem by (auto simp: nc_sum_def nc_store_def cb nth_list_update)
  show "1 \<le> nc_remaining (nc_store st)" "nc_remaining (nc_store st) \<le> nc_remaining st"
    using rem cb' r2 by (auto simp: ncount_def split: if_splits)
  show "nc_ip (nc_store st) + 4 \<le> length hb" "nc_ip (nc_store st) + 7 \<le> length hb \<longrightarrow> nc_bitCount (nc_store st) \<le> 31"
    "nc_nbBits (nc_store st) = nc_nbBits st" "nc_threshold (nc_store st) = nc_threshold st"
    using i(1) cb'(3) by (auto simp: nc_store_def cb nc_pos_def)
qed

lemma nc_rescale_fields [simp]:
  "nc_norm (nc_rescale st) = nc_norm st" "nc_remaining (nc_rescale st) = nc_remaining st"
  "nc_ip (nc_rescale st) = nc_ip st" "nc_bitCount (nc_rescale st) = nc_bitCount st"
  by (simp_all add: nc_rescale_def Let_def)

lemma nc_rescale_scale:
  assumes "1 < nc_remaining st" "nc_remaining st \<le> 2 * int (nc_threshold st) - 1"
    "2 \<le> nc_nbBits st" "nc_nbBits st \<le> 16" "nc_threshold st = 2 ^ (nc_nbBits st - 1)"
  shows "nc_scale (nc_rescale st)"
proof (cases "nc_remaining st < int (nc_threshold st)")
  case True
  define r where "r = nat (nc_remaining st)"
  have r: "nc_remaining st = int r" "2 \<le> r" "r < nc_threshold st" using assms(1) True by (auto simp: r_def)
  have "(2::nat) ^ (nc_nbBits st - 1) \<le> 2 ^ 15" using assms(4) by (intro power_increasing) auto
  then have r15: "r < 32768" using r(3) assms(5) by simp
  then have u: "unat (of_nat r :: U32) = r" by (simp add: unat_of_nat)
  then have "(of_nat r :: U32) \<noteq> 0" using r(2) by (metis not_numeral_le_zero unsigned_0)
  from highbit32_bounds[OF this, unfolded u] have h: "2 ^ ZSTD_highbit32 (of_nat r) \<le> r" "r < 2 ^ Suc (ZSTD_highbit32 (of_nat r))"
    by auto
  let ?h = "ZSTD_highbit32 (of_nat r :: U32)"
  have "(2::nat) ^ ?h < 2 ^ 15" using h(1) r15 by simp
  then have h15: "?h < 15" by (rule power_less_imp_less_exp[rotated]) simp
  have h1: "1 \<le> ?h" using h(2) r(2) by (cases "?h = 0") auto
  have e: "nc_rescale st = st\<lparr>nc_nbBits := ?h + 1, nc_threshold := 2 ^ ?h\<rparr>"
    using True by (simp add: nc_rescale_def Let_def r(1))
  have "int (2 ^ ?h) \<le> int r" using h(1) by (rule of_nat_mono)
  moreover have "int r < int (2 * 2 ^ ?h)" using h(2) by (simp only: of_nat_less_iff power_Suc)
  ultimately show ?thesis using h15 h1 by (simp add: nc_scale_def e r(1))
next
  case False
  then show ?thesis using assms by (simp add: nc_rescale_def nc_scale_def)
qed

lemma nc_count_inv:
  assumes "nc_inv tableLog maxSV1 hb st" "nc_count hb maxSV1 st = (brk, st')"
  shows "nc_sum tableLog maxSV1 st'" "nc_ip st' + 4 \<le> length hb" "\<not> brk \<Longrightarrow> nc_inv tableLog maxSV1 hb st'"
    "nc_charnum st' = nc_charnum st + 1"
proof -
  note so = nc_store_inv[OF assms(1)]
  let ?s = "nc_store st"
  have sc: "nc_scale st" using assms(1) by (simp add: nc_inv_def)
  have s: "nc_sum tableLog maxSV1 (nc_rescale ?s)" by (rule nc_sum_later[OF so(1)]) simp_all
  have p: "nc_pos hb (nc_advance hb (nc_rescale ?s))" using so(4,5) by (intro nc_advance_pos) simp_all
  have a: "nc_sum tableLog maxSV1 (nc_advance hb (nc_rescale ?s))" by (rule nc_sum_later[OF s]) simp_all
  show "nc_sum tableLog maxSV1 st'" "nc_charnum st' = nc_charnum st + 1"
    using assms(2) so(1) s a by (auto simp: nc_count_def Let_def split: if_splits)
  show "nc_ip st' + 4 \<le> length hb"
    using assms(2) so(4) p by (auto simp: nc_count_def Let_def nc_pos_def split: if_splits)
  assume "\<not> brk"
  then have st': "st' = nc_advance hb (nc_rescale ?s)" "nc_charnum ?s < maxSV1"
      "\<not> (nc_remaining ?s < int (nc_threshold ?s) \<and> nc_remaining ?s \<le> 1)"
    using assms(2) by (auto simp: nc_count_def Let_def split: if_splits)
  have "1 < nc_remaining ?s" using st'(3) so(7) nc_scale_min(1)[OF sc] by linarith
  then have "nc_scale (nc_rescale ?s)"
    using so(3,6,7) sc by (intro nc_rescale_scale) (auto simp: nc_scale_def)
  then have "nc_scale st'" by (rule nc_scale_cong) (simp_all only: st'(1) nc_advance_fields)
  then show "nc_inv tableLog maxSV1 hb st'" using p a st' by (simp add: nc_inv_def)
qed

lemma nc_loop_spec:
  "nc_inv tableLog maxSV1 hb st \<Longrightarrow> nc_sum tableLog maxSV1 (nc_loop hb maxSV1 st)
    \<and> nc_ip (nc_loop hb maxSV1 st) + 4 \<le> length hb
    \<and> (nc_charnum (nc_loop hb maxSV1 st) = 0 \<longrightarrow> 1 < nc_remaining (nc_loop hb maxSV1 st))"
proof (induction hb maxSV1 st rule: nc_loop.induct)
  case (1 hb maxSV1 st)
  obtain brk st' where b: "nc_body hb maxSV1 st = (brk, st')" by fastforce
  have main: "nc_sum tableLog maxSV1 st' \<and> nc_ip st' + 4 \<le> length hb \<and> (\<not> brk \<longrightarrow> nc_inv tableLog maxSV1 hb st')
    \<and> (nc_charnum st' = 0 \<longrightarrow> 1 < nc_remaining st')"
  proof (cases "nc_previous0 st")
    case True
    obtain brk0 s where z: "nc_zeros hb maxSV1 st = (brk0, s)" by fastforce
    note zi = nc_zeros_inv[OF 1(2) z]
    show ?thesis
    proof (cases brk0)
      case True
      then have "st' = s" "brk" using b z \<open>nc_previous0 st\<close> by (auto simp: nc_body_def)
      then show ?thesis using zi by simp
    next
      case False
      then have "nc_count hb maxSV1 s = (brk, st')" using b z \<open>nc_previous0 st\<close> by (simp add: nc_body_def)
      from nc_count_inv[OF zi(3)[OF False] this] show ?thesis by simp
    qed
  next
    case False
    then have "nc_count hb maxSV1 st = (brk, st')" using b by (simp add: nc_body_def)
    from nc_count_inv[OF 1(2) this] show ?thesis by simp
  qed
  show ?case
  proof (cases brk)
    case True
    then show ?thesis using b main by (subst (1 2 3 4) nc_loop.simps) simp
  next
    case False
    then have "nc_loop hb maxSV1 st = nc_loop hb maxSV1 st'" using b by (subst nc_loop.simps) simp
    then show ?thesis using 1(1)[OF b[symmetric] refl False] main False by simp
  qed
qed

lemma FSE_readNCount_body8_spec:
  assumes "FSE_readNCount_body8 maxSV hb = Inr (sz, norm, maxSV', tableLog)" "8 \<le> length hb"
  shows "sz \<le> length hb" "length norm = maxSV + 1" "maxSV' \<le> maxSV" "5 \<le> tableLog" "tableLog \<le> 15"
    "\<forall>c\<in>set norm. -1 \<le> c" "sum_list (map ncount (take (maxSV' + 1) norm)) = 2 ^ tableLog"
proof -
  define n where "n = unat (MEM_readLE32 LittleEndian hb 0 AND 0xF) + 5"
  define st0 where "st0 = \<lparr>nc_norm = replicate (maxSV + 1) 0, nc_charnum = 0, nc_ip = 0, nc_bitCount = 4,
      nc_bitStream = drop_bit 4 (MEM_readLE32 LittleEndian hb 0), nc_nbBits = n + 1,
      nc_remaining = 2 ^ n + 1, nc_threshold = 2 ^ n, nc_previous0 = False\<rparr>"
  define st where "st = nc_loop hb (maxSV + 1) st0"
  have r: "n \<le> 15" "nc_remaining st = 1" "nc_charnum st \<le> maxSV + 1" "nc_bitCount st \<le> 32"
    "sz = nc_ip st + (nc_bitCount st + 7) div 8" "norm = nc_norm st" "maxSV' = nc_charnum st - 1" "tableLog = n"
    using assms(1) unfolding FSE_readNCount_body8_def Let_def n_def[symmetric] st0_def[symmetric] st_def[symmetric]
    by (auto split: if_splits)
  have n5: "5 \<le> n" by (simp add: n_def)
  have "(2::int) ^ 5 \<le> 2 ^ n" using n5 by (intro power_increasing) auto
  then have "2 \<le> (2::int) ^ n" by simp
  then have sc: "nc_scale st0" using r(1) n5 by (simp add: nc_scale_def st0_def)
  have "nc_loaded st0" unfolding nc_loaded_def st0_def by (intro exI[of _ "MEM_readLE32 LittleEndian hb 0"]) simp
  moreover have "nc_pos hb st0" using assms(2) by (simp add: nc_pos_def st0_def)
  moreover have "nc_sum n (maxSV + 1) st0" by (auto simp: nc_sum_def st0_def ncount_def sum_list_replicate nth_Cons' simp del: replicate_Suc)
  ultimately have "nc_inv n (maxSV + 1) hb st0" using sc by (simp add: nc_inv_def st0_def)
  from nc_loop_spec[OF this, folded st_def]
  have l: "nc_sum n (maxSV + 1) st" "nc_ip st + 4 \<le> length hb" "nc_charnum st \<noteq> 0" using r(2) by auto
  show "sz \<le> length hb" using l(2) r(4,5) by linarith
  show "length norm = maxSV + 1" "\<forall>c\<in>set norm. -1 \<le> c" using l(1) r(6) by (auto simp: nc_sum_def)
  show "maxSV' \<le> maxSV" using r(3,7) by simp
  show "5 \<le> tableLog" "tableLog \<le> 15" using r(1,8) by (auto simp: n_def)
  have "\<forall>c\<in>set (drop (nc_charnum st) (nc_norm st)). ncount c = 0"
    using l(1) by (auto simp: nc_sum_def in_set_conv_nth ncount_def)
  then have "sum_list (map ncount (drop (nc_charnum st) (nc_norm st))) = 0" by (simp add: sum_list_nonneg_eq_0_iff)
  moreover have "sum_list (map ncount (nc_norm st)) = sum_list (map ncount (take (nc_charnum st) (nc_norm st)))
      + sum_list (map ncount (drop (nc_charnum st) (nc_norm st)))"
    by (metis append_take_drop_id map_append sum_list_append)
  moreover have "int (sum_list (map ncount (nc_norm st))) = 2 ^ n" using l(1) r(2) by (simp add: nc_sum_def)
  then have "sum_list (map ncount (nc_norm st)) = 2 ^ n" by (metis of_nat_eq_iff of_nat_numeral of_nat_power)
  ultimately show "sum_list (map ncount (take (maxSV' + 1) norm)) = 2 ^ tableLog"
    using l(3) r(6,7,8) by simp
qed

lemma FSE_readNCount_spec:
  assumes "FSE_readNCount_bmi2 maxSV hb = Inr (sz, norm, maxSV', tableLog)"
  shows "sz \<le> length hb" "length norm = maxSV + 1" "maxSV' \<le> maxSV" "5 \<le> tableLog" "tableLog \<le> 15"
    "\<forall>c\<in>set norm. -1 \<le> c" "sum_list (map ncount (take (maxSV' + 1) norm)) = 2 ^ tableLog"
proof -
  have *: "FSE_readNCount_body8 maxSV (hb @ replicate (8 - length hb) 0) = Inr (sz, norm, maxSV', tableLog) \<and> sz \<le> length hb"
  proof (cases "length hb < 8")
    case True
    then show ?thesis using assms by (auto simp: FSE_readNCount_bmi2_def FSE_readNCount_body_def split: if_splits)
  next
    case False
    then show ?thesis using assms FSE_readNCount_body8_spec(1)[of maxSV hb]
      by (auto simp: FSE_readNCount_bmi2_def FSE_readNCount_body_def)
  qed
  show "sz \<le> length hb" using * by simp
  have "8 \<le> length (hb @ replicate (8 - length hb) 0)" by simp
  from FSE_readNCount_body8_spec(2-)[OF conjunct1[OF *] this]
  show "length norm = maxSV + 1" "maxSV' \<le> maxSV" "5 \<le> tableLog" "tableLog \<le> 15"
    "\<forall>c\<in>set norm. -1 \<le> c" "sum_list (map ncount (take (maxSV' + 1) norm)) = 2 ^ tableLog" by auto
qed

lemma normalized_readNCount:
  assumes "FSE_readNCount_bmi2 maxSV hb = Inr (sz, norm, maxSV', tableLog)" "tableLog \<le> 12" "maxSV \<le> 255"
  shows "normalized tableLog (take (maxSV' + 1) norm)"
  using FSE_readNCount_spec[OF assms(1)] assms(2,3) by (auto simp: normalized_def dest: in_set_takeD)

subsection \<open>Decoders stay in their destination\<close>

lemma FSE_decompress_tail_length:
  "FSE_decompress_tail fast maxDstSize bitD state1 state2 out = Inr r \<Longrightarrow> length r \<le> maxDstSize"
proof (induction "maxDstSize - length out" arbitrary: bitD state1 state2 out rule: less_induct)
  case less
  obtain a s1 d1 where 1: "FSE_GETSYMBOL fast state1 bitD = (a, s1, d1)" by (metis prod_cases3)
  obtain st1 d2 where 2: "BIT_reloadDStream d1 = (st1, d2)" by fastforce
  obtain b s2 d3 where 3: "FSE_GETSYMBOL fast state2 d2 = (b, s2, d3)" by (metis prod_cases3)
  obtain st2 d4 where 4: "BIT_reloadDStream d3 = (st2, d4)" by fastforce
  obtain c s3 d5 where 5: "FSE_GETSYMBOL fast s1 d4 = (c, s3, d5)" by (metis prod_cases3)
  note eq = less.prems[unfolded FSE_decompress_tail.simps[of fast maxDstSize bitD], simplified 1 2 3 4 5 Let_def prod.case]
  show ?case
  proof (cases "length out + 2 > maxDstSize \<or> st1 = BIT_DStream_overflow \<or> length out + 3 > maxDstSize \<or> st2 = BIT_DStream_overflow")
    case True
    then show ?thesis using eq by (auto split: if_splits)
  next
    case False
    then have "FSE_decompress_tail fast maxDstSize d4 s1 s2 (out @ [a, b]) = Inr r"
      using eq by simp
    moreover have "maxDstSize - length (out @ [a, b]) < maxDstSize - length out" using False by auto
    ultimately show ?thesis using less.hyps by blast
  qed
qed

lemma FSE_decompress_length:
  "FSE_decompress_usingDTable_generic maxDstSize cSrc dt fast = Inr r \<Longrightarrow> length r \<le> maxDstSize"
  by (auto simp: FSE_decompress_usingDTable_generic_def Let_def case_prod_unfold
      split: if_splits
      dest!: FSE_decompress_tail_length)

lemma FSE_decompress_wksp_length:
  "FSE_decompress_wksp_bmi2 dstCapacity cSrc maxLog dtable workSpace = Inr r \<Longrightarrow> length r \<le> dstCapacity"
  by (auto simp: FSE_decompress_wksp_bmi2_def FSE_decompress_wksp_body_def split: if_splits
      dest!: FSE_decompress_length)

subsection \<open>Huffman weights form a complete code\<close>

lemma HUF_collect_spec:
  "HUF_collect ws rs t = Inr (rs', t') \<Longrightarrow> length rs = 13 \<Longrightarrow>
    (\<forall>w\<in>set ws. w \<le> 12) \<and> length rs' = 13 \<and> t' = t + (\<Sum>w\<leftarrow>ws. 2 ^ w div 2)
    \<and> (\<forall>w\<le>12. rs' ! w = rs ! w + count_list ws w)"
proof (induction ws rs t rule: HUF_collect.induct)
  case (2 w ws rs t)
  then have w: "w \<le> 12" and r: "HUF_collect ws (rs[w := rs ! w + 1]) (t + 2 ^ w div 2) = Inr (rs', t')"
    by (auto split: if_splits)
  from 2(1)[OF _ r] w 2(3) show ?case by (auto simp: nth_list_update)
qed auto

lemma HUF_readWeights_direct:
  assumes "HUF_readWeights hwSize src dtable workSpace = Inr (ws, iSize)" "unat (src ! 0) \<ge> 128"
  shows "length ws < hwSize \<and> iSize + 1 \<le> length src"
proof -
  define o1 where "o1 = unat (src ! 0) - 127"
  have "(if (o1 + 1) div 2 + 1 > length src then Inl ZSTD_error_srcSize_wrong
      else if o1 \<ge> hwSize then Inl ZSTD_error_corruption_detected
      else Inr (take o1 (concat (map (\<lambda>b. [unat (drop_bit 4 b), unat (b AND 15)]) (take ((o1 + 1) div 2) (drop 1 src)))), (o1 + 1) div 2))
     = Inr (ws, iSize)"
    using assms by (simp only: HUF_readWeights_def Let_def o1_def if_True)
  then show ?thesis by (simp split: if_splits) auto
qed

lemma HUF_readWeights_spec:
  assumes "HUF_readWeights hwSize src dtable workSpace = Inr (ws, iSize)" "0 < hwSize"
  shows "length ws < hwSize" "iSize + 1 \<le> length src"
proof -
  have "length ws < hwSize \<and> iSize + 1 \<le> length src"
  proof (cases "unat (src ! 0) \<ge> 128")
    case True
    then show ?thesis by (rule HUF_readWeights_direct[OF assms(1)])
  next
    case False
    let ?r = "FSE_decompress_wksp_bmi2 (hwSize - 1) (take (unat (src ! 0)) (drop 1 src)) 6 dtable workSpace"
    have "(if unat (src ! 0) + 1 > length src then Inl ZSTD_error_srcSize_wrong
        else bindE ?r (\<lambda>w. Inr (w, unat (src ! 0)))) = Inr (ws, iSize)"
      using assms(1) False by (simp only: HUF_readWeights_def Let_def if_False)
    then have "?r = Inr ws" "iSize = unat (src ! 0)" "unat (src ! 0) + 1 \<le> length src"
      by (auto split: if_splits)
    moreover from FSE_decompress_wksp_length[OF this(1)] have "length ws \<le> hwSize - 1" .
    ultimately show ?thesis using assms(2) by simp
  qed
  then show "length ws < hwSize" "iSize + 1 \<le> length src" by auto
qed

subsection \<open>Properties\<close>

lemma highbit_nat:
  assumes "1 \<le> n" "n < 2 ^ 32"
  shows "2 ^ ZSTD_highbit32 (of_nat n) \<le> n" "n < 2 ^ Suc (ZSTD_highbit32 (of_nat n))"
proof -
  have u: "unat (of_nat n :: U32) = n" using assms(2) by (simp add: unat_of_nat)
  have "(of_nat n :: U32) \<noteq> 0" using u assms(1) by (metis not_one_le_zero unsigned_0)
  from highbit32_bounds[OF this, unfolded u]
  show "2 ^ ZSTD_highbit32 (of_nat n) \<le> n" "n < 2 ^ Suc (ZSTD_highbit32 (of_nat n))" by auto
qed

text \<open>
  Property C11: whatever the bytes, if \<open>FSE_readNCount\<close> accepts a header it has read no further
  than the buffer, the table log is in range, no symbol lies beyond the caller's limit, and the
  counts fill the table exactly; so the decoding table of an accepted header with a supported
  table log can always be built.\<close>

theorem readNCount_sound:
  assumes "FSE_readNCount maxSV hb = Inr (sz, norm, maxSV', tableLog)"
  shows "sz \<le> length hb \<and> maxSV' \<le> maxSV \<and> 5 \<le> tableLog \<and> tableLog \<le> 15
    \<and> (\<forall>c\<in>set norm. -1 \<le> c) \<and> sum_list (map ncount (take (maxSV' + 1) norm)) = 2 ^ tableLog
    \<and> (maxSV \<le> 255 \<and> tableLog \<le> 12 \<and> FSE_BUILD_DTABLE_WKSP_SIZE tableLog maxSV' \<le> length workSpace
         \<and> 2 ^ tableLog \<le> length (dt_table dt)
       \<longrightarrow> (\<exists>dt'. FSE_buildDTable_wksp e dt norm maxSV' tableLog workSpace = Inr dt'))"
proof -
  have r: "FSE_readNCount_bmi2 maxSV hb = Inr (sz, norm, maxSV', tableLog)" using assms by (simp add: FSE_readNCount_def)
  note s = FSE_readNCount_spec[OF r]
  have "\<exists>dt'. FSE_buildDTable_wksp e dt norm maxSV' tableLog workSpace = Inr dt'"
    if h: "maxSV \<le> 255" "tableLog \<le> 12" "FSE_BUILD_DTABLE_WKSP_SIZE tableLog maxSV' \<le> length workSpace"
      "2 ^ tableLog \<le> length (dt_table dt)"
  proof -
    have "maxSV' < length norm" "maxSV' \<le> 255" using s(2,3) h(1) by auto
    from FSE_buildDTable_ok[OF normalized_readNCount[OF r h(2,1)] this h(3,4), of e] show ?thesis by blast
  qed
  with s show ?thesis by blast
qed

lemma readNCount_example: "FSE_readNCount 1 [0x10, 0x3F, 0, 0, 0, 0, 0, 0] = Inr (2, [16, 16], 1, 5)"
proof -
  let ?hb = "[0x10, 0x3F, 0, 0, 0, 0, 0, 0] :: buffer"
  have r0: "MEM_readLE32 LittleEndian ?hb 0 = 0x3F10" and r1: "MEM_readLE32 LittleEndian ?hb 1 = 0x3F"
    by (simp_all add: mem_read_eqs bytes_at_def)
  have hb: "ZSTD_highbit32 17 = 4" by (rule highbit32_unique) simp_all
  let ?st = "\<lparr>nc_norm = [0, 0], nc_charnum = 0, nc_ip = 0, nc_bitCount = 4, nc_bitStream = 0x3F1, nc_nbBits = 6,
    nc_remaining = 33, nc_threshold = 32, nc_previous0 = False\<rparr>"
  let ?st1 = "\<lparr>nc_norm = [16, 0], nc_charnum = 1, nc_ip = 1, nc_bitCount = 1, nc_bitStream = 0x1F, nc_nbBits = 5,
    nc_remaining = 17, nc_threshold = 16, nc_previous0 = False\<rparr>"
  have 1: "nc_body ?hb 2 ?st = (False, ?st1)"
    by (simp add: nc_body_def nc_count_def nc_store_def nc_value_def nc_rescale_def nc_advance_def nc_reload_def hb r1[simplified])
  have 2: "nc_body ?hb 2 ?st1 = (True, ?st1\<lparr>nc_norm := [16, 16], nc_charnum := 2, nc_bitCount := 6, nc_remaining := 1\<rparr>)"
    by (simp add: nc_body_def nc_count_def nc_store_def nc_value_def)
  have "nc_loop ?hb 2 ?st = ?st1\<lparr>nc_norm := [16, 16], nc_charnum := 2, nc_bitCount := 6, nc_remaining := 1\<rparr>"
    by (subst nc_loop.simps, simp only: 1, simp only: prod.case Let_def if_False, subst nc_loop.simps, simp only: 2, simp)
  moreover have "replicate 2 (0::int) = [0, 0]" by (simp add: numeral_2_eq_2)
  ultimately show ?thesis
    by (simp add: FSE_readNCount_def FSE_readNCount_bmi2_def FSE_readNCount_body_def FSE_readNCount_body8_def
        r0 Let_def numeral_2_eq_2[symmetric] del: nc_loop.simps)
qed

theorem readNCount_sound_witness:
  "\<exists>sz norm maxSV' tableLog. FSE_readNCount 1 [0x10, 0x3F, 0, 0, 0, 0, 0, 0] = Inr (sz, norm, maxSV', tableLog)
     \<and> sz \<le> 8 \<and> sum_list (map ncount (take (maxSV' + 1) norm)) = 2 ^ tableLog"
  using readNCount_sound[OF readNCount_example, of "[]" "\<lparr>dt_tableLog = 0, dt_fastMode = False, dt_table = []\<rparr>" LittleEndian]
    readNCount_example by auto

lemma HUF_readStats_complete:
  assumes "HUF_readStats_wksp hwSize src dtable workSpace = Inr (sz, hs)" "0 < hwSize" "hwSize \<le> 256"
  shows "1 \<le> hs_tableLog hs \<and> length (hs_rankStats hs) = 13
    \<and> sz \<le> length src \<and> length (hs_weights hs) \<le> hwSize \<and> hs_tableLog hs \<le> 12
    \<and> (\<forall>w\<in>set (hs_weights hs). w \<le> hs_tableLog hs)
    \<and> (\<Sum>w\<leftarrow>hs_weights hs. 2 ^ w div 2) = (2::nat) ^ hs_tableLog hs
    \<and> (\<forall>w\<le>12. hs_rankStats hs ! w = count_list (hs_weights hs) w)
    \<and> 2 \<le> count_list (hs_weights hs) 1 \<and> even (count_list (hs_weights hs) 1)"
proof -
  obtain ws iSize where w: "HUF_readWeights hwSize src dtable workSpace = Inr (ws, iSize)"
    using assms(1) by (auto simp: HUF_readStats_wksp_def HUF_readStats_body_def split: if_splits)
  obtain rs t where c: "HUF_collect ws (replicate 13 0) 0 = Inr (rs, t)"
    using assms(1) w by (auto simp: HUF_readStats_wksp_def HUF_readStats_body_def split: if_splits)
  define tl where "tl = ZSTD_highbit32 (of_nat t) + 1"
  define lw where "lw = ZSTD_highbit32 (of_nat (2 ^ tl - t)) + 1"
  define rs' where "rs' = rs[lw := rs ! lw + 1]"
  have h: "t \<noteq> 0" "tl \<le> 12" "2 ^ (lw - 1) = 2 ^ tl - t" "\<not> (rs' ! 1 < 2 \<or> odd (rs' ! 1))" "sz = iSize + 1"
      "hs = \<lparr>hs_weights = ws @ [lw], hs_rankStats = rs', hs_tableLog = tl\<rparr>"
    using assms(1) w c
    unfolding HUF_readStats_wksp_def HUF_readStats_body_def Let_def tl_def lw_def rs'_def
    by (auto split: if_splits)
  note cs = HUF_collect_spec[OF c] and ws = HUF_readWeights_spec[OF w assms(2)]
  have cs': "\<forall>w\<in>set ws. w \<le> 12" "length rs = 13" "t = (\<Sum>w\<leftarrow>ws. 2 ^ w div 2)" "\<forall>w\<le>12. rs ! w = count_list ws w"
    using cs by auto
  have "2 ^ w div 2 \<le> (4096::nat)" if "w \<in> set ws" for w
  proof -
    have "(2::nat) ^ w \<le> 2 ^ 12" using cs'(1) that by (intro power_increasing) auto
    then show ?thesis by simp
  qed
  then have "t \<le> length ws * 4096" unfolding cs'(3)
    using sum_list_mono[of ws "\<lambda>w. 2 ^ w div 2" "\<lambda>_. 4096 :: nat"] by (simp add: sum_list_triv)
  then have t32: "t < 2 ^ 32" using ws(1) assms(3) by simp
  have hb: "2 ^ (tl - 1) \<le> t" "t < 2 ^ tl" using highbit_nat[of t] h(1) t32 by (auto simp: tl_def)
  have tl1: "2 ^ tl = 2 * (2::nat) ^ (tl - 1)" by (simp add: tl_def)
  have lwb: "lw \<le> tl"
  proof -
    have "(2::nat) ^ (lw - 1) \<le> 2 ^ (tl - 1)" using h(3) hb(1) tl1 by linarith
    then have "lw - 1 \<le> tl - 1" by simp
    then show ?thesis by (simp add: lw_def tl_def)
  qed
  have sum: "(\<Sum>w\<leftarrow>ws @ [lw]. 2 ^ w div 2) = (2::nat) ^ tl"
    using h(3) hb(2) cs'(3) by (simp add: lw_def)
  have "\<forall>w\<in>set ws. w \<le> tl"
  proof
    fix w assume wm: "w \<in> set ws"
    have "2 ^ w div 2 \<le> (\<Sum>w\<leftarrow>ws. 2 ^ w div 2 :: nat)" by (rule member_le_sum_list) (use wm in auto)
    then have "2 ^ w div 2 < (2::nat) ^ tl" using hb(2) cs'(3) by linarith
    moreover have "(1::nat) < 2 ^ Suc tl" by (rule one_less_power) auto
    ultimately have "(2::nat) ^ w < 2 ^ Suc tl" by (cases w) auto
    then show "w \<le> tl" using power_less_imp_less_exp[of "2::nat" w "Suc tl"] by simp
  qed
  moreover have "\<forall>w\<le>12. rs' ! w = count_list (ws @ [lw]) w"
    using cs'(2,4) lwb h(2) by (auto simp: rs'_def nth_list_update)
  moreover from this have "rs' ! 1 = count_list (ws @ [lw]) 1" by simp
  moreover have "length rs' = 13" using cs'(2) by (simp add: rs'_def)
  moreover have "1 \<le> tl" by (simp add: tl_def)
  ultimately show ?thesis using h ws lwb sum by auto
qed

text \<open>
  Property C25: whatever the bytes, if \<open>HUF_readStats\<close> accepts a header it has read no further
  than the source, the weights including the implied last one fit the caller's array, the rank
  statistics count them, and they describe a complete prefix code: the cells \<open>2 ^ (w - 1)\<close> of the
  symbols of weight \<open>w > 0\<close> add up to \<open>2 ^ tableLog\<close>, with \<open>tableLog\<close> at most 12 and an even
  number of symbols of the longest code length.\<close>

theorem HUF_readStats_complete_code:
  assumes "HUF_readStats_wksp hwSize src dtable workSpace = Inr (sz, hs)" "0 < hwSize" "hwSize \<le> 256"
  shows "sz \<le> length src \<and> length (hs_weights hs) \<le> hwSize \<and> hs_tableLog hs \<le> 12
    \<and> (\<forall>w\<in>set (hs_weights hs). w \<le> hs_tableLog hs)
    \<and> (\<Sum>w\<leftarrow>hs_weights hs. 2 ^ w div 2) = (2::nat) ^ hs_tableLog hs
    \<and> (\<forall>w\<le>12. hs_rankStats hs ! w = count_list (hs_weights hs) w)
    \<and> 2 \<le> count_list (hs_weights hs) 1 \<and> even (count_list (hs_weights hs) 1)"
  using HUF_readStats_complete[OF assms] by simp

theorem HUF_readStats_complete_code_witness:
  "\<exists>sz hs. HUF_readStats_wksp 256 [129, 0x11] \<lparr>dt_tableLog = 0, dt_fastMode = False, dt_table = []\<rparr> [] = Inr (sz, hs)
     \<and> sz \<le> 2 \<and> (\<Sum>w\<leftarrow>hs_weights hs. 2 ^ w div 2) = (2::nat) ^ hs_tableLog hs"
proof -
  let ?dt = "\<lparr>dt_tableLog = 0, dt_fastMode = False, dt_table = []\<rparr>"
  have h: "ZSTD_highbit32 2 = 1" by (rule highbit32_unique) simp_all
  have "HUF_readWeights 256 [129, 0x11] ?dt [] = Inr ([1, 1], 1)"
    by (simp add: HUF_readWeights_def)
  moreover have "HUF_collect [1, 1] (replicate 13 0) 0 = Inr ((replicate 13 0)[1 := 2], 2)"
    by (simp add: numeral_2_eq_2)
  ultimately have "HUF_readStats_wksp 256 [129, 0x11] ?dt [] = Inr (2, \<lparr>hs_weights = [1, 1, 2],
      hs_rankStats = ((replicate 13 0)[1 := 2])[2 := 1], hs_tableLog = 2\<rparr>)"
    by (simp add: HUF_readStats_wksp_def HUF_readStats_body_def h Let_def numeral_2_eq_2[symmetric])
  from HUF_readStats_complete_code[OF this] this show ?thesis by auto
qed

end
