(* ===== verification/Zstd_Normalize.thy ===== *)
theory Zstd_Normalize
  imports Zstd_NCount
begin

section \<open>Normalization of counts\<close>

text \<open>
  The choice of the accuracy of a table and the scaling of a histogram to it, of
  \<^verbatim>\<open>compress/fse_compress.c\<close>: \<^verbatim>\<open>FSE_optimalTableLog\<close>, \<^verbatim>\<open>FSE_normalizeCount\<close>
  and its second method \<^verbatim>\<open>FSE_normalizeM2\<close>.  On every histogram of two symbols or more,
  at every accuracy the first function chooses, normalization ends without an error, and its result
  is a normalized distribution in which exactly the symbols that occur have a share: what the table
  builders ask for.
\<close>

subsection \<open>Machine arithmetic\<close>

text \<open>Casts and subtractions of the machine types, on numbers.\<close>

definition u32 :: "nat \<Rightarrow> nat" where "u32 n = n mod 2 ^ 32"
definition u64 :: "nat \<Rightarrow> nat" where "u64 n = n mod 2 ^ 64"
definition sub_u32 :: "nat \<Rightarrow> nat \<Rightarrow> nat" where "sub_u32 a b = (a + 2 ^ 32 - b) mod 2 ^ 32"
definition sub_u64 :: "nat \<Rightarrow> nat \<Rightarrow> nat" where "sub_u64 a b = (a + 2 ^ 64 - b) mod 2 ^ 64"
definition short :: "int \<Rightarrow> int" where "short x = (x + 32768) mod 65536 - 32768"

subsection \<open>The accuracy of a table\<close>

definition FSE_MAX_TABLELOG :: nat where "FSE_MAX_TABLELOG = 12"
definition FSE_DEFAULT_TABLELOG :: nat where "FSE_DEFAULT_TABLELOG = 11"
definition FSE_MIN_TABLELOG :: nat where "FSE_MIN_TABLELOG = 5"

definition FSE_minTableLog :: "nat \<Rightarrow> nat \<Rightarrow> nat" where
  "FSE_minTableLog srcSize maxSymbolValue =
     (let minBitsSrc = ZSTD_highbit32 (of_nat srcSize) + 1;
          minBitsSymbols = ZSTD_highbit32 (of_nat maxSymbolValue) + 2
      in if minBitsSrc < minBitsSymbols then minBitsSrc else minBitsSymbols)"

definition FSE_optimalTableLog_internal :: "nat \<Rightarrow> nat \<Rightarrow> nat \<Rightarrow> nat \<Rightarrow> nat" where
  "FSE_optimalTableLog_internal maxTableLog srcSize maxSymbolValue reduction =
     (let maxBitsSrc = sub_u32 (ZSTD_highbit32 (of_nat (srcSize - 1))) reduction;
          tableLog = maxTableLog;
          minBits = FSE_minTableLog srcSize maxSymbolValue;
          tableLog = (if tableLog = 0 then FSE_DEFAULT_TABLELOG else tableLog);
          tableLog = (if maxBitsSrc < tableLog then maxBitsSrc else tableLog);
          tableLog = (if minBits > tableLog then minBits else tableLog);
          tableLog = (if tableLog < FSE_MIN_TABLELOG then FSE_MIN_TABLELOG else tableLog)
      in if tableLog > FSE_MAX_TABLELOG then FSE_MAX_TABLELOG else tableLog)"

definition FSE_optimalTableLog :: "nat \<Rightarrow> nat \<Rightarrow> nat \<Rightarrow> nat" where
  "FSE_optimalTableLog maxTableLog srcSize maxSymbolValue =
     FSE_optimalTableLog_internal maxTableLog srcSize maxSymbolValue 2"

subsection \<open>The second method\<close>

definition NOT_YET_ASSIGNED :: int where "NOT_YET_ASSIGNED = -2"

text \<open>The first pass over the counts: the state is the array, \<open>distributed\<close> and \<open>total\<close>.\<close>

definition m2_low ::
  "nat list \<Rightarrow> nat \<Rightarrow> nat \<Rightarrow> int \<Rightarrow> nat \<Rightarrow> int list \<times> nat \<times> nat \<Rightarrow> int list \<times> nat \<times> nat" where
  "m2_low counts lowThreshold lowOne lowProbCount s = (\<lambda>(norm, distributed, totalCount).
     if counts ! s = 0 then (norm[s := 0], distributed, totalCount)
     else if counts ! s \<le> lowThreshold then (norm[s := lowProbCount], u32 (distributed + 1), sub_u64 totalCount (counts ! s))
     else if counts ! s \<le> lowOne then (norm[s := 1], u32 (distributed + 1), sub_u64 totalCount (counts ! s))
     else (norm[s := NOT_YET_ASSIGNED], distributed, totalCount))"

text \<open>The second pass, with a higher bound.\<close>

definition m2_one :: "nat list \<Rightarrow> nat \<Rightarrow> nat \<Rightarrow> int list \<times> nat \<times> nat \<Rightarrow> int list \<times> nat \<times> nat" where
  "m2_one counts lowOne s = (\<lambda>(norm, distributed, totalCount).
     if norm ! s = NOT_YET_ASSIGNED \<and> counts ! s \<le> lowOne
     then (norm[s := 1], u32 (distributed + 1), sub_u64 totalCount (counts ! s))
     else (norm, distributed, totalCount))"

definition m2_max :: "nat list \<Rightarrow> nat \<Rightarrow> nat \<times> nat \<Rightarrow> nat \<times> nat" where
  "m2_max counts s = (\<lambda>(maxV, maxC). if counts ! s > maxC then (s, counts ! s) else (maxV, maxC))"

text \<open>The points left are handed out in turns; the loop does not end if no symbol takes them.\<close>

partial_function (option) m2_turns :: "nat \<Rightarrow> nat \<Rightarrow> nat \<Rightarrow> int list \<Rightarrow> int list option" where
  "m2_turns maxSymbolValue s ToDistribute norm =
     (if ToDistribute > 0
      then if norm ! s > 0
           then m2_turns maxSymbolValue ((s + 1) mod (maxSymbolValue + 1)) (ToDistribute - 1) (norm[s := short (norm ! s + 1)])
           else m2_turns maxSymbolValue ((s + 1) mod (maxSymbolValue + 1)) ToDistribute norm
      else Some norm)"

text \<open>The symbols not yet assigned get their share of the rest, rounded on the running total.\<close>

fun m2_scale :: "nat list \<Rightarrow> nat \<Rightarrow> nat \<Rightarrow> nat list \<Rightarrow> nat \<Rightarrow> int list \<Rightarrow> ZSTD_ErrorCode + int list" where
  "m2_scale counts vStepLog rStep [] tmpTotal norm = Inr norm"
| "m2_scale counts vStepLog rStep (s # ss) tmpTotal norm =
     (if norm ! s = NOT_YET_ASSIGNED
      then let newTotal = u64 (tmpTotal + u64 (counts ! s * rStep));
               sStart = u32 (tmpTotal div 2 ^ vStepLog);
               sEnd = u32 (newTotal div 2 ^ vStepLog);
               weight = sub_u32 sEnd sStart
           in if weight < 1 then Inl ZSTD_error_GENERIC
              else m2_scale counts vStepLog rStep ss newTotal (norm[s := short (int weight)])
      else m2_scale counts vStepLog rStep ss tmpTotal norm)"

definition FSE_normalizeM2 ::
  "int list \<Rightarrow> nat \<Rightarrow> nat list \<Rightarrow> nat \<Rightarrow> nat \<Rightarrow> int \<Rightarrow> (ZSTD_ErrorCode + int list) option" where
  "FSE_normalizeM2 norm tableLog counts totalCount maxSymbolValue lowProbCount =
     (let lowThreshold = u32 (totalCount div 2 ^ tableLog);
          lowOne = u32 (u64 (totalCount * 3) div 2 ^ (tableLog + 1));
          (norm, distributed, totalCount) =
            fold (m2_low counts lowThreshold lowOne lowProbCount) [0..<maxSymbolValue + 1] (norm, 0, totalCount);
          ToDistribute = sub_u32 (2 ^ tableLog) distributed
      in if ToDistribute = 0 then Some (Inr norm)
         else
           let (norm, distributed, totalCount, ToDistribute) =
                 (if totalCount div ToDistribute > lowOne
                  then let lowOne = u32 (u64 (totalCount * 3) div u32 (ToDistribute * 2));
                           (norm, distributed, totalCount) = fold (m2_one counts lowOne) [0..<maxSymbolValue + 1] (norm, distributed, totalCount)
                       in (norm, distributed, totalCount, sub_u32 (2 ^ tableLog) distributed)
                  else (norm, distributed, totalCount, ToDistribute))
           in if distributed = maxSymbolValue + 1
              then let (maxV, maxC) = fold (m2_max counts) [0..<maxSymbolValue + 1] (0, 0)
                   in Some (Inr (norm[maxV := short (norm ! maxV + short (int ToDistribute))]))
              else if totalCount = 0
              then map_option Inr (m2_turns maxSymbolValue 0 ToDistribute norm)
              else
                let vStepLog = 62 - tableLog;
                    mid = 2 ^ (vStepLog - 1) - 1;
                    rStep = u64 (u64 (2 ^ vStepLog * ToDistribute) + mid) div u32 totalCount
                in Some (m2_scale counts vStepLog rStep [0..<maxSymbolValue + 1] mid norm))"

subsection \<open>The first method\<close>

definition rtbTable :: "nat list" where
  "rtbTable = [0, 473195, 504333, 520860, 550000, 700000, 750000, 830000]"

record norm_state =
  ns_norm :: "int list"
  ns_still :: int
  ns_largest :: nat
  ns_largestP :: int

text \<open>The share of a counts, rounded up if the rest beats a bound that depends on the share.\<close>

definition norm_proba :: "nat \<Rightarrow> nat \<Rightarrow> nat \<Rightarrow> int" where
  "norm_proba scale step c =
     (let vStep = 2 ^ (scale - 20);
          proba = short (int (u64 (c * step) div 2 ^ scale))
      in if proba < 8
         then let restToBeat = u64 (vStep * rtbTable ! nat proba)
              in short (proba + (if sub_u64 (u64 (c * step)) (u64 (nat proba * 2 ^ scale)) > restToBeat then 1 else 0))
         else proba)"

text \<open>The loop stops, with \<open>True\<close>, at a symbol that has all of the total.\<close>

fun norm_loop ::
  "nat list \<Rightarrow> nat \<Rightarrow> nat \<Rightarrow> nat \<Rightarrow> int \<Rightarrow> nat \<Rightarrow> nat list \<Rightarrow> norm_state \<Rightarrow> bool \<times> norm_state" where
  "norm_loop counts totalCount scale step lowProbCount lowThreshold [] st = (False, st)"
| "norm_loop counts totalCount scale step lowProbCount lowThreshold (s # ss) st =
     (if counts ! s = totalCount then (True, st)
      else norm_loop counts totalCount scale step lowProbCount lowThreshold ss
        (if counts ! s = 0 then st\<lparr>ns_norm := (ns_norm st)[s := 0]\<rparr>
         else if counts ! s \<le> lowThreshold
         then st\<lparr>ns_norm := (ns_norm st)[s := lowProbCount], ns_still := ns_still st - 1\<rparr>
         else
           let proba = norm_proba scale step (counts ! s);
               st = (if proba > ns_largestP st then st\<lparr>ns_largestP := proba, ns_largest := s\<rparr> else st)
           in st\<lparr>ns_norm := (ns_norm st)[s := proba], ns_still := ns_still st - proba\<rparr>))"

text \<open>The result is the accuracy, 0 for a source of one symbol, with the array.\<close>

definition FSE_normalizeCount ::
  "int list \<Rightarrow> nat \<Rightarrow> nat list \<Rightarrow> nat \<Rightarrow> nat \<Rightarrow> bool \<Rightarrow> (ZSTD_ErrorCode + nat \<times> int list) option" where
  "FSE_normalizeCount normalizedCounter tableLog counts totalCount maxSymbolValue useLowProbCount =
     (let tableLog = (if tableLog = 0 then FSE_DEFAULT_TABLELOG else tableLog)
      in if tableLog < FSE_MIN_TABLELOG then Some (Inl ZSTD_error_GENERIC)
         else if tableLog > FSE_MAX_TABLELOG then Some (Inl ZSTD_error_tableLog_tooLarge)
         else if tableLog < FSE_minTableLog totalCount maxSymbolValue then Some (Inl ZSTD_error_GENERIC)
         else
           let lowProbCount = (if useLowProbCount then -1 else 1);
               scale = 62 - tableLog;
               step = 2 ^ 62 div u32 totalCount;
               lowThreshold = u32 (totalCount div 2 ^ tableLog);
               (rle, st) = norm_loop counts totalCount scale step lowProbCount lowThreshold [0..<maxSymbolValue + 1]
                 \<lparr>ns_norm = normalizedCounter, ns_still = 2 ^ tableLog, ns_largest = 0, ns_largestP = 0\<rparr>
           in if rle then Some (Inr (0, ns_norm st))
              else if - ns_still st \<ge> ns_norm st ! ns_largest st div 2
              then map_option (\<lambda>r. bindE r (\<lambda>norm. Inr (tableLog, norm)))
                     (FSE_normalizeM2 (ns_norm st) tableLog counts totalCount maxSymbolValue lowProbCount)
              else Some (Inr (tableLog, (ns_norm st)[ns_largest st :=
                     short (ns_norm st ! ns_largest st + short (ns_still st))])))"

subsection \<open>Histograms and accuracies\<close>

text \<open>The counts of a source in which no symbol has all of the total.\<close>

definition histogram :: "nat list \<Rightarrow> nat \<Rightarrow> nat \<Rightarrow> bool" where
  "histogram counts totalCount maxSymbolValue \<longleftrightarrow>
     length counts = maxSymbolValue + 1 \<and> sum_list counts = totalCount \<and> 1 \<le> maxSymbolValue \<and> maxSymbolValue \<le> 255
     \<and> totalCount < 2 ^ 32 \<and> (\<forall>c\<in>set counts. c < totalCount)"

text \<open>There are fewer units than cells, or at least two cells for a symbol.\<close>

definition roomy :: "nat list \<Rightarrow> nat \<Rightarrow> nat \<Rightarrow> bool" where
  "roomy counts totalCount tableLog \<longleftrightarrow> totalCount < 2 ^ tableLog \<or> 2 * length counts \<le> 2 ^ tableLog"

lemma histogram_total: "histogram counts totalCount maxSymbolValue \<Longrightarrow> 1 < totalCount"
proof (rule ccontr)
  assume h: "histogram counts totalCount maxSymbolValue" and "\<not> 1 < totalCount"
  then have "\<forall>c\<in>set counts. c = 0" by (fastforce simp: histogram_def)
  then have "sum_list counts = 0" by (simp add: sum_list_eq_0_iff)
  moreover have "counts ! 0 \<in> set counts" using h by (intro nth_mem) (simp add: histogram_def)
  then have "counts ! 0 < sum_list counts" using h by (simp add: histogram_def)
  ultimately show False by linarith
qed

lemma minTableLog_roomy:
  assumes "histogram counts totalCount maxSymbolValue" "FSE_minTableLog totalCount maxSymbolValue \<le> tableLog"
  shows "roomy counts totalCount tableLog"
proof -
  have t: "1 \<le> totalCount" "totalCount < 2 ^ 32" "1 \<le> maxSymbolValue" "maxSymbolValue < 2 ^ 32" "length counts = maxSymbolValue + 1"
    using assms(1) histogram_total[OF assms(1)] by (auto simp: histogram_def)
  let ?a = "ZSTD_highbit32 (of_nat totalCount) + 1" and ?b = "ZSTD_highbit32 (of_nat maxSymbolValue) + 2"
  have "?a \<le> tableLog \<or> ?b \<le> tableLog" using assms(2) by (auto simp: FSE_minTableLog_def Let_def split: if_splits)
  then show ?thesis
  proof
    assume "?a \<le> tableLog"
    then have "(2::nat) ^ ?a \<le> 2 ^ tableLog" by (intro power_increasing) auto
    then show ?thesis using highbit_nat(2)[OF t(1,2)] by (simp add: roomy_def)
  next
    assume "?b \<le> tableLog"
    then have "(2::nat) ^ ?b \<le> 2 ^ tableLog" by (intro power_increasing) auto
    moreover have "maxSymbolValue + 1 \<le> 2 ^ (ZSTD_highbit32 (of_nat maxSymbolValue) + 1)" using highbit_nat(2)[OF t(3,4)] by simp
    ultimately show ?thesis using t(5) by (simp add: roomy_def)
  qed
qed

lemma minTableLog_bound: "1 \<le> maxSymbolValue \<Longrightarrow> maxSymbolValue \<le> 255 \<Longrightarrow> FSE_minTableLog srcSize maxSymbolValue \<le> 9"
proof -
  assume m: "1 \<le> maxSymbolValue" "maxSymbolValue \<le> 255"
  have "2 ^ ZSTD_highbit32 (of_nat maxSymbolValue) \<le> maxSymbolValue" using highbit_nat(1)[of maxSymbolValue] m by simp
  then have "2 ^ ZSTD_highbit32 (of_nat maxSymbolValue) < (2::nat) ^ 8" using m by simp
  then have "ZSTD_highbit32 (of_nat maxSymbolValue) < 8" by (rule power_less_imp_less_exp[rotated]) simp
  then show ?thesis by (auto simp: FSE_minTableLog_def Let_def)
qed

lemma optimalTableLog_bounds:
  assumes "1 \<le> maxSymbolValue" "maxSymbolValue \<le> 255"
  shows "5 \<le> FSE_optimalTableLog maxTableLog srcSize maxSymbolValue" "FSE_optimalTableLog maxTableLog srcSize maxSymbolValue \<le> 12"
    "FSE_minTableLog srcSize maxSymbolValue \<le> FSE_optimalTableLog maxTableLog srcSize maxSymbolValue"
  using minTableLog_bound[OF assms, of srcSize]
  by (auto simp: FSE_optimalTableLog_def FSE_optimalTableLog_internal_def Let_def FSE_MAX_TABLELOG_def FSE_MIN_TABLELOG_def)

text \<open>Counts split at a bound.\<close>

definition low_counts :: "nat \<Rightarrow> nat list \<Rightarrow> nat" where
  "low_counts L cs = length (filter (\<lambda>c. 0 < c \<and> c \<le> L) cs)"

definition high_sum :: "nat \<Rightarrow> nat list \<Rightarrow> nat" where
  "high_sum L cs = sum_list (filter (\<lambda>c. L < c) cs)"

lemma high_low_split: "low_counts L cs + high_sum L cs \<le> sum_list cs" "low_counts L cs \<le> length cs"
proof -
  show "low_counts L cs + high_sum L cs \<le> sum_list cs" by (induction cs) (auto simp: low_counts_def high_sum_def)
  show "low_counts L cs \<le> length cs" by (simp add: low_counts_def)
qed

lemma low_counts_simps [simp]:
  "low_counts L [] = 0" "low_counts L (c # cs) = (if 0 < c \<and> c \<le> L then 1 else 0) + low_counts L cs"
  "low_counts L (xs @ ys) = low_counts L xs + low_counts L ys" by (simp_all add: low_counts_def)

lemma high_sum_simps [simp]:
  "high_sum L [] = 0" "high_sum L (c # cs) = (if L < c then c else 0) + high_sum L cs"
  "high_sum L (xs @ ys) = high_sum L xs + high_sum L ys" by (simp_all add: high_sum_def)

lemma high_sum_le: "c \<in> set cs \<Longrightarrow> L < c \<Longrightarrow> c \<le> high_sum L cs"
  by (induction cs) auto

lemma low_sum_bound: "\<forall>c\<in>set cs. c \<le> L \<Longrightarrow> sum_list cs \<le> length cs * L"
  by (induction cs) (auto intro: add_mono)

lemma large_count:
  assumes "histogram counts totalCount maxSymbolValue" "roomy counts totalCount tableLog"
  shows "\<exists>c\<in>set counts. totalCount div 2 ^ tableLog < c"
proof (rule ccontr)
  let ?L = "totalCount div 2 ^ tableLog"
  assume "\<not> ?thesis"
  then have le: "totalCount \<le> length counts * ?L" using low_sum_bound[of counts ?L] assms(1) by (force simp: histogram_def)
  have t: "1 < totalCount" using histogram_total[OF assms(1)] .
  from assms(2) show False unfolding roomy_def
  proof
    assume "totalCount < 2 ^ tableLog"
    then show False using le t by simp
  next
    assume "2 * length counts \<le> 2 ^ tableLog"
    then have "2 * length counts * ?L \<le> 2 ^ tableLog * ?L" by (rule mult_right_mono) simp
    also have "\<dots> \<le> totalCount" by simp
    finally show False using le t by simp
  qed
qed

subsection \<open>The passes of the second method\<close>

definition m2_val :: "nat \<Rightarrow> nat \<Rightarrow> int \<Rightarrow> nat \<Rightarrow> int" where
  "m2_val lowThreshold L lowProbCount c =
     (if c = 0 then 0 else if c \<le> lowThreshold then lowProbCount else if c \<le> L then 1 else NOT_YET_ASSIGNED)"

lemma sub_u64_add: "a + b < 2 ^ 64 \<Longrightarrow> sub_u64 (a + b) b = a"
  by (simp add: sub_u64_def)

lemma sub_u32_le: "b \<le> a \<Longrightarrow> a < 2 ^ 32 \<Longrightarrow> sub_u32 a b = a - b"
  by (simp add: sub_u32_def mod_if)

lemma upd_pass: "k < length norm \<Longrightarrow> k < length cs \<Longrightarrow>
  (map f (take k cs) @ drop k norm)[k := x] = map f (take k cs) @ x # drop (Suc k) norm"
  by (simp add: list_update_append Cons_nth_drop_Suc[symmetric])

lemma m2_low_fold:
  assumes "length norm = length counts" "lowT \<le> L" "sum_list counts < 2 ^ 32" "length counts \<le> 256" "k \<le> length counts"
  shows "fold (m2_low counts lowT L low) [0..<k] (norm, 0, sum_list counts)
    = (map (m2_val lowT L low) (take k counts) @ drop k norm, low_counts L (take k counts), high_sum L (take k counts) + sum_list (drop k counts))"
  using assms(5)
proof (induction k)
  case (Suc k)
  let ?c = "counts ! k" and ?t = "high_sum L (take k counts)"
  have tk: "take (Suc k) counts = take k counts @ [?c]" using Suc.prems by (simp add: take_Suc_conv_app_nth)
  have dk: "drop k counts = ?c # drop (Suc k) counts" using Suc.prems by (simp add: Cons_nth_drop_Suc)
  have "sum_list counts = sum_list (take k counts) + sum_list (drop k counts)" by (metis append_take_drop_id sum_list_append)
  then have s: "?t + sum_list (drop (Suc k) counts) + ?c < 2 ^ 64"
    using high_low_split(1)[of L "take k counts"] assms(3) by (simp add: dk)
  have d: "low_counts L (take k counts) + 1 < 2 ^ 32" using high_low_split(2)[of L "take k counts"] Suc.prems assms(4) by simp
  have u: "map (m2_val lowT L low) (take k counts) @ x # drop (Suc k) norm = (map (m2_val lowT L low) (take k counts) @ drop k norm)[k := x]" for x
    using upd_pass[of k norm counts] Suc.prems assms(1) by simp
  have sub: "sub_u64 (?t + sum_list (drop k counts)) ?c = ?t + sum_list (drop (Suc k) counts)"
    using sub_u64_add[OF s] by (simp add: dk add_ac)
  have "m2_low counts lowT L low k (map (m2_val lowT L low) (take k counts) @ drop k norm, low_counts L (take k counts), ?t + sum_list (drop k counts))
      = (map (m2_val lowT L low) (take (Suc k) counts) @ drop (Suc k) norm, low_counts L (take (Suc k) counts),
         high_sum L (take (Suc k) counts) + sum_list (drop (Suc k) counts))"
    using d assms(2) unfolding m2_low_def prod.case u[symmetric] sub tk by (auto simp: m2_val_def u32_def dk)
  then show ?case using Suc.IH Suc.prems by simp
qed simp

lemma m2_one_fold:
  assumes "lowT \<le> L" "L \<le> L2" "low \<noteq> NOT_YET_ASSIGNED" "sum_list counts < 2 ^ 32" "length counts \<le> 256" "k \<le> length counts"
  shows "fold (m2_one counts L2) [0..<k] (map (m2_val lowT L low) counts, low_counts L counts, high_sum L counts)
    = (map (m2_val lowT L2 low) (take k counts) @ map (m2_val lowT L low) (drop k counts),
       low_counts L2 (take k counts) + low_counts L (drop k counts), high_sum L2 (take k counts) + high_sum L (drop k counts))"
  using assms(6)
proof (induction k)
  case (Suc k)
  let ?c = "counts ! k"
  let ?A = "map (m2_val lowT L2 low) (take k counts)" and ?B = "map (m2_val lowT L low) (drop (Suc k) counts)"
  have tk: "take (Suc k) counts = take k counts @ [?c]" using Suc.prems by (simp add: take_Suc_conv_app_nth)
  have dk: "drop k counts = ?c # drop (Suc k) counts" using Suc.prems by (simp add: Cons_nth_drop_Suc)
  have "sum_list counts = sum_list (take k counts) + sum_list (drop k counts)" by (metis append_take_drop_id sum_list_append)
  then have s: "high_sum L2 (take k counts) + high_sum L (drop (Suc k) counts) + ?c < 2 ^ 64"
    using high_low_split(1)[of L2 "take k counts"] high_low_split(1)[of L "drop (Suc k) counts"] assms(4) by (simp add: dk)
  have d: "low_counts L2 (take k counts) + low_counts L (drop (Suc k) counts) + 1 < 2 ^ 32"
    using high_low_split(2)[of L2 "take k counts"] high_low_split(2)[of L "drop (Suc k) counts"] Suc.prems assms(5) by simp
  have n: "(?A @ m2_val lowT L low ?c # ?B) ! k = m2_val lowT L low ?c" "(?A @ y # ?B)[k := x] = ?A @ x # ?B" for x y
    using Suc.prems by (simp_all add: nth_append list_update_append)
  have sub: "sub_u64 (high_sum L2 (take k counts) + (?c + high_sum L (drop (Suc k) counts))) ?c = high_sum L2 (take k counts) + high_sum L (drop (Suc k) counts)"
    using sub_u64_add[OF s] by (simp add: add_ac)
  have IH: "fold (m2_one counts L2) [0..<k] (map (m2_val lowT L low) counts, low_counts L counts, high_sum L counts)
      = (?A @ m2_val lowT L low ?c # ?B, low_counts L2 (take k counts) + low_counts L (?c # drop (Suc k) counts),
         high_sum L2 (take k counts) + high_sum L (?c # drop (Suc k) counts))"
    using Suc unfolding dk by simp
  have v: "m2_val lowT L low ?c = NOT_YET_ASSIGNED \<longleftrightarrow> L < ?c"
    using assms(1,3) by (auto simp: m2_val_def NOT_YET_ASSIGNED_def)
  have w: "m2_val lowT L2 low ?c = m2_val lowT L low ?c" if "\<not> (L < ?c \<and> ?c \<le> L2)" using that assms(1,2) by (auto simp: m2_val_def)
  have "m2_one counts L2 k (?A @ m2_val lowT L low ?c # ?B, low_counts L2 (take k counts) + low_counts L (?c # drop (Suc k) counts),
         high_sum L2 (take k counts) + high_sum L (?c # drop (Suc k) counts))
      = (map (m2_val lowT L2 low) (take (Suc k) counts) @ ?B, low_counts L2 (take (Suc k) counts) + low_counts L (drop (Suc k) counts),
         high_sum L2 (take (Suc k) counts) + high_sum L (drop (Suc k) counts))"
  proof (cases "L < ?c \<and> ?c \<le> L2")
    case True
    then have "m2_val lowT L2 low ?c = 1" using assms(1) by (simp add: m2_val_def)
    then show ?thesis using True sub d unfolding m2_one_def prod.case n v tk by (simp add: u32_def)
  next
    case False
    then show ?thesis using w assms(2) unfolding m2_one_def prod.case n v tk by auto
  qed
  then show ?case using IH by simp
qed simp

text \<open>The symbol with the largest count.\<close>

lemma m2_max_fold:
  assumes "k \<le> length counts"
  shows "\<forall>s<k. counts ! s \<le> snd (fold (m2_max counts) [0..<k] (0, 0))"
    "snd (fold (m2_max counts) [0..<k] (0, 0)) \<noteq> 0 \<longrightarrow> fst (fold (m2_max counts) [0..<k] (0, 0)) < k
       \<and> counts ! fst (fold (m2_max counts) [0..<k] (0, 0)) = snd (fold (m2_max counts) [0..<k] (0, 0))"
  using assms by (induction k) (auto simp: m2_max_def less_Suc_eq split: prod.splits)

text \<open>Handing out points in turns ends if there is a symbol to take them.\<close>

lemma short_id: "-32768 \<le> x \<Longrightarrow> x < 32768 \<Longrightarrow> short x = x"
  by (simp add: short_def)

lemma m2_turns_next:
  assumes "0 < td" "\<forall>i<j. norm ! ((s + i) mod (m + 1)) \<le> 0" "s < m + 1"
  shows "m2_turns m s td norm = m2_turns m ((s + j) mod (m + 1)) td norm"
  using assms(2)
proof (induction j)
  case (Suc j)
  let ?s = "(s + j) mod (m + 1)"
  have "m2_turns m ?s td norm = m2_turns m ((?s + 1) mod (m + 1)) td norm"
    using Suc.prems assms(1) by (subst m2_turns.simps) auto
  also have "(?s + 1) mod (m + 1) = (s + Suc j) mod (m + 1)" by (metis add.assoc mod_add_left_eq plus_1_eq_Suc add.commute)
  finally show ?case using Suc by simp
qed (use assms(3) in simp)

lemma sum_ncount_update:
  "i < length norm \<Longrightarrow> 0 \<le> norm ! i \<Longrightarrow> norm ! i \<le> x \<Longrightarrow>
     sum_list (map ncount (norm[i := x])) = sum_list (map ncount norm) + nat (x - norm ! i)"
proof (induction norm arbitrary: i)
  case (Cons a norm)
  then show ?case by (cases i) (auto simp: ncount_def)
qed simp

definition spread_over :: "int list \<Rightarrow> int list \<Rightarrow> bool" where
  "spread_over norm norm' \<longleftrightarrow> length norm' = length norm
     \<and> (\<forall>i<length norm. if norm ! i > 0 then norm ! i \<le> norm' ! i else norm' ! i = norm ! i)"

lemma m2_turns_ends:
  assumes "length norm = m + 1" "s < m + 1" "\<exists>i<m + 1. norm ! i > 0" "\<forall>c\<in>set norm. c + int td < 32768"
  shows "\<exists>norm'. m2_turns m s td norm = Some norm' \<and> spread_over norm norm'
    \<and> sum_list (map ncount norm') = sum_list (map ncount norm) + td"
  using assms
proof (induction td arbitrary: s norm)
  case 0
  then show ?case by (subst m2_turns.simps) (simp add: spread_over_def)
next
  case (Suc td)
  obtain p where p: "p < m + 1" "norm ! p > 0" using Suc.prems(3) by blast
  define j where "j = (LEAST j. norm ! ((s + j) mod (m + 1)) > 0)"
  have ex: "norm ! ((s + (m + 1 - s + p)) mod (m + 1)) > 0"
  proof -
    have "s + (m + 1 - s + p) = (m + 1) + p" using Suc.prems(2) by simp
    then show ?thesis using p by (simp only: mod_add_self1) simp
  qed
  have j: "norm ! ((s + j) mod (m + 1)) > 0" unfolding j_def by (rule LeastI[where P = "\<lambda>j. norm ! ((s + j) mod (m + 1)) > 0", OF ex])
  have lt: "\<forall>i<j. norm ! ((s + i) mod (m + 1)) \<le> 0" unfolding j_def using not_less_Least by fastforce
  define q where "q = (s + j) mod (m + 1)"
  have q: "q < m + 1" "norm ! q > 0" using j by (simp_all add: q_def)
  have sh: "short (norm ! q + 1) = norm ! q + 1" using Suc.prems(1,4) q by (intro short_id) (auto dest!: bspec[of _ _ "norm ! q"])
  let ?n = "norm[q := norm ! q + 1]"
  have step: "m2_turns m s (Suc td) norm = m2_turns m ((q + 1) mod (m + 1)) td ?n"
    unfolding m2_turns_next[OF _ lt Suc.prems(2), of "Suc td", simplified] q_def[symmetric, simplified]
    by (subst m2_turns.simps) (use q sh in simp)
  have "\<forall>c\<in>set ?n. c + int td < 32768"
  proof
    fix c assume "c \<in> set ?n"
    then have "c \<in> set norm \<or> c = norm ! q + 1" using set_update_subset_insert[of norm q "norm ! q + 1"] by blast
    moreover have "norm ! q + int (Suc td) < 32768" using Suc.prems(1,4) q by simp
    ultimately show "c + int td < 32768" using Suc.prems(4) by fastforce
  qed
  moreover have "\<exists>i<m + 1. ?n ! i > 0" using q Suc.prems(1) by (intro exI[of _ q]) simp
  ultimately obtain norm' where n: "m2_turns m ((q + 1) mod (m + 1)) td ?n = Some norm'" "spread_over ?n norm'"
    "sum_list (map ncount norm') = sum_list (map ncount ?n) + td"
    using Suc.IH[of ?n "(q + 1) mod (m + 1)"] Suc.prems(1) by auto
  have "sum_list (map ncount ?n) = sum_list (map ncount norm) + 1"
    using sum_ncount_update[of q norm "norm ! q + 1"] q Suc.prems(1) by simp
  moreover have "if norm ! i > 0 then norm ! i \<le> norm' ! i else norm' ! i = norm ! i" if "i < length norm" for i
  proof (cases "i = q")
    case True
    then have "norm ! q + 1 \<le> norm' ! q"
      using n(2)[unfolded spread_over_def, THEN conjunct2, rule_format, of q] q that by simp
    then show ?thesis using True q by simp
  next
    case False
    then have "?n ! i = norm ! i" by simp
    then show ?thesis using n(2) that unfolding spread_over_def by (metis length_list_update)
  qed
  then have "spread_over norm norm'" using n(2) by (simp add: spread_over_def)
  ultimately show ?case using step n(1,3) by simp
qed

text \<open>The scaling of the symbols not yet assigned, on a running total.\<close>

lemma div_add_gap: "2 ^ v \<le> x \<Longrightarrow> (t + x) div 2 ^ v \<ge> t div 2 ^ v + (1::nat)"
  by (metis add.commute div_le_mono add_mono_thms_linordered_semiring(2) div_add_self2 power_not_zero zero_neq_numeral)

lemma m2_scale_ok:
  assumes "distinct ss" "\<forall>s\<in>set ss. s < length norm \<and> (norm ! s = NOT_YET_ASSIGNED \<longrightarrow> 2 ^ v \<le> counts ! s * r)"
    and "tmp + (\<Sum>s\<leftarrow>ss. if norm ! s = NOT_YET_ASSIGNED then counts ! s * r else 0) < 2 ^ v * 8192"
    and "tmp + (\<Sum>s\<leftarrow>ss. if norm ! s = NOT_YET_ASSIGNED then counts ! s * r else 0) < 2 ^ 63"
  shows "\<exists>norm'. m2_scale counts v r ss tmp norm = Inr norm' \<and> length norm' = length norm
    \<and> (\<forall>s. s \<notin> set ss \<or> norm ! s \<noteq> NOT_YET_ASSIGNED \<longrightarrow> norm' ! s = norm ! s)
    \<and> (\<forall>s\<in>set ss. norm ! s = NOT_YET_ASSIGNED \<longrightarrow> 1 \<le> norm' ! s)
    \<and> (\<Sum>s\<leftarrow>ss. if norm ! s = NOT_YET_ASSIGNED then nat (norm' ! s) else 0) + tmp div 2 ^ v
       = (tmp + (\<Sum>s\<leftarrow>ss. if norm ! s = NOT_YET_ASSIGNED then counts ! s * r else 0)) div 2 ^ v"
  using assms
proof (induction ss arbitrary: tmp norm)
  case (Cons s ss)
  show ?case
  proof (cases "norm ! s = NOT_YET_ASSIGNED")
    case False
    then show ?thesis using Cons.IH[of norm tmp] Cons.prems by auto
  next
    case True
    let ?x = "counts ! s * r" and ?R = "\<Sum>s\<leftarrow>ss. if norm ! s = NOT_YET_ASSIGNED then counts ! s * r else 0"
    define e where "e = tmp + ?x"
    have b: "e + ?R < 2 ^ v * 8192" using Cons.prems(3) True by (simp add: e_def)
    have b2: "e + ?R < 2 ^ 63" using Cons.prems(4) True by (simp add: e_def)
    then have u: "u64 ?x = ?x" "u64 e = e" by (simp_all add: u64_def e_def)
    have d: "e div 2 ^ v < 8192" using b by (simp add: less_mult_imp_div_less mult.commute)
    moreover have g: "e div 2 ^ v \<ge> tmp div 2 ^ v + 1" unfolding e_def by (rule div_add_gap) (use Cons.prems(2) True in simp)
    ultimately have w: "u32 (e div 2 ^ v) = e div 2 ^ v" "u32 (tmp div 2 ^ v) = tmp div 2 ^ v" by (simp_all add: u32_def)
    define wt where "wt = e div 2 ^ v - tmp div 2 ^ v"
    have wt: "1 \<le> wt" "wt < 8192" "sub_u32 (e div 2 ^ v) (tmp div 2 ^ v) = wt"
      using g d by (simp_all add: wt_def sub_u32_le)
    have sh: "short (int wt) = int wt" using wt by (intro short_id) auto
    let ?n = "norm[s := int wt]"
    have step: "m2_scale counts v r (s # ss) tmp norm = m2_scale counts v r ss e ?n"
      using True wt(1) u unfolding m2_scale.simps Let_def by (simp add: e_def[symmetric] w wt(3) sh)
    have sl: "s < length norm" "s \<notin> set ss" using Cons.prems(1,2) by auto
    have same: "?n ! t = norm ! t" if "t \<in> set ss" for t using that sl(2) by (cases "t = s") auto
    have R: "(\<Sum>t\<leftarrow>ss. if ?n ! t = NOT_YET_ASSIGNED then counts ! t * r else 0) = ?R"
      by (intro arg_cong[of _ _ sum_list] map_cong refl) (simp add: same)
    obtain n' where n': "m2_scale counts v r ss e ?n = Inr n'" "length n' = length norm"
      "\<forall>t. t \<notin> set ss \<or> ?n ! t \<noteq> NOT_YET_ASSIGNED \<longrightarrow> n' ! t = ?n ! t"
      "\<forall>t\<in>set ss. ?n ! t = NOT_YET_ASSIGNED \<longrightarrow> 1 \<le> n' ! t"
      "(\<Sum>t\<leftarrow>ss. if ?n ! t = NOT_YET_ASSIGNED then nat (n' ! t) else 0) + e div 2 ^ v = (e + ?R) div 2 ^ v"
      using Cons.IH[of ?n e] Cons.prems(1,2) b b2 same unfolding R by auto
    have S: "(\<Sum>t\<leftarrow>ss. if ?n ! t = NOT_YET_ASSIGNED then nat (n' ! t) else 0) = (\<Sum>t\<leftarrow>ss. if norm ! t = NOT_YET_ASSIGNED then nat (n' ! t) else 0)"
      by (intro arg_cong[of _ _ sum_list] map_cong refl) (simp add: same)
    have ns: "n' ! s = int wt" using n'(3) sl by simp
    have "\<forall>t. t \<notin> set (s # ss) \<or> norm ! t \<noteq> NOT_YET_ASSIGNED \<longrightarrow> n' ! t = norm ! t"
      using n'(3) True same by (metis list.set_intros(1,2) nth_list_update_neq)
    moreover have "\<forall>t\<in>set (s # ss). norm ! t = NOT_YET_ASSIGNED \<longrightarrow> 1 \<le> n' ! t" using n'(4) same ns wt(1) by auto
    moreover have "(\<Sum>t\<leftarrow>s # ss. if norm ! t = NOT_YET_ASSIGNED then nat (n' ! t) else 0) + tmp div 2 ^ v
        = (tmp + (\<Sum>t\<leftarrow>s # ss. if norm ! t = NOT_YET_ASSIGNED then counts ! t * r else 0)) div 2 ^ v"
      using n'(5) True ns g unfolding S by (simp add: wt_def e_def add_ac)
    ultimately show ?thesis using step n'(1,2) by auto
  qed
qed simp

subsection \<open>The second method never fails\<close>

text \<open>What is left after the passes: a bound between low and other counts, where every other count is
  worth a cell.\<close>

definition m2_ready :: "nat list \<Rightarrow> nat \<Rightarrow> nat \<Rightarrow> nat \<Rightarrow> bool" where
  "m2_ready counts tableLog lowThreshold L \<longleftrightarrow> lowThreshold \<le> L \<and> low_counts L counts < 2 ^ tableLog
     \<and> (\<forall>c\<in>set counts. L < c \<longrightarrow> high_sum L counts \<le> c * (2 ^ tableLog - low_counts L counts))"

lemma low_counts_room:
  assumes "histogram counts totalCount maxSymbolValue" "roomy counts totalCount tableLog"
  shows "low_counts L counts < 2 ^ tableLog"
  using assms high_low_split[of L counts] by (auto simp: histogram_def roomy_def)

lemma high_low_disjoint: "L \<le> L2 \<Longrightarrow> low_counts L2 cs + length (filter (\<lambda>c. L2 < c) cs) \<le> length cs"
  by (induction cs) auto

lemma ready_first:
  assumes "histogram counts totalCount maxSymbolValue" "roomy counts totalCount tableLog"
    and L: "L = 3 * totalCount div 2 ^ (tableLog + 1)"
    and "high_sum L counts div (2 ^ tableLog - low_counts L counts) \<le> L"
  shows "m2_ready counts tableLog (totalCount div 2 ^ tableLog) L"
proof -
  let ?D = "2 ^ tableLog - low_counts L counts"
  have D: "0 < ?D" using low_counts_room[OF assms(1,2)] by simp
  have "totalCount div 2 ^ tableLog = 2 * totalCount div 2 ^ (tableLog + 1)" by simp
  also have "\<dots> \<le> L" unfolding L by (rule div_le_mono) simp
  finally have l: "totalCount div 2 ^ tableLog \<le> L" .
  have "high_sum L counts \<le> c * ?D" if "L < c" for c
  proof -
    have "high_sum L counts div ?D < c" using assms(4) that by simp
    then show ?thesis using D by (simp add: div_less_iff_less_mult)
  qed
  then show ?thesis using l D by (auto simp: m2_ready_def)
qed

lemma ready_second:
  assumes h: "histogram counts totalCount maxSymbolValue" "roomy counts totalCount tableLog"
    and L: "L = 3 * totalCount div 2 ^ (tableLog + 1)" and D: "D = 2 ^ tableLog - low_counts L counts"
    and q: "high_sum L counts div D > L" and L2: "L2 = 3 * high_sum L counts div (2 * D)"
  shows "L \<le> L2" "m2_ready counts tableLog (totalCount div 2 ^ tableLog) L2" "2 \<le> D"
proof -
  let ?T = "2 ^ tableLog" and ?t = "high_sum L counts" and ?d = "low_counts L counts"
  have d0: "0 < D" using low_counts_room[OF h] by (simp add: D)
  have "2 * ?t div (2 * D) \<le> 3 * ?t div (2 * D)" by (rule div_le_mono) simp
  then have "?t div D \<le> L2" by (simp add: L2)
  then show l: "L \<le> L2" using q by simp
  have sp: "?d + ?t \<le> totalCount" using high_low_split(1)[of L counts] h(1) by (simp add: histogram_def)
  have tpos: "D \<le> ?t" using q by (cases "?t < D") auto
  have "\<not> totalCount < ?T" using sp tpos low_counts_room[OF h, of L] by (simp add: D)
  then have n: "2 * length counts \<le> ?T" using h(2) by (simp add: roomy_def)
  have "2 \<le> length counts" using h(1) by (simp add: histogram_def)
  then show "2 \<le> D" unfolding D using n high_low_split(2)[of L counts] by linarith
  have "L + 1 \<le> ?t div D" using q by simp
  then have e1: "(L + 1) * D \<le> ?t" using d0 by (simp only: less_eq_div_iff_mult_less_eq)
  have "3 * totalCount < (L + 1) * (2 * ?T)"
    using dividend_less_div_times[of "2 * ?T" "3 * totalCount"] by (simp add: L add.commute)
  then have "3 * totalCount * D < (L + 1) * (2 * ?T) * D" using d0 by simp
  also have "(L + 1) * (2 * ?T) * D = 2 * ?T * ((L + 1) * D)" by (simp only: mult_ac)
  also have "\<dots> \<le> 2 * ?T * ?t" using e1 by (rule mult_le_mono2)
  finally have "3 * totalCount * D < 2 * ?T * ?t" .
  moreover have "3 * ?t * D \<le> 3 * totalCount * D" using sp by simp
  ultimately have "3 * ?t * D < 2 * ?T * ?t" by (rule le_less_trans[rotated])
  then have "(3 * D) * ?t < (2 * ?T) * ?t" by (simp only: mult_ac)
  then have dT: "3 * D < 2 * ?T" by (simp only: mult_less_cancel2)
  define d2 where "d2 = low_counts L2 counts"
  have dd: "?d \<le> d2" unfolding d2_def using l by (induction counts) auto
  have "d2 \<le> length counts" by (simp add: d2_def high_low_split(2))
  then have k: "3 * (d2 - ?d) \<le> D" "d2 \<le> ?T" using n dT dd low_counts_room[OF h, of L] by (simp_all add: D)
  have "high_sum L2 counts \<le> ?t" unfolding high_sum_def[symmetric] using l by (induction counts) auto
  have "high_sum L2 counts \<le> c * (?T - d2)" if c: "L2 < c" for c
  proof -
    have "3 * ?t < c * (2 * D)"
    proof -
      have "3 * ?t div (2 * D) < c" using c by (simp add: L2)
      then show ?thesis using d0 by (simp add: div_less_iff_less_mult)
    qed
    moreover have "2 * D \<le> 3 * (?T - d2)" using k dd by (simp add: D)
    then have "c * (2 * D) \<le> c * (3 * (?T - d2))" by (rule mult_le_mono2)
    ultimately have "3 * ?t < 3 * (c * (?T - d2))" by (simp only: mult.left_commute)
    then show ?thesis using \<open>high_sum L2 counts \<le> ?t\<close> by simp
  qed
  moreover have "totalCount div ?T \<le> L2"
  proof -
    have "totalCount div ?T = 2 * totalCount div 2 ^ (tableLog + 1)" by simp
    also have "\<dots> \<le> L" unfolding L by (rule div_le_mono) simp
    finally show ?thesis using l by simp
  qed
  ultimately show "m2_ready counts tableLog (totalCount div 2 ^ tableLog) L2"
    using low_counts_room[OF h, of L2] by (simp add: m2_ready_def d2_def)
qed

text \<open>What a normalization has to give.\<close>

definition normalizes :: "nat list \<Rightarrow> nat \<Rightarrow> int \<Rightarrow> int list \<Rightarrow> bool" where
  "normalizes counts tableLog low norm \<longleftrightarrow> length norm = length counts \<and> sum_list (map ncount norm) = 2 ^ tableLog
     \<and> (\<forall>s<length counts. (if counts ! s = 0 then norm ! s = 0 else 1 \<le> norm ! s \<or> norm ! s = low))"

lemma sum_m2_val:
  assumes "low = 1 \<or> low = -1" "lowT \<le> L"
  shows "sum_list (map (\<lambda>c. if L < c then 0 else ncount (m2_val lowT L low c)) cs) = low_counts L cs"
  using assms by (induction cs) (auto simp: m2_val_def ncount_def)

lemma sum_m2_all:
  assumes "low = 1 \<or> low = -1" "lowT \<le> L" "high_sum L cs = 0"
  shows "sum_list (map ncount (map (m2_val lowT L low) cs)) = low_counts L cs"
  using assms by (induction cs) (auto simp: m2_val_def ncount_def split: if_splits)

lemma rest_all_low:
  assumes "low_counts L counts = length counts"
  shows "\<forall>c\<in>set counts. 0 < c \<and> c \<le> L" "high_sum L counts = 0"
proof -
  have "filter (\<lambda>c. 0 < c \<and> c \<le> L) counts = counts" using assms
    by (metis (no_types, lifting) filter_True length_filter_less less_irrefl low_counts_def)
  then show a: "\<forall>c\<in>set counts. 0 < c \<and> c \<le> L" by (simp only: filter_id_conv)
  then have "filter (\<lambda>c. L < c) counts = []" by (auto simp: filter_empty_conv)
  then show "high_sum L counts = 0" by (simp add: high_sum_def)
qed

lemma normalizes_m2_val:
  assumes "low = 1 \<or> low = -1" "lowT \<le> L" "s < length counts" "counts ! s \<le> L"
  shows "if counts ! s = 0 then m2_val lowT L low (counts ! s) = 0
    else 1 \<le> m2_val lowT L low (counts ! s) \<or> m2_val lowT L low (counts ! s) = low"
  using assms by (auto simp: m2_val_def)

lemma end_max:
  assumes h: "histogram counts totalCount maxSymbolValue" "roomy counts totalCount tableLog" "5 \<le> tableLog" "tableLog \<le> 12"
    and r: "m2_ready counts tableLog (totalCount div 2 ^ tableLog) L" "low = 1 \<or> low = -1"
    and a: "low_counts L counts = length counts" "fold (m2_max counts) [0..<length counts] (0, 0) = (maxV, maxC)"
    and n: "norm = map (m2_val (totalCount div 2 ^ tableLog) L low) counts" "D = 2 ^ tableLog - low_counts L counts"
  shows "normalizes counts tableLog low (norm[maxV := short (norm ! maxV + short (int D))])"
proof -
  let ?l = "totalCount div 2 ^ tableLog"
  have T: "(2::nat) ^ tableLog \<le> 2 ^ 12" using h(4) by (intro power_increasing) auto
  note low = rest_all_low[OF a(1)]
  have max: "\<forall>s<length counts. counts ! s \<le> maxC" "maxC \<noteq> 0 \<longrightarrow> maxV < length counts \<and> counts ! maxV = maxC"
    using m2_max_fold[of "length counts" counts] a(2) by auto
  obtain c where "c \<in> set counts" "?l < c" using large_count[OF h(1,2)] by blast
  then have c: "?l < maxC" using max(1) by (metis in_set_conv_nth less_le_trans)
  then have v: "maxV < length counts" "counts ! maxV = maxC" "maxC \<le> L" using max(2) low(1) by auto
  have one: "norm ! maxV = 1" using v c by (simp add: n m2_val_def)
  have D: "D \<le> 4096" "D + length counts = 2 ^ tableLog" using r(1) T by (auto simp: n m2_ready_def a(1))
  then have x: "short (norm ! maxV + short (int D)) = 1 + int D" by (simp add: one short_id)
  have "sum_list (map ncount (norm[maxV := 1 + int D])) = sum_list (map ncount norm) + D"
    using sum_ncount_update[of maxV norm "1 + int D"] one v(1) by (simp add: n)
  moreover have "sum_list (map ncount norm) = length counts"
    unfolding n using sum_m2_all[OF r(2) _ low(2), of ?l] r(1) a(1) by (simp add: m2_ready_def)
  moreover have "if counts ! s = 0 then norm[maxV := 1 + int D] ! s = 0 else 1 \<le> norm[maxV := 1 + int D] ! s \<or> norm[maxV := 1 + int D] ! s = low"
    if "s < length counts" for s
    using normalizes_m2_val[OF r(2) _ that, of ?l L] r(1) low(1) that v c by (cases "s = maxV") (auto simp: n m2_ready_def)
  moreover have "length norm = length counts" by (simp add: n)
  ultimately show ?thesis using D(2) unfolding x normalizes_def by simp
qed

lemma end_turns:
  assumes h: "histogram counts totalCount maxSymbolValue" "roomy counts totalCount tableLog" "5 \<le> tableLog" "tableLog \<le> 12"
    and r: "m2_ready counts tableLog (totalCount div 2 ^ tableLog) L" "low = 1 \<or> low = -1"
    and a: "high_sum L counts = 0"
    and n: "norm = map (m2_val (totalCount div 2 ^ tableLog) L low) counts" "D = 2 ^ tableLog - low_counts L counts"
  shows "\<exists>norm'. m2_turns maxSymbolValue 0 D norm = Some norm' \<and> normalizes counts tableLog low norm'"
proof -
  let ?l = "totalCount div 2 ^ tableLog"
  have T: "(2::nat) ^ tableLog \<le> 2 ^ 12" using h(4) by (intro power_increasing) auto
  have le: "\<forall>c\<in>set counts. c \<le> L" using high_sum_le[of _ counts L] a by (metis le_zero_eq not_le not_less_zero)
  have l: "?l \<le> L" and D: "D \<le> 4096" "D + low_counts L counts = 2 ^ tableLog" using r(1) T by (auto simp: n m2_ready_def)
  have len: "length norm = maxSymbolValue + 1" using h(1) by (simp add: n histogram_def)
  obtain s where s: "s < length counts" "?l < counts ! s" using large_count[OF h(1,2)] by (metis in_set_conv_nth)
  then have "0 < norm ! s" using le by (simp add: n m2_val_def)
  then have ex: "\<exists>i<maxSymbolValue + 1. 0 < norm ! i" using s h(1) by (auto simp: histogram_def)
  have "\<forall>c\<in>set norm. c + int D < 32768" using r(2) D(1) by (auto simp: n m2_val_def NOT_YET_ASSIGNED_def)
  from m2_turns_ends[OF len _ ex this, of 0] obtain norm' where n': "m2_turns maxSymbolValue 0 D norm = Some norm'"
    "spread_over norm norm'" "sum_list (map ncount norm') = sum_list (map ncount norm) + D" by auto
  have "sum_list (map ncount norm) = low_counts L counts" unfolding n using sum_m2_all[OF r(2) l a] .
  moreover have "if counts ! i = 0 then norm' ! i = 0 else 1 \<le> norm' ! i \<or> norm' ! i = low" if i: "i < length counts" for i
  proof -
    have v: "norm ! i = m2_val ?l L low (counts ! i)" using i by (simp add: n)
    have "i < length norm" using i by (simp add: n)
    then have "if norm ! i > 0 then norm ! i \<le> norm' ! i else norm' ! i = norm ! i"
      using n'(2) unfolding spread_over_def by blast
    then show ?thesis using normalizes_m2_val[OF r(2) l i] le i unfolding v[symmetric] by (auto split: if_splits)
  qed
  ultimately show ?thesis using n' D(2) by (auto simp: normalizes_def spread_over_def n(1))
qed

lemma sum_list_split:
  "sum_list (map f xs) = sum_list (map (\<lambda>x. if P x then f x else 0) xs) + sum_list (map (\<lambda>x. if P x then 0 else f x) xs)" for f :: "_ \<Rightarrow> nat"
  by (induction xs) auto

lemma sum_nth: "(\<Sum>s\<leftarrow>[0..<length xs]. f (xs ! s)) = (\<Sum>x\<leftarrow>xs. f x)"
  by (intro arg_cong[of _ _ sum_list] nth_equalityI) simp_all

lemma sum_high: "(\<Sum>s\<leftarrow>[0..<length counts]. if L < counts ! s then counts ! s * r else 0) = high_sum L counts * r"
proof -
  have "(\<Sum>s\<leftarrow>[0..<length counts]. if L < counts ! s then counts ! s * r else 0) = (\<Sum>c\<leftarrow>counts. if L < c then c * r else 0)"
    by (rule sum_nth)
  also have "\<dots> = high_sum L counts * r" by (induction counts) (auto simp: algebra_simps)
  finally show ?thesis .
qed

lemma scale_arith:
  fixes t mid v r D c :: nat
  assumes "0 < t" "t \<le> mid" "2 * mid + 2 = 2 ^ v" "r = (2 ^ v * D + mid) div t"
  shows "(mid + t * r) div 2 ^ v = D" "mid + t * r < 2 ^ v * (D + 1)" "t \<le> c * D \<Longrightarrow> 2 ^ v \<le> c * r"
proof -
  have le: "t * r \<le> 2 ^ v * D + mid" by (simp add: assms(4))
  have gt: "2 ^ v * D + mid < t * r + t" unfolding assms(4)
    using dividend_less_div_times[OF assms(1), of "2 ^ v * D + mid"] by (simp add: mult.commute)
  show b: "mid + t * r < 2 ^ v * (D + 1)" using le assms(3) by simp
  moreover have "2 ^ v * D \<le> mid + t * r" using gt assms(2) by simp
  ultimately show "(mid + t * r) div 2 ^ v = D"
    by (intro div_nat_eqI) (simp_all add: mult.commute)
  show "2 ^ v \<le> c * r" if c: "t \<le> c * D"
  proof (cases "c = 0")
    case False
    have "2 ^ v * t + c * t \<le> 2 ^ v * (c * D) + c * mid"
      using c assms(2) by (intro add_mono mult_le_mono2)
    also have "\<dots> = c * (2 ^ v * D + mid)" by (simp only: algebra_simps)
    also have "\<dots> < c * (t * r + t)" using gt False by simp
    also have "\<dots> = c * r * t + c * t" by (simp only: algebra_simps)
    finally have "2 ^ v * t < c * r * t" by linarith
    then show ?thesis by (simp add: less_imp_le)
  qed (use c assms(1) in simp)
qed

lemma end_scale:
  assumes h: "histogram counts totalCount maxSymbolValue" "5 \<le> tableLog" "tableLog \<le> 12"
    and r: "m2_ready counts tableLog (totalCount div 2 ^ tableLog) L" "low = 1 \<or> low = -1"
    and a: "high_sum L counts \<noteq> 0"
    and n: "norm = map (m2_val (totalCount div 2 ^ tableLog) L low) counts" "D = 2 ^ tableLog - low_counts L counts"
    and v: "v = 62 - tableLog" "mid = 2 ^ (v - 1) - 1" "rStep = u64 (u64 (2 ^ v * D) + mid) div u32 (high_sum L counts)"
  shows "\<exists>norm'. m2_scale counts v rStep [0..<maxSymbolValue + 1] mid norm = Inr norm' \<and> normalizes counts tableLog low norm'"
proof -
  let ?l = "totalCount div 2 ^ tableLog" and ?t = "high_sum L counts"
  have l: "?l \<le> L" and D: "D + low_counts L counts = 2 ^ tableLog" "D \<le> 2 ^ tableLog" using r(1) by (auto simp: n m2_ready_def)
  have vv: "50 \<le> v" "v \<le> 57" using h(2,3) by (auto simp: v)
  have T: "(2::nat) ^ v * 2 ^ tableLog = 2 ^ 62" "(2::nat) ^ tableLog \<le> 2 ^ 12"
    using h(3) by (simp add: power_add[symmetric] v(1)) (rule power_increasing, use h(3) in auto)
  have mid: "2 * mid + 2 = 2 ^ v"
  proof -
    have "(2::nat) ^ v = 2 * 2 ^ (v - 1)" using vv(1) by (cases v) auto
    moreover have "(1::nat) \<le> 2 ^ (v - 1)" by simp
    ultimately show ?thesis unfolding v(2) by linarith
  qed
  have "?t \<le> totalCount" "totalCount < 2 ^ 32" using high_low_split(1)[of L counts] h(1) by (auto simp: histogram_def)
  moreover have "(2::nat) ^ 49 \<le> 2 ^ (v - 1)" using vv(1) by (intro power_increasing) auto
  then have "2 ^ 32 \<le> mid" by (simp add: v(2))
  ultimately have t: "?t < 2 ^ 32" "0 < ?t" "?t \<le> mid" using a by auto
  have "2 ^ v * D \<le> 2 ^ v * 2 ^ tableLog" using D(2) by (rule mult_le_mono2)
  moreover have "(2::nat) ^ v \<le> 2 ^ 57" using vv(2) by (intro power_increasing) auto
  ultimately have "2 ^ v * D + mid < 2 ^ 64" using T(1) mid by simp
  then have rs: "rStep = (2 ^ v * D + mid) div ?t" using t(1) by (simp add: v(3) u64_def u32_def)
  note ar = scale_arith[OF t(2,3) mid rs]
  have nya: "norm ! s = NOT_YET_ASSIGNED \<longleftrightarrow> L < counts ! s" if "s < length counts" for s
    using that l r(2) by (auto simp: n m2_val_def NOT_YET_ASSIGNED_def)
  let ?ss = "[0..<maxSymbolValue + 1]"
  have ss: "?ss = [0..<length counts]" using h(1) by (simp add: histogram_def)
  have X: "(\<Sum>s\<leftarrow>?ss. if norm ! s = NOT_YET_ASSIGNED then counts ! s * rStep else 0) = ?t * rStep"
    unfolding ss sum_high[symmetric] by (intro arg_cong[of _ _ sum_list] map_cong refl) (simp add: nya)
  have c1: "\<forall>s\<in>set ?ss. s < length norm \<and> (norm ! s = NOT_YET_ASSIGNED \<longrightarrow> 2 ^ v \<le> counts ! s * rStep)"
  proof
    fix s assume "s \<in> set ?ss"
    then have s: "s < length counts" unfolding ss by simp
    moreover have "2 ^ v \<le> counts ! s * rStep" if "norm ! s = NOT_YET_ASSIGNED"
      using r(1) ar(3)[of "counts ! s"] nya[OF s] that s by (simp add: m2_ready_def n(2))
    ultimately show "s < length norm \<and> (norm ! s = NOT_YET_ASSIGNED \<longrightarrow> 2 ^ v \<le> counts ! s * rStep)" by (simp add: n(1))
  qed
  have "(2::nat) ^ v * (D + 1) \<le> 2 ^ v * 8192" using D(2) T(2) by (intro mult_le_mono2) simp
  then have c2: "mid + (\<Sum>s\<leftarrow>?ss. if norm ! s = NOT_YET_ASSIGNED then counts ! s * rStep else 0) < 2 ^ v * 8192"
    unfolding X using ar(2) by linarith
  have "(2::nat) ^ v * (D + 1) \<le> 2 ^ v * 2 ^ tableLog + 2 ^ v" using D(2) by simp
  moreover have "(2::nat) ^ v \<le> 2 ^ 57" using vv(2) by (intro power_increasing) auto
  ultimately have c3: "mid + (\<Sum>s\<leftarrow>?ss. if norm ! s = NOT_YET_ASSIGNED then counts ! s * rStep else 0) < 2 ^ 63"
    unfolding X using ar(2) T(1) by simp
  obtain norm' where n': "m2_scale counts v rStep ?ss mid norm = Inr norm'" "length norm' = length norm"
    "\<forall>s. s \<notin> set ?ss \<or> norm ! s \<noteq> NOT_YET_ASSIGNED \<longrightarrow> norm' ! s = norm ! s"
    "\<forall>s\<in>set ?ss. norm ! s = NOT_YET_ASSIGNED \<longrightarrow> 1 \<le> norm' ! s"
    "(\<Sum>s\<leftarrow>?ss. if norm ! s = NOT_YET_ASSIGNED then nat (norm' ! s) else 0) + mid div 2 ^ v = (mid + ?t * rStep) div 2 ^ v"
    using m2_scale_ok[OF _ c1 c2 c3] unfolding X by auto
  have ln: "length norm = length counts" by (simp add: n)
  have hi: "(\<Sum>s\<leftarrow>?ss. if norm ! s = NOT_YET_ASSIGNED then nat (norm' ! s) else 0) = D"
    using n'(5) ar(1) mid by simp
  have val: "norm' ! s = m2_val ?l L low (counts ! s)" if "s < length counts" "\<not> L < counts ! s" for s
    using n'(3) nya[OF that(1)] that by (simp add: n)
  have pos: "1 \<le> norm' ! s" if "s < length counts" "L < counts ! s" for s
    using n'(4) nya[OF that(1)] that unfolding ss by simp
  have nc: "ncount (norm' ! s) = nat (norm' ! s)" if "s < length counts" "norm ! s = NOT_YET_ASSIGNED" for s
    using pos[OF that(1)] nya[OF that(1)] that(2) by (simp add: ncount_def)
  have "sum_list (map ncount norm') = (\<Sum>s\<leftarrow>?ss. ncount (norm' ! s))"
    unfolding ss n'(2)[unfolded ln, symmetric] by (rule sum_nth[symmetric])
  also have "\<dots> = (\<Sum>s\<leftarrow>?ss. if norm ! s = NOT_YET_ASSIGNED then ncount (norm' ! s) else 0)
      + (\<Sum>s\<leftarrow>?ss. if norm ! s = NOT_YET_ASSIGNED then 0 else ncount (norm' ! s))" by (rule sum_list_split)
  also have "(\<Sum>s\<leftarrow>?ss. if norm ! s = NOT_YET_ASSIGNED then ncount (norm' ! s) else 0) = D"
    unfolding hi[symmetric] ss by (intro arg_cong[of _ _ sum_list] map_cong refl) (use nc in auto)
  also have "(\<Sum>s\<leftarrow>?ss. if norm ! s = NOT_YET_ASSIGNED then 0 else ncount (norm' ! s))
      = (\<Sum>s\<leftarrow>[0..<length counts]. if L < counts ! s then 0 else ncount (m2_val ?l L low (counts ! s)))"
    unfolding ss by (intro arg_cong[of _ _ sum_list] map_cong refl) (simp add: nya val)
  also have "\<dots> = (\<Sum>c\<leftarrow>counts. if L < c then 0 else ncount (m2_val ?l L low c))"
    by (rule sum_nth)
  also have "\<dots> = low_counts L counts" by (rule sum_m2_val[OF r(2) l])
  finally have "sum_list (map ncount norm') = 2 ^ tableLog" using D(1) by simp
  moreover have "if counts ! s = 0 then norm' ! s = 0 else 1 \<le> norm' ! s \<or> norm' ! s = low" if s: "s < length counts" for s
    using normalizes_m2_val[OF r(2) l s] val[OF s] pos[OF s] by (cases "L < counts ! s") auto
  ultimately show ?thesis using n'(1,2) ln by (auto simp: normalizes_def)
qed

lemma normalizeM2_ok:
  assumes h: "histogram counts totalCount maxSymbolValue" "roomy counts totalCount tableLog" "5 \<le> tableLog" "tableLog \<le> 12"
    and low: "low = 1 \<or> low = -1" and ln: "length norm = length counts"
  shows "\<exists>norm'. FSE_normalizeM2 norm tableLog counts totalCount maxSymbolValue low = Some (Inr norm') \<and> normalizes counts tableLog low norm'"
proof -
  let ?l = "totalCount div 2 ^ tableLog"
  define L where "L = 3 * totalCount div 2 ^ (tableLog + 1)"
  define D where "D = 2 ^ tableLog - low_counts L counts"
  have hh: "sum_list counts = totalCount" "totalCount < 2 ^ 32" "length counts = maxSymbolValue + 1" "length counts \<le> 256"
    using h(1) by (auto simp: histogram_def)
  have "(2::nat) ^ tableLog \<le> 2 ^ 12" using h(4) by (intro power_increasing) auto
  then have T: "(2::nat) ^ tableLog < 2 ^ 32" by simp
  have l: "?l \<le> L"
  proof -
    have "?l = 2 * totalCount div 2 ^ (tableLog + 1)" by simp
    also have "\<dots> \<le> L" unfolding L_def by (rule div_le_mono) simp
    finally show ?thesis .
  qed
  have "?l < 2 ^ 32" using div_le_dividend[of totalCount "2 ^ tableLog"] hh(2) by linarith
  then have ul: "u32 ?l = ?l" by (simp add: u32_def)
  have "(2::nat) * 2 ^ 5 \<le> 2 ^ (tableLog + 1)" using power_increasing[of 6 "tableLog + 1" "2::nat"] h(3) by simp
  then have "L \<le> 3 * totalCount div 64" unfolding L_def by (intro div_le_mono2) auto
  then have uL: "u32 (u64 (totalCount * 3) div 2 ^ (tableLog + 1)) = L" using hh(2) by (simp add: u32_def u64_def L_def mult.commute)
  have room: "low_counts L counts < 2 ^ tableLog" for L by (rule low_counts_room[OF h(1,2)])
  have subD: "sub_u32 (2 ^ tableLog) (low_counts L' counts) = 2 ^ tableLog - low_counts L' counts" for L'
    using room[of L'] T by (intro sub_u32_le) auto
  have p1: "fold (m2_low counts ?l L low) [0..<maxSymbolValue + 1] (norm, 0, totalCount)
      = (map (m2_val ?l L low) counts, low_counts L counts, high_sum L counts)"
    using m2_low_fold[OF ln l, of "length counts" low] hh ln by simp
  define L2 where "L2 = (if high_sum L counts div D > L then 3 * high_sum L counts div (2 * D) else L)"
  have r: "m2_ready counts tableLog ?l L2" and LL: "L \<le> L2"
    using ready_first[OF h(1,2) L_def] ready_second(1,2)[OF h(1,2) L_def D_def] by (auto simp: L2_def D_def)
  have hs: "high_sum L counts \<le> totalCount" using high_low_split(1)[of L counts] hh(1) by simp
  have uL2: "u32 (u64 (high_sum L counts * 3) div u32 (D * 2)) = L2" if "high_sum L counts div D > L"
  proof -
    have D: "2 \<le> D" using ready_second(3)[OF h(1,2) L_def D_def that refl] .
    have "D \<le> 2 ^ tableLog" by (simp add: D_def)
    then have "u32 (D * 2) = 2 * D" using \<open>(2::nat) ^ tableLog \<le> 2 ^ 12\<close> by (simp add: u32_def)
    moreover have "3 * high_sum L counts div (2 * D) \<le> 3 * high_sum L counts div 4" using D by (intro div_le_mono2) auto
    then have "3 * high_sum L counts div (2 * D) < 2 ^ 32" using hs hh(2) by linarith
    ultimately show ?thesis using that hs hh(2) by (simp add: L2_def u64_def u32_def mult.commute)
  qed
  have low2: "low \<noteq> NOT_YET_ASSIGNED" using low by (auto simp: NOT_YET_ASSIGNED_def)
  have p2: "fold (m2_one counts L2) [0..<maxSymbolValue + 1] (map (m2_val ?l L low) counts, low_counts L counts, high_sum L counts)
      = (map (m2_val ?l L2 low) counts, low_counts L2 counts, high_sum L2 counts)"
    using m2_one_fold[OF l LL low2, of counts "length counts"] hh by simp
  define D2 where "D2 = 2 ^ tableLog - low_counts L2 counts"
  let ?n = "map (m2_val ?l L2 low) counts"
  have inner: "(if high_sum L counts div D > L
      then case fold (m2_one counts (u32 (u64 (high_sum L counts * 3) div u32 (D * 2)))) [0..<maxSymbolValue + 1]
             (map (m2_val ?l L low) counts, low_counts L counts, high_sum L counts) of
           (norm, distributed, totalCount) \<Rightarrow> (norm, distributed, totalCount, sub_u32 (2 ^ tableLog) distributed)
      else (map (m2_val ?l L low) counts, low_counts L counts, high_sum L counts, D))
      = (?n, low_counts L2 counts, high_sum L2 counts, D2)"
  proof (cases "high_sum L counts div D > L")
    case True
    then show ?thesis unfolding uL2[OF True] p2 by (simp add: subD D2_def)
  next
    case False
    then have "L2 = L" by (simp add: L2_def)
    then show ?thesis using False by (simp add: D2_def D_def)
  qed
  have D0: "D \<noteq> 0" using room[of L] by (simp add: D_def)
  have body: "FSE_normalizeM2 norm tableLog counts totalCount maxSymbolValue low =
      (if low_counts L2 counts = maxSymbolValue + 1
       then case fold (m2_max counts) [0..<maxSymbolValue + 1] (0, 0) of (maxV, maxC) \<Rightarrow>
              Some (Inr (?n[maxV := short (?n ! maxV + short (int D2))]))
       else if high_sum L2 counts = 0 then map_option Inr (m2_turns maxSymbolValue 0 D2 ?n)
       else Some (m2_scale counts (62 - tableLog)
              (u64 (u64 (2 ^ (62 - tableLog) * D2) + (2 ^ (62 - tableLog - 1) - 1)) div u32 (high_sum L2 counts))
              [0..<maxSymbolValue + 1] (2 ^ (62 - tableLog - 1) - 1) ?n))"
    unfolding FSE_normalizeM2_def Let_def ul uL p1 prod.case subD D_def[symmetric] inner using D0 by (simp only: if_False)
  consider (all) "low_counts L2 counts = length counts" | (turns) "low_counts L2 counts \<noteq> length counts" "high_sum L2 counts = 0"
    | (scale) "low_counts L2 counts \<noteq> length counts" "high_sum L2 counts \<noteq> 0" by blast
  then show ?thesis
  proof cases
    case all
    obtain maxV maxC where mx: "fold (m2_max counts) [0..<length counts] (0, 0) = (maxV, maxC)" by fastforce
    from end_max[OF h r low all mx refl D2_def] show ?thesis using all mx unfolding body hh(3) by simp
  next
    case turns
    from end_turns[OF h r low turns(2) refl D2_def] show ?thesis using turns unfolding body hh(3) by auto
  next
    case scale
    from end_scale[OF h(1,3,4) r low scale(2) refl D2_def refl refl refl] show ?thesis using scale unfolding body hh(3) by auto
  qed
qed

subsection \<open>The first method\<close>

definition norm_val :: "nat \<Rightarrow> nat \<Rightarrow> int \<Rightarrow> nat \<Rightarrow> nat \<Rightarrow> int" where
  "norm_val scale step lowProbCount lowThreshold c =
     (if c = 0 then 0 else if c \<le> lowThreshold then lowProbCount else norm_proba scale step c)"

text \<open>A share is at least one cell and at most all of them.\<close>

lemma norm_proba_bounds:
  assumes "0 < c" "c < totalCount" "totalCount < 2 ^ 32" "5 \<le> tableLog" "tableLog \<le> 12"
    and "scale = 62 - tableLog" "step = 2 ^ 62 div totalCount"
  shows "1 \<le> norm_proba scale step c" "norm_proba scale step c \<le> 2 ^ tableLog"
proof -
  define y p where "y = c * step" and "p = y div 2 ^ scale"
  have "step * totalCount \<le> 2 ^ 62" by (simp add: assms(7))
  have st: "0 < step" using assms(2,3) by (simp add: assms(7) div_greater_zero_iff)
  have "c * step < totalCount * step" using assms(2) st by simp
  also have "\<dots> \<le> 2 ^ 62" using \<open>step * totalCount \<le> 2 ^ 62\<close> by (simp add: mult.commute)
  finally have y: "y < 2 ^ 62" "0 < y" using assms(1) st by (simp_all add: y_def)
  have T: "(2::nat) ^ scale * 2 ^ tableLog = 2 ^ 62" using assms(5) by (simp add: power_add[symmetric] assms(6))
  have "(2::nat) ^ tableLog \<le> 2 ^ 12" using assms(5) by (intro power_increasing) auto
  have p: "p < 2 ^ tableLog" using y(1) T unfolding p_def by (intro less_mult_imp_div_less) (simp add: mult.commute)
  then have p12: "p < 4096" using \<open>(2::nat) ^ tableLog \<le> 2 ^ 12\<close> by simp
  have u: "u64 (c * step) = y" using y by (simp add: u64_def y_def)
  have sp: "short (int p) = int p" using p12 by (intro short_id) auto
  have pr: "p * 2 ^ scale \<le> y" by (simp add: p_def)
  then have u2: "u64 (p * 2 ^ scale) = p * 2 ^ scale" using y(1) by (simp add: u64_def)
  have rest: "sub_u64 y (p * 2 ^ scale) = y - p * 2 ^ scale" using sub_u64_add[of "y - p * 2 ^ scale" "p * 2 ^ scale"] pr y(1) by simp
  define b where "b = (if y - p * 2 ^ scale > u64 (2 ^ (scale - 20) * rtbTable ! p) then 1 else 0 :: int)"
  have sb: "short (int p + b) = int p + b" using p12 by (intro short_id) (auto simp: b_def)
  have val: "norm_proba scale step c = (if p < 8 then int p + b else int p)"
    unfolding norm_proba_def Let_def u p_def[symmetric] sp nat_int u2 rest b_def[symmetric] sb by simp
  have "b = 1" if "p = 0" using that y(2) by (simp add: b_def rtbTable_def u64_def)
  then show "1 \<le> norm_proba scale step c" unfolding val by (cases "p = 0") (auto simp: b_def)
  have "int p + 1 \<le> 2 ^ tableLog" using p by (metis Suc_leI of_nat_Suc of_nat_le_iff of_nat_numeral of_nat_power add.commute)
  then show "norm_proba scale step c \<le> 2 ^ tableLog" unfolding val using p by (auto simp: b_def)
qed

definition norm_step :: "nat list \<Rightarrow> nat \<Rightarrow> nat \<Rightarrow> int \<Rightarrow> nat \<Rightarrow> nat \<Rightarrow> norm_state \<Rightarrow> norm_state" where
  "norm_step counts scale step lowProbCount lowThreshold s st =
     (if counts ! s = 0 then st\<lparr>ns_norm := (ns_norm st)[s := 0]\<rparr>
      else if counts ! s \<le> lowThreshold
      then st\<lparr>ns_norm := (ns_norm st)[s := lowProbCount], ns_still := ns_still st - 1\<rparr>
      else
        let proba = norm_proba scale step (counts ! s);
            st = (if proba > ns_largestP st then st\<lparr>ns_largestP := proba, ns_largest := s\<rparr> else st)
        in st\<lparr>ns_norm := (ns_norm st)[s := proba], ns_still := ns_still st - proba\<rparr>)"

lemma norm_loop_fold:
  "\<forall>s\<in>set ss. counts ! s \<noteq> totalCount \<Longrightarrow>
     norm_loop counts totalCount scale step low lowT ss st = (False, fold (norm_step counts scale step low lowT) ss st)"
  by (induction ss arbitrary: st) (simp_all add: norm_step_def)

lemma norm_fold:
  assumes "length norm = length counts" "low = 1 \<or> low = -1" "k \<le> length counts"
    and "\<forall>c\<in>set counts. 0 < c \<longrightarrow> 1 \<le> norm_proba scale step c"
    and "st = fold (norm_step counts scale step low lowT) [0..<k] \<lparr>ns_norm = norm, ns_still = T, ns_largest = 0, ns_largestP = 0\<rparr>"
  shows "ns_norm st = map (norm_val scale step low lowT) (take k counts) @ drop k norm
    \<and> ns_still st = T - int (sum_list (map ncount (map (norm_val scale step low lowT) (take k counts))))
    \<and> (\<forall>s<k. lowT < counts ! s \<longrightarrow> 1 \<le> ns_largestP st)
    \<and> (1 \<le> ns_largestP st \<longrightarrow> ns_largest st < k \<and> norm_val scale step low lowT (counts ! ns_largest st) = ns_largestP st)"
  using assms(3,5)
proof (induction k arbitrary: st)
  case (Suc k)
  define st0 where "st0 = fold (norm_step counts scale step low lowT) [0..<k] \<lparr>ns_norm = norm, ns_still = T, ns_largest = 0, ns_largestP = 0\<rparr>"
  let ?f = "norm_val scale step low lowT" and ?c = "counts ! k"
  have tk: "take (Suc k) counts = take k counts @ [?c]" using Suc.prems by (simp add: take_Suc_conv_app_nth)
  note IH = Suc.IH[OF _ st0_def]
  have st: "st = norm_step counts scale step low lowT k st0" unfolding st0_def Suc.prems(2) by simp
  have u: "(map ?f (take k counts) @ drop k norm)[k := x] = map ?f (take k counts) @ x # drop (Suc k) norm" for x
    using upd_pass[of k norm counts] Suc.prems assms(1) by simp
  have pos: "1 \<le> norm_proba scale step ?c" if "0 < ?c" using assms(4) Suc.prems(1) that by simp
  have n0: "ncount (?f ?c) = (if ?c = 0 then 0 else if ?c \<le> lowT then 1 else nat (norm_proba scale step ?c))"
    using assms(2) pos by (cases "?c = 0") (auto simp: norm_val_def ncount_def)
  have "ns_norm st = (ns_norm st0)[k := ?f ?c]" by (auto simp: st norm_step_def norm_val_def Let_def)
  then have a: "ns_norm st = map ?f (take (Suc k) counts) @ drop (Suc k) norm" using IH Suc.prems u by (simp add: tk)
  have "ns_still st = ns_still st0 - int (ncount (?f ?c))" unfolding n0 using pos
    by (cases "?c = 0") (auto simp: st norm_step_def Let_def)
  then have b: "ns_still st = T - int (sum_list (map ncount (map ?f (take (Suc k) counts))))" using IH Suc.prems by (simp add: tk)
  have c: "(\<forall>s<Suc k. lowT < counts ! s \<longrightarrow> 1 \<le> ns_largestP st)
    \<and> (1 \<le> ns_largestP st \<longrightarrow> ns_largest st < Suc k \<and> ?f (counts ! ns_largest st) = ns_largestP st)"
  proof (cases "?c \<le> lowT")
    case True
    then have "ns_largestP st = ns_largestP st0" "ns_largest st = ns_largest st0" by (simp_all add: st norm_step_def)
    then show ?thesis using IH Suc.prems(1) True by (auto simp: less_Suc_eq)
  next
    case False
    let ?p = "norm_proba scale step ?c"
    have f: "?f ?c = ?p" "1 \<le> ?p" using False pos by (simp_all add: norm_val_def)
    have "ns_largestP st = max ?p (ns_largestP st0)" "ns_largest st = (if ?p > ns_largestP st0 then k else ns_largest st0)"
      using False by (auto simp: st norm_step_def Let_def)
    then show ?thesis using IH Suc.prems(1) f by (auto simp: max_def less_Suc_eq)
  qed
  show ?case using a b c by blast
qed simp

lemma sum_list_update_int:
  "i < length xs \<Longrightarrow> int (sum_list (map f (xs[i := x]))) = int (sum_list (map f xs)) - int (f (xs ! i)) + int (f x)"
  by (induction xs arbitrary: i) (auto split: nat.splits)

lemma normalizeCount_ok:
  assumes h: "histogram counts totalCount maxSymbolValue" "5 \<le> tableLog" "tableLog \<le> 12"
    "FSE_minTableLog totalCount maxSymbolValue \<le> tableLog" and ln: "length norm = length counts"
  shows "\<exists>norm'. FSE_normalizeCount norm tableLog counts totalCount maxSymbolValue useLow = Some (Inr (tableLog, norm'))
    \<and> normalizes counts tableLog (if useLow then -1 else 1) norm'"
proof -
  define low :: int where "low = (if useLow then -1 else 1)"
  have low: "low = 1 \<or> low = -1" by (simp add: low_def)
  have roomy: "roomy counts totalCount tableLog" by (rule minTableLog_roomy[OF h(1,4)])
  have hh: "totalCount < 2 ^ 32" "length counts = maxSymbolValue + 1" "\<forall>c\<in>set counts. c < totalCount" "length counts \<le> 256"
    using h(1) by (auto simp: histogram_def)
  define lowT step scale where "lowT = totalCount div 2 ^ tableLog" and "step = 2 ^ 62 div totalCount" and "scale = 62 - tableLog"
  have "lowT < 2 ^ 32" unfolding lowT_def using div_le_dividend[of totalCount "2 ^ tableLog"] hh(1) by linarith
  then have u: "u32 totalCount = totalCount" "u32 (totalCount div 2 ^ tableLog) = lowT" using hh(1) by (simp_all add: u32_def lowT_def)
  have P: "1 \<le> norm_proba scale step c" "norm_proba scale step c \<le> 2 ^ tableLog" if "c \<in> set counts" "0 < c" for c
    using norm_proba_bounds[OF that(2) _ hh(1) h(2,3) scale_def step_def] that hh(3) by auto
  define st where "st = fold (norm_step counts scale step low lowT) [0..<length counts]
    \<lparr>ns_norm = norm, ns_still = 2 ^ tableLog, ns_largest = 0, ns_largestP = 0\<rparr>"
  let ?f = "norm_val scale step low lowT"
  have st: "ns_norm st = map ?f counts" "ns_still st = 2 ^ tableLog - int (sum_list (map ncount (map ?f counts)))"
    "\<forall>s<length counts. lowT < counts ! s \<longrightarrow> 1 \<le> ns_largestP st"
    "1 \<le> ns_largestP st \<longrightarrow> ns_largest st < length counts \<and> ?f (counts ! ns_largest st) = ns_largestP st"
    using norm_fold[OF ln low le_refl _ st_def] P(1) ln by auto
  obtain s where "s < length counts" "lowT < counts ! s" using large_count[OF h(1) roomy] unfolding lowT_def by (metis in_set_conv_nth)
  then have lp: "1 \<le> ns_largestP st" "ns_largest st < length counts" "?f (counts ! ns_largest st) = ns_largestP st" using st(3,4) by auto
  have at: "ns_norm st ! ns_largest st = ns_largestP st" using lp(2,3) by (simp add: st(1))
  have loop: "norm_loop counts totalCount scale step low lowT [0..<maxSymbolValue + 1]
      \<lparr>ns_norm = norm, ns_still = 2 ^ tableLog, ns_largest = 0, ns_largestP = 0\<rparr> = (False, st)"
  proof -
    have "\<forall>s\<in>set [0..<length counts]. counts ! s \<noteq> totalCount" using hh(3) by (auto dest!: bspec[OF _ nth_mem])
    from norm_loop_fold[OF this] show ?thesis unfolding st_def hh(2) by simp
  qed
  have body: "FSE_normalizeCount norm tableLog counts totalCount maxSymbolValue useLow =
      (if - ns_still st \<ge> ns_largestP st div 2
       then map_option (\<lambda>r. bindE r (\<lambda>norm. Inr (tableLog, norm))) (FSE_normalizeM2 (ns_norm st) tableLog counts totalCount maxSymbolValue low)
       else Some (Inr (tableLog, (ns_norm st)[ns_largest st := short (ns_largestP st + short (ns_still st))])))"
  proof -
    have g: "(tableLog = 0) = False" "(tableLog < FSE_MIN_TABLELOG) = False" "(tableLog > FSE_MAX_TABLELOG) = False"
      "(tableLog < FSE_minTableLog totalCount maxSymbolValue) = False"
      using h(2-4) by (auto simp: FSE_MIN_TABLELOG_def FSE_MAX_TABLELOG_def)
    show ?thesis
      by (simp only: FSE_normalizeCount_def Let_def g if_False u low_def[symmetric] scale_def[symmetric] step_def[symmetric] loop prod.case at)
  qed
  show ?thesis
  proof (cases "- ns_still st \<ge> ns_largestP st div 2")
    case True
    have "length (ns_norm st) = length counts" by (simp add: st(1))
    from normalizeM2_ok[OF h(1) roomy h(2,3) low this] show ?thesis using True unfolding body low_def by auto
  next
    case False
    let ?p = "ns_largestP st" and ?r = "ns_still st"
    let ?n = "(ns_norm st)[ns_largest st := ?p + ?r]"
    have T: "(2::int) ^ tableLog \<le> 2 ^ 12" using h(3) by (intro power_increasing) auto
    have "?p \<le> 2 ^ tableLog"
    proof -
      let ?c = "counts ! ns_largest st"
      have "?c \<in> set counts" using lp(2) by simp
      then have "?p \<le> 2 ^ tableLog \<or> ?p \<le> 1" using P(2)[of ?c] low lp(3)[symmetric] by (auto simp: norm_val_def)
      moreover have "(1::int) \<le> 2 ^ tableLog" by simp
      ultimately show ?thesis by linarith
    qed
    then have p: "?p \<le> 4096" using T by simp
    have r: "?r \<le> 2 ^ tableLog" "- ?r < ?p div 2" using st(2) False by auto
    then have r2: "?r \<le> 4096" using T by simp
    have pr: "1 \<le> ?p + ?r" using r(2) lp(1) by linarith
    have sh: "short (?p + short ?r) = ?p + ?r" using p r(2) r2 lp(1) by (subst (2) short_id) (auto intro!: short_id)
    have "int (sum_list (map ncount ?n)) = int (sum_list (map ncount (ns_norm st))) - int (ncount ?p) + int (ncount (?p + ?r))"
      using sum_list_update_int[of "ns_largest st" "ns_norm st" ncount] lp(2) at by (simp add: st(1))
    also have "\<dots> = 2 ^ tableLog" using st(2) lp(1) pr by (simp add: st(1) ncount_def)
    finally have "sum_list (map ncount ?n) = 2 ^ tableLog" by (metis of_nat_eq_iff of_nat_numeral of_nat_power)
    moreover have "if counts ! s = 0 then ?n ! s = 0 else 1 \<le> ?n ! s \<or> ?n ! s = low" if s: "s < length counts" for s
    proof (cases "s = ns_largest st")
      case True
      have "counts ! s \<noteq> 0"
      proof
        assume "counts ! s = 0"
        then show False using lp(1,3) True by (simp add: norm_val_def)
      qed
      then show ?thesis using True pr s by (simp add: st(1))
    next
      case False
      then have "?n ! s = ?f (counts ! s)" using s by (simp add: st(1))
      then show ?thesis using P(1)[of "counts ! s"] s by (auto simp: norm_val_def)
    qed
    moreover have "length ?n = length counts" by (simp add: st(1))
    ultimately show ?thesis using False unfolding body sh low_def[symmetric] normalizes_def by simp
  qed
qed

text \<open>
  Property C24: normalization always succeeds.  For the counts of a source of bytes, of
  which no symbol has all, at the accuracy \<open>FSE_optimalTableLog\<close> chooses, \<open>FSE_normalizeCount\<close> returns, reports
  no error, and its counts fill a table of that accuracy exactly, with a share for the symbols that
  occur and for no others; a share of \<open>-1\<close>, for a fraction of a cell, is only given if asked for.\<close>

theorem fse_normalize_succeeds:
  assumes "histogram counts totalCount maxSymbolValue" "length normalizedCounter = maxSymbolValue + 1"
  shows "\<exists>norm. FSE_normalizeCount normalizedCounter (FSE_optimalTableLog maxTableLog totalCount maxSymbolValue) counts totalCount
        maxSymbolValue useLowProbCount = Some (Inr (FSE_optimalTableLog maxTableLog totalCount maxSymbolValue, norm))
    \<and> normalized (FSE_optimalTableLog maxTableLog totalCount maxSymbolValue) norm \<and> length norm = maxSymbolValue + 1
    \<and> (\<forall>s\<le>maxSymbolValue. (norm ! s = 0 \<longleftrightarrow> counts ! s = 0) \<and> (norm ! s = -1 \<longrightarrow> useLowProbCount))"
proof -
  let ?l = "FSE_optimalTableLog maxTableLog totalCount maxSymbolValue"
  have h: "1 \<le> maxSymbolValue" "maxSymbolValue \<le> 255" "length counts = maxSymbolValue + 1" using assms(1) by (auto simp: histogram_def)
  note b = optimalTableLog_bounds(1,2)[OF h(1,2), of maxTableLog totalCount] optimalTableLog_bounds(3)[OF h(1,2), of totalCount maxTableLog]
  obtain norm where n: "FSE_normalizeCount normalizedCounter ?l counts totalCount maxSymbolValue useLowProbCount = Some (Inr (?l, norm))"
    "normalizes counts ?l (if useLowProbCount then -1 else 1) norm"
    using normalizeCount_ok[OF assms(1) b, of normalizedCounter] assms(2) h(3) by auto
  then have e: "s < length counts \<Longrightarrow> if counts ! s = 0 then norm ! s = 0 else 1 \<le> norm ! s \<or> norm ! s = (if useLowProbCount then -1 else 1)" for s
    by (simp add: normalizes_def)
  have "\<forall>c\<in>set norm. -1 \<le> c"
  proof
    fix c assume "c \<in> set norm"
    then obtain s where "s < length counts" "c = norm ! s" using n(2) by (metis in_set_conv_nth normalizes_def)
    then show "-1 \<le> c" using e[of s] by (auto split: if_splits)
  qed
  then have "normalized ?l norm" using n(2) b h by (simp add: normalized_def normalizes_def)
  moreover have "(norm ! s = 0 \<longleftrightarrow> counts ! s = 0) \<and> (norm ! s = -1 \<longrightarrow> useLowProbCount)" if "s \<le> maxSymbolValue" for s
    using e[of s] that h(3) by (auto split: if_splits)
  ultimately show ?thesis using n h(3) by (auto simp: normalizes_def)
qed

theorem fse_normalize_succeeds_witness:
  "histogram [90, 7, 0, 3] 100 3
    \<and> (\<exists>norm l. FSE_normalizeCount [0, 0, 0, 0] l [90, 7, 0, 3] 100 3 True = Some (Inr (l, norm)) \<and> normalized l norm \<and> norm ! 2 = 0 \<and> norm ! 3 \<noteq> 0)"
proof
  show h: "histogram [90, 7, 0, 3] 100 3" by (simp add: histogram_def)
  show "\<exists>norm l. FSE_normalizeCount [0, 0, 0, 0] l [90, 7, 0, 3] 100 3 True = Some (Inr (l, norm)) \<and> normalized l norm \<and> norm ! 2 = 0 \<and> norm ! 3 \<noteq> 0"
  proof -
    let ?l = "FSE_optimalTableLog 11 100 3"
    obtain norm where n: "FSE_normalizeCount [0, 0, 0, 0] ?l [90, 7, 0, 3] 100 3 True = Some (Inr (?l, norm))" "normalized ?l norm"
      "\<forall>s\<le>3. (norm ! s = 0 \<longleftrightarrow> [90, 7, 0, 3::nat] ! s = 0) \<and> (norm ! s = -1 \<longrightarrow> True)"
      using fse_normalize_succeeds[OF h, of "[0, 0, 0, 0]" 11 True] by auto
    have "norm ! 2 = 0" "norm ! 3 \<noteq> 0" using n(3)[rule_format, of 2] n(3)[rule_format, of 3] by simp_all
    then show ?thesis using n(1,2) by blast
  qed
qed

subsection \<open>Sources of one symbol\<close>

text \<open>The table of a source of one symbol, for which normalization gives the accuracy 0.\<close>

definition FSE_buildCTable_rle :: "FSE_CTable \<Rightarrow> BYTE \<Rightarrow> FSE_CTable" where
  "FSE_buildCTable_rle ct symbolValue =
     ct\<lparr>ct_tableLog := 0, ct_maxSymbolValue := unat symbolValue,
        ct_tableU16 := (ct_tableU16 ct)[0 := 0, 1 := 0],
        ct_symbolTT := (ct_symbolTT ct)[unat symbolValue := \<lparr>deltaFindState = 0, deltaNbBits = 0\<rparr>]\<rparr>"

lemma rle_init:
  assumes "2 \<le> length (ct_tableU16 ct)" "unat symbolValue < length (ct_symbolTT ct)"
  shows "cs_value (FSE_initCState2 (FSE_buildCTable_rle ct symbolValue) (unat symbolValue)) = 0"
    "cs_stateLog (FSE_initCState2 (FSE_buildCTable_rle ct symbolValue) (unat symbolValue)) = 0"
proof -
  have "0 < length (ct_tableU16 ct)" using assms(1) by linarith
  then show "cs_value (FSE_initCState2 (FSE_buildCTable_rle ct symbolValue) (unat symbolValue)) = 0"
    "cs_stateLog (FSE_initCState2 (FSE_buildCTable_rle ct symbolValue) (unat symbolValue)) = 0"
    using assms by (simp_all add: FSE_initCState2_def FSE_initCState_def FSE_buildCTable_rle_def Let_def sub32_def)
qed

lemma rle_encode_free:
  assumes "2 \<le> length (ct_tableU16 ct)" "unat symbolValue < length (ct_symbolTT ct)"
    "st = FSE_initCState2 (FSE_buildCTable_rle ct symbolValue) (unat symbolValue)"
  shows "FSE_encodeSymbol bitC st (unat symbolValue) = (BIT_addBits bitC 0 0, st)"
proof -
  have "st\<lparr>cs_value := 0\<rparr> = st" using rle_init(1)[OF assms(1,2)] assms(3) by simp
  moreover have "0 < length (ct_tableU16 ct)" using assms(1) by linarith
  moreover from this have "cs_value st = 0" "cs_symbolTT st ! unat symbolValue = \<lparr>deltaFindState = 0, deltaNbBits = 0\<rparr>" "cs_stateTable st ! 0 = 0"
    using rle_init(1)[OF assms(1,2)] assms by (simp_all add: FSE_initCState2_def FSE_initCState_def FSE_buildCTable_rle_def Let_def)
  ultimately show ?thesis by (simp add: FSE_encodeSymbol_def)
qed

end
