(* ===== verification/Zstd_XXHash.thy ===== *)
theory Zstd_XXHash
  imports Zstd_Mem
begin

section \<open>Content checksum (\<^verbatim>\<open>common/xxhash.h\<close>, XXH32 and XXH64)\<close>

text \<open>
  The one-shot and the streaming implementations of the 32- and 64-bit hashes.  The input is
  a byte list, pointers into it are offsets, hashes and lengths are words of their C width.
  The lanes \<open>v[4]\<close> are a 4-tuple, the partial-stripe buffers \<open>mem32\<close> and \<open>mem64\<close> are byte
  lists of 16 and 32 bytes.  The byte order is a parameter, as is the choice
  \<open>XXH32_ENDJMP\<close> between the two forms of \<open>XXH32_finalize\<close>.  The locale \<open>stream_hash\<close> is
  the contract of a streaming hash: its state stands for the bytes fed so far.
\<close>

datatype XXH_alignment = XXH_aligned | XXH_unaligned

definition XXH_rotl32 :: "U32 \<Rightarrow> nat \<Rightarrow> U32" where
  "XXH_rotl32 x r = (push_bit r x OR drop_bit (32 - r) x)"

definition XXH_rotl64 :: "U64 \<Rightarrow> nat \<Rightarrow> U64" where
  "XXH_rotl64 x r = (push_bit r x OR drop_bit (64 - r) x)"

definition XXH_read32 :: "endian \<Rightarrow> buffer \<Rightarrow> nat \<Rightarrow> U32" where
  "XXH_read32 e buf p = of_nat (le_val (native e (bytes_at buf p 4)))"

definition XXH_read64 :: "endian \<Rightarrow> buffer \<Rightarrow> nat \<Rightarrow> U64" where
  "XXH_read64 e buf p = of_nat (le_val (native e (bytes_at buf p 8)))"

definition XXH_readLE32 :: "endian \<Rightarrow> buffer \<Rightarrow> nat \<Rightarrow> U32" where
  "XXH_readLE32 e buf p =
     (if MEM_isLittleEndian e then XXH_read32 e buf p else MEM_swap32 (XXH_read32 e buf p))"

definition XXH_readLE64 :: "endian \<Rightarrow> buffer \<Rightarrow> nat \<Rightarrow> U64" where
  "XXH_readLE64 e buf p =
     (if MEM_isLittleEndian e then XXH_read64 e buf p else MEM_swap64 (XXH_read64 e buf p))"

definition XXH_readBE32 :: "endian \<Rightarrow> buffer \<Rightarrow> nat \<Rightarrow> U32" where
  "XXH_readBE32 e buf p =
     (if MEM_isLittleEndian e then MEM_swap32 (XXH_read32 e buf p) else XXH_read32 e buf p)"

definition XXH_readBE64 :: "endian \<Rightarrow> buffer \<Rightarrow> nat \<Rightarrow> U64" where
  "XXH_readBE64 e buf p =
     (if MEM_isLittleEndian e then MEM_swap64 (XXH_read64 e buf p) else XXH_read64 e buf p)"

definition XXH_readLE32_align :: "endian \<Rightarrow> XXH_alignment \<Rightarrow> buffer \<Rightarrow> nat \<Rightarrow> U32" where
  "XXH_readLE32_align e align buf p =
     (if align = XXH_unaligned then XXH_readLE32 e buf p
      else if MEM_isLittleEndian e then MEM_read32 e buf p else MEM_swap32 (MEM_read32 e buf p))"

definition XXH_readLE64_align :: "endian \<Rightarrow> XXH_alignment \<Rightarrow> buffer \<Rightarrow> nat \<Rightarrow> U64" where
  "XXH_readLE64_align e align buf p =
     (if align = XXH_unaligned then XXH_readLE64 e buf p
      else if MEM_isLittleEndian e then MEM_read64 e buf p else MEM_swap64 (MEM_read64 e buf p))"

subsection \<open>XXH32\<close>

type_synonym lanes32 = "U32 \<times> U32 \<times> U32 \<times> U32"

definition XXH_PRIME32_1 :: U32 where "XXH_PRIME32_1 = 0x9E3779B1"
definition XXH_PRIME32_2 :: U32 where "XXH_PRIME32_2 = 0x85EBCA77"
definition XXH_PRIME32_3 :: U32 where "XXH_PRIME32_3 = 0xC2B2AE3D"
definition XXH_PRIME32_4 :: U32 where "XXH_PRIME32_4 = 0x27D4EB2F"
definition XXH_PRIME32_5 :: U32 where "XXH_PRIME32_5 = 0x165667B1"

definition XXH32_round :: "U32 \<Rightarrow> U32 \<Rightarrow> U32" where
  "XXH32_round acc input =
     (let acc = acc + input * XXH_PRIME32_2;
          acc = XXH_rotl32 acc 13
      in acc * XXH_PRIME32_1)"

definition XXH32_avalanche :: "U32 \<Rightarrow> U32" where
  "XXH32_avalanche hash =
     (let hash = hash XOR drop_bit 15 hash;
          hash = hash * XXH_PRIME32_2;
          hash = hash XOR drop_bit 13 hash;
          hash = hash * XXH_PRIME32_3
      in hash XOR drop_bit 16 hash)"

text \<open>The macros of \<open>XXH32_finalize\<close> act on the hash and the read pointer.\<close>

fun XXH32_process1 :: "buffer \<Rightarrow> U32 \<times> nat \<Rightarrow> U32 \<times> nat" where
  "XXH32_process1 buf (hash, p) =
     (XXH_rotl32 (hash + ucast (buf ! p) * XXH_PRIME32_5) 11 * XXH_PRIME32_1, p + 1)"

fun XXH32_process4 :: "endian \<Rightarrow> XXH_alignment \<Rightarrow> buffer \<Rightarrow> U32 \<times> nat \<Rightarrow> U32 \<times> nat" where
  "XXH32_process4 e align buf (hash, p) =
     (XXH_rotl32 (hash + XXH_readLE32_align e align buf p * XXH_PRIME32_3) 17 * XXH_PRIME32_4, p + 4)"

fun XXH32_fin1 :: "buffer \<Rightarrow> nat \<Rightarrow> U32 \<times> nat \<Rightarrow> U32 \<times> nat" where
  "XXH32_fin1 buf len s = (if 0 < len then XXH32_fin1 buf (len - 1) (XXH32_process1 buf s) else s)"

fun XXH32_fin4 :: "endian \<Rightarrow> XXH_alignment \<Rightarrow> buffer \<Rightarrow> nat \<Rightarrow> U32 \<times> nat \<Rightarrow> nat \<times> U32 \<times> nat" where
  "XXH32_fin4 e align buf len s =
     (if 4 \<le> len then XXH32_fin4 e align buf (len - 4) (XXH32_process4 e align buf s) else (len, s))"

declare XXH32_fin1.simps [simp del] XXH32_fin4.simps [simp del]

definition XXH32_finalize_compact ::
  "endian \<Rightarrow> XXH_alignment \<Rightarrow> U32 \<Rightarrow> buffer \<Rightarrow> nat \<Rightarrow> size_t \<Rightarrow> U32" where
  "XXH32_finalize_compact e align hash buf p len =
     (let (l, s) = XXH32_fin4 e align buf (unat (len AND 15)) (hash, p);
          (hash, p) = XXH32_fin1 buf l s
      in XXH32_avalanche hash)"

text \<open>The \<open>switch\<close> with its fall-through, one row per \<open>case\<close> label.\<close>

definition XXH32_finalize_switch ::
  "endian \<Rightarrow> XXH_alignment \<Rightarrow> U32 \<Rightarrow> buffer \<Rightarrow> nat \<Rightarrow> size_t \<Rightarrow> U32" where
  "XXH32_finalize_switch e align hash buf p len =
     (let p1 = XXH32_process1 buf; p4 = XXH32_process4 e align buf; s = (hash, p);
          c = unat (len AND 15)
      in if c = 12 then XXH32_avalanche (fst (p4 (p4 (p4 s))))
         else if c = 8 then XXH32_avalanche (fst (p4 (p4 s)))
         else if c = 4 then XXH32_avalanche (fst (p4 s))
         else if c = 13 then XXH32_avalanche (fst (p1 (p4 (p4 (p4 s)))))
         else if c = 9 then XXH32_avalanche (fst (p1 (p4 (p4 s))))
         else if c = 5 then XXH32_avalanche (fst (p1 (p4 s)))
         else if c = 14 then XXH32_avalanche (fst (p1 (p1 (p4 (p4 (p4 s))))))
         else if c = 10 then XXH32_avalanche (fst (p1 (p1 (p4 (p4 s)))))
         else if c = 6 then XXH32_avalanche (fst (p1 (p1 (p4 s))))
         else if c = 15 then XXH32_avalanche (fst (p1 (p1 (p1 (p4 (p4 (p4 s)))))))
         else if c = 11 then XXH32_avalanche (fst (p1 (p1 (p1 (p4 (p4 s))))))
         else if c = 7 then XXH32_avalanche (fst (p1 (p1 (p1 (p4 s)))))
         else if c = 3 then XXH32_avalanche (fst (p1 (p1 (p1 s))))
         else if c = 2 then XXH32_avalanche (fst (p1 (p1 s)))
         else if c = 1 then XXH32_avalanche (fst (p1 s))
         else if c = 0 then XXH32_avalanche (fst s)
         else hash)"

definition XXH32_finalize ::
  "bool \<Rightarrow> endian \<Rightarrow> XXH_alignment \<Rightarrow> U32 \<Rightarrow> buffer \<Rightarrow> nat \<Rightarrow> size_t \<Rightarrow> U32" where
  "XXH32_finalize endjmp e align hash buf p len =
     (if \<not> endjmp then XXH32_finalize_compact e align hash buf p len
      else XXH32_finalize_switch e align hash buf p len)"

definition XXH32_init :: "U32 \<Rightarrow> lanes32" where
  "XXH32_init seed = (seed + XXH_PRIME32_1 + XXH_PRIME32_2, seed + XXH_PRIME32_2, seed + 0, seed - XXH_PRIME32_1)"

fun XXH32_stripe :: "endian \<Rightarrow> XXH_alignment \<Rightarrow> buffer \<Rightarrow> nat \<Rightarrow> lanes32 \<Rightarrow> lanes32" where
  "XXH32_stripe e align buf p (v1, v2, v3, v4) =
     (XXH32_round v1 (XXH_readLE32_align e align buf p),
      XXH32_round v2 (XXH_readLE32_align e align buf (p + 4)),
      XXH32_round v3 (XXH_readLE32_align e align buf (p + 8)),
      XXH32_round v4 (XXH_readLE32_align e align buf (p + 12)))"

fun XXH32_merge :: "lanes32 \<Rightarrow> U32" where
  "XXH32_merge (v1, v2, v3, v4) =
     XXH_rotl32 v1 1 + XXH_rotl32 v2 7 + XXH_rotl32 v3 12 + XXH_rotl32 v4 18"

text \<open>The \<open>do\<close> loop of the one-shot function ends on \<open>input < limit\<close>.\<close>

function XXH32_loop ::
  "endian \<Rightarrow> XXH_alignment \<Rightarrow> buffer \<Rightarrow> nat \<Rightarrow> nat \<Rightarrow> lanes32 \<Rightarrow> nat \<times> lanes32" where
  "XXH32_loop e align buf limit p v =
     (let v = XXH32_stripe e align buf p v; p = p + 16
      in if p < limit then XXH32_loop e align buf limit p v else (p, v))"
  by pat_completeness auto
termination by (relation "measure (\<lambda>(e, align, buf, limit, p, v). limit - p)") auto

declare XXH32_loop.simps [simp del]

definition XXH32_endian_align ::
  "bool \<Rightarrow> endian \<Rightarrow> XXH_alignment \<Rightarrow> buffer \<Rightarrow> size_t \<Rightarrow> U32 \<Rightarrow> U32" where
  "XXH32_endian_align endjmp e align input len seed =
     (let (p, h32) =
            (if 16 \<le> len
             then (let (p, v) = XXH32_loop e align input (unat len - 15) 0 (XXH32_init seed)
                   in (p, XXH32_merge v))
             else (0, seed + XXH_PRIME32_5));
          h32 = h32 + ucast len
      in XXH32_finalize endjmp e align h32 input p (len AND 15))"

definition XXH32 :: "bool \<Rightarrow> endian \<Rightarrow> buffer \<Rightarrow> size_t \<Rightarrow> U32 \<Rightarrow> U32" where
  "XXH32 endjmp e input len seed = XXH32_endian_align endjmp e XXH_unaligned input len seed"

record XXH32_state =
  x32_total_len_32 :: U32
  x32_large_len :: U32
  x32_v :: lanes32
  x32_mem32 :: buffer
  x32_memsize :: U32

definition XXH32_reset :: "U32 \<Rightarrow> XXH32_state" where
  "XXH32_reset seed =
     \<lparr>x32_total_len_32 = 0, x32_large_len = 0, x32_v = XXH32_init seed,
      x32_mem32 = replicate 16 0, x32_memsize = 0\<rparr>"

text \<open>The \<open>do\<close> loop of the streaming function ends on \<open>p <= limit\<close>.\<close>

function XXH32_update_loop ::
  "endian \<Rightarrow> buffer \<Rightarrow> nat \<Rightarrow> nat \<Rightarrow> lanes32 \<Rightarrow> nat \<times> lanes32" where
  "XXH32_update_loop e buf limit p v =
     (let v = XXH32_stripe e XXH_unaligned buf p v; p = p + 16
      in if p \<le> limit then XXH32_update_loop e buf limit p v else (p, v))"
  by pat_completeness auto
termination by (relation "measure (\<lambda>(e, buf, limit, p, v). Suc limit - p)") auto

declare XXH32_update_loop.simps [simp del]

definition XXH32_update :: "endian \<Rightarrow> XXH32_state \<Rightarrow> buffer \<Rightarrow> XXH32_state" where
  "XXH32_update e st input =
     (let len = (of_nat (length input) :: size_t); bEnd = length input;
          st = st\<lparr>x32_total_len_32 := x32_total_len_32 st + ucast len\<rparr>;
          st = st\<lparr>x32_large_len := x32_large_len st OR of_bool (16 \<le> len \<or> 16 \<le> x32_total_len_32 st)\<rparr>
      in if ucast (x32_memsize st) + len < 16
         then st\<lparr>x32_mem32 := write_at (x32_mem32 st) (unat (x32_memsize st)) input,
                 x32_memsize := x32_memsize st + ucast len\<rparr>
         else
           let (p, st) =
                 (if x32_memsize st \<noteq> 0
                  then (let n = 16 - unat (x32_memsize st);
                            mem = write_at (x32_mem32 st) (unat (x32_memsize st)) (bytes_at input 0 n)
                        in (n, st\<lparr>x32_mem32 := mem, x32_v := XXH32_stripe e XXH_unaligned mem 0 (x32_v st),
                                  x32_memsize := 0\<rparr>))
                  else (0, st));
               (p, st) =
                 (if p + 16 \<le> bEnd
                  then (let (p, v) = XXH32_update_loop e input (bEnd - 16) p (x32_v st)
                        in (p, st\<lparr>x32_v := v\<rparr>))
                  else (p, st))
           in if p < bEnd
              then st\<lparr>x32_mem32 := write_at (x32_mem32 st) 0 (bytes_at input p (bEnd - p)),
                      x32_memsize := of_nat (bEnd - p)\<rparr>
              else st)"

definition XXH32_digest :: "bool \<Rightarrow> endian \<Rightarrow> XXH32_state \<Rightarrow> U32" where
  "XXH32_digest endjmp e st =
     (let h32 = (if x32_large_len st \<noteq> 0 then XXH32_merge (x32_v st)
                 else fst (snd (snd (x32_v st))) + XXH_PRIME32_5);
          h32 = h32 + x32_total_len_32 st
      in XXH32_finalize endjmp e XXH_aligned h32 (x32_mem32 st) 0 (ucast (x32_memsize st)))"

definition XXH32_canonicalFromHash :: "endian \<Rightarrow> U32 \<Rightarrow> buffer" where
  "XXH32_canonicalFromHash e hash =
     (let hash = (if MEM_isLittleEndian e then MEM_swap32 hash else hash)
      in native e (le_bytes 4 (unat hash)))"

definition XXH32_hashFromCanonical :: "endian \<Rightarrow> buffer \<Rightarrow> U32" where
  "XXH32_hashFromCanonical e src = XXH_readBE32 e src 0"

subsection \<open>XXH64\<close>

type_synonym lanes64 = "U64 \<times> U64 \<times> U64 \<times> U64"

definition XXH_PRIME64_1 :: U64 where "XXH_PRIME64_1 = 0x9E3779B185EBCA87"
definition XXH_PRIME64_2 :: U64 where "XXH_PRIME64_2 = 0xC2B2AE3D27D4EB4F"
definition XXH_PRIME64_3 :: U64 where "XXH_PRIME64_3 = 0x165667B19E3779F9"
definition XXH_PRIME64_4 :: U64 where "XXH_PRIME64_4 = 0x85EBCA77C2B2AE63"
definition XXH_PRIME64_5 :: U64 where "XXH_PRIME64_5 = 0x27D4EB2F165667C5"

definition XXH64_round :: "U64 \<Rightarrow> U64 \<Rightarrow> U64" where
  "XXH64_round acc input =
     (let acc = acc + input * XXH_PRIME64_2;
          acc = XXH_rotl64 acc 31
      in acc * XXH_PRIME64_1)"

definition XXH64_mergeRound :: "U64 \<Rightarrow> U64 \<Rightarrow> U64" where
  "XXH64_mergeRound acc val =
     (let val = XXH64_round 0 val; acc = acc XOR val
      in acc * XXH_PRIME64_1 + XXH_PRIME64_4)"

definition XXH64_avalanche :: "U64 \<Rightarrow> U64" where
  "XXH64_avalanche hash =
     (let hash = hash XOR drop_bit 33 hash;
          hash = hash * XXH_PRIME64_2;
          hash = hash XOR drop_bit 29 hash;
          hash = hash * XXH_PRIME64_3
      in hash XOR drop_bit 32 hash)"

text \<open>The three steps of \<open>XXH64_finalize\<close>: eight bytes at a time, then four, then single bytes.\<close>

fun XXH64_fin8 :: "endian \<Rightarrow> XXH_alignment \<Rightarrow> buffer \<Rightarrow> nat \<Rightarrow> U64 \<times> nat \<Rightarrow> nat \<times> U64 \<times> nat" where
  "XXH64_fin8 e align buf len (hash, p) =
     (if 8 \<le> len
      then (let k1 = XXH64_round 0 (XXH_readLE64_align e align buf p);
                hash = hash XOR k1;
                hash = XXH_rotl64 hash 27 * XXH_PRIME64_1 + XXH_PRIME64_4
            in XXH64_fin8 e align buf (len - 8) (hash, p + 8))
      else (len, hash, p))"

fun XXH64_fin4 :: "endian \<Rightarrow> XXH_alignment \<Rightarrow> buffer \<Rightarrow> nat \<Rightarrow> U64 \<times> nat \<Rightarrow> nat \<times> U64 \<times> nat" where
  "XXH64_fin4 e align buf len (hash, p) =
     (if 4 \<le> len
      then (let hash = hash XOR (ucast (XXH_readLE32_align e align buf p) * XXH_PRIME64_1)
            in (len - 4, XXH_rotl64 hash 23 * XXH_PRIME64_2 + XXH_PRIME64_3, p + 4))
      else (len, hash, p))"

fun XXH64_fin1 :: "buffer \<Rightarrow> nat \<Rightarrow> U64 \<times> nat \<Rightarrow> U64 \<times> nat" where
  "XXH64_fin1 buf len (hash, p) =
     (if 0 < len
      then (let hash = hash XOR (ucast (buf ! p) * XXH_PRIME64_5)
            in XXH64_fin1 buf (len - 1) (XXH_rotl64 hash 11 * XXH_PRIME64_1, p + 1))
      else (hash, p))"

declare XXH64_fin8.simps [simp del] XXH64_fin4.simps [simp del] XXH64_fin1.simps [simp del]

definition XXH64_finalize ::
  "endian \<Rightarrow> XXH_alignment \<Rightarrow> U64 \<Rightarrow> buffer \<Rightarrow> nat \<Rightarrow> size_t \<Rightarrow> U64" where
  "XXH64_finalize e align hash buf p len =
     (let (l, s) = XXH64_fin8 e align buf (unat (len AND 31)) (hash, p);
          (l, s) = XXH64_fin4 e align buf l s;
          (hash, p) = XXH64_fin1 buf l s
      in XXH64_avalanche hash)"

definition XXH64_init :: "U64 \<Rightarrow> lanes64" where
  "XXH64_init seed = (seed + XXH_PRIME64_1 + XXH_PRIME64_2, seed + XXH_PRIME64_2, seed + 0, seed - XXH_PRIME64_1)"

fun XXH64_stripe :: "endian \<Rightarrow> XXH_alignment \<Rightarrow> buffer \<Rightarrow> nat \<Rightarrow> lanes64 \<Rightarrow> lanes64" where
  "XXH64_stripe e align buf p (v1, v2, v3, v4) =
     (XXH64_round v1 (XXH_readLE64_align e align buf p),
      XXH64_round v2 (XXH_readLE64_align e align buf (p + 8)),
      XXH64_round v3 (XXH_readLE64_align e align buf (p + 16)),
      XXH64_round v4 (XXH_readLE64_align e align buf (p + 24)))"

fun XXH64_merge :: "lanes64 \<Rightarrow> U64" where
  "XXH64_merge (v1, v2, v3, v4) =
     (let h64 = XXH_rotl64 v1 1 + XXH_rotl64 v2 7 + XXH_rotl64 v3 12 + XXH_rotl64 v4 18;
          h64 = XXH64_mergeRound h64 v1;
          h64 = XXH64_mergeRound h64 v2;
          h64 = XXH64_mergeRound h64 v3
      in XXH64_mergeRound h64 v4)"

function XXH64_loop ::
  "endian \<Rightarrow> XXH_alignment \<Rightarrow> buffer \<Rightarrow> nat \<Rightarrow> nat \<Rightarrow> lanes64 \<Rightarrow> nat \<times> lanes64" where
  "XXH64_loop e align buf limit p v =
     (let v = XXH64_stripe e align buf p v; p = p + 32
      in if p < limit then XXH64_loop e align buf limit p v else (p, v))"
  by pat_completeness auto
termination by (relation "measure (\<lambda>(e, align, buf, limit, p, v). limit - p)") auto

declare XXH64_loop.simps [simp del]

definition XXH64_endian_align ::
  "endian \<Rightarrow> XXH_alignment \<Rightarrow> buffer \<Rightarrow> size_t \<Rightarrow> U64 \<Rightarrow> U64" where
  "XXH64_endian_align e align input len seed =
     (let (p, h64) =
            (if 32 \<le> len
             then (let (p, v) = XXH64_loop e align input (unat len - 31) 0 (XXH64_init seed)
                   in (p, XXH64_merge v))
             else (0, seed + XXH_PRIME64_5));
          h64 = h64 + len
      in XXH64_finalize e align h64 input p len)"

definition XXH64 :: "endian \<Rightarrow> buffer \<Rightarrow> size_t \<Rightarrow> U64 \<Rightarrow> U64" where
  "XXH64 e input len seed = XXH64_endian_align e XXH_unaligned input len seed"

record XXH64_state =
  x64_total_len :: U64
  x64_v :: lanes64
  x64_mem64 :: buffer
  x64_memsize :: U32

definition XXH64_reset :: "U64 \<Rightarrow> XXH64_state" where
  "XXH64_reset seed =
     \<lparr>x64_total_len = 0, x64_v = XXH64_init seed, x64_mem64 = replicate 32 0, x64_memsize = 0\<rparr>"

function XXH64_update_loop ::
  "endian \<Rightarrow> buffer \<Rightarrow> nat \<Rightarrow> nat \<Rightarrow> lanes64 \<Rightarrow> nat \<times> lanes64" where
  "XXH64_update_loop e buf limit p v =
     (let v = XXH64_stripe e XXH_unaligned buf p v; p = p + 32
      in if p \<le> limit then XXH64_update_loop e buf limit p v else (p, v))"
  by pat_completeness auto
termination by (relation "measure (\<lambda>(e, buf, limit, p, v). Suc limit - p)") auto

declare XXH64_update_loop.simps [simp del]

definition XXH64_update :: "endian \<Rightarrow> XXH64_state \<Rightarrow> buffer \<Rightarrow> XXH64_state" where
  "XXH64_update e st input =
     (let len = (of_nat (length input) :: size_t); bEnd = length input;
          st = st\<lparr>x64_total_len := x64_total_len st + len\<rparr>
      in if ucast (x64_memsize st) + len < 32
         then st\<lparr>x64_mem64 := write_at (x64_mem64 st) (unat (x64_memsize st)) input,
                 x64_memsize := x64_memsize st + ucast len\<rparr>
         else
           let (p, st) =
                 (if x64_memsize st \<noteq> 0
                  then (let n = 32 - unat (x64_memsize st);
                            mem = write_at (x64_mem64 st) (unat (x64_memsize st)) (bytes_at input 0 n)
                        in (n, st\<lparr>x64_mem64 := mem, x64_v := XXH64_stripe e XXH_unaligned mem 0 (x64_v st),
                                  x64_memsize := 0\<rparr>))
                  else (0, st));
               (p, st) =
                 (if p + 32 \<le> bEnd
                  then (let (p, v) = XXH64_update_loop e input (bEnd - 32) p (x64_v st)
                        in (p, st\<lparr>x64_v := v\<rparr>))
                  else (p, st))
           in if p < bEnd
              then st\<lparr>x64_mem64 := write_at (x64_mem64 st) 0 (bytes_at input p (bEnd - p)),
                      x64_memsize := of_nat (bEnd - p)\<rparr>
              else st)"

definition XXH64_digest :: "endian \<Rightarrow> XXH64_state \<Rightarrow> U64" where
  "XXH64_digest e st =
     (let h64 = (if 32 \<le> x64_total_len st then XXH64_merge (x64_v st)
                 else fst (snd (snd (x64_v st))) + XXH_PRIME64_5);
          h64 = h64 + x64_total_len st
      in XXH64_finalize e XXH_aligned h64 (x64_mem64 st) 0 (x64_total_len st))"

definition XXH64_canonicalFromHash :: "endian \<Rightarrow> U64 \<Rightarrow> buffer" where
  "XXH64_canonicalFromHash e hash =
     (let hash = (if MEM_isLittleEndian e then MEM_swap64 hash else hash)
      in native e (le_bytes 8 (unat hash)))"

definition XXH64_hashFromCanonical :: "endian \<Rightarrow> buffer \<Rightarrow> U64" where
  "XXH64_hashFromCanonical e src = XXH_readBE64 e src 0"

subsection \<open>Absorbing stripes\<close>

text \<open>
  The specification of the stripe loops: a byte string is cut into stripes of \<open>S\<close> bytes which
  are folded into the lanes, and less than a stripe is left over.
\<close>

function absorb :: "nat \<Rightarrow> (buffer \<Rightarrow> 'v \<Rightarrow> 'v) \<Rightarrow> buffer \<Rightarrow> 'v \<Rightarrow> 'v" where
  "absorb S f xs v =
     (if S = 0 \<or> length xs < S then v else absorb S f (drop S xs) (f (take S xs) v))"
  by pat_completeness auto
termination by (relation "measure (\<lambda>(S, f, xs, v). length xs)") auto

declare absorb.simps [simp del]

definition leftover :: "nat \<Rightarrow> buffer \<Rightarrow> buffer" where
  "leftover S xs = drop (S * (length xs div S)) xs"

lemma absorb_short: "length xs < S \<Longrightarrow> absorb S f xs v = v"
  by (subst absorb.simps) simp

lemma absorb_step:
  "0 < S \<Longrightarrow> S \<le> length xs \<Longrightarrow> absorb S f xs v = absorb S f (drop S xs) (f (take S xs) v)"
  by (subst absorb.simps) simp

lemma leftover_short: "length xs < S \<Longrightarrow> leftover S xs = xs"
  by (simp add: leftover_def)

lemma leftover_step: "0 < S \<Longrightarrow> S \<le> length xs \<Longrightarrow> leftover S xs = leftover S (drop S xs)"
  by (simp add: leftover_def le_div_geq algebra_simps)

lemma length_leftover: "length (leftover S xs) = length xs mod S"
  by (simp add: leftover_def minus_mult_div_eq_mod)

lemma absorb_append:
  assumes "0 < S"
  shows "absorb S f (xs @ ys) v = absorb S f (leftover S xs @ ys) (absorb S f xs v)"
  using assms
proof (induction S f xs v rule: absorb.induct)
  case (1 S f xs v)
  show ?case
  proof (cases "length xs < S")
    case True
    then show ?thesis by (simp add: absorb_short leftover_short)
  next
    case False
    with 1 show ?thesis
      by (simp add: absorb_step[of S "xs @ ys"] absorb_step[of S xs] leftover_step)
  qed
qed

lemma leftover_append:
  "0 < S \<Longrightarrow> leftover S (xs @ ys) = leftover S (leftover S xs @ ys)"
proof (induction "length xs" arbitrary: xs rule: less_induct)
  case less
  show ?case
  proof (cases "length xs < S")
    case True
    then show ?thesis by (simp add: leftover_short)
  next
    case False
    with less(2) have "leftover S (xs @ ys) = leftover S (drop S xs @ ys)"
      by (simp add: leftover_step)
    also have "\<dots> = leftover S (leftover S xs @ ys)"
      using less(1)[of "drop S xs"] less(2) False by (simp add: leftover_step[symmetric])
    finally show ?thesis .
  qed
qed

lemma bytes_at_bytes_at: "q + n \<le> m \<Longrightarrow> bytes_at (bytes_at buf p m) q n = bytes_at buf (p + q) n"
  by (simp add: bytes_at_def drop_take add.commute)

lemma bytes_at_to_end: "bytes_at buf p (length buf - p) = drop p buf"
  by (simp add: bytes_at_def)

lemma take_write_at_end:
  "p + length bs \<le> length buf \<Longrightarrow> take (p + length bs) (write_at buf p bs) = take p buf @ bs"
  by (simp add: write_at_def min_absorb2)

lemma write_at_fill:
  "p + length bs = length buf \<Longrightarrow> write_at buf p bs = take p buf @ bs"
  by (simp add: write_at_def)

subsection \<open>Reads and stripes depend on the bytes only\<close>

lemma XXH_readLE32_align_MEM: "XXH_readLE32_align e align buf p = MEM_readLE32 e buf p"
  by (simp add: XXH_readLE32_align_def XXH_readLE32_def XXH_read32_def MEM_readLE32_def MEM_read32_def)

lemma XXH_readLE64_align_MEM: "XXH_readLE64_align e align buf p = MEM_readLE64 e buf p"
  by (simp add: XXH_readLE64_align_def XXH_readLE64_def XXH_read64_def MEM_readLE64_def MEM_read64_def)

lemma XXH_readBE_MEM: "XXH_readBE32 e buf p = MEM_readBE32 e buf p" "XXH_readBE64 e buf p = MEM_readBE64 e buf p"
  by (simp_all add: XXH_readBE32_def XXH_readBE64_def XXH_read32_def XXH_read64_def
      MEM_readBE32_def MEM_readBE64_def MEM_read32_def MEM_read64_def)

lemma XXH_readLE32_align_eq:
  "p + 4 \<le> length buf \<Longrightarrow> XXH_readLE32_align e align buf p = of_nat (le_val (bytes_at buf p 4))"
  by (simp add: XXH_readLE32_align_MEM mem_read_eqs)

lemma XXH_readLE64_align_eq:
  "p + 8 \<le> length buf \<Longrightarrow> XXH_readLE64_align e align buf p = of_nat (le_val (bytes_at buf p 8))"
  by (simp add: XXH_readLE64_align_MEM mem_read_eqs)

definition stripe32 :: "buffer \<Rightarrow> lanes32 \<Rightarrow> lanes32" where
  "stripe32 xs v = XXH32_stripe LittleEndian XXH_unaligned xs 0 v"

definition stripe64 :: "buffer \<Rightarrow> lanes64 \<Rightarrow> lanes64" where
  "stripe64 xs v = XXH64_stripe LittleEndian XXH_unaligned xs 0 v"

lemma XXH32_stripe_eq:
  "p + 16 \<le> length buf \<Longrightarrow> XXH32_stripe e align buf p v = stripe32 (bytes_at buf p 16) v"
  by (cases v) (simp add: stripe32_def XXH_readLE32_align_eq bytes_at_bytes_at)

lemma XXH64_stripe_eq:
  "p + 32 \<le> length buf \<Longrightarrow> XXH64_stripe e align buf p v = stripe64 (bytes_at buf p 32) v"
  by (cases v) (simp add: stripe64_def XXH_readLE64_align_eq bytes_at_bytes_at)

lemma stripes_end: "(0::nat) < S \<Longrightarrow> S \<le> n \<Longrightarrow> S + S * ((n - S) div S) = S * (n div S)"
  by (simp add: le_div_geq)

lemma drop_stripe:
  assumes "0 < S" "p + S \<le> length buf"
  shows drop_stripe_absorb:
      "absorb S f (drop p buf) v = absorb S f (drop (p + S) buf) (f (bytes_at buf p S) v)"
    and drop_stripe_end:
      "p + S * ((length buf - p) div S) = p + S + S * ((length buf - (p + S)) div S)"
proof -
  show "absorb S f (drop p buf) v = absorb S f (drop (p + S) buf) (f (bytes_at buf p S) v)"
    using assms by (subst absorb_step) (simp_all add: bytes_at_def add.commute)
  have "S + S * ((length buf - p - S) div S) = S * ((length buf - p) div S)"
    by (rule stripes_end) (use assms in simp_all)
  then show "p + S * ((length buf - p) div S) = p + S + S * ((length buf - (p + S)) div S)"
    by (simp only: add.assoc diff_diff_left)
qed

lemma drop_stripe_last:
  assumes "0 < S" "p + S \<le> length buf" "length buf < p + S + S"
  shows "absorb S f (drop p buf) v = f (bytes_at buf p S) v"
    "p + S * ((length buf - p) div S) = p + S"
proof -
  have less: "length buf - (p + S) < S" using assms by linarith
  then show "absorb S f (drop p buf) v = f (bytes_at buf p S) v"
    by (simp only: drop_stripe_absorb[OF assms(1,2)]) (rule absorb_short, simp)
  show "p + S * ((length buf - p) div S) = p + S"
    by (simp only: drop_stripe_end[OF assms(1,2)] div_less[OF less] mult_0_right add_0_right)
qed

lemma XXH32_loop_eq:
  assumes "p + 16 \<le> length buf" "limit = length buf - 15"
  shows "XXH32_loop e align buf limit p v =
    (p + 16 * ((length buf - p) div 16), absorb 16 stripe32 (drop p buf) v)"
  using assms
proof (induction e align buf limit p v rule: XXH32_loop.induct)
  case (1 e align buf limit p v)
  show ?case
  proof (cases "p + 16 < limit")
    case True
    with 1 show ?thesis
      by (subst XXH32_loop.simps) (simp add: Let_def XXH32_stripe_eq drop_stripe_absorb[of 16 p] drop_stripe_end[of 16 p])
  next
    case False
    with 1 show ?thesis
      by (subst XXH32_loop.simps) (simp add: Let_def XXH32_stripe_eq drop_stripe_last[of 16 p])
  qed
qed

lemma XXH64_loop_eq:
  assumes "p + 32 \<le> length buf" "limit = length buf - 31"
  shows "XXH64_loop e align buf limit p v =
    (p + 32 * ((length buf - p) div 32), absorb 32 stripe64 (drop p buf) v)"
  using assms
proof (induction e align buf limit p v rule: XXH64_loop.induct)
  case (1 e align buf limit p v)
  show ?case
  proof (cases "p + 32 < limit")
    case True
    with 1 show ?thesis
      by (subst XXH64_loop.simps) (simp add: Let_def XXH64_stripe_eq drop_stripe_absorb[of 32 p] drop_stripe_end[of 32 p])
  next
    case False
    with 1 show ?thesis
      by (subst XXH64_loop.simps) (simp add: Let_def XXH64_stripe_eq drop_stripe_last[of 32 p])
  qed
qed

lemma XXH32_update_loop_eq:
  assumes "p + 16 \<le> length buf" "limit = length buf - 16"
  shows "XXH32_update_loop e buf limit p v =
    (p + 16 * ((length buf - p) div 16), absorb 16 stripe32 (drop p buf) v)"
  using assms
proof (induction e buf limit p v rule: XXH32_update_loop.induct)
  case (1 e buf limit p v)
  show ?case
  proof (cases "p + 16 \<le> limit")
    case True
    with 1 show ?thesis
      by (subst XXH32_update_loop.simps) (simp add: Let_def XXH32_stripe_eq drop_stripe_absorb[of 16 p] drop_stripe_end[of 16 p])
  next
    case False
    with 1 show ?thesis
      by (subst XXH32_update_loop.simps) (simp add: Let_def XXH32_stripe_eq drop_stripe_last[of 16 p])
  qed
qed

lemma XXH64_update_loop_eq:
  assumes "p + 32 \<le> length buf" "limit = length buf - 32"
  shows "XXH64_update_loop e buf limit p v =
    (p + 32 * ((length buf - p) div 32), absorb 32 stripe64 (drop p buf) v)"
  using assms
proof (induction e buf limit p v rule: XXH64_update_loop.induct)
  case (1 e buf limit p v)
  show ?case
  proof (cases "p + 32 \<le> limit")
    case True
    with 1 show ?thesis
      by (subst XXH64_update_loop.simps) (simp add: Let_def XXH64_stripe_eq drop_stripe_absorb[of 32 p] drop_stripe_end[of 32 p])
  next
    case False
    with 1 show ?thesis
      by (subst XXH64_update_loop.simps) (simp add: Let_def XXH64_stripe_eq drop_stripe_last[of 32 p])
  qed
qed

subsection \<open>Finalisation depends on the bytes only\<close>

definition same_bytes :: "buffer \<Rightarrow> nat \<Rightarrow> buffer \<Rightarrow> nat \<Rightarrow> nat \<Rightarrow> bool" where
  "same_bytes buf p buf' q n \<longleftrightarrow>
     p + n \<le> length buf \<and> q + n \<le> length buf' \<and> bytes_at buf p n = bytes_at buf' q n"

lemma same_bytes_sub:
  assumes "same_bytes buf p buf' q n" "i + k \<le> n"
  shows "same_bytes buf (p + i) buf' (q + i) k"
proof -
  have "bytes_at (bytes_at buf p n) i k = bytes_at (bytes_at buf' q n) i k"
    using assms by (simp add: same_bytes_def)
  then have "bytes_at buf (p + i) k = bytes_at buf' (q + i) k"
    by (simp only: bytes_at_bytes_at[OF assms(2)])
  with assms show ?thesis by (simp add: same_bytes_def)
qed

lemma same_bytes_skip:
  "same_bytes buf p buf' q n \<Longrightarrow> k \<le> n \<Longrightarrow> same_bytes buf (p + k) buf' (q + k) (n - k)"
  using same_bytes_sub[of buf p buf' q n k "n - k"] by simp

lemma same_bytes_reads:
  assumes "same_bytes buf p buf' q n"
  shows "8 \<le> n \<Longrightarrow> XXH_readLE64_align e align buf p = XXH_readLE64_align e' align' buf' q"
    and "4 \<le> n \<Longrightarrow> XXH_readLE32_align e align buf p = XXH_readLE32_align e' align' buf' q"
    and "0 < n \<Longrightarrow> buf ! p = buf' ! q"
proof -
  note sub = same_bytes_sub[OF assms, of 0, simplified, unfolded same_bytes_def]
  show "XXH_readLE64_align e align buf p = XXH_readLE64_align e' align' buf' q" if "8 \<le> n"
    using sub[OF that] by (simp add: XXH_readLE64_align_eq)
  show "XXH_readLE32_align e align buf p = XXH_readLE32_align e' align' buf' q" if "4 \<le> n"
    using sub[OF that] by (simp add: XXH_readLE32_align_eq)
  show "buf ! p = buf' ! q" if "0 < n"
    using sub[of 1] that by (auto simp: bytes_at_def dest: arg_cong[where f = "\<lambda>xs. xs ! 0"])
qed

lemma XXH64_fin8_cong:
  "same_bytes buf p buf' q len \<Longrightarrow> \<exists>l h k. k + l = len \<and>
     XXH64_fin8 e align buf len (hash, p) = (l, h, p + k) \<and>
     XXH64_fin8 e' align' buf' len (hash, q) = (l, h, q + k)"
proof (induction len arbitrary: hash p q rule: less_induct)
  case (less len)
  show ?case
  proof (cases "8 \<le> len")
    case False
    then show ?thesis by (intro exI[of _ len] exI[of _ hash] exI[of _ 0]) (simp add: XXH64_fin8.simps)
  next
    case True
    note read = same_bytes_reads(1)[OF less.prems True, of e align e' align']
    define h where "h = XXH_rotl64 (hash XOR XXH64_round 0 (XXH_readLE64_align e' align' buf' q)) 27
      * XXH_PRIME64_1 + XXH_PRIME64_4"
    from less.IH[OF _ same_bytes_skip[OF less.prems True], of h] True
    obtain l h' k where "k + l = len - 8"
      "XXH64_fin8 e align buf (len - 8) (h, p + 8) = (l, h', p + 8 + k)"
      "XXH64_fin8 e' align' buf' (len - 8) (h, q + 8) = (l, h', q + 8 + k)" by auto
    with True show ?thesis
      by (intro exI[of _ l] exI[of _ h'] exI[of _ "8 + k"])
        (simp add: XXH64_fin8.simps[of _ _ _ len] Let_def read h_def add.assoc)
  qed
qed

lemma XXH64_fin4_cong:
  assumes "same_bytes buf p buf' q len"
  shows "\<exists>l h k. k + l = len \<and>
     XXH64_fin4 e align buf len (hash, p) = (l, h, p + k) \<and>
     XXH64_fin4 e' align' buf' len (hash, q) = (l, h, q + k)"
proof (cases "4 \<le> len")
  case False
  then show ?thesis by (intro exI[of _ len] exI[of _ hash] exI[of _ 0]) (simp add: XXH64_fin4.simps)
next
  case True
  from same_bytes_reads(2)[OF assms True, of e align e' align'] True show ?thesis
    by (intro exI[of _ "len - 4"] exI exI[of _ 4]) (simp add: XXH64_fin4.simps Let_def)
qed

lemma XXH64_fin1_cong:
  "same_bytes buf p buf' q len \<Longrightarrow> fst (XXH64_fin1 buf len (hash, p)) = fst (XXH64_fin1 buf' len (hash, q))"
proof (induction len arbitrary: hash p q)
  case 0
  then show ?case by (simp add: XXH64_fin1.simps)
next
  case (Suc len)
  from same_bytes_skip[OF Suc.prems, of 1] have "same_bytes buf (p + 1) buf' (q + 1) len" by simp
  with same_bytes_reads(3)[OF Suc.prems] Suc.IH show ?case
    by (simp add: XXH64_fin1.simps[of _ "Suc len"] Let_def)
qed

lemma XXH64_finalize_cong:
  assumes "same_bytes buf p buf' q (unat (len AND 31))" "len AND 31 = len' AND 31"
  shows "XXH64_finalize e align hash buf p len = XXH64_finalize e' align' hash buf' q len'"
proof -
  from XXH64_fin8_cong[OF assms(1)] obtain l h k where f8: "k + l = unat (len AND 31)"
    "XXH64_fin8 e align buf (unat (len AND 31)) (hash, p) = (l, h, p + k)"
    "XXH64_fin8 e' align' buf' (unat (len AND 31)) (hash, q) = (l, h, q + k)" by blast
  have "k \<le> unat (len AND 31)" "unat (len AND 31) - k = l" using f8(1) by linarith+
  with same_bytes_skip[OF assms(1)] have same: "same_bytes buf (p + k) buf' (q + k) l" by fastforce
  from XXH64_fin4_cong[OF same] obtain l' h' k' where f4: "k' + l' = l"
    "XXH64_fin4 e align buf l (h, p + k) = (l', h', p + k + k')"
    "XXH64_fin4 e' align' buf' l (h, q + k) = (l', h', q + k + k')" by blast
  have "same_bytes buf (p + k + k') buf' (q + k + k') l'"
    using same_bytes_skip[OF same, of k'] f4(1) by auto
  from XXH64_fin1_cong[OF this] show ?thesis
    by (simp add: XXH64_finalize_def assms(2)[symmetric] f8 f4 split_def)
qed

lemma XXH32_fin4_cong:
  "same_bytes buf p buf' q len \<Longrightarrow> \<exists>l h k. k + l = len \<and>
     XXH32_fin4 e align buf len (hash, p) = (l, h, p + k) \<and>
     XXH32_fin4 e' align' buf' len (hash, q) = (l, h, q + k)"
proof (induction len arbitrary: hash p q rule: less_induct)
  case (less len)
  show ?case
  proof (cases "4 \<le> len")
    case False
    then show ?thesis by (intro exI[of _ len] exI[of _ hash] exI[of _ 0]) (simp add: XXH32_fin4.simps)
  next
    case True
    note read = same_bytes_reads(2)[OF less.prems True, of e align e' align']
    define h where "h = XXH_rotl32 (hash + XXH_readLE32_align e' align' buf' q * XXH_PRIME32_3) 17
      * XXH_PRIME32_4"
    from less.IH[OF _ same_bytes_skip[OF less.prems True], of h] True
    obtain l h' k where "k + l = len - 4"
      "XXH32_fin4 e align buf (len - 4) (h, p + 4) = (l, h', p + 4 + k)"
      "XXH32_fin4 e' align' buf' (len - 4) (h, q + 4) = (l, h', q + 4 + k)" by auto
    with True show ?thesis
      by (intro exI[of _ l] exI[of _ h'] exI[of _ "4 + k"])
        (simp add: XXH32_fin4.simps[of _ _ _ len] read h_def add.assoc)
  qed
qed

lemma XXH32_fin1_cong:
  "same_bytes buf p buf' q len \<Longrightarrow> fst (XXH32_fin1 buf len (hash, p)) = fst (XXH32_fin1 buf' len (hash, q))"
proof (induction len arbitrary: hash p q)
  case 0
  then show ?case by (simp add: XXH32_fin1.simps)
next
  case (Suc len)
  from same_bytes_skip[OF Suc.prems, of 1] have "same_bytes buf (p + 1) buf' (q + 1) len" by simp
  with same_bytes_reads(3)[OF Suc.prems] Suc.IH show ?case
    by (simp add: XXH32_fin1.simps[of _ "Suc len"])
qed

lemma XXH32_finalize_compact_cong:
  assumes "same_bytes buf p buf' q (unat (len AND 15))" "len AND 15 = len' AND 15"
  shows "XXH32_finalize_compact e align hash buf p len = XXH32_finalize_compact e' align' hash buf' q len'"
proof -
  from XXH32_fin4_cong[OF assms(1)] obtain l h k where f4: "k + l = unat (len AND 15)"
    "XXH32_fin4 e align buf (unat (len AND 15)) (hash, p) = (l, h, p + k)"
    "XXH32_fin4 e' align' buf' (unat (len AND 15)) (hash, q) = (l, h, q + k)" by blast
  have "k \<le> unat (len AND 15)" "unat (len AND 15) - k = l" using f4(1) by linarith+
  with same_bytes_skip[OF assms(1)] have same: "same_bytes buf (p + k) buf' (q + k) l" by fastforce
  from XXH32_fin1_cong[OF this] show ?thesis
    by (simp add: XXH32_finalize_compact_def assms(2)[symmetric] f4 split_def)
qed

text \<open>The rolled and the unrolled form of \<open>XXH32_finalize\<close> agree.\<close>

lemma unat_and_15: "unat (len AND 15 :: size_t) = unat len mod 16"
  using unat_and_mask[of len 4] by (simp add: mask_eq_exp_minus_1)

lemma unat_and_31: "unat (len AND 31 :: size_t) = unat len mod 32"
  using unat_and_mask[of len 5] by (simp add: mask_eq_exp_minus_1)

lemma less_16_cases:
  "(c::nat) < 16 \<Longrightarrow> c \<in> {0, 1, 2, 3, 4, 5, 6, 7, 8, 9, 10, 11, 12, 13, 14, 15}"
  by (simp, presburger)

lemma XXH32_fin_steps:
  "4 \<le> len \<Longrightarrow> XXH32_fin4 e align buf len s = XXH32_fin4 e align buf (len - 4) (XXH32_process4 e align buf s)"
  "len < 4 \<Longrightarrow> XXH32_fin4 e align buf len s = (len, s)"
  "0 < len \<Longrightarrow> XXH32_fin1 buf len s = XXH32_fin1 buf (len - 1) (XXH32_process1 buf s)"
  "XXH32_fin1 buf 0 s = s"
  by (subst XXH32_fin4.simps XXH32_fin1.simps; simp)+

lemma XXH32_finalize_switch_eq:
  "XXH32_finalize_switch e align hash buf p len = XXH32_finalize_compact e align hash buf p len"
proof -
  have "unat (len AND 15) < 16" by (simp add: unat_and_15)
  from less_16_cases[OF this] show ?thesis
    unfolding XXH32_finalize_switch_def XXH32_finalize_compact_def Let_def
    by (elim insertE emptyE)
      (simp_all add: XXH32_fin_steps split_def del: XXH32_process1.simps XXH32_process4.simps)
qed

lemma XXH32_finalize_cong:
  assumes "same_bytes buf p buf' q (unat (len AND 15))" "len AND 15 = len' AND 15"
  shows "XXH32_finalize j e align hash buf p len = XXH32_finalize j' e' align' hash buf' q len'"
  using XXH32_finalize_compact_cong[OF assms]
  by (simp add: XXH32_finalize_def XXH32_finalize_switch_eq)

subsection \<open>Feeding a streaming state\<close>

text \<open>
  The common core of the two update functions, on plain numbers: a partial stripe of \<open>m\<close>
  bytes is kept in \<open>mem\<close> until it is complete.
\<close>

definition feed ::
  "nat \<Rightarrow> (buffer \<Rightarrow> 'v \<Rightarrow> 'v) \<Rightarrow> 'v \<Rightarrow> buffer \<Rightarrow> nat \<Rightarrow> buffer \<Rightarrow> 'v \<times> buffer \<times> nat" where
  "feed S f v mem m xs =
     (if m + length xs < S then (v, write_at mem m xs, m + length xs)
      else
        let p = (if m \<noteq> 0 then S - m else 0);
            mem = (if m \<noteq> 0 then write_at mem m (bytes_at xs 0 (S - m)) else mem);
            v = (if m \<noteq> 0 then f mem v else v);
            q = p + S * ((length xs - p) div S)
        in (absorb S f (drop p xs) v,
            if q < length xs then write_at mem 0 (drop q xs) else mem, length xs - q))"

definition fed :: "nat \<Rightarrow> (buffer \<Rightarrow> 'v \<Rightarrow> 'v) \<Rightarrow> 'v \<Rightarrow> buffer \<Rightarrow> 'v \<times> buffer \<times> nat \<Rightarrow> bool" where
  "fed S f v0 h s \<longleftrightarrow> (case s of (v, mem, m) \<Rightarrow>
     v = absorb S f h v0 \<and> length mem = S \<and> m = length h mod S \<and> take m mem = leftover S h)"

lemma fed_feed_short:
  assumes "0 < S" "fed S f v0 h (v, mem, m)" "m + length xs < S"
  shows "fed S f v0 (h @ xs) (feed S f v mem m xs)"
proof -
  have m: "length mem = S" "m = length h mod S" "take m mem = leftover S h" "v = absorb S f h v0"
    using assms(2) by (auto simp: fed_def)
  with assms(3) have len: "length (leftover S h @ xs) < S" by (simp add: length_leftover)
  have "m + length xs = length (h @ xs) mod S"
    using assms(3) m(2) by (simp add: mod_add_left_eq[of "length h" S "length xs", symmetric])
  moreover have "take (m + length xs) (write_at mem m xs) = leftover S (h @ xs)"
    using assms m(1,3) leftover_append[OF assms(1), of h xs]
    by (simp add: take_write_at_end leftover_short[OF len])
  moreover have "absorb S f (h @ xs) v0 = v"
    using m(4) absorb_append[OF assms(1), of f h xs v0] by (simp add: absorb_short[OF len])
  ultimately show ?thesis
    using assms(3) m(1) by (simp add: feed_def fed_def)
qed

lemma feed_first:
  assumes "0 < S" "fed S f v0 h (v, mem, m)" "S \<le> m + length xs"
    and "p = (if m \<noteq> 0 then S - m else 0)"
    and "mem' = (if m \<noteq> 0 then write_at mem m (bytes_at xs 0 (S - m)) else mem)"
    and "v' = (if m \<noteq> 0 then f mem' v else v)"
  shows "absorb S f (h @ xs) v0 = absorb S f (drop p xs) v'" "leftover S (h @ xs) = leftover S (drop p xs)"
    "length mem' = S" "p \<le> length xs"
proof -
  have m: "m < S" "length (leftover S h) = m" "take m mem = leftover S h" "length mem = S"
    using assms(1,2) by (auto simp: fed_def length_leftover)
  have a: "absorb S f (h @ xs) v0 = absorb S f (leftover S h @ xs) v"
    and l: "leftover S (h @ xs) = leftover S (leftover S h @ xs)"
    using assms(1,2) absorb_append[OF assms(1), of f h xs v0] leftover_append[OF assms(1), of h xs]
    by (simp_all add: fed_def)
  have "absorb S f (h @ xs) v0 = absorb S f (drop p xs) v' \<and> leftover S (h @ xs) = leftover S (drop p xs)
    \<and> length mem' = S \<and> p \<le> length xs"
  proof (cases "m = 0")
    case True
    with m a l assms show ?thesis by simp
  next
    case False
    have "mem' = leftover S h @ take (S - m) xs"
      using assms(3,5) False m by (simp add: write_at_fill bytes_at_def min_absorb2)
    with m a l assms False show ?thesis
      by (simp add: absorb_step[of S "leftover S h @ xs"] leftover_step[of S "leftover S h @ xs"])
  qed
  then show "absorb S f (h @ xs) v0 = absorb S f (drop p xs) v'" "leftover S (h @ xs) = leftover S (drop p xs)"
    "length mem' = S" "p \<le> length xs" by simp_all
qed

lemma drop_to_leftover:
  "p \<le> length xs \<Longrightarrow> drop (p + S * ((length xs - p) div S)) xs = leftover S (drop p xs)"
  by (simp add: leftover_def add.commute)

lemma fed_feed:
  assumes "0 < S" "fed S f v0 h (v, mem, m)"
  shows "fed S f v0 (h @ xs) (feed S f v mem m xs)"
proof (cases "m + length xs < S")
  case True
  with assms show ?thesis by (rule fed_feed_short)
next
  case False
  define p where "p = (if m \<noteq> 0 then S - m else 0)"
  define mem' where "mem' = (if m \<noteq> 0 then write_at mem m (bytes_at xs 0 (S - m)) else mem)"
  define v' where "v' = (if m \<noteq> 0 then f mem' v else v)"
  define q where "q = p + S * ((length xs - p) div S)"
  note first = feed_first[OF assms _ p_def mem'_def v'_def]
  from False have facts: "absorb S f (h @ xs) v0 = absorb S f (drop p xs) v'"
    "leftover S (h @ xs) = drop q xs" "length mem' = S" "p \<le> length xs"
    using first by (simp_all add: q_def drop_to_leftover)
  have "length (drop q xs) = length (h @ xs) mod S"
    using facts(2) length_leftover[of S "h @ xs"] by simp
  moreover have "feed S f v mem m xs = (absorb S f (drop p xs) v',
      if q < length xs then write_at mem' 0 (drop q xs) else mem', length xs - q)"
    using False by (simp add: feed_def p_def mem'_def v'_def q_def Let_def)
  moreover have "length xs - q < S"
    using calculation(1) assms(1) by (metis length_drop mod_less_divisor)
  ultimately show ?thesis
    using facts take_write_at_end[of 0 "drop q xs" mem'] by (auto simp: fed_def)
qed

lemma word64_sum_less:
  assumes "unat (m :: U32) < S" "n + S \<le> 2 ^ 64" "S \<le> 32"
  shows "((ucast m + of_nat n :: size_t) < of_nat S) = (unat m + n < S)"
proof -
  have "unat (ucast m + of_nat n :: size_t) = unat m + n"
    using assms unat_ucast_up[of m, where 'b = 64] by (simp add: unat_word_ariths unat_of_nat)
  with assms show ?thesis by (simp add: word_less_nat_alt unat_of_nat)
qed

lemma unat_memsize_add:
  "unat (m :: U32) + n < 2 ^ 32 \<Longrightarrow> unat (m + ucast (of_nat n :: size_t)) = unat m + n"
  by (simp add: unat_word_ariths unat_ucast_mod unat_of_nat)

lemma memsize_zero: "(m :: U32) \<noteq> 0 \<longleftrightarrow> unat m \<noteq> 0"
  by (simp add: unat_eq_0)

lemma XXH64_update_loop_guarded:
  "(if p + 32 \<le> length buf
    then (let (p, v) = XXH64_update_loop e buf (length buf - 32) p (x64_v st) in (p, st\<lparr>x64_v := v\<rparr>))
    else (p, st)) =
   (p + 32 * ((length buf - p) div 32), st\<lparr>x64_v := absorb 32 stripe64 (drop p buf) (x64_v st)\<rparr>)"
  by (auto simp: XXH64_update_loop_eq absorb_short)

lemma XXH64_update_long:
  assumes "\<not> (ucast (x64_memsize st) + of_nat (length xs) < (32 :: size_t))"
    and "p = (if x64_memsize st \<noteq> 0 then 32 - unat (x64_memsize st) else 0)"
    and "mem = (if x64_memsize st \<noteq> 0
      then write_at (x64_mem64 st) (unat (x64_memsize st)) (bytes_at xs 0 (32 - unat (x64_memsize st)))
      else x64_mem64 st)"
    and "v = (if x64_memsize st \<noteq> 0 then XXH64_stripe e XXH_unaligned mem 0 (x64_v st) else x64_v st)"
    and "q = p + 32 * ((length xs - p) div 32)"
  shows "XXH64_update e st xs =
    \<lparr>x64_total_len = x64_total_len st + of_nat (length xs), x64_v = absorb 32 stripe64 (drop p xs) v,
     x64_mem64 = (if q < length xs then write_at mem 0 (drop q xs) else mem),
     x64_memsize = (if q < length xs then of_nat (length xs - q) else 0)\<rparr>"
proof -
  have "XXH64_update e st xs = (let st = st\<lparr>x64_total_len := x64_total_len st + of_nat (length xs), x64_v := v, x64_mem64 := mem, x64_memsize := 0\<rparr>;
      st = st\<lparr>x64_v := absorb 32 stripe64 (drop p xs) (x64_v st)\<rparr>
    in if q < length xs then st\<lparr>x64_mem64 := write_at (x64_mem64 st) 0 (bytes_at xs q (length xs - q)),
      x64_memsize := of_nat (length xs - q)\<rparr> else st)"
  proof (cases "x64_memsize st = 0")
    case True
    with assms show ?thesis
      by (cases st) (simp add: XXH64_update_def XXH64_update_loop_guarded Let_def)
  next
    case False
    with assms show ?thesis
      by (simp add: XXH64_update_def XXH64_update_loop_guarded Let_def)
  qed
  then show ?thesis by (cases st) (simp add: Let_def bytes_at_to_end)
qed

lemma XXH64_update_feed:
  assumes "length (x64_mem64 st) = 32" "unat (x64_memsize st) < 32" "length xs + 32 \<le> 2 ^ 64"
    and "st' = XXH64_update e st xs"
  shows "(x64_v st', x64_mem64 st', unat (x64_memsize st')) =
    feed 32 stripe64 (x64_v st) (x64_mem64 st) (unat (x64_memsize st)) xs"
proof (cases "unat (x64_memsize st) + length xs < 32")
  case True
  then have "ucast (x64_memsize st) + of_nat (length xs) < (32 :: size_t)"
    using word64_sum_less[of "x64_memsize st" 32 "length xs"] assms(2,3) by simp
  with True show ?thesis
    using assms(4) by (simp add: XXH64_update_def feed_def Let_def unat_memsize_add)
next
  case False
  define m where "m = unat (x64_memsize st)"
  define p where "p = (if x64_memsize st \<noteq> 0 then 32 - m else 0)"
  define mem where "mem = (if x64_memsize st \<noteq> 0
    then write_at (x64_mem64 st) m (bytes_at xs 0 (32 - m)) else x64_mem64 st)"
  define v where "v = (if x64_memsize st \<noteq> 0
    then XXH64_stripe e XXH_unaligned mem 0 (x64_v st) else x64_v st)"
  define q where "q = p + 32 * ((length xs - p) div 32)"
  have long: "\<not> (ucast (x64_memsize st) + of_nat (length xs) < (32 :: size_t))"
    using word64_sum_less[of "x64_memsize st" 32 "length xs"] assms(2,3) False by simp
  note upd = XXH64_update_long[OF long p_def[unfolded m_def] mem_def[unfolded m_def] v_def q_def]
  have "32 - m \<le> length xs" using False unfolding m_def by linarith
  then have "length xs - q < 32"
    using mod_less_divisor[of 32 "length xs - p"] by (simp add: q_def minus_mult_div_eq_mod flip: diff_diff_left)
  then have mem': "unat (x64_memsize st') = length xs - q"
    by (simp add: assms(4) upd unat_of_nat del: of_nat_diff)
  have "length mem = 32" using False assms(1,2) by (simp add: mem_def m_def bytes_at_def)
  then have "v = (if m \<noteq> 0 then stripe64 mem (x64_v st) else x64_v st)"
    by (simp add: v_def m_def unat_eq_0 XXH64_stripe_eq bytes_at_def)
  moreover have "p = (if m \<noteq> 0 then 32 - m else 0)"
    "mem = (if m \<noteq> 0 then write_at (x64_mem64 st) m (bytes_at xs 0 (32 - m)) else x64_mem64 st)"
    by (simp_all add: p_def mem_def m_def unat_eq_0)
  ultimately have "feed 32 stripe64 (x64_v st) (x64_mem64 st) m xs =
      (absorb 32 stripe64 (drop p xs) v, if q < length xs then write_at mem 0 (drop q xs) else mem,
       length xs - q)"
    using False by (simp only: feed_def m_def[symmetric] Let_def q_def if_False)
  with mem' show ?thesis by (simp add: assms(4) upd m_def)
qed

lemma XXH32_update_loop_guarded:
  "(if p + 16 \<le> length buf
    then (let (p, v) = XXH32_update_loop e buf (length buf - 16) p (x32_v st) in (p, st\<lparr>x32_v := v\<rparr>))
    else (p, st)) =
   (p + 16 * ((length buf - p) div 16), st\<lparr>x32_v := absorb 16 stripe32 (drop p buf) (x32_v st)\<rparr>)"
  by (auto simp: XXH32_update_loop_eq absorb_short)

lemma XXH32_update_long:
  assumes "\<not> (ucast (x32_memsize st) + of_nat (length xs) < (16 :: size_t))"
    and "p = (if x32_memsize st \<noteq> 0 then 16 - unat (x32_memsize st) else 0)"
    and "mem = (if x32_memsize st \<noteq> 0
      then write_at (x32_mem32 st) (unat (x32_memsize st)) (bytes_at xs 0 (16 - unat (x32_memsize st)))
      else x32_mem32 st)"
    and "v = (if x32_memsize st \<noteq> 0 then XXH32_stripe e XXH_unaligned mem 0 (x32_v st) else x32_v st)"
    and "q = p + 16 * ((length xs - p) div 16)"
  shows "XXH32_update e st xs =
    \<lparr>x32_total_len_32 = x32_total_len_32 st + ucast (of_nat (length xs) :: size_t),
     x32_large_len = x32_large_len st OR of_bool (16 \<le> (of_nat (length xs) :: size_t) \<or>
       16 \<le> x32_total_len_32 st + ucast (of_nat (length xs) :: size_t)),
     x32_v = absorb 16 stripe32 (drop p xs) v,
     x32_mem32 = (if q < length xs then write_at mem 0 (drop q xs) else mem),
     x32_memsize = (if q < length xs then of_nat (length xs - q) else 0)\<rparr>"
proof -
  have "XXH32_update e st xs = (let st = st\<lparr>x32_total_len_32 := x32_total_len_32 st + ucast (of_nat (length xs) :: size_t),
     x32_large_len := x32_large_len st OR of_bool (16 \<le> (of_nat (length xs) :: size_t) \<or>
       16 \<le> x32_total_len_32 st + ucast (of_nat (length xs) :: size_t)), x32_v := v, x32_mem32 := mem, x32_memsize := 0\<rparr>;
      st = st\<lparr>x32_v := absorb 16 stripe32 (drop p xs) (x32_v st)\<rparr>
    in if q < length xs then st\<lparr>x32_mem32 := write_at (x32_mem32 st) 0 (bytes_at xs q (length xs - q)),
      x32_memsize := of_nat (length xs - q)\<rparr> else st)"
  proof (cases "x32_memsize st = 0")
    case True
    with assms show ?thesis
      by (cases st) (simp add: XXH32_update_def XXH32_update_loop_guarded Let_def)
  next
    case False
    with assms show ?thesis
      by (simp add: XXH32_update_def XXH32_update_loop_guarded Let_def)
  qed
  then show ?thesis by (cases st) (simp add: Let_def bytes_at_to_end)
qed

lemma XXH32_update_feed:
  assumes "length (x32_mem32 st) = 16" "unat (x32_memsize st) < 16" "length xs + 16 \<le> 2 ^ 64"
    and "st' = XXH32_update e st xs"
  shows "(x32_v st', x32_mem32 st', unat (x32_memsize st')) =
    feed 16 stripe32 (x32_v st) (x32_mem32 st) (unat (x32_memsize st)) xs"
proof (cases "unat (x32_memsize st) + length xs < 16")
  case True
  then have "ucast (x32_memsize st) + of_nat (length xs) < (16 :: size_t)"
    using word64_sum_less[of "x32_memsize st" 16 "length xs"] assms(2,3) by simp
  with True show ?thesis
    using assms(4) by (simp add: XXH32_update_def feed_def Let_def unat_memsize_add)
next
  case False
  define m where "m = unat (x32_memsize st)"
  define p where "p = (if x32_memsize st \<noteq> 0 then 16 - m else 0)"
  define mem where "mem = (if x32_memsize st \<noteq> 0
    then write_at (x32_mem32 st) m (bytes_at xs 0 (16 - m)) else x32_mem32 st)"
  define v where "v = (if x32_memsize st \<noteq> 0
    then XXH32_stripe e XXH_unaligned mem 0 (x32_v st) else x32_v st)"
  define q where "q = p + 16 * ((length xs - p) div 16)"
  have long: "\<not> (ucast (x32_memsize st) + of_nat (length xs) < (16 :: size_t))"
    using word64_sum_less[of "x32_memsize st" 16 "length xs"] assms(2,3) False by simp
  note upd = XXH32_update_long[OF long p_def[unfolded m_def] mem_def[unfolded m_def] v_def q_def]
  have "16 - m \<le> length xs" using False unfolding m_def by linarith
  then have "length xs - q < 16"
    using mod_less_divisor[of 16 "length xs - p"] by (simp add: q_def minus_mult_div_eq_mod flip: diff_diff_left)
  then have mem': "unat (x32_memsize st') = length xs - q"
    by (simp add: assms(4) upd unat_of_nat del: of_nat_diff)
  have "length mem = 16" using False assms(1,2) by (simp add: mem_def m_def bytes_at_def)
  then have "v = (if m \<noteq> 0 then stripe32 mem (x32_v st) else x32_v st)"
    by (simp add: v_def m_def unat_eq_0 XXH32_stripe_eq bytes_at_def)
  moreover have "p = (if m \<noteq> 0 then 16 - m else 0)"
    "mem = (if m \<noteq> 0 then write_at (x32_mem32 st) m (bytes_at xs 0 (16 - m)) else x32_mem32 st)"
    by (simp_all add: p_def mem_def m_def unat_eq_0)
  ultimately have "feed 16 stripe32 (x32_v st) (x32_mem32 st) m xs =
      (absorb 16 stripe32 (drop p xs) v, if q < length xs then write_at mem 0 (drop q xs) else mem,
       length xs - q)"
    using False by (simp only: feed_def m_def[symmetric] Let_def q_def if_False)
  with mem' show ?thesis by (simp add: assms(4) upd m_def)
qed

subsection \<open>The streaming contract\<close>

locale stream_hash =
  fixes stands_for :: "'s \<Rightarrow> buffer \<Rightarrow> bool"
    and init :: 's
    and update :: "'s \<Rightarrow> buffer \<Rightarrow> 's"
    and digest :: "'s \<Rightarrow> 'h"
    and oneshot :: "buffer \<Rightarrow> 'h"
    and fits :: "buffer \<Rightarrow> bool"
  assumes init_empty: "stands_for init []"
    and update_appends: "stands_for st h \<Longrightarrow> fits (h @ xs) \<Longrightarrow> stands_for (update st xs) (h @ xs)"
    and digest_oneshot: "stands_for st h \<Longrightarrow> fits h \<Longrightarrow> digest st = oneshot h"
    and fits_prefix: "fits (h @ xs) \<Longrightarrow> fits h"
begin

lemma updates_append:
  "stands_for st h \<Longrightarrow> fits (h @ concat cs) \<Longrightarrow> stands_for (foldl update st cs) (h @ concat cs)"
proof (induction cs arbitrary: st h)
  case Nil
  then show ?case by simp
next
  case (Cons c cs)
  then have "stands_for (update st c) (h @ c)"
    by (intro update_appends) (auto intro: fits_prefix[of "h @ c" "concat cs"])
  from Cons.IH[OF this] Cons.prems show ?case by simp
qed

lemma streamed_digest: "fits (concat cs) \<Longrightarrow> digest (foldl update init cs) = oneshot (concat cs)"
  using updates_append[OF init_empty, of cs] digest_oneshot by simp

end

definition stands_for64 :: "U64 \<Rightarrow> XXH64_state \<Rightarrow> buffer \<Rightarrow> bool" where
  "stands_for64 seed st h \<longleftrightarrow>
     fed 32 stripe64 (XXH64_init seed) h (x64_v st, x64_mem64 st, unat (x64_memsize st)) \<and>
     x64_total_len st = of_nat (length h)"

definition stands_for32 :: "U32 \<Rightarrow> XXH32_state \<Rightarrow> buffer \<Rightarrow> bool" where
  "stands_for32 seed st h \<longleftrightarrow>
     fed 16 stripe32 (XXH32_init seed) h (x32_v st, x32_mem32 st, unat (x32_memsize st)) \<and>
     x32_total_len_32 st = of_nat (length h) \<and> (x32_large_len st \<noteq> 0 \<longleftrightarrow> 16 \<le> length h)"

lemma stands_for64_update:
  assumes "stands_for64 seed st h" "length (h @ xs) + 32 \<le> 2 ^ 64"
  shows "stands_for64 seed (XXH64_update e st xs) (h @ xs)"
proof -
  have st: "length (x64_mem64 st) = 32" "unat (x64_memsize st) < 32"
    "x64_total_len st = of_nat (length h)" and len: "length xs + 32 \<le> 2 ^ 64"
    using assms by (simp_all add: stands_for64_def fed_def)
  have "x64_total_len (XXH64_update e st xs) = x64_total_len st + of_nat (length xs)"
    by (simp add: XXH64_update_def Let_def split_def)
  with st XXH64_update_feed[OF st(1,2) len refl, of e] fed_feed[of 32 stripe64] assms(1)
  show ?thesis by (simp add: stands_for64_def)
qed

lemma ucast_of_nat_64_32: "(ucast (of_nat n :: size_t) :: U32) = of_nat n"
  by (rule word_unat_eq_iff[THEN iffD2]) (simp add: unat_ucast_mod unat_of_nat mod_mod_cancel)

lemma XXH32_large_len:
  assumes "x32_large_len st \<noteq> 0 \<longleftrightarrow> 16 \<le> length h" "length xs + 16 \<le> 2 ^ 64"
    and "x32_total_len_32 st = of_nat (length h)"
  shows "x32_large_len (XXH32_update e st xs) \<noteq> 0 \<longleftrightarrow> 16 \<le> length (h @ xs)"
proof -
  have "16 \<le> (of_nat (length xs) :: size_t) \<longleftrightarrow> 16 \<le> length xs"
    using assms(2) by (simp add: word_le_nat_alt unat_of_nat)
  moreover have "16 \<le> (of_nat (length h) + of_nat (length xs) :: U32) \<longleftrightarrow> 16 \<le> length h + length xs"
    if "length h < 16" "length xs < 16"
    using that by (simp add: word_le_nat_alt unat_word_ariths unat_of_nat)
  moreover have "x32_large_len (XXH32_update e st xs) = x32_large_len st OR
      of_bool (16 \<le> (of_nat (length xs) :: size_t) \<or> 16 \<le> (of_nat (length h) + of_nat (length xs) :: U32))"
    using assms(3) by (simp add: XXH32_update_def Let_def split_def ucast_of_nat_64_32)
  ultimately show ?thesis
    using assms(1) by (cases "16 \<le> length h"; cases "16 \<le> length xs") (auto simp: or_eq_0_iff)
qed

lemma stands_for32_update:
  assumes "stands_for32 seed st h" "length (h @ xs) + 32 \<le> 2 ^ 64"
  shows "stands_for32 seed (XXH32_update e st xs) (h @ xs)"
proof -
  have st: "length (x32_mem32 st) = 16" "unat (x32_memsize st) < 16"
    "x32_total_len_32 st = of_nat (length h)" "x32_large_len st \<noteq> 0 \<longleftrightarrow> 16 \<le> length h"
    and len: "length xs + 16 \<le> 2 ^ 64"
    using assms by (simp_all add: stands_for32_def fed_def)
  have "x32_total_len_32 (XXH32_update e st xs) = x32_total_len_32 st + of_nat (length xs)"
    by (simp add: XXH32_update_def Let_def split_def ucast_of_nat_64_32)
  with st XXH32_update_feed[OF st(1,2) len refl, of e] fed_feed[of 16 stripe32] assms(1)
    XXH32_large_len[OF st(4) len st(3), of e]
  show ?thesis by (simp add: stands_for32_def)
qed

lemma stands_for64_reset: "stands_for64 seed (XXH64_reset seed) []"
  by (simp add: stands_for64_def XXH64_reset_def fed_def absorb_short leftover_def)

lemma stands_for64_digest:
  assumes "stands_for64 seed st h" "length h + 32 \<le> 2 ^ 64"
  shows "XXH64_digest e st = XXH64 e' h (of_nat (length h)) seed"
proof -
  define len :: size_t where "len = of_nat (length h)"
  have len: "unat len = length h" using assms(2) by (simp add: len_def unat_of_nat)
  define p where "p = (if 32 \<le> length h then 32 * (length h div 32) else 0)"
  have st: "x64_v st = absorb 32 stripe64 h (XXH64_init seed)" "length (x64_mem64 st) = 32"
    "take (length h mod 32) (x64_mem64 st) = leftover 32 h" "x64_total_len st = len"
    using assms(1) by (auto simp: stands_for64_def fed_def len_def)
  have "drop p h = leftover 32 h" "p + length h mod 32 = length h"
    by (auto simp: p_def leftover_def)
  with st(2,3) have "same_bytes (x64_mem64 st) 0 h p (unat (len AND 31))"
    by (simp add: same_bytes_def unat_and_31 len bytes_at_def length_leftover)
  from XXH64_finalize_cong[OF this refl] show ?thesis
    using XXH64_loop_eq[of 0 h "length h - 31" e' XXH_unaligned "XXH64_init seed"]
    by (cases "32 \<le> length h") (simp_all add: XXH64_digest_def XXH64_def XXH64_endian_align_def
        Let_def st len_def[symmetric] word_le_nat_alt len absorb_short XXH64_init_def p_def)
qed

lemma stands_for32_reset: "stands_for32 seed (XXH32_reset seed) []"
  by (simp add: stands_for32_def XXH32_reset_def fed_def absorb_short leftover_def)

lemma stands_for32_digest:
  assumes "stands_for32 seed st h" "length h + 32 \<le> 2 ^ 64"
  shows "XXH32_digest j e st = XXH32 j' e' h (of_nat (length h)) seed"
proof -
  define len :: size_t where "len = of_nat (length h)"
  have len: "unat len = length h" using assms(2) by (simp add: len_def unat_of_nat)
  define p where "p = (if 16 \<le> length h then 16 * (length h div 16) else 0)"
  have st: "x32_v st = absorb 16 stripe32 h (XXH32_init seed)" "length (x32_mem32 st) = 16"
    "take (length h mod 16) (x32_mem32 st) = leftover 16 h" "x32_total_len_32 st = ucast len"
    "unat (x32_memsize st) = length h mod 16" "x32_large_len st \<noteq> 0 \<longleftrightarrow> 16 \<le> length h"
    using assms(1) by (auto simp: stands_for32_def fed_def len_def ucast_of_nat_64_32)
  have ms: "(ucast (x32_memsize st) :: size_t) AND 15 = len AND 15" "len AND 15 AND 15 = len AND 15"
    by (rule word_unat_eq_iff[THEN iffD2], simp add: unat_and_15 unat_ucast_up st(5) len,
        simp add: and.assoc)
  have "drop p h = leftover 16 h" "p + length h mod 16 = length h"
    by (auto simp: p_def leftover_def)
  with st(2,3) have "same_bytes (x32_mem32 st) 0 h p (unat (ucast (x32_memsize st) AND 15 :: size_t))"
    by (simp add: same_bytes_def ms(1) unat_and_15 len bytes_at_def length_leftover)
  from XXH32_finalize_cong[OF this, of "len AND 15" j e XXH_aligned _ j' e' XXH_unaligned] ms show ?thesis
    using XXH32_loop_eq[of 0 h "length h - 15" e' XXH_unaligned "XXH32_init seed"] st(6)
    by (cases "16 \<le> length h") (simp_all add: XXH32_digest_def XXH32_def XXH32_endian_align_def
        Let_def st(1,4) len_def[symmetric] word_le_nat_alt len absorb_short XXH32_init_def p_def)
qed

interpretation xxh64: stream_hash "stands_for64 seed" "XXH64_reset seed" "XXH64_update e"
  "XXH64_digest e'" "\<lambda>h. XXH64 e'' h (of_nat (length h)) seed" "\<lambda>h. length h + 32 \<le> 2 ^ 64"
  for seed e e' e''
  by unfold_locales (simp_all add: stands_for64_update stands_for64_digest stands_for64_reset)

interpretation xxh32: stream_hash "stands_for32 seed" "XXH32_reset seed" "XXH32_update e"
  "XXH32_digest j e'" "\<lambda>h. XXH32 j' e'' h (of_nat (length h)) seed" "\<lambda>h. length h + 32 \<le> 2 ^ 64"
  for seed e j e' j' e''
  by unfold_locales (simp_all add: stands_for32_update stands_for32_digest stands_for32_reset)

subsection \<open>Properties\<close>

text \<open>
  Property C14: hashing a message piece by piece with XXH64 (reset, any sequence of updates,
  digest) gives the hash which the one-shot function computes of the whole message, for every
  way of cutting the message, every seed, and whatever the byte order of the machines that run
  the two computations.
\<close>

theorem XXH64_streaming_refines_oneshot:
  assumes "length (concat chunks) + 32 \<le> 2 ^ 64"
  shows "XXH64_digest e (foldl (XXH64_update e) (XXH64_reset seed) chunks) =
    XXH64 e' (concat chunks) (of_nat (length (concat chunks))) seed"
  using xxh64.streamed_digest[OF assms] .

theorem XXH64_streaming_refines_oneshot_witness:
  "XXH64_digest LittleEndian (foldl (XXH64_update LittleEndian) (XXH64_reset 7) [[1, 2], replicate 70 3, [4]]) =
    XXH64 BigEndian (concat [[1, 2], replicate 70 3, [4]]) (of_nat 73) 7"
  using XXH64_streaming_refines_oneshot[of "[[1, 2], replicate 70 3, [4]]" LittleEndian 7 BigEndian] by simp

text \<open>
  The same for XXH32, whose length counter has 32 bits only: also when a message
  is longer than the counter can hold does every way of feeding it give the one-shot hash, in
  the rolled and in the unrolled form of the final step.
\<close>

theorem XXH32_streaming_refines_oneshot:
  assumes "length (concat chunks) + 32 \<le> 2 ^ 64"
  shows "XXH32_digest j e (foldl (XXH32_update e) (XXH32_reset seed) chunks) =
    XXH32 j' e' (concat chunks) (of_nat (length (concat chunks))) seed"
  using xxh32.streamed_digest[OF assms] .

theorem XXH32_streaming_refines_oneshot_witness:
  "XXH32_digest False LittleEndian (foldl (XXH32_update LittleEndian) (XXH32_reset 7) [[1, 2], replicate 70 3, [4]]) =
    XXH32 True BigEndian (concat [[1, 2], replicate 70 3, [4]]) (of_nat 73) 7"
  using XXH32_streaming_refines_oneshot[of "[[1, 2], replicate 70 3, [4]]" False LittleEndian 7 True BigEndian]
  by simp

text \<open>
  The canonical form of a hash is portable: written on one machine and read on
  another, of any byte order, it gives the hash back, and it is the big-endian byte string.
\<close>

theorem canonical_roundtrip:
  "XXH64_hashFromCanonical e' (XXH64_canonicalFromHash e h) = h \<and>
   XXH32_hashFromCanonical e' (XXH32_canonicalFromHash e h') = h' \<and>
   XXH64_canonicalFromHash e h = rev (le_bytes 8 (unat h)) \<and>
   XXH32_canonicalFromHash e h' = rev (le_bytes 4 (unat h'))"
proof -
  have "XXH64_canonicalFromHash e h = rev (le_bytes 8 (unat h))"
    "XXH32_canonicalFromHash e h' = rev (le_bytes 4 (unat h'))"
    by (cases e; simp add: XXH64_canonicalFromHash_def XXH32_canonicalFromHash_def MEM_isLittleEndian_def
        native_def le_bytes_swap64 le_bytes_swap32)+
  then show ?thesis
    by (simp add: XXH64_hashFromCanonical_def XXH32_hashFromCanonical_def XXH_readBE_MEM mem_read_eqs
        bytes_at_def of_nat_le_bytes del: le_val_le_bytes)
qed

end
