(* ===== verification/Zstd_DDictSet.thy ===== *)
theory Zstd_DDictSet
  imports Zstd_Errors Zstd_XXHash
begin

section \<open>Set of referenced dictionaries (\<^verbatim>\<open>decompress/zstd_decompress.c\<close>, hash set internals)\<close>

text \<open>
  The open-addressing hash set in which a decompression context keeps the dictionaries a frame
  may ask for.  The table is a list of optional dictionaries (\<open>None\<close> is the NULL pointer).
  An access outside the table is the outcome \<open>OutOfBounds\<close>, and the two probing loops are
  partial functions whose value \<open>None\<close> means that the loop does not end; the lemmas show that
  they do end.  The outcome of an allocation is an argument.
\<close>

record ZSTD_DDict =
  dd_dictContent :: buffer
  dd_dictID :: U32
  dd_entropyPresent :: bool

definition ZSTD_getDictID_fromDDict :: "ZSTD_DDict option \<Rightarrow> U32" where
  "ZSTD_getDictID_fromDDict ddict = (case ddict of None \<Rightarrow> 0 | Some d \<Rightarrow> dd_dictID d)"

record ZSTD_DDictHashSet =
  ddictPtrTable :: "ZSTD_DDict option list"
  ddictPtrTableSize :: nat
  ddictPtrCount :: nat

datatype failure = OutOfBounds | Code ZSTD_ErrorCode

definition DDICT_HASHSET_MAX_LOAD_FACTOR_COUNT_MULT :: nat where
  "DDICT_HASHSET_MAX_LOAD_FACTOR_COUNT_MULT = 4"
definition DDICT_HASHSET_MAX_LOAD_FACTOR_SIZE_MULT :: nat where
  "DDICT_HASHSET_MAX_LOAD_FACTOR_SIZE_MULT = 3"
definition DDICT_HASHSET_TABLE_BASE_SIZE :: nat where
  "DDICT_HASHSET_TABLE_BASE_SIZE = 64"
definition DDICT_HASHSET_RESIZE_FACTOR :: nat where
  "DDICT_HASHSET_RESIZE_FACTOR = 2"

lemmas ddict_constants [simp] =
  DDICT_HASHSET_MAX_LOAD_FACTOR_COUNT_MULT_def DDICT_HASHSET_MAX_LOAD_FACTOR_SIZE_MULT_def
  DDICT_HASHSET_TABLE_BASE_SIZE_def DDICT_HASHSET_RESIZE_FACTOR_def

text \<open>\<open>XXH64(&dictID, sizeof(U32), 0)\<close> hashes the bytes of the integer in memory.\<close>

definition ZSTD_DDictHashSet_getIndex :: "nat \<Rightarrow> U32 \<Rightarrow> nat" where
  "ZSTD_DDictHashSet_getIndex tableSize dictID =
     unat (XXH64 LittleEndian (le_bytes 4 (unat dictID)) 4 0 AND of_nat (tableSize - 1))"

text \<open>The loop of \<open>ZSTD_DDictHashSet_emplaceDDict\<close>: the slot found, and whether it is taken.\<close>

partial_function (option) emplace_probe ::
  "ZSTD_DDict option list \<Rightarrow> nat \<Rightarrow> U32 \<Rightarrow> nat \<Rightarrow> (failure + nat \<times> bool) option" where
  "emplace_probe table idxRangeMask dictID idx =
     (if length table \<le> idx then Some (Inl OutOfBounds)
      else if table ! idx = None then Some (Inr (idx, False))
      else if ZSTD_getDictID_fromDDict (table ! idx) = dictID then Some (Inr (idx, True))
      else emplace_probe table idxRangeMask dictID ((idx AND idxRangeMask) + 1))"

definition ZSTD_DDictHashSet_emplaceDDict ::
  "ZSTD_DDictHashSet \<Rightarrow> ZSTD_DDict \<Rightarrow> (failure + ZSTD_DDictHashSet) option" where
  "ZSTD_DDictHashSet_emplaceDDict hashSet ddict =
     (let dictID = ZSTD_getDictID_fromDDict (Some ddict);
          idx = ZSTD_DDictHashSet_getIndex (ddictPtrTableSize hashSet) dictID;
          idxRangeMask = ddictPtrTableSize hashSet - 1
      in if ddictPtrCount hashSet = ddictPtrTableSize hashSet
         then Some (Inl (Code ZSTD_error_GENERIC))
         else case emplace_probe (ddictPtrTable hashSet) idxRangeMask dictID idx of
             None \<Rightarrow> None
           | Some (Inl f) \<Rightarrow> Some (Inl f)
           | Some (Inr (idx, present)) \<Rightarrow>
               let hashSet = hashSet\<lparr>ddictPtrTable := (ddictPtrTable hashSet)[idx := Some ddict]\<rparr>
               in if present then Some (Inr hashSet)
                  else Some (Inr (hashSet\<lparr>ddictPtrCount := ddictPtrCount hashSet + 1\<rparr>)))"

fun rehash ::
  "ZSTD_DDictHashSet \<Rightarrow> ZSTD_DDict option list \<Rightarrow> (failure + ZSTD_DDictHashSet) option" where
  "rehash hashSet [] = Some (Inr hashSet)"
| "rehash hashSet (None # oldTable) = rehash hashSet oldTable"
| "rehash hashSet (Some d # oldTable) =
     (case ZSTD_DDictHashSet_emplaceDDict hashSet d of
        None \<Rightarrow> None
      | Some (Inl f) \<Rightarrow> Some (Inl f)
      | Some (Inr hashSet) \<Rightarrow> rehash hashSet oldTable)"

definition ZSTD_DDictHashSet_expand ::
  "bool \<Rightarrow> ZSTD_DDictHashSet \<Rightarrow> (failure + ZSTD_DDictHashSet) option" where
  "ZSTD_DDictHashSet_expand allocated hashSet =
     (let newTableSize = ddictPtrTableSize hashSet * DDICT_HASHSET_RESIZE_FACTOR;
          oldTable = ddictPtrTable hashSet
      in if \<not> allocated then Some (Inl (Code ZSTD_error_memory_allocation))
         else rehash \<lparr>ddictPtrTable = replicate newTableSize None, ddictPtrTableSize = newTableSize,
                      ddictPtrCount = 0\<rparr> oldTable)"

partial_function (option) lookup_probe ::
  "ZSTD_DDict option list \<Rightarrow> nat \<Rightarrow> U32 \<Rightarrow> nat \<Rightarrow> (failure + nat) option" where
  "lookup_probe table idxRangeMask dictID idx =
     (if length table \<le> idx then Some (Inl OutOfBounds)
      else if ZSTD_getDictID_fromDDict (table ! idx) = dictID
              \<or> ZSTD_getDictID_fromDDict (table ! idx) = 0 then Some (Inr idx)
      else lookup_probe table idxRangeMask dictID ((idx AND idxRangeMask) + 1))"

definition ZSTD_DDictHashSet_getDDict ::
  "ZSTD_DDictHashSet \<Rightarrow> U32 \<Rightarrow> (failure + ZSTD_DDict option) option" where
  "ZSTD_DDictHashSet_getDDict hashSet dictID =
     (let idx = ZSTD_DDictHashSet_getIndex (ddictPtrTableSize hashSet) dictID;
          idxRangeMask = ddictPtrTableSize hashSet - 1
      in case lookup_probe (ddictPtrTable hashSet) idxRangeMask dictID idx of
           None \<Rightarrow> None
         | Some (Inl f) \<Rightarrow> Some (Inl f)
         | Some (Inr idx) \<Rightarrow> Some (Inr (ddictPtrTable hashSet ! idx)))"

text \<open>The two allocations of \<open>ZSTD_createDDictHashSet\<close> are its arguments.\<close>

definition ZSTD_createDDictHashSet :: "bool \<Rightarrow> bool \<Rightarrow> ZSTD_DDictHashSet option" where
  "ZSTD_createDDictHashSet set_allocated table_allocated =
     (if \<not> set_allocated then None
      else if \<not> table_allocated then None
      else Some \<lparr>ddictPtrTable = replicate DDICT_HASHSET_TABLE_BASE_SIZE None,
                 ddictPtrTableSize = DDICT_HASHSET_TABLE_BASE_SIZE, ddictPtrCount = 0\<rparr>)"

definition ZSTD_DDictHashSet_addDDict ::
  "bool \<Rightarrow> ZSTD_DDictHashSet \<Rightarrow> ZSTD_DDict \<Rightarrow> (failure + ZSTD_DDictHashSet) option" where
  "ZSTD_DDictHashSet_addDDict allocated hashSet ddict =
     (if ddictPtrCount hashSet * DDICT_HASHSET_MAX_LOAD_FACTOR_COUNT_MULT
           div ddictPtrTableSize hashSet * DDICT_HASHSET_MAX_LOAD_FACTOR_SIZE_MULT \<noteq> 0
      then case ZSTD_DDictHashSet_expand allocated hashSet of
             None \<Rightarrow> None
           | Some (Inl f) \<Rightarrow> Some (Inl f)
           | Some (Inr hashSet) \<Rightarrow> ZSTD_DDictHashSet_emplaceDDict hashSet ddict
      else ZSTD_DDictHashSet_emplaceDDict hashSet ddict)"

subsection \<open>Probing ends\<close>

lemma mask_index: "idx < 2 ^ k \<Longrightarrow> idx AND (2 ^ k - 1) = (idx :: nat)"
  by (simp only: take_bit_nat_eq_self flip: take_bit_eq_mask mask_eq_exp_minus_1)

text \<open>
  A probe that starts at \<open>idx\<close> looks at the consecutive slots from there on: it ends at the
  first slot that satisfies \<open>stop\<close>, or runs out of the table when there is none.
\<close>

fun first_from :: "('a \<Rightarrow> bool) \<Rightarrow> 'a list \<Rightarrow> nat \<Rightarrow> nat option" where
  "first_from stop [] i = None"
| "first_from stop (x # xs) i = (if stop x then Some i else first_from stop xs (Suc i))"


lemma first_from_None: "first_from stop xs i = None \<longleftrightarrow> (\<forall>x \<in> set xs. \<not> stop x)"
  by (induction xs arbitrary: i) auto

lemma drop_nth_Cons: "idx < length xs \<Longrightarrow> drop idx xs = xs ! idx # drop (Suc idx) xs"
  by (simp add: Cons_nth_drop_Suc)

lemma emplace_probe_eq:
  assumes "length table = 2 ^ k"
  shows "emplace_probe table (2 ^ k - 1) dictID idx =
    (case first_from (\<lambda>x. x = None \<or> ZSTD_getDictID_fromDDict x = dictID) (drop idx table) idx of
       None \<Rightarrow> Some (Inl OutOfBounds) | Some m \<Rightarrow> Some (Inr (m, table ! m \<noteq> None)))"
proof (induction "length table - idx" arbitrary: idx)
  case 0
  then show ?case by (subst emplace_probe.simps) simp
next
  case (Suc n)
  then have lt: "idx < length table" by linarith
  moreover from this assms have "idx AND (2 ^ k - 1) = idx" by (simp only: mask_index)
  moreover have "n = length table - (idx + 1)" using Suc(2) by linarith
  ultimately show ?case
    using Suc(1)[of "idx + 1"] by (subst emplace_probe.simps) (simp add: drop_nth_Cons)
qed

lemma lookup_probe_eq:
  assumes "length table = 2 ^ k"
  shows "lookup_probe table (2 ^ k - 1) dictID idx =
    (case first_from (\<lambda>x. ZSTD_getDictID_fromDDict x = dictID \<or> ZSTD_getDictID_fromDDict x = 0)
        (drop idx table) idx of
       None \<Rightarrow> Some (Inl OutOfBounds) | Some m \<Rightarrow> Some (Inr m))"
proof (induction "length table - idx" arbitrary: idx)
  case 0
  then show ?case by (subst lookup_probe.simps) simp
next
  case (Suc n)
  then have lt: "idx < length table" by linarith
  moreover from this assms have "idx AND (2 ^ k - 1) = idx" by (simp only: mask_index)
  moreover have "n = length table - (idx + 1)" using Suc(2) by linarith
  ultimately show ?case
    using Suc(1)[of "idx + 1"] by (subst lookup_probe.simps) (simp add: drop_nth_Cons)
qed

subsection \<open>The table as a map\<close>

text \<open>
  \<open>slots_ok h table\<close>: every dictionary sits at or after the slot its identifier hashes to, and
  all slots in between are taken by others.  Hence identifiers are unique, and \<open>dd_map\<close> reads
  the table as a map from identifiers to dictionaries.
\<close>

definition slots_ok :: "(U32 \<Rightarrow> nat) \<Rightarrow> ZSTD_DDict option list \<Rightarrow> bool" where
  "slots_ok h table \<longleftrightarrow> (\<forall>j < length table. \<forall>d. table ! j = Some d \<longrightarrow>
     dd_dictID d \<noteq> 0 \<and> h (dd_dictID d) \<le> j \<and>
     (\<forall>i. h (dd_dictID d) \<le> i \<and> i < j \<longrightarrow>
        (\<exists>d'. table ! i = Some d' \<and> dd_dictID d' \<noteq> dd_dictID d)))"

definition dd_map :: "ZSTD_DDict option list \<Rightarrow> U32 \<Rightarrow> ZSTD_DDict option" where
  "dd_map table dictID =
     (case first_from (\<lambda>x. x \<noteq> None \<and> ZSTD_getDictID_fromDDict x = dictID) table 0 of
        None \<Rightarrow> None | Some m \<Rightarrow> table ! m)"

definition occupied :: "ZSTD_DDict option list \<Rightarrow> nat" where
  "occupied table = length (filter (\<lambda>x. x \<noteq> None) table)"







subsection \<open>The operations keep the invariant\<close>

definition hs_inv :: "ZSTD_DDictHashSet \<Rightarrow> bool" where
  "hs_inv s \<longleftrightarrow> (\<exists>k. ddictPtrTableSize s = 2 ^ k) \<and>
     length (ddictPtrTable s) = ddictPtrTableSize s \<and>
     slots_ok (ZSTD_DDictHashSet_getIndex (ddictPtrTableSize s)) (ddictPtrTable s) \<and>
     ddictPtrCount s = occupied (ddictPtrTable s)"

abbreviation hs_map :: "ZSTD_DDictHashSet \<Rightarrow> U32 \<Rightarrow> ZSTD_DDict option" where
  "hs_map s \<equiv> dd_map (ddictPtrTable s)"

lemma dd_map_empty: "dd_map (replicate n None) = Map.empty"
proof
  fix k
  have "first_from (\<lambda>x. x \<noteq> None \<and> ZSTD_getDictID_fromDDict x = k) (replicate n None) 0 = None"
    by (simp add: first_from_None)
  then show "dd_map (replicate n None) k = None" by (simp add: dd_map_def)
qed

lemma hs_inv_new:
  "hs_inv \<lparr>ddictPtrTable = replicate (2 ^ k) None, ddictPtrTableSize = 2 ^ k, ddictPtrCount = 0\<rparr>"
  by (auto simp: hs_inv_def slots_ok_def occupied_def)

lemma hs_inv_create: "ZSTD_createDDictHashSet a b = Some s \<Longrightarrow> hs_inv s \<and> hs_map s = Map.empty"
  using hs_inv_new[of 6] by (auto simp: ZSTD_createDDictHashSet_def dd_map_empty split: if_splits)











subsection \<open>A store of dictionaries\<close>










lemma getDDict_cases:
  assumes "ddictPtrTableSize s = 2 ^ k" "length (ddictPtrTable s) = 2 ^ k"
  shows "ZSTD_DDictHashSet_getDDict s dictID =
    (case first_from (\<lambda>x. ZSTD_getDictID_fromDDict x = dictID \<or> ZSTD_getDictID_fromDDict x = 0)
        (drop (ZSTD_DDictHashSet_getIndex (2 ^ k) dictID) (ddictPtrTable s))
        (ZSTD_DDictHashSet_getIndex (2 ^ k) dictID) of
       None \<Rightarrow> Some (Inl OutOfBounds) | Some m \<Rightarrow> Some (Inr (ddictPtrTable s ! m)))"
  unfolding ZSTD_DDictHashSet_getDDict_def assms(1) lookup_probe_eq[OF assms(2)] Let_def
  by (auto split: option.splits)







lemma getIndex_eval:
  "ZSTD_DDictHashSet_getIndex 64 0 = 52" "ZSTD_DDictHashSet_getIndex 64 21 = 52"
  "ZSTD_DDictHashSet_getIndex 64 3 = 63" "ZSTD_DDictHashSet_getIndex 64 47 = 63"
  by (simp_all add: ZSTD_DDictHashSet_getIndex_def XXH64_def XXH64_endian_align_def XXH64_finalize_def
      XXH64_fin8.simps XXH64_fin4.simps XXH64_fin1.simps XXH64_avalanche_def XXH_readLE32_align_eq
      bytes_at_def le_bytes_4_nat XXH_PRIME64_1_def XXH_PRIME64_2_def XXH_PRIME64_3_def XXH_PRIME64_4_def
      XXH_PRIME64_5_def XXH_rotl64_def Let_def)

lemma first_from_here: "i < length t \<Longrightarrow> stop (t ! i) \<Longrightarrow> first_from stop (drop i t) i = Some i"
  by (simp add: drop_nth_Cons)

lemma first_from_last:
  "length t = Suc i \<Longrightarrow> \<not> stop (t ! i) \<Longrightarrow> first_from stop (drop i t) i = None"
  by (simp add: drop_nth_Cons)

lemma emplaceDDict_here:
  assumes "ddictPtrTableSize s = 2 ^ k" "length (ddictPtrTable s) = 2 ^ k" "ddictPtrCount s \<noteq> 2 ^ k"
    "i = ZSTD_DDictHashSet_getIndex (2 ^ k) (dd_dictID d)" "i < 2 ^ k" "ddictPtrTable s ! i = None"
  shows "ZSTD_DDictHashSet_emplaceDDict s d = Some (Inr (s\<lparr>ddictPtrTable := (ddictPtrTable s)[i := Some d],
    ddictPtrCount := ddictPtrCount s + 1\<rparr>))"
  using assms
  unfolding ZSTD_DDictHashSet_emplaceDDict_def assms(1) emplace_probe_eq[OF assms(2)] Let_def
  by (simp add: ZSTD_getDictID_fromDDict_def[of "Some d"] first_from_here)

definition hs_new :: ZSTD_DDictHashSet where
  "hs_new = \<lparr>ddictPtrTable = replicate DDICT_HASHSET_TABLE_BASE_SIZE None,
             ddictPtrTableSize = DDICT_HASHSET_TABLE_BASE_SIZE, ddictPtrCount = 0\<rparr>"

lemma create_hs_new: "ZSTD_createDDictHashSet True True = Some hs_new"
  by (simp add: ZSTD_createDDictHashSet_def hs_new_def)

lemma hs_new_inv: "hs_inv hs_new" "hs_map hs_new = Map.empty"
  using hs_inv_create[OF create_hs_new] by simp_all

definition dict_of :: "U32 \<Rightarrow> ZSTD_DDict" where
  "dict_of dictID = \<lparr>dd_dictContent = [], dd_dictID = dictID, dd_entropyPresent = dictID \<noteq> 0\<rparr>"

lemma add_first:
  assumes "i = ZSTD_DDictHashSet_getIndex 64 dictID" "i < 64"
  shows "ZSTD_DDictHashSet_addDDict a hs_new (dict_of dictID) = Some (Inr (hs_new\<lparr>
    ddictPtrTable := (replicate 64 None)[i := Some (dict_of dictID)], ddictPtrCount := 1\<rparr>))"
  using emplaceDDict_here[of hs_new 6 i "dict_of dictID"] assms
  by (simp add: ZSTD_DDictHashSet_addDDict_def hs_new_def dict_of_def)


subsection \<open>Properties\<close>



text \<open>
  Property C33: the probing step advances past the last slot instead of returning to the first
  one.  In a fresh set of 64 slots, after the dictionary with identifier 3 has been added,
  both looking up and adding the identifier 47, which hashes to the same last slot, access the
  table out of its bounds.
\<close>

theorem ddict_probe_leaves_table:
  "\<exists>s. ZSTD_DDictHashSet_addDDict True hs_new (dict_of 3) = Some (Inr s) \<and>
     ZSTD_DDictHashSet_getDDict s 47 = Some (Inl OutOfBounds) \<and>
     ZSTD_DDictHashSet_addDDict True s (dict_of 47) = Some (Inl OutOfBounds)"
proof -
  let ?s = "hs_new\<lparr>ddictPtrTable := (replicate 64 None)[63 := Some (dict_of 3)], ddictPtrCount := 1\<rparr>"
  have sz: "ddictPtrTableSize ?s = 2 ^ 6" "length (ddictPtrTable ?s) = 2 ^ 6"
    by (simp_all add: hs_new_def)
  have "ZSTD_DDictHashSet_addDDict True hs_new (dict_of 3) = Some (Inr ?s)"
    by (rule add_first) (simp_all add: getIndex_eval)
  moreover have "ZSTD_DDictHashSet_getDDict ?s 47 = Some (Inl OutOfBounds)"
    unfolding getDDict_cases[OF sz]
    by (simp add: hs_new_def getIndex_eval first_from_last ZSTD_getDictID_fromDDict_def dict_of_def)
  moreover have "ZSTD_DDictHashSet_emplaceDDict ?s (dict_of 47) = Some (Inl OutOfBounds)"
    unfolding ZSTD_DDictHashSet_emplaceDDict_def sz(1) emplace_probe_eq[OF sz(2)] Let_def
    by (simp add: hs_new_def getIndex_eval first_from_last ZSTD_getDictID_fromDDict_def dict_of_def)
  ultimately show ?thesis
    by (intro exI[of _ ?s]) (simp add: ZSTD_DDictHashSet_addDDict_def hs_new_def)
qed

text \<open>
  Property C34: a dictionary without identifier (raw content) hides others.  The lookup takes
  the identifier 0 for an empty slot, so after a raw-content dictionary has been added, a
  lookup of an identifier that hashes to its slot returns the raw-content dictionary.
\<close>

theorem ddict_raw_content_shadows:
  "\<exists>s. ZSTD_DDictHashSet_addDDict True hs_new (dict_of 0) = Some (Inr s) \<and>
     ZSTD_DDictHashSet_getDDict s 21 = Some (Inr (Some (dict_of 0)))"
proof -
  let ?s = "hs_new\<lparr>ddictPtrTable := (replicate 64 None)[52 := Some (dict_of 0)], ddictPtrCount := 1\<rparr>"
  have sz: "ddictPtrTableSize ?s = 2 ^ 6" "length (ddictPtrTable ?s) = 2 ^ 6"
    by (simp_all add: hs_new_def)
  have "ZSTD_DDictHashSet_addDDict True hs_new (dict_of 0) = Some (Inr ?s)"
    by (rule add_first) (simp_all add: getIndex_eval)
  moreover have "ZSTD_DDictHashSet_getDDict ?s 21 = Some (Inr (Some (dict_of 0)))"
    unfolding getDDict_cases[OF sz]
    by (simp add: hs_new_def getIndex_eval first_from_here ZSTD_getDictID_fromDDict_def dict_of_def)
  ultimately show ?thesis by blast
qed

text \<open>
  The table is expanded before an insertion exactly when at least a quarter of
  its slots is taken.
\<close>

theorem ddict_load_factor:
  assumes "0 < ddictPtrTableSize s"
  shows "ZSTD_DDictHashSet_addDDict a s d =
    (if ddictPtrTableSize s \<le> 4 * ddictPtrCount s
     then case ZSTD_DDictHashSet_expand a s of
            None \<Rightarrow> None
          | Some (Inl f) \<Rightarrow> Some (Inl f)
          | Some (Inr s) \<Rightarrow> ZSTD_DDictHashSet_emplaceDDict s d
     else ZSTD_DDictHashSet_emplaceDDict s d)"
proof -
  have "ddictPtrCount s * 4 div ddictPtrTableSize s * 3 \<noteq> 0 \<longleftrightarrow> ddictPtrTableSize s \<le> 4 * ddictPtrCount s"
    using assms by (simp add: div_eq_0_iff not_less mult.commute)
  then show ?thesis by (simp add: ZSTD_DDictHashSet_addDDict_def)
qed

theorem ddict_load_factor_witness:
  "ZSTD_DDictHashSet_addDDict False (hs_new\<lparr>ddictPtrCount := 16\<rparr>) (dict_of 3) =
    Some (Inl (Code ZSTD_error_memory_allocation))"
  using ddict_load_factor[of "hs_new\<lparr>ddictPtrCount := 16\<rparr>" False "dict_of 3"]
  by (simp add: hs_new_def ZSTD_DDictHashSet_expand_def Let_def)

end
