(* ===== verification/Zstd_WriteNCount.thy ===== *)
theory Zstd_WriteNCount
  imports Zstd_Normalize Zstd_DDictSet
begin

section \<open>Writing table descriptions\<close>

text \<open>
  The writer of normalized counts of \<^verbatim>\<open>compress/fse_compress.c\<close>, \<^verbatim>\<open>FSE_writeNCount\<close>.
  The format is stated on its own, as a list of bit fields; the writer stores these fields, and
  succeeds exactly if its last store of two bytes fits the destination.
\<close>

declare nc_loop.simps [simp del]

subsection \<open>The writer\<close>

text \<open>The state: the buffer, the position in it, the bit register and the progress.  The array of
  counts has one entry for each symbol of the alphabet.\<close>

record wn_state =
  wn_mem :: buffer
  wn_out :: nat
  wn_bitStream :: nat
  wn_bitCount :: nat
  wn_symbol :: nat
  wn_nbBits :: nat
  wn_remaining :: int
  wn_threshold :: nat
  wn_previousIs0 :: bool

definition FSE_NCOUNTBOUND :: nat where "FSE_NCOUNTBOUND = 512"

definition FSE_NCountWriteBound :: "nat \<Rightarrow> nat \<Rightarrow> nat" where
  "FSE_NCountWriteBound maxSymbolValue tableLog =
     (let maxHeaderSize = ((maxSymbolValue + 1) * tableLog + 4 + 2) div 8 + 1 + 2
      in if maxSymbolValue \<noteq> 0 then maxHeaderSize else FSE_NCOUNTBOUND)"

text \<open>Two bytes of the register go to the buffer; without checks this may be outside of it.\<close>

definition wn_put :: "bool \<Rightarrow> wn_state \<Rightarrow> failure + wn_state" where
  "wn_put writeIsSafe st =
     (if \<not> writeIsSafe \<and> int (wn_out st) > int (length (wn_mem st)) - 2 then Inl (Code ZSTD_error_dstSize_tooSmall)
      else if wn_out st + 2 > length (wn_mem st) then Inl OutOfBounds
      else Inr (st\<lparr>wn_mem := (wn_mem st)[wn_out st := of_nat (wn_bitStream st), wn_out st + 1 := of_nat (wn_bitStream st div 2 ^ 8)]\<rparr>))"

definition wn_flush16 :: "bool \<Rightarrow> wn_state \<Rightarrow> failure + wn_state" where
  "wn_flush16 writeIsSafe st =
     bindE (wn_put writeIsSafe st) (\<lambda>st. Inr (st\<lparr>wn_out := wn_out st + 2, wn_bitStream := wn_bitStream st div 2 ^ 16\<rparr>))"

definition wn_add :: "nat \<Rightarrow> wn_state \<Rightarrow> wn_state" where
  "wn_add v st = st\<lparr>wn_bitStream := u32 (wn_bitStream st + u32 (v * 2 ^ wn_bitCount st))\<rparr>"

definition wn_flush :: "bool \<Rightarrow> wn_state \<Rightarrow> failure + wn_state" where
  "wn_flush writeIsSafe st =
     (if wn_bitCount st > 16
      then bindE (wn_flush16 writeIsSafe st) (\<lambda>st. Inr (st\<lparr>wn_bitCount := wn_bitCount st - 16\<rparr>))
      else Inr st)"

text \<open>The end of a run of zeros, and its length in groups of 24, groups of 3 and the rest.\<close>

function skip_zeros :: "int list \<Rightarrow> nat \<Rightarrow> nat" where
  "skip_zeros norm s = (if s < length norm \<and> norm ! s = 0 then skip_zeros norm (s + 1) else s)"
  by auto
termination by (relation "measure (\<lambda>(norm, s). length norm - s)") auto

declare skip_zeros.simps [simp del]

function wn_24 :: "bool \<Rightarrow> nat \<Rightarrow> nat \<Rightarrow> wn_state \<Rightarrow> failure + nat \<times> wn_state" where
  "wn_24 writeIsSafe s start st =
     (if s \<ge> start + 24
      then bindE (wn_flush16 writeIsSafe (wn_add 0xFFFF st)) (\<lambda>st. wn_24 writeIsSafe s (start + 24) st)
      else Inr (start, st))"
  by auto
termination by (relation "measure (\<lambda>(_, s, start, _). s - start)") auto

declare wn_24.simps [simp del]

function wn_3 :: "nat \<Rightarrow> nat \<Rightarrow> wn_state \<Rightarrow> nat \<times> wn_state" where
  "wn_3 s start st =
     (if s \<ge> start + 3
      then wn_3 s (start + 3) ((wn_add 3 st)\<lparr>wn_bitCount := wn_bitCount st + 2\<rparr>)
      else (start, st))"
  by auto
termination by (relation "measure (\<lambda>(s, start, _). s - start)") auto

declare wn_3.simps [simp del]

text \<open>The zeros after a zero; \<open>True\<close> if there is nothing after them.\<close>

definition wn_zeros :: "bool \<Rightarrow> int list \<Rightarrow> wn_state \<Rightarrow> failure + bool \<times> wn_state" where
  "wn_zeros writeIsSafe norm st =
     (let start = wn_symbol st;
          s = skip_zeros norm start;
          st = st\<lparr>wn_symbol := s\<rparr>
      in if s = length norm then Inr (True, st)
         else
           bindE (wn_24 writeIsSafe s start st) (\<lambda>(start, st).
             let (start, st) = wn_3 s start st;
                 st = (wn_add (s - start) st)\<lparr>wn_bitCount := wn_bitCount st + 2\<rparr>
             in bindE (wn_flush writeIsSafe st) (\<lambda>st. Inr (False, st))))"

function wn_rescale :: "int \<Rightarrow> nat \<Rightarrow> nat \<Rightarrow> nat \<times> nat" where
  "wn_rescale remaining nb threshold =
     (if remaining < int threshold \<and> threshold > 0 then wn_rescale remaining (nb - 1) (threshold div 2) else (nb, threshold))"
  by auto
termination by (relation "measure (\<lambda>(_, _, t). t)") auto

declare wn_rescale.simps [simp del]

definition wn_count :: "bool \<Rightarrow> int list \<Rightarrow> wn_state \<Rightarrow> failure + wn_state" where
  "wn_count writeIsSafe norm st =
     (let cnt = norm ! wn_symbol st;
          mx = 2 * int (wn_threshold st) - 1 - wn_remaining st;
          remaining = wn_remaining st - (if cnt < 0 then - cnt else cnt);
          cnt = cnt + 1;
          cnt = (if cnt \<ge> int (wn_threshold st) then cnt + mx else cnt);
          st1 = (wn_add (nat (cnt mod 2 ^ 32)) st)\<lparr>
            wn_symbol := wn_symbol st + 1,
            wn_bitCount := wn_bitCount st + wn_nbBits st - (if cnt < mx then 1 else 0),
            wn_previousIs0 := (cnt = 1),
            wn_remaining := remaining\<rparr>
      in if remaining < 1 then Inl (Code ZSTD_error_GENERIC)
         else let (nb, threshold) = wn_rescale remaining (wn_nbBits st) (wn_threshold st)
              in wn_flush writeIsSafe (st1\<lparr>wn_nbBits := nb, wn_threshold := threshold\<rparr>))"

definition wn_body :: "bool \<Rightarrow> int list \<Rightarrow> wn_state \<Rightarrow> failure + bool \<times> wn_state" where
  "wn_body writeIsSafe norm st =
     bindE (if wn_previousIs0 st then wn_zeros writeIsSafe norm st else Inr (False, st)) (\<lambda>(brk, st).
       if brk then Inr (True, st)
       else bindE (wn_count writeIsSafe norm st) (\<lambda>st. Inr (False, st)))"

text \<open>One round consumes at least one symbol, so that the size of the alphabet bounds the rounds.\<close>

fun wn_loop :: "nat \<Rightarrow> bool \<Rightarrow> int list \<Rightarrow> wn_state \<Rightarrow> failure + wn_state" where
  "wn_loop 0 writeIsSafe norm st = Inr st"
| "wn_loop (Suc rounds) writeIsSafe norm st =
     (if wn_symbol st < length norm \<and> wn_remaining st > 1
      then bindE (wn_body writeIsSafe norm st) (\<lambda>(brk, st). if brk then Inr st else wn_loop rounds writeIsSafe norm st)
      else Inr st)"

definition FSE_writeNCount_generic :: "buffer \<Rightarrow> int list \<Rightarrow> nat \<Rightarrow> bool \<Rightarrow> failure + nat \<times> buffer" where
  "FSE_writeNCount_generic header normalizedCounter tableLog writeIsSafe =
     bindE (wn_loop (length normalizedCounter) writeIsSafe normalizedCounter
         \<lparr>wn_mem = header, wn_out = 0, wn_bitStream = tableLog - FSE_MIN_TABLELOG, wn_bitCount = 4, wn_symbol = 0,
          wn_nbBits = tableLog + 1, wn_remaining = 2 ^ tableLog + 1, wn_threshold = 2 ^ tableLog, wn_previousIs0 = False\<rparr>) (\<lambda>st.
       if wn_remaining st \<noteq> 1 then Inl (Code ZSTD_error_GENERIC)
       else bindE (wn_put writeIsSafe st) (\<lambda>st. Inr (wn_out st + (wn_bitCount st + 7) div 8, wn_mem st)))"

definition FSE_writeNCount :: "buffer \<Rightarrow> int list \<Rightarrow> nat \<Rightarrow> nat \<Rightarrow> failure + nat \<times> buffer" where
  "FSE_writeNCount buffer normalizedCounter maxSymbolValue tableLog =
     (if tableLog > FSE_MAX_TABLELOG then Inl (Code ZSTD_error_tableLog_tooLarge)
      else if tableLog < FSE_MIN_TABLELOG then Inl (Code ZSTD_error_GENERIC)
      else if length buffer < FSE_NCountWriteBound maxSymbolValue tableLog
      then FSE_writeNCount_generic buffer (take (maxSymbolValue + 1) normalizedCounter) tableLog False
      else FSE_writeNCount_generic buffer (take (maxSymbolValue + 1) normalizedCounter) tableLog True)"


subsection \<open>The format\<close>

text \<open>The position of the highest bit, by halving.\<close>

fun hbit :: "nat \<Rightarrow> nat" where
  "hbit n = (if n < 2 then 0 else Suc (hbit (n div 2)))"

declare hbit.simps [simp del]

lemma hbit_bounds: "1 \<le> n \<Longrightarrow> 2 ^ hbit n \<le> n \<and> n < 2 * 2 ^ hbit n"
proof (induction n rule: hbit.induct)
  case (1 n)
  show ?case
  proof (cases "n < 2")
    case True
    then show ?thesis using 1(2) by (simp add: hbit.simps)
  next
    case False
    then have "2 ^ hbit (n div 2) \<le> n div 2" "n div 2 < 2 * 2 ^ hbit (n div 2)" using 1(1) by auto
    moreover have "2 ^ hbit n = 2 * (2::nat) ^ hbit (n div 2)" using False by (simp add: hbit.simps[of n])
    ultimately show ?thesis by linarith
  qed
qed

lemma hbit_unique: "2 ^ h \<le> n \<Longrightarrow> n < 2 * 2 ^ h \<Longrightarrow> hbit n = h"
  using hbit_bounds[of n] pow2_log_unique[of "hbit n" n h]
  by (metis One_nat_def Suc_leI less_le_trans power_Suc zero_less_numeral zero_less_power)

text \<open>
  A count is written plus one, \<open>remaining\<close> being the largest value: the lowest of the values take one
  bit less.  Zeros after a zero are counted in pairs of bits, 3 for three of them and one more.
\<close>

definition count_code :: "nat \<Rightarrow> int \<Rightarrow> nat \<times> nat" where
  "count_code r c =
     (let h = hbit r; mx = 2 * 2 ^ h - 1 - r; c' = nat (c + 1); v = (if c' \<ge> 2 ^ h then c' + mx else c')
      in (v, if v < mx then h else h + 1))"

definition zero_run :: "nat \<Rightarrow> (nat \<times> nat) list" where
  "zero_run k = replicate (k div 3) (3, 2) @ [(k mod 3, 2)]"

fun nc_fields :: "nat \<Rightarrow> nat option \<Rightarrow> int list \<Rightarrow> (nat \<times> nat) list" where
  "nc_fields r z [] = []"
| "nc_fields r z (c # cs) =
     (if r \<le> 1 then []
      else case z of
        None \<Rightarrow> count_code r c # nc_fields (r - ncount c) (if c = 0 then Some 0 else None) cs
      | Some k \<Rightarrow>
          if c = 0 then nc_fields r (Some (k + 1)) cs
          else zero_run k @ count_code r c # nc_fields (r - ncount c) None cs)"

text \<open>The whole description: the accuracy and the counts.\<close>

definition nc_format :: "nat \<Rightarrow> int list \<Rightarrow> (nat \<times> nat) list" where
  "nc_format tableLog norm = (tableLog - 5, 4) # nc_fields (2 ^ tableLog + 1) None norm"

lemma skip_zeros_spec:
  "s \<le> length norm \<Longrightarrow> s \<le> skip_zeros norm s \<and> skip_zeros norm s \<le> length norm
     \<and> (\<forall>i. s \<le> i \<and> i < skip_zeros norm s \<longrightarrow> norm ! i = 0) \<and> (skip_zeros norm s < length norm \<longrightarrow> norm ! skip_zeros norm s \<noteq> 0)"
proof (induction norm s rule: skip_zeros.induct)
  case (1 norm s)
  show ?case
  proof (cases "s < length norm \<and> norm ! s = 0")
    case True
    then have e: "skip_zeros norm s = skip_zeros norm (s + 1)" by (simp add: skip_zeros.simps[of norm s])
    have IH: "s + 1 \<le> skip_zeros norm (s + 1)" "skip_zeros norm (s + 1) \<le> length norm"
      "\<forall>i. s + 1 \<le> i \<and> i < skip_zeros norm (s + 1) \<longrightarrow> norm ! i = 0"
      "skip_zeros norm (s + 1) < length norm \<longrightarrow> norm ! skip_zeros norm (s + 1) \<noteq> 0" using 1(1)[OF True] True by auto
    have "norm ! i = 0" if "s \<le> i" "i < skip_zeros norm (s + 1)" for i using IH(3) that True by (cases "i = s") auto
    then show ?thesis unfolding e using IH by auto
  next
    case False
    then have "skip_zeros norm s = s" by (simp only: skip_zeros.simps[of norm s] if_False)
    then show ?thesis using False 1(2) by auto
  qed
qed

lemma fields_none:
  "1 < r \<Longrightarrow> s < length norm \<Longrightarrow> nc_fields r None (drop s norm)
    = count_code r (norm ! s) # nc_fields (r - ncount (norm ! s)) (if norm ! s = 0 then Some 0 else None) (drop (s + 1) norm)"
  by (simp add: Cons_nth_drop_Suc[symmetric])

lemma fields_zeros:
  assumes "1 < r" "s \<le> length norm" "skip_zeros norm s < length norm"
  shows "nc_fields r (Some j) (drop s norm) = zero_run (j + (skip_zeros norm s - s)) @ nc_fields r None (drop (skip_zeros norm s) norm)"
  using assms(2,3)
proof (induction "skip_zeros norm s - s" arbitrary: s j)
  case 0
  then have e: "skip_zeros norm s = s" using skip_zeros_spec[of s norm] by simp
  then have "norm ! s \<noteq> 0" "s < length norm" using skip_zeros_spec[of s norm] 0 by auto
  then show ?case using e assms(1) by (simp add: Cons_nth_drop_Suc[symmetric])
next
  case (Suc d)
  then have s: "s < skip_zeros norm s" by linarith
  then have z: "norm ! s = 0" "s < length norm" using skip_zeros_spec[of s norm] Suc.prems by auto
  have e: "skip_zeros norm (s + 1) = skip_zeros norm s" using z by (simp add: skip_zeros.simps[of norm s])
  have "nc_fields r (Some (j + 1)) (drop (s + 1) norm)
      = zero_run (j + 1 + (skip_zeros norm s - (s + 1))) @ nc_fields r None (drop (skip_zeros norm s) norm)"
    using Suc.hyps(1)[of "s + 1" "j + 1"] Suc.hyps(2) Suc.prems z(2) unfolding e by simp
  moreover have "j + 1 + (skip_zeros norm s - (s + 1)) = j + (skip_zeros norm s - s)" using s by simp
  ultimately have "nc_fields r (Some (j + 1)) (drop (s + 1) norm)
      = zero_run (j + (skip_zeros norm s - s)) @ nc_fields r None (drop (skip_zeros norm s) norm)" by (simp only:)
  moreover have "nc_fields r (Some j) (drop s norm) = nc_fields r (Some (j + 1)) (drop (s + 1) norm)"
    using z assms(1) by (simp add: Cons_nth_drop_Suc[symmetric])
  ultimately show ?case by (simp only:)
qed

text \<open>A code fits its bits.\<close>

lemma count_code_bounds:
  assumes "2 \<le> r" "-1 \<le> c" "ncount c \<le> r - 1"
  shows "fst (count_code r c) < 2 ^ snd (count_code r c)" "1 \<le> snd (count_code r c)" "snd (count_code r c) \<le> hbit r + 1"
proof -
  have h: "2 ^ hbit r \<le> r" "r < 2 * 2 ^ hbit r" using hbit_bounds[of r] assms(1) by auto
  have c: "nat (c + 1) \<le> r" using assms by (auto simp: ncount_def split: if_splits)
  have "hbit r \<noteq> 0" using h(2) assms(1) by (intro notI) simp
  then show "1 \<le> snd (count_code r c)" "snd (count_code r c) \<le> hbit r + 1" by (auto simp: count_code_def Let_def)
  define k where "k = nat (c + 1)"
  show "fst (count_code r c) < 2 ^ snd (count_code r c)" using h c unfolding count_code_def Let_def k_def[symmetric] by auto
qed

subsection \<open>The writer writes the format\<close>

definition werr :: "bool \<Rightarrow> failure" where
  "werr writeIsSafe = (if writeIsSafe then OutOfBounds else Code ZSTD_error_dstSize_tooSmall)"

text \<open>The state holds fields; all flushes up to them fit in \<open>E\<close> bytes.\<close>

definition wst :: "nat \<Rightarrow> (nat \<times> nat) list \<Rightarrow> wn_state \<Rightarrow> bool" where
  "wst E fs st \<longleftrightarrow> length (wn_mem st) = E \<and> even (wn_out st) \<and> wn_out st \<le> E \<and> wn_bitStream st < 2 ^ wn_bitCount st
     \<and> le_val (take (wn_out st) (wn_mem st)) + 2 ^ (8 * wn_out st) * wn_bitStream st = fval fs
     \<and> 8 * wn_out st + wn_bitCount st = flen fs"

definition wfit :: "nat \<Rightarrow> (nat \<times> nat) list \<Rightarrow> bool" where
  "wfit E fs \<longleftrightarrow> 2 * ((flen fs - 1) div 16) \<le> E"

definition wctl :: "wn_state \<Rightarrow> wn_state \<Rightarrow> bool" where
  "wctl st st' \<longleftrightarrow> wn_symbol st' = wn_symbol st \<and> wn_nbBits st' = wn_nbBits st \<and> wn_remaining st' = wn_remaining st
     \<and> wn_threshold st' = wn_threshold st \<and> wn_previousIs0 st' = wn_previousIs0 st"

definition wrun :: "bool \<Rightarrow> nat \<Rightarrow> (nat \<times> nat) list \<Rightarrow> wn_state \<Rightarrow> failure + wn_state \<Rightarrow> bool" where
  "wrun writeIsSafe E fs st0 res \<longleftrightarrow>
     (if wfit E fs then \<exists>st. res = Inr st \<and> wst E fs st \<and> 1 \<le> wn_bitCount st \<and> wn_bitCount st \<le> 16 \<and> wctl st0 st
      else res = Inl (werr writeIsSafe))"

lemma wfit_mono: "wfit E (fs @ gs) \<Longrightarrow> wfit E fs"
  unfolding wfit_def flen_simps using div_le_mono[of "flen fs - 1" "flen fs + flen gs - 1" 16] by linarith

lemma wst_cong: "wst E fs st \<Longrightarrow> fval fs = fval gs \<Longrightarrow> flen fs = flen gs \<Longrightarrow> wst E gs st"
  by (simp add: wst_def)

lemma wfit_cong: "flen fs = flen gs \<Longrightarrow> wfit E fs = wfit E gs"
  by (simp add: wfit_def)

lemma wctl_refl [simp]: "wctl st st" by (simp add: wctl_def)

lemma wctl_trans: "wctl a b \<Longrightarrow> wctl b c \<Longrightarrow> wctl a c" by (simp add: wctl_def)

lemma two_bytes: "le_val [of_nat n, of_nat (n div 2 ^ 8)] = n mod 2 ^ 16" for n :: nat
proof -
  have "n mod (256 * 256) = 256 * (n div 256 mod 256) + n mod 256" by (rule mod_mult2_eq)
  then show ?thesis by (simp add: unat_of_nat)
qed

lemma put_spec:
  "wn_put safe st = (if wn_out st + 2 \<le> length (wn_mem st)
     then Inr (st\<lparr>wn_mem := write_at (wn_mem st) (wn_out st) [of_nat (wn_bitStream st), of_nat (wn_bitStream st div 2 ^ 8)]\<rparr>)
     else Inl (werr safe))"
proof -
  have "(wn_mem st)[wn_out st := a, wn_out st + 1 := b] = write_at (wn_mem st) (wn_out st) [a, b]" if "wn_out st + 2 \<le> length (wn_mem st)" for a b
    by (rule nth_equalityI) (use that in \<open>auto simp: write_at_def nth_append nth_list_update nth_Cons' min_def Suc_diff_Suc numeral_2_eq_2\<close>)
  then show ?thesis by (auto simp: wn_put_def werr_def)
qed

text \<open>Two bytes of the register, whatever is in it.\<close>

lemma flush16_spec:
  assumes "even (wn_out st)" "wn_out st \<le> length (wn_mem st)"
  shows "if wn_out st + 2 \<le> length (wn_mem st)
    then \<exists>mem. wn_flush16 safe st = Inr (st\<lparr>wn_mem := mem, wn_out := wn_out st + 2, wn_bitStream := wn_bitStream st div 2 ^ 16\<rparr>)
      \<and> length mem = length (wn_mem st)
      \<and> le_val (take (wn_out st + 2) mem) + 2 ^ (8 * (wn_out st + 2)) * (wn_bitStream st div 2 ^ 16)
        = le_val (take (wn_out st) (wn_mem st)) + 2 ^ (8 * wn_out st) * wn_bitStream st
    else wn_flush16 safe st = Inl (werr safe)"
proof (cases "wn_out st + 2 \<le> length (wn_mem st)")
  case True
  let ?o = "wn_out st" and ?b = "wn_bitStream st"
  define mem where "mem = write_at (wn_mem st) ?o [of_nat ?b, of_nat (?b div 2 ^ 8)]"
  have t: "take (?o + 2) mem = take ?o (wn_mem st) @ [of_nat ?b, of_nat (?b div 2 ^ 8)]"
    using True by (simp add: mem_def write_at_def)
  have p: "(256::nat) ^ ?o = 2 ^ (8 * ?o)" "(2::nat) ^ (8 * (?o + 2)) = 2 ^ (8 * ?o) * 2 ^ 16"
    by (simp_all add: power_mult power_add distrib_left)
  have "le_val (take (?o + 2) mem) + 2 ^ (8 * (?o + 2)) * (?b div 2 ^ 16)
      = le_val (take ?o (wn_mem st)) + 2 ^ (8 * ?o) * (?b mod 2 ^ 16 + 2 ^ 16 * (?b div 2 ^ 16))"
    unfolding t le_val_append two_bytes p using True by (simp only: length_take min_absorb2 p assms(2) distrib_left mult.assoc add.assoc)
  also have "?b mod 2 ^ 16 + 2 ^ 16 * (?b div 2 ^ 16) = ?b" by (simp only: mod_mult_div_eq)
  finally show ?thesis using True unfolding wn_flush16_def put_spec mem_def[symmetric]
    by (auto simp: mem_def write_at_def)
next
  case False
  then show ?thesis by (simp add: wn_flush16_def put_spec)
qed


lemma div16: "x < 16 \<Longrightarrow> n = 16 * k + x \<Longrightarrow> n div 16 = k" for k n x :: nat
  by simp

lemma flush_run:
  assumes "wst E fs st" "1 \<le> wn_bitCount st" "wn_bitCount st \<le> 32"
  shows "wrun safe E fs st (wn_flush safe st)"
proof -
  let ?o = "wn_out st" and ?n = "wn_bitCount st" and ?b = "wn_bitStream st"
  have w: "length (wn_mem st) = E" "even ?o" "?o \<le> E" "?b < 2 ^ ?n"
    "le_val (take ?o (wn_mem st)) + 2 ^ (8 * ?o) * ?b = fval fs" "8 * ?o + ?n = flen fs"
    using assms(1) by (simp_all add: wst_def)
  obtain k where k: "?o = 2 * k" using w(2) by (elim evenE)
  have l: "flen fs - 1 = 16 * k + (?n - 1)" using w(6) assms(2) k by simp
  show ?thesis
  proof (cases "?n > 16")
    case False
    then have "(flen fs - 1) div 16 = k" using assms(2) div16[OF _ l] by simp
    then have "wfit E fs" using w(3) k by (simp add: wfit_def)
    then show ?thesis using False assms by (simp add: wrun_def wn_flush_def)
  next
    case True
    then have "(flen fs - 1) div 16 = k + 1"
    proof -
      have "flen fs - 1 = 16 * (k + 1) + (?n - 17)" using l True by simp
      moreover have "?n - 17 < 16" using assms(3) by simp
      ultimately show ?thesis using div16 by blast
    qed
    then have fit: "wfit E fs \<longleftrightarrow> ?o + 2 \<le> E" using k by (simp add: wfit_def)
    show ?thesis
    proof (cases "?o + 2 \<le> E")
      case fits: True
      obtain mem where m: "wn_flush16 safe st = Inr (st\<lparr>wn_mem := mem, wn_out := ?o + 2, wn_bitStream := ?b div 2 ^ 16\<rparr>)"
        "length mem = E" "le_val (take (?o + 2) mem) + 2 ^ (8 * (?o + 2)) * (?b div 2 ^ 16) = fval fs"
        using flush16_spec[OF w(2), of safe] w fits by auto
      have "?b < 2 ^ (?n - 16) * 2 ^ 16" using w(4) True by (simp only: power_add[symmetric]) simp
      then have "?b div 2 ^ 16 < 2 ^ (?n - 16)" by (simp only: less_mult_imp_div_less)
      moreover have "1 \<le> ?n - 16" "?n - 16 \<le> 16" using True assms(3) by auto
      ultimately show ?thesis using fit fits m w True by (simp add: wrun_def wn_flush_def wst_def wctl_def)
    next
      case no: False
      then show ?thesis using flush16_spec[OF w(2), of safe] w fit True by (simp add: wrun_def wn_flush_def)
    qed
  qed
qed

lemma add_bits_arith:
  assumes "b < 2 ^ n" "v < 2 ^ nb" "n + nb \<le> 32"
  shows "u32 (b + u32 (v * 2 ^ n)) = b + v * 2 ^ n" "b + v * 2 ^ n < 2 ^ (n + nb)"
proof -
  have "v * 2 ^ n + 2 ^ n \<le> 2 ^ nb * 2 ^ n" using mult_le_mono1[of "v + 1" "2 ^ nb" "2 ^ n"] assms(2) by simp
  then show b: "b + v * 2 ^ n < 2 ^ (n + nb)" using assms(1) by (simp add: power_add mult.commute)
  have "(2::nat) ^ (n + nb) \<le> 2 ^ 32" using assms(3) by (intro power_increasing) auto
  then show "u32 (b + u32 (v * 2 ^ n)) = b + v * 2 ^ n" using b by (simp add: u32_def)
qed

lemma add_holds:
  assumes "wst E fs st" "v < 2 ^ nb" "wn_bitCount st + nb \<le> 32"
  shows "wst E (fs @ [(v, nb)]) ((wn_add v st)\<lparr>wn_bitCount := wn_bitCount st + nb\<rparr>)"
proof -
  let ?o = "wn_out st" and ?n = "wn_bitCount st" and ?b = "wn_bitStream st"
  have w: "length (wn_mem st) = E" "even ?o" "?o \<le> E" "?b < 2 ^ ?n"
    "le_val (take ?o (wn_mem st)) + 2 ^ (8 * ?o) * ?b = fval fs" "8 * ?o + ?n = flen fs"
    using assms(1) by (simp_all add: wst_def)
  note a = add_bits_arith[OF w(4) assms(2,3)]
  have "fval (fs @ [(v, nb)]) = fval fs + 2 ^ flen fs * v" using assms(2) by (simp add: fval_snoc)
  also have "\<dots> = le_val (take ?o (wn_mem st)) + 2 ^ (8 * ?o) * (?b + v * 2 ^ ?n)"
    unfolding w(5)[symmetric] w(6)[symmetric] by (simp add: power_add algebra_simps)
  finally show ?thesis using w a by (simp add: wst_def wn_add_def)
qed

lemma wn_24_run:
  assumes "wst E fs st" "1 \<le> wn_bitCount st" "wn_bitCount st \<le> 16" "start \<le> s"
  shows "let fs' = fs @ replicate ((s - start) div 24) (65535, 16) in
    if wfit E fs' then \<exists>st'. wn_24 safe s start st = Inr (s - (s - start) mod 24, st') \<and> wst E fs' st'
        \<and> wn_bitCount st' = wn_bitCount st \<and> wctl st st'
    else wn_24 safe s start st = Inl (werr safe)"
  using assms
proof (induction safe s start st arbitrary: fs rule: wn_24.induct)
  case (1 safe s start st)
  let ?o = "wn_out st" and ?n = "wn_bitCount st" and ?b = "wn_bitStream st"
  have w: "length (wn_mem st) = E" "even ?o" "?o \<le> E" "?b < 2 ^ ?n"
    "le_val (take ?o (wn_mem st)) + 2 ^ (8 * ?o) * ?b = fval fs" "8 * ?o + ?n = flen fs"
    using 1(2) by (simp_all add: wst_def)
  obtain k where k: "?o = 2 * k" using w(2) by (elim evenE)
  show ?case
  proof (cases "start + 24 \<le> s")
    case False
    have l: "flen fs - 1 = 16 * k + (?n - 1)" using w(6) 1(3) k by simp
    then have "(flen fs - 1) div 16 = k" using 1(3,4) div16[OF _ l] by simp
    then have "wfit E fs" using w(3) k by (simp add: wfit_def)
    then show ?thesis using False 1(2,5) by (simp add: wn_24.simps[of safe s start st] Let_def)
  next
    case True
    define m where "m = (s - (start + 24)) div 24"
    have sm: "(s - start) div 24 = Suc m" "(s - start) mod 24 = (s - (start + 24)) mod 24"
      using True le_div_geq[of 24 "s - start"] le_mod_geq[of 24 "s - start"] by (auto simp: m_def)
    let ?f = "(65535::nat, 16::nat)"
    have fs': "fs @ replicate ((s - start) div 24) ?f = (fs @ [?f]) @ replicate m ?f" unfolding sm by simp
    note a = add_bits_arith[OF w(4), of 65535 16]
    have bs: "wn_bitStream (wn_add 0xFFFF st) = ?b + 65535 * 2 ^ ?n" using a(1) 1(4) by (simp add: wn_add_def)
    have l: "flen (fs @ [?f]) - 1 = 16 * (k + 1) + (?n - 1)" using w(6) 1(3) k by simp
    have q: "(flen (fs @ [?f]) - 1) div 16 = k + 1" by (rule div16[OF _ l]) (use 1(3,4) in simp)
    show ?thesis
    proof (cases "?o + 2 \<le> E")
      case no: False
      have "\<not> wfit E (fs @ [?f])" using no q k by (simp add: wfit_def)
      then have "\<not> wfit E ((fs @ [?f]) @ replicate m ?f)" using wfit_mono by blast
      moreover have "wn_flush16 safe (wn_add 0xFFFF st) = Inl (werr safe)"
        using flush16_spec[of "wn_add 0xFFFF st" safe] w no by (simp add: wn_add_def)
      ultimately show ?thesis using True unfolding fs' by (simp add: wn_24.simps[of safe s start st])
    next
      case fits: True
      obtain mem where fl: "wn_flush16 safe (wn_add 0xFFFF st) = Inr ((wn_add 0xFFFF st)\<lparr>wn_mem := mem, wn_out := ?o + 2,
          wn_bitStream := (?b + 65535 * 2 ^ ?n) div 2 ^ 16\<rparr>)" "length mem = E"
        "le_val (take (?o + 2) mem) + 2 ^ (8 * (?o + 2)) * ((?b + 65535 * 2 ^ ?n) div 2 ^ 16)
          = le_val (take ?o (wn_mem st)) + 2 ^ (8 * ?o) * (?b + 65535 * 2 ^ ?n)"
        using flush16_spec[of "wn_add 0xFFFF st" safe] w fits unfolding bs by (auto simp: wn_add_def)
      define st1 where "st1 = (wn_add 0xFFFF st)\<lparr>wn_mem := mem, wn_out := ?o + 2, wn_bitStream := (?b + 65535 * 2 ^ ?n) div 2 ^ 16\<rparr>"
      have c: "wn_bitCount st1 = ?n" "wctl st st1" by (simp_all add: st1_def wn_add_def wctl_def)
      have "fval (fs @ [?f]) = fval fs + 2 ^ flen fs * 65535" by (simp add: fval_snoc)
      also have "\<dots> = le_val (take ?o (wn_mem st)) + 2 ^ (8 * ?o) * (?b + 65535 * 2 ^ ?n)"
        unfolding w(5)[symmetric] w(6)[symmetric] by (simp add: power_add algebra_simps)
      also note fl(3)[symmetric]
      finally have fv: "fval (fs @ [?f]) = le_val (take (?o + 2) mem) + 2 ^ (8 * (?o + 2)) * ((?b + 65535 * 2 ^ ?n) div 2 ^ 16)" .
      have "?b + 65535 * 2 ^ ?n < 2 ^ ?n * 2 ^ 16" using a(2) 1(4) by (simp add: power_add)
      then have "(?b + 65535 * 2 ^ ?n) div 2 ^ 16 < 2 ^ ?n" by (simp only: less_mult_imp_div_less)
      then have st1: "wst E (fs @ [?f]) st1" using fl(2) w fits fv[symmetric] by (simp add: wst_def st1_def wn_add_def)
      have step: "wn_24 safe s start st = wn_24 safe s (start + 24) st1"
        using True fl(1) by (simp add: wn_24.simps[of safe s start st] st1_def)
      note IH = 1(1)[OF True fl(1)[folded st1_def], of "fs @ [?f]"]
      show ?thesis using IH st1 c 1(3,4) True unfolding step fs' sm(2) m_def[symmetric] Let_def
        by (auto simp: wctl_def)
    qed
  qed
qed

lemma wn_3_run:
  assumes "wst E fs st" "wn_bitCount st + 2 * ((s - start) div 3) \<le> 32" "start \<le> s"
  shows "\<exists>st'. wn_3 s start st = (s - (s - start) mod 3, st') \<and> wst E (fs @ replicate ((s - start) div 3) (3, 2)) st'
    \<and> wn_bitCount st' = wn_bitCount st + 2 * ((s - start) div 3) \<and> wctl st st'"
  using assms
proof (induction s start st arbitrary: fs rule: wn_3.induct)
  case (1 s start st)
  show ?case
  proof (cases "start + 3 \<le> s")
    case False
    then show ?thesis using 1(2,4) by (simp add: wn_3.simps[of s start st])
  next
    case True
    define m where "m = (s - (start + 3)) div 3"
    have sm: "(s - start) div 3 = Suc m" "(s - start) mod 3 = (s - (start + 3)) mod 3"
      using True le_div_geq[of 3 "s - start"] le_mod_geq[of 3 "s - start"] by (auto simp: m_def)
    let ?st1 = "(wn_add 3 st)\<lparr>wn_bitCount := wn_bitCount st + 2\<rparr>"
    have st1: "wst E (fs @ [(3, 2)]) ?st1" by (rule add_holds[OF 1(2)]) (use 1(3) sm in simp_all)
    have step: "wn_3 s start st = wn_3 s (start + 3) ?st1" using True by (simp add: wn_3.simps[of s start st])
    have c: "wctl st ?st1" by (simp add: wctl_def wn_add_def)
    have "fs @ replicate ((s - start) div 3) (3, 2) = (fs @ [(3, 2)]) @ replicate m (3, 2)" unfolding sm by simp
    then show ?thesis using 1(1)[OF True st1] 1(3) True c unfolding step sm m_def[symmetric]
      by (auto simp: wctl_def)
  qed
qed


text \<open>A run of zeros in groups is the run in pairs of bits.\<close>

lemma pairs_groups: "fval (replicate (8 * m) (3, 2)) = fval (replicate m (65535, 16))" "flen (replicate (8 * m) (3, 2)) = flen (replicate m (65535, 16))"
proof -
  have r: "replicate (8 * Suc m) x = replicate 8 x @ replicate (8 * m) x" for m and x :: "nat \<times> nat"
    by (simp add: replicate_add[symmetric])
  have e: "replicate 8 ((3::nat), (2::nat)) = [(3, 2), (3, 2), (3, 2), (3, 2), (3, 2), (3, 2), (3, 2), (3, 2)]" by (simp add: numeral_eq_Suc)
  have v: "fval (replicate 8 (3, 2)) = 65535 mod 2 ^ 16" "flen (replicate 8 (3, 2)) = 16" unfolding e by (simp_all del: One_nat_def)
  show "fval (replicate (8 * m) (3, 2)) = fval (replicate m (65535, 16))"
    by (induction m) (simp_all only: r fval_append v replicate_Suc fval.simps mult_0_right replicate_0)
  show "flen (replicate (8 * m) (3, 2)) = flen (replicate m (65535, 16))"
    by (induction m) (simp_all only: r v flen_simps replicate_Suc mult_0_right replicate_0)
qed

lemma zero_run_groups:
  fixes k :: nat
  defines "gs \<equiv> replicate (k div 24) (65535, 16) @ replicate (k mod 24 div 3) (3, 2) @ [(k mod 3, 2)]"
  shows "fval (zero_run k) = fval gs" "flen (zero_run k) = flen gs"
proof -
  have "k div 3 = 8 * (k div 24) + k mod 24 div 3"
  proof -
    have "k = 3 * (8 * (k div 24)) + k mod 24" by simp
    then have "k div 3 = (3 * (8 * (k div 24)) + k mod 24) div 3" by simp
    also have "\<dots> = 8 * (k div 24) + k mod 24 div 3" by (rule div_mult_self4) simp
    finally show ?thesis .
  qed
  then have z: "zero_run k = replicate (8 * (k div 24)) (3, 2) @ replicate (k mod 24 div 3) (3, 2) @ [(k mod 3, 2)]"
    by (simp add: zero_run_def replicate_add)
  show "fval (zero_run k) = fval gs" "flen (zero_run k) = flen gs"
    unfolding z gs_def by (simp_all add: fval_append pairs_groups)
qed

definition wn_ready :: "nat \<Rightarrow> wn_state \<Rightarrow> bool" where
  "wn_ready r st \<longleftrightarrow> 1 \<le> wn_bitCount st \<and> wn_bitCount st \<le> 16 \<and> wn_remaining st = int r
     \<and> wn_threshold st = 2 ^ hbit r \<and> wn_nbBits st = hbit r + 1"

lemma zeros_run:
  assumes w: "wst E fs st" "1 \<le> wn_bitCount st" "wn_bitCount st \<le> 16"
    and s: "wn_symbol st \<le> length norm" "skip_zeros norm (wn_symbol st) = s" "s < length norm"
  shows "let fs' = fs @ zero_run (s - wn_symbol st) in
    if wfit E fs' then \<exists>st'. wn_zeros safe norm st = Inr (False, st') \<and> wst E fs' st' \<and> 1 \<le> wn_bitCount st' \<and> wn_bitCount st' \<le> 16
        \<and> wctl (st\<lparr>wn_symbol := s\<rparr>) st'
    else wn_zeros safe norm st = Inl (werr safe)"
proof -
  let ?a = "wn_symbol st" and ?st = "st\<lparr>wn_symbol := s\<rparr>"
  define k where "k = s - ?a"
  have as: "?a \<le> s" using skip_zeros_spec[OF s(1)] s(2) by simp
  have w': "wst E fs ?st" "wn_bitCount ?st = wn_bitCount st" using w(1) by (simp_all add: wst_def)
  let ?g = "fs @ replicate (k div 24) (65535, 16)"
  let ?h = "?g @ replicate (k mod 24 div 3) (3, 2)"
  have e: "fval (fs @ zero_run k) = fval (?h @ [(k mod 3, 2)])" "flen (fs @ zero_run k) = flen (?h @ [(k mod 3, 2)])"
  proof -
    have m4: "k mod 3 mod 4 = k mod 3" by (rule mod_less) (simp add: less_trans[of _ 3])
    show "fval (fs @ zero_run k) = fval (?h @ [(k mod 3, 2)])" "flen (fs @ zero_run k) = flen (?h @ [(k mod 3, 2)])"
      using zero_run_groups[of k] by (simp_all add: fval_append m4)
  qed
  have z: "wn_zeros safe norm st = bindE (wn_24 safe s ?a ?st) (\<lambda>(start, st).
      let (start, st) = wn_3 s start st; st = (wn_add (s - start) st)\<lparr>wn_bitCount := wn_bitCount st + 2\<rparr>
      in bindE (wn_flush safe st) (\<lambda>st. Inr (False, st)))"
    using s by (simp add: wn_zeros_def Let_def)
  note r24 = wn_24_run[OF w'(1), of ?a s safe, folded k_def, unfolded Let_def, simplified w'(2), OF w(2,3) as]
  show ?thesis
  proof (cases "wfit E ?g")
    case False
    then have "\<not> wfit E (fs @ zero_run k)"
      using wfit_mono[of E ?g "replicate (k mod 24 div 3) (3, 2) @ [(k mod 3, 2)]"] wfit_cong[OF e(2), of E]
      unfolding append.assoc by blast
    then show ?thesis using False r24 by (simp add: z k_def[symmetric])
  next
    case True
    obtain st1 where s1: "wn_24 safe s ?a ?st = Inr (s - k mod 24, st1)" "wst E ?g st1" "wn_bitCount st1 = wn_bitCount st" "wctl ?st st1"
      using r24 True by auto
    have sk: "s - (s - k mod 24) = k mod 24" "s - k mod 24 \<le> s"
      using mod_less_eq_dividend[of k 24] as unfolding k_def by linarith+
    have "k mod 24 div 3 \<le> 7" by (simp add: less_Suc_eq_le[symmetric] div_less_iff_less_mult)
    then obtain st2 where s2: "wn_3 s (s - k mod 24) st1 = (s - k mod 24 mod 3, st2)" "wst E ?h st2"
      "wn_bitCount st2 = wn_bitCount st + 2 * (k mod 24 div 3)" "wctl st1 st2"
      using wn_3_run[OF s1(2), of s "s - k mod 24"] s1(3) w(3) sk by auto
    have km: "k mod 24 mod 3 = k mod 3" by (simp add: mod_mod_cancel)
    have sk3: "s - (s - k mod 3) = k mod 3" using mod_less_eq_dividend[of k 3] as unfolding k_def by linarith
    define st3 where "st3 = (wn_add (k mod 3) st2)\<lparr>wn_bitCount := wn_bitCount st2 + 2\<rparr>"
    have b: "wn_bitCount st2 + 2 \<le> 32" using s2(3) w(3) \<open>k mod 24 div 3 \<le> 7\<close> by simp
    have "k mod 3 < 2 ^ 2" by (simp add: less_trans[of _ 3])
    then have "wst E (?h @ [(k mod 3, 2)]) st3" unfolding st3_def by (rule add_holds[OF s2(2) _ b])
    then have s3: "wst E (fs @ zero_run k) st3" by (rule wst_cong) (use e in simp_all)
    have "wctl ?st st3" using wctl_trans[OF s1(4) s2(4)] by (simp add: wctl_def st3_def wn_add_def)
    note f = flush_run[OF s3, of safe] 
    have zz: "wn_zeros safe norm st = bindE (wn_flush safe st3) (\<lambda>st. Inr (False, st))"
      unfolding z s1(1) by (simp add: s2(1) km sk3 st3_def Let_def)
    have "wrun safe E (fs @ zero_run k) st3 (wn_flush safe st3)"
      using b by (intro f) (simp_all add: st3_def)
    then show ?thesis unfolding zz k_def[symmetric] wrun_def Let_def
      using \<open>wctl ?st st3\<close> by (auto split: if_splits dest: wctl_trans)
  qed
qed

lemma rescale_hbit:
  assumes "1 \<le> r" "r < 2 * 2 ^ h"
  shows "wn_rescale (int r) (h + 1) (2 ^ h) = (hbit r + 1, 2 ^ hbit r)"
  using assms
proof (induction h)
  case 0
  then have "r = 1" by simp
  then show ?case by (simp add: wn_rescale.simps[of 1] hbit.simps)
next
  case (Suc h)
  show ?case
  proof (cases "r < 2 ^ Suc h")
    case True
    have "int r < int (2 ^ Suc h)" using True by (simp only: of_nat_less_iff)
    then have "wn_rescale (int r) (Suc h + 1) (2 ^ Suc h) = wn_rescale (int r) (h + 1) (2 ^ h)"
      by (subst wn_rescale.simps) simp
    then show ?thesis using Suc True by simp
  next
    case False
    then have "hbit r = Suc h" using Suc.prems by (intro hbit_unique) simp_all
    moreover have "\<not> int r < int (2 ^ Suc h)" using False by (simp only: of_nat_less_iff) simp
    ultimately show ?thesis by (subst wn_rescale.simps) simp
  qed
qed

lemma count_run:
  assumes w: "wst E fs st" "wn_ready r st" "2 \<le> r" "r \<le> 2 ^ 12 + 1"
    and s: "wn_symbol st < length norm" "-1 \<le> norm ! wn_symbol st" "ncount (norm ! wn_symbol st) \<le> r - 1"
  defines "c \<equiv> norm ! wn_symbol st"
  shows "let fs' = fs @ [count_code r c] in
    if wfit E fs' then \<exists>st'. wn_count safe norm st = Inr st' \<and> wst E fs' st' \<and> wn_ready (r - ncount c) st'
        \<and> wn_symbol st' = wn_symbol st + 1 \<and> wn_previousIs0 st' = (c = 0)
    else wn_count safe norm st = Inl (werr safe)"
proof -
  define h mx k v where "h = hbit r" and "mx = 2 * 2 ^ h - 1 - r" and "k = nat (c + 1)" and "v = (if k \<ge> 2 ^ h then k + mx else k)"
  have c: "-1 \<le> c" "ncount c \<le> r - 1" using s by (simp_all add: c_def)
  have rd: "1 \<le> wn_bitCount st" "wn_bitCount st \<le> 16" "wn_remaining st = int r" "wn_threshold st = 2 ^ h" "wn_nbBits st = h + 1"
    using w(2) by (simp_all add: wn_ready_def h_def)
  have hb: "2 ^ h \<le> r" "r < 2 * 2 ^ h" using hbit_bounds[of r] w(3) by (auto simp: h_def)
  have "(2::nat) ^ h < 2 ^ 13" using hb(1) w(4) by simp
  then have h12: "h < 13" by (rule power_less_imp_less_exp[rotated]) simp
  have h1: "1 \<le> h" using hb(2) w(3) by (cases h) auto
  have t: "2 \<le> (2::nat) ^ h" using h1 power_increasing[of 1 h "2::nat"] by simp
  have cc: "count_code r c = (v, if v < mx then h else h + 1)"
    by (simp add: count_code_def Let_def h_def mx_def k_def v_def)
  note b = count_code_bounds[OF w(3) c]
  have v: "v < 2 ^ snd (count_code r c)" using b(1) by (simp add: cc)
  have "v < 2 ^ 14" using v b(3) h12 by (elim less_le_trans) (intro power_increasing, auto simp: h_def[symmetric])
  have ik: "c + 1 = int k" using c(1) by (simp add: k_def)
  have imx: "2 * int (2 ^ h) - 1 - int r = int mx" using hb(2) by (simp add: mx_def of_nat_diff)
  have cnt: "(if c + 1 \<ge> int (2 ^ h) then c + 1 + int mx else c + 1) = int v"
    unfolding ik v_def by simp
  define r' where "r' = r - ncount c"
  have rem: "int r - (if c < 0 then - c else c) = int r'" "1 \<le> r'"
    using c w(3) by (auto simp: r'_def ncount_def split: if_splits)
  have "c = 0 \<longleftrightarrow> k = 1" using c(1) by (auto simp: k_def)
  then have z: "v = 1 \<longleftrightarrow> c = 0" using t unfolding v_def by auto
  let ?nb = "snd (count_code r c)"
  have nb: "wn_bitCount st + wn_nbBits st - (if int v < int mx then 1 else 0) = wn_bitCount st + ?nb" using rd(5) by (simp add: cc)
  define st1 where "st1 = (wn_add v st)\<lparr>wn_symbol := wn_symbol st + 1, wn_bitCount := wn_bitCount st + ?nb, wn_previousIs0 := (c = 0),
    wn_remaining := int r', wn_nbBits := hbit r' + 1, wn_threshold := 2 ^ hbit r'\<rparr>"
  have m32: "nat (int v mod 2 ^ 32) = v" using \<open>v < 2 ^ 14\<close> by simp
  have rs: "wn_rescale (int r') (h + 1) (2 ^ h) = (hbit r' + 1, 2 ^ hbit r')"
    using rem(2) hb(2) by (intro rescale_hbit) (auto simp: r'_def)
  have body: "wn_count safe norm st = wn_flush safe st1"
    unfolding wn_count_def Let_def c_def[symmetric] rd(3,4) cnt rem(1) m32 imx nb using rem(2) rs rd(5) z
    by (simp add: st1_def)
  have st1: "wst E (fs @ [count_code r c]) st1"
    using add_holds[OF w(1) v] b(3) h12 rd(2) by (simp add: st1_def wst_def cc h_def[symmetric] split: if_splits)
  have "wrun safe E (fs @ [count_code r c]) st1 (wn_flush safe st1)"
    using b(2,3) h12 rd(1,2) by (intro flush_run[OF st1]) (auto simp: st1_def h_def[symmetric])
  then show ?thesis unfolding body wrun_def Let_def
    unfolding r'_def[symmetric] by (auto simp: wctl_def st1_def wn_ready_def split: if_splits)
qed


text \<open>The state at the start of a round, and what is left to write.\<close>

definition wn_at :: "int list \<Rightarrow> nat \<Rightarrow> wn_state \<Rightarrow> bool" where
  "wn_at norm r st \<longleftrightarrow> wn_ready r st \<and> 1 \<le> r \<and> r \<le> 2 ^ 12 + 1 \<and> wn_symbol st \<le> length norm
     \<and> sum_list (map ncount (drop (wn_symbol st) norm)) = r - 1"

abbreviation pending :: "bool \<Rightarrow> nat option" where
  "pending z \<equiv> (if z then Some 0 else None)"

lemma sum_drop:
  "s < length norm \<Longrightarrow> sum_list (map ncount (drop s norm)) = ncount (norm ! s) + sum_list (map ncount (drop (s + 1) norm))"
  by (simp add: Cons_nth_drop_Suc[symmetric])

lemma sum_skip:
  assumes "s \<le> length norm"
  shows "sum_list (map ncount (drop s norm)) = sum_list (map ncount (drop (skip_zeros norm s) norm))"
  using assms
proof (induction "skip_zeros norm s - s" arbitrary: s)
  case 0
  then show ?case using skip_zeros_spec[of s norm] by simp
next
  case (Suc d)
  then have s: "s < skip_zeros norm s" by linarith
  then have z: "norm ! s = 0" "s < length norm" using skip_zeros_spec[of s norm] Suc.prems by auto
  have e: "skip_zeros norm (s + 1) = skip_zeros norm s" using z by (simp add: skip_zeros.simps[of norm s])
  have "sum_list (map ncount (drop (s + 1) norm)) = sum_list (map ncount (drop (skip_zeros norm s) norm))"
    using Suc.hyps(1)[of "s + 1"] Suc.hyps(2) z(2) unfolding e by simp
  then show ?case using sum_drop[OF z(2)] z(1) by (simp add: ncount_def)
qed

text \<open>One round: the zeros that are pending, and a count.\<close>

definition round_symbol :: "int list \<Rightarrow> bool \<Rightarrow> nat \<Rightarrow> nat" where
  "round_symbol norm z a = (if z then skip_zeros norm a else a)"

definition round_fields :: "int list \<Rightarrow> bool \<Rightarrow> nat \<Rightarrow> nat \<Rightarrow> (nat \<times> nat) list" where
  "round_fields norm z r a = (let s = round_symbol norm z a in (if z then zero_run (s - a) else []) @ [count_code r (norm ! s)])"

lemma round_spec:
  fixes z :: bool
  assumes w: "sum_list (map ncount (drop a norm)) = r - 1" "1 < r" "\<forall>c\<in>set norm. -1 \<le> c" "a \<le> length norm"
  defines "s \<equiv> round_symbol norm z a"
  shows "s < length norm" "a \<le> s" "-1 \<le> norm ! s" "ncount (norm ! s) \<le> r - 1" "z \<Longrightarrow> norm ! s \<noteq> 0" "\<forall>i. a \<le> i \<and> i < s \<longrightarrow> norm ! i = 0"
    "sum_list (map ncount (drop (s + 1) norm)) = r - ncount (norm ! s) - 1"
    "nc_fields r (pending z) (drop a norm)
       = round_fields norm z r a @ nc_fields (r - ncount (norm ! s)) (pending (norm ! s = 0)) (drop (s + 1) norm)"
proof -
  note sk = skip_zeros_spec[of a norm]
  have sum: "sum_list (map ncount (drop s norm)) = r - 1" using w(1,4) sum_skip[of a norm] by (auto simp: s_def round_symbol_def)
  show sl: "s < length norm"
  proof (rule ccontr)
    assume "\<not> s < length norm"
    then show False using sum w(2) by simp
  qed
  show "a \<le> s" "z \<Longrightarrow> norm ! s \<noteq> 0" "\<forall>i. a \<le> i \<and> i < s \<longrightarrow> norm ! i = 0" using sk w(4) sl by (auto simp: s_def round_symbol_def split: if_splits)
  show "-1 \<le> norm ! s" using w(3) sl by simp
  show "ncount (norm ! s) \<le> r - 1" "sum_list (map ncount (drop (s + 1) norm)) = r - ncount (norm ! s) - 1"
    using sum sum_drop[OF sl] by simp_all
  show "nc_fields r (pending z) (drop a norm)
      = round_fields norm z r a @ nc_fields (r - ncount (norm ! s)) (pending (norm ! s = 0)) (drop (s + 1) norm)"
    using fields_zeros[OF w(2), of a norm 0] fields_none[OF w(2) sl] w(4) sl
    by (auto simp: round_fields_def s_def round_symbol_def Let_def)
qed

lemma body_run:
  assumes w: "wst E fs st" "wn_at norm r st" "1 < r" "\<forall>c\<in>set norm. -1 \<le> c" "wn_symbol st < length norm"
  defines "s \<equiv> round_symbol norm (wn_previousIs0 st) (wn_symbol st)" and "gs \<equiv> round_fields norm (wn_previousIs0 st) r (wn_symbol st)"
  shows "if wfit E (fs @ gs)
     then \<exists>st'. wn_body safe norm st = Inr (False, st') \<and> wst E (fs @ gs) st' \<and> wn_at norm (r - ncount (norm ! s)) st'
       \<and> wn_symbol st' = s + 1 \<and> wn_previousIs0 st' = (norm ! s = 0)
     else wn_body safe norm st = Inl (werr safe)"
proof -
  let ?a = "wn_symbol st" and ?z = "wn_previousIs0 st"
  have at: "wn_ready r st" "r \<le> 2 ^ 12 + 1" "sum_list (map ncount (drop ?a norm)) = r - 1" using w(2) by (simp_all add: wn_at_def)
  note rs = round_spec[OF at(3) w(3,4), of ?z, folded s_def]
  have sl: "s < length norm" by (rule rs(1)) (use w(5) in simp)
  define c where "c = norm ! s"
  have c: "-1 \<le> c" "ncount c \<le> r - 1" "sum_list (map ncount (drop (s + 1) norm)) = r - ncount c - 1"
    using rs w(5) by (simp_all add: c_def)
  have cnt: "let fs' = fs1 @ [count_code r c] in
    if wfit E fs' then \<exists>st'. wn_count safe norm st1 = Inr st' \<and> wst E fs' st' \<and> wn_ready (r - ncount c) st'
        \<and> wn_symbol st' = s + 1 \<and> wn_previousIs0 st' = (c = 0)
    else wn_count safe norm st1 = Inl (werr safe)"
    if "wst E fs1 st1" "wn_ready r st1" "wn_symbol st1 = s" for fs1 st1
    by (rule count_run[OF that(1,2) _ at(2), of norm safe, unfolded that(3), folded c_def]) (use w(3) sl c in auto)
  have at': "wn_at norm (r - ncount c) st'" if "wn_ready (r - ncount c) st'" "wn_symbol st' = s + 1" for st'
  proof -
    have "1 \<le> r - ncount c" "r - ncount c \<le> 2 ^ 12 + 1" using c(2) w(3) at(2) by linarith+
    then show ?thesis using that c sl by (simp add: wn_at_def)
  qed
  show "if wfit E (fs @ gs)
     then \<exists>st'. wn_body safe norm st = Inr (False, st') \<and> wst E (fs @ gs) st' \<and> wn_at norm (r - ncount (norm ! s)) st'
       \<and> wn_symbol st' = s + 1 \<and> wn_previousIs0 st' = (norm ! s = 0)
     else wn_body safe norm st = Inl (werr safe)"
  proof (cases ?z)
    case False
    then have s: "s = ?a" by (simp add: s_def round_symbol_def)
    have g: "fs @ gs = fs @ [count_code r c]" using False by (simp add: gs_def c_def round_fields_def s_def Let_def)
    from cnt[OF w(1) at(1)] s at' show ?thesis unfolding g c_def[symmetric] wn_body_def using False
      by (auto simp: Let_def split: if_splits)
  next
    case True
    then have s: "skip_zeros norm ?a = s" by (simp add: s_def round_symbol_def)
    let ?f = "fs @ zero_run (s - ?a)"
    have g: "fs @ gs = ?f @ [count_code r c]" using True by (simp add: gs_def c_def round_fields_def s_def Let_def)
    have b: "1 \<le> wn_bitCount st" "wn_bitCount st \<le> 16" using at(1) by (simp_all add: wn_ready_def)
    note zr = zeros_run[OF w(1) b _ s sl, of safe, unfolded Let_def]
    show ?thesis
    proof (cases "wfit E ?f")
      case False
      then have "wn_zeros safe norm st = Inl (werr safe)" "\<not> wfit E (fs @ gs)" using zr w(5) wfit_mono[of E ?f] unfolding g by auto
      then show ?thesis using True by (simp add: wn_body_def)
    next
      case fit: True
      then obtain st1 where s1: "wn_zeros safe norm st = Inr (False, st1)" "wst E ?f st1" "1 \<le> wn_bitCount st1" "wn_bitCount st1 \<le> 16"
        "wctl (st\<lparr>wn_symbol := s\<rparr>) st1" using zr w(5) by auto
      have "wn_ready r st1" "wn_symbol st1 = s" using s1(3-5) at(1) by (simp_all add: wn_ready_def wctl_def)
      from cnt[OF s1(2) this] at' show ?thesis unfolding g c_def[symmetric] wn_body_def using True s1(1)
        by (auto simp: Let_def split: if_splits)
    qed
  qed
qed

lemma fields_done: "r \<le> 1 \<Longrightarrow> nc_fields r z cs = []"
  by (cases cs) auto

lemma loop_run:
  assumes "wst E fs st" "wn_at norm r st" "\<forall>c\<in>set norm. -1 \<le> c" "length norm - wn_symbol st \<le> rounds"
    and "gs = nc_fields r (pending (wn_previousIs0 st)) (drop (wn_symbol st) norm)"
  shows "if wfit E (fs @ gs)
    then \<exists>st'. wn_loop rounds safe norm st = Inr st' \<and> wst E (fs @ gs) st' \<and> wn_remaining st' = 1 \<and> 1 \<le> wn_bitCount st' \<and> wn_bitCount st' \<le> 16
    else wn_loop rounds safe norm st = Inl (werr safe)"
  using assms
proof (induction rounds arbitrary: st fs r gs)
  case (Suc rounds)
  let ?a = "wn_symbol st" and ?z = "wn_previousIs0 st"
  have at: "wn_ready r st" "1 \<le> r" "sum_list (map ncount (drop ?a norm)) = r - 1" using Suc.prems(2) by (simp_all add: wn_at_def)
  show ?case
  proof (cases "?a < length norm \<and> 1 < r")
    case False
    then have r1: "r = 1" using at by auto
    then have g: "gs = []" using Suc.prems(5) fields_done by simp
    have f: "wfit E fs" using flush_run[OF Suc.prems(1), of safe] at(1) Suc.prems(1)
      by (auto simp: wrun_def wn_ready_def wn_flush_def split: if_splits)
    then show ?thesis using g Suc.prems(1) r1 at(1) by (simp add: wn_ready_def)
  next
    case True
    define s hs where "s = round_symbol norm ?z ?a" and "hs = round_fields norm ?z r ?a"
    define r' gs' where "r' = r - ncount (norm ! s)" and "gs' = nc_fields r' (pending (norm ! s = 0)) (drop (s + 1) norm)"
    note rs = round_spec[OF at(3) _ Suc.prems(3), of ?z, folded s_def]
    have b: "if wfit E (fs @ hs)
      then \<exists>st'. wn_body safe norm st = Inr (False, st') \<and> wst E (fs @ hs) st' \<and> wn_at norm r' st'
        \<and> wn_symbol st' = s + 1 \<and> wn_previousIs0 st' = (norm ! s = 0)
      else wn_body safe norm st = Inl (werr safe)"
      unfolding s_def hs_def r'_def by (rule body_run[OF Suc.prems(1,2) _ Suc.prems(3)]) (use True in auto)
    have sl: "?a \<le> s" using rs(2) True by simp
    have g: "gs = hs @ gs'" unfolding Suc.prems(5) gs'_def r'_def hs_def s_def
      by (rule round_spec(8)[OF at(3) _ Suc.prems(3)]) (use True in auto)
    have step: "wn_loop (Suc rounds) safe norm st = bindE (wn_body safe norm st) (\<lambda>(brk, st). if brk then Inr st else wn_loop rounds safe norm st)"
      using True at(1) by (simp add: wn_ready_def)
    show ?thesis
    proof (cases "wfit E (fs @ hs)")
      case False
      then have "wn_body safe norm st = Inl (werr safe)" using b by auto
      moreover have "\<not> wfit E (fs @ gs)" using False wfit_mono[of E "fs @ hs" gs'] by (auto simp: g)
      ultimately show ?thesis using step by simp
    next
      case fit: True
      then obtain st' where st': "wn_body safe norm st = Inr (False, st')" "wst E (fs @ hs) st'" "wn_at norm r' st'" "wn_symbol st' = s + 1"
        "wn_previousIs0 st' = (norm ! s = 0)" using b by auto
      have "gs' = nc_fields r' (pending (wn_previousIs0 st')) (drop (wn_symbol st') norm)" by (simp add: gs'_def st'(4,5))
      note IH = Suc.IH[OF st'(2,3) Suc.prems(3) _ this]
      have "length norm - wn_symbol st' \<le> rounds" using Suc.prems(4) st'(4) sl by simp
      from IH[OF this] show ?thesis unfolding step st'(1) g append.assoc bindE.simps prod.case if_False .
    qed
  qed
next
  case 0
  have "wn_symbol st = length norm" using 0(2,4) by (simp add: wn_at_def)
  then have r1: "r = 1" "gs = []" using 0(2,5) by (auto simp: wn_at_def)
  have b: "1 \<le> wn_bitCount st" "wn_bitCount st \<le> 16" "wn_remaining st = 1" using 0(2) r1 by (simp_all add: wn_at_def wn_ready_def)
  then have "wfit E fs" using flush_run[OF 0(1), of safe] 0(1) by (auto simp: wrun_def wn_flush_def split: if_splits)
  then show ?case using r1 0(1) b by simp
qed


text \<open>
  The writer, as a function of the format: it succeeds exactly if the last two bytes it writes fit, and
  then the bytes of its size are those of the fields.
\<close>

lemma normalized_range: "normalized tableLog norm \<Longrightarrow> 5 \<le> tableLog \<and> tableLog \<le> 12 \<and> (\<forall>c\<in>set norm. -1 \<le> c) \<and> sum_list (map ncount norm) = 2 ^ tableLog"
  by (simp add: normalized_def)

lemma generic_writes:
  assumes n: "normalized tableLog norm"
  defines "fs \<equiv> nc_format tableLog norm"
  shows "if 2 * ((flen fs - 1) div 16) + 2 \<le> length header
    then \<exists>mem. FSE_writeNCount_generic header norm tableLog safe = Inr ((flen fs + 7) div 8, mem) \<and> length mem = length header
      \<and> take ((flen fs + 7) div 8) mem = le_bytes ((flen fs + 7) div 8) (fval fs)
    else FSE_writeNCount_generic header norm tableLog safe = Inl (werr safe)"
proof -
  let ?E = "length header"
  note nb = normalized_range[OF n]
  define st0 where "st0 = \<lparr>wn_mem = header, wn_out = 0, wn_bitStream = tableLog - 5, wn_bitCount = 4, wn_symbol = 0,
          wn_nbBits = tableLog + 1, wn_remaining = 2 ^ tableLog + 1, wn_threshold = 2 ^ tableLog, wn_previousIs0 = False\<rparr>"
  define gs where "gs = nc_fields (2 ^ tableLog + 1) None norm"
  have fs: "fs = [(tableLog - 5, 4)] @ gs" by (simp add: fs_def nc_format_def gs_def)
  have "tableLog - 5 < 16" using nb by linarith
  then have w0: "wst ?E [(tableLog - 5, 4)] st0" by (simp add: wst_def st0_def)
  have "2 \<le> (2::nat) ^ tableLog" using nb power_increasing[of 1 tableLog "2::nat"] by simp
  then have hb: "hbit (2 ^ tableLog + 1) = tableLog" by (intro hbit_unique) simp_all
  have "(2::nat) ^ tableLog \<le> 2 ^ 12" using nb by (intro power_increasing) auto
  then have at: "wn_at norm (2 ^ tableLog + 1) st0" using nb hb by (simp add: wn_at_def wn_ready_def st0_def)
  note lr = loop_run[OF w0 at, of "length norm" gs safe, folded fs]
  have pre: "\<forall>c\<in>set norm. -1 \<le> c" "length norm - wn_symbol st0 \<le> length norm" "gs = nc_fields (2 ^ tableLog + 1) (pending (wn_previousIs0 st0)) (drop (wn_symbol st0) norm)"
    using nb by (simp_all add: st0_def gs_def)
  note lr = lr[OF pre]
  have body: "FSE_writeNCount_generic header norm tableLog safe = bindE (wn_loop (length norm) safe norm st0) (\<lambda>st.
       if wn_remaining st \<noteq> 1 then Inl (Code ZSTD_error_GENERIC)
       else bindE (wn_put safe st) (\<lambda>st. Inr (wn_out st + (wn_bitCount st + 7) div 8, wn_mem st)))"
    by (simp add: FSE_writeNCount_generic_def st0_def FSE_MIN_TABLELOG_def)
  show ?thesis
  proof (cases "wfit ?E fs")
    case False
    then have "\<not> 2 * ((flen fs - 1) div 16) + 2 \<le> ?E" by (simp add: wfit_def)
    then show ?thesis using lr False unfolding body by simp
  next
    case True
    obtain st where st: "wn_loop (length norm) safe norm st0 = Inr st" "wst ?E fs st" "wn_remaining st = 1" "1 \<le> wn_bitCount st" "wn_bitCount st \<le> 16"
      using lr True by auto
    let ?o = "wn_out st" and ?n = "wn_bitCount st" and ?b = "wn_bitStream st"
    have w: "length (wn_mem st) = ?E" "even ?o" "?o \<le> ?E" "?b < 2 ^ ?n"
      "le_val (take ?o (wn_mem st)) + 2 ^ (8 * ?o) * ?b = fval fs" "8 * ?o + ?n = flen fs"
      using st(2) by (simp_all add: wst_def)
    obtain k where k: "?o = 2 * k" using w(2) by (elim evenE)
    have l: "flen fs - 1 = 16 * k + (?n - 1)" using w(6) st(4) k by simp
    have q: "2 * ((flen fs - 1) div 16) = ?o" using div16[OF _ l] st(4,5) k by simp
    have b: "FSE_writeNCount_generic header norm tableLog safe = bindE (wn_put safe st) (\<lambda>st. Inr (wn_out st + (wn_bitCount st + 7) div 8, wn_mem st))"
      unfolding body st(1) using st(3) by simp
    show ?thesis
    proof (cases "?o + 2 \<le> ?E")
      case False
      then show ?thesis unfolding q b put_spec w(1) by simp
    next
      case fit: True
      define mem where "mem = write_at (wn_mem st) ?o [of_nat ?b, of_nat (?b div 2 ^ 8)]"
      define n where "n = (?n + 7) div 8"
      have n: "1 \<le> n" "n \<le> 2" "?n \<le> 8 * n" using st(4,5) unfolding n_def by linarith+
      have sz: "(flen fs + 7) div 8 = ?o + n" unfolding w(6)[symmetric] n_def by linarith
      have lm: "length mem = ?E" using fit w(1) by (simp add: mem_def write_at_def)
      have t: "take (?o + n) mem = take ?o (wn_mem st) @ take n [of_nat ?b, of_nat (?b div 2 ^ 8)]"
      proof -
        have "n = 1 \<or> n = 2" using n by linarith
        then show ?thesis using fit w(1) by (elim disjE) (simp_all add: mem_def write_at_def min_def)
      qed
      have bn: "?b < 256 ^ n" using w(4) n(3) by (metis less_le_trans nat_power_eq_Suc_0_iff pow256 power_increasing one_le_numeral)
      have "le_val (take n [of_nat ?b, of_nat (?b div 2 ^ 8)]) = ?b"
      proof (cases "n = 1")
        case True
        then show ?thesis using bn by (simp add: unat_of_nat)
      next
        case False
        then have "n = 2" using n by simp
        then show ?thesis using two_bytes[of ?b] bn by simp
      qed
      then have "le_val (take (?o + n) mem) = fval fs"
        unfolding t le_val_append using w(1,3,5) by (simp add: pow256 min_absorb2)
      moreover have "length (take (?o + n) mem) = ?o + n" using fit lm n(2) by simp
      ultimately have "take (?o + n) mem = le_bytes (?o + n) (fval fs)" by (metis le_bytes_le_val)
      then show ?thesis using fit lm unfolding q b put_spec w(1) sz mem_def[symmetric] by (simp add: n_def)
    qed
  qed
qed

end
