(* ===== verification/Zstd_NCountRoundtrip.thy ===== *)
theory Zstd_NCountRoundtrip
  imports Zstd_WriteNCount
begin

section \<open>Table descriptions are read back\<close>

text \<open>
  What \<^verbatim>\<open>FSE_writeNCount\<close> writes for a normalized distribution is read back by
  \<^verbatim>\<open>FSE_readNCount\<close>, with the same size.  The bound under which it writes without checks,
  \<^verbatim>\<open>FSE_NCountWriteBound\<close>, is one byte too small for some distributions;
  \<^verbatim>\<open>FSE_NCOUNTBOUND\<close> bytes are enough for all.
\<close>

subsection \<open>The reader reads the format\<close>

text \<open>
  The reader at bit \<open>p\<close> of the source: the register holds the next 25 bits at least, or all that are
  left.
\<close>

definition nc_at :: "buffer \<Rightarrow> nat \<Rightarrow> nc_state \<Rightarrow> bool" where
  "nc_at hb p st \<longleftrightarrow> nc_ip st + 4 \<le> length hb \<and> 8 * nc_ip st + nc_bitCount st = p
     \<and> nc_bitStream st = drop_bit (nc_bitCount st) (MEM_readLE32 LittleEndian hb (nc_ip st))
     \<and> (nc_bitCount st \<le> 7 \<or> nc_ip st + 4 = length hb) \<and> nc_bitCount st \<le> 31"

lemma le_val_window:
  assumes "ip + 4 \<le> length hb"
  shows "unat (MEM_readLE32 LittleEndian hb ip) = le_val hb div 2 ^ (8 * ip) mod 2 ^ 32"
    "ip + 4 = length hb \<Longrightarrow> le_val hb div 2 ^ (8 * ip) < 2 ^ 32"
proof -
  have e: "hb = take ip hb @ bytes_at hb ip 4 @ drop (ip + 4) hb"
    by (metis append_take_drop_id bytes_at_def drop_drop add.commute)
  have l: "length (take ip hb) = ip" "length (bytes_at hb ip 4) = 4" using assms by (simp_all add: bytes_at_def)
  have "le_val hb = le_val (take ip hb) + 256 ^ ip * (le_val (bytes_at hb ip 4) + 256 ^ 4 * le_val (drop (ip + 4) hb))"
    using l by (subst e) (simp only: le_val_append)
  moreover have "le_val (take ip hb) < 256 ^ ip" using le_val_less[of "take ip hb"] l by simp
  ultimately have d: "le_val hb div 2 ^ (8 * ip) = le_val (bytes_at hb ip 4) + 2 ^ 32 * le_val (drop (ip + 4) hb)"
    by (simp add: pow256)
  have b: "le_val (bytes_at hb ip 4) < 2 ^ 32" using le_val_less[of "bytes_at hb ip 4"] l by simp
  show "unat (MEM_readLE32 LittleEndian hb ip) = le_val hb div 2 ^ (8 * ip) mod 2 ^ 32"
    using assms b by (simp add: readLE32_eq unat_of_nat d)
  show "ip + 4 = length hb \<Longrightarrow> le_val hb div 2 ^ (8 * ip) < 2 ^ 32" using b by (simp add: d)
qed

lemma nc_at_bits:
  assumes "nc_at hb p st" "k \<le> 25"
  shows "unat (nc_bitStream st) mod 2 ^ k = le_val hb div 2 ^ p mod 2 ^ k"
proof -
  let ?i = "nc_ip st" and ?b = "nc_bitCount st"
  define V where "V = le_val hb div 2 ^ (8 * ?i)"
  have a: "?i + 4 \<le> length hb" "p = 8 * ?i + ?b" "?b \<le> 7 \<or> ?i + 4 = length hb" "?b \<le> 31" using assms(1) by (auto simp: nc_at_def)
  have u: "unat (nc_bitStream st) = V mod 2 ^ 32 div 2 ^ ?b"
    using assms(1) le_val_window(1)[OF a(1)] by (simp add: nc_at_def unat_drop_bit_div V_def)
  have p: "le_val hb div 2 ^ p = V div 2 ^ ?b" by (simp add: a(2) V_def power_add div_mult2_eq)
  show ?thesis
  proof (cases "?b \<le> 7")
    case True
    have "V mod 2 ^ 32 div 2 ^ ?b = V div 2 ^ ?b mod 2 ^ (32 - ?b)"
    proof -
      have "(2::nat) ^ 32 = 2 ^ ?b * 2 ^ (32 - ?b)" using True by (simp add: power_add[symmetric])
      then have "V mod 2 ^ 32 = 2 ^ ?b * (V div 2 ^ ?b mod 2 ^ (32 - ?b)) + V mod 2 ^ ?b" by (simp only: mod_mult2_eq)
      then show ?thesis by simp
    qed
    moreover have "(2::nat) ^ k dvd 2 ^ (32 - ?b)" using True assms(2) by (intro le_imp_power_dvd) simp
    ultimately show ?thesis unfolding u p by (simp add: mod_mod_cancel)
  next
    case False
    then have "V < 2 ^ 32" using a le_val_window(2)[OF a(1)] by (simp add: V_def)
    then show ?thesis unfolding u p by simp
  qed
qed

text \<open>Advancing keeps the position as long as bits are left.\<close>

lemma nc_advance_at:
  assumes "nc_ip st + 4 \<le> length hb" "8 * nc_ip st + nc_bitCount st = p" "p < 8 * length hb"
    "nc_ip st + 7 \<le> length hb \<Longrightarrow> nc_bitCount st \<le> 31"
  shows "nc_at hb p (nc_advance hb st)"
proof (cases "nc_ip st + 7 \<le> length hb \<or> nc_ip st + nc_bitCount st div 8 + 4 \<le> length hb")
  case True
  have d: "nc_bitCount st = 8 * (nc_bitCount st div 8) + nc_bitCount st mod 8" by simp
  have "nc_bitCount st div 8 \<le> 3" if "nc_bitCount st \<le> 31" using that by linarith
  then have "nc_ip st + nc_bitCount st div 8 + 4 \<le> length hb" using True assms(4) by fastforce
  moreover have "nc_bitCount st mod 8 \<le> 7" by linarith
  ultimately show ?thesis using True assms(2) d unfolding nc_at_def nc_advance_def nc_reload_def Let_def by simp
next
  case False
  let ?e = "int (nc_bitCount st) - 8 * (int (length hb) - 4 - int (nc_ip st))"
  have n1: "8 * length hb \<le> 8 * nc_ip st + nc_bitCount st + 32" using False by linarith
  have n2: "8 * nc_ip st + nc_bitCount st < 8 * length hb" using assms(2,3) by simp
  define x where "x = p - 8 * (length hb - 4)"
  have x: "8 * (length hb - 4) + x = p" "x \<le> 31" "length hb - 4 + 4 = length hb" using n1 n2 assms(1,2) unfolding x_def by linarith+
  obtain L where L: "length hb = L + 4" using assms(1) by (metis add.commute le_Suc_ex add_leD2)
  have "?e = int x" using x(1) assms(2) unfolding L by simp
  then have m: "nat (?e mod 32) = x" using x(2) by simp
  show ?thesis using False x unfolding nc_at_def nc_advance_def nc_reload_def Let_def m by simp
qed

lemma nc_skip_at:
  assumes "nc_at hb p st" "p + 24 < 8 * length hb"
  shows "nc_at hb (p + 24) (nc_skip hb st)"
proof (cases "nc_ip st + 7 \<le> length hb")
  case True
  then show ?thesis using assms(1) unfolding nc_at_def nc_skip_def nc_reload_def Let_def by auto
next
  case False
  let ?e = "int (nc_bitCount st) - 8 * (int (length hb) - 7 - int (nc_ip st))"
  have a: "nc_ip st + 4 \<le> length hb" "8 * nc_ip st + nc_bitCount st = p" using assms(1) by (auto simp: nc_at_def)
  define x where "x = p + 24 - 8 * (length hb - 4)"
  have x: "8 * (length hb - 4) + x = p + 24" "x \<le> 31" "length hb - 4 + 4 = length hb" using False a assms(2) unfolding x_def by linarith+
  obtain L where L: "length hb = L + 4" using a(1) by (metis add.commute le_Suc_ex add_leD2)
  have "?e = int x" using x(1) a(2) unfolding L by simp
  then have m: "nat (?e mod 32) = x" using x(2) by simp
  have f: "nc_ip (nc_skip hb st) = length hb - 4" "nc_bitCount (nc_skip hb st) = x"
    by (simp_all only: nc_skip_fields False if_False m)
  have "nc_bitStream (nc_skip hb st) = drop_bit (nc_bitCount (nc_skip hb st)) (MEM_readLE32 LittleEndian hb (nc_ip (nc_skip hb st)))"
    by (simp add: nc_skip_def Let_def nc_reload_def)
  then show ?thesis using x unfolding nc_at_def f by simp
qed


text \<open>A repeat code is the number of pairs of ones below the first other pair.\<close>

lemma bit_of_mod: "unat (w :: U32) mod 2 ^ k = v \<Longrightarrow> i < k \<Longrightarrow> bit w i \<longleftrightarrow> bit v i"
  by (auto simp: bit_simps take_bit_eq_mod[symmetric] dest: bit_imp_le_length)

definition ones_then :: "nat \<Rightarrow> nat \<Rightarrow> nat" where
  "ones_then q m = (2 ^ (2 * q) - 1) + 2 ^ (2 * q) * m"

lemma flen_threes: "flen (replicate q (3, 2)) = 2 * q"
  by (induction q) simp_all

lemma fval_threes: "fval (replicate q (3, 2)) = ones_then q 0"
proof (induction q)
  case (Suc q)
  have "(2::nat) ^ (2 * Suc q) = 4 * 2 ^ (2 * q)" "1 \<le> (2::nat) ^ (2 * q)" by simp_all
  moreover have "3 + 4 * (x - 1) = 4 * x - (1::nat)" if "1 \<le> x" for x using that by linarith
  ultimately show ?case using Suc by (simp add: ones_then_def)
qed (simp add: ones_then_def)

lemma fval_zero_run: "m < 3 \<Longrightarrow> fval (replicate q (3, 2) @ [(m, 2)]) = ones_then q m" "flen (replicate q (3, 2) @ [(m, 2)]) = 2 * q + 2"
  by (simp_all add: fval_append fval_threes flen_threes) (simp add: ones_then_def)

lemma ones_then_bits: "i < 2 * q \<Longrightarrow> bit (ones_then q m) i" "ones_then q m div 2 ^ (2 * q) = m"
proof -
  have e: "ones_then q m = mask (2 * q) OR push_bit (2 * q) m"
  proof -
    have "mask (2 * q) + push_bit (2 * q) m = mask (2 * q) OR push_bit (2 * q) m"
      by (rule disjunctive_add) (auto simp: bit_simps)
    then show ?thesis by (simp add: ones_then_def mask_eq_exp_minus_1 push_bit_eq_mult mult.commute)
  qed
  show "i < 2 * q \<Longrightarrow> bit (ones_then q m) i" by (simp add: e bit_simps)
  have "2 ^ (2 * q) - 1 < (2::nat) ^ (2 * q)" by simp
  then show "ones_then q m div 2 ^ (2 * q) = m" using div_mult_self2[of "2 ^ (2 * q)" "2 ^ (2 * q) - 1" m] unfolding ones_then_def by simp
qed

lemma not_top_bit: "i < 31 \<Longrightarrow> bit (NOT bs OR 0x80000000 :: U32) i \<longleftrightarrow> \<not> bit bs i"
  using bit_exp_iff[of 31 i, where 'a = "32 word"] by (simp add: bit_or_iff bit_not_iff)

lemma repeatCode_small:
  assumes "unat bs mod 2 ^ (2 * q + 2) = ones_then q m" "m < 3" "q < 12"
  shows "nc_repeatCode bs = q" "unat (drop_bit (2 * q) bs AND 3) = m"
proof -
  have d: "unat bs div 2 ^ (2 * q) mod 4 = m"
  proof -
    have "unat bs mod (2 ^ (2 * q) * 4) = 2 ^ (2 * q) * (unat bs div 2 ^ (2 * q) mod 4) + unat bs mod 2 ^ (2 * q)" by (rule mod_mult2_eq)
    moreover have "(2::nat) ^ (2 * q + 2) = 2 ^ (2 * q) * 4" by (simp add: power_add)
    moreover have "(2 ^ (2 * q) * x + unat bs mod 2 ^ (2 * q)) div 2 ^ (2 * q) = x" for x by simp
    ultimately have "unat bs mod 2 ^ (2 * q + 2) div 2 ^ (2 * q) = unat bs div 2 ^ (2 * q) mod 4" by (simp only:)
    then show ?thesis using assms(1) ones_then_bits(2)[of q m] by simp
  qed
  then show "unat (drop_bit (2 * q) bs AND 3) = m"
    using unat_and_mask[of "drop_bit (2 * q) bs" 2] by (simp add: unat_drop_bit_div mask_eq_exp_minus_1)
  let ?w = "NOT bs OR 0x80000000 :: U32"
  have low: "bit bs i" if "i < 2 * q" for i using bit_of_mod[OF assms(1), of i] ones_then_bits(1)[OF that] that by simp
  have b: "bit bs (2 * q) \<longleftrightarrow> odd m" "bit bs (2 * q + 1) \<longleftrightarrow> odd (m div 2)"
  proof -
    have m: "bit bs (2 * q + j) \<longleftrightarrow> bit m j" if "j < 2" for j
    proof -
      have "bit bs (2 * q + j) \<longleftrightarrow> bit (unat (drop_bit (2 * q) bs)) j" by (auto simp: bit_simps dest: bit_imp_le_length)
      also have "\<dots> \<longleftrightarrow> bit (unat bs div 2 ^ (2 * q) mod 2 ^ 2) j" using that bit_take_bit_iff[of 2 "unat bs div 2 ^ (2 * q)" j]
        by (simp add: unat_drop_bit_div take_bit_eq_mod)
      finally show ?thesis using d by simp
    qed
    show "bit bs (2 * q) \<longleftrightarrow> odd m" "bit bs (2 * q + 1) \<longleftrightarrow> odd (m div 2)" using m[of 0] m[of 1] by (simp_all add: bit_0 bit_1_iff bit_iff_odd)
  qed
  have "builtin_ctz ?w div 2 = q"
  proof (cases "odd m")
    case False
    have "builtin_ctz ?w = 2 * q" by (rule ctz_unique) (use False b low assms(3) in \<open>simp_all add: not_top_bit\<close>)
    then show ?thesis by simp
  next
    case True
    then have "m = 1" using assms(2) by presburger
    then have "\<not> bit bs (2 * q + 1)" using b by simp
    moreover have "bit bs i" if "i < 2 * q + 1" for i using low[of i] that b True by (cases "i = 2 * q") auto
    ultimately have "builtin_ctz ?w = 2 * q + 1" by (intro ctz_unique) (use assms(3) in \<open>simp_all add: not_top_bit\<close>)
    then show ?thesis by simp
  qed
  then show "nc_repeatCode bs = q" by (simp add: nc_repeatCode_def ZSTD_countTrailingZeros32_def)
qed

lemma repeatCode_large:
  assumes "unat bs mod 2 ^ 24 = ones_then 12 m mod 2 ^ 24"
  shows "12 \<le> nc_repeatCode bs"
proof -
  have low: "bit bs i" if "i < 24" for i using bit_of_mod[OF assms, of i] ones_then_bits(1)[of i 12 m] that
    unfolding take_bit_eq_mod[symmetric] by (simp add: bit_take_bit_iff)
  let ?w = "NOT bs OR 0x80000000 :: U32"
  have "bit ?w 31" by (simp add: bit_simps)
  then obtain k where k: "bit ?w k" "builtin_ctz ?w = k" by (metis bit.conj_zero_right lowbitE bit_0_eq bot_apply)
  have "\<not> k < 24" using k(1) low[of k] not_top_bit[of k bs] by linarith
  then show ?thesis using k(2) by (simp add: nc_repeatCode_def ZSTD_countTrailingZeros32_def)
qed

text \<open>Fields at a position of the source.\<close>

definition at_fields :: "nat \<Rightarrow> nat \<Rightarrow> (nat \<times> nat) list \<Rightarrow> bool" where
  "at_fields V p fs \<longleftrightarrow> V div 2 ^ p mod 2 ^ flen fs = fval fs"

lemma at_fields_append: "at_fields V p (fs @ gs) \<longleftrightarrow> at_fields V p fs \<and> at_fields V (p + flen fs) gs"
proof -
  let ?X = "V div 2 ^ p" and ?a = "flen fs" and ?b = "flen gs"
  have x: "?X mod 2 ^ (?a + ?b) = 2 ^ ?a * (?X div 2 ^ ?a mod 2 ^ ?b) + ?X mod 2 ^ ?a" by (simp only: power_add mod_mult2_eq)
  have d: "V div 2 ^ (p + ?a) = ?X div 2 ^ ?a" by (simp add: power_add div_mult2_eq)
  have b: "fval fs < 2 ^ ?a" by (rule fval_bound)
  have u: "2 ^ ?a * y + z = fval fs + 2 ^ ?a * fval gs \<longleftrightarrow> z = fval fs \<and> y = fval gs" if "z < 2 ^ ?a" for y z
  proof
    assume e: "2 ^ ?a * y + z = fval fs + 2 ^ ?a * fval gs"
    have "(2 ^ ?a * y + z) mod 2 ^ ?a = z" "(2 ^ ?a * y + z) div 2 ^ ?a = y" using that by simp_all
    then show "z = fval fs \<and> y = fval gs" using b unfolding e by simp
  qed simp
  show ?thesis unfolding at_fields_def flen_simps(3) fval_append x d by (rule u) simp
qed

definition nctl :: "nc_state \<Rightarrow> nc_state \<Rightarrow> bool" where
  "nctl st st' \<longleftrightarrow> nc_norm st' = nc_norm st \<and> nc_nbBits st' = nc_nbBits st \<and> nc_remaining st' = nc_remaining st
     \<and> nc_threshold st' = nc_threshold st \<and> nc_previous0 st' = nc_previous0 st"

lemma nctl_steps [simp]: "nctl st (nc_skip hb st)" "nctl st (nc_advance hb st)"
  by (simp_all add: nctl_def nc_skip_def nc_advance_def nc_reload_def Let_def)

lemma nctl_trans: "nctl a b \<Longrightarrow> nctl b c \<Longrightarrow> nctl a c" by (simp add: nctl_def)

lemma repeats_read:
  assumes "nc_at hb p st" "at_fields (le_val hb) p (replicate q (3, 2) @ [(m, 2)])" "m < 3"
    "p + 2 * q + 2 < 8 * length hb" "q div 12 \<le> rounds"
  shows "let n = q div 12; st' = nc_repeats rounds hb st in nc_at hb (p + 24 * n) st' \<and> nc_charnum st' = nc_charnum st + 36 * n \<and> nctl st st'
    \<and> at_fields (le_val hb) (p + 24 * n) (replicate (q mod 12) (3, 2) @ [(m, 2)])"
  using assms
proof (induction rounds arbitrary: q p st)
  case 0
  then have "q < 12" by simp
  then show ?case using 0 by (simp add: nctl_def)
next
  case (Suc rounds)
  show ?case
  proof (cases "q < 12")
    case True
    have "unat (nc_bitStream st) mod 2 ^ (2 * q + 2) = ones_then q m"
      using nc_at_bits[OF Suc.prems(1), of "2 * q + 2"] Suc.prems(2) True
      by (simp only: at_fields_def fval_zero_run(1)[OF Suc.prems(3)] fval_zero_run(2))
    from repeatCode_small(1)[OF this Suc.prems(3) True] show ?thesis using True Suc.prems by (simp add: nctl_def)
  next
    case False
    define q' where "q' = q - 12"
    have q: "q = 12 + q'" using False by (simp add: q'_def)
    have l: "flen (replicate 12 (3, 2)) = 24" by (simp only: flen_threes)
    have f: "at_fields (le_val hb) p (replicate 12 (3, 2))" "at_fields (le_val hb) (p + 24) (replicate q' (3, 2) @ [(m, 2)])"
      using Suc.prems(2) at_fields_append[of "le_val hb" p "replicate 12 (3, 2)"] unfolding q replicate_add append_assoc l by auto
    have "unat (nc_bitStream st) mod 2 ^ 24 = fval (replicate 12 (3, 2))"
      using nc_at_bits[OF Suc.prems(1), of 24] f(1) by (simp only: at_fields_def l)
    then have "unat (nc_bitStream st) mod 2 ^ 24 = ones_then 12 0 mod 2 ^ 24" unfolding fval_threes by (simp add: ones_then_def)
    from repeatCode_large[OF this] have c: "12 \<le> nc_repeatCode (nc_bitStream st)" .
    have p': "p + 24 < 8 * length hb" using Suc.prems(4) q by simp
    have "p + 24 + 2 * q' + 2 < 8 * length hb" "q' div 12 \<le> rounds" using Suc.prems(4,5) q by simp_all
    note IH = Suc.IH[OF nc_skip_at[OF Suc.prems(1) p'] f(2) Suc.prems(3) this]
    have "q div 12 = q' div 12 + 1" "q mod 12 = q' mod 12" using q by simp_all
    then show ?thesis using IH c nctl_trans[OF nctl_steps(1)[of st hb]] by (simp add: Let_def add.assoc)
  qed
qed

lemma zeros_read:
  assumes "nc_at hb p st" "at_fields (le_val hb) p (zero_run k)" "p + flen (zero_run k) < 8 * length hb" "nc_charnum st + k < maxSV1"
  shows "\<exists>st'. nc_zeros hb maxSV1 st = (False, st') \<and> nc_at hb (p + flen (zero_run k)) st' \<and> nc_charnum st' = nc_charnum st + k \<and> nctl st st'"
proof -
  define q m n where "q = k div 3" and "m = k mod 3" and "n = q div 12"
  define st1 where "st1 = nc_repeats (length hb + 4) hb st"
  define j where "j = q mod 12"
  have m: "m < 3" "j < 12" by (simp_all add: m_def j_def)
  have l: "flen (zero_run k) = 2 * q + 2" unfolding zero_run_def q_def by (rule fval_zero_run(2))
  have qj: "q = 12 * n + j" by (simp add: n_def j_def)
  have "q div 12 \<le> length hb + 4" "p + 2 * q + 2 < 8 * length hb" using assms(3) unfolding l by linarith+
  from repeats_read[OF assms(1) _ m(1) this(2,1)] assms(2) have r: "nc_at hb (p + 24 * n) st1" "nc_charnum st1 = nc_charnum st + 36 * n" "nctl st st1"
    "at_fields (le_val hb) (p + 24 * n) (replicate j (3, 2) @ [(m, 2)])"
    by (simp_all add: Let_def zero_run_def q_def m_def n_def st1_def j_def)
  have "unat (nc_bitStream st1) mod 2 ^ (2 * j + 2) = ones_then j m"
    using nc_at_bits[OF r(1), of "2 * j + 2"] r(4) m(2)
    by (simp only: at_fields_def fval_zero_run(1)[OF m(1)] fval_zero_run(2))
  note c = repeatCode_small[OF this m]
  define st2 where "st2 = st1\<lparr>nc_charnum := nc_charnum st1 + 3 * j + m, nc_bitStream := drop_bit (2 * j) (nc_bitStream st1),
    nc_bitCount := nc_bitCount st1 + 2 * j + 2\<rparr>"
  have ch: "nc_charnum st2 = nc_charnum st + k"
  proof -
    have "k = 3 * q + m" by (simp add: q_def m_def)
    then show ?thesis using r(2) qj by (simp add: st2_def)
  qed
  have "nc_zeros hb maxSV1 st = (False, nc_advance hb st2)"
    using c ch assms(4) unfolding nc_zeros_def st1_def[symmetric] Let_def st2_def by simp
  moreover have "nc_at hb (p + flen (zero_run k)) (nc_advance hb st2)"
  proof (rule nc_advance_at)
    show "nc_ip st2 + 4 \<le> length hb" "8 * nc_ip st2 + nc_bitCount st2 = p + flen (zero_run k)" using r(1) qj by (simp_all add: st2_def nc_at_def l)
    show "nc_bitCount st2 \<le> 31" if "nc_ip st2 + 7 \<le> length hb" using that r(1) m(2) by (auto simp: st2_def nc_at_def)
  qed (rule assms(3))
  moreover have "nctl st (nc_advance hb st2)" using r(3) nctl_steps(2)[of st2 hb] by (simp add: nctl_def st2_def)
  ultimately show ?thesis using ch by simp
qed

text \<open>The reader between symbols, \<open>remaining\<close> being \<open>r\<close>.\<close>

definition nc_ready :: "nat \<Rightarrow> nc_state \<Rightarrow> bool" where
  "nc_ready r st \<longleftrightarrow> nc_remaining st = int r \<and> nc_nbBits st = hbit r + 1 \<and> nc_threshold st = 2 ^ hbit r"

lemma value_read:
  assumes a: "nc_at hb p st" "nc_ready r st" "2 \<le> r" "r \<le> 2 ^ 12 + 1" "-1 \<le> c" "ncount c \<le> r - 1" "at_fields (le_val hb) p [count_code r c]"
  shows "nc_value st = (c, nc_bitCount st + snd (count_code r c))" "snd (count_code r c) \<le> 13"
proof -
  define h k mx where "h = hbit r" and "k = nat (c + 1)" and "mx = 2 * 2 ^ h - 1 - r"
  define v where "v = (if k \<ge> 2 ^ h then k + mx else k)"
  have hb: "2 ^ h \<le> r" "r < 2 * 2 ^ h" using hbit_bounds[of r] a(3) by (simp_all add: h_def)
  have k: "k \<le> r" "c = int k - 1" using a(3,5,6) by (auto simp: k_def ncount_def split: if_splits)
  have mx: "mx + r + 1 = 2 * 2 ^ h" using hb by (simp add: mx_def)
  have cc: "count_code r c = (v, if v < mx then h else h + 1)" by (simp add: count_code_def Let_def h_def k_def mx_def v_def)
  have h12: "h \<le> 12"
  proof (rule ccontr)
    assume "\<not> h \<le> 12"
    then have "(2::nat) ^ 13 \<le> 2 ^ h" by (intro power_increasing) auto
    then show False using hb(1) a(4) by simp
  qed
  then show "snd (count_code r c) \<le> 13" by (simp add: cc)
  let ?b = "unat (nc_bitStream st)"
  have vb: "v < 2 ^ snd (count_code r c)" using count_code_bounds(1)[OF a(3,5,6)] by (simp add: cc)
  have bits: "?b mod 2 ^ snd (count_code r c) = v"
    using nc_at_bits[OF a(1), of "snd (count_code r c)"] a(7) vb h12 by (simp add: at_fields_def flen_def cc)
  have m: "unat (nc_bitStream st AND of_nat (2 ^ n - 1)) = ?b mod 2 ^ n" for n
    using unat_and_mask[of "nc_bitStream st" n] by (simp add: mask_eq_exp_minus_1 of_nat_diff)
  have low: "unat (nc_bitStream st AND of_nat (nc_threshold st - 1)) = ?b mod 2 ^ h" using m[of h] a(2) by (simp add: nc_ready_def h_def)
  have full: "unat (nc_bitStream st AND of_nat (2 * nc_threshold st - 1)) = ?b mod 2 ^ (h + 1)" using m[of "h + 1"] a(2) by (simp add: nc_ready_def h_def)
  have "mx < 2 ^ 32"
  proof -
    have "(2::nat) * 2 ^ h \<le> 2 ^ 13" using h12 power_increasing[of "h + 1" 13 "2::nat"] by simp
    then show ?thesis using mx by simp
  qed
  moreover have mxi: "(2 * int (nc_threshold st) - 1) - nc_remaining st = int mx"
  proof -
    have "int (mx + r + 1) = int (2 * 2 ^ h)" by (simp only: mx)
    then show ?thesis using a(2) by (simp add: nc_ready_def h_def)
  qed
  ultimately have mxm: "nat (int mx mod 2 ^ 32) = mx" by simp
  note val = nc_value_def[of st, unfolded Let_def mxi mxm low full]
  show "nc_value st = (c, nc_bitCount st + snd (count_code r c))"
  proof (cases "v < mx")
    case True
    then have "k < 2 ^ h" "v = k" by (auto simp: v_def split: if_splits)
    then show ?thesis using True bits k(2) a(2) unfolding val cc by (simp add: nc_ready_def h_def)
  next
    case False
    have b2: "?b mod 2 ^ (h + 1) = v" using False bits by (simp add: cc)
    have "?b mod 2 ^ (h + 1) mod 2 ^ h = ?b mod 2 ^ h" by (rule mod_mod_cancel) (simp add: le_imp_power_dvd)
    then have b1: "?b mod 2 ^ h = v mod 2 ^ h" using b2 by simp
    have "v < 2 * 2 ^ h" using vb False by (simp add: cc)
    then have "mx \<le> v mod 2 ^ h"
    proof (cases "k \<ge> 2 ^ h")
      case True
      then have "v = 2 ^ h + (k - 2 ^ h + mx)" by (simp add: v_def)
      moreover from this have "k - 2 ^ h + mx < 2 ^ h" using \<open>v < 2 * 2 ^ h\<close> by linarith
      ultimately have "v mod 2 ^ h = k - 2 ^ h + mx" by simp
      then show ?thesis by simp
    next
      case k2: False
      then show ?thesis using False by (simp add: v_def)
    qed
    then have "nc_value st = ((if int v \<ge> int (nc_threshold st) then int v - int mx else int v) - 1, nc_bitCount st + nc_nbBits st)"
      unfolding val b1 b2 by simp
    moreover have "(if int v \<ge> int (nc_threshold st) then int v - int mx else int v) = int k"
      using a(2) mx by (auto simp: v_def nc_ready_def h_def[symmetric])
    ultimately show ?thesis using False a(2) k(2)[symmetric] unfolding cc by (simp add: nc_ready_def h_def)
  qed
qed

lemma rescale_read:
  assumes "nc_ready r st" "1 \<le> r'" "r' \<le> r" "r \<le> 2 ^ 12 + 1"
  shows "nc_ready r' (nc_rescale (st\<lparr>nc_norm := norm, nc_charnum := s, nc_bitCount := b, nc_remaining := int r', nc_previous0 := z\<rparr>))"
proof -
  have "ZSTD_highbit32 (of_nat r') = hbit r'" using highbit_nat[of r'] assms by (intro hbit_unique[symmetric]) simp_all
  moreover have "hbit r' = hbit r" if "2 ^ hbit r \<le> r'" using that assms(2,3) hbit_bounds[of r] by (intro hbit_unique) linarith+
  ultimately show ?thesis using assms(1) by (auto simp: nc_ready_def nc_rescale_def Let_def)
qed

lemma count_read:
  assumes a: "nc_at hb p st" "nc_ready r st" "2 \<le> r" "r \<le> 2 ^ 12 + 1" "-1 \<le> c" "ncount c \<le> r - 1" "at_fields (le_val hb) p [count_code r c]"
  defines "r' \<equiv> r - ncount c" and "p' \<equiv> p + snd (count_code r c)"
  shows "r' = 1 \<Longrightarrow> p' \<le> 8 * length hb \<Longrightarrow> \<exists>st'. nc_count hb maxSV1 st = (True, st') \<and> nc_norm st' = (nc_norm st)[nc_charnum st := c]
      \<and> nc_charnum st' = nc_charnum st + 1 \<and> nc_remaining st' = 1 \<and> 8 * nc_ip st' + nc_bitCount st' = p' \<and> nc_bitCount st' \<le> 32"
    "1 < r' \<Longrightarrow> p' < 8 * length hb \<Longrightarrow> nc_charnum st + 1 < maxSV1 \<Longrightarrow> \<exists>st'. nc_count hb maxSV1 st = (False, st')
      \<and> nc_norm st' = (nc_norm st)[nc_charnum st := c] \<and> nc_charnum st' = nc_charnum st + 1 \<and> nc_ready r' st' \<and> nc_at hb p' st'
      \<and> nc_previous0 st' = (c = 0)"
proof -
  note v = value_read[OF a]
  have rem: "(if c \<ge> 0 then nc_remaining st - c else nc_remaining st + c) = int r'"
    using a(2,3,5,6) by (auto simp: nc_ready_def r'_def ncount_def of_nat_diff split: if_splits)
  define st1 where "st1 = st\<lparr>nc_norm := (nc_norm st)[nc_charnum st := c], nc_charnum := nc_charnum st + 1,
    nc_bitCount := nc_bitCount st + snd (count_code r c), nc_remaining := int r', nc_previous0 := (c = 0)\<rparr>"
  have s: "nc_store st = st1" unfolding nc_store_def v(1) Let_def prod.case rem st1_def ..
  have at: "nc_ip st + 4 \<le> length hb" "8 * nc_ip st + nc_bitCount st = p" "nc_bitCount st \<le> 7 \<or> nc_ip st + 4 = length hb" using a(1) by (simp_all add: nc_at_def)
  have th: "2 \<le> nc_threshold st1"
  proof -
    have "r < 2 * 2 ^ hbit r" using hbit_bounds[of r] a(3) by simp
    then have "hbit r \<noteq> 0" using a(3) by (intro notI) simp
    then have "(2::nat) ^ 1 \<le> 2 ^ hbit r" by (intro power_increasing) auto
    then show ?thesis using a(2) by (simp add: st1_def nc_ready_def)
  qed
  show "\<exists>st'. nc_count hb maxSV1 st = (True, st') \<and> nc_norm st' = (nc_norm st)[nc_charnum st := c]
      \<and> nc_charnum st' = nc_charnum st + 1 \<and> nc_remaining st' = 1 \<and> 8 * nc_ip st' + nc_bitCount st' = p' \<and> nc_bitCount st' \<le> 32"
    if "r' = 1" "p' \<le> 8 * length hb"
  proof -
    have "nc_count hb maxSV1 st = (True, st1)" unfolding nc_count_def s Let_def using th that(1) by (simp add: st1_def)
    moreover have "nc_bitCount st1 \<le> 32" using at v(2) that(2) by (auto simp: st1_def p'_def)
    ultimately show ?thesis using that(1) at(2) by (simp add: st1_def p'_def)
  qed
  show "\<exists>st'. nc_count hb maxSV1 st = (False, st')
      \<and> nc_norm st' = (nc_norm st)[nc_charnum st := c] \<and> nc_charnum st' = nc_charnum st + 1 \<and> nc_ready r' st' \<and> nc_at hb p' st'
      \<and> nc_previous0 st' = (c = 0)"
    if "1 < r'" "p' < 8 * length hb" "nc_charnum st + 1 < maxSV1"
  proof -
    let ?st = "nc_rescale st1"
    have f: "nc_ip ?st = nc_ip st1" "nc_bitCount ?st = nc_bitCount st1" "nc_charnum ?st = nc_charnum st1" "nc_norm ?st = nc_norm st1" "nc_previous0 ?st = nc_previous0 st1"
      by (simp_all add: nc_rescale_def Let_def)
    have "nc_count hb maxSV1 st = (False, nc_advance hb ?st)" unfolding nc_count_def s Let_def using that(1,3) f(3) by (simp add: st1_def)
    moreover have "nc_at hb p' (nc_advance hb ?st)"
    proof (rule nc_advance_at)
      show "nc_ip ?st + 4 \<le> length hb" "8 * nc_ip ?st + nc_bitCount ?st = p'" unfolding f using at by (simp_all add: st1_def p'_def)
      show "nc_bitCount ?st \<le> 31" if "nc_ip ?st + 7 \<le> length hb" using that at(3) v(2) unfolding f by (auto simp: st1_def)
    qed (rule that(2))
    moreover have "nc_ready r' ?st" unfolding st1_def by (rule rescale_read[OF a(2)]) (use that(1) a(4) in \<open>auto simp: r'_def\<close>)
    then have "nc_ready r' (nc_advance hb ?st)" using nctl_steps(2)[of ?st hb] by (simp add: nc_ready_def nctl_def)
    moreover have "nc_norm (nc_advance hb ?st) = nc_norm st1" "nc_previous0 (nc_advance hb ?st) = nc_previous0 st1"
      using nctl_steps(2)[of ?st hb] f by (simp_all add: nctl_def)
    ultimately show ?thesis using f(3) by (simp add: st1_def)
  qed
qed

text \<open>
  The counts read so far, the others of the table being zero.
\<close>

definition nc_read :: "int list \<Rightarrow> nat \<Rightarrow> nc_state \<Rightarrow> bool" where
  "nc_read norm M st \<longleftrightarrow> nc_norm st = take (nc_charnum st) norm @ replicate (M - nc_charnum st) 0
     \<and> nc_charnum st \<le> length norm \<and> length norm \<le> M"

lemma read_next:
  assumes "a \<le> s" "s < length norm" "length norm \<le> M" "\<forall>i. a \<le> i \<and> i < s \<longrightarrow> norm ! i = (0::int)"
  shows "(take a norm @ replicate (M - a) 0)[s := norm ! s] = take (s + 1) norm @ replicate (M - (s + 1)) 0"
  by (rule nth_equalityI) (use assms in \<open>auto simp: nth_list_update nth_append min_def\<close>)

lemma at_fields_end: "p + flen fs \<le> n \<Longrightarrow> flen gs \<ge> 1 \<Longrightarrow> fs = hs @ gs \<Longrightarrow> p + flen hs < n"
  by simp

lemma flen_count_code: "flen [count_code r c] = snd (count_code r c)"
  by (simp add: flen_def)

lemma body_read:
  assumes a: "nc_at hb p st" "nc_ready r st" "1 < r" "r \<le> 2 ^ 12 + 1" "\<forall>c\<in>set norm. -1 \<le> c" "nc_read norm M st"
    and sum: "sum_list (map ncount (drop (nc_charnum st) norm)) = r - 1"
  defines "s \<equiv> round_symbol norm (nc_previous0 st) (nc_charnum st)" and "gs \<equiv> round_fields norm (nc_previous0 st) r (nc_charnum st)"
  defines "r' \<equiv> r - ncount (norm ! s)" and "p' \<equiv> p + flen gs"
  assumes f: "at_fields (le_val hb) p gs" "p' \<le> 8 * length hb" "1 < r' \<Longrightarrow> p' < 8 * length hb"
  shows "r' = 1 \<Longrightarrow> \<exists>st'. nc_body hb M st = (True, st') \<and> nc_read norm M st' \<and> nc_charnum st' = s + 1 \<and> nc_remaining st' = 1
      \<and> 8 * nc_ip st' + nc_bitCount st' = p' \<and> nc_bitCount st' \<le> 32"
    "1 < r' \<Longrightarrow> \<exists>st'. nc_body hb M st = (False, st') \<and> nc_read norm M st' \<and> nc_charnum st' = s + 1 \<and> nc_ready r' st' \<and> nc_at hb p' st'
      \<and> nc_previous0 st' = (norm ! s = 0)"
proof -
  let ?a = "nc_charnum st" and ?z = "nc_previous0 st"
  have rd: "nc_norm st = take ?a norm @ replicate (M - ?a) 0" "?a \<le> length norm" "length norm \<le> M" using a(6) by (simp_all add: nc_read_def)
  note rs = round_spec[OF sum a(3,5) rd(2), of ?z, folded s_def]
  define hs where "hs = (if ?z then zero_run (s - ?a) else [])"
  define c where "c = norm ! s"
  have g: "gs = hs @ [count_code r c]" by (simp add: gs_def round_fields_def Let_def s_def hs_def c_def)
  have cb: "1 \<le> snd (count_code r c)" using count_code_bounds(2)[of r c] a(3) rs(3,4) by (simp add: c_def)
  have z: "\<exists>st1. (if ?z then nc_zeros hb M st else (False, st)) = (False, st1) \<and> nc_at hb (p + flen hs) st1 \<and> nc_charnum st1 = s \<and> nctl st st1"
  proof (cases ?z)
    case False
    then show ?thesis using a(1) by (simp add: hs_def s_def round_symbol_def nctl_def)
  next
    case True
    have l: "p + flen (zero_run (s - ?a)) < 8 * length hb" "?a + (s - ?a) < M"
      using f(2) cb rs(1,2) rd(3) True by (simp_all add: p'_def g flen_count_code hs_def)
    have "at_fields (le_val hb) p (zero_run (s - ?a))" using f(1) True by (simp add: g hs_def at_fields_append)
    from zeros_read[OF a(1) this l] show ?thesis using True rs(2) by (auto simp: hs_def)
  qed
  then obtain st1 where st1: "(if ?z then nc_zeros hb M st else (False, st)) = (False, st1)" "nc_at hb (p + flen hs) st1"
    "nc_charnum st1 = s" "nctl st st1" by blast
  have rdy: "nc_ready r st1" and nm: "nc_norm st1 = nc_norm st" using a(2) st1(4) by (simp_all add: nc_ready_def nctl_def)
  have fc: "at_fields (le_val hb) (p + flen hs) [count_code r c]" using f(1) by (simp add: g at_fields_append)
  have pp: "p + flen hs + snd (count_code r c) = p'" by (simp add: p'_def g flen_count_code)
  have bd: "nc_body hb M st = nc_count hb M st1" by (simp add: nc_body_def st1(1))
  have nn: "(nc_norm st1)[s := c] = take (s + 1) norm @ replicate (M - (s + 1)) 0"
    unfolding nm rd(1) c_def by (rule read_next) (use rs(1,2,6) rd(3) in auto)
  have r2: "2 \<le> r" using a(3) by simp
  note cr = count_read[OF st1(2) rdy r2 a(4) rs(3,4)[folded c_def] fc, unfolded st1(3) pp nn, folded c_def]
  show "\<exists>st'. nc_body hb M st = (True, st') \<and> nc_read norm M st' \<and> nc_charnum st' = s + 1 \<and> nc_remaining st' = 1
      \<and> 8 * nc_ip st' + nc_bitCount st' = p' \<and> nc_bitCount st' \<le> 32" if "r' = 1"
    using cr(1)[of M] that f(2) rs(1) rd(3) by (auto simp: r'_def c_def bd nc_read_def)
  show "\<exists>st'. nc_body hb M st = (False, st') \<and> nc_read norm M st' \<and> nc_charnum st' = s + 1 \<and> nc_ready r' st' \<and> nc_at hb p' st'
      \<and> nc_previous0 st' = (norm ! s = 0)" if "1 < r'"
  proof -
    have "s + 1 < length norm"
    proof (rule ccontr)
      assume "\<not> s + 1 < length norm"
      then have "drop (s + 1) norm = []" by simp
      then show False using rs(7) that by (simp add: r'_def)
    qed
    then show ?thesis using cr(2)[of M] that f(3) rd(3) by (auto simp: r'_def c_def bd nc_read_def)
  qed
qed

lemma fields_nonempty:
  assumes "sum_list (map ncount (drop a norm)) = r - 1" "1 < r" "\<forall>c\<in>set norm. -1 \<le> c" "a \<le> length norm"
  shows "1 \<le> flen (nc_fields r (pending z) (drop a norm))"
proof -
  note rs = round_spec[OF assms, of z]
  have "1 \<le> snd (count_code r (norm ! round_symbol norm z a))" using count_code_bounds(2)[OF _ rs(3,4)] assms(2) by simp
  then have "1 \<le> flen (round_fields norm z r a)" by (simp only: round_fields_def Let_def flen_simps(3) flen_count_code trans_le_add2)
  then show ?thesis unfolding rs(8) flen_simps(3) by linarith
qed

lemma loop_read:
  assumes "nc_at hb p st" "nc_ready r st" "1 < r" "r \<le> 2 ^ 12 + 1" "\<forall>c\<in>set norm. -1 \<le> c" "nc_read norm M st"
    "sum_list (map ncount (drop (nc_charnum st) norm)) = r - 1"
    and "fs = nc_fields r (pending (nc_previous0 st)) (drop (nc_charnum st) norm)" "at_fields (le_val hb) p fs" "p + flen fs \<le> 8 * length hb"
  shows "let st' = nc_loop hb M st; k = nc_charnum st' in nc_read norm M st' \<and> nc_remaining st' = 1 \<and> 8 * nc_ip st' + nc_bitCount st' = p + flen fs
    \<and> nc_bitCount st' \<le> 32 \<and> 1 \<le> k \<and> norm ! (k - 1) \<noteq> 0 \<and> sum_list (map ncount (drop k norm)) = 0"
  using assms
proof (induction "length norm - nc_charnum st" arbitrary: st p r fs rule: less_induct)
  case less
  let ?a = "nc_charnum st" and ?z = "nc_previous0 st"
  have al: "?a \<le> length norm" using less.prems(6) by (simp add: nc_read_def)
  define s gs where "s = round_symbol norm ?z ?a" and "gs = round_fields norm ?z r ?a"
  define r' gs' where "r' = r - ncount (norm ! s)" and "gs' = nc_fields r' (pending (norm ! s = 0)) (drop (s + 1) norm)"
  note rs = round_spec[OF less.prems(7,3,5) al, of ?z, folded s_def gs_def, folded r'_def]
  have fs: "fs = gs @ gs'" unfolding less.prems(8) gs'_def r'_def gs_def s_def by (rule round_spec(8)[OF less.prems(7,3,5) al])
  have f: "at_fields (le_val hb) p gs" "at_fields (le_val hb) (p + flen gs) gs'" "p + flen gs + flen gs' \<le> 8 * length hb"
    using less.prems(9,10) by (simp_all add: fs at_fields_append)
  have ne: "p + flen gs < 8 * length hb" if "1 < r'"
    using fields_nonempty[OF rs(7) that less.prems(5), of "norm ! s = 0"] rs(1) f(3) by (simp add: gs'_def)
  have "r' \<ge> 1" using rs(4) less.prems(3) by (simp add: r'_def)
  then consider "r' = 1" | "1 < r'" by linarith
  then show ?case
  proof cases
    case 1
    have "\<exists>st'. nc_body hb M st = (True, st') \<and> nc_read norm M st' \<and> nc_charnum st' = s + 1 \<and> nc_remaining st' = 1
      \<and> 8 * nc_ip st' + nc_bitCount st' = p + flen gs \<and> nc_bitCount st' \<le> 32"
      unfolding s_def gs_def
      by (rule body_read(1)[OF less.prems(1-7)]) (use f(1,3) 1 in \<open>simp_all add: s_def gs_def r'_def\<close>)
    then obtain st' where st': "nc_body hb M st = (True, st')" "nc_read norm M st'" "nc_charnum st' = s + 1" "nc_remaining st' = 1"
      "8 * nc_ip st' + nc_bitCount st' = p + flen gs" "nc_bitCount st' \<le> 32" by blast
    have "nc_loop hb M st = st'" by (simp add: nc_loop.simps[of hb M st] st'(1))
    moreover have "gs' = []" using 1 by (simp add: gs'_def fields_done)
    moreover have "norm ! s \<noteq> 0" using 1 less.prems(3) by (auto simp: r'_def ncount_def)
    moreover have "sum_list (map ncount (drop (s + 1) norm)) = 0" unfolding rs(7) using 1 by simp
    ultimately show ?thesis using st' by (simp add: Let_def fs)
  next
    case 2
    have "\<exists>st'. nc_body hb M st = (False, st') \<and> nc_read norm M st' \<and> nc_charnum st' = s + 1 \<and> nc_ready r' st' \<and> nc_at hb (p + flen gs) st'
      \<and> nc_previous0 st' = (norm ! s = 0)"
      unfolding s_def gs_def r'_def
      by (rule body_read(2)[OF less.prems(1-7)]) (use f(1,3) 2 ne in \<open>simp_all add: s_def gs_def r'_def\<close>)
    then obtain st' where st': "nc_body hb M st = (False, st')" "nc_read norm M st'" "nc_charnum st' = s + 1" "nc_ready r' st'"
      "nc_at hb (p + flen gs) st'" "nc_previous0 st' = (norm ! s = 0)" by blast
    have l: "nc_loop hb M st = nc_loop hb M st'" by (simp add: nc_loop.simps[of hb M st] st'(1))
    have m: "length norm - nc_charnum st' < length norm - ?a" using rs(1,2) st'(3) by simp
    have r4: "r' \<le> 2 ^ 12 + 1" using less.prems(4) by (simp add: r'_def)
    have g: "gs' = nc_fields r' (pending (nc_previous0 st')) (drop (nc_charnum st') norm)" by (simp add: gs'_def st'(3,6))
    have sm: "sum_list (map ncount (drop (nc_charnum st') norm)) = r' - 1" unfolding st'(3) by (rule rs(7))
    from less.hyps[OF m st'(5,4) 2 r4 less.prems(5) st'(2) sm g f(2,3)] show ?thesis unfolding l fs by (simp add: add.assoc)
  qed
qed

text \<open>The last symbol with a count.\<close>

definition last_symbol :: "int list \<Rightarrow> nat" where
  "last_symbol norm = length (dropWhile (\<lambda>c. c = 0) (rev norm)) - 1"

lemma last_symbol_unique:
  assumes "1 \<le> k" "k \<le> length norm" "norm ! (k - 1) \<noteq> 0" "\<forall>c\<in>set (drop k norm). c = 0"
  shows "last_symbol norm = k - 1"
proof -
  have t: "take k norm = take (k - 1) norm @ [norm ! (k - 1)]" using assms(1,2) take_Suc_conv_app_nth[of "k - 1" norm] by simp
  have "rev norm = rev (drop k norm) @ rev (take k norm)" by (simp add: rev_append[symmetric] del: rev_append)
  also have "dropWhile (\<lambda>c. c = 0) \<dots> = rev (take k norm)"
    using assms(3,4) by (subst dropWhile_append2) (simp_all add: t)
  finally show ?thesis using assms(2) by (simp add: last_symbol_def)
qed

lemma sum_zero:
  assumes "\<forall>c\<in>set cs. -1 \<le> c" "sum_list (map ncount cs) = 0"
  shows "\<forall>c\<in>set cs. c = 0"
proof
  fix c assume c: "c \<in> set cs"
  then have "ncount c = 0" using assms(2) by simp
  moreover have "-1 \<le> c" using assms(1) c by blast
  ultimately show "c = 0" by (simp add: ncount_def split: if_splits)
qed

lemma body8_reads:
  assumes n: "normalized tableLog norm" "length norm \<le> maxSV + 1"
    and f: "at_fields (le_val hb) 0 (nc_format tableLog norm)" "(flen (nc_format tableLog norm) + 7) div 8 \<le> length hb" "8 \<le> length hb"
  shows "FSE_readNCount_body8 maxSV hb
    = Inr ((flen (nc_format tableLog norm) + 7) div 8, norm @ replicate (maxSV + 1 - length norm) 0, last_symbol norm, tableLog)"
proof -
  let ?M = "maxSV + 1" and ?r = "2 ^ tableLog + 1 :: nat"
  note nb = normalized_range[OF n(1)]
  define gs where "gs = nc_fields ?r None norm"
  have fs: "nc_format tableLog norm = [(tableLog - 5, 4)] @ gs" by (simp add: nc_format_def gs_def)
  have a: "at_fields (le_val hb) 0 [(tableLog - 5, 4)]" "at_fields (le_val hb) 4 gs" using f(1) unfolding fs at_fields_append by simp_all
  have fl: "flen (nc_format tableLog norm) = 4 + flen gs" by (simp add: fs)
  let ?w = "MEM_readLE32 LittleEndian hb 0"
  have w: "unat ?w = le_val hb mod 2 ^ 32" using le_val_window(1)[of 0 hb] f(3) by simp
  have "tableLog - 5 < 2 ^ 4" using nb by simp linarith
  then have "le_val hb mod 2 ^ 4 = tableLog - 5" using a(1) by (simp add: at_fields_def)
  moreover have "le_val hb mod 2 ^ 32 mod 2 ^ 4 = le_val hb mod 2 ^ 4" by (rule mod_mod_cancel) (simp add: le_imp_power_dvd)
  ultimately have lg: "unat (?w AND 0xF) + 5 = tableLog" using unat_and_mask[of ?w 4] w nb by (simp add: mask_eq_exp_minus_1)
  have "2 \<le> (2::nat) ^ tableLog" using nb power_increasing[of 1 tableLog "2::nat"] by simp
  then have h: "hbit ?r = tableLog" by (intro hbit_unique) simp_all
  have rb: "?r \<le> 2 ^ 12 + 1" using nb power_increasing[of tableLog 12 "2::nat"] by simp
  define st0 where "st0 = \<lparr>nc_norm = replicate ?M 0, nc_charnum = 0, nc_ip = 0, nc_bitCount = 4,
    nc_bitStream = drop_bit 4 ?w, nc_nbBits = tableLog + 1, nc_remaining = 2 ^ tableLog + 1, nc_threshold = 2 ^ tableLog, nc_previous0 = False\<rparr>"
  have at: "nc_at hb 4 st0" using f(3) by (simp add: nc_at_def st0_def)
  have rdy: "nc_ready ?r st0" unfolding nc_ready_def h by (simp add: st0_def)
  have rd: "nc_read norm ?M st0" using n(2) by (simp add: nc_read_def st0_def)
  have sm: "sum_list (map ncount (drop (nc_charnum st0) norm)) = ?r - 1" using nb by (simp add: st0_def)
  have g: "gs = nc_fields ?r (pending (nc_previous0 st0)) (drop (nc_charnum st0) norm)" by (simp add: st0_def gs_def)
  have ln: "4 + flen gs \<le> 8 * length hb" using f(2) fl by linarith
  have r1: "1 < ?r" by simp
  have lo: "\<forall>c\<in>set norm. -1 \<le> c" using nb by simp
  define st where "st = nc_loop hb ?M st0"
  note lr = loop_read[OF at rdy r1 rb lo rd sm g a(2) ln, folded st_def, unfolded Let_def]
  have st: "nc_norm st = take (nc_charnum st) norm @ replicate (?M - nc_charnum st) 0" "nc_charnum st \<le> length norm"
    "nc_remaining st = 1" "8 * nc_ip st + nc_bitCount st = 4 + flen gs" "nc_bitCount st \<le> 32"
    "1 \<le> nc_charnum st" "norm ! (nc_charnum st - 1) \<noteq> 0" "sum_list (map ncount (drop (nc_charnum st) norm)) = 0"
    using lr unfolding nc_read_def by blast+
  have z: "\<forall>c\<in>set (drop (nc_charnum st) norm). c = 0" using sum_zero[OF _ st(8)] lo by (auto dest: in_set_dropD)
  have ls: "nc_charnum st - 1 = last_symbol norm" by (rule last_symbol_unique[OF st(6,2,7) z, symmetric])
  have "drop (nc_charnum st) norm = replicate (length norm - nc_charnum st) 0"
    using z by (metis length_drop replicate_length_same)
  then have "norm @ replicate (?M - length norm) 0
      = take (nc_charnum st) norm @ replicate (length norm - nc_charnum st) 0 @ replicate (?M - length norm) 0"
    by (metis append.assoc append_take_drop_id)
  also have "\<dots> = nc_norm st" unfolding st(1) replicate_add[symmetric] using st(2) n(2) by simp
  finally have nm: "nc_norm st = norm @ replicate (?M - length norm) 0" by simp
  have sz: "nc_ip st + (nc_bitCount st + 7) div 8 = (flen (nc_format tableLog norm) + 7) div 8" unfolding fl st(4)[symmetric] by linarith
  have "FSE_readNCount_body8 maxSV hb = Inr (nc_ip st + (nc_bitCount st + 7) div 8, nc_norm st, nc_charnum st - 1, tableLog)"
    using nb st n(2) unfolding FSE_readNCount_body8_def Let_def lg st_def st0_def by simp
  then show ?thesis by (simp only: sz nm ls)
qed

text \<open>The reader, on any source that starts with a description: short sources are padded with zeros.\<close>

lemma le_val_pad: "le_val (xs @ replicate n 0) = le_val xs"
proof -
  have "le_val (replicate n 0) = 0" by (induction n) simp_all
  then show ?thesis by (simp add: le_val_append)
qed

lemma readNCount_reads:
  assumes n: "normalized tableLog norm" "length norm \<le> maxSV + 1"
    and f: "at_fields (le_val hb) 0 (nc_format tableLog norm)" "(flen (nc_format tableLog norm) + 7) div 8 \<le> length hb"
  shows "FSE_readNCount maxSV hb
    = Inr ((flen (nc_format tableLog norm) + 7) div 8, norm @ replicate (maxSV + 1 - length norm) 0, last_symbol norm, tableLog)"
proof (cases "length hb < 8")
  case False
  then show ?thesis using body8_reads[OF assms] by (simp add: FSE_readNCount_def FSE_readNCount_bmi2_def FSE_readNCount_body_def)
next
  case True
  let ?h = "hb @ replicate (8 - length hb) 0"
  have "FSE_readNCount_body8 maxSV ?h
    = Inr ((flen (nc_format tableLog norm) + 7) div 8, norm @ replicate (maxSV + 1 - length norm) 0, last_symbol norm, tableLog)"
    by (rule body8_reads[OF n]) (use f True in \<open>simp_all add: le_val_pad\<close>)
  then show ?thesis using True f(2) by (simp add: FSE_readNCount_def FSE_readNCount_bmi2_def FSE_readNCount_body_def)
qed


subsection \<open>Properties\<close>

lemma count_code_len: "2 \<le> r \<Longrightarrow> r \<le> 2 ^ 12 + 1 \<Longrightarrow> snd (count_code r c) \<le> 13"
proof -
  assume r: "2 \<le> r" "r \<le> 2 ^ 12 + 1"
  have "\<not> 13 \<le> hbit r"
  proof
    assume "13 \<le> hbit r"
    then have "(2::nat) ^ 13 \<le> 2 ^ hbit r" by (intro power_increasing) auto
    then show False using hbit_bounds[of r] r by simp
  qed
  then show "snd (count_code r c) \<le> 13" by (simp add: count_code_def Let_def)
qed

lemma zero_run_len: "flen (zero_run k) = 2 * (k div 3) + 2"
  by (simp add: zero_run_def flen_threes)

lemma fields_len:
  "r \<le> 2 ^ 12 + 1 \<Longrightarrow> flen (nc_fields r z cs) \<le> 15 * length cs + (case z of None \<Rightarrow> 0 | Some k \<Rightarrow> 2 * (k div 3) + 2)"
proof (induction r z cs rule: nc_fields.induct)
  case (2 r z c cs)
  have len: "flen (count_code r c # fs) \<le> 13 + flen fs" if "1 < r" for fs
    using count_code_len[of r c] that 2(4) by (cases "count_code r c") simp
  have d: "2 * ((k + 1) div 3) \<le> 2 * (k div 3) + 2" for k :: nat by linarith
  show ?case
  proof (cases "r \<le> 1")
    case True
    then show ?thesis by simp
  next
    case False
    have r': "r - ncount c \<le> 2 ^ 12 + 1" using 2(4) by simp
    have len': "flen (count_code r c # fs) \<le> 13 + flen fs" for fs using len False by simp
    show ?thesis
    proof (cases z)
      case None
      then show ?thesis using 2(1)[OF False None r'] False len'[of "nc_fields (r - ncount c) (pending (c = 0)) cs"] by (auto split: if_splits)
    next
      case (Some k)
      show ?thesis
      proof (cases "c = 0")
        case True
        then show ?thesis using 2(2) False Some 2(4) d[of k] by simp
      next
        case c: False
        then show ?thesis using 2(3)[OF False Some c r'] False Some len'[of "nc_fields (r - ncount c) None cs"] by (simp add: zero_run_len)
      qed
    qed
  qed
qed simp

lemma format_len: "normalized tableLog norm \<Longrightarrow> flen (nc_format tableLog norm) \<le> 3844"
proof -
  assume n: "normalized tableLog norm"
  have "(2::nat) ^ tableLog \<le> 2 ^ 12" using normalized_range[OF n] by (intro power_increasing) auto
  then have "flen (nc_fields (2 ^ tableLog + 1) None norm) \<le> 15 * length norm" using fields_len[of "2 ^ tableLog + 1" None norm] by simp
  moreover have "length norm \<le> 256" using n by (simp add: normalized_def)
  ultimately show ?thesis by (simp add: nc_format_def)
qed

lemma writeNCount_generic:
  assumes "normalized tableLog norm" "length norm = maxSymbolValue + 1"
  shows "FSE_writeNCount buffer norm maxSymbolValue tableLog
    = FSE_writeNCount_generic buffer norm tableLog (\<not> length buffer < FSE_NCountWriteBound maxSymbolValue tableLog)"
  using normalized_range[OF assms(1)] assms(2) by (simp add: FSE_writeNCount_def FSE_MAX_TABLELOG_def FSE_MIN_TABLELOG_def)

lemma at_fields_bytes:
  assumes "n = (flen fs + 7) div 8"
  shows "at_fields (le_val (le_bytes n (fval fs) @ rest)) 0 fs"
proof -
  have l: "flen fs \<le> 8 * n" using assms by linarith
  then have "fval fs < 256 ^ n" using fval_bound[of fs] by (metis less_le_trans one_le_numeral pow256 power_increasing)
  then have "le_val (le_bytes n (fval fs) @ rest) = fval fs + 2 ^ (8 * n) * le_val rest" by (simp add: le_val_append le_val_le_bytes pow256)
  moreover have "(2::nat) ^ flen fs dvd 2 ^ (8 * n) * le_val rest" using l by (simp add: le_imp_power_dvd)
  ultimately have "le_val (le_bytes n (fval fs) @ rest) mod 2 ^ flen fs = fval fs" using fval_bound[of fs] by (metis mod_add_right_eq add.right_neutral dvd_imp_mod_0 mod_less)
  then show ?thesis by (simp add: at_fields_def)
qed

lemma ncount_write_read:
  assumes n: "normalized tableLog norm" "length norm = maxSymbolValue + 1" "maxSymbolValue \<le> maxSV"
  shows "case FSE_writeNCount buffer norm maxSymbolValue tableLog of
      Inr (n, mem) \<Rightarrow> n \<le> length buffer \<and> length mem = length buffer
        \<and> FSE_readNCount maxSV (take n mem @ rest) = Inr (n, norm @ replicate (maxSV - maxSymbolValue) 0, last_symbol norm, tableLog)
    | Inl e \<Rightarrow> length buffer < FSE_NCOUNTBOUND"
proof -
  define fs where "fs = nc_format tableLog norm"
  define n where "n = (flen fs + 7) div 8"
  note w = generic_writes[OF assms(1), of buffer "\<not> length buffer < FSE_NCountWriteBound maxSymbolValue tableLog", folded fs_def, folded n_def]
  show ?thesis
  proof (cases "2 * ((flen fs - 1) div 16) + 2 \<le> length buffer")
    case False
    have "(flen fs - 1) div 16 \<le> 240" using format_len[OF assms(1)] by (simp add: fs_def)
    then have "length buffer < FSE_NCOUNTBOUND" using False by (simp add: FSE_NCOUNTBOUND_def)
    then show ?thesis using w False unfolding writeNCount_generic[OF assms(1,2)] by simp
  next
    case True
    then obtain mem where m: "FSE_writeNCount buffer norm maxSymbolValue tableLog = Inr (n, mem)" "length mem = length buffer"
      "take n mem = le_bytes n (fval fs)" using w unfolding writeNCount_generic[OF assms(1,2)] by auto
    have nl: "n \<le> length buffer" using m(2) arg_cong[OF m(3), of length] by simp
    have "FSE_readNCount maxSV (take n mem @ rest) = Inr (n, norm @ replicate (maxSV + 1 - length norm) 0, last_symbol norm, tableLog)"
      unfolding n_def fs_def
      by (rule readNCount_reads[OF assms(1)]) (use assms(2,3) at_fields_bytes[OF n_def] m nl in \<open>simp_all add: n_def fs_def\<close>)
    then show ?thesis using m nl assms(2) by simp
  qed
qed

text \<open>
  Property C23: \<open>FSE_writeNCount\<close> and \<open>FSE_readNCount\<close> are inverse.  What is written for a normalized
  distribution, with anything after it, is read back as the same number of bytes, the same counts, the last
  symbol that has one and the same accuracy, for every larger alphabet of the reader; and the writer can only fail if the
  destination has fewer than \<open>FSE_NCOUNTBOUND\<close> bytes.\<close>

theorem ncount_roundtrip:
  assumes "normalized tableLog norm" "length norm = maxSymbolValue + 1" "maxSymbolValue \<le> maxSV"
  shows "case FSE_writeNCount buffer norm maxSymbolValue tableLog of
      Inr (n, mem) \<Rightarrow> n \<le> length buffer \<and> length mem = length buffer
        \<and> FSE_readNCount maxSV (take n mem @ rest) = Inr (n, norm @ replicate (maxSV - maxSymbolValue) 0, last_symbol norm, tableLog)
    | Inl e \<Rightarrow> length buffer < FSE_NCOUNTBOUND"
  by (rule ncount_write_read[OF assms])

lemma last_symbol_example: "last_symbol [16, 0, 0, -1, 15] = 4"
  by (simp add: last_symbol_def)

theorem ncount_roundtrip_witness:
  "\<exists>n mem. FSE_writeNCount (replicate 512 0) [16, 0, 0, -1, 15] 4 5 = Inr (n, mem)
     \<and> FSE_readNCount 7 (take n mem @ [1, 2, 3]) = Inr (n, [16, 0, 0, -1, 15, 0, 0, 0], 4, 5)"
proof -
  have n: "normalized 5 [16, 0, 0, -1, 15]" by (simp add: normalized_def ncount_def)
  have r: "replicate (7 - 4) (0::int) = [0, 0, 0]" by (simp add: numeral_3_eq_3)
  from ncount_roundtrip[OF n, of 4 7 "replicate 512 0" "[1, 2, 3]", unfolded r]
  show ?thesis by (auto simp: last_symbol_example FSE_NCOUNTBOUND_def split: sum.splits)
qed

text \<open>A distribution whose description needs more than the bound.\<close>

definition wide_norm :: "int list" where
  "wide_norm = [0, 1, 0, 1, 0, 1, 0, 1, 0, 1, 0, 2, 0, 4, 0, 8, 0, 237]"

lemma wide_normalized: "normalized 8 wide_norm" "length wide_norm = 17 + 1"
  by (simp_all add: normalized_def wide_norm_def ncount_def)

lemma wide_length: "flen (nc_format 8 wide_norm) = 161"
  by (simp add: nc_format_def wide_norm_def count_code_def zero_run_def ncount_def hbit.simps Let_def)

text \<open>
  Property C40: the bound under which \<open>FSE_writeNCount\<close> drops its checks is too small.  With 18 symbols
  and the accuracy 8 it is 21 bytes; for a normalized distribution of them the unchecked writer then
  stores a byte outside of a destination of this size, while 22 bytes are enough.\<close>

theorem ncount_bound_too_small:
  "normalized 8 wide_norm \<and> length wide_norm = 18 \<and> FSE_NCountWriteBound 17 8 = 21
   \<and> FSE_writeNCount (replicate 21 0) wide_norm 17 8 = Inl OutOfBounds
   \<and> (\<exists>mem. FSE_writeNCount (replicate 22 0) wide_norm 17 8 = Inr (21, mem))"
proof -
  note g = generic_writes[OF wide_normalized(1), unfolded wide_length]
  have b: "FSE_NCountWriteBound 17 8 = 21" by (simp add: FSE_NCountWriteBound_def Let_def)
  have w: "FSE_writeNCount buffer wide_norm 17 8 = FSE_writeNCount_generic buffer wide_norm 8 (\<not> length buffer < 21)" for buffer
    using writeNCount_generic[OF wide_normalized] b by simp
  have "FSE_writeNCount (replicate 21 0) wide_norm 17 8 = Inl OutOfBounds" using g[of "replicate 21 0" True] w by (simp add: werr_def)
  moreover have "\<exists>mem. FSE_writeNCount (replicate 22 0) wide_norm 17 8 = Inr (21, mem)" using g[of "replicate 22 0" True] w by auto
  ultimately show ?thesis using wide_normalized b by simp
qed

end
