(* ===== verification/Zstd_FrameHeader.thy ===== *)
theory Zstd_FrameHeader
  imports Zstd_Errors Zstd_Mem
begin

section \<open>Frame headers and skippable frames\<close>

text \<open>
  The parsing side, from \<^verbatim>\<open>decompress/zstd_decompress.c\<close>: identification of frames, the
  frame header with its two formats, skippable frames.  The writing side, from
  \<^verbatim>\<open>compress/zstd_compress.c\<close>: \<open>ZSTD_writeFrameHeader\<close>, \<open>ZSTD_writeSkippableFrame\<close>,
  \<open>ZSTD_writeLastEmptyBlock\<close>.  A source pointer with its size is the byte list of that
  length, a destination is the byte list it points to and is returned updated.  A non-NULL
  source is assumed; legacy formats are not compiled in.
\<close>

datatype ZSTD_format_e = ZSTD_f_zstd1 | ZSTD_f_zstd1_magicless

definition ZSTD_MAGICNUMBER :: U32 where "ZSTD_MAGICNUMBER = 0xFD2FB528"
definition ZSTD_MAGIC_SKIPPABLE_START :: U32 where "ZSTD_MAGIC_SKIPPABLE_START = 0x184D2A50"
definition ZSTD_MAGIC_SKIPPABLE_MASK :: U32 where "ZSTD_MAGIC_SKIPPABLE_MASK = 0xFFFFFFF0"
definition ZSTD_FRAMEIDSIZE :: nat where "ZSTD_FRAMEIDSIZE = 4"
definition ZSTD_SKIPPABLEHEADERSIZE :: nat where "ZSTD_SKIPPABLEHEADERSIZE = 8"
definition ZSTD_FRAMEHEADERSIZE_MAX :: nat where "ZSTD_FRAMEHEADERSIZE_MAX = 18"
definition ZSTD_blockHeaderSize :: nat where "ZSTD_blockHeaderSize = 3"
definition ZSTD_WINDOWLOG_ABSOLUTEMIN :: nat where "ZSTD_WINDOWLOG_ABSOLUTEMIN = 10"
definition ZSTD_WINDOWLOG_MAX :: nat where "ZSTD_WINDOWLOG_MAX = 31"
definition ZSTD_BLOCKSIZE_MAX :: nat where "ZSTD_BLOCKSIZE_MAX = 2 ^ 17"
definition ZSTD_CONTENTSIZE_UNKNOWN :: U64 where "ZSTD_CONTENTSIZE_UNKNOWN = 0 - 1"
definition ZSTD_CONTENTSIZE_ERROR :: U64 where "ZSTD_CONTENTSIZE_ERROR = 0 - 2"
definition ZSTD_did_fieldSize :: "nat list" where "ZSTD_did_fieldSize = [0, 1, 2, 4]"
definition ZSTD_fcs_fieldSize :: "nat list" where "ZSTD_fcs_fieldSize = [0, 2, 4, 8]"

lemmas frame_constants [simp] =
  ZSTD_FRAMEIDSIZE_def ZSTD_SKIPPABLEHEADERSIZE_def ZSTD_FRAMEHEADERSIZE_MAX_def ZSTD_blockHeaderSize_def
  ZSTD_WINDOWLOG_ABSOLUTEMIN_def ZSTD_WINDOWLOG_MAX_def

definition ZSTD_FRAMEHEADERSIZE_PREFIX :: "ZSTD_format_e \<Rightarrow> nat" where
  "ZSTD_FRAMEHEADERSIZE_PREFIX format = (if format = ZSTD_f_zstd1 then 5 else 1)"

definition ZSTD_FRAMEHEADERSIZE_MIN :: "ZSTD_format_e \<Rightarrow> nat" where
  "ZSTD_FRAMEHEADERSIZE_MIN format = (if format = ZSTD_f_zstd1 then 6 else 2)"

definition ZSTD_startingInputLength :: "ZSTD_format_e \<Rightarrow> nat" where
  "ZSTD_startingInputLength format = ZSTD_FRAMEHEADERSIZE_PREFIX format"

datatype ZSTD_FrameType_e = ZSTD_frame | ZSTD_skippableFrame

record ZSTD_FrameHeader =
  fh_frameContentSize :: U64
  fh_windowSize :: U64
  fh_blockSizeMax :: U32
  fh_frameType :: ZSTD_FrameType_e
  fh_headerSize :: U32
  fh_dictID :: U32
  fh_checksumFlag :: U32

abbreviation readLE16 :: "buffer \<Rightarrow> nat \<Rightarrow> U16" where "readLE16 \<equiv> MEM_readLE16 LittleEndian"
abbreviation readLE24 :: "buffer \<Rightarrow> nat \<Rightarrow> U32" where "readLE24 \<equiv> MEM_readLE24 LittleEndian"
abbreviation readLE32 :: "buffer \<Rightarrow> nat \<Rightarrow> U32" where "readLE32 \<equiv> MEM_readLE32 LittleEndian"
abbreviation readLE64 :: "buffer \<Rightarrow> nat \<Rightarrow> U64" where "readLE64 \<equiv> MEM_readLE64 LittleEndian"

definition is_skippable_magic :: "U32 \<Rightarrow> bool" where
  "is_skippable_magic magic \<longleftrightarrow> magic AND ZSTD_MAGIC_SKIPPABLE_MASK = ZSTD_MAGIC_SKIPPABLE_START"

definition ZSTD_isFrame :: "buffer \<Rightarrow> bool" where
  "ZSTD_isFrame buf =
     (if length buf < ZSTD_FRAMEIDSIZE then False
      else let magic = readLE32 buf 0
           in if magic = ZSTD_MAGICNUMBER then True
              else if is_skippable_magic magic then True
              else False)"

definition ZSTD_isSkippableFrame :: "buffer \<Rightarrow> bool" where
  "ZSTD_isSkippableFrame buf =
     (if length buf < ZSTD_FRAMEIDSIZE then False
      else is_skippable_magic (readLE32 buf 0))"

subsection \<open>Parsing the header\<close>

definition ZSTD_frameHeaderSize_internal :: "buffer \<Rightarrow> ZSTD_format_e \<Rightarrow> ZSTD_ErrorCode + nat" where
  "ZSTD_frameHeaderSize_internal src format =
     (let minInputSize = ZSTD_startingInputLength format
      in if length src < minInputSize then Inl ZSTD_error_srcSize_wrong
         else
           let fhd = src ! (minInputSize - 1);
               dictIDcode = unat (fhd AND 3);
               singleSegment = unat (drop_bit 5 fhd AND 1);
               fcsId = unat (drop_bit 6 fhd)
           in Inr (minInputSize + of_bool (singleSegment = 0)
                   + ZSTD_did_fieldSize ! dictIDcode + ZSTD_fcs_fieldSize ! fcsId
                   + of_bool (singleSegment \<noteq> 0 \<and> fcsId = 0)))"

definition ZSTD_frameHeaderSize :: "buffer \<Rightarrow> ZSTD_ErrorCode + nat" where
  "ZSTD_frameHeaderSize src = ZSTD_frameHeaderSize_internal src ZSTD_f_zstd1"

text \<open>
  \<open>ZSTD_getFrameHeader_advanced\<close> returns 0 with the structure filled (\<open>Header\<close>), or the
  size of input it wants (\<open>Wants\<close>), or an error.
\<close>

datatype header_result = Header ZSTD_FrameHeader | Wants nat

definition check_short_prefix :: "buffer \<Rightarrow> bool" where
  "check_short_prefix src =
     (let toCopy = min 4 (length src);
          hbuf = MEM_writeLE32 LittleEndian (replicate 4 0) 0 ZSTD_MAGICNUMBER;
          hbuf = write_at hbuf 0 (take toCopy src)
      in if readLE32 hbuf 0 \<noteq> ZSTD_MAGICNUMBER
         then let hbuf = MEM_writeLE32 LittleEndian hbuf 0 ZSTD_MAGIC_SKIPPABLE_START;
                  hbuf = write_at hbuf 0 (take toCopy src)
              in is_skippable_magic (readLE32 hbuf 0)
         else True)"

definition header_windowSize :: "BYTE \<Rightarrow> ZSTD_ErrorCode + U64" where
  "header_windowSize wlByte =
     (let windowLog = unat (drop_bit 3 wlByte) + ZSTD_WINDOWLOG_ABSOLUTEMIN
      in if ZSTD_WINDOWLOG_MAX < windowLog then Inl ZSTD_error_frameParameter_windowTooLarge
         else let windowSize = push_bit windowLog 1
              in Inr (windowSize + drop_bit 3 windowSize * ucast (wlByte AND 7)))"

definition header_dictID :: "buffer \<Rightarrow> nat \<Rightarrow> nat \<Rightarrow> U32 \<times> nat" where
  "header_dictID ip pos dictIDSizeCode =
     (if dictIDSizeCode = 1 then (ucast (ip ! pos), pos + 1)
      else if dictIDSizeCode = 2 then (ucast (readLE16 ip pos), pos + 2)
      else if dictIDSizeCode = 3 then (readLE32 ip pos, pos + 4)
      else (0, pos))"

definition header_contentSize :: "buffer \<Rightarrow> nat \<Rightarrow> nat \<Rightarrow> bool \<Rightarrow> U64" where
  "header_contentSize ip pos fcsID singleSegment =
     (if fcsID = 1 then ucast (readLE16 ip pos) + 256
      else if fcsID = 2 then ucast (readLE32 ip pos)
      else if fcsID = 3 then readLE64 ip pos
      else if singleSegment then ucast (ip ! pos)
      else ZSTD_CONTENTSIZE_UNKNOWN)"

definition header_fields :: "buffer \<Rightarrow> nat \<Rightarrow> nat \<Rightarrow> ZSTD_ErrorCode + header_result" where
  "header_fields ip minInputSize fhsize =
     (let fhdByte = ip ! (minInputSize - 1);
          pos = minInputSize;
          dictIDSizeCode = unat (fhdByte AND 3);
          checksumFlag = (ucast (drop_bit 2 fhdByte AND 1) :: U32);
          singleSegment = (drop_bit 5 fhdByte AND 1 \<noteq> 0);
          fcsID = unat (drop_bit 6 fhdByte)
      in if fhdByte AND 0x08 \<noteq> 0 then Inl ZSTD_error_frameParameter_unsupported
         else bindE
           (if \<not> singleSegment
            then bindE (header_windowSize (ip ! pos)) (\<lambda>windowSize. Inr (windowSize, pos + 1))
            else Inr (0, pos))
           (\<lambda>(windowSize, pos).
             let (dictID, pos) = header_dictID ip pos dictIDSizeCode;
                 frameContentSize = header_contentSize ip pos fcsID singleSegment;
                 windowSize = (if singleSegment then frameContentSize else windowSize)
             in Inr (Header \<lparr>fh_frameContentSize = frameContentSize, fh_windowSize = windowSize,
                  fh_blockSizeMax = ucast (min windowSize (of_nat ZSTD_BLOCKSIZE_MAX)),
                  fh_frameType = ZSTD_frame, fh_headerSize = of_nat fhsize, fh_dictID = dictID,
                  fh_checksumFlag = checksumFlag\<rparr>)))"

definition ZSTD_getFrameHeader_advanced ::
  "buffer \<Rightarrow> ZSTD_format_e \<Rightarrow> ZSTD_ErrorCode + header_result" where
  "ZSTD_getFrameHeader_advanced src format =
     (let minInputSize = ZSTD_startingInputLength format; srcSize = length src
      in if srcSize < minInputSize
         then (if 0 < srcSize \<and> format \<noteq> ZSTD_f_zstd1_magicless \<and> \<not> check_short_prefix src
               then Inl ZSTD_error_prefix_unknown
               else Inr (Wants minInputSize))
         else if format \<noteq> ZSTD_f_zstd1_magicless \<and> readLE32 src 0 \<noteq> ZSTD_MAGICNUMBER
         then (if is_skippable_magic (readLE32 src 0)
               then (if srcSize < ZSTD_SKIPPABLEHEADERSIZE then Inr (Wants ZSTD_SKIPPABLEHEADERSIZE)
                     else Inr (Header \<lparr>fh_frameContentSize = ucast (readLE32 src ZSTD_FRAMEIDSIZE),
                        fh_windowSize = 0, fh_blockSizeMax = 0, fh_frameType = ZSTD_skippableFrame,
                        fh_headerSize = of_nat ZSTD_SKIPPABLEHEADERSIZE,
                        fh_dictID = readLE32 src 0 - ZSTD_MAGIC_SKIPPABLE_START, fh_checksumFlag = 0\<rparr>))
               else Inl ZSTD_error_prefix_unknown)
         else bindE (ZSTD_frameHeaderSize_internal src format)
           (\<lambda>fhsize. if srcSize < fhsize then Inr (Wants fhsize)
                     else header_fields src minInputSize fhsize))"

definition ZSTD_getFrameHeader :: "buffer \<Rightarrow> ZSTD_ErrorCode + header_result" where
  "ZSTD_getFrameHeader src = ZSTD_getFrameHeader_advanced src ZSTD_f_zstd1"

definition ZSTD_getFrameContentSize :: "buffer \<Rightarrow> U64" where
  "ZSTD_getFrameContentSize src =
     (case ZSTD_getFrameHeader src of
        Inr (Header zfh) \<Rightarrow>
          if fh_frameType zfh = ZSTD_skippableFrame then 0 else fh_frameContentSize zfh
      | _ \<Rightarrow> ZSTD_CONTENTSIZE_ERROR)"

definition ZSTD_getDecompressedSize :: "buffer \<Rightarrow> U64" where
  "ZSTD_getDecompressedSize src =
     (let ret = ZSTD_getFrameContentSize src in if ZSTD_CONTENTSIZE_ERROR \<le> ret then 0 else ret)"

subsection \<open>Skippable frames\<close>

definition readSkippableFrameSize :: "buffer \<Rightarrow> ZSTD_ErrorCode + nat" where
  "readSkippableFrameSize src =
     (if length src < ZSTD_SKIPPABLEHEADERSIZE then Inl ZSTD_error_srcSize_wrong
      else let sizeU32 = readLE32 src ZSTD_FRAMEIDSIZE
           in if sizeU32 + of_nat ZSTD_SKIPPABLEHEADERSIZE < sizeU32
              then Inl ZSTD_error_frameParameter_unsupported
              else let skippableSize = ZSTD_SKIPPABLEHEADERSIZE + unat sizeU32
                   in if length src < skippableSize then Inl ZSTD_error_srcSize_wrong
                      else Inr skippableSize)"

text \<open>
  The error value which \<open>readSkippableFrameSize\<close> may hand to \<open>ZSTD_readSkippableFrame\<close> is a
  huge \<open>size_t\<close>; it fails the check against \<open>srcSize\<close> there.  The result is the payload
  written to \<open>dst\<close> and the magic variant.
\<close>

definition ZSTD_readSkippableFrame :: "nat \<Rightarrow> buffer \<Rightarrow> ZSTD_ErrorCode + buffer \<times> U32" where
  "ZSTD_readSkippableFrame dstCapacity src =
     (if length src < ZSTD_SKIPPABLEHEADERSIZE then Inl ZSTD_error_srcSize_wrong
      else
        let magicNumber = readLE32 src 0;
            skippableFrameSize = unat (size_result (readSkippableFrameSize src))
        in if \<not> ZSTD_isSkippableFrame src then Inl ZSTD_error_frameParameter_unsupported
           else if skippableFrameSize < ZSTD_SKIPPABLEHEADERSIZE \<or> length src < skippableFrameSize
           then Inl ZSTD_error_srcSize_wrong
           else
             let skippableContentSize = skippableFrameSize - ZSTD_SKIPPABLEHEADERSIZE
             in if dstCapacity < skippableContentSize then Inl ZSTD_error_dstSize_tooSmall
                else Inr (bytes_at src ZSTD_SKIPPABLEHEADERSIZE skippableContentSize,
                          magicNumber - ZSTD_MAGIC_SKIPPABLE_START))"

subsection \<open>Writing\<close>

record ZSTD_frameParameters =
  contentSizeFlag :: int
  fp_checksumFlag :: int
  noDictIDFlag :: int

record ZSTD_header_params =
  hp_fParams :: ZSTD_frameParameters
  hp_windowLog :: U32
  hp_format :: ZSTD_format_e

definition write_dictID :: "buffer \<Rightarrow> nat \<Rightarrow> nat \<Rightarrow> U32 \<Rightarrow> buffer \<times> nat" where
  "write_dictID op pos dictIDSizeCode dictID =
     (if dictIDSizeCode = 1 then (op[pos := ucast dictID], pos + 1)
      else if dictIDSizeCode = 2 then (MEM_writeLE16 LittleEndian op pos (ucast dictID), pos + 2)
      else if dictIDSizeCode = 3 then (MEM_writeLE32 LittleEndian op pos dictID, pos + 4)
      else (op, pos))"

definition write_contentSize :: "buffer \<Rightarrow> nat \<Rightarrow> nat \<Rightarrow> bool \<Rightarrow> U64 \<Rightarrow> buffer \<times> nat" where
  "write_contentSize op pos fcsCode singleSegment pledgedSrcSize =
     (if fcsCode = 1 then (MEM_writeLE16 LittleEndian op pos (ucast (pledgedSrcSize - 256)), pos + 2)
      else if fcsCode = 2 then (MEM_writeLE32 LittleEndian op pos (ucast pledgedSrcSize), pos + 4)
      else if fcsCode = 3 then (MEM_writeLE64 LittleEndian op pos pledgedSrcSize, pos + 8)
      else if singleSegment then (op[pos := ucast pledgedSrcSize], pos + 1)
      else (op, pos))"

definition ZSTD_writeFrameHeader ::
  "buffer \<Rightarrow> ZSTD_header_params \<Rightarrow> U64 \<Rightarrow> U32 \<Rightarrow> ZSTD_ErrorCode + buffer \<times> nat" where
  "ZSTD_writeFrameHeader dst params pledgedSrcSize dictID =
     (let fParams = hp_fParams params;
          dictIDSizeCodeLength = of_bool (dictID > 0) + of_bool (dictID \<ge> 256) + of_bool (dictID \<ge> 65536);
          dictIDSizeCode = (if noDictIDFlag fParams \<noteq> 0 then 0 else dictIDSizeCodeLength);
          checksumFlag = (of_bool (fp_checksumFlag fParams > 0) :: nat);
          windowSize = (push_bit (unat (hp_windowLog params)) 1 :: U32);
          singleSegment = (contentSizeFlag fParams \<noteq> 0 \<and> ucast windowSize \<ge> pledgedSrcSize);
          windowLogByte = (ucast (push_bit 3 (hp_windowLog params - of_nat ZSTD_WINDOWLOG_ABSOLUTEMIN)) :: BYTE);
          fcsCode = (if contentSizeFlag fParams \<noteq> 0
                     then of_bool (pledgedSrcSize \<ge> 256) + of_bool (pledgedSrcSize \<ge> 65536 + 256)
                          + of_bool (pledgedSrcSize \<ge> 0xFFFFFFFF)
                     else 0);
          frameHeaderDescriptionByte =
            (of_nat (dictIDSizeCode + checksumFlag * 2 ^ 2 + of_bool singleSegment * 2 ^ 5 + fcsCode * 2 ^ 6) :: BYTE)
      in if length dst < ZSTD_FRAMEHEADERSIZE_MAX then Inl ZSTD_error_dstSize_tooSmall
         else
           let (op, pos) = (if hp_format params = ZSTD_f_zstd1
                            then (MEM_writeLE32 LittleEndian dst 0 ZSTD_MAGICNUMBER, 4) else (dst, 0));
               (op, pos) = (op[pos := frameHeaderDescriptionByte], pos + 1);
               (op, pos) = (if \<not> singleSegment then (op[pos := windowLogByte], pos + 1) else (op, pos));
               (op, pos) = write_dictID op pos dictIDSizeCode dictID;
               (op, pos) = write_contentSize op pos fcsCode singleSegment pledgedSrcSize
           in Inr (op, pos))"

definition ZSTD_writeSkippableFrame ::
  "buffer \<Rightarrow> buffer \<Rightarrow> U32 \<Rightarrow> ZSTD_ErrorCode + buffer \<times> nat" where
  "ZSTD_writeSkippableFrame dst src magicVariant =
     (if length dst < length src + ZSTD_SKIPPABLEHEADERSIZE then Inl ZSTD_error_dstSize_tooSmall
      else if 0xFFFFFFFF < length src then Inl ZSTD_error_srcSize_wrong
      else if 15 < magicVariant then Inl ZSTD_error_parameter_outOfBound
      else
        let op = MEM_writeLE32 LittleEndian dst 0 (ZSTD_MAGIC_SKIPPABLE_START + magicVariant);
            op = MEM_writeLE32 LittleEndian op 4 (of_nat (length src));
            op = write_at op 8 src
        in Inr (op, length src + ZSTD_SKIPPABLEHEADERSIZE))"

definition ZSTD_writeLastEmptyBlock :: "buffer \<Rightarrow> ZSTD_ErrorCode + buffer \<times> nat" where
  "ZSTD_writeLastEmptyBlock dst =
     (if length dst < ZSTD_blockHeaderSize then Inl ZSTD_error_dstSize_tooSmall
      else let cBlockHeader24 = 1 + push_bit 1 0
           in Inr (MEM_writeLE24 LittleEndian dst 0 cBlockHeader24, ZSTD_blockHeaderSize))"

subsection \<open>Reading does not look past what it needs\<close>

lemma bytes_at_append: "p + n \<le> length xs \<Longrightarrow> bytes_at (xs @ ys) p n = bytes_at xs p n"
  by (simp add: bytes_at_def)

lemma read_append [simp]:
  "p + 2 \<le> length xs \<Longrightarrow> readLE16 (xs @ ys) p = readLE16 xs p"
  "p + 3 \<le> length xs \<Longrightarrow> readLE24 (xs @ ys) p = readLE24 xs p"
  "p + 4 \<le> length xs \<Longrightarrow> readLE32 (xs @ ys) p = readLE32 xs p"
  "p + 8 \<le> length xs \<Longrightarrow> readLE64 (xs @ ys) p = readLE64 xs p"
  by (simp_all add: mem_read_eqs bytes_at_append)

lemma unat_and_3: "unat (b AND 3 :: BYTE) = unat b mod 4"
  using unat_and_mask[of b 2] by (simp add: mask_eq_exp_minus_1)

lemma unat_and_7: "unat (b AND 7 :: BYTE) = unat b mod 8"
  using unat_and_mask[of b 3] by (simp add: mask_eq_exp_minus_1)

lemma unat_and_1: "unat (b AND 1 :: BYTE) = unat b mod 2"
  using unat_and_mask[of b 1] by (simp add: mask_eq_exp_minus_1)

lemma header_dictID_append:
  "pos + ZSTD_did_fieldSize ! code \<le> length ip \<Longrightarrow> code < 4 \<Longrightarrow>
    header_dictID (ip @ xs) pos code = header_dictID ip pos code"
  by (auto simp: header_dictID_def ZSTD_did_fieldSize_def nth_append nth_Cons numeral_eq_Suc split: nat.splits)

lemma header_dictID_pos:
  "code < 4 \<Longrightarrow> snd (header_dictID ip pos code) = pos + ZSTD_did_fieldSize ! code"
  by (auto simp: header_dictID_def ZSTD_did_fieldSize_def nth_Cons numeral_eq_Suc split: nat.splits)

lemma header_contentSize_append:
  "pos + ZSTD_fcs_fieldSize ! code + of_bool (single \<and> code = 0) \<le> length ip \<Longrightarrow> code < 4 \<Longrightarrow>
    header_contentSize (ip @ xs) pos code single = header_contentSize ip pos code single"
  by (auto simp: header_contentSize_def ZSTD_fcs_fieldSize_def nth_append nth_Cons numeral_eq_Suc split: nat.splits)

lemma field_codes: "unat (b AND 3 :: BYTE) < 4" "unat (drop_bit 6 b :: BYTE) < 4"
  using unat_less_exp[of b] by (simp_all add: unat_and_3 unat_drop_bit_div div_less_iff_less_mult)

lemma single_nat: "(unat (drop_bit 5 b AND 1 :: BYTE) \<noteq> 0) = (drop_bit 5 b AND 1 \<noteq> 0)"
  by (simp add: unat_eq_0)

lemma frameHeaderSize_internal_append:
  "ZSTD_startingInputLength format \<le> length src \<Longrightarrow>
    ZSTD_frameHeaderSize_internal (src @ xs) format = ZSTD_frameHeaderSize_internal src format"
  by (auto simp: ZSTD_frameHeaderSize_internal_def Let_def nth_append ZSTD_startingInputLength_def
      ZSTD_FRAMEHEADERSIZE_PREFIX_def)

lemma frameHeaderSize_internal_eq:
  assumes "n = ZSTD_startingInputLength format" "b = src ! (n - 1)"
  shows "ZSTD_frameHeaderSize_internal src format =
    (if length src < n then Inl ZSTD_error_srcSize_wrong
     else Inr (n + of_bool (drop_bit 5 b AND 1 = 0) + ZSTD_did_fieldSize ! unat (b AND 3)
       + ZSTD_fcs_fieldSize ! unat (drop_bit 6 b)
       + of_bool (drop_bit 5 b AND 1 \<noteq> 0 \<and> unat (drop_bit 6 b) = 0)))"
  unfolding ZSTD_frameHeaderSize_internal_def Let_def assms(1)[symmetric] assms(2)[symmetric]
  by (simp only: unat_eq_0)

lemma header_fields_append:
  assumes size: "ZSTD_frameHeaderSize_internal src format = Inr fhsize" and len: "fhsize \<le> length src"
  shows "header_fields (src @ xs) (ZSTD_startingInputLength format) fhsize =
    header_fields src (ZSTD_startingInputLength format) fhsize"
proof -
  define n where "n = ZSTD_startingInputLength format"
  define b where "b = src ! (n - 1)"
  define single where "single = (drop_bit 5 b AND 1 \<noteq> 0)"
  have n: "0 < n" "n \<le> length src"
    using size frameHeaderSize_internal_eq[OF n_def b_def]
    by (auto simp: n_def ZSTD_startingInputLength_def ZSTD_FRAMEHEADERSIZE_PREFIX_def Suc_le_eq split: if_splits)
  then have fh: "fhsize = n + of_bool (\<not> single) + ZSTD_did_fieldSize ! unat (b AND 3)
      + ZSTD_fcs_fieldSize ! unat (drop_bit 6 b) + of_bool (single \<and> unat (drop_bit 6 b) = 0)"
    using size frameHeaderSize_internal_eq[OF n_def b_def] by (auto simp: single_def)
  have byte: "(src @ xs) ! (n - 1) = b" using n by (auto simp: nth_append b_def)
  have win: "(src @ xs) ! n = src ! n" if "\<not> single" using that fh len by (simp add: nth_append)
  have did: "header_dictID (src @ xs) p (unat (b AND 3)) = header_dictID src p (unat (b AND 3))"
    if "p = n + of_bool (\<not> single)" for p
    using fh len that by (intro header_dictID_append field_codes) simp
  have fcs: "header_contentSize (src @ xs) p (unat (drop_bit 6 b)) single =
      header_contentSize src p (unat (drop_bit 6 b)) single"
    if "p = n + of_bool (\<not> single) + ZSTD_did_fieldSize ! unat (b AND 3)" for p
    using fh len that by (intro header_contentSize_append field_codes) simp
  show ?thesis
    unfolding header_fields_def n_def[symmetric] byte b_def[symmetric] Let_def single_def[symmetric]
    using win did[of n] did[of "n + 1"] fcs[of "n + ZSTD_did_fieldSize ! unat (b AND 3)"]
      fcs[of "n + 1 + ZSTD_did_fieldSize ! unat (b AND 3)"]
      header_dictID_pos[OF field_codes(1), of src _ b]
    by (cases single) (auto simp: split_def single_def split: bindE_split)
qed

subsection \<open>Magic numbers byte by byte\<close>

lemma readLE32_bytes: "readLE32 [a, b, c, d] 0 = of_nat (le_val [a, b, c, d])"
  by (simp add: mem_read_eqs bytes_at_def)

lemma readLE32_prefix: "4 \<le> length xs \<Longrightarrow> readLE32 xs 0 = readLE32 (take 4 xs) 0"
  by (simp add: mem_read_eqs bytes_at_def)

lemma unat_readLE32_bytes: "unat (readLE32 [a, b, c, d] 0) = le_val [a, b, c, d]"
  using le_val_less[of "[a, b, c, d]"] by (simp only: readLE32_bytes unat_of_nat) simp

lemma le_val_eq_iff: "length xs = length ys \<Longrightarrow> le_val xs = le_val ys \<longleftrightarrow> xs = ys"
  using le_bytes_inject by blast

lemma magic_bytes:
  "readLE32 [a, b, c, d] 0 = ZSTD_MAGICNUMBER \<longleftrightarrow> a = 0x28 \<and> b = 0xB5 \<and> c = 0x2F \<and> d = 0xFD"
proof -
  have "unat ZSTD_MAGICNUMBER = le_val [0x28, 0xB5, 0x2F, 0xFD]" by (simp add: ZSTD_MAGICNUMBER_def)
  then have "readLE32 [a, b, c, d] 0 = ZSTD_MAGICNUMBER \<longleftrightarrow> [a, b, c, d] = [0x28, 0xB5, 0x2F, 0xFD]"
    by (simp only: word_unat_eq_iff[of "readLE32 [a, b, c, d] 0"] unat_readLE32_bytes)
      (rule le_val_eq_iff, simp)
  then show ?thesis by simp
qed

lemma is_skippable_magic_div: "is_skippable_magic m \<longleftrightarrow> unat m div 16 = 0x184D2A5"
proof -
  have "ZSTD_MAGIC_SKIPPABLE_MASK = push_bit 4 (mask 28)"
    by (simp add: ZSTD_MAGIC_SKIPPABLE_MASK_def mask_eq_exp_minus_1 push_bit_eq_mult)
  moreover have "m AND push_bit 4 (mask 28) = push_bit 4 (drop_bit 4 m)"
    by (rule bit_word_eqI) (auto simp: bit_simps)
  ultimately have "unat (m AND ZSTD_MAGIC_SKIPPABLE_MASK) = unat m div 16 * 16"
    using unat_less_exp[of m] by (simp add: unat_push_bit_mod unat_drop_bit_div)
  then show ?thesis
    by (simp add: is_skippable_magic_def word_unat_eq_iff ZSTD_MAGIC_SKIPPABLE_START_def)
qed

lemma div_mod_16: "q < 16 \<Longrightarrow> q + 16 * r = n \<longleftrightarrow> q = n mod 16 \<and> r = (n :: nat) div 16"
  by auto

lemma skippable_bytes:
  "is_skippable_magic (readLE32 [a, b, c, d] 0) \<longleftrightarrow> unat a div 16 = 5 \<and> b = 0x2A \<and> c = 0x4D \<and> d = 0x18"
proof -
  define r where "r = le_val [b, c, d]"
  have "r = 0x184D2A \<longleftrightarrow> le_val [b, c, d] = le_val [0x2A, 0x4D, 0x18]" by (simp add: r_def)
  also have "\<dots> \<longleftrightarrow> [b, c, d] = [0x2A, 0x4D, 0x18]" by (rule le_val_eq_iff) simp
  finally have r: "r = 0x184D2A \<longleftrightarrow> b = 0x2A \<and> c = 0x4D \<and> d = 0x18" by simp
  have "le_val [a, b, c, d] = unat a + 256 * r" by (simp add: r_def)
  then have "is_skippable_magic (readLE32 [a, b, c, d] 0) \<longleftrightarrow> (unat a + 256 * r) div 16 = 0x184D2A5"
    by (simp only: is_skippable_magic_div unat_readLE32_bytes)
  also have "(unat a + 256 * r) div 16 = unat a div 16 + 16 * r" by presburger
  also have "(unat a div 16 + 16 * r = 0x184D2A5) = (unat a div 16 = 5 \<and> r = 0x184D2A)"
    using div_mod_16[of "unat a div 16" r "0x184D2A5"] unat_byte_less[of a] by (simp add: div_less_iff_less_mult)
  finally show ?thesis by (simp add: r)
qed

lemma magic_write:
  "MEM_writeLE32 LittleEndian (replicate 4 0) 0 ZSTD_MAGICNUMBER = [0x28, 0xB5, 0x2F, 0xFD]"
  "length h = 4 \<Longrightarrow> MEM_writeLE32 LittleEndian h 0 ZSTD_MAGIC_SKIPPABLE_START = [0x50, 0x2A, 0x4D, 0x18]"
  by (simp_all add: mem_write_eqs write_at_def le_bytes_4_nat ZSTD_MAGICNUMBER_def ZSTD_MAGIC_SKIPPABLE_START_def)

text \<open>Which short inputs may still become a frame: all bytes present match a magic number.\<close>

fun matches :: "('a \<Rightarrow> bool) list \<Rightarrow> 'a list \<Rightarrow> bool" where
  "matches (P # Ps) (x # xs) = (P x \<and> matches Ps xs)"
| "matches Ps xs = True"

lemma matches_prefix: "matches Ps (xs @ ys) \<Longrightarrow> matches Ps xs"
  by (induction Ps xs rule: matches.induct) simp_all

definition magic_prefix :: "buffer \<Rightarrow> bool" where
  "magic_prefix src \<longleftrightarrow>
     matches [\<lambda>b. b = 0x28, \<lambda>b. b = 0xB5, \<lambda>b. b = 0x2F, \<lambda>b. b = 0xFD] src \<or>
     matches [\<lambda>b. unat b div 16 = 5, \<lambda>b. b = 0x2A, \<lambda>b. b = 0x4D, \<lambda>b. b = 0x18] src"

lemma magic_prefix_append: "magic_prefix (xs @ ys) \<Longrightarrow> magic_prefix xs"
  using matches_prefix unfolding magic_prefix_def by blast

lemma list_of_4: "4 \<le> length xs \<Longrightarrow> \<exists>a b c d ys. xs = a # b # c # d # ys"
  by (auto simp: numeral_eq_Suc Suc_le_length_iff)

lemma magic_prefix_long:
  assumes "4 \<le> length src"
  shows "readLE32 src 0 = ZSTD_MAGICNUMBER \<or> is_skippable_magic (readLE32 src 0) \<longleftrightarrow> magic_prefix src"
proof -
  from list_of_4[OF assms] obtain a b c d ys where src: "src = a # b # c # d # ys" by blast
  have "readLE32 src 0 = readLE32 [a, b, c, d] 0" using readLE32_prefix[OF assms] by (simp add: src)
  then show ?thesis by (simp add: magic_bytes skippable_bytes magic_prefix_def src)
qed

lemma check_short_prefix_eq:
  assumes "length src < 5"
  shows "check_short_prefix src \<longleftrightarrow> magic_prefix src"
proof -
  note def = check_short_prefix_def magic_write Let_def write_at_def magic_bytes skippable_bytes magic_prefix_def
  consider "src = []" | a where "src = [a]" | a b where "src = [a, b]" | a b c where "src = [a, b, c]"
    | a b c d where "src = [a, b, c, d]"
    using assms by (auto simp: less_Suc_eq numeral_nat length_Suc_conv)
  then show ?thesis
    by cases (auto simp: def)
qed

lemma frameHeaderSize_internal_bounds:
  assumes "ZSTD_frameHeaderSize_internal src format = Inr n"
  shows "ZSTD_startingInputLength format \<le> length src" "ZSTD_FRAMEHEADERSIZE_MIN format \<le> n" "n \<le> 18"
proof -
  define b where "b = src ! (ZSTD_startingInputLength format - 1)"
  have codes: "unat (b AND 3) \<in> {0, 1, 2, 3}" "unat (drop_bit 6 b) \<in> {0, 1, 2, 3}"
    using field_codes[of b] by auto
  show len: "ZSTD_startingInputLength format \<le> length src"
    using assms frameHeaderSize_internal_eq[OF refl b_def] by (auto split: if_splits)
  with assms frameHeaderSize_internal_eq[OF refl b_def]
  have "n = ZSTD_startingInputLength format + of_bool (drop_bit 5 b AND 1 = 0)
      + ZSTD_did_fieldSize ! unat (b AND 3) + ZSTD_fcs_fieldSize ! unat (drop_bit 6 b)
      + of_bool (drop_bit 5 b AND 1 \<noteq> 0 \<and> unat (drop_bit 6 b) = 0)" by simp
  then show "ZSTD_FRAMEHEADERSIZE_MIN format \<le> n" "n \<le> 18"
    using codes by (auto simp: ZSTD_startingInputLength_def ZSTD_FRAMEHEADERSIZE_PREFIX_def
        ZSTD_FRAMEHEADERSIZE_MIN_def ZSTD_did_fieldSize_def ZSTD_fcs_fieldSize_def split: if_splits)
qed

lemma prefix_cases:
  "format = ZSTD_f_zstd1 \<and> ZSTD_startingInputLength format = 5 \<or>
   format = ZSTD_f_zstd1_magicless \<and> ZSTD_startingInputLength format = 1"
  by (cases format) (simp_all add: ZSTD_startingInputLength_def ZSTD_FRAMEHEADERSIZE_PREFIX_def)

lemma getFrameHeader_enough:
  assumes "ZSTD_startingInputLength format \<le> length src"
  shows "ZSTD_getFrameHeader_advanced src format =
    (if format = ZSTD_f_zstd1 \<and> readLE32 src 0 \<noteq> ZSTD_MAGICNUMBER
     then (if is_skippable_magic (readLE32 src 0)
           then (if length src < 8 then Inr (Wants 8)
                 else Inr (Header \<lparr>fh_frameContentSize = ucast (readLE32 src 4),
                    fh_windowSize = 0, fh_blockSizeMax = 0, fh_frameType = ZSTD_skippableFrame,
                    fh_headerSize = 8,
                    fh_dictID = readLE32 src 0 - ZSTD_MAGIC_SKIPPABLE_START, fh_checksumFlag = 0\<rparr>))
           else Inl ZSTD_error_prefix_unknown)
     else bindE (ZSTD_frameHeaderSize_internal src format)
       (\<lambda>fhsize. if length src < fhsize then Inr (Wants fhsize)
                 else header_fields src (ZSTD_startingInputLength format) fhsize))"
  using assms by (cases format) (auto simp: ZSTD_getFrameHeader_advanced_def Let_def)

lemma header_fields_not_wants: "header_fields src k m \<noteq> Inr (Wants n)"
  by (auto simp: header_fields_def Let_def split: prod.splits if_splits)

lemma getFrameHeader_wants:
  assumes "ZSTD_getFrameHeader_advanced src format = Inr (Wants n)"
  shows "length src < n" "n \<le> 18"
proof -
  note fields = header_fields_not_wants
  show "length src < n"
    using assms by (auto simp: ZSTD_getFrameHeader_advanced_def Let_def fields split: if_splits)
  show "n \<le> 18"
    using assms prefix_cases[of format] frameHeaderSize_internal_bounds(3)[of src format]
    by (auto simp: ZSTD_getFrameHeader_advanced_def Let_def fields split: if_splits)
qed

lemma getFrameHeader_append:
  assumes "ZSTD_getFrameHeader_advanced src format = r" "\<nexists>n. r = Inr (Wants n)"
  shows "ZSTD_getFrameHeader_advanced (src @ xs) format = r"
proof (cases "ZSTD_startingInputLength format \<le> length src")
  case False
  then have r: "r = Inl ZSTD_error_prefix_unknown" and f: "format = ZSTD_f_zstd1"
    and np: "\<not> check_short_prefix src" and len: "length src < 5"
    using assms prefix_cases[of format] by (auto simp: ZSTD_getFrameHeader_advanced_def Let_def split: if_splits)
  then have "\<not> magic_prefix (src @ xs)"
    using check_short_prefix_eq[OF len] magic_prefix_append by blast
  moreover have "src \<noteq> []"
    using np by (auto simp: check_short_prefix_eq magic_prefix_def)
  ultimately show ?thesis
    using magic_prefix_long[of "src @ xs"] check_short_prefix_eq[of "src @ xs"] prefix_cases[of format]
    by (auto simp: ZSTD_getFrameHeader_advanced_def Let_def r f)
next
  case True
  have read0: "readLE32 (src @ xs) 0 = readLE32 src 0" if "format = ZSTD_f_zstd1"
    using True that prefix_cases[of format] by auto
  show ?thesis
  proof (cases "format = ZSTD_f_zstd1 \<and> readLE32 src 0 \<noteq> ZSTD_MAGICNUMBER")
    case skip: True
    with assms True read0 show ?thesis
      by (cases "length src < 8") (auto simp: getFrameHeader_enough split: if_splits)
  next
    case False
    obtain fhsize where fh: "ZSTD_frameHeaderSize_internal src format = Inr fhsize"
      using True by (simp add: ZSTD_frameHeaderSize_internal_def Let_def)
    have sz: "fhsize \<le> length src"
      using assms True False fh by (auto simp: getFrameHeader_enough split: if_splits)
    have "ZSTD_getFrameHeader_advanced (src @ xs) format =
        header_fields (src @ xs) (ZSTD_startingInputLength format) fhsize"
      using True False sz fh read0 frameHeaderSize_internal_append[OF True, of xs]
      by (auto simp: getFrameHeader_enough)
    also have "\<dots> = header_fields src (ZSTD_startingInputLength format) fhsize"
      by (rule header_fields_append[OF fh sz])
    also have "\<dots> = r"
      using assms(1) True False sz fh by (auto simp: getFrameHeader_enough)
    finally show ?thesis .
  qed
qed

subsection \<open>Written headers parse\<close>

lemma write_at_append:
  "length bs \<le> length R \<Longrightarrow> n = length P \<Longrightarrow> write_at (P @ R) n bs = P @ bs @ drop (length bs) R"
  by (simp add: write_at_def)

lemma update_append: "Suc 0 \<le> length R \<Longrightarrow> n = length P \<Longrightarrow> (P @ R)[n := x] = P @ x # drop (Suc 0) R"
  by (cases R) (simp_all add: list_update_append)

lemma bytes_at_middle: "n = length P \<Longrightarrow> k = length bs \<Longrightarrow> bytes_at (P @ bs @ R) n k = bs"
  by (simp add: bytes_at_def)

lemma le_bytes_ucast: "8 * n \<le> LENGTH('b) \<Longrightarrow> le_bytes n (unat (ucast w :: 'b::len word)) = le_bytes n (unat w)"
  using le_bytes_mod[of n "unat w mod 2 ^ LENGTH('b)"] le_bytes_mod[of n "unat w"]
  by (simp add: unat_ucast_mod pow256 mod_pow2_cancel)

lemma le_bytes_1: "le_bytes (Suc 0) (unat w) = [ucast w]"
  by (simp add: ucast_byte_of_nat[symmetric] del: of_nat_unat)

lemma write_dictID_eq:
  assumes "code < 4" "pos = length P" "ZSTD_did_fieldSize ! code \<le> length R"
  shows "write_dictID (P @ R) pos code d =
    (P @ le_bytes (ZSTD_did_fieldSize ! code) (unat d) @ drop (ZSTD_did_fieldSize ! code) R,
     pos + ZSTD_did_fieldSize ! code)"
proof -
  consider "code = 0" | "code = 1" | "code = 2" | "code = 3" using assms(1) by linarith
  then show ?thesis
    by cases (use assms in \<open>simp_all add: write_dictID_def ZSTD_did_fieldSize_def mem_write_eqs write_at_append
        le_bytes_ucast update_append le_bytes_1 del: le_bytes.simps(2)\<close>)
qed

definition fcs_bytes :: "nat \<Rightarrow> bool \<Rightarrow> U64 \<Rightarrow> buffer" where
  "fcs_bytes code single p =
     (if code = 1 then le_bytes 2 (unat (p - 256)) else if code = 2 then le_bytes 4 (unat p)
      else if code = 3 then le_bytes 8 (unat p) else if single then le_bytes 1 (unat p) else [])"

lemma length_fcs_bytes:
  "code < 4 \<Longrightarrow> length (fcs_bytes code single p) = ZSTD_fcs_fieldSize ! code + of_bool (single \<and> code = 0)"
proof -
  assume "code < 4"
  then consider "code = 0" | "code = 1" | "code = 2" | "code = 3" by linarith
  then show ?thesis by cases (simp_all add: fcs_bytes_def ZSTD_fcs_fieldSize_def del: le_bytes.simps(2))
qed

lemma write_contentSize_eq:
  assumes "pos = length P" "length (fcs_bytes code single p) \<le> length R"
  shows "write_contentSize (P @ R) pos code single p =
    (P @ fcs_bytes code single p @ drop (length (fcs_bytes code single p)) R,
     pos + length (fcs_bytes code single p))"
  using assms
  by (auto simp: write_contentSize_def fcs_bytes_def mem_write_eqs write_at_append le_bytes_ucast
      update_append le_bytes_1 simp del: le_bytes.simps(2))

text \<open>The codes which the writer chooses for the width of the two variable fields.\<close>

definition did_code :: "U32 \<Rightarrow> nat" where
  "did_code d = of_bool (d > 0) + of_bool (d \<ge> 256) + of_bool (d \<ge> 65536)"

definition fcs_code :: "U64 \<Rightarrow> nat" where
  "fcs_code p = of_bool (p \<ge> 256) + of_bool (p \<ge> 65536 + 256) + of_bool (p \<ge> 0xFFFFFFFF)"

lemma did_code_less: "did_code d < 4" and fcs_code_less: "fcs_code p < 4"
  by (simp_all add: did_code_def fcs_code_def)

lemma read_middle:
  "pos = length P \<Longrightarrow> readLE16 (P @ le_bytes 2 v @ R) pos = of_nat (v mod 2 ^ 16)"
  "pos = length P \<Longrightarrow> readLE32 (P @ le_bytes 4 v @ R) pos = of_nat (v mod 2 ^ 32)"
  "pos = length P \<Longrightarrow> readLE64 (P @ le_bytes 8 v @ R) pos = of_nat (v mod 2 ^ 64)"
  by (simp_all add: mem_read_eqs bytes_at_middle)

lemma header_dictID_read:
  assumes "code = did_code d" "pos = length P"
  shows "header_dictID (P @ le_bytes (ZSTD_did_fieldSize ! code) (unat d) @ R) pos code =
    (d, pos + ZSTD_did_fieldSize ! code)"
proof -
  consider "d = 0" "code = 0" | "unat d < 256" "code = 1" | "unat d < 65536" "code = 2" | "code = 3"
    using assms(1) by (cases "unat d = 0"; cases "unat d < 256"; cases "unat d < 65536")
      (auto simp: did_code_def word_less_nat_alt word_le_nat_alt unat_eq_0)
  then show ?thesis
  proof cases
    case 4
    then show ?thesis
      using assms(2) unat_less_exp[of d] read_middle(2)[OF assms(2), of "unat d" R]
      by (simp add: header_dictID_def ZSTD_did_fieldSize_def)
  qed (use assms(2) in \<open>simp_all add: header_dictID_def ZSTD_did_fieldSize_def read_middle le_bytes_1
      word_unat_eq_iff unat_ucast_mod unat_of_nat del: le_bytes.simps(2)\<close>)
qed

lemma header_contentSize_read:
  assumes "code = fcs_code p" "pos = length P" "code = 0 \<longrightarrow> single"
  shows "header_contentSize (P @ fcs_bytes code single p @ R) pos code single = p"
proof -
  have p: "unat p < 2 ^ 64" using unat_less_exp[of p] by simp
  consider "unat p < 256" "code = 0" | "256 \<le> unat p" "unat p < 65792" "code = 1"
    | "unat p < 4294967295" "code = 2" | "code = 3"
    using assms(1) by (cases "unat p < 256"; cases "unat p < 65792"; cases "unat p < 4294967295")
      (auto simp: fcs_code_def word_le_nat_alt)
  then show ?thesis
  proof cases
    case 2
    define q where "q = unat p - 256"
    from 2 have "unat (p - 256) = q" "unat p = q + 256" "q < 65536"
      by (simp_all add: unat_sub word_le_nat_alt q_def)
    with 2 assms(2) show ?thesis
      by (simp add: header_contentSize_def fcs_bytes_def read_middle word_unat_eq_iff unat_word_ariths
          unat_ucast_mod unat_of_nat del: le_bytes.simps(2))
  qed (use assms(2,3) p in \<open>simp_all add: header_contentSize_def fcs_bytes_def read_middle le_bytes_1
      word_unat_eq_iff unat_ucast_mod unat_of_nat del: le_bytes.simps(2)\<close>)
qed

lemma descriptor_fields:
  assumes "d < 4" "c < 2" "s < 2" "f < 4" "b = (of_nat (d + c * 2 ^ 2 + s * 2 ^ 5 + f * 2 ^ 6) :: BYTE)"
  shows "unat (b AND 3) = d" "drop_bit 2 b AND 1 = of_nat c" "drop_bit 5 b AND 1 = of_nat s"
    "unat (drop_bit 6 b) = f" "b AND 8 = 0"
proof -
  have "d \<in> {0, 1, 2, 3}" "c \<in> {0, 1}" "s \<in> {0, 1}" "f \<in> {0, 1, 2, 3}" using assms(1-4) by auto
  then have "unat (b AND 3) = d \<and> drop_bit 2 b AND 1 = of_nat c \<and> drop_bit 5 b AND 1 = of_nat s
    \<and> unat (drop_bit 6 b) = f \<and> b AND 8 = 0"
    unfolding assms(5) by (elim insertE emptyE) simp_all
  then show "unat (b AND 3) = d" "drop_bit 2 b AND 1 = of_nat c" "drop_bit 5 b AND 1 = of_nat s"
    "unat (drop_bit 6 b) = f" "b AND 8 = 0" by simp_all
qed

lemma window_byte:
  assumes "10 \<le> unat wl" "unat wl \<le> 31"
  shows "header_windowSize (ucast (push_bit 3 (wl - of_nat ZSTD_WINDOWLOG_ABSOLUTEMIN) :: U32)) =
    Inr (push_bit (unat wl) 1)"
proof -
  define k where "k = unat wl - 10"
  have k: "unat (wl - 10) = k" "k + 10 = unat wl" "k \<le> 21"
    using assms by (simp_all add: k_def unat_sub word_le_nat_alt)
  define b :: BYTE where "b = ucast (push_bit 3 (wl - 10) :: U32)"
  have "unat b = k * 8" using k(1,3) by (simp add: b_def unat_ucast_mod unat_push_bit_mod)
  then have "unat (drop_bit 3 b) = k" "b AND 7 = 0"
    by (simp_all add: unat_drop_bit_div word_unat_eq_iff[of "b AND 7"] unat_and_7)
  then show ?thesis
    using k(2) assms(2) by (simp add: header_windowSize_def Let_def b_def)
qed

definition single_segment :: "ZSTD_header_params \<Rightarrow> U64 \<Rightarrow> bool" where
  "single_segment params pledged \<longleftrightarrow> contentSizeFlag (hp_fParams params) \<noteq> 0 \<and>
     ucast (push_bit (unat (hp_windowLog params)) 1 :: U32) \<ge> pledged"

definition written_header :: "ZSTD_header_params \<Rightarrow> U64 \<Rightarrow> U32 \<Rightarrow> buffer" where
  "written_header params pledged d =
     (let fp = hp_fParams params; single = single_segment params pledged;
          dcode = (if noDictIDFlag fp \<noteq> 0 then 0 else did_code d);
          fcode = (if contentSizeFlag fp \<noteq> 0 then fcs_code pledged else 0)
      in (if hp_format params = ZSTD_f_zstd1 then [0x28, 0xB5, 0x2F, 0xFD] else []) @
         [of_nat (dcode + of_bool (fp_checksumFlag fp > 0) * 2 ^ 2 + of_bool single * 2 ^ 5 + fcode * 2 ^ 6)] @
         (if single then [] else [ucast (push_bit 3 (hp_windowLog params - of_nat ZSTD_WINDOWLOG_ABSOLUTEMIN))]) @
         le_bytes (ZSTD_did_fieldSize ! dcode) (unat d) @ fcs_bytes fcode single pledged)"

text \<open>What has been written so far, in front of the untouched rest of the destination.\<close>

definition emitted :: "buffer \<Rightarrow> buffer \<Rightarrow> buffer \<times> nat" where
  "emitted dst P = (P @ drop (length P) dst, length P)"

lemma emit_magic:
  "4 \<le> length dst \<Longrightarrow>
    (MEM_writeLE32 LittleEndian dst 0 ZSTD_MAGICNUMBER, 4) = emitted dst [0x28, 0xB5, 0x2F, 0xFD]"
  by (simp add: emitted_def mem_write_eqs write_at_def le_bytes_4_nat ZSTD_MAGICNUMBER_def)

lemma emit_nothing: "(dst, 0) = emitted dst []"
  by (simp add: emitted_def)

lemma emit_byte:
  "length P < length dst \<Longrightarrow>
    ((fst (emitted dst P))[snd (emitted dst P) := x], snd (emitted dst P) + 1) = emitted dst (P @ [x])"
  using update_append[of "drop (length P) dst" "length P" P x]
  by (simp add: emitted_def add.commute)

lemma emit_dictID:
  "code < 4 \<Longrightarrow> length P + ZSTD_did_fieldSize ! code \<le> length dst \<Longrightarrow>
    write_dictID (fst (emitted dst P)) (snd (emitted dst P)) code d =
    emitted dst (P @ le_bytes (ZSTD_did_fieldSize ! code) (unat d))"
  by (simp add: emitted_def write_dictID_eq add.commute)

lemma emit_contentSize:
  "length P + length (fcs_bytes code single p) \<le> length dst \<Longrightarrow>
    write_contentSize (fst (emitted dst P)) (snd (emitted dst P)) code single p =
    emitted dst (P @ fcs_bytes code single p)"
  by (simp add: emitted_def write_contentSize_eq add.commute)

lemma field_sizes: "code < 4 \<Longrightarrow> ZSTD_did_fieldSize ! code \<le> 4"
  "length (fcs_bytes code single p) \<le> 8"
proof -
  show "code < 4 \<Longrightarrow> ZSTD_did_fieldSize ! code \<le> 4"
    by (simp add: ZSTD_did_fieldSize_def numeral_nat less_Suc_eq) auto
  show "length (fcs_bytes code single p) \<le> 8" by (simp add: fcs_bytes_def del: le_bytes.simps(2))
qed

lemma writeFrameHeader_eq:
  assumes dst: "18 \<le> length dst"
  shows "ZSTD_writeFrameHeader dst params pledged d = Inr (emitted dst (written_header params pledged d))"
proof -
  define fp where "fp = hp_fParams params"
  define single where "single = single_segment params pledged"
  define dcode where "dcode = (if noDictIDFlag fp \<noteq> 0 then 0 else did_code d)"
  define fcode where "fcode = (if contentSizeFlag fp \<noteq> 0 then fcs_code pledged else 0)"
  define M :: buffer where "M = (if hp_format params = ZSTD_f_zstd1 then [0x28, 0xB5, 0x2F, 0xFD] else [])"
  define b :: BYTE where "b = of_nat (dcode + of_bool (fp_checksumFlag fp > 0) * 2 ^ 2 + of_bool single * 2 ^ 5
    + fcode * 2 ^ 6)"
  define wb :: BYTE where "wb = ucast (push_bit 3 (hp_windowLog params - of_nat ZSTD_WINDOWLOG_ABSOLUTEMIN))"
  define W where "W = (if single then [] else [wb])"
  have codes: "dcode < 4" "fcode < 4" using did_code_less fcs_code_less by (auto simp: dcode_def fcode_def)
  note sizes = field_sizes(1)[OF codes(1)] field_sizes(2)[of fcode single pledged]
  have single_eq: "(contentSizeFlag fp \<noteq> 0 \<and>
      pledged \<le> ucast (push_bit (unat (hp_windowLog params)) 1 :: U32)) = single"
    by (simp add: single_def single_segment_def fp_def)
  have fits: "(length dst < 18) = False" using dst by simp
  have lens: "length M \<le> 4" "length W \<le> 1" by (auto simp: M_def W_def)
  have 1: "(if hp_format params = ZSTD_f_zstd1
      then (MEM_writeLE32 LittleEndian dst 0 ZSTD_MAGICNUMBER, 4) else (dst, 0)) = emitted dst M"
    using dst by (simp add: M_def emit_magic flip: emit_nothing)
  have "((fst (emitted dst M))[snd (emitted dst M) := b], snd (emitted dst M) + 1) = emitted dst (M @ [b])"
    using dst lens by (intro emit_byte) simp
  then have 2: "(fst (emitted dst M))[snd (emitted dst M) := b] = fst (emitted dst (M @ [b]))"
    "snd (emitted dst M) + 1 = snd (emitted dst (M @ [b]))"
    by (metis fst_conv, metis snd_conv)
  have 3: "(if \<not> single then ((fst (emitted dst (M @ [b])))[snd (emitted dst (M @ [b])) := wb],
      snd (emitted dst (M @ [b])) + 1) else (fst (emitted dst (M @ [b])), snd (emitted dst (M @ [b])))) =
    emitted dst (M @ [b] @ W)"
    using dst lens emit_byte[of "M @ [b]" dst wb] by (simp add: W_def)
  have 4: "write_dictID (fst (emitted dst (M @ [b] @ W))) (snd (emitted dst (M @ [b] @ W))) dcode d =
    emitted dst (M @ [b] @ W @ le_bytes (ZSTD_did_fieldSize ! dcode) (unat d))"
    using emit_dictID[OF codes(1), of "M @ [b] @ W" dst d] dst lens sizes by simp
  have 5: "write_contentSize (fst (emitted dst (M @ [b] @ W @ le_bytes (ZSTD_did_fieldSize ! dcode) (unat d))))
      (snd (emitted dst (M @ [b] @ W @ le_bytes (ZSTD_did_fieldSize ! dcode) (unat d)))) fcode single pledged =
    emitted dst (M @ [b] @ W @ le_bytes (ZSTD_did_fieldSize ! dcode) (unat d) @ fcs_bytes fcode single pledged)"
    using emit_contentSize[of "M @ [b] @ W @ le_bytes (ZSTD_did_fieldSize ! dcode) (unat d)" fcode single pledged dst]
      dst lens sizes by simp
  have "written_header params pledged d =
      M @ [b] @ W @ le_bytes (ZSTD_did_fieldSize ! dcode) (unat d) @ fcs_bytes fcode single pledged"
    by (simp only: written_header_def Let_def fp_def[symmetric] single_def[symmetric] dcode_def[symmetric]
        fcode_def[symmetric] M_def[symmetric] b_def[symmetric] wb_def[symmetric] W_def[symmetric])
  moreover have "ZSTD_writeFrameHeader dst params pledged d = Inr (emitted dst
      (M @ [b] @ W @ le_bytes (ZSTD_did_fieldSize ! dcode) (unat d) @ fcs_bytes fcode single pledged))"
    unfolding ZSTD_writeFrameHeader_def split_def
    using 3 4 5
    by (simp only: 2 Let_def fp_def[symmetric] single_eq
        did_code_def[symmetric] fcs_code_def[symmetric] dcode_def[symmetric] fcode_def[symmetric]
        b_def[symmetric] wb_def[symmetric] 1 fst_conv snd_conv prod.collapse ZSTD_FRAMEHEADERSIZE_MAX_def
        fits if_False)
  ultimately show ?thesis by simp
qed

lemma length_written_header: "length (written_header params pledged d) \<le> 18"
proof -
  define dcode where "dcode = (if noDictIDFlag (hp_fParams params) \<noteq> 0 then 0 else did_code d)"
  define F where "F = fcs_bytes (if contentSizeFlag (hp_fParams params) \<noteq> 0 then fcs_code pledged else 0)
    (single_segment params pledged) pledged"
  have "ZSTD_did_fieldSize ! dcode \<le> 4"
    by (rule field_sizes) (simp add: dcode_def did_code_less)
  moreover have "length F \<le> 8" by (simp add: F_def field_sizes)
  moreover have "length (written_header params pledged d) \<le> 4 + 1 + 1 + ZSTD_did_fieldSize ! dcode + length F"
    by (simp add: written_header_def Let_def dcode_def F_def)
  ultimately show ?thesis by linarith
qed

lemma fcs_code_0: "fcs_code p = 0 \<Longrightarrow> unat p < 256"
  by (auto simp: fcs_code_def word_le_nat_alt)

lemma small_is_single:
  assumes "10 \<le> unat (hp_windowLog params)" "unat (hp_windowLog params) \<le> 31"
    "contentSizeFlag (hp_fParams params) \<noteq> 0" "fcs_code p = 0"
  shows "single_segment params p"
proof -
  have "(2::nat) ^ 10 \<le> 2 ^ unat (hp_windowLog params)" using assms(1) by (rule power_increasing) simp
  moreover have "(2::nat) ^ unat (hp_windowLog params) < 2 ^ 32" using assms(2) by (intro power_strict_increasing) simp_all
  ultimately have "unat p \<le> unat (ucast (push_bit (unat (hp_windowLog params)) 1 :: U32) :: U64)"
    using fcs_code_0[OF assms(4)] unat_push_bit_mod[of "unat (hp_windowLog params)" "1 :: U32"]
    by (simp add: unat_ucast_up del: push_bit_of_1)
  with assms(3) show ?thesis by (simp add: single_segment_def word_le_nat_alt)
qed

lemma parse_written_header:
  assumes wl: "10 \<le> unat (hp_windowLog params)" "unat (hp_windowLog params) \<le> 31"
    and w: "w = written_header params pledged d"
  shows "ZSTD_getFrameHeader_advanced (w @ xs) (hp_format params) = Inr (Header
    \<lparr>fh_frameContentSize = (if contentSizeFlag (hp_fParams params) \<noteq> 0 then pledged else ZSTD_CONTENTSIZE_UNKNOWN),
     fh_windowSize = (if single_segment params pledged then pledged else push_bit (unat (hp_windowLog params)) 1),
     fh_blockSizeMax = ucast (min (if single_segment params pledged then pledged
        else push_bit (unat (hp_windowLog params)) 1) (of_nat ZSTD_BLOCKSIZE_MAX)),
     fh_frameType = ZSTD_frame, fh_headerSize = of_nat (length w),
     fh_dictID = (if noDictIDFlag (hp_fParams params) \<noteq> 0 then 0 else d),
     fh_checksumFlag = of_bool (fp_checksumFlag (hp_fParams params) > 0)\<rparr>)"
proof -
  define fp where "fp = hp_fParams params"
  define single where "single = single_segment params pledged"
  define dcode where "dcode = (if noDictIDFlag fp \<noteq> 0 then 0 else did_code d)"
  define fcode where "fcode = (if contentSizeFlag fp \<noteq> 0 then fcs_code pledged else 0)"
  define M :: buffer where "M = (if hp_format params = ZSTD_f_zstd1 then [0x28, 0xB5, 0x2F, 0xFD] else [])"
  define c :: nat where "c = of_bool (fp_checksumFlag fp > 0)"
  define b :: BYTE where "b = of_nat (dcode + c * 2 ^ 2 + of_bool single * 2 ^ 5 + fcode * 2 ^ 6)"
  define wb :: BYTE where "wb = ucast (push_bit 3 (hp_windowLog params - of_nat ZSTD_WINDOWLOG_ABSOLUTEMIN))"
  define W where "W = (if single then [] else [wb])"
  define D where "D = le_bytes (ZSTD_did_fieldSize ! dcode) (unat d)"
  define F where "F = fcs_bytes fcode single pledged"
  have w_eq: "w = M @ [b] @ W @ D @ F"
    by (simp only: w written_header_def Let_def fp_def[symmetric] single_def[symmetric] dcode_def[symmetric]
        fcode_def[symmetric] M_def[symmetric] c_def[symmetric] b_def[symmetric] wb_def[symmetric] W_def[symmetric]
        D_def[symmetric] F_def[symmetric])
  have codes: "dcode < 4" "fcode < 4" "c < 2" "(of_bool single :: nat) < 2"
    using did_code_less fcs_code_less by (auto simp: dcode_def fcode_def c_def)
  note fields = descriptor_fields[OF codes(1,3,4,2) b_def]
  define n where "n = ZSTD_startingInputLength (hp_format params)"
  have n: "n = length M + 1"
    by (cases "hp_format params") (simp_all add: n_def M_def ZSTD_startingInputLength_def ZSTD_FRAMEHEADERSIZE_PREFIX_def)
  have b_at: "(w @ xs) ! (n - 1) = b" by (simp add: w_eq n)
  have fhsize: "ZSTD_frameHeaderSize_internal (w @ xs) (hp_format params) = Inr (length w)"
    using frameHeaderSize_internal_eq[OF n_def b_at[symmetric]] length_fcs_bytes[OF codes(2), of single pledged]
    by (auto simp: fields w_eq W_def D_def F_def n)
  have magic: "readLE32 (w @ xs) 0 = ZSTD_MAGICNUMBER" if "hp_format params = ZSTD_f_zstd1"
    using that readLE32_prefix[of "w @ xs"] by (simp add: w_eq M_def magic_bytes)
  have win: "(if \<not> single then bindE (header_windowSize ((w @ xs) ! n)) (\<lambda>s. Inr (s, n + 1)) else Inr (0, n)) =
      Inr ((if single then 0 else push_bit (unat (hp_windowLog params)) 1), length (M @ [b] @ W))"
    using window_byte[OF wl, folded wb_def] by (simp add: w_eq n W_def nth_append)
  have did: "header_dictID (w @ xs) (length (M @ [b] @ W)) dcode =
      ((if noDictIDFlag fp \<noteq> 0 then 0 else d), length (M @ [b] @ W @ D))"
    using header_dictID_read[of dcode d "length (M @ [b] @ W)" "M @ [b] @ W" "F @ xs"]
    by (auto simp: w_eq D_def dcode_def header_dictID_def[of _ _ 0] ZSTD_did_fieldSize_def)
  have fcs: "header_contentSize (w @ xs) (length (M @ [b] @ W @ D)) fcode single =
      (if contentSizeFlag fp \<noteq> 0 then pledged else ZSTD_CONTENTSIZE_UNKNOWN)"
  proof (cases "contentSizeFlag fp \<noteq> 0")
    case True
    with small_is_single[OF wl] have "fcode = 0 \<longrightarrow> single" by (simp add: fcode_def fp_def single_def)
    with header_contentSize_read[of fcode pledged "length (M @ [b] @ W @ D)" "M @ [b] @ W @ D" single xs] True
    show ?thesis by (simp add: w_eq F_def fcode_def)
  next
    case False
    then show ?thesis
      by (simp add: header_contentSize_def fcode_def single_def single_segment_def fp_def)
  qed
  have chk: "(ucast (drop_bit 2 b AND 1) :: U32) = of_bool (fp_checksumFlag fp > 0)"
    by (simp add: fields c_def)
  have sized: "single \<Longrightarrow> contentSizeFlag fp \<noteq> 0" by (simp add: single_def single_segment_def fp_def)
  have s5: "(drop_bit 5 b AND 1 \<noteq> 0) = single" by (simp add: fields)
  have "header_fields (w @ xs) n (length w) = Inr (Header
    \<lparr>fh_frameContentSize = (if contentSizeFlag fp \<noteq> 0 then pledged else ZSTD_CONTENTSIZE_UNKNOWN),
     fh_windowSize = (if single then pledged else push_bit (unat (hp_windowLog params)) 1),
     fh_blockSizeMax = ucast (min (if single then pledged
        else push_bit (unat (hp_windowLog params)) 1) (of_nat ZSTD_BLOCKSIZE_MAX)),
     fh_frameType = ZSTD_frame, fh_headerSize = of_nat (length w),
     fh_dictID = (if noDictIDFlag fp \<noteq> 0 then 0 else d),
     fh_checksumFlag = of_bool (fp_checksumFlag fp > 0)\<rparr>)"
    unfolding header_fields_def Let_def b_at s5 fields(1,4,5) chk win bindE.simps prod.case did fcs
    using sized by (cases single) simp_all
  moreover have "n \<le> length (w @ xs)" by (simp add: n w_eq)
  ultimately show ?thesis
    using magic fhsize by (auto simp: getFrameHeader_enough n_def fp_def single_def)
qed

subsection \<open>Skippable frames\<close>

lemma skippable_magic: "m \<le> 15 \<Longrightarrow> is_skippable_magic (ZSTD_MAGIC_SKIPPABLE_START + m)"
proof -
  assume "m \<le> 15"
  then have "unat m \<le> 15" by (simp add: word_le_nat_alt)
  then have "unat (ZSTD_MAGIC_SKIPPABLE_START + m) = 0x184D2A50 + unat m"
    by (simp add: unat_word_ariths ZSTD_MAGIC_SKIPPABLE_START_def)
  with \<open>unat m \<le> 15\<close> show ?thesis by (simp add: is_skippable_magic_div)
qed

lemma writeSkippableFrame_eq:
  assumes "ZSTD_writeSkippableFrame dst src m = Inr (op, n)"
  shows "op = le_bytes 4 (unat (ZSTD_MAGIC_SKIPPABLE_START + m)) @ le_bytes 4 (length src) @ src @ drop n dst"
    "n = length src + 8" "n \<le> length dst" "m \<le> 15" "length src < 2 ^ 32"
proof -
  have ok: "length src + 8 \<le> length dst" "length src \<le> 0xFFFFFFFF" "m \<le> 15"
    using assms by (auto simp: ZSTD_writeSkippableFrame_def split: if_splits)
  have size: "unat (of_nat (length src) :: U32) = length src" using ok(2) by (simp add: unat_of_nat)
  have "(op, n) = (write_at (write_at (write_at dst 0 (le_bytes 4 (unat (ZSTD_MAGIC_SKIPPABLE_START + m))))
      4 (le_bytes 4 (length src))) 8 src, length src + 8)"
    using assms ok linorder_not_less[THEN iffD2, OF ok(3)]
    by (simp add: ZSTD_writeSkippableFrame_def Let_def mem_write_eqs size)
  with ok show "op = le_bytes 4 (unat (ZSTD_MAGIC_SKIPPABLE_START + m)) @ le_bytes 4 (length src) @ src @ drop n dst"
    "n = length src + 8" "n \<le> length dst" "m \<le> 15" "length src < 2 ^ 32"
    by (simp_all add: write_at_def add.commute)
qed

lemma skippable_reads:
  assumes "m \<le> 15" "length src < 2 ^ 32"
    and "f = le_bytes 4 (unat (ZSTD_MAGIC_SKIPPABLE_START + m)) @ le_bytes 4 (length src) @ src @ xs"
  shows "readLE32 f 0 = ZSTD_MAGIC_SKIPPABLE_START + m" "readLE32 f 4 = of_nat (length src)"
    "ZSTD_isSkippableFrame f"
proof -
  show r0: "readLE32 f 0 = ZSTD_MAGIC_SKIPPABLE_START + m"
    using read_middle(2)[of 0 "[]" "unat (ZSTD_MAGIC_SKIPPABLE_START + m)" "le_bytes 4 (length src) @ src @ xs"]
      unat_less_exp[of "ZSTD_MAGIC_SKIPPABLE_START + m"]
    by (simp add: assms(3))
  show "readLE32 f 4 = of_nat (length src)"
    using read_middle(2)[of 4 "le_bytes 4 (unat (ZSTD_MAGIC_SKIPPABLE_START + m))" "length src" "src @ xs"] assms(2)
    by (simp add: assms(3))
  show "ZSTD_isSkippableFrame f"
    using skippable_magic[OF assms(1)] r0 by (simp add: ZSTD_isSkippableFrame_def assms(3))
qed

lemma readSkippableFrameSize_eq:
  assumes "readLE32 f 4 = of_nat n" "n < 2 ^ 32" "8 \<le> length f"
  shows "readSkippableFrameSize f =
    (if 2 ^ 32 - 8 \<le> n then Inl ZSTD_error_frameParameter_unsupported
     else if length f < n + 8 then Inl ZSTD_error_srcSize_wrong else Inr (n + 8))"
proof -
  define x :: U32 where "x = of_nat n"
  have x: "unat x = n" using assms(2) by (simp add: x_def unat_of_nat)
  have "x + 8 < x \<longleftrightarrow> 2 ^ 32 - 8 \<le> n"
    using assms(2) by (simp add: word_less_nat_alt unat_plus_if_size word_size x)
  with assms x show ?thesis
    by (simp add: readSkippableFrameSize_def Let_def x_def[symmetric] add.commute)
qed

subsection \<open>Well-formed headers\<close>

definition wf_header :: "ZSTD_format_e \<Rightarrow> ZSTD_FrameHeader \<Rightarrow> bool" where
  "wf_header format h \<longleftrightarrow>
     (case fh_frameType h of
        ZSTD_frame \<Rightarrow>
          ZSTD_FRAMEHEADERSIZE_MIN format \<le> unat (fh_headerSize h) \<and>
          unat (fh_headerSize h) \<le> ZSTD_FRAMEHEADERSIZE_MAX \<and>
          unat (fh_blockSizeMax h) = min (unat (fh_windowSize h)) ZSTD_BLOCKSIZE_MAX \<and>
          fh_checksumFlag h \<le> 1 \<and>
          (fh_windowSize h = fh_frameContentSize h \<or>
           2 ^ 10 \<le> unat (fh_windowSize h) \<and> unat (fh_windowSize h) \<le> 2 ^ 31 + 7 * 2 ^ 28)
      | ZSTD_skippableFrame \<Rightarrow>
          format = ZSTD_f_zstd1 \<and> fh_headerSize h = 8 \<and> fh_dictID h \<le> 15 \<and>
          unat (fh_frameContentSize h) < 2 ^ 32)"

lemma header_windowSize_bounds:
  assumes "header_windowSize b = Inr w"
  shows "2 ^ 10 \<le> unat w" "unat w \<le> 2 ^ 31 + 7 * 2 ^ 28"
proof -
  define k where "k = unat (drop_bit 3 b) + 10"
  define j where "j = unat (b AND 7)"
  have k: "10 \<le> k" "k \<le> 31" and w: "w = push_bit k 1 + drop_bit 3 (push_bit k 1) * ucast (b AND 7)"
    using assms by (auto simp: header_windowSize_def Let_def k_def split: if_splits)
  have j: "j \<le> 7" by (simp add: j_def unat_and_7)
  define i where "i = k - 3"
  have i: "k = i + 3" "7 \<le> i" "i \<le> 28" using k by (simp_all add: i_def)
  define p :: nat where "p = 2 ^ i"
  have p: "128 \<le> p" "p \<le> 2 ^ 28"
    using power_increasing[of 7 i "2::nat"] power_increasing[of i 28 "2::nat"] i by (simp_all add: p_def)
  have pk: "unat (push_bit k 1 :: U64) = 8 * p"
    using p unat_push_bit_mod[of k "1 :: U64"] by (simp add: i(1) p_def power_add)
  have pj: "p * j \<le> 2 ^ 28 * 7" using p(2) j by (rule mult_le_mono)
  have "unat (drop_bit 3 (push_bit k 1 :: U64)) = p" by (simp only: unat_drop_bit_div pk) simp
  moreover have "unat (ucast (b AND 7) :: U64) = j" by (simp add: unat_ucast_up j_def)
  ultimately have "unat w = 8 * p + p * j"
    using p pj by (simp only: w unat_word_ariths pk) simp
  then show "2 ^ 10 \<le> unat w" "unat w \<le> 2 ^ 31 + 7 * 2 ^ 28" using p pj by simp_all
qed

lemma header_fields_wf:
  assumes "header_fields ip n fhsize = Inr (Header h)" "ZSTD_FRAMEHEADERSIZE_MIN format \<le> fhsize" "fhsize \<le> 18"
  shows "wf_header format h" "fh_frameType h = ZSTD_frame" "unat (fh_headerSize h) = fhsize"
proof -
  have chk: "(ucast (drop_bit 2 b AND 1 :: BYTE) :: U32) \<le> 1" for b
    by (simp add: word_le_nat_alt unat_ucast_up unat_and_1)
  have block: "unat (ucast (min w (of_nat ZSTD_BLOCKSIZE_MAX)) :: U32) = min (unat w) ZSTD_BLOCKSIZE_MAX" for w :: U64
    by (auto simp: ZSTD_BLOCKSIZE_MAX_def min_def word_le_nat_alt unat_ucast_mod)
  have "wf_header format h \<and> fh_frameType h = ZSTD_frame \<and> unat (fh_headerSize h) = fhsize"
  proof (cases "drop_bit 5 (ip ! (n - 1)) AND 1 = 0")
    case True
    with assms header_windowSize_bounds[of "ip ! n"] show ?thesis
      by (auto simp: header_fields_def Let_def wf_header_def chk block unat_of_nat split_def split: if_splits)
  next
    case False
    with assms show ?thesis
      by (auto simp: header_fields_def Let_def wf_header_def chk block unat_of_nat split_def split: if_splits)
  qed
  then show "wf_header format h" "fh_frameType h = ZSTD_frame" "unat (fh_headerSize h) = fhsize" by simp_all
qed

lemma skippable_variant: "is_skippable_magic m \<Longrightarrow> m - ZSTD_MAGIC_SKIPPABLE_START \<le> 15"
proof -
  assume "is_skippable_magic m"
  then have d: "unat m div 16 = 0x184D2A5" by (simp only: is_skippable_magic_div)
  then have "0x184D2A50 \<le> unat m \<and> unat m \<le> 0x184D2A5F" by linarith
  then show ?thesis by (auto simp: word_le_nat_alt unat_sub ZSTD_MAGIC_SKIPPABLE_START_def)
qed

lemma getFrameHeader_wf:
  assumes "ZSTD_getFrameHeader_advanced src format = Inr (Header h)"
  shows "wf_header format h" "unat (fh_headerSize h) \<le> length src"
proof -
  have len: "ZSTD_startingInputLength format \<le> length src"
    using assms by (auto simp: ZSTD_getFrameHeader_advanced_def Let_def split: if_splits)
  have "wf_header format h \<and> unat (fh_headerSize h) \<le> length src"
  proof (cases "format = ZSTD_f_zstd1 \<and> readLE32 src 0 \<noteq> ZSTD_MAGICNUMBER")
    case True
    with assms len skippable_variant[of "readLE32 src 0"] show ?thesis
      by (auto simp: getFrameHeader_enough wf_header_def unat_ucast_up unat_less_exp[where 'a = 32, simplified]
          split: if_splits)
  next
    case False
    with assms len obtain fhsize where fh: "ZSTD_frameHeaderSize_internal src format = Inr fhsize"
      "fhsize \<le> length src" "header_fields src (ZSTD_startingInputLength format) fhsize = Inr (Header h)"
      by (auto simp: getFrameHeader_enough split: if_splits)
    from header_fields_wf[OF fh(3) frameHeaderSize_internal_bounds(2,3)[OF fh(1)]] fh(2) show ?thesis by simp
  qed
  then show "wf_header format h" "unat (fh_headerSize h) \<le> length src" by simp_all
qed

subsection \<open>Properties\<close>

text \<open>
  Property C17: a frame header written by the compressor is parsed back by the decompressor,
  in both formats and whatever bytes follow: the parsed content size, dictionary identifier,
  checksum flag and window are those the writer was given (as far as its flags let it store
  them), the reported header size is the number of bytes written, and nothing after them in
  the destination is changed.
\<close>

theorem frame_header_roundtrip:
  assumes "ZSTD_writeFrameHeader dst params pledgedSrcSize d = Inr (op, pos)"
    and "10 \<le> unat (hp_windowLog params)" "unat (hp_windowLog params) \<le> 31"
  shows "drop pos op = drop pos dst \<and> length op = length dst \<and>
    (\<exists>h. ZSTD_getFrameHeader_advanced (take pos op @ following) (hp_format params) = Inr (Header h) \<and>
      fh_frameType h = ZSTD_frame \<and> unat (fh_headerSize h) = pos \<and>
      fh_frameContentSize h =
        (if contentSizeFlag (hp_fParams params) \<noteq> 0 then pledgedSrcSize else ZSTD_CONTENTSIZE_UNKNOWN) \<and>
      fh_dictID h = (if noDictIDFlag (hp_fParams params) \<noteq> 0 then 0 else d) \<and>
      fh_checksumFlag h = of_bool (fp_checksumFlag (hp_fParams params) > 0) \<and>
      (fh_windowSize h = 2 ^ unat (hp_windowLog params) \<or>
       fh_windowSize h = pledgedSrcSize \<and> unat pledgedSrcSize \<le> 2 ^ unat (hp_windowLog params)))"
proof -
  define w where "w = written_header params pledgedSrcSize d"
  have dst: "18 \<le> length dst"
    using assms(1) by (auto simp: ZSTD_writeFrameHeader_def Let_def split: if_splits)
  from writeFrameHeader_eq[OF dst] assms(1) have "(op, pos) = emitted dst w" by (simp add: w_def)
  then have op: "op = w @ drop (length w) dst" "pos = length w" by (simp_all add: emitted_def)
  have len: "length w \<le> 18" by (simp add: w_def length_written_header)
  have pow: "(2::nat) ^ unat (hp_windowLog params) < 2 ^ 32"
    using assms(3) by (intro power_strict_increasing) simp_all
  have "unat pledgedSrcSize \<le> 2 ^ unat (hp_windowLog params)" if "single_segment params pledgedSrcSize"
    using that pow unat_push_bit_mod[of "unat (hp_windowLog params)" "1 :: U32"]
    by (simp add: single_segment_def word_le_nat_alt unat_ucast_up del: push_bit_of_1)
  with parse_written_header[OF assms(2,3) w_def, of following] op dst len show ?thesis
    by (auto simp: unat_of_nat)
qed

definition sample_params :: ZSTD_header_params where
  "sample_params = \<lparr>hp_fParams = \<lparr>contentSizeFlag = 1, fp_checksumFlag = 1, noDictIDFlag = 0\<rparr>,
     hp_windowLog = 20, hp_format = ZSTD_f_zstd1\<rparr>"

theorem frame_header_roundtrip_witness:
  "\<exists>op pos h. ZSTD_writeFrameHeader (replicate 18 0) sample_params 5000000 300 = Inr (op, pos) \<and>
    ZSTD_getFrameHeader_advanced (take pos op @ [1, 2, 3]) ZSTD_f_zstd1 = Inr (Header h) \<and>
    fh_frameContentSize h = 5000000 \<and> fh_dictID h = 300"
proof -
  obtain op pos where w: "ZSTD_writeFrameHeader (replicate 18 0) sample_params 5000000 300 = Inr (op, pos)"
    using writeFrameHeader_eq[of "replicate 18 0" sample_params 5000000 300] by (simp add: emitted_def)
  from frame_header_roundtrip[OF w, of "[1, 2, 3]"] w show ?thesis by (auto simp: sample_params_def)
qed

text \<open>
  Parsing a header can be retried as bytes arrive.  A result other than a
  request for more input does not change when more bytes follow, so no byte past those
  present was looked at; a request asks for more bytes than are present and for at most 18,
  and with 18 bytes there is always an answer.
\<close>

theorem frame_header_incremental:
  "case ZSTD_getFrameHeader_advanced src format of
     Inr (Wants n) \<Rightarrow> length src < n \<and> n \<le> ZSTD_FRAMEHEADERSIZE_MAX
   | r \<Rightarrow> ZSTD_getFrameHeader_advanced (src @ following) format = r"
proof (cases "ZSTD_getFrameHeader_advanced src format")
  case (Inl e)
  with getFrameHeader_append[OF Inl] show ?thesis by simp
next
  case (Inr r)
  then show ?thesis
    using getFrameHeader_append[OF Inr] getFrameHeader_wants[of src format] by (cases r) auto
qed

text \<open>
  Property C30: every header the parser accepts is well formed: its size is between the
  minimum of the format and 18 bytes and inside the input, the block size limit is the window
  size capped at 128 KiB, a window that is not the content size is between 1 KiB and 3.75 GiB,
  and a skippable frame has the magic variant 0 to 15.
\<close>

theorem parsed_header_well_formed:
  assumes "ZSTD_getFrameHeader_advanced src format = Inr (Header h)"
  shows "wf_header format h \<and> unat (fh_headerSize h) \<le> length src"
  using getFrameHeader_wf[OF assms] by simp

theorem parsed_header_well_formed_witness:
  "\<exists>h. ZSTD_getFrameHeader_advanced [0x00, 0x5F] ZSTD_f_zstd1_magicless = Inr (Header h) \<and>
    wf_header ZSTD_f_zstd1_magicless h"
proof -
  obtain h where "ZSTD_getFrameHeader_advanced [0x00, 0x5F] ZSTD_f_zstd1_magicless = Inr (Header h)"
    by (simp add: ZSTD_getFrameHeader_advanced_def ZSTD_startingInputLength_def ZSTD_FRAMEHEADERSIZE_PREFIX_def
        ZSTD_frameHeaderSize_internal_def header_fields_def header_windowSize_def header_dictID_def
        header_contentSize_def ZSTD_did_fieldSize_def ZSTD_fcs_fieldSize_def Let_def)
  with parsed_header_well_formed[OF this] show ?thesis by blast
qed

text \<open>
  Skippable frames carry arbitrary data: what was written with
  \<open>ZSTD_writeSkippableFrame\<close> is read back with its magic variant when the destination is
  large enough, provided the data is shorter than \<open>2^32 - 8\<close> bytes.
\<close>

theorem skippable_roundtrip:
  assumes "ZSTD_writeSkippableFrame dst src m = Inr (op, n)" "length src < 2 ^ 32 - 8" "length src \<le> dstCapacity"
  shows "ZSTD_readSkippableFrame dstCapacity (take n op @ following) = Inr (src, m) \<and>
    readSkippableFrameSize (take n op @ following) = Inr n"
proof -
  define f where "f = le_bytes 4 (unat (ZSTD_MAGIC_SKIPPABLE_START + m)) @ le_bytes 4 (length src) @ src @ following"
  note w = writeSkippableFrame_eq[OF assms(1)]
  have f: "take n op @ following = f" by (simp add: w(1,2) f_def)
  note reads = skippable_reads[OF w(4,5) f_def]
  have size: "readSkippableFrameSize f = Inr (length src + 8)"
    using readSkippableFrameSize_eq[OF reads(2) w(5)] assms(2) by (simp add: f_def)
  have "bytes_at f 8 (length src) = src" by (simp add: f_def bytes_at_def)
  moreover have "unat (of_nat (length src + 8) :: size_t) = length src + 8"
    using assms(2) by (simp add: unat_of_nat del: of_nat_add)
  moreover have "length f = length src + 8 + length following" by (simp add: f_def)
  ultimately show ?thesis
    unfolding f using assms(3) w(2) size reads(1,3)
    by (simp add: ZSTD_readSkippableFrame_def Let_def del: of_nat_add)
qed

theorem skippable_roundtrip_witness:
  "\<exists>op. ZSTD_writeSkippableFrame (replicate 20 0) [7, 8, 9] 5 = Inr (op, 11) \<and>
    ZSTD_readSkippableFrame 3 (take 11 op @ [1]) = Inr ([7, 8, 9], 5)"
proof -
  obtain op where w: "ZSTD_writeSkippableFrame (replicate 20 0) [7, 8, 9] 5 = Inr (op, 11)"
    by (simp add: ZSTD_writeSkippableFrame_def Let_def)
  from skippable_roundtrip[OF w, of 3 "[1]"] w show ?thesis by simp
qed

text \<open>
  Property C35: the writer of skippable frames accepts data which its reader refuses: for
  every source of \<open>2^32 - 8\<close> to \<open>2^32 - 1\<close> bytes a frame is written, and reading it back is
  an error for every destination capacity.
\<close>

theorem skippable_oversize:
  assumes "2 ^ 32 - 8 \<le> length src" "length src < 2 ^ 32" "length src + 8 \<le> length dst" "m \<le> 15"
  shows "\<exists>op. ZSTD_writeSkippableFrame dst src m = Inr (op, length src + 8) \<and>
    ZSTD_readSkippableFrame dstCapacity (take (length src + 8) op) = Inl ZSTD_error_srcSize_wrong"
proof -
  obtain op where w: "ZSTD_writeSkippableFrame dst src m = Inr (op, length src + 8)"
    using assms by (auto simp: ZSTD_writeSkippableFrame_def Let_def not_less)
  define f where "f = le_bytes 4 (unat (ZSTD_MAGIC_SKIPPABLE_START + m)) @ le_bytes 4 (length src) @ src @ []"
  note eq = writeSkippableFrame_eq[OF w]
  have f: "take (length src + 8) op = f" by (simp add: eq(1) f_def)
  note reads = skippable_reads[OF eq(4,5) f_def]
  have len: "length f = length src + 8" by (simp add: f_def)
  have "readSkippableFrameSize f = Inl ZSTD_error_frameParameter_unsupported"
    using readSkippableFrameSize_eq[OF reads(2) eq(5)] assms(1) len by simp
  moreover have "unat (ZSTD_ERROR ZSTD_error_frameParameter_unsupported) = 2 ^ 64 - 14"
    by (subst unat_ZSTD_ERROR) simp_all
  ultimately have "ZSTD_readSkippableFrame dstCapacity f = Inl ZSTD_error_srcSize_wrong"
    using reads(3) len assms(2) by (simp add: ZSTD_readSkippableFrame_def Let_def)
  with w f show ?thesis by auto
qed

theorem skippable_oversize_witness:
  "\<exists>op. ZSTD_writeSkippableFrame (replicate (2 ^ 32) 0) (replicate (2 ^ 32 - 8) 1) 0 = Inr (op, 2 ^ 32) \<and>
    ZSTD_readSkippableFrame (2 ^ 32) (take (2 ^ 32) op) = Inl ZSTD_error_srcSize_wrong"
  using skippable_oversize[of "replicate (2 ^ 32 - 8) 1" "replicate (2 ^ 32) 0" 0 "2 ^ 32"] by simp

end
