(* ===== verification/Zstd_Frame.thy ===== *)
theory Zstd_Frame
  imports Zstd_FrameHeader Zstd_DDictSet
begin

section \<open>Frames: sizes and one-shot decompression (\<^verbatim>\<open>decompress/zstd_decompress.c\<close>)\<close>

text \<open>
  Block headers, the functions that measure frames without decompressing them, and the
  one-shot decoder down to its blocks.  The decoder of a compressed block
  (\<^verbatim>\<open>decompress/zstd_decompress_block.c\<close>) and the loader of a dictionary's entropy tables are
  arguments, collected in a record \<open>block_codec\<close>; \<open>'d\<close> is the entropy state they work on.  The
  window pointers of the context are represented by the bytes they designate, \<open>dx_history\<close>:
  the dictionary content followed by what the frame has regenerated.  Source and destination
  do not overlap (the branch for in-place decompression is not taken).
\<close>

subsection \<open>Blocks\<close>

datatype blockType_e = bt_raw | bt_rle | bt_compressed | bt_reserved

fun blockType_of :: "nat \<Rightarrow> blockType_e" where
  "blockType_of n = (if n = 0 then bt_raw else if n = 1 then bt_rle else if n = 2 then bt_compressed else bt_reserved)"

record blockProperties_t =
  bp_blockType :: blockType_e
  bp_lastBlock :: bool
  bp_origSize :: nat

definition ZSTD_getcBlockSize :: "buffer \<Rightarrow> ZSTD_ErrorCode + nat \<times> blockProperties_t" where
  "ZSTD_getcBlockSize src =
     (if length src < ZSTD_blockHeaderSize then Inl ZSTD_error_srcSize_wrong
      else
        let cBlockHeader = readLE24 src 0;
            cSize = unat (drop_bit 3 cBlockHeader);
            bp = \<lparr>bp_blockType = blockType_of (unat (drop_bit 1 cBlockHeader AND 3)),
                  bp_lastBlock = (cBlockHeader AND 1 \<noteq> 0), bp_origSize = cSize\<rparr>
        in if bp_blockType bp = bt_rle then Inr (1, bp)
           else if bp_blockType bp = bt_reserved then Inl ZSTD_error_corruption_detected
           else Inr (cSize, bp))"

definition ZSTD_copyRawBlock :: "bool \<Rightarrow> nat \<Rightarrow> buffer \<Rightarrow> ZSTD_ErrorCode + buffer" where
  "ZSTD_copyRawBlock dst_null dstCapacity src =
     (if dstCapacity < length src then Inl ZSTD_error_dstSize_tooSmall
      else if dst_null then (if length src = 0 then Inr [] else Inl ZSTD_error_dstBuffer_null)
      else Inr src)"

definition ZSTD_setRleBlock :: "bool \<Rightarrow> nat \<Rightarrow> BYTE \<Rightarrow> nat \<Rightarrow> ZSTD_ErrorCode + buffer" where
  "ZSTD_setRleBlock dst_null dstCapacity b regenSize =
     (if dstCapacity < regenSize then Inl ZSTD_error_dstSize_tooSmall
      else if dst_null then (if regenSize = 0 then Inr [] else Inl ZSTD_error_dstBuffer_null)
      else Inr (replicate regenSize b))"

definition ZSTD_noCompressBlock :: "buffer \<Rightarrow> buffer \<Rightarrow> bool \<Rightarrow> ZSTD_ErrorCode + buffer \<times> nat" where
  "ZSTD_noCompressBlock dst src lastBlock =
     (let cBlockHeader24 = of_bool lastBlock + push_bit 1 0 + (of_nat (length src * 2 ^ 3) :: U32)
      in if length dst < length src + ZSTD_blockHeaderSize then Inl ZSTD_error_dstSize_tooSmall
         else let dst = MEM_writeLE24 LittleEndian dst 0 cBlockHeader24
              in Inr (write_at dst ZSTD_blockHeaderSize src, ZSTD_blockHeaderSize + length src))"

definition ZSTD_rleCompressBlock :: "buffer \<Rightarrow> BYTE \<Rightarrow> nat \<Rightarrow> bool \<Rightarrow> ZSTD_ErrorCode + buffer \<times> nat" where
  "ZSTD_rleCompressBlock dst src srcSize lastBlock =
     (let cBlockHeader = of_bool lastBlock + push_bit 1 1 + (of_nat (srcSize * 2 ^ 3) :: U32)
      in if length dst < 4 then Inl ZSTD_error_dstSize_tooSmall
         else let op = MEM_writeLE24 LittleEndian dst 0 cBlockHeader
              in Inr (op[3 := src], 4))"

subsection \<open>Measuring frames\<close>

record ZSTD_frameSizeInfo =
  fsi_nbBlocks :: nat
  fsi_compressedSize :: "ZSTD_ErrorCode + nat"
  fsi_decompressedBound :: U64

definition ZSTD_errorFrameSizeInfo :: "ZSTD_ErrorCode \<Rightarrow> ZSTD_frameSizeInfo" where
  "ZSTD_errorFrameSizeInfo ret =
     \<lparr>fsi_nbBlocks = 0, fsi_compressedSize = Inl ret, fsi_decompressedBound = ZSTD_CONTENTSIZE_ERROR\<rparr>"

text \<open>The loop over the blocks: the input that is left and the number of blocks.\<close>

function frame_blocks :: "buffer \<Rightarrow> nat \<Rightarrow> ZSTD_ErrorCode + buffer \<times> nat" where
  "frame_blocks ip nbBlocks =
     (case ZSTD_getcBlockSize ip of
        Inl e \<Rightarrow> Inl e
      | Inr (cBlockSize, blockProperties) \<Rightarrow>
          if length ip < ZSTD_blockHeaderSize + cBlockSize then Inl ZSTD_error_srcSize_wrong
          else
            let ip = drop (ZSTD_blockHeaderSize + cBlockSize) ip; nbBlocks = nbBlocks + 1
            in if bp_lastBlock blockProperties then Inr (ip, nbBlocks)
               else frame_blocks ip nbBlocks)"
  by pat_completeness auto
termination by (relation "measure (\<lambda>(ip, n). length ip)") auto

declare frame_blocks.simps [simp del]

definition ZSTD_findFrameSizeInfo :: "buffer \<Rightarrow> ZSTD_format_e \<Rightarrow> ZSTD_frameSizeInfo" where
  "ZSTD_findFrameSizeInfo src format =
     (if format = ZSTD_f_zstd1 \<and> ZSTD_SKIPPABLEHEADERSIZE \<le> length src \<and> is_skippable_magic (readLE32 src 0)
      then \<lparr>fsi_nbBlocks = 0, fsi_compressedSize = readSkippableFrameSize src, fsi_decompressedBound = 0\<rparr>
      else
        case ZSTD_getFrameHeader_advanced src format of
          Inl ret \<Rightarrow> ZSTD_errorFrameSizeInfo ret
        | Inr (Wants n) \<Rightarrow> ZSTD_errorFrameSizeInfo ZSTD_error_srcSize_wrong
        | Inr (Header zfh) \<Rightarrow>
            (case frame_blocks (drop (unat (fh_headerSize zfh)) src) 0 of
               Inl e \<Rightarrow> ZSTD_errorFrameSizeInfo e
             | Inr (ip, nbBlocks) \<Rightarrow>
                 if fh_checksumFlag zfh \<noteq> 0 \<and> length ip < 4
                 then ZSTD_errorFrameSizeInfo ZSTD_error_srcSize_wrong
                 else
                   let ip = (if fh_checksumFlag zfh \<noteq> 0 then drop 4 ip else ip)
                   in \<lparr>fsi_nbBlocks = nbBlocks, fsi_compressedSize = Inr (length src - length ip),
                       fsi_decompressedBound =
                         (if fh_frameContentSize zfh \<noteq> ZSTD_CONTENTSIZE_UNKNOWN then fh_frameContentSize zfh
                          else of_nat nbBlocks * ucast (fh_blockSizeMax zfh))\<rparr>))"

definition ZSTD_findFrameCompressedSize_advanced :: "buffer \<Rightarrow> ZSTD_format_e \<Rightarrow> ZSTD_ErrorCode + nat" where
  "ZSTD_findFrameCompressedSize_advanced src format = fsi_compressedSize (ZSTD_findFrameSizeInfo src format)"

definition ZSTD_findFrameCompressedSize :: "buffer \<Rightarrow> ZSTD_ErrorCode + nat" where
  "ZSTD_findFrameCompressedSize src = ZSTD_findFrameCompressedSize_advanced src ZSTD_f_zstd1"

lemma getcBlockSize_append [simp]:
  "3 \<le> length src \<Longrightarrow> ZSTD_getcBlockSize (src @ xs) = ZSTD_getcBlockSize src"
  by (simp add: ZSTD_getcBlockSize_def)

text \<open>The blocks a frame consists of are a prefix of the input that does not depend on what follows.\<close>

lemma frame_blocks_split:
  "frame_blocks ip n = Inr (ip', m) \<Longrightarrow>
    \<exists>p. ip = p @ ip' \<and> 3 \<le> length p \<and> n < m \<and> (\<forall>rest. frame_blocks (p @ rest) n = Inr (rest, m))"
proof (induction ip n arbitrary: ip' m rule: frame_blocks.induct)
  case (1 ip n)
  from "1.prems" obtain cs bp where g: "ZSTD_getcBlockSize ip = Inr (cs, bp)" and l: "3 + cs \<le> length ip"
    by (auto simp: frame_blocks.simps[of ip] split: sum.splits if_splits)
  define q where "q = take (3 + cs) ip"
  have q: "ip = q @ drop (3 + cs) ip" "length q = 3 + cs" using l by (simp_all add: q_def)
  have gq: "ZSTD_getcBlockSize (q @ r) = Inr (cs, bp)" for r
    using g q getcBlockSize_append[of q] by (metis le_add1)
  have step: "frame_blocks (q @ r) n = (if bp_lastBlock bp then Inr (r, n + 1) else frame_blocks r (n + 1))" for r
    using gq[of r] q(2) by (simp add: frame_blocks.simps[of "q @ r"] Let_def)
  show ?case
  proof (cases "bp_lastBlock bp")
    case True
    with "1.prems" step[of "drop (3 + cs) ip"] q have "ip' = drop (3 + cs) ip" "m = n + 1" by simp_all
    with q step True show ?thesis by (intro exI[of _ q]) simp
  next
    case False
    with "1.prems" step[of "drop (3 + cs) ip"] q
    have "frame_blocks (drop (3 + cs) ip) (n + 1) = Inr (ip', m)" by simp
    with "1.IH"[OF g refl _ refl refl False] l obtain p where p: "drop (3 + cs) ip = p @ ip'" "n + 1 < m"
      "\<forall>rest. frame_blocks (p @ rest) (n + 1) = Inr (rest, m)" by fastforce
    then show ?thesis using q step False by (intro exI[of _ "q @ p"]) simp
  qed
qed

lemma getFrameHeader_take:
  assumes "ZSTD_getFrameHeader_advanced src format = Inr (Header h)" "unat (fh_headerSize h) \<le> n"
  shows "ZSTD_getFrameHeader_advanced (take n src @ rest) format = Inr (Header h)"
proof -
  define p where "p = take n src"
  have src: "src = p @ drop n src" by (simp add: p_def)
  have no_wants: "ZSTD_getFrameHeader_advanced p format \<noteq> Inr (Wants k)" for k
  proof
    assume w: "ZSTD_getFrameHeader_advanced p format = Inr (Wants k)"
    note wf = getFrameHeader_wf[OF assms(1)]
    have "length p < unat (fh_headerSize h)"
    proof (cases "ZSTD_startingInputLength format \<le> length p")
      case False
      with wf prefix_cases[of format] show ?thesis
        by (auto simp: wf_header_def ZSTD_FRAMEHEADERSIZE_MIN_def split: ZSTD_FrameType_e.splits)
    next
      case True
      have len: "ZSTD_startingInputLength format \<le> length src" using True by (simp add: p_def)
      have read0: "readLE32 src 0 = readLE32 p 0" if "format = ZSTD_f_zstd1"
        using True that prefix_cases[of format] read_append(3)[of 0 p "drop n src"] src by simp
      have fhs: "ZSTD_frameHeaderSize_internal src format = ZSTD_frameHeaderSize_internal p format"
        using frameHeaderSize_internal_append[OF True, of "drop n src"] src by simp
      show ?thesis
      proof (cases "format = ZSTD_f_zstd1 \<and> readLE32 src 0 \<noteq> ZSTD_MAGICNUMBER")
        case skip: True
        with w assms(1) True len read0 show ?thesis by (auto simp: getFrameHeader_enough split: if_splits)
      next
        case False
        with len assms(1) obtain fhsize where f: "ZSTD_frameHeaderSize_internal src format = Inr fhsize"
          "header_fields src (ZSTD_startingInputLength format) fhsize = Inr (Header h)"
          by (auto simp: getFrameHeader_enough split: if_splits)
        have "unat (fh_headerSize h) = fhsize"
          using header_fields_wf(3)[OF f(2) frameHeaderSize_internal_bounds(2,3)[OF f(1)]] .
        moreover have "length p < fhsize"
          using w True False f(1) fhs read0 header_fields_not_wants by (auto simp: getFrameHeader_enough split: if_splits)
        ultimately show ?thesis by simp
      qed
    qed
    with assms(2) wf(2) show False by (simp add: p_def)
  qed
  have "ZSTD_getFrameHeader_advanced (p @ drop n src) format = ZSTD_getFrameHeader_advanced p format"
    using getFrameHeader_append[OF refl] no_wants by blast
  with assms(1) src have "ZSTD_getFrameHeader_advanced p format = Inr (Header h)" by simp
  from getFrameHeader_append[OF this, of rest] show ?thesis by (simp add: p_def)
qed

lemma getFrameHeader_size_pos:
  assumes "ZSTD_getFrameHeader_advanced src format = Inr (Header h)"
  shows "0 < unat (fh_headerSize h)" "unat (fh_headerSize h) \<le> length src"
  using getFrameHeader_wf[OF assms]
  by (auto simp: wf_header_def ZSTD_FRAMEHEADERSIZE_MIN_def split: ZSTD_FrameType_e.splits if_splits)

lemma readSkippableFrameSize_bounds:
  "readSkippableFrameSize src = Inr n \<Longrightarrow> 8 \<le> n \<and> n \<le> length src"
  by (auto simp: readSkippableFrameSize_def Let_def split: if_splits)

lemma readLE32_take:
  "p + 4 \<le> n \<Longrightarrow> n \<le> length src \<Longrightarrow> readLE32 (take n src) p = readLE32 src p"
  using read_append(3)[of p "take n src" "drop n src"] by simp

lemma readSkippableFrameSize_take:
  "readSkippableFrameSize src = Inr n \<Longrightarrow> readSkippableFrameSize (take n src @ rest) = Inr n"
  using readSkippableFrameSize_bounds[of src n]
  by (auto simp: readSkippableFrameSize_def Let_def readLE32_take split: if_splits)

text \<open>A measured frame is a prefix of the input, and its measurements depend on that prefix alone.\<close>

lemma findFrameSizeInfo_frame:
  assumes "\<not> (format = ZSTD_f_zstd1 \<and> is_skippable_magic (readLE32 src 0))"
    and h: "ZSTD_getFrameHeader_advanced src format = Inr (Header h)"
    and b: "frame_blocks (drop (unat (fh_headerSize h)) src) 0 = Inr (ip, m)"
    and c: "c = (if fh_checksumFlag h \<noteq> 0 then 4 else 0)" "c \<le> length ip"
  shows "ZSTD_findFrameSizeInfo src format =
    \<lparr>fsi_nbBlocks = m, fsi_compressedSize = Inr (length src - (length ip - c)),
     fsi_decompressedBound =
       (if fh_frameContentSize h \<noteq> ZSTD_CONTENTSIZE_UNKNOWN then fh_frameContentSize h
        else of_nat m * ucast (fh_blockSizeMax h))\<rparr>"
  using assms by (auto simp: ZSTD_findFrameSizeInfo_def Let_def)

lemma magic_not_skippable: "\<not> is_skippable_magic ZSTD_MAGICNUMBER"
  by (simp add: is_skippable_magic_def ZSTD_MAGICNUMBER_def ZSTD_MAGIC_SKIPPABLE_MASK_def ZSTD_MAGIC_SKIPPABLE_START_def)

lemma findFrameSizeInfo_frame_cases:
  assumes "fsi_compressedSize (ZSTD_findFrameSizeInfo src format) = Inr n"
    and "\<not> (format = ZSTD_f_zstd1 \<and> 8 \<le> length src \<and> is_skippable_magic (readLE32 src 0))"
  obtains h p ip m c where "ZSTD_getFrameHeader_advanced src format = Inr (Header h)"
    "\<not> (format = ZSTD_f_zstd1 \<and> is_skippable_magic (readLE32 src 0))"
    "src = take (unat (fh_headerSize h)) src @ p @ ip" "3 \<le> length p"
    "\<And>rest. frame_blocks (p @ rest) 0 = Inr (rest, m)"
    "c = (if fh_checksumFlag h \<noteq> 0 then 4 else 0)" "c \<le> length ip"
    "n = unat (fh_headerSize h) + length p + c"
proof -
  from assms obtain h ip m where h: "ZSTD_getFrameHeader_advanced src format = Inr (Header h)"
    and b: "frame_blocks (drop (unat (fh_headerSize h)) src) 0 = Inr (ip, m)"
    and c: "fh_checksumFlag h \<noteq> 0 \<longrightarrow> 4 \<le> length ip"
    and n: "n = length src - length (if fh_checksumFlag h \<noteq> 0 then drop 4 ip else ip)"
    by (auto simp: ZSTD_findFrameSizeInfo_def ZSTD_errorFrameSizeInfo_def Let_def
        split: sum.splits header_result.splits if_splits prod.splits)
  from frame_blocks_split[OF b] obtain p where p: "drop (unat (fh_headerSize h)) src = p @ ip" "3 \<le> length p"
    "\<And>rest. frame_blocks (p @ rest) 0 = Inr (rest, m)" by auto
  have src: "src = take (unat (fh_headerSize h)) src @ p @ ip"
    using p(1) by (metis append_take_drop_id)
  have len: "length src = unat (fh_headerSize h) + length p + length ip"
    using getFrameHeader_size_pos(2)[OF h] p(1) by (metis add.assoc le_add_diff_inverse length_append length_drop)
  have "\<not> (format = ZSTD_f_zstd1 \<and> is_skippable_magic (readLE32 src 0))"
    using assms(2) h by (auto simp: ZSTD_getFrameHeader_advanced_def Let_def magic_not_skippable split: if_splits)
  with that[OF h _ src p(2,3) refl] c n len show ?thesis by (auto split: if_splits)
qed

lemma findFrameSizeInfo_split:
  assumes "fsi_compressedSize (ZSTD_findFrameSizeInfo src format) = Inr n"
  shows "0 < n" "n \<le> length src"
    "ZSTD_findFrameSizeInfo (take n src @ rest) format = ZSTD_findFrameSizeInfo src format"
proof -
  have "0 < n \<and> n \<le> length src \<and>
    ZSTD_findFrameSizeInfo (take n src @ rest) format = ZSTD_findFrameSizeInfo src format"
  proof (cases "format = ZSTD_f_zstd1 \<and> 8 \<le> length src \<and> is_skippable_magic (readLE32 src 0)")
    case True
    with assms have r: "readSkippableFrameSize src = Inr n" by (simp add: ZSTD_findFrameSizeInfo_def)
    with True readSkippableFrameSize_bounds[OF r] show ?thesis
      by (auto simp: ZSTD_findFrameSizeInfo_def readSkippableFrameSize_take readLE32_take)
  next
    case False
    from findFrameSizeInfo_frame_cases[OF assms False] obtain h p ip m c
      where h: "ZSTD_getFrameHeader_advanced src format = Inr (Header h)"
        and ns: "\<not> (format = ZSTD_f_zstd1 \<and> is_skippable_magic (readLE32 src 0))"
        and src: "src = take (unat (fh_headerSize h)) src @ p @ ip" and p: "3 \<le> length p"
        and b: "\<And>rest. frame_blocks (p @ rest) 0 = Inr (rest, m)"
        and c: "c = (if fh_checksumFlag h \<noteq> 0 then 4 else 0)" "c \<le> length ip"
        and n: "n = unat (fh_headerSize h) + length p + c" by metis
    define k where "k = unat (fh_headerSize h)"
    note hs = getFrameHeader_size_pos[OF h, folded k_def]
    have len: "length src = k + length p + length ip"
      using src hs(2) by (metis add.assoc k_def length_append length_take min_absorb2)
    have dr: "drop k src = p @ ip"
      using src hs(2) by (metis append_eq_conv_conj k_def length_take min_absorb2)
    have nk: "n = k + length p + c" by (simp add: n k_def)
    have tk: "drop k (take n src) = p @ take c ip" using dr by (simp add: nk drop_take)
    have k4: "4 \<le> k" if "format = ZSTD_f_zstd1"
      using getFrameHeader_wf(1)[OF h] that
      by (auto simp: wf_header_def k_def ZSTD_FRAMEHEADERSIZE_MIN_def split: ZSTD_FrameType_e.splits)
    have h': "ZSTD_getFrameHeader_advanced (take n src @ rest) format = Inr (Header h)"
      using getFrameHeader_take[OF h, of n] nk by (simp add: k_def)
    have ns': "\<not> (format = ZSTD_f_zstd1 \<and> is_skippable_magic (readLE32 (take n src @ rest) 0))"
      using ns k4 nk len c by (auto simp: readLE32_take)
    have b': "frame_blocks (drop (unat (fh_headerSize h)) (take n src @ rest)) 0 = Inr (take c ip @ rest, m)"
      using b[of "take c ip @ rest"] tk nk len c by (simp add: k_def[symmetric])
    have b0: "frame_blocks (drop (unat (fh_headerSize h)) src) 0 = Inr (ip, m)"
      using b[of ip] dr by (simp add: k_def)
    from findFrameSizeInfo_frame[OF ns h b0 c] findFrameSizeInfo_frame[OF ns' h' b' c(1)] len c(2) nk hs(1) show ?thesis
      by (simp add: add.assoc)
  qed
  then show "0 < n" "n \<le> length src"
    "ZSTD_findFrameSizeInfo (take n src @ rest) format = ZSTD_findFrameSizeInfo src format" by simp_all
qed

lemmas findFrameSizeInfo_bounds = findFrameSizeInfo_split(1,2)

function decompressBound_loop :: "buffer \<Rightarrow> U64 \<Rightarrow> U64" where
  "decompressBound_loop src bound =
     (if length src = 0 then bound
      else
        let frameSizeInfo = ZSTD_findFrameSizeInfo src ZSTD_f_zstd1
        in case fsi_compressedSize frameSizeInfo of
             Inl e \<Rightarrow> ZSTD_CONTENTSIZE_ERROR
           | Inr compressedSize \<Rightarrow>
               if fsi_decompressedBound frameSizeInfo = ZSTD_CONTENTSIZE_ERROR then ZSTD_CONTENTSIZE_ERROR
               else decompressBound_loop (drop compressedSize src) (bound + fsi_decompressedBound frameSizeInfo))"
  by pat_completeness auto
termination
  by (relation "measure (\<lambda>(src, b). length src)") (auto dest: findFrameSizeInfo_bounds)

declare decompressBound_loop.simps [simp del]

definition ZSTD_decompressBound :: "buffer \<Rightarrow> U64" where
  "ZSTD_decompressBound src = decompressBound_loop src 0"

function decompressionMargin_loop :: "buffer \<Rightarrow> nat \<Rightarrow> nat \<Rightarrow> ZSTD_ErrorCode + nat" where
  "decompressionMargin_loop src margin maxBlockSize =
     (if length src = 0 then Inr (margin + maxBlockSize)
      else
        let frameSizeInfo = ZSTD_findFrameSizeInfo src ZSTD_f_zstd1
        in bindE (ZSTD_getFrameHeader src) (\<lambda>r.
             case fsi_compressedSize frameSizeInfo of
               Inl e \<Rightarrow> Inl ZSTD_error_corruption_detected
             | Inr compressedSize \<Rightarrow>
                 if fsi_decompressedBound frameSizeInfo = ZSTD_CONTENTSIZE_ERROR
                 then Inl ZSTD_error_corruption_detected
                 else
                   let (margin, maxBlockSize) =
                     (case r of
                        Header zfh \<Rightarrow>
                          if fh_frameType zfh = ZSTD_frame
                          then (margin + unat (fh_headerSize zfh) + (if fh_checksumFlag zfh \<noteq> 0 then 4 else 0)
                                  + 3 * fsi_nbBlocks frameSizeInfo,
                                max maxBlockSize (unat (fh_blockSizeMax zfh)))
                          else (margin + compressedSize, maxBlockSize)
                      | Wants n \<Rightarrow> (margin + compressedSize, maxBlockSize))
                   in decompressionMargin_loop (drop compressedSize src) margin maxBlockSize))"
  by pat_completeness auto
termination
  by (relation "measure (\<lambda>(src, m, b). length src)") (auto dest: findFrameSizeInfo_bounds)

declare decompressionMargin_loop.simps [simp del]

definition ZSTD_decompressionMargin :: "buffer \<Rightarrow> ZSTD_ErrorCode + nat" where
  "ZSTD_decompressionMargin src = decompressionMargin_loop src 0 0"

function findDecompressedSize_loop :: "buffer \<Rightarrow> U64 \<Rightarrow> U64" where
  "findDecompressedSize_loop src totalDstSize =
     (if ZSTD_startingInputLength ZSTD_f_zstd1 \<le> length src
      then
        if is_skippable_magic (readLE32 src 0)
        then case readSkippableFrameSize src of
               Inl e \<Rightarrow> ZSTD_CONTENTSIZE_ERROR
             | Inr skippableSize \<Rightarrow> findDecompressedSize_loop (drop skippableSize src) totalDstSize
        else
          let fcs = ZSTD_getFrameContentSize src
          in if ZSTD_CONTENTSIZE_ERROR \<le> fcs then fcs
             else if totalDstSize + fcs < totalDstSize then ZSTD_CONTENTSIZE_ERROR
             else case ZSTD_findFrameCompressedSize src of
                    Inl e \<Rightarrow> ZSTD_CONTENTSIZE_ERROR
                  | Inr frameSrcSize \<Rightarrow>
                      findDecompressedSize_loop (drop frameSrcSize src) (totalDstSize + fcs)
      else if length src \<noteq> 0 then ZSTD_CONTENTSIZE_ERROR else totalDstSize)"
  by pat_completeness auto
termination
proof (relation "measure (\<lambda>(src, t). length src)", goal_cases)
  case (2 src total n)
  then show ?case using readSkippableFrameSize_bounds[of src n] by auto
next
  case (3 src total fcs n)
  then show ?case
    using findFrameSizeInfo_bounds[of src ZSTD_f_zstd1 n]
    by (auto simp: ZSTD_findFrameCompressedSize_def ZSTD_findFrameCompressedSize_advanced_def
        ZSTD_startingInputLength_def ZSTD_FRAMEHEADERSIZE_PREFIX_def)
qed simp

declare findDecompressedSize_loop.simps [simp del]

definition ZSTD_findDecompressedSize :: "buffer \<Rightarrow> U64" where
  "ZSTD_findDecompressedSize src = findDecompressedSize_loop src 0"

subsection \<open>Block headers\<close>

lemma block_header_value:
  assumes "k < 3" "n < 2 ^ 21" and w_def: "w = (of_bool lst + push_bit 1 k + of_nat (n * 2 ^ 3) :: U32)"
  shows "unat w = of_bool lst + 2 * unat k + 8 * n"
proof -
  have "unat k < 3" using assms(1) by (simp add: word_less_nat_alt)
  moreover have "unat (push_bit 1 k) = 2 * unat k"
    using \<open>unat k < 3\<close> by (simp only: unat_push_bit_mod) simp
  moreover have "unat (of_nat (n * 2 ^ 3) :: U32) = 8 * n"
    using assms(2) by (simp add: unat_of_nat del: of_nat_mult)
  moreover have "unat (of_bool lst :: U32) = of_bool lst" by simp
  ultimately show ?thesis
    unfolding w_def using assms(2) by (simp only: unat_word_ariths) simp
qed

lemma getcBlockSize_written:
  assumes "k < 3" "n < 2 ^ 21" "w = (of_bool lst + push_bit 1 k + of_nat (n * 2 ^ 3) :: U32)"
  shows "ZSTD_getcBlockSize (le_bytes 3 (unat w) @ rest) =
    Inr (if k = 1 then 1 else n, \<lparr>bp_blockType = blockType_of (unat k), bp_lastBlock = lst, bp_origSize = n\<rparr>)"
proof -
  note w = block_header_value[OF assms]
  have k: "unat k < 3" using assms(1) by (simp add: word_less_nat_alt)
  have small: "unat w < 2 ^ 24" using w k assms(2) by (cases lst) simp_all
  have r: "readLE24 (le_bytes 3 (unat w) @ rest) 0 = w"
    using small by (simp add: mem_read_eqs bytes_at_def)
  have "unat (drop_bit 3 w) = n" using w k by (simp only: unat_drop_bit_div) (cases lst; simp)
  moreover have "unat (drop_bit 1 w AND 3) = unat k"
    using w k unat_and_mask[of "drop_bit 1 w" 2]
    by (simp only: unat_drop_bit_div) (cases lst; simp add: mask_eq_exp_minus_1)
  moreover have "w AND 1 \<noteq> 0 \<longleftrightarrow> lst"
  proof -
    have "Suc (8 * n) mod 2 = 1" by presburger
    with w unat_and_mask[of w 1] show ?thesis
      by (cases lst) (simp_all add: mask_eq_exp_minus_1 unat_eq_0[symmetric])
  qed
  moreover have "k = 1 \<longleftrightarrow> unat k = 1" by (simp add: word_unat_eq_iff)
  ultimately show ?thesis using r k by (auto simp: ZSTD_getcBlockSize_def Let_def)
qed

lemma noCompressBlock_eq:
  assumes "ZSTD_noCompressBlock dst src lst = Inr (op, n)" "length src < 2 ^ 21"
  shows "n = 3 + length src" "n \<le> length dst"
    "op = le_bytes 3 (unat (of_bool lst + push_bit 1 0 + (of_nat (length src * 2 ^ 3) :: U32))) @ src @ drop n dst"
  using assms
  by (auto simp: ZSTD_noCompressBlock_def Let_def mem_write_eqs write_at_def add.commute split: if_splits)

lemma rleCompressBlock_eq:
  assumes "ZSTD_rleCompressBlock dst b srcSize lst = Inr (op, n)"
  shows "n = 4" "n \<le> length dst"
    "op = le_bytes 3 (unat (of_bool lst + push_bit 1 1 + (of_nat (srcSize * 2 ^ 3) :: U32))) @ b # drop n dst"
  using assms
  by (auto simp: update_append ZSTD_rleCompressBlock_def Let_def mem_write_eqs write_at_def split: if_splits)

subsection \<open>Sizes of concatenated frames\<close>

definition is_frame :: "buffer \<Rightarrow> bool" where
  "is_frame f \<longleftrightarrow> ZSTD_findFrameCompressedSize f = Inr (length f)"

lemmas findFrameCompressedSize_defs = ZSTD_findFrameCompressedSize_def ZSTD_findFrameCompressedSize_advanced_def

lemma is_frame_info:
  assumes "is_frame f"
  shows "f \<noteq> []" "ZSTD_findFrameSizeInfo (f @ rest) ZSTD_f_zstd1 = ZSTD_findFrameSizeInfo f ZSTD_f_zstd1"
    "fsi_compressedSize (ZSTD_findFrameSizeInfo f ZSTD_f_zstd1) = Inr (length f)"
  using assms findFrameSizeInfo_split[of f ZSTD_f_zstd1 "length f"] by (auto simp: is_frame_def findFrameCompressedSize_defs)

text \<open>A frame starts with a complete header, or is a skippable frame.\<close>

lemma getFrameContentSize_append:
  "ZSTD_getFrameHeader_advanced f ZSTD_f_zstd1 = Inr (Header h) \<Longrightarrow>
    ZSTD_getFrameContentSize (f @ rest) = ZSTD_getFrameContentSize f"
  using getFrameHeader_append[of f ZSTD_f_zstd1 "Inr (Header h)" rest]
  by (simp add: ZSTD_getFrameContentSize_def ZSTD_getFrameHeader_def)

lemma getFrameHeader_frameType:
  assumes h: "ZSTD_getFrameHeader_advanced src format = Inr (Header h)"
    and ns: "\<not> (format = ZSTD_f_zstd1 \<and> is_skippable_magic (readLE32 src 0))"
  shows "fh_frameType h = ZSTD_frame"
proof -
  have len: "ZSTD_startingInputLength format \<le> length src"
    using h by (auto simp: ZSTD_getFrameHeader_advanced_def Let_def split: if_splits)
  with h ns obtain fhsize where f: "ZSTD_frameHeaderSize_internal src format = Inr fhsize"
    "header_fields src (ZSTD_startingInputLength format) fhsize = Inr (Header h)"
    by (auto simp: getFrameHeader_enough split: if_splits)
  from header_fields_wf(2)[OF f(2) frameHeaderSize_internal_bounds(2,3)[OF f(1)]] show ?thesis .
qed

lemma is_frame_header:
  assumes "is_frame f"
  shows "5 \<le> length f"
    "if is_skippable_magic (readLE32 f 0)
     then readSkippableFrameSize (f @ rest) = Inr (length f) \<and> ZSTD_getFrameContentSize f = 0 \<and>
       fsi_decompressedBound (ZSTD_findFrameSizeInfo f ZSTD_f_zstd1) = 0
     else ZSTD_getFrameContentSize (f @ rest) = ZSTD_getFrameContentSize f \<and>
       (ZSTD_getFrameContentSize f \<noteq> ZSTD_CONTENTSIZE_UNKNOWN \<longrightarrow>
         fsi_decompressedBound (ZSTD_findFrameSizeInfo f ZSTD_f_zstd1) = ZSTD_getFrameContentSize f)"
  (is ?P)
proof -
  note size = is_frame_info(3)[OF assms]
  have "5 \<le> length f \<and> ?P"
  proof (cases "8 \<le> length f \<and> is_skippable_magic (readLE32 f 0)")
    case True
    with size have "readSkippableFrameSize f = Inr (length f)" by (simp add: ZSTD_findFrameSizeInfo_def)
    from readSkippableFrameSize_take[OF this] True magic_not_skippable show ?thesis
      by (auto simp: ZSTD_findFrameSizeInfo_def ZSTD_getFrameContentSize_def ZSTD_getFrameHeader_def
          getFrameHeader_enough ZSTD_startingInputLength_def ZSTD_FRAMEHEADERSIZE_PREFIX_def)
  next
    case False
    from findFrameSizeInfo_frame_cases[OF size] False obtain h p ip m c
      where h: "ZSTD_getFrameHeader_advanced f ZSTD_f_zstd1 = Inr (Header h)"
        and ns: "\<not> is_skippable_magic (readLE32 f 0)"
        and f: "f = take (unat (fh_headerSize h)) f @ p @ ip"
        and b: "\<And>rest. frame_blocks (p @ rest) 0 = Inr (rest, m)"
        and c: "c = (if fh_checksumFlag h \<noteq> 0 then 4 else 0)" "c \<le> length ip" by metis
    have len: "5 \<le> length f"
      using h prefix_cases[of ZSTD_f_zstd1]
      by (auto simp: ZSTD_getFrameHeader_advanced_def Let_def split: if_splits)
    have b': "frame_blocks (drop (unat (fh_headerSize h)) f) 0 = Inr (ip, m)"
      using b[of ip] f getFrameHeader_size_pos(2)[OF h]
      by (metis append_eq_conv_conj length_take min_absorb2)
    have "fh_frameType h = ZSTD_frame" using getFrameHeader_frameType[OF h] ns by simp
    then have "ZSTD_getFrameContentSize f = fh_frameContentSize h"
      using h by (simp add: ZSTD_getFrameContentSize_def ZSTD_getFrameHeader_def)
    with getFrameContentSize_append[OF h, of rest] findFrameSizeInfo_frame[OF _ h b' c] ns len show ?thesis
      by simp
  qed
  then show "5 \<le> length f" ?P by simp_all
qed

lemma decompressBound_loop_frame:
  assumes "is_frame f" "fsi_decompressedBound (ZSTD_findFrameSizeInfo f ZSTD_f_zstd1) \<noteq> ZSTD_CONTENTSIZE_ERROR"
  shows "decompressBound_loop (f @ rest) b =
    decompressBound_loop rest (b + fsi_decompressedBound (ZSTD_findFrameSizeInfo f ZSTD_f_zstd1))"
  using assms is_frame_info[OF assms(1)]
  by (subst decompressBound_loop.simps) (simp add: Let_def)

lemma word_sum_no_overflow:
  assumes "unat t + n < 2 ^ 64" "unat c \<le> n"
  shows "\<not> t + c < (t :: U64)" "unat (t + c) = unat t + unat c"
  using assms by (simp_all add: word_less_nat_alt unat_plus_if_size word_size)

lemma findDecompressedSize_loop_frame:
  assumes "is_frame f" "ZSTD_getFrameContentSize f < ZSTD_CONTENTSIZE_ERROR"
    and "unat t + unat (ZSTD_getFrameContentSize f) < 2 ^ 64"
  shows "findDecompressedSize_loop (f @ rest) t = findDecompressedSize_loop rest (t + ZSTD_getFrameContentSize f)"
proof -
  note hd = is_frame_header[OF assms(1)]
  have start: "ZSTD_startingInputLength ZSTD_f_zstd1 \<le> length (f @ rest)"
    using hd(1) prefix_cases[of ZSTD_f_zstd1] by simp
  have rd: "readLE32 (f @ rest) 0 = readLE32 f 0" using hd(1) by simp
  show ?thesis
  proof (cases "is_skippable_magic (readLE32 f 0)")
    case True
    with hd(2)[of rest] start rd show ?thesis
      by (subst findDecompressedSize_loop.simps) simp
  next
    case False
    have "ZSTD_findFrameCompressedSize (f @ rest) = Inr (length f)"
      using is_frame_info[OF assms(1)] by (simp add: findFrameCompressedSize_defs)
    moreover have "\<not> ZSTD_CONTENTSIZE_ERROR \<le> ZSTD_getFrameContentSize f" using assms(2) by (simp only: not_le)
    ultimately show ?thesis
      using False hd(2)[of rest] start rd word_sum_no_overflow(1)[OF assms(3) order_refl]
      by (subst findDecompressedSize_loop.simps) (simp add: Let_def)
  qed
qed

lemma findDecompressedSize_loop_frames:
  assumes "\<forall>f\<in>set fs. is_frame f \<and> ZSTD_getFrameContentSize f < ZSTD_CONTENTSIZE_ERROR"
    and "unat t + (\<Sum>f\<leftarrow>fs. unat (ZSTD_getFrameContentSize f)) < 2 ^ 64"
  shows "findDecompressedSize_loop (concat fs) t = t + of_nat (\<Sum>f\<leftarrow>fs. unat (ZSTD_getFrameContentSize f))"
  using assms
proof (induction fs arbitrary: t)
  case Nil
  then show ?case using prefix_cases[of ZSTD_f_zstd1] by (subst findDecompressedSize_loop.simps) simp
next
  case (Cons f fs)
  have "unat (t + ZSTD_getFrameContentSize f) = unat t + unat (ZSTD_getFrameContentSize f)"
    using Cons.prems(2) by (intro word_sum_no_overflow(2)[OF _ order_refl]) simp
  with Cons findDecompressedSize_loop_frame[of f t "concat fs"] show ?case by (simp add: add.assoc)
qed

lemma decompressBound_loop_frames:
  assumes "\<forall>f\<in>set fs. is_frame f \<and> ZSTD_getFrameContentSize f < ZSTD_CONTENTSIZE_ERROR"
  shows "decompressBound_loop (concat fs) b = b + of_nat (\<Sum>f\<leftarrow>fs. unat (ZSTD_getFrameContentSize f))"
  using assms
proof (induction fs arbitrary: b)
  case Nil
  then show ?case by (subst decompressBound_loop.simps) simp
next
  case (Cons f fs)
  have "ZSTD_getFrameContentSize f \<noteq> ZSTD_CONTENTSIZE_UNKNOWN" "ZSTD_getFrameContentSize f \<noteq> ZSTD_CONTENTSIZE_ERROR"
    using Cons.prems by (auto simp: ZSTD_CONTENTSIZE_ERROR_def ZSTD_CONTENTSIZE_UNKNOWN_def)
  with is_frame_header(2)[of f "[]"] Cons.prems
  have "fsi_decompressedBound (ZSTD_findFrameSizeInfo f ZSTD_f_zstd1) = ZSTD_getFrameContentSize f"
    by (auto split: if_splits)
  with Cons decompressBound_loop_frame[of f "concat fs" b] \<open>_ \<noteq> ZSTD_CONTENTSIZE_ERROR\<close> show ?case
    by (simp add: add.assoc)
qed

subsection \<open>Properties\<close>

text \<open>
  Property C29: frames are self-delimiting.  When a frame can be measured, its compressed size
  is positive and inside the input, and the measurement is the same when other bytes follow the
  frame: nothing past the frame is looked at.
\<close>

theorem frame_self_delimiting:
  assumes "ZSTD_findFrameCompressedSize_advanced src format = Inr n"
  shows "0 < n \<and> n \<le> length src \<and>
    ZSTD_findFrameSizeInfo (take n src @ following) format = ZSTD_findFrameSizeInfo src format"
  using assms findFrameSizeInfo_split[of src format n] by (simp add: ZSTD_findFrameCompressedSize_advanced_def)

text \<open>A frame with one raw block of one byte, and a skippable frame.\<close>

definition sample_frame :: buffer where
  "sample_frame = [0x28, 0xB5, 0x2F, 0xFD, 0x20, 0x01, 0x09, 0x00, 0x00, 0x41]"

definition sample_skippable :: buffer where
  "sample_skippable = [0x53, 0x2A, 0x4D, 0x18, 0x02, 0x00, 0x00, 0x00, 0x05, 0x06]"

lemmas eval_frame = readLE32_eq readLE24_eq bytes_at_def is_skippable_magic_div ZSTD_MAGICNUMBER_def
  ZSTD_getFrameHeader_advanced_def ZSTD_startingInputLength_def ZSTD_FRAMEHEADERSIZE_PREFIX_def
  ZSTD_frameHeaderSize_internal_def header_fields_def header_windowSize_def header_dictID_def
  header_contentSize_def ZSTD_did_fieldSize_def ZSTD_fcs_fieldSize_def ZSTD_BLOCKSIZE_MAX_def
  ZSTD_findFrameSizeInfo_def findFrameCompressedSize_defs ZSTD_getFrameContentSize_def ZSTD_getFrameHeader_def
  ZSTD_getcBlockSize_def readSkippableFrameSize_def frame_blocks.simps

lemma sample_frame_sizes:
  "ZSTD_findFrameCompressedSize sample_frame = Inr 10" "ZSTD_getFrameContentSize sample_frame = 1"
  "ZSTD_findFrameCompressedSize sample_skippable = Inr 10" "ZSTD_getFrameContentSize sample_skippable = 0"
  by (simp_all add: sample_frame_def sample_skippable_def eval_frame Let_def)

theorem frame_self_delimiting_witness:
  "ZSTD_findFrameCompressedSize_advanced sample_frame ZSTD_f_zstd1 = Inr 10 \<and>
   ZSTD_findFrameSizeInfo (take 10 sample_frame @ [1, 2]) ZSTD_f_zstd1 = ZSTD_findFrameSizeInfo sample_frame ZSTD_f_zstd1"
  using frame_self_delimiting[of sample_frame ZSTD_f_zstd1 10 "[1, 2]"] sample_frame_sizes(1)
  by (simp add: ZSTD_findFrameCompressedSize_def)

text \<open>
  The size functions are additive over concatenated frames, skippable ones
  included.  When every frame states its content size and the sum fits in 64 bits, both
  \<open>ZSTD_findDecompressedSize\<close> and \<open>ZSTD_decompressBound\<close> of the concatenation return the sum.
\<close>

theorem concatenated_frames_sizes:
  assumes "\<forall>f\<in>set fs. ZSTD_findFrameCompressedSize f = Inr (length f) \<and>
      ZSTD_getFrameContentSize f < ZSTD_CONTENTSIZE_ERROR"
    and "(\<Sum>f\<leftarrow>fs. unat (ZSTD_getFrameContentSize f)) < 2 ^ 64"
  shows "ZSTD_findDecompressedSize (concat fs) = of_nat (\<Sum>f\<leftarrow>fs. unat (ZSTD_getFrameContentSize f)) \<and>
    ZSTD_decompressBound (concat fs) = of_nat (\<Sum>f\<leftarrow>fs. unat (ZSTD_getFrameContentSize f))"
  using assms findDecompressedSize_loop_frames[of fs 0] decompressBound_loop_frames[of fs 0]
  by (simp add: is_frame_def ZSTD_findDecompressedSize_def ZSTD_decompressBound_def)

theorem concatenated_frames_sizes_witness:
  "ZSTD_findDecompressedSize (sample_frame @ sample_skippable @ sample_frame) = 2 \<and>
   ZSTD_decompressBound (sample_frame @ sample_skippable @ sample_frame) = 2"
proof -
  have "length sample_frame = 10" "length sample_skippable = 10"
    by (simp_all add: sample_frame_def sample_skippable_def)
  then show ?thesis
    using concatenated_frames_sizes[of "[sample_frame, sample_skippable, sample_frame]"] sample_frame_sizes
    by (simp add: ZSTD_CONTENTSIZE_ERROR_def word_less_nat_alt unat_uminus)
qed

text \<open>
  Stored and run-length blocks come back.  The block written by
  \<open>ZSTD_noCompressBlock\<close> has a header that announces a raw block of the size of the source and
  its last-block flag, followed by bytes which \<open>ZSTD_copyRawBlock\<close> copies to the source; the
  block of \<open>ZSTD_rleCompressBlock\<close> announces its regenerated size and \<open>ZSTD_setRleBlock\<close>
  expands it to that many copies.
\<close>

theorem stored_blocks_roundtrip:
  assumes "ZSTD_noCompressBlock dst src lst = Inr (op, n)" "length src < 2 ^ 21" "length src \<le> dstCapacity"
    and "ZSTD_rleCompressBlock dst' b srcSize lst' = Inr (op', n')" "srcSize < 2 ^ 21" "srcSize \<le> dstCapacity"
  shows "ZSTD_getcBlockSize (take n op @ following) =
      Inr (length src, \<lparr>bp_blockType = bt_raw, bp_lastBlock = lst, bp_origSize = length src\<rparr>) \<and>
    n = ZSTD_blockHeaderSize + length src \<and>
    ZSTD_copyRawBlock False dstCapacity (bytes_at (take n op @ following) ZSTD_blockHeaderSize (length src)) = Inr src \<and>
    ZSTD_getcBlockSize (take n' op' @ following) =
      Inr (1, \<lparr>bp_blockType = bt_rle, bp_lastBlock = lst', bp_origSize = srcSize\<rparr>) \<and>
    n' = ZSTD_blockHeaderSize + 1 \<and>
    ZSTD_setRleBlock False dstCapacity ((take n' op' @ following) ! ZSTD_blockHeaderSize) srcSize = Inr (replicate srcSize b)"
proof -
  note raw = noCompressBlock_eq[OF assms(1,2)] and rle = rleCompressBlock_eq[OF assms(4)]
  define w :: U32 where "w = of_bool lst + push_bit 1 0 + of_nat (length src * 2 ^ 3)"
  define w' :: U32 where "w' = of_bool lst' + push_bit 1 1 + of_nat (srcSize * 2 ^ 3)"
  have t: "take n op @ following = le_bytes 3 (unat w) @ src @ following"
    unfolding raw(3) w_def[symmetric] using raw(1) by simp
  have t': "take n' op' @ following = le_bytes 3 (unat w') @ b # following"
    unfolding rle(3) w'_def[symmetric] using rle(1) by simp
  show ?thesis
    unfolding t t' using assms(3,6) raw(1) rle(1)
      getcBlockSize_written[OF _ assms(2) w_def, of "src @ following"]
      getcBlockSize_written[OF _ assms(5) w'_def, of "b # following"]
    by (simp add: ZSTD_copyRawBlock_def ZSTD_setRleBlock_def bytes_at_def nth_append)
qed

theorem stored_blocks_roundtrip_witness:
  "ZSTD_getcBlockSize (take 5 [0x11, 0, 0, 7, 8, 0] @ [9]) =
    Inr (2, \<lparr>bp_blockType = bt_raw, bp_lastBlock = True, bp_origSize = 2\<rparr>)"
proof -
  have "ZSTD_noCompressBlock (replicate 6 0) [7, 8] True = Inr ([0x11, 0, 0, 7, 8, 0], 5)"
    "ZSTD_rleCompressBlock (replicate 4 0) 7 5 False = Inr ([0x2A, 0, 0, 7], 4)"
    by code_simp+
  from stored_blocks_roundtrip[OF this(1) _ _ this(2), of 5 "[9]"] show ?thesis by simp
qed

end
