(* ===== verification/Zstd_Decompress.thy ===== *)
theory Zstd_Decompress
  imports Zstd_Frame
begin

section \<open>One-shot decompression (\<^verbatim>\<open>decompress/zstd_decompress.c\<close>)\<close>

text \<open>
  The decompression context and the one-shot decoder down to its blocks.  Raw and run-length
  blocks are decoded here.  The decoder of a compressed block and the loader of a
  dictionary's entropy tables (\<^verbatim>\<open>decompress/zstd_decompress_block.c\<close>,
  \<^verbatim>\<open>decompress/huf_decompress.c\<close>) are arguments, collected in a record \<open>block_codec\<close>;
  \<open>'d\<close> is the entropy state they work on.

  The four window pointers of the context are represented by the bytes they designate:
  \<open>dx_prefix\<close> is the segment from \<open>prefixStart\<close> to \<open>previousDstEnd\<close> and \<open>dx_extDict\<close> the
  segment that ends at \<open>dictEnd\<close>.  Whether the destination of a call starts where the last one
  ended is an argument.  Source and destination do not overlap.  Fields that only steer
  prefetching or tracing (\<open>ddictIsCold\<close>, \<open>traceCtx\<close>) and the buffers of the streaming layer
  are left out.
\<close>

subsection \<open>Outcomes\<close>

text \<open>\<open>None\<close>: does not end; \<open>Inl\<close>: access outside a buffer, or an error code.\<close>

type_synonym 'a outcome = "(failure + 'a) option"

definition bindO :: "'a outcome \<Rightarrow> ('a \<Rightarrow> 'b outcome) \<Rightarrow> 'b outcome" where
  "bindO r f = (case r of None \<Rightarrow> None | Some (Inl e) \<Rightarrow> Some (Inl e) | Some (Inr a) \<Rightarrow> f a)"

definition liftE :: "ZSTD_ErrorCode + 'a \<Rightarrow> 'a outcome" where
  "liftE r = Some (case r of Inl e \<Rightarrow> Inl (Code e) | Inr a \<Rightarrow> Inr a)"

abbreviation returns :: "'a \<Rightarrow> 'a outcome" where "returns a \<equiv> Some (Inr a)"
abbreviation fails :: "ZSTD_ErrorCode \<Rightarrow> 'a outcome" where "fails e \<equiv> Some (Inl (Code e))"

lemma bindO_simps [simp]:
  "bindO (returns a) f = f a" "bindO (Some (Inl e)) f = Some (Inl e)" "bindO None f = None"
  by (simp_all add: bindO_def)

lemma bindO_returns [simp]: "bindO r f = returns b \<longleftrightarrow> (\<exists>a. r = returns a \<and> f a = returns b)"
  by (auto simp: bindO_def split: option.splits sum.splits)

lemma liftE_simps [simp]: "liftE (Inl e) = fails e" "liftE (Inr a) = returns a"
  by (simp_all add: liftE_def)

lemma liftE_returns [simp]: "liftE r = returns a \<longleftrightarrow> r = Inr a"
  by (cases r) simp_all

subsection \<open>The context\<close>

datatype ZSTD_dStage = ZSTDds_getFrameHeaderSize | ZSTDds_decodeFrameHeader | ZSTDds_decodeBlockHeader
  | ZSTDds_decompressBlock | ZSTDds_decompressLastBlock | ZSTDds_checkChecksum
  | ZSTDds_decodeSkippableHeader | ZSTDds_skipFrame

datatype ZSTD_dictUses_e = ZSTD_use_indefinitely | ZSTD_dont_use | ZSTD_use_once

record 'd ZSTD_DCtx =
  dx_entropy :: 'd
  dx_extDict :: buffer
  dx_prefix :: buffer
  dx_expected :: nat
  dx_fParams :: ZSTD_FrameHeader
  dx_processedCSize :: U64
  dx_decodedSize :: U64
  dx_bType :: blockType_e
  dx_stage :: ZSTD_dStage
  dx_xxhState :: XXH64_state
  dx_headerSize :: nat
  dx_format :: ZSTD_format_e
  dx_forceIgnoreChecksum :: bool
  dx_validateChecksum :: bool
  dx_rleSize :: nat
  dx_ddictLocal :: "ZSTD_DDict option"
  dx_ddict :: "ZSTD_DDict option"
  dx_dictID :: U32
  dx_dictUses :: ZSTD_dictUses_e
  dx_ddictSet :: "ZSTD_DDictHashSet option"
  dx_refMultipleDDicts :: bool
  dx_maxBlockSizeParam :: U32
  dx_headerBuffer :: buffer

text \<open>
  The decoder of compressed blocks: its part of \<open>ZSTD_decompressBegin\<close>, the loading of the
  entropy tables of a dictionary (new state and size of the tables in the dictionary), the
  referencing of the tables of a \<open>ZSTD_DDict\<close>, and \<open>ZSTD_decompressBlock_internal\<close> on the limit
  of the block size, the history, whether \<open>dst\<close> is NULL, its capacity and the block.
\<close>

record 'd block_codec =
  bc_begin :: "'d \<Rightarrow> 'd"
  bc_load :: "'d \<Rightarrow> buffer \<Rightarrow> ZSTD_ErrorCode + 'd \<times> nat"
  bc_refDDict :: "'d \<Rightarrow> ZSTD_DDict \<Rightarrow> 'd"
  bc_decode :: "'d \<Rightarrow> U32 \<Rightarrow> buffer \<Rightarrow> bool \<Rightarrow> nat \<Rightarrow> buffer \<Rightarrow> ZSTD_ErrorCode + 'd \<times> buffer"

definition ZSTD_MAGIC_DICTIONARY :: U32 where "ZSTD_MAGIC_DICTIONARY = 0xEC30A437"

definition ZSTD_DCtx_resetParameters :: "'d ZSTD_DCtx \<Rightarrow> 'd ZSTD_DCtx" where
  "ZSTD_DCtx_resetParameters dctx =
     dctx\<lparr>dx_format := ZSTD_f_zstd1, dx_forceIgnoreChecksum := False, dx_refMultipleDDicts := False,
          dx_maxBlockSizeParam := 0\<rparr>"

definition ZSTD_initDCtx_internal :: "'d ZSTD_DCtx \<Rightarrow> 'd ZSTD_DCtx" where
  "ZSTD_initDCtx_internal dctx =
     ZSTD_DCtx_resetParameters
       (dctx\<lparr>dx_ddict := None, dx_ddictLocal := None, dx_dictUses := ZSTD_dont_use, dx_ddictSet := None\<rparr>)"

definition ZSTD_clearDict :: "'d ZSTD_DCtx \<Rightarrow> 'd ZSTD_DCtx" where
  "ZSTD_clearDict dctx = dctx\<lparr>dx_ddictLocal := None, dx_ddict := None, dx_dictUses := ZSTD_dont_use\<rparr>"

definition ZSTD_getDDict :: "'d ZSTD_DCtx \<Rightarrow> ZSTD_DDict option \<times> 'd ZSTD_DCtx" where
  "ZSTD_getDDict dctx =
     (case dx_dictUses dctx of
        ZSTD_dont_use \<Rightarrow> (None, ZSTD_clearDict dctx)
      | ZSTD_use_indefinitely \<Rightarrow> (dx_ddict dctx, dctx)
      | ZSTD_use_once \<Rightarrow> (dx_ddict dctx, dctx\<lparr>dx_dictUses := ZSTD_dont_use\<rparr>))"

subsection \<open>Frame header and dictionary selection\<close>

definition ZSTD_DCtx_selectFrameDDict :: "ZSTD_DDictHashSet \<Rightarrow> 'd ZSTD_DCtx \<Rightarrow> 'd ZSTD_DCtx outcome" where
  "ZSTD_DCtx_selectFrameDDict ddictSet dctx =
     (if dx_ddict dctx \<noteq> None
      then bindO (ZSTD_DDictHashSet_getDDict ddictSet (fh_dictID (dx_fParams dctx))) (\<lambda>frameDDict.
             case frameDDict of
               None \<Rightarrow> returns dctx
             | Some d \<Rightarrow>
                 returns ((ZSTD_clearDict dctx)\<lparr>dx_dictID := fh_dictID (dx_fParams dctx), dx_ddict := Some d,
                          dx_dictUses := ZSTD_use_indefinitely\<rparr>))
      else returns dctx)"

definition ZSTD_decodeFrameHeader :: "'d ZSTD_DCtx \<Rightarrow> buffer \<Rightarrow> 'd ZSTD_DCtx outcome" where
  "ZSTD_decodeFrameHeader dctx src =
     bindO (liftE (ZSTD_getFrameHeader_advanced src (dx_format dctx))) (\<lambda>result.
       case result of
         Wants n \<Rightarrow> fails ZSTD_error_srcSize_wrong
       | Header zfh \<Rightarrow>
           let dctx = dctx\<lparr>dx_fParams := zfh\<rparr>
           in bindO (case dx_ddictSet dctx of
                       Some s \<Rightarrow> if dx_refMultipleDDicts dctx then ZSTD_DCtx_selectFrameDDict s dctx else returns dctx
                     | None \<Rightarrow> returns dctx) (\<lambda>dctx.
                if fh_dictID (dx_fParams dctx) \<noteq> 0 \<and> dx_dictID dctx \<noteq> fh_dictID (dx_fParams dctx)
                then fails ZSTD_error_dictionary_wrong
                else
                  let validate = (fh_checksumFlag (dx_fParams dctx) \<noteq> 0 \<and> \<not> dx_forceIgnoreChecksum dctx);
                      dctx = dctx\<lparr>dx_validateChecksum := validate\<rparr>;
                      dctx = (if validate then dctx\<lparr>dx_xxhState := XXH64_reset 0\<rparr> else dctx)
                  in returns (dctx\<lparr>dx_processedCSize := dx_processedCSize dctx + of_nat (length src)\<rparr>)))"

subsection \<open>Starting a frame\<close>

definition ZSTD_checkContinuity :: "bool \<Rightarrow> nat \<Rightarrow> 'd ZSTD_DCtx \<Rightarrow> 'd ZSTD_DCtx" where
  "ZSTD_checkContinuity adjacent dstSize dctx =
     (if \<not> adjacent \<and> 0 < dstSize then dctx\<lparr>dx_extDict := dx_prefix dctx, dx_prefix := []\<rparr> else dctx)"

definition ZSTD_refDictContent :: "'d ZSTD_DCtx \<Rightarrow> buffer \<Rightarrow> 'd ZSTD_DCtx" where
  "ZSTD_refDictContent dctx dict = dctx\<lparr>dx_extDict := dx_prefix dctx, dx_prefix := dict\<rparr>"

definition ZSTD_decompress_insertDictionary ::
  "'d block_codec \<Rightarrow> 'd ZSTD_DCtx \<Rightarrow> buffer \<Rightarrow> ZSTD_ErrorCode + 'd ZSTD_DCtx" where
  "ZSTD_decompress_insertDictionary codec dctx dict =
     (if length dict < 8 \<or> readLE32 dict 0 \<noteq> ZSTD_MAGIC_DICTIONARY
      then Inr (ZSTD_refDictContent dctx dict)
      else
        let dctx = dctx\<lparr>dx_dictID := readLE32 dict ZSTD_FRAMEIDSIZE\<rparr>
        in case bc_load codec (dx_entropy dctx) dict of
             Inl e \<Rightarrow> Inl ZSTD_error_dictionary_corrupted
           | Inr (entropy, eSize) \<Rightarrow> Inr (ZSTD_refDictContent (dctx\<lparr>dx_entropy := entropy\<rparr>) (drop eSize dict)))"

definition ZSTD_decompressBegin :: "'d block_codec \<Rightarrow> 'd ZSTD_DCtx \<Rightarrow> 'd ZSTD_DCtx" where
  "ZSTD_decompressBegin codec dctx =
     dctx\<lparr>dx_expected := ZSTD_startingInputLength (dx_format dctx), dx_stage := ZSTDds_getFrameHeaderSize,
          dx_processedCSize := 0, dx_decodedSize := 0, dx_extDict := [], dx_prefix := [],
          dx_entropy := bc_begin codec (dx_entropy dctx), dx_dictID := 0, dx_bType := bt_reserved\<rparr>"

definition ZSTD_decompressBegin_usingDict ::
  "'d block_codec \<Rightarrow> 'd ZSTD_DCtx \<Rightarrow> buffer \<Rightarrow> ZSTD_ErrorCode + 'd ZSTD_DCtx" where
  "ZSTD_decompressBegin_usingDict codec dctx dict =
     (let dctx = ZSTD_decompressBegin codec dctx
      in if dict \<noteq> []
         then case ZSTD_decompress_insertDictionary codec dctx dict of
                Inl e \<Rightarrow> Inl ZSTD_error_dictionary_corrupted
              | Inr dctx \<Rightarrow> Inr dctx
         else Inr dctx)"

definition ZSTD_copyDDictParameters :: "'d block_codec \<Rightarrow> 'd ZSTD_DCtx \<Rightarrow> ZSTD_DDict \<Rightarrow> 'd ZSTD_DCtx" where
  "ZSTD_copyDDictParameters codec dctx ddict =
     dctx\<lparr>dx_dictID := dd_dictID ddict, dx_extDict := [], dx_prefix := dd_dictContent ddict,
          dx_entropy := bc_refDDict codec (dx_entropy dctx) ddict\<rparr>"

definition ZSTD_decompressBegin_usingDDict ::
  "'d block_codec \<Rightarrow> 'd ZSTD_DCtx \<Rightarrow> ZSTD_DDict option \<Rightarrow> 'd ZSTD_DCtx" where
  "ZSTD_decompressBegin_usingDDict codec dctx ddict =
     (let dctx = ZSTD_decompressBegin codec dctx
      in case ddict of None \<Rightarrow> dctx | Some d \<Rightarrow> ZSTD_copyDDictParameters codec dctx d)"

definition ZSTD_getDictID_fromDict :: "buffer \<Rightarrow> U32" where
  "ZSTD_getDictID_fromDict dict =
     (if length dict < 8 then 0
      else if readLE32 dict 0 \<noteq> ZSTD_MAGIC_DICTIONARY then 0
      else readLE32 dict ZSTD_FRAMEIDSIZE)"

definition ZSTD_getDictID_fromFrame :: "buffer \<Rightarrow> U32" where
  "ZSTD_getDictID_fromFrame src =
     (case ZSTD_getFrameHeader src of
        Inr (Header zfp) \<Rightarrow> fh_dictID zfp
      | _ \<Rightarrow> 0)"

subsection \<open>Frames\<close>

text \<open>
  One block: the bytes it regenerates after \<open>out\<close>, with the checksum updated.  The history of
  a compressed block is the window of the context followed by what the frame has regenerated.
\<close>

definition decode_block ::
  "'d block_codec \<Rightarrow> bool \<Rightarrow> nat \<Rightarrow> 'd ZSTD_DCtx \<Rightarrow> buffer \<Rightarrow> blockProperties_t \<Rightarrow> buffer
    \<Rightarrow> ('d ZSTD_DCtx \<times> buffer) outcome" where
  "decode_block codec dst_null dstCapacity dctx out bp block =
     bindO (case bp_blockType bp of
              bt_compressed \<Rightarrow>
                bindO (liftE (bc_decode codec (dx_entropy dctx) (fh_blockSizeMax (dx_fParams dctx))
                         (dx_extDict dctx @ dx_prefix dctx @ out) dst_null (dstCapacity - length out) block))
                  (\<lambda>(entropy, decoded). returns (dctx\<lparr>dx_entropy := entropy\<rparr>, decoded))
            | bt_raw \<Rightarrow>
                bindO (liftE (ZSTD_copyRawBlock dst_null (dstCapacity - length out) block))
                  (\<lambda>decoded. returns (dctx, decoded))
            | bt_rle \<Rightarrow>
                bindO (liftE (ZSTD_setRleBlock dst_null (dstCapacity - length out) (block ! 0) (bp_origSize bp)))
                  (\<lambda>decoded. returns (dctx, decoded))
            | bt_reserved \<Rightarrow> fails ZSTD_error_corruption_detected) (\<lambda>(dctx, decoded).
       returns (if dx_validateChecksum dctx
                then dctx\<lparr>dx_xxhState := XXH64_update LittleEndian (dx_xxhState dctx) decoded\<rparr> else dctx,
                decoded))"

function decompressFrame_blocks ::
  "'d block_codec \<Rightarrow> bool \<Rightarrow> nat \<Rightarrow> 'd ZSTD_DCtx \<Rightarrow> buffer \<Rightarrow> buffer
    \<Rightarrow> ('d ZSTD_DCtx \<times> buffer \<times> buffer) outcome" where
  "decompressFrame_blocks codec dst_null dstCapacity dctx out ip =
     (case ZSTD_getcBlockSize ip of
        Inl e \<Rightarrow> fails e
      | Inr (cBlockSize, blockProperties) \<Rightarrow>
          let ip = drop ZSTD_blockHeaderSize ip
          in if length ip < cBlockSize then fails ZSTD_error_srcSize_wrong
             else
               case decode_block codec dst_null dstCapacity dctx out blockProperties (take cBlockSize ip) of
                 None \<Rightarrow> None
               | Some (Inl f) \<Rightarrow> Some (Inl f)
               | Some (Inr (dctx, decoded)) \<Rightarrow>
                   let out = out @ decoded; ip = drop cBlockSize ip
                   in if bp_lastBlock blockProperties then returns (dctx, out, ip)
                      else decompressFrame_blocks codec dst_null dstCapacity dctx out ip)"
  by pat_completeness auto
termination
proof (relation "measure (\<lambda>(codec, dst_null, cap, dctx, out, ip). length ip)", goal_cases)
  case (2 codec dst_null cap dctx out ip)
  then have "3 \<le> length ip" by (auto simp: ZSTD_getcBlockSize_def split: if_splits)
  with 2 show ?case by auto
qed simp

declare decompressFrame_blocks.simps [simp del]

definition shrink_blockSizeMax :: "'d ZSTD_DCtx \<Rightarrow> 'd ZSTD_DCtx" where
  "shrink_blockSizeMax dctx =
     (if dx_maxBlockSizeParam dctx \<noteq> 0
      then dctx\<lparr>dx_fParams := (dx_fParams dctx)
             \<lparr>fh_blockSizeMax := min (fh_blockSizeMax (dx_fParams dctx)) (dx_maxBlockSizeParam dctx)\<rparr>\<rparr>
      else dctx)"

text \<open>The result is the context, the regenerated bytes and the input after the frame.\<close>

definition ZSTD_decompressFrame ::
  "'d block_codec \<Rightarrow> 'd ZSTD_DCtx \<Rightarrow> bool \<Rightarrow> nat \<Rightarrow> buffer \<Rightarrow> ('d ZSTD_DCtx \<times> buffer \<times> buffer) outcome" where
  "ZSTD_decompressFrame codec dctx dst_null dstCapacity src =
     (if length src < ZSTD_FRAMEHEADERSIZE_MIN (dx_format dctx) + ZSTD_blockHeaderSize
      then fails ZSTD_error_srcSize_wrong
      else
        bindO (liftE (ZSTD_frameHeaderSize_internal
                 (take (ZSTD_FRAMEHEADERSIZE_PREFIX (dx_format dctx)) src) (dx_format dctx))) (\<lambda>frameHeaderSize.
        if length src < frameHeaderSize + ZSTD_blockHeaderSize then fails ZSTD_error_srcSize_wrong
        else
          bindO (ZSTD_decodeFrameHeader dctx (take frameHeaderSize src)) (\<lambda>dctx.
          bindO (decompressFrame_blocks codec dst_null dstCapacity (shrink_blockSizeMax dctx) []
                   (drop frameHeaderSize src)) (\<lambda>(dctx, out, ip).
          if fh_frameContentSize (dx_fParams dctx) \<noteq> ZSTD_CONTENTSIZE_UNKNOWN
             \<and> of_nat (length out) \<noteq> fh_frameContentSize (dx_fParams dctx)
          then fails ZSTD_error_corruption_detected
          else if fh_checksumFlag (dx_fParams dctx) \<noteq> 0
          then if length ip < 4 then fails ZSTD_error_checksum_wrong
               else if \<not> dx_forceIgnoreChecksum dctx
                       \<and> readLE32 ip 0 \<noteq> ucast (XXH64_digest LittleEndian (dx_xxhState dctx))
               then fails ZSTD_error_checksum_wrong
               else returns (dctx, out, drop 4 ip)
          else returns (dctx, out, ip)))))"

subsection \<open>What a decoded frame is\<close>

text \<open>A block decoder never regenerates more than the capacity it is given.\<close>

definition codec_ok :: "'d block_codec \<Rightarrow> bool" where
  "codec_ok codec \<longleftrightarrow>
     (\<forall>d blockSizeMax history dst_null capacity block d' out.
        bc_decode codec d blockSizeMax history dst_null capacity block = Inr (d', out) \<longrightarrow> length out \<le> capacity)"

text \<open>The fields which decoding a block leaves alone.\<close>

definition same_frame :: "'d ZSTD_DCtx \<Rightarrow> 'd ZSTD_DCtx \<Rightarrow> bool" where
  "same_frame dctx dctx' \<longleftrightarrow>
     dx_fParams dctx' = dx_fParams dctx \<and> dx_forceIgnoreChecksum dctx' = dx_forceIgnoreChecksum dctx \<and>
     dx_validateChecksum dctx' = dx_validateChecksum dctx \<and> dx_dictID dctx' = dx_dictID dctx \<and>
     dx_extDict dctx' = dx_extDict dctx \<and> dx_prefix dctx' = dx_prefix dctx"

lemma same_frame_refl [simp]: "same_frame dctx dctx" by (simp add: same_frame_def)

lemma same_frame_trans: "same_frame a b \<Longrightarrow> same_frame b c \<Longrightarrow> same_frame a c" by (simp add: same_frame_def)

lemma decode_block_returns:
  assumes "decode_block codec dst_null cap dctx out bp block = returns (dctx', decoded)"
  shows "same_frame dctx dctx'"
    "dx_validateChecksum dctx \<Longrightarrow> dx_xxhState dctx' = XXH64_update LittleEndian (dx_xxhState dctx) decoded"
    "codec_ok codec \<Longrightarrow> length decoded \<le> cap - length out"
proof -
  have self: "\<exists>ent. dctx = dctx\<lparr>dx_entropy := ent\<rparr>" by (rule exI[of _ "dx_entropy dctx"]) simp
  obtain d1 where d1: "dctx' = (if dx_validateChecksum d1
      then d1\<lparr>dx_xxhState := XXH64_update LittleEndian (dx_xxhState d1) decoded\<rparr> else d1)"
    and e: "\<exists>ent. d1 = dctx\<lparr>dx_entropy := ent\<rparr>"
    and len: "codec_ok codec \<Longrightarrow> length decoded \<le> cap - length out"
  proof (cases "bp_blockType bp")
    case bt_raw
    from that[OF _ self] show ?thesis
      using assms bt_raw by (auto simp: decode_block_def ZSTD_copyRawBlock_def split: if_splits)
  next
    case bt_rle
    from that[OF _ self] show ?thesis
      using assms bt_rle by (auto simp: decode_block_def ZSTD_setRleBlock_def split: if_splits)
  next
    case bt_compressed
    then obtain ent where dec: "bc_decode codec (dx_entropy dctx) (fh_blockSizeMax (dx_fParams dctx))
        (dx_extDict dctx @ dx_prefix dctx @ out) dst_null (cap - length out) block = Inr (ent, decoded)"
      and d: "dctx' = (if dx_validateChecksum dctx then dctx\<lparr>dx_entropy := ent,
          dx_xxhState := XXH64_update LittleEndian (dx_xxhState dctx) decoded\<rparr> else dctx\<lparr>dx_entropy := ent\<rparr>)"
      using assms by (auto simp: decode_block_def)
    show ?thesis
    proof (rule that[of "dctx\<lparr>dx_entropy := ent\<rparr>"])
      show "length decoded \<le> cap - length out" if "codec_ok codec"
        using that dec unfolding codec_ok_def by blast
    qed (use d in auto)
  next
    case bt_reserved
    with assms show ?thesis by (simp add: decode_block_def)
  qed
  from e obtain ent where ent: "d1 = dctx\<lparr>dx_entropy := ent\<rparr>" ..
  show "same_frame dctx dctx'" by (simp add: d1 ent same_frame_def)
  show "dx_validateChecksum dctx \<Longrightarrow> dx_xxhState dctx' = XXH64_update LittleEndian (dx_xxhState dctx) decoded"
    by (simp add: d1 ent)
  show "codec_ok codec \<Longrightarrow> length decoded \<le> cap - length out" by (rule len)
qed

lemmas decompressFrame_blocks_unfold = decompressFrame_blocks.simps[unfolded Let_def drop_drop ZSTD_blockHeaderSize_def]

lemma decompressFrame_blocks_step:
  assumes "decompressFrame_blocks codec dst_null cap dctx out ip = returns (dctx', out', rest)"
  obtains cs bp dctx1 decoded where "ZSTD_getcBlockSize ip = Inr (cs, bp)" "3 + cs \<le> length ip"
    "decode_block codec dst_null cap dctx out bp (take cs (drop 3 ip)) = returns (dctx1, decoded)"
    "if bp_lastBlock bp then dctx' = dctx1 \<and> out' = out @ decoded \<and> rest = drop (3 + cs) ip
     else decompressFrame_blocks codec dst_null cap dctx1 (out @ decoded) (drop (3 + cs) ip) = returns (dctx', out', rest)"
proof (cases "ZSTD_getcBlockSize ip")
  case (Inl e)
  with assms show ?thesis by (simp add: decompressFrame_blocks.simps)
next
  case (Inr r)
  obtain cs bp where r: "r = (cs, bp)" by (cases r)
  have len: "3 \<le> length ip" using Inr by (auto simp: ZSTD_getcBlockSize_def split: if_splits)
  let ?d = "decode_block codec dst_null cap dctx out bp (take cs (drop 3 ip))"
  have cs: "3 + cs \<le> length ip" using assms Inr r len
    by (cases "length ip - 3 < cs") (simp_all add: decompressFrame_blocks.simps[of _ _ _ _ _ ip])
  then have ncs: "\<not> length (drop 3 ip) < cs" by simp
  with assms Inr r have step: "(case ?d of None \<Rightarrow> None | Some (Inl f) \<Rightarrow> Some (Inl f)
      | Some (Inr (dctx, decoded)) \<Rightarrow>
          if bp_lastBlock bp then returns (dctx, out @ decoded, drop (3 + cs) ip)
          else decompressFrame_blocks codec dst_null cap dctx (out @ decoded) (drop (3 + cs) ip))
      = returns (dctx', out', rest)"
    unfolding add.commute[of 3 cs] by (simp add: decompressFrame_blocks_unfold[of _ _ _ _ _ ip])
  then obtain dctx1 decoded where d: "?d = returns (dctx1, decoded)"
    by (auto split: option.splits sum.splits)
  from that[OF Inr[unfolded r] cs d] step d show ?thesis by (auto split: if_splits)
qed

lemma decompressFrame_blocks_sound:
  assumes "decompressFrame_blocks codec dst_null cap dctx out ip = returns (dctx', out', rest)"
  shows "(\<exists>m. frame_blocks ip n = Inr (rest, m)) \<and> same_frame dctx dctx' \<and>
    (codec_ok codec \<and> length out \<le> cap \<longrightarrow> length out' \<le> cap) \<and>
    (\<exists>chunks. out' = out @ concat chunks \<and>
      (dx_validateChecksum dctx \<longrightarrow>
        dx_xxhState dctx' = foldl (XXH64_update LittleEndian) (dx_xxhState dctx) chunks))"
  using assms
proof (induction ip arbitrary: dctx out n rule: measure_induct_rule[where f = length])
  case (less ip)
  from less.prems obtain cs bp dctx1 decoded where g: "ZSTD_getcBlockSize ip = Inr (cs, bp)" "3 + cs \<le> length ip"
    and d: "decode_block codec dst_null cap dctx out bp (take cs (drop 3 ip)) = returns (dctx1, decoded)"
    and r: "if bp_lastBlock bp then dctx' = dctx1 \<and> out' = out @ decoded \<and> rest = drop (3 + cs) ip
      else decompressFrame_blocks codec dst_null cap dctx1 (out @ decoded) (drop (3 + cs) ip) = returns (dctx', out', rest)"
    by (rule decompressFrame_blocks_step)
  note b = decode_block_returns[OF d]
  show ?case
  proof (cases "bp_lastBlock bp")
    case True
    with r b g show ?thesis
      by (intro conjI exI[of _ "[decoded]"] exI[of _ "n + 1"]) (auto simp: frame_blocks.simps[of ip] Let_def)
  next
    case False
    with r have step: "decompressFrame_blocks codec dst_null cap dctx1 (out @ decoded) (drop (3 + cs) ip)
      = returns (dctx', out', rest)" by simp
    have "length (drop (3 + cs) ip) < length ip" using g(2) by simp
    from less.IH[OF this step, of "n + 1"] obtain m chunks where
      m: "frame_blocks (drop (3 + cs) ip) (n + 1) = Inr (rest, m)" and sf: "same_frame dctx1 dctx'"
      and cap: "codec_ok codec \<and> length (out @ decoded) \<le> cap \<longrightarrow> length out' \<le> cap"
      and out: "out' = (out @ decoded) @ concat chunks"
      and st: "dx_validateChecksum dctx1 \<longrightarrow>
        dx_xxhState dctx' = foldl (XXH64_update LittleEndian) (dx_xxhState dctx1) chunks" by blast
    have "frame_blocks ip n = Inr (rest, m)"
      using g False m by (simp add: frame_blocks.simps[of ip] Let_def)
    moreover have "same_frame dctx dctx'" using b(1) sf by (rule same_frame_trans)
    moreover have "length (out @ decoded) \<le> cap" if "codec_ok codec" "length out \<le> cap"
      using b(3)[OF that(1)] that(2) by simp
    moreover have "dx_validateChecksum dctx \<longrightarrow>
        dx_xxhState dctx' = foldl (XXH64_update LittleEndian) (dx_xxhState dctx) (decoded # chunks)"
      using st b(1,2) by (simp add: same_frame_def)
    ultimately show ?thesis using cap out by (intro conjI exI[of _ "decoded # chunks"]) auto
  qed
qed

lemma decodeFrameHeader_returns:
  assumes "ZSTD_decodeFrameHeader dctx src = returns dctx'"
  obtains h where "ZSTD_getFrameHeader_advanced src (dx_format dctx) = Inr (Header h)" "dx_fParams dctx' = h"
    "fh_dictID h \<noteq> 0 \<Longrightarrow> dx_dictID dctx' = fh_dictID h"
    "dx_validateChecksum dctx' \<longleftrightarrow> fh_checksumFlag h \<noteq> 0 \<and> \<not> dx_forceIgnoreChecksum dctx"
    "dx_validateChecksum dctx' \<Longrightarrow> dx_xxhState dctx' = XXH64_reset 0"
    "dx_forceIgnoreChecksum dctx' = dx_forceIgnoreChecksum dctx" "dx_format dctx' = dx_format dctx"
    "dx_maxBlockSizeParam dctx' = dx_maxBlockSizeParam dctx" "dx_entropy dctx' = dx_entropy dctx"
    "dx_extDict dctx' = dx_extDict dctx" "dx_prefix dctx' = dx_prefix dctx"
proof -
  define sel where "sel d = (case dx_ddictSet d of
      Some s \<Rightarrow> if dx_refMultipleDDicts d then ZSTD_DCtx_selectFrameDDict s d else returns d
    | None \<Rightarrow> returns d)" for d :: "'a ZSTD_DCtx"
  have sel: "dx_fParams d' = dx_fParams d \<and> dx_forceIgnoreChecksum d' = dx_forceIgnoreChecksum d \<and>
      dx_format d' = dx_format d \<and> dx_maxBlockSizeParam d' = dx_maxBlockSizeParam d \<and>
      dx_entropy d' = dx_entropy d \<and> dx_extDict d' = dx_extDict d \<and> dx_prefix d' = dx_prefix d"
    if "sel d = returns d'" for d d'
    using that by (auto simp: sel_def ZSTD_DCtx_selectFrameDDict_def ZSTD_clearDict_def
        split: option.splits if_splits)
  from assms obtain r where r: "ZSTD_getFrameHeader_advanced src (dx_format dctx) = Inr r"
    unfolding ZSTD_decodeFrameHeader_def by auto
  with assms obtain h where h: "r = Header h"
    by (cases r) (simp_all add: ZSTD_decodeFrameHeader_def)
  from assms r h obtain d1 where
    "sel (dctx\<lparr>dx_fParams := h\<rparr>) = returns d1"
    "(if fh_dictID (dx_fParams d1) \<noteq> 0 \<and> dx_dictID d1 \<noteq> fh_dictID (dx_fParams d1)
      then fails ZSTD_error_dictionary_wrong
      else let validate = (fh_checksumFlag (dx_fParams d1) \<noteq> 0 \<and> \<not> dx_forceIgnoreChecksum d1);
               d1 = d1\<lparr>dx_validateChecksum := validate\<rparr>;
               d1 = (if validate then d1\<lparr>dx_xxhState := XXH64_reset 0\<rparr> else d1)
           in returns (d1\<lparr>dx_processedCSize := dx_processedCSize d1 + of_nat (length src)\<rparr>)) = returns dctx'"
    unfolding ZSTD_decodeFrameHeader_def sel_def[symmetric] by (simp add: sel_def[symmetric] Let_def) blast
  with sel[OF this(1)] that[OF r[unfolded h]] show ?thesis by (auto simp: Let_def split: if_splits)
qed

lemma decodeFrameHeader_facts:
  assumes "ZSTD_decodeFrameHeader dctx src = returns dctx'"
  shows "fh_dictID (dx_fParams dctx') \<noteq> 0 \<Longrightarrow> dx_dictID dctx' = fh_dictID (dx_fParams dctx')"
    "dx_validateChecksum dctx' \<longleftrightarrow> fh_checksumFlag (dx_fParams dctx') \<noteq> 0 \<and> \<not> dx_forceIgnoreChecksum dctx"
    "dx_validateChecksum dctx' \<Longrightarrow> dx_xxhState dctx' = XXH64_reset 0"
  using assms by (auto elim!: decodeFrameHeader_returns)

text \<open>The frame header size computed ahead of parsing is the one the parsed header reports.\<close>

lemma getFrameHeader_internal:
  assumes h: "ZSTD_getFrameHeader_advanced src format = Inr (Header h)"
    and ns: "\<not> (format = ZSTD_f_zstd1 \<and> is_skippable_magic (readLE32 src 0))"
  shows "ZSTD_frameHeaderSize_internal src format = Inr (unat (fh_headerSize h))"
proof -
  have len: "ZSTD_startingInputLength format \<le> length src"
    using h by (auto simp: ZSTD_getFrameHeader_advanced_def Let_def split: if_splits)
  with h ns obtain fhsize where f: "ZSTD_frameHeaderSize_internal src format = Inr fhsize"
    "header_fields src (ZSTD_startingInputLength format) fhsize = Inr (Header h)"
    by (auto simp: getFrameHeader_enough split: if_splits)
  from header_fields_wf(3)[OF f(2) frameHeaderSize_internal_bounds(2,3)[OF f(1)]] f(1) show ?thesis by simp
qed

lemma decompressFrame_returns:
  assumes "ZSTD_decompressFrame codec dctx dst_null cap src = returns (dctx', out, rest)"
    and ns: "\<not> (dx_format dctx = ZSTD_f_zstd1 \<and> is_skippable_magic (readLE32 src 0))"
  obtains h dctx1 ip where "ZSTD_getFrameHeader_advanced src (dx_format dctx) = Inr (Header h)"
    "ZSTD_decodeFrameHeader dctx (take (unat (fh_headerSize h)) src) = returns dctx1"
    "dx_fParams dctx1 = h" "unat (fh_headerSize h) + 3 \<le> length src"
    "decompressFrame_blocks codec dst_null cap (shrink_blockSizeMax dctx1) []
       (drop (unat (fh_headerSize h)) src) = returns (dctx', out, ip)"
    "fh_frameContentSize h \<noteq> ZSTD_CONTENTSIZE_UNKNOWN \<longrightarrow> of_nat (length out) = fh_frameContentSize h"
    "fh_checksumFlag h \<noteq> 0 \<longrightarrow> 4 \<le> length ip \<and>
       (dx_forceIgnoreChecksum dctx \<or> readLE32 ip 0 = ucast (XXH64_digest LittleEndian (dx_xxhState dctx')))"
    "rest = drop (if fh_checksumFlag h \<noteq> 0 then 4 else 0) ip"
proof -
  define fmt where "fmt = dx_format dctx"
  define n where "n = ZSTD_FRAMEHEADERSIZE_PREFIX fmt"
  have nlen: "n \<le> length src" and n4: "fmt = ZSTD_f_zstd1 \<Longrightarrow> 4 \<le> n" and nst: "n = ZSTD_startingInputLength fmt"
    using assms(1)
    by (auto simp: ZSTD_decompressFrame_def n_def fmt_def ZSTD_FRAMEHEADERSIZE_MIN_def ZSTD_FRAMEHEADERSIZE_PREFIX_def
        ZSTD_startingInputLength_def split: if_splits)
  from assms(1) obtain k dctx1 where k: "ZSTD_frameHeaderSize_internal (take n src) fmt = Inr k"
    "k + 3 \<le> length src" "ZSTD_decodeFrameHeader dctx (take k src) = returns dctx1"
    by (auto simp: ZSTD_decompressFrame_def n_def fmt_def split: if_splits)
  from decodeFrameHeader_returns[OF k(3)] obtain h where
    h: "ZSTD_getFrameHeader_advanced (take k src) fmt = Inr (Header h)" "dx_fParams dctx1 = h"
    and keep: "dx_forceIgnoreChecksum dctx1 = dx_forceIgnoreChecksum dctx"
    unfolding fmt_def by metis
  have hsrc: "ZSTD_getFrameHeader_advanced src fmt = Inr (Header h)"
    using getFrameHeader_append[OF h(1), of "drop k src"] by simp
  have "ZSTD_frameHeaderSize_internal src fmt = Inr k"
    using k(1) frameHeaderSize_internal_append[of fmt "take n src" "drop n src"] nst nlen by simp
  then have hk: "unat (fh_headerSize h) = k"
    using getFrameHeader_internal[OF hsrc] ns by (simp add: fmt_def)
  obtain ip where b: "decompressFrame_blocks codec dst_null cap (shrink_blockSizeMax dctx1) [] (drop k src)
      = returns (dctx', out, ip)"
    and fin: "(if fh_frameContentSize (dx_fParams dctx') \<noteq> ZSTD_CONTENTSIZE_UNKNOWN
             \<and> of_nat (length out) \<noteq> fh_frameContentSize (dx_fParams dctx')
          then fails ZSTD_error_corruption_detected
          else if fh_checksumFlag (dx_fParams dctx') \<noteq> 0
          then if length ip < 4 then fails ZSTD_error_checksum_wrong
               else if \<not> dx_forceIgnoreChecksum dctx'
                       \<and> readLE32 ip 0 \<noteq> ucast (XXH64_digest LittleEndian (dx_xxhState dctx'))
               then fails ZSTD_error_checksum_wrong
               else returns (dctx', out, drop 4 ip)
          else returns (dctx', out, ip)) = returns (dctx', out, rest)"
    using assms(1) k
    by (auto simp: ZSTD_decompressFrame_def n_def fmt_def split: if_splits)
  from decompressFrame_blocks_sound[OF b, of 0] have sf: "same_frame (shrink_blockSizeMax dctx1) dctx'" by blast
  have fp: "fh_frameContentSize (dx_fParams dctx') = fh_frameContentSize h"
    "fh_checksumFlag (dx_fParams dctx') = fh_checksumFlag h" "dx_forceIgnoreChecksum dctx' = dx_forceIgnoreChecksum dctx"
    using sf h(2) keep by (auto simp: same_frame_def shrink_blockSizeMax_def)
  show ?thesis
  proof (rule that[of h dctx1 ip])
    show "ZSTD_getFrameHeader_advanced src (dx_format dctx) = Inr (Header h)" using hsrc by (simp add: fmt_def)
  qed (use k(2,3) h(2) hk b fin fp in \<open>auto split: if_splits\<close>)
qed

lemma decompressFrame_blocks_shorter:
  assumes "decompressFrame_blocks codec dst_null cap dctx out ip = returns (dctx', out', rest)"
  shows "length rest < length ip"
  using decompressFrame_blocks_sound[OF assms, of 0] frame_blocks_split[of ip 0 rest] by fastforce

lemma decompressFrame_shorter:
  assumes "ZSTD_decompressFrame codec dctx dst_null cap src = returns (dctx', out, rest)"
  shows "length rest < length src"
proof -
  from assms obtain k c d d' ip where "decompressFrame_blocks codec dst_null cap d [] (drop k src) = returns (d', out, ip)"
    "rest = drop c ip"
    by (auto simp: ZSTD_decompressFrame_def split: if_splits prod.splits) (metis drop0)+
  with decompressFrame_blocks_shorter[OF this(1)] show ?thesis by simp
qed

subsection \<open>Concatenated frames\<close>

text \<open>
  \<open>adjacent n\<close> tells whether the dictionary happens to end where the destination is after \<open>n\<close>
  bytes.  The dictionary is the empty buffer for NULL.
\<close>

function decompressMultiFrame_loop ::
  "'d block_codec \<Rightarrow> (nat \<Rightarrow> bool) \<Rightarrow> bool \<Rightarrow> nat \<Rightarrow> buffer \<Rightarrow> ZSTD_DDict option \<Rightarrow> 'd ZSTD_DCtx \<Rightarrow> bool \<Rightarrow> buffer
    \<Rightarrow> buffer \<Rightarrow> ('d ZSTD_DCtx \<times> buffer) outcome" where
  "decompressMultiFrame_loop codec adjacent dst_null dstCapacity dict ddict dctx moreThan1Frame out src =
     (if length src < ZSTD_startingInputLength (dx_format dctx)
      then if src \<noteq> [] then fails ZSTD_error_srcSize_wrong else returns (dctx, out)
      else if dx_format dctx = ZSTD_f_zstd1 \<and> 4 \<le> length src \<and> is_skippable_magic (readLE32 src 0)
      then case readSkippableFrameSize src of
             Inl e \<Rightarrow> fails e
           | Inr skippableSize \<Rightarrow>
               decompressMultiFrame_loop codec adjacent dst_null dstCapacity dict ddict dctx moreThan1Frame out
                 (drop skippableSize src)
      else
        case (if ddict \<noteq> None then Inr (ZSTD_decompressBegin_usingDDict codec dctx ddict)
              else ZSTD_decompressBegin_usingDict codec dctx dict) of
          Inl e \<Rightarrow> fails e
        | Inr dctx \<Rightarrow>
            (case ZSTD_decompressFrame codec
                    (ZSTD_checkContinuity (adjacent (length out)) (dstCapacity - length out) dctx)
                    dst_null (dstCapacity - length out) src of
               None \<Rightarrow> None
             | Some (Inl f) \<Rightarrow>
                 if f = Code ZSTD_error_prefix_unknown \<and> moreThan1Frame then fails ZSTD_error_srcSize_wrong
                 else Some (Inl f)
             | Some (Inr (dctx, res, src)) \<Rightarrow>
                 decompressMultiFrame_loop codec adjacent dst_null dstCapacity dict ddict dctx True (out @ res) src))"
  by pat_completeness auto
termination
  by (relation "measure (\<lambda>(codec, adjacent, dst_null, cap, dict, ddict, dctx, more1, out, src). length src)")
    (auto dest!: decompressFrame_shorter readSkippableFrameSize_bounds)

declare decompressMultiFrame_loop.simps [simp del]

definition ZSTD_decompressMultiFrame ::
  "'d block_codec \<Rightarrow> (nat \<Rightarrow> bool) \<Rightarrow> 'd ZSTD_DCtx \<Rightarrow> bool \<Rightarrow> nat \<Rightarrow> buffer \<Rightarrow> buffer \<Rightarrow> ZSTD_DDict option
    \<Rightarrow> ('d ZSTD_DCtx \<times> buffer) outcome" where
  "ZSTD_decompressMultiFrame codec adjacent dctx dst_null dstCapacity src dict ddict =
     decompressMultiFrame_loop codec adjacent dst_null dstCapacity dict ddict dctx False [] src"

definition ZSTD_decompress_usingDict ::
  "'d block_codec \<Rightarrow> (nat \<Rightarrow> bool) \<Rightarrow> 'd ZSTD_DCtx \<Rightarrow> bool \<Rightarrow> nat \<Rightarrow> buffer \<Rightarrow> buffer \<Rightarrow> ('d ZSTD_DCtx \<times> buffer) outcome" where
  "ZSTD_decompress_usingDict codec adjacent dctx dst_null dstCapacity src dict =
     ZSTD_decompressMultiFrame codec adjacent dctx dst_null dstCapacity src dict None"

definition ZSTD_decompress_usingDDict ::
  "'d block_codec \<Rightarrow> (nat \<Rightarrow> bool) \<Rightarrow> 'd ZSTD_DCtx \<Rightarrow> bool \<Rightarrow> nat \<Rightarrow> buffer \<Rightarrow> ZSTD_DDict option
    \<Rightarrow> ('d ZSTD_DCtx \<times> buffer) outcome" where
  "ZSTD_decompress_usingDDict codec adjacent dctx dst_null dstCapacity src ddict =
     ZSTD_decompressMultiFrame codec adjacent dctx dst_null dstCapacity src [] ddict"

definition ZSTD_decompressDCtx ::
  "'d block_codec \<Rightarrow> (nat \<Rightarrow> bool) \<Rightarrow> 'd ZSTD_DCtx \<Rightarrow> bool \<Rightarrow> nat \<Rightarrow> buffer \<Rightarrow> ('d ZSTD_DCtx \<times> buffer) outcome" where
  "ZSTD_decompressDCtx codec adjacent dctx dst_null dstCapacity src =
     (let (ddict, dctx) = ZSTD_getDDict dctx
      in ZSTD_decompress_usingDDict codec adjacent dctx dst_null dstCapacity src ddict)"

text \<open>The memory of the new context holds arbitrary values, \<open>memory\<close>; \<open>allocated\<close> is the allocator's answer.\<close>

definition ZSTD_decompress ::
  "'d block_codec \<Rightarrow> (nat \<Rightarrow> bool) \<Rightarrow> bool \<Rightarrow> 'd ZSTD_DCtx \<Rightarrow> bool \<Rightarrow> nat \<Rightarrow> buffer \<Rightarrow> buffer outcome" where
  "ZSTD_decompress codec adjacent allocated memory dst_null dstCapacity src =
     (if \<not> allocated then fails ZSTD_error_memory_allocation
      else bindO (ZSTD_decompressDCtx codec adjacent (ZSTD_initDCtx_internal memory) dst_null dstCapacity src)
             (\<lambda>(dctx, out). returns out))"

lemma decompressFrame_measured:
  assumes "ZSTD_decompressFrame codec dctx dst_null cap src = returns (dctx', out, rest)"
    and ns: "\<not> (dx_format dctx = ZSTD_f_zstd1 \<and> is_skippable_magic (readLE32 src 0))"
  obtains h n where "ZSTD_getFrameHeader_advanced src (dx_format dctx) = Inr (Header h)"
    "ZSTD_findFrameCompressedSize_advanced src (dx_format dctx) = Inr n" "n \<le> length src" "rest = drop n src"
    "codec_ok codec \<longrightarrow> length out \<le> cap"
    "fh_frameContentSize h \<noteq> ZSTD_CONTENTSIZE_UNKNOWN \<longrightarrow> of_nat (length out) = fh_frameContentSize h"
    "fh_dictID h \<noteq> 0 \<longrightarrow> dx_dictID dctx' = fh_dictID h"
    "fh_checksumFlag h \<noteq> 0 \<and> \<not> dx_forceIgnoreChecksum dctx \<and> length out + 32 \<le> 2 ^ 64 \<longrightarrow>
      readLE32 (drop (n - 4) src) 0 = ucast (XXH64 LittleEndian out (of_nat (length out)) 0)"
proof -
  obtain h dctx1 ip where
    h: "ZSTD_getFrameHeader_advanced src (dx_format dctx) = Inr (Header h)"
    and dh: "ZSTD_decodeFrameHeader dctx (take (unat (fh_headerSize h)) src) = returns dctx1" "dx_fParams dctx1 = h"
      "unat (fh_headerSize h) + 3 \<le> length src"
    and blocks: "decompressFrame_blocks codec dst_null cap (shrink_blockSizeMax dctx1) []
       (drop (unat (fh_headerSize h)) src) = returns (dctx', out, ip)"
    and fcs: "fh_frameContentSize h \<noteq> ZSTD_CONTENTSIZE_UNKNOWN \<longrightarrow> of_nat (length out) = fh_frameContentSize h"
    and sum: "fh_checksumFlag h \<noteq> 0 \<longrightarrow> 4 \<le> length ip \<and>
       (dx_forceIgnoreChecksum dctx \<or> readLE32 ip 0 = ucast (XXH64_digest LittleEndian (dx_xxhState dctx')))"
    and rest: "rest = drop (if fh_checksumFlag h \<noteq> 0 then 4 else 0) ip" by (rule decompressFrame_returns[OF assms])
  define c where "c = (if fh_checksumFlag h \<noteq> 0 then 4 else 0 :: nat)"
  from decompressFrame_blocks_sound[OF blocks, of 0] obtain m chunks where
    m: "frame_blocks (drop (unat (fh_headerSize h)) src) 0 = Inr (ip, m)"
    and sf: "same_frame (shrink_blockSizeMax dctx1) dctx'" and cap: "codec_ok codec \<Longrightarrow> length out \<le> cap"
    and out: "out = concat chunks"
    and st: "dx_validateChecksum (shrink_blockSizeMax dctx1) \<longrightarrow>
      dx_xxhState dctx' = foldl (XXH64_update LittleEndian) (dx_xxhState (shrink_blockSizeMax dctx1)) chunks"
    by auto
  have shrink: "dx_validateChecksum (shrink_blockSizeMax dctx1) = dx_validateChecksum dctx1"
    "dx_xxhState (shrink_blockSizeMax dctx1) = dx_xxhState dctx1" "dx_dictID (shrink_blockSizeMax dctx1) = dx_dictID dctx1"
    by (simp_all add: shrink_blockSizeMax_def)
  from frame_blocks_split[OF m] obtain p where p: "drop (unat (fh_headerSize h)) src = p @ ip" by blast
  note hs = getFrameHeader_size_pos(2)[OF h]
  define n where "n = length src - (length ip - c)"
  have c: "c \<le> length ip" using sum by (simp add: c_def)
  have len: "length src = unat (fh_headerSize h) + length p + length ip"
    using p hs by (metis add.assoc le_add_diff_inverse length_append length_drop)
  have ip: "ip = drop (unat (fh_headerSize h) + length p) src"
    using p by (metis append_eq_conv_conj drop_drop add.commute)
  have n: "n = unat (fh_headerSize h) + length p + c" using len c by (simp add: n_def)
  note dd = decodeFrameHeader_facts[OF dh(1), unfolded dh(2)]
  show ?thesis
  proof (rule that[OF h])
    show "ZSTD_findFrameCompressedSize_advanced src (dx_format dctx) = Inr n"
      using findFrameSizeInfo_frame[OF ns h m c_def c] by (simp add: ZSTD_findFrameCompressedSize_advanced_def n_def)
    show "rest = drop n src" using rest ip n by (simp add: c_def add.commute)
    show "fh_dictID h \<noteq> 0 \<longrightarrow> dx_dictID dctx' = fh_dictID h"
      using dd(1) sf shrink by (simp add: same_frame_def)
    show "fh_checksumFlag h \<noteq> 0 \<and> \<not> dx_forceIgnoreChecksum dctx \<and> length out + 32 \<le> 2 ^ 64 \<longrightarrow>
        readLE32 (drop (n - 4) src) 0 = ucast (XXH64 LittleEndian out (of_nat (length out)) 0)"
      using st[unfolded shrink] dd(2,3) sum ip n out xxh64.streamed_digest[of chunks LittleEndian LittleEndian 0 LittleEndian]
      by (auto simp: c_def)
  qed (use cap fcs in \<open>auto simp: n_def\<close>)
qed

text \<open>The dictionary in use does not change the format or the checksum setting of a context.\<close>

lemma begin_keeps:
  "(if ddict \<noteq> None then Inr (ZSTD_decompressBegin_usingDDict codec dctx ddict)
    else ZSTD_decompressBegin_usingDict codec dctx dict) = Inr dctx' \<Longrightarrow> dx_format dctx' = dx_format dctx"
  by (auto simp: ZSTD_decompressBegin_usingDDict_def ZSTD_decompressBegin_usingDict_def ZSTD_decompressBegin_def
      ZSTD_copyDDictParameters_def ZSTD_decompress_insertDictionary_def ZSTD_refDictContent_def Let_def
      split: option.splits if_splits sum.splits)

lemma checkContinuity_format [simp]: "dx_format (ZSTD_checkContinuity adjacent n dctx) = dx_format dctx"
  by (simp add: ZSTD_checkContinuity_def)

lemma decode_block_format:
  "decode_block codec dst_null cap dctx out bp block = returns (dctx', decoded) \<Longrightarrow> dx_format dctx' = dx_format dctx"
  by (cases "bp_blockType bp") (auto simp: decode_block_def)

lemma decompressFrame_blocks_format:
  assumes "decompressFrame_blocks codec dst_null cap dctx out ip = returns (dctx', out', rest)"
  shows "dx_format dctx' = dx_format dctx"
  using assms
proof (induction ip arbitrary: dctx out rule: measure_induct_rule[where f = length])
  case (less ip)
  from less.prems show ?case
  proof (rule decompressFrame_blocks_step)
    fix cs bp dctx1 decoded
    assume g: "ZSTD_getcBlockSize ip = Inr (cs, bp)" "3 + cs \<le> length ip"
      and d: "decode_block codec dst_null cap dctx out bp (take cs (drop 3 ip)) = returns (dctx1, decoded)"
      and r: "if bp_lastBlock bp then dctx' = dctx1 \<and> out' = out @ decoded \<and> rest = drop (3 + cs) ip
        else decompressFrame_blocks codec dst_null cap dctx1 (out @ decoded) (drop (3 + cs) ip) = returns (dctx', out', rest)"
    have "length (drop (3 + cs) ip) < length ip" using g(2) by simp
    from less.IH[OF this] r decode_block_format[OF d] show ?thesis by (auto split: if_splits)
  qed
qed

lemma decompressFrame_format:
  assumes "ZSTD_decompressFrame codec dctx dst_null cap src = returns (dctx', out, rest)"
    and "\<not> (dx_format dctx = ZSTD_f_zstd1 \<and> is_skippable_magic (readLE32 src 0))"
  shows "dx_format dctx' = dx_format dctx"
  using assms
proof (rule decompressFrame_returns)
  fix h dctx1 ip
  assume d: "ZSTD_decodeFrameHeader dctx (take (unat (fh_headerSize h)) src) = returns dctx1"
    and b: "decompressFrame_blocks codec dst_null cap (shrink_blockSizeMax dctx1) []
      (drop (unat (fh_headerSize h)) src) = returns (dctx', out, ip)"
  from d have "dx_format dctx1 = dx_format dctx" by (auto elim!: decodeFrameHeader_returns)
  with decompressFrame_blocks_format[OF b] show ?thesis by (simp add: shrink_blockSizeMax_def split: if_splits)
qed

text \<open>The size announced by the frame headers is the size of the output.\<close>

lemma decompressMultiFrame_size:
  assumes "decompressMultiFrame_loop codec adjacent dst_null cap dict ddict dctx more1 out src = returns (dctx', out')"
    and "dx_format dctx = ZSTD_f_zstd1" "findDecompressedSize_loop src (of_nat (length out)) < ZSTD_CONTENTSIZE_ERROR"
    and "codec_ok codec"
  shows "of_nat (length out') = findDecompressedSize_loop src (of_nat (length out)) \<and> (length out \<le> cap \<longrightarrow> length out' \<le> cap)"
  using assms(1-3)
proof (induction src arbitrary: dctx more1 out rule: measure_induct_rule[where f = length])
  case (less src)
  have start: "ZSTD_startingInputLength ZSTD_f_zstd1 = 5" using prefix_cases[of ZSTD_f_zstd1] by simp
  note eqs = decompressMultiFrame_loop.simps[of codec adjacent dst_null cap dict ddict dctx more1 out src]
    and fds = findDecompressedSize_loop.simps[of src]
  consider "length src < 5" | "5 \<le> length src" "is_skippable_magic (readLE32 src 0)"
    | "5 \<le> length src" "\<not> is_skippable_magic (readLE32 src 0)" by linarith
  then show ?case
  proof cases
    case 1
    with less.prems show ?thesis by (auto simp: eqs fds start split: if_splits)
  next
    case 2
    with less.prems obtain n where n: "readSkippableFrameSize src = Inr n"
      by (auto simp: eqs start split: sum.splits)
    have "length (drop n src) < length src" using readSkippableFrameSize_bounds[OF n] by auto
    from less.IH[OF this] less.prems 2 n show ?thesis by (auto simp: eqs fds start)
  next
    case 3
    let ?started = "if ddict \<noteq> None then Inr (ZSTD_decompressBegin_usingDDict codec dctx ddict)
        else ZSTD_decompressBegin_usingDict codec dctx dict"
    let ?frame = "\<lambda>d1. ZSTD_decompressFrame codec (ZSTD_checkContinuity (adjacent (length out)) (cap - length out) d1)
        dst_null (cap - length out) src"
    from less.prems(1,2) 3 obtain d1 where d1: "?started = Inr d1" by (cases ?started) (simp_all add: eqs start)
    from less.prems(1,2) 3 obtain dctx1 res src1 where f: "?frame d1 = returns (dctx1, res, src1)"
      and r: "decompressMultiFrame_loop codec adjacent dst_null cap dict ddict dctx1 True (out @ res) src1 = returns (dctx', out')"
      unfolding eqs d1 by (auto simp: start split: option.splits sum.splits if_splits)
    have fmt: "dx_format (ZSTD_checkContinuity (adjacent (length out)) (cap - length out) d1) = ZSTD_f_zstd1"
      using begin_keeps[OF d1] less.prems(2) by simp
    have ns: "\<not> (dx_format (ZSTD_checkContinuity (adjacent (length out)) (cap - length out) d1) = ZSTD_f_zstd1
        \<and> is_skippable_magic (readLE32 src 0))" using 3 by simp
    have fmt1: "dx_format dctx1 = ZSTD_f_zstd1" using decompressFrame_format[OF f ns] fmt by simp
    obtain h n where h: "ZSTD_getFrameHeader_advanced src ZSTD_f_zstd1 = Inr (Header h)"
      and n: "ZSTD_findFrameCompressedSize src = Inr n" "src1 = drop n src"
      and cap: "length res \<le> cap - length out"
      and fcs: "fh_frameContentSize h \<noteq> ZSTD_CONTENTSIZE_UNKNOWN \<longrightarrow> of_nat (length res) = fh_frameContentSize h"
      using decompressFrame_measured[OF f ns] fmt assms(4) unfolding ZSTD_findFrameCompressedSize_def by metis
    have gfc: "ZSTD_getFrameContentSize src = fh_frameContentSize h"
      using h getFrameHeader_frameType[OF h] 3 by (simp add: ZSTD_getFrameContentSize_def ZSTD_getFrameHeader_def)
    have known: "\<not> ZSTD_CONTENTSIZE_ERROR \<le> fh_frameContentSize h"
    proof
      assume "ZSTD_CONTENTSIZE_ERROR \<le> fh_frameContentSize h"
      with less.prems(3) 3 gfc show False by (simp add: fds start Let_def)
    qed
    then have "fh_frameContentSize h \<noteq> ZSTD_CONTENTSIZE_UNKNOWN"
      by (auto simp: ZSTD_CONTENTSIZE_ERROR_def ZSTD_CONTENTSIZE_UNKNOWN_def word_le_nat_alt unat_uminus)
    with fcs have sz: "of_nat (length res) = fh_frameContentSize h" by simp
    have loop: "findDecompressedSize_loop src (of_nat (length out)) =
        findDecompressedSize_loop src1 (of_nat (length (out @ res)))"
      using less.prems(3) 3 gfc known n sz
      by (simp add: fds start Let_def split: if_splits)
    have "length src1 < length src" using decompressFrame_shorter[OF f] .
    from less.IH[OF this r fmt1] less.prems(3) loop cap show ?thesis by auto
  qed
qed

subsection \<open>Sample frames\<close>

text \<open>
  A codec that refuses compressed blocks and has no entropy state, a context in arbitrary memory, a
  frame that carries a checksum, and a frame with one run-length block of 2000 bytes in a
  window of 1024 bytes.
\<close>

definition stored_only :: "unit block_codec" where
  "stored_only = \<lparr>bc_begin = id, bc_load = (\<lambda>d dict. Inl ZSTD_error_dictionary_corrupted),
     bc_refDDict = (\<lambda>d ddict. d), bc_decode = (\<lambda>d m history dst_null cap block. Inl ZSTD_error_corruption_detected)\<rparr>"

lemma stored_only_ok: "codec_ok stored_only"
  by (simp add: codec_ok_def stored_only_def)

definition sample_memory :: "'d \<Rightarrow> 'd ZSTD_DCtx" where
  "sample_memory d = \<lparr>dx_entropy = d, dx_extDict = [], dx_prefix = [], dx_expected = 0,
     dx_fParams = \<lparr>fh_frameContentSize = 0, fh_windowSize = 0, fh_blockSizeMax = 0, fh_frameType = ZSTD_frame,
       fh_headerSize = 0, fh_dictID = 0, fh_checksumFlag = 0\<rparr>,
     dx_processedCSize = 0, dx_decodedSize = 0, dx_bType = bt_reserved, dx_stage = ZSTDds_getFrameHeaderSize,
     dx_xxhState = XXH64_reset 0, dx_headerSize = 0, dx_format = ZSTD_f_zstd1, dx_forceIgnoreChecksum = False,
     dx_validateChecksum = False, dx_rleSize = 0, dx_ddictLocal = None, dx_ddict = None, dx_dictID = 0,
     dx_dictUses = ZSTD_dont_use, dx_ddictSet = None, dx_refMultipleDDicts = False, dx_maxBlockSizeParam = 0,
     dx_headerBuffer = replicate 18 0\<rparr>"

lemma sample_memory_params: "dx_format (sample_memory d) = ZSTD_f_zstd1" "dx_forceIgnoreChecksum (sample_memory d) = False"
  by (simp_all add: sample_memory_def)

definition sample_checksum_frame :: buffer where
  "sample_checksum_frame =
     [0x28, 0xB5, 0x2F, 0xFD, 0x24, 0x01, 0x09, 0x00, 0x00, 0x41, 0x84, 0xB6, 0x95, 0xD0]"

definition oversized_frame :: buffer where
  "oversized_frame = [0x28, 0xB5, 0x2F, 0xFD, 0x00, 0x00, 0x83, 0x3E, 0x00, 0x41]"

lemma XXH64_A: "XXH64 LittleEndian [0x41] 1 0 = 0x13099D40D095B684"
  by (simp add: XXH64_def XXH64_endian_align_def XXH64_finalize_def
      XXH64_fin8.simps XXH64_fin4.simps XXH64_fin1.simps XXH64_avalanche_def
      bytes_at_def XXH_PRIME64_1_def XXH_PRIME64_2_def XXH_PRIME64_3_def XXH_PRIME64_4_def
      XXH_PRIME64_5_def XXH_rotl64_def Let_def word_le_nat_alt)

lemma digest_A: "XXH64_digest LittleEndian (XXH64_update LittleEndian (XXH64_reset 0) [0x41]) = 0x13099D40D095B684"
  using xxh64.streamed_digest[of "[[0x41]]" LittleEndian LittleEndian 0 LittleEndian] XXH64_A by simp

lemmas eval_decompress = eval_frame Let_def ZSTD_decompressFrame_def ZSTD_FRAMEHEADERSIZE_MIN_def
  ZSTD_decodeFrameHeader_def shrink_blockSizeMax_def decompressFrame_blocks_unfold decode_block_def
  ZSTD_copyRawBlock_def ZSTD_setRleBlock_def

lemmas eval_begin = ZSTD_decompressBegin_usingDict_def ZSTD_decompressBegin_usingDDict_def ZSTD_decompressBegin_def
  ZSTD_checkContinuity_def

lemma sample_checksum_frame_decodes:
  "\<exists>dctx'. ZSTD_decompressFrame codec (sample_memory d) False 1 (sample_checksum_frame @ [0]) = returns (dctx', [0x41], [0])"
  by (simp add: eval_decompress sample_checksum_frame_def sample_memory_def digest_A)

lemma sample_checksum_frame_ns: "\<not> is_skippable_magic (readLE32 (sample_checksum_frame @ xs) 0)"
  by (simp add: sample_checksum_frame_def readLE32_eq bytes_at_def is_skippable_magic_div)

subsection \<open>Properties\<close>

text \<open>
  Property C9: what one-shot decoding of a frame accepts.  When \<open>ZSTD_decompressFrame\<close> succeeds
  on a frame, the input it consumes is exactly the frame as measured by
  \<open>ZSTD_findFrameCompressedSize\<close>, the output fits the destination, a content size in the frame
  header is the size of the output, and a dictionary identifier in the header is that of the
  dictionary in use.
\<close>

theorem decompressed_frame_is_measured:
  assumes "ZSTD_decompressFrame codec dctx dst_null dstCapacity src = returns (dctx', out, rest)"
    and "\<not> (dx_format dctx = ZSTD_f_zstd1 \<and> is_skippable_magic (readLE32 src 0))"
    and "codec_ok codec"
  shows "\<exists>h n. ZSTD_getFrameHeader_advanced src (dx_format dctx) = Inr (Header h) \<and>
    ZSTD_findFrameCompressedSize_advanced src (dx_format dctx) = Inr n \<and> rest = drop n src \<and>
    length out \<le> dstCapacity \<and>
    (fh_frameContentSize h \<noteq> ZSTD_CONTENTSIZE_UNKNOWN \<longrightarrow> of_nat (length out) = fh_frameContentSize h) \<and>
    (fh_dictID h \<noteq> 0 \<longrightarrow> dx_dictID dctx' = fh_dictID h)"
  using assms(1,2) by (rule decompressFrame_measured) (use assms(3) in blast)

theorem decompressed_frame_is_measured_witness:
  "\<exists>h n. ZSTD_getFrameHeader_advanced (sample_checksum_frame @ [0]) ZSTD_f_zstd1 = Inr (Header h) \<and>
    ZSTD_findFrameCompressedSize_advanced (sample_checksum_frame @ [0]) ZSTD_f_zstd1 = Inr n \<and>
    [0] = drop n (sample_checksum_frame @ [0])"
proof -
  obtain dctx' where d: "ZSTD_decompressFrame stored_only (sample_memory ()) False 1 (sample_checksum_frame @ [0])
      = returns (dctx', [0x41], [0])"
    by (rule exE[OF sample_checksum_frame_decodes])
  show ?thesis
    using decompressed_frame_is_measured[OF d _ stored_only_ok] sample_checksum_frame_ns[of "[0]"]
    unfolding sample_memory_params by blast
qed

text \<open>
  Property C10: an accepted content checksum is right.  When a frame announces a checksum and
  the context does not ignore checksums, success of \<open>ZSTD_decompressFrame\<close> means that the last
  four bytes of the frame are the low half of the one-shot XXH64 hash of the whole output,
  although the decoder hashes it block by block.
\<close>

theorem decompressed_frame_checksum:
  assumes "ZSTD_decompressFrame codec dctx dst_null dstCapacity src = returns (dctx', out, rest)"
    and "\<not> (dx_format dctx = ZSTD_f_zstd1 \<and> is_skippable_magic (readLE32 src 0))"
    and "ZSTD_getFrameHeader_advanced src (dx_format dctx) = Inr (Header h)" "fh_checksumFlag h \<noteq> 0"
    and "\<not> dx_forceIgnoreChecksum dctx" "length out + 32 \<le> 2 ^ 64"
  shows "readLE32 (drop (length src - length rest - 4) src) 0 =
    ucast (XXH64 LittleEndian out (of_nat (length out)) 0)"
  using assms(1,2) by (rule decompressFrame_measured) (use assms(3-6) in simp)

theorem decompressed_frame_checksum_witness:
  "readLE32 [0x84, 0xB6, 0x95, 0xD0, 0] 0 = ucast (XXH64 LittleEndian [0x41] 1 0)"
proof -
  obtain dctx' where d: "ZSTD_decompressFrame stored_only (sample_memory ()) False 1 (sample_checksum_frame @ [0])
      = returns (dctx', [0x41], [0])"
    by (rule exE[OF sample_checksum_frame_decodes])
  obtain h where h: "ZSTD_getFrameHeader_advanced (sample_checksum_frame @ [0]) ZSTD_f_zstd1 = Inr (Header h)"
    "fh_checksumFlag h = 1"
    by (simp add: eval_frame Let_def sample_checksum_frame_def)
  show ?thesis
    using decompressed_frame_checksum[OF d, of h] sample_checksum_frame_ns[of "[0]"] h
    unfolding sample_memory_params by (simp add: sample_checksum_frame_def)
qed

text \<open>
  Property C27: the announced size of an input, of any number of frames and skippable frames, is
  the size of what one-shot decompression produces from it, and the destination is not
  overrun.
\<close>

theorem decompress_size_announced:
  assumes "ZSTD_decompressMultiFrame codec adjacent dctx dst_null dstCapacity src dict ddict = returns (dctx', out)"
    and "dx_format dctx = ZSTD_f_zstd1" "ZSTD_findDecompressedSize src < ZSTD_CONTENTSIZE_ERROR" "codec_ok codec"
  shows "of_nat (length out) = ZSTD_findDecompressedSize src \<and> length out \<le> dstCapacity"
  using assms decompressMultiFrame_size[of codec adjacent dst_null dstCapacity dict ddict dctx False "[]" src dctx' out]
  by (simp add: ZSTD_decompressMultiFrame_def ZSTD_findDecompressedSize_def)

theorem decompress_size_announced_witness:
  "ZSTD_findDecompressedSize (sample_skippable @ sample_frame) = 1 \<and>
   (\<exists>dctx'. ZSTD_decompressMultiFrame stored_only (\<lambda>n. False) (sample_memory ()) False 5
     (sample_skippable @ sample_frame) [] None = returns (dctx', [0x41]))"
proof -
  have frames: "is_frame sample_skippable" "is_frame sample_frame"
    using sample_frame_sizes by (simp_all add: is_frame_def sample_frame_def sample_skippable_def)
  have size: "ZSTD_findDecompressedSize (sample_skippable @ sample_frame) = 1"
    using findDecompressedSize_loop_frames[of "[sample_skippable, sample_frame]" 0] frames sample_frame_sizes
    by (simp add: ZSTD_findDecompressedSize_def ZSTD_CONTENTSIZE_ERROR_def word_less_nat_alt unat_uminus)
  obtain dctx' where run: "ZSTD_decompressMultiFrame stored_only (\<lambda>n. False) (sample_memory ()) False 5
     (sample_skippable @ sample_frame) [] None = returns (dctx', [0x41])"
    unfolding ZSTD_decompressMultiFrame_def sample_skippable_def sample_frame_def
    by (simp add: decompressMultiFrame_loop.simps eval_decompress eval_begin sample_memory_def stored_only_def)
  with decompress_size_announced[OF run _ _ stored_only_ok] size show ?thesis
    by (auto simp: sample_memory_def ZSTD_CONTENTSIZE_ERROR_def word_less_nat_alt unat_uminus)
qed

text \<open>
  Property C36: the bound is not one.  For a frame whose window is 1024 bytes and whose header
  does not state the content size, \<open>ZSTD_decompressBound\<close> returns 1024, while one-shot
  decompression succeeds with 2000 bytes: the one-shot decoder does not compare the size of raw
  and run-length blocks with the block size limit.
\<close>

theorem decompress_exceeds_bound:
  "ZSTD_decompressBound oversized_frame = 1024 \<and>
   ZSTD_decompress codec adjacent True memory False (2000 + room) oversized_frame = returns (replicate 2000 0x41)"
proof -
  have "ZSTD_decompressBound oversized_frame = 1024"
    unfolding ZSTD_decompressBound_def oversized_frame_def
    by (simp add: decompressBound_loop.simps eval_frame Let_def ZSTD_CONTENTSIZE_ERROR_def ZSTD_CONTENTSIZE_UNKNOWN_def)
  moreover have "ZSTD_decompress codec adjacent True memory False (2000 + room) oversized_frame = returns (replicate 2000 0x41)"
    unfolding ZSTD_decompress_def ZSTD_decompressDCtx_def ZSTD_decompress_usingDDict_def ZSTD_decompressMultiFrame_def
      ZSTD_initDCtx_internal_def ZSTD_DCtx_resetParameters_def ZSTD_getDDict_def ZSTD_clearDict_def oversized_frame_def
    by (simp add: decompressMultiFrame_loop.simps eval_decompress eval_begin ZSTD_CONTENTSIZE_UNKNOWN_def)
  ultimately show ?thesis by blast
qed

text \<open>
  Property C37: with several dictionaries referenced, one-shot decoding of a frame header
  switches the identity of the dictionary but not its content.  The context has been started
  with \<open>first\<close>; the header asks for the dictionary \<open>wanted\<close>, which is in the set: it is accepted
  and recorded, and the history and the entropy tables the blocks are decoded with remain those
  of \<open>first\<close>.
\<close>

theorem ddict_selected_not_loaded:
  assumes "dx_refMultipleDDicts dctx" "dx_ddictSet dctx = Some s" "dx_ddict dctx = Some first"
    and "ZSTD_getFrameHeader_advanced src (dx_format dctx) = Inr (Header h)"
    and "ZSTD_DDictHashSet_getDDict s (fh_dictID h) = returns (Some wanted)"
  shows "\<exists>dctx'. ZSTD_decodeFrameHeader (ZSTD_decompressBegin_usingDDict codec dctx (Some first)) src = returns dctx' \<and>
    dx_ddict dctx' = Some wanted \<and> dx_dictID dctx' = fh_dictID h \<and>
    dx_prefix dctx' = dd_dictContent first \<and>
    dx_entropy dctx' = bc_refDDict codec (bc_begin codec (dx_entropy dctx)) first"
  using assms
  by (simp add: ZSTD_decodeFrameHeader_def ZSTD_decompressBegin_usingDDict_def ZSTD_decompressBegin_def
      ZSTD_copyDDictParameters_def ZSTD_DCtx_selectFrameDDict_def ZSTD_clearDict_def Let_def)

definition dict_3 :: ZSTD_DDict where "dict_3 = (dict_of 3)\<lparr>dd_dictContent := [9, 9]\<rparr>"
definition dict_21 :: ZSTD_DDict where "dict_21 = (dict_of 21)\<lparr>dd_dictContent := [1, 2, 3]\<rparr>"

definition set_3_21 :: ZSTD_DDictHashSet where
  "set_3_21 = hs_new\<lparr>ddictPtrTable := (replicate 64 None)[52 := Some dict_21, 63 := Some dict_3], ddictPtrCount := 2\<rparr>"

definition sample_two_dicts :: "unit ZSTD_DCtx" where
  "sample_two_dicts = (sample_memory ())\<lparr>dx_refMultipleDDicts := True, dx_ddict := Some dict_3,
     dx_ddictSet := Some set_3_21\<rparr>"

theorem ddict_selected_not_loaded_witness:
  "\<exists>dctx'. ZSTD_decodeFrameHeader (ZSTD_decompressBegin_usingDDict stored_only sample_two_dicts (Some dict_3))
      [0x28, 0xB5, 0x2F, 0xFD, 0x21, 0x15, 0x01] = returns dctx' \<and>
    dx_ddict dctx' = Some dict_21 \<and> dx_dictID dctx' = 21 \<and> dx_prefix dctx' = [9, 9] \<and>
    dd_dictContent dict_21 = [1, 2, 3]"
proof -
  have get: "ZSTD_DDictHashSet_getDDict set_3_21 21 = Some (Inr (Some dict_21))"
    using getDDict_cases[of set_3_21 6 21]
    by (simp add: set_3_21_def hs_new_def getIndex_eval first_from_here ZSTD_getDictID_fromDDict_def dict_of_def dict_21_def)
  obtain h where h: "ZSTD_getFrameHeader_advanced [0x28, 0xB5, 0x2F, 0xFD, 0x21, 0x15, 0x01] ZSTD_f_zstd1 = Inr (Header h)"
    "fh_dictID h = 21"
    by (simp add: eval_frame Let_def)
  show ?thesis
    using ddict_selected_not_loaded[of sample_two_dicts set_3_21 dict_3 "[0x28, 0xB5, 0x2F, 0xFD, 0x21, 0x15, 0x01]" h
        dict_21 stored_only] get h
    by (simp add: sample_two_dicts_def sample_memory_def dict_3_def dict_21_def)
qed

end
