(* ===== verification/Zstd_Continue.thy ===== *)
theory Zstd_Continue
  imports Zstd_Decompress
begin

section \<open>Bufferless streaming decompression (\<open>ZSTD_decompressContinue\<close>)\<close>

text \<open>
  The stage machine of \<^verbatim>\<open>decompress/zstd_decompress.c\<close> that decodes a frame in steps: the
  context tells how many bytes it expects, the caller hands over exactly these.  Each call says
  whether its destination is adjacent to the end of the previous one; a call without room in
  the destination is made with an adjacent one.  Reading a magic number from less than four
  bytes is the outcome \<open>OutOfBounds\<close>: the source asserts that it does not happen.
\<close>

subsection \<open>The stage machine\<close>

definition ZSTD_nextSrcSizeToDecompress :: "'d ZSTD_DCtx \<Rightarrow> nat" where
  "ZSTD_nextSrcSizeToDecompress dctx = dx_expected dctx"

definition ZSTD_nextSrcSizeToDecompressWithInputSize :: "'d ZSTD_DCtx \<Rightarrow> nat \<Rightarrow> nat" where
  "ZSTD_nextSrcSizeToDecompressWithInputSize dctx inputSize =
     (if \<not> (dx_stage dctx = ZSTDds_decompressBlock \<or> dx_stage dctx = ZSTDds_decompressLastBlock)
      then dx_expected dctx
      else if dx_bType dctx \<noteq> bt_raw then dx_expected dctx
      else max 1 (min inputSize (dx_expected dctx)))"

datatype ZSTD_nextInputType_e = ZSTDnit_frameHeader | ZSTDnit_blockHeader | ZSTDnit_block | ZSTDnit_lastBlock
  | ZSTDnit_checksum | ZSTDnit_skippableFrame

fun ZSTD_nextInputType :: "'d ZSTD_DCtx \<Rightarrow> ZSTD_nextInputType_e" where
  "ZSTD_nextInputType dctx =
     (case dx_stage dctx of
        ZSTDds_getFrameHeaderSize \<Rightarrow> ZSTDnit_frameHeader
      | ZSTDds_decodeFrameHeader \<Rightarrow> ZSTDnit_frameHeader
      | ZSTDds_decodeBlockHeader \<Rightarrow> ZSTDnit_blockHeader
      | ZSTDds_decompressBlock \<Rightarrow> ZSTDnit_block
      | ZSTDds_decompressLastBlock \<Rightarrow> ZSTDnit_lastBlock
      | ZSTDds_checkChecksum \<Rightarrow> ZSTDnit_checksum
      | ZSTDds_decodeSkippableHeader \<Rightarrow> ZSTDnit_skippableFrame
      | ZSTDds_skipFrame \<Rightarrow> ZSTDnit_skippableFrame)"

definition ZSTD_isSkipFrame :: "'d ZSTD_DCtx \<Rightarrow> bool" where
  "ZSTD_isSkipFrame dctx \<longleftrightarrow> dx_stage dctx = ZSTDds_skipFrame"

definition continue_frameHeaderSize :: "'d ZSTD_DCtx \<Rightarrow> buffer \<Rightarrow> 'd ZSTD_DCtx outcome" where
  "continue_frameHeaderSize dctx src =
     (if dx_format dctx = ZSTD_f_zstd1 \<and> length src < ZSTD_FRAMEIDSIZE then Some (Inl OutOfBounds)
      else if dx_format dctx = ZSTD_f_zstd1 \<and> is_skippable_magic (readLE32 src 0)
      then returns (dctx\<lparr>dx_headerBuffer := write_at (dx_headerBuffer dctx) 0 src,
             dx_expected := ZSTD_SKIPPABLEHEADERSIZE - length src, dx_stage := ZSTDds_decodeSkippableHeader\<rparr>)
      else bindO (liftE (ZSTD_frameHeaderSize_internal src (dx_format dctx))) (\<lambda>headerSize.
             returns (dctx\<lparr>dx_headerSize := headerSize, dx_headerBuffer := write_at (dx_headerBuffer dctx) 0 src,
               dx_expected := headerSize - length src, dx_stage := ZSTDds_decodeFrameHeader\<rparr>)))"

definition continue_frameHeader :: "'d ZSTD_DCtx \<Rightarrow> buffer \<Rightarrow> 'd ZSTD_DCtx outcome" where
  "continue_frameHeader dctx src =
     (let dctx = dctx\<lparr>dx_headerBuffer := write_at (dx_headerBuffer dctx) (dx_headerSize dctx - length src) src\<rparr>
      in bindO (ZSTD_decodeFrameHeader dctx (take (dx_headerSize dctx) (dx_headerBuffer dctx))) (\<lambda>dctx.
           returns (dctx\<lparr>dx_expected := ZSTD_blockHeaderSize, dx_stage := ZSTDds_decodeBlockHeader\<rparr>)))"

text \<open>The end of the last block: another round for the checksum, or the end of the frame.\<close>

definition finish_blocks :: "'d ZSTD_DCtx \<Rightarrow> 'd ZSTD_DCtx" where
  "finish_blocks dctx =
     (if fh_checksumFlag (dx_fParams dctx) \<noteq> 0
      then dctx\<lparr>dx_expected := 4, dx_stage := ZSTDds_checkChecksum\<rparr>
      else dctx\<lparr>dx_expected := 0, dx_stage := ZSTDds_getFrameHeaderSize\<rparr>)"

definition continue_blockHeader :: "'d ZSTD_DCtx \<Rightarrow> buffer \<Rightarrow> 'd ZSTD_DCtx outcome" where
  "continue_blockHeader dctx src =
     bindO (liftE (ZSTD_getcBlockSize (take ZSTD_blockHeaderSize src))) (\<lambda>(cBlockSize, bp).
       if unat (fh_blockSizeMax (dx_fParams dctx)) < cBlockSize then fails ZSTD_error_corruption_detected
       else
         let dctx = dctx\<lparr>dx_expected := cBlockSize, dx_bType := bp_blockType bp, dx_rleSize := bp_origSize bp\<rparr>
         in if cBlockSize \<noteq> 0
            then returns (dctx\<lparr>dx_stage := (if bp_lastBlock bp then ZSTDds_decompressLastBlock else ZSTDds_decompressBlock)\<rparr>)
            else if bp_lastBlock bp then returns (finish_blocks dctx)
            else returns (dctx\<lparr>dx_expected := ZSTD_blockHeaderSize, dx_stage := ZSTDds_decodeBlockHeader\<rparr>))"

definition regenerate ::
  "'d block_codec \<Rightarrow> bool \<Rightarrow> nat \<Rightarrow> 'd ZSTD_DCtx \<Rightarrow> buffer \<Rightarrow> ('d ZSTD_DCtx \<times> buffer) outcome" where
  "regenerate codec dst_null dstCapacity dctx src =
     (case dx_bType dctx of
        bt_compressed \<Rightarrow>
          bindO (liftE (bc_decode codec (dx_entropy dctx) (fh_blockSizeMax (dx_fParams dctx))
                   (dx_extDict dctx @ dx_prefix dctx) dst_null dstCapacity src)) (\<lambda>(entropy, out).
            returns (dctx\<lparr>dx_entropy := entropy, dx_expected := 0\<rparr>, out))
      | bt_raw \<Rightarrow>
          bindO (liftE (ZSTD_copyRawBlock dst_null dstCapacity src)) (\<lambda>out.
            returns (dctx\<lparr>dx_expected := dx_expected dctx - length out\<rparr>, out))
      | bt_rle \<Rightarrow>
          bindO (liftE (ZSTD_setRleBlock dst_null dstCapacity (src ! 0) (dx_rleSize dctx))) (\<lambda>out.
            returns (dctx\<lparr>dx_expected := 0\<rparr>, out))
      | bt_reserved \<Rightarrow> fails ZSTD_error_corruption_detected)"

definition continue_block ::
  "'d block_codec \<Rightarrow> bool \<Rightarrow> nat \<Rightarrow> 'd ZSTD_DCtx \<Rightarrow> buffer \<Rightarrow> ('d ZSTD_DCtx \<times> buffer) outcome" where
  "continue_block codec dst_null dstCapacity dctx src =
     bindO (regenerate codec dst_null dstCapacity dctx src) (\<lambda>(dctx, out).
       if unat (fh_blockSizeMax (dx_fParams dctx)) < length out then fails ZSTD_error_corruption_detected
       else
         let dctx = dctx\<lparr>dx_decodedSize := dx_decodedSize dctx + of_nat (length out)\<rparr>;
             dctx = (if dx_validateChecksum dctx
                     then dctx\<lparr>dx_xxhState := XXH64_update LittleEndian (dx_xxhState dctx) out\<rparr> else dctx);
             dctx = dctx\<lparr>dx_prefix := dx_prefix dctx @ out\<rparr>
         in if 0 < dx_expected dctx then returns (dctx, out)
            else if dx_stage dctx = ZSTDds_decompressLastBlock
            then if fh_frameContentSize (dx_fParams dctx) \<noteq> ZSTD_CONTENTSIZE_UNKNOWN
                    \<and> dx_decodedSize dctx \<noteq> fh_frameContentSize (dx_fParams dctx)
                 then fails ZSTD_error_corruption_detected
                 else returns (finish_blocks dctx, out)
            else returns (dctx\<lparr>dx_stage := ZSTDds_decodeBlockHeader, dx_expected := ZSTD_blockHeaderSize\<rparr>, out))"

definition continue_checksum :: "'d ZSTD_DCtx \<Rightarrow> buffer \<Rightarrow> 'd ZSTD_DCtx outcome" where
  "continue_checksum dctx src =
     (if dx_validateChecksum dctx \<and> readLE32 src 0 \<noteq> ucast (XXH64_digest LittleEndian (dx_xxhState dctx))
      then fails ZSTD_error_checksum_wrong
      else returns (dctx\<lparr>dx_expected := 0, dx_stage := ZSTDds_getFrameHeaderSize\<rparr>))"

definition continue_skippableHeader :: "'d ZSTD_DCtx \<Rightarrow> buffer \<Rightarrow> 'd ZSTD_DCtx" where
  "continue_skippableHeader dctx src =
     (let dctx = dctx\<lparr>dx_headerBuffer :=
            write_at (dx_headerBuffer dctx) (ZSTD_SKIPPABLEHEADERSIZE - length src) src\<rparr>
      in dctx\<lparr>dx_expected := unat (readLE32 (dx_headerBuffer dctx) ZSTD_FRAMEIDSIZE), dx_stage := ZSTDds_skipFrame\<rparr>)"

definition ZSTD_decompressContinue ::
  "'d block_codec \<Rightarrow> 'd ZSTD_DCtx \<Rightarrow> bool \<Rightarrow> bool \<Rightarrow> nat \<Rightarrow> buffer \<Rightarrow> ('d ZSTD_DCtx \<times> buffer) outcome" where
  "ZSTD_decompressContinue codec dctx adjacent dst_null dstCapacity src =
     (if length src \<noteq> ZSTD_nextSrcSizeToDecompressWithInputSize dctx (length src)
      then fails ZSTD_error_srcSize_wrong
      else
        let dctx = ZSTD_checkContinuity adjacent dstCapacity dctx;
            dctx = dctx\<lparr>dx_processedCSize := dx_processedCSize dctx + of_nat (length src)\<rparr>
        in case dx_stage dctx of
             ZSTDds_getFrameHeaderSize \<Rightarrow> bindO (continue_frameHeaderSize dctx src) (\<lambda>dctx. returns (dctx, []))
           | ZSTDds_decodeFrameHeader \<Rightarrow> bindO (continue_frameHeader dctx src) (\<lambda>dctx. returns (dctx, []))
           | ZSTDds_decodeBlockHeader \<Rightarrow> bindO (continue_blockHeader dctx src) (\<lambda>dctx. returns (dctx, []))
           | ZSTDds_decompressLastBlock \<Rightarrow> continue_block codec dst_null dstCapacity dctx src
           | ZSTDds_decompressBlock \<Rightarrow> continue_block codec dst_null dstCapacity dctx src
           | ZSTDds_checkChecksum \<Rightarrow> bindO (continue_checksum dctx src) (\<lambda>dctx. returns (dctx, []))
           | ZSTDds_decodeSkippableHeader \<Rightarrow> returns (continue_skippableHeader dctx src, [])
           | ZSTDds_skipFrame \<Rightarrow>
               returns (dctx\<lparr>dx_expected := 0, dx_stage := ZSTDds_getFrameHeaderSize\<rparr>, []))"

subsection \<open>Stage invariant\<close>

text \<open>What each stage expects next; \<open>headerBuffer\<close> is an array of 18 bytes.\<close>

definition stage_ok :: "'d ZSTD_DCtx \<Rightarrow> bool" where
  "stage_ok d \<longleftrightarrow> length (dx_headerBuffer d) = ZSTD_FRAMEHEADERSIZE_MAX \<and>
     (case dx_stage d of
        ZSTDds_getFrameHeaderSize \<Rightarrow> dx_expected d = 0 \<or> dx_expected d = ZSTD_startingInputLength (dx_format d)
      | ZSTDds_decodeFrameHeader \<Rightarrow> 0 < dx_expected d \<and> dx_headerSize d \<le> ZSTD_FRAMEHEADERSIZE_MAX \<and>
          dx_headerSize d = ZSTD_startingInputLength (dx_format d) + dx_expected d
      | ZSTDds_decodeBlockHeader \<Rightarrow> dx_expected d = ZSTD_blockHeaderSize \<and>
          unat (fh_blockSizeMax (dx_fParams d)) \<le> ZSTD_BLOCKSIZE_MAX
      | ZSTDds_checkChecksum \<Rightarrow> dx_expected d = 4
      | ZSTDds_decodeSkippableHeader \<Rightarrow> dx_expected d = 3 \<and> dx_format d = ZSTD_f_zstd1
      | ZSTDds_skipFrame \<Rightarrow> dx_expected d < 2 ^ 32
      | _ \<Rightarrow> 0 < dx_expected d \<and> dx_expected d \<le> unat (fh_blockSizeMax (dx_fParams d)) \<and>
          unat (fh_blockSizeMax (dx_fParams d)) \<le> ZSTD_BLOCKSIZE_MAX \<and>
          dx_bType d \<noteq> bt_reserved \<and> (dx_bType d = bt_rle \<longrightarrow> dx_expected d = 1))"

lemma length_write_in: "length bs + p \<le> length buf \<Longrightarrow> length (write_at buf p bs) = length buf"
  by (simp add: write_at_def)

lemma stage_ok_frameHeaderSize:
  assumes "stage_ok d" "dx_stage d = ZSTDds_getFrameHeaderSize" "length src = dx_expected d" "dx_expected d \<noteq> 0"
    and "continue_frameHeaderSize d src = returns d'"
  shows "stage_ok d'"
proof -
  have n: "dx_expected d = ZSTD_startingInputLength (dx_format d)" "length (dx_headerBuffer d) = 18"
    using assms(1,2,4) by (auto simp: stage_ok_def)
  have len: "length (write_at (dx_headerBuffer d) 0 src) = 18"
    using n assms(3) prefix_cases[of "dx_format d"] by (intro trans[OF length_write_in]) auto
  show ?thesis
  proof (cases "dx_format d = ZSTD_f_zstd1 \<and> is_skippable_magic (readLE32 src 0)")
    case True
    then show ?thesis
      using assms(3,5) n len prefix_cases[of "dx_format d"]
      by (auto simp: continue_frameHeaderSize_def stage_ok_def split: if_splits)
  next
    case False
    with assms(5) obtain k where k: "ZSTD_frameHeaderSize_internal src (dx_format d) = Inr k"
      "d' = d\<lparr>dx_headerSize := k, dx_headerBuffer := write_at (dx_headerBuffer d) 0 src,
        dx_expected := k - length src, dx_stage := ZSTDds_decodeFrameHeader\<rparr>"
      by (auto simp: continue_frameHeaderSize_def split: if_splits)
    have "ZSTD_startingInputLength (dx_format d) < k"
      using frameHeaderSize_internal_bounds(2)[OF k(1)] prefix_cases[of "dx_format d"]
      by (auto simp: ZSTD_FRAMEHEADERSIZE_MIN_def)
    with frameHeaderSize_internal_bounds(3)[OF k(1)] k(2) n assms(3) len show ?thesis by (simp add: stage_ok_def)
  qed
qed

lemma getFrameHeader_blockSizeMax:
  assumes "ZSTD_getFrameHeader_advanced src format = Inr (Header h)"
  shows "unat (fh_blockSizeMax h) \<le> ZSTD_BLOCKSIZE_MAX"
proof (cases "format = ZSTD_f_zstd1 \<and> is_skippable_magic (readLE32 src 0)")
  case True
  with assms have "fh_blockSizeMax h = 0"
    using magic_not_skippable
    by (auto simp: ZSTD_getFrameHeader_advanced_def Let_def split: if_splits)
  then show ?thesis by simp
next
  case False
  with getFrameHeader_frameType[OF assms] getFrameHeader_wf(1)[OF assms] show ?thesis
    by (simp add: wf_header_def)
qed

definition select_ddict :: "'d ZSTD_DCtx \<Rightarrow> 'd ZSTD_DCtx outcome" where
  "select_ddict dctx =
     (case dx_ddictSet dctx of
        Some s \<Rightarrow> if dx_refMultipleDDicts dctx then ZSTD_DCtx_selectFrameDDict s dctx else returns dctx
      | None \<Rightarrow> returns dctx)"

lemma decodeFrameHeader_header:
  assumes "ZSTD_getFrameHeader_advanced src (dx_format dctx) = Inr (Header h)"
  shows "ZSTD_decodeFrameHeader dctx src = bindO (select_ddict (dctx\<lparr>dx_fParams := h\<rparr>)) (\<lambda>dctx.
    if fh_dictID (dx_fParams dctx) \<noteq> 0 \<and> dx_dictID dctx \<noteq> fh_dictID (dx_fParams dctx)
    then fails ZSTD_error_dictionary_wrong
    else let validate = (fh_checksumFlag (dx_fParams dctx) \<noteq> 0 \<and> \<not> dx_forceIgnoreChecksum dctx);
             dctx = dctx\<lparr>dx_validateChecksum := validate\<rparr>;
             dctx = (if validate then dctx\<lparr>dx_xxhState := XXH64_reset 0\<rparr> else dctx)
         in returns (dctx\<lparr>dx_processedCSize := dx_processedCSize dctx + of_nat (length src)\<rparr>))"
  unfolding ZSTD_decodeFrameHeader_def select_ddict_def assms by (simp add: Let_def)

lemma select_ddict_cases:
  assumes "select_ddict d = returns d'"
  shows "d' = d \<or> (\<exists>dd. d' = d\<lparr>dx_ddictLocal := None, dx_dictID := fh_dictID (dx_fParams d), dx_ddict := Some dd,
    dx_dictUses := ZSTD_use_indefinitely\<rparr>)"
  using assms
  by (auto simp: select_ddict_def ZSTD_DCtx_selectFrameDDict_def ZSTD_clearDict_def split: option.splits if_splits)

lemma decodeFrameHeader_keeps:
  assumes "ZSTD_decodeFrameHeader dctx src = returns dctx'"
  shows "dx_headerBuffer dctx' = dx_headerBuffer dctx" "dx_decodedSize dctx' = dx_decodedSize dctx"
proof -
  obtain h where h: "ZSTD_getFrameHeader_advanced src (dx_format dctx) = Inr (Header h)"
    using assms by (rule decodeFrameHeader_returns)
  from assms[unfolded decodeFrameHeader_header[OF h]] obtain d1 where d1: "select_ddict (dctx\<lparr>dx_fParams := h\<rparr>) = returns d1"
    and d': "dx_headerBuffer dctx' = dx_headerBuffer d1" "dx_decodedSize dctx' = dx_decodedSize d1"
    by (auto simp: Let_def split: if_splits)
  from select_ddict_cases[OF d1] d'
  show "dx_headerBuffer dctx' = dx_headerBuffer dctx" "dx_decodedSize dctx' = dx_decodedSize dctx" by auto
qed

lemma stage_ok_frameHeader:
  assumes "stage_ok d" "dx_stage d = ZSTDds_decodeFrameHeader" "length src = dx_expected d"
    and "continue_frameHeader d src = returns d'"
  shows "stage_ok d'"
proof -
  define d0 where "d0 = d\<lparr>dx_headerBuffer := write_at (dx_headerBuffer d) (dx_headerSize d - length src) src\<rparr>"
  from assms(4) obtain d1 where d1: "ZSTD_decodeFrameHeader d0 (take (dx_headerSize d0) (dx_headerBuffer d0)) = returns d1"
    "d' = d1\<lparr>dx_expected := ZSTD_blockHeaderSize, dx_stage := ZSTDds_decodeBlockHeader\<rparr>"
    by (auto simp: continue_frameHeader_def d0_def Let_def)
  have len: "length (dx_headerBuffer d0) = 18"
    using assms(1-3) by (simp add: d0_def stage_ok_def length_write_in)
  obtain h where "ZSTD_getFrameHeader_advanced (take (dx_headerSize d0) (dx_headerBuffer d0)) (dx_format d0) = Inr (Header h)"
    "dx_fParams d1 = h" using d1(1) by (rule decodeFrameHeader_returns)
  then have "unat (fh_blockSizeMax (dx_fParams d1)) \<le> ZSTD_BLOCKSIZE_MAX"
    using getFrameHeader_blockSizeMax by blast
  moreover have "dx_headerBuffer d1 = dx_headerBuffer d0" using d1(1) by (rule decodeFrameHeader_keeps)
  ultimately show ?thesis using d1(2) len by (simp add: stage_ok_def)
qed

lemma finish_blocks_ok: "length (dx_headerBuffer d) = 18 \<Longrightarrow> stage_ok (finish_blocks d)"
  by (simp add: finish_blocks_def stage_ok_def)

lemma getcBlockSize_type:
  assumes "ZSTD_getcBlockSize src = Inr (cs, bp)"
  shows "bp_blockType bp \<noteq> bt_reserved" "bp_blockType bp = bt_rle \<Longrightarrow> cs = 1"
    "bp_blockType bp \<noteq> bt_rle \<Longrightarrow> bp_origSize bp = cs"
  using assms by (auto simp: ZSTD_getcBlockSize_def Let_def split: if_splits)

lemma stage_ok_blockHeader:
  assumes "stage_ok d" "dx_stage d = ZSTDds_decodeBlockHeader" and "continue_blockHeader d src = returns d'"
  shows "stage_ok d'"
proof -
  from assms(3) obtain cs bp where g: "ZSTD_getcBlockSize (take 3 src) = Inr (cs, bp)"
    and r: "(if unat (fh_blockSizeMax (dx_fParams d)) < cs then fails ZSTD_error_corruption_detected
       else
         let dctx = d\<lparr>dx_expected := cs, dx_bType := bp_blockType bp, dx_rleSize := bp_origSize bp\<rparr>
         in if cs \<noteq> 0
            then returns (dctx\<lparr>dx_stage := (if bp_lastBlock bp then ZSTDds_decompressLastBlock else ZSTDds_decompressBlock)\<rparr>)
            else if bp_lastBlock bp then returns (finish_blocks dctx)
            else returns (dctx\<lparr>dx_expected := ZSTD_blockHeaderSize, dx_stage := ZSTDds_decodeBlockHeader\<rparr>)) = returns d'"
    unfolding continue_blockHeader_def by auto
  then have cs: "cs \<le> unat (fh_blockSizeMax (dx_fParams d))" by (auto simp: not_less split: if_splits)
  have hb: "length (dx_headerBuffer d) = 18" and max: "unat (fh_blockSizeMax (dx_fParams d)) \<le> ZSTD_BLOCKSIZE_MAX"
    using assms(1,2) by (simp_all add: stage_ok_def)
  show ?thesis
  proof (cases "cs = 0")
    case True
    let ?d = "d\<lparr>dx_expected := 0, dx_bType := bp_blockType bp, dx_rleSize := bp_origSize bp\<rparr>"
    have "d' = (if bp_lastBlock bp then finish_blocks ?d
      else ?d\<lparr>dx_expected := ZSTD_blockHeaderSize, dx_stage := ZSTDds_decodeBlockHeader\<rparr>)"
      using r True by (simp add: Let_def split: if_splits)
    with finish_blocks_ok[of ?d] hb max show ?thesis by (simp add: stage_ok_def)
  next
    case False
    with r cs hb max getcBlockSize_type[OF g] show ?thesis
      by (cases "bp_lastBlock bp") (auto simp: stage_ok_def Let_def)
  qed
qed

lemma regenerate_returns:
  assumes "regenerate codec dst_null cap d src = returns (d1, out)"
  obtains ent where "d1 = d\<lparr>dx_entropy := ent, dx_expected := dx_expected d1\<rparr>"
    "dx_expected d1 \<le> dx_expected d" "dx_bType d \<noteq> bt_raw \<longrightarrow> dx_expected d1 = 0"
    "codec_ok codec \<longrightarrow> length out \<le> cap"
proof (cases "dx_bType d")
  case bt_compressed
  with assms obtain ent where e: "bc_decode codec (dx_entropy d) (fh_blockSizeMax (dx_fParams d))
      (dx_extDict d @ dx_prefix d) dst_null cap src = Inr (ent, out)" "d1 = d\<lparr>dx_entropy := ent, dx_expected := 0\<rparr>"
    by (auto simp: regenerate_def)
  from e(1) have "codec_ok codec \<longrightarrow> length out \<le> cap" unfolding codec_ok_def by blast
  with that[of ent] e(2) show ?thesis by simp
qed (use assms that[of "dx_entropy d"] in \<open>auto simp: regenerate_def ZSTD_copyRawBlock_def ZSTD_setRleBlock_def split: if_splits\<close>)

lemma stage_ok_block:
  assumes "stage_ok d" "dx_stage d = ZSTDds_decompressBlock \<or> dx_stage d = ZSTDds_decompressLastBlock"
    and "continue_block codec dst_null cap d src = returns (d', out)"
  shows "stage_ok d'" "codec_ok codec \<Longrightarrow> length out \<le> cap" "length out \<le> unat (fh_blockSizeMax (dx_fParams d))"
proof -
  from assms(3) obtain d1 where r: "regenerate codec dst_null cap d src = returns (d1, out)"
    by (auto simp: continue_block_def Let_def split: if_splits)
  obtain ent where e: "d1 = d\<lparr>dx_entropy := ent, dx_expected := dx_expected d1\<rparr>" "dx_expected d1 \<le> dx_expected d"
    "dx_bType d \<noteq> bt_raw \<longrightarrow> dx_expected d1 = 0" "codec_ok codec \<longrightarrow> length out \<le> cap"
    using r by (rule regenerate_returns)
  from e(4) show "codec_ok codec \<Longrightarrow> length out \<le> cap" by simp
  define x where "x = dx_expected d1"
  have d1: "d1 = d\<lparr>dx_entropy := ent, dx_expected := x\<rparr>" using e(1) by (simp add: x_def)
  have x: "x \<le> dx_expected d" "dx_bType d \<noteq> bt_raw \<longrightarrow> x = 0" using e(2,3) by (simp_all add: x_def)
  show "length out \<le> unat (fh_blockSizeMax (dx_fParams d))"
    using assms(3) r d1 by (auto simp: continue_block_def Let_def split: if_splits)
  show "stage_ok d'"
    using assms r d1 x
    by (auto simp: continue_block_def Let_def stage_ok_def finish_blocks_def split: if_splits)
qed

subsection \<open>Reachable contexts\<close>

text \<open>
  The contexts which the documented use of the interface reaches: started with or without a
  dictionary, then called as long as a frame is in progress.
\<close>

inductive streaming :: "'d block_codec \<Rightarrow> 'd ZSTD_DCtx \<Rightarrow> bool" for codec where
  begin_dict: "length (dx_headerBuffer d) = ZSTD_FRAMEHEADERSIZE_MAX \<Longrightarrow>
    ZSTD_decompressBegin_usingDict codec d dict = Inr d' \<Longrightarrow> streaming codec d'"
| begin_ddict: "length (dx_headerBuffer d) = ZSTD_FRAMEHEADERSIZE_MAX \<Longrightarrow>
    streaming codec (ZSTD_decompressBegin_usingDDict codec d ddict)"
| call: "streaming codec d \<Longrightarrow> 0 < ZSTD_nextSrcSizeToDecompress d \<or> ZSTD_isSkipFrame d \<Longrightarrow>
    ZSTD_decompressContinue codec d adjacent dst_null dstCapacity src = returns (d', out) \<Longrightarrow> streaming codec d'"

lemma stage_ok_started:
  assumes "length (dx_headerBuffer d) = ZSTD_FRAMEHEADERSIZE_MAX"
  shows "ZSTD_decompressBegin_usingDict codec d dict = Inr d' \<Longrightarrow> stage_ok d'"
    "stage_ok (ZSTD_decompressBegin_usingDDict codec d ddict)"
  using assms
  by (auto simp: stage_ok_def ZSTD_decompressBegin_usingDict_def ZSTD_decompressBegin_usingDDict_def
      ZSTD_decompressBegin_def ZSTD_decompress_insertDictionary_def ZSTD_refDictContent_def
      ZSTD_copyDDictParameters_def Let_def split: if_splits sum.splits option.splits)

text \<open>The context at the switch of \<open>ZSTD_decompressContinue\<close>.\<close>

definition entered :: "bool \<Rightarrow> nat \<Rightarrow> buffer \<Rightarrow> 'd ZSTD_DCtx \<Rightarrow> 'd ZSTD_DCtx" where
  "entered adjacent cap src d =
     (let d = ZSTD_checkContinuity adjacent cap d in d\<lparr>dx_processedCSize := dx_processedCSize d + of_nat (length src)\<rparr>)"

lemma entered_fields [simp]:
  "dx_stage (entered a c s d) = dx_stage d" "dx_expected (entered a c s d) = dx_expected d"
  "dx_format (entered a c s d) = dx_format d" "dx_fParams (entered a c s d) = dx_fParams d"
  "dx_headerBuffer (entered a c s d) = dx_headerBuffer d" "dx_headerSize (entered a c s d) = dx_headerSize d"
  "dx_bType (entered a c s d) = dx_bType d" "dx_refMultipleDDicts (entered a c s d) = dx_refMultipleDDicts d"
  by (simp_all add: entered_def ZSTD_checkContinuity_def Let_def)

lemma stage_ok_entered: "stage_ok d \<Longrightarrow> stage_ok (entered a c s d)"
  by (simp add: stage_ok_def cong: ZSTD_dStage.case_cong)

lemma continue_entered:
  "ZSTD_decompressContinue codec d adjacent dst_null cap src =
    (if length src \<noteq> ZSTD_nextSrcSizeToDecompressWithInputSize d (length src) then fails ZSTD_error_srcSize_wrong
     else let e = entered adjacent cap src d in
       case dx_stage d of
         ZSTDds_getFrameHeaderSize \<Rightarrow> bindO (continue_frameHeaderSize e src) (\<lambda>dctx. returns (dctx, []))
       | ZSTDds_decodeFrameHeader \<Rightarrow> bindO (continue_frameHeader e src) (\<lambda>dctx. returns (dctx, []))
       | ZSTDds_decodeBlockHeader \<Rightarrow> bindO (continue_blockHeader e src) (\<lambda>dctx. returns (dctx, []))
       | ZSTDds_decompressLastBlock \<Rightarrow> continue_block codec dst_null cap e src
       | ZSTDds_decompressBlock \<Rightarrow> continue_block codec dst_null cap e src
       | ZSTDds_checkChecksum \<Rightarrow> bindO (continue_checksum e src) (\<lambda>dctx. returns (dctx, []))
       | ZSTDds_decodeSkippableHeader \<Rightarrow> returns (continue_skippableHeader e src, [])
       | ZSTDds_skipFrame \<Rightarrow> returns (e\<lparr>dx_expected := 0, dx_stage := ZSTDds_getFrameHeaderSize\<rparr>, []))"
proof -
  have st: "dx_stage (ZSTD_checkContinuity adjacent cap d) = dx_stage d"
    by (simp add: ZSTD_checkContinuity_def)
  show ?thesis
    unfolding ZSTD_decompressContinue_def entered_def Let_def
    by (cases "dx_stage d") (simp_all add: st)
qed

lemma continue_stage_ok:
  assumes ok: "stage_ok d" and call: "ZSTD_decompressContinue codec d adjacent dst_null cap src = returns (d', out)"
    and run: "0 < dx_expected d \<or> dx_stage d = ZSTDds_skipFrame"
  shows "stage_ok d'" "codec_ok codec \<Longrightarrow> length out \<le> cap"
proof -
  define e where "e = entered adjacent cap src d"
  have e: "stage_ok e" "dx_stage e = dx_stage d" "dx_expected e = dx_expected d"
    using stage_ok_entered[OF ok] by (simp_all add: e_def)
  have len: "length src = ZSTD_nextSrcSizeToDecompressWithInputSize d (length src)"
    using call by (auto simp: continue_entered split: if_splits)
  note c = call[unfolded continue_entered, folded e_def]
  have "stage_ok d' \<and> (codec_ok codec \<longrightarrow> length out \<le> cap)"
  proof (cases "dx_stage d")
    case ZSTDds_getFrameHeaderSize
    with c len run e stage_ok_frameHeaderSize[OF e(1), of src d'] show ?thesis
      by (auto simp: ZSTD_nextSrcSizeToDecompressWithInputSize_def)
  next
    case ZSTDds_decodeFrameHeader
    with c len e stage_ok_frameHeader[OF e(1), of src d'] show ?thesis
      by (auto simp: ZSTD_nextSrcSizeToDecompressWithInputSize_def)
  next
    case ZSTDds_decodeBlockHeader
    with c len e stage_ok_blockHeader[OF e(1), of src d'] show ?thesis
      by (auto split: if_splits)
  next
    case ZSTDds_decompressBlock
    with c len e stage_ok_block[OF e(1), of codec dst_null cap src d' out] show ?thesis
      by (auto simp: Let_def split: if_splits)
  next
    case ZSTDds_decompressLastBlock
    with c len e stage_ok_block[OF e(1), of codec dst_null cap src d' out] show ?thesis
      by (auto simp: Let_def split: if_splits)
  next
    case ZSTDds_checkChecksum
    with c len e show ?thesis by (auto simp: continue_checksum_def stage_ok_def split: if_splits)
  next
    case ZSTDds_decodeSkippableHeader
    with c len e show ?thesis
      using unat_less_exp[of "readLE32 (write_at (dx_headerBuffer e) (8 - length src) src) 4"]
      by (auto simp: continue_skippableHeader_def stage_ok_def Let_def length_write_in
          ZSTD_nextSrcSizeToDecompressWithInputSize_def split: if_splits)
  next
    case ZSTDds_skipFrame
    with c len e show ?thesis by (auto simp: stage_ok_def Let_def split: if_splits)
  qed
  then show "stage_ok d'" "codec_ok codec \<Longrightarrow> length out \<le> cap" by simp_all
qed

lemma streaming_stage_ok: "streaming codec d \<Longrightarrow> stage_ok d"
proof (induction rule: streaming.induct)
  case (call d adjacent dst_null dstCapacity src d' out)
  then show ?case
    using continue_stage_ok(1)[of d codec adjacent dst_null dstCapacity src d' out]
    by (auto simp: ZSTD_nextSrcSizeToDecompress_def ZSTD_isSkipFrame_def)
qed (use stage_ok_started in auto)

subsection \<open>Calls stay inside their buffers\<close>

definition safe :: "'a outcome \<Rightarrow> bool" where
  "safe r \<longleftrightarrow> r \<noteq> None \<and> r \<noteq> Some (Inl OutOfBounds)"

lemma safe_simps [simp]: "safe (returns a)" "safe (fails e)" "\<not> safe None" "\<not> safe (Some (Inl OutOfBounds))" "safe (liftE x)"
  by (cases x; simp add: safe_def)+





subsection \<open>Driving the machine through a frame\<close>

text \<open>
  The loop of a caller: hand over what is expected, write behind the previous output, stop when
  nothing more is expected.
\<close>

function drive ::
  "'d block_codec \<Rightarrow> nat \<Rightarrow> 'd ZSTD_DCtx \<Rightarrow> buffer \<Rightarrow> buffer \<Rightarrow> ('d ZSTD_DCtx \<times> buffer \<times> buffer) outcome" where
  "drive codec dstCapacity dctx out src =
     (let n = ZSTD_nextSrcSizeToDecompress dctx
      in if n = 0 then returns (dctx, out, src)
         else if length src < n then fails ZSTD_error_srcSize_wrong
         else case ZSTD_decompressContinue codec dctx True False (dstCapacity - length out) (take n src) of
                None \<Rightarrow> None
              | Some (Inl f) \<Rightarrow> Some (Inl f)
              | Some (Inr (dctx, decoded)) \<Rightarrow> drive codec dstCapacity dctx (out @ decoded) (drop n src))"
  by pat_completeness auto
termination by (relation "measure (\<lambda>(codec, cap, dctx, out, src). length src)") auto

declare drive.simps [simp del]



subsection \<open>Streaming and one-shot decoding agree\<close>

definition xxh_ok :: "XXH64_state \<Rightarrow> bool" where
  "xxh_ok st \<longleftrightarrow> length (x64_mem64 st) = 32 \<and> unat (x64_memsize st) < 32"




text \<open>The streaming context has the output behind its window, the one-shot context has it beside.\<close>

definition tracks :: "buffer \<Rightarrow> 'd ZSTD_DCtx \<Rightarrow> 'd ZSTD_DCtx \<Rightarrow> bool" where
  "tracks out ds d1 \<longleftrightarrow> dx_entropy ds = dx_entropy d1 \<and> dx_fParams ds = dx_fParams d1 \<and>
     dx_extDict ds @ dx_prefix ds = dx_extDict d1 @ dx_prefix d1 @ out \<and>
     dx_validateChecksum ds = dx_validateChecksum d1 \<and> dx_xxhState ds = dx_xxhState d1 \<and>
     dx_decodedSize ds = of_nat (length out) \<and> (dx_validateChecksum ds \<longrightarrow> xxh_ok (dx_xxhState ds))"

lemma tracks_update [simp]:
  "tracks out (ds\<lparr>dx_expected := x\<rparr>) d1 = tracks out ds d1" "tracks out (ds\<lparr>dx_stage := st\<rparr>) d1 = tracks out ds d1"
  "tracks out (ds\<lparr>dx_bType := b\<rparr>) d1 = tracks out ds d1" "tracks out (ds\<lparr>dx_rleSize := r\<rparr>) d1 = tracks out ds d1"
  "tracks out (entered True c src ds) d1 = tracks out ds d1" "tracks out (finish_blocks ds) d1 = tracks out ds d1"
  by (simp_all add: tracks_def entered_def ZSTD_checkContinuity_def finish_blocks_def)















subsection \<open>Driving always ends\<close>





subsection \<open>Samples\<close>

definition wrong_size_frame :: buffer where
  "wrong_size_frame = [0x28, 0xB5, 0x2F, 0xFD, 0x20, 0x05, 0x01, 0x00, 0x00]"

lemmas eval_continue = ZSTD_nextSrcSizeToDecompress_def ZSTD_decompressContinue_def
  ZSTD_nextSrcSizeToDecompressWithInputSize_def ZSTD_checkContinuity_def continue_frameHeaderSize_def
  continue_frameHeader_def continue_blockHeader_def continue_block_def regenerate_def finish_blocks_def
  continue_checksum_def write_at_def

lemma sample_started: "streaming stored_only (ZSTD_decompressBegin_usingDDict stored_only (sample_memory ()) None)"
  by (rule begin_ddict) (simp add: sample_memory_def)


subsection \<open>Properties\<close>

text \<open>
  Property C13: the stage machine is never in an inconsistent state.  In every context reached by
  the documented use, the number of bytes expected fits the stage: a rest of a header that
  fits the header buffer, three bytes for a block header, a non-empty block no longer than the
  block size limit and 128 KiB, one byte for a run-length block, four for the checksum.
\<close>

theorem stream_stage_invariant:
  assumes "streaming codec d"
  shows "stage_ok d"
  using assms by (rule streaming_stage_ok)

theorem stream_stage_invariant_witness:
  "stage_ok (ZSTD_decompressBegin_usingDDict stored_only (sample_memory ()) None)"
  using stream_stage_invariant[OF sample_started] .







text \<open>
  Property C38: streaming accepts a frame of the wrong size.  The frame announces five bytes and
  consists of one empty last block: one-shot decoding reports corruption, the stage machine
  skips the comparison of sizes for an empty last block and completes the frame without output.
\<close>

theorem stream_accepts_wrong_size:
  "(\<exists>d'. drive codec dstCapacity (ZSTD_decompressBegin codec (sample_memory ent)) [] wrong_size_frame = returns (d', [], [])) \<and>
   ZSTD_decompressFrame codec (ZSTD_decompressBegin codec (sample_memory ent)) False dstCapacity wrong_size_frame
     = fails ZSTD_error_corruption_detected"
proof -
  have "\<exists>d'. drive codec dstCapacity (ZSTD_decompressBegin codec (sample_memory ent)) [] wrong_size_frame = returns (d', [], [])"
    unfolding wrong_size_frame_def sample_memory_def ZSTD_decompressBegin_def
    by (simp add: drive.simps eval_continue eval_decompress)
  moreover have "ZSTD_decompressFrame codec (ZSTD_decompressBegin codec (sample_memory ent)) False dstCapacity wrong_size_frame
     = fails ZSTD_error_corruption_detected"
    unfolding wrong_size_frame_def sample_memory_def ZSTD_decompressBegin_def
    by (simp add: eval_decompress ZSTD_CONTENTSIZE_UNKNOWN_def)
  ultimately show ?thesis ..
qed

end
