(* ===== verification/Zstd_Huffman.thy ===== *)
theory Zstd_Huffman
  imports Zstd_NCount
begin

section \<open>Huffman decoding tables, one symbol per cell\<close>

text \<open>
  The single-symbol tables of \<^verbatim>\<open>decompress/huf_decompress.c\<close>, built from transmitted weights by
  \<^verbatim>\<open>HUF_readDTableX1_wksp\<close>: the weights are rescaled, the symbols sorted by weight and the
  cells written, up to sixteen at a time.  The table is shown to realise the canonical prefix code
  of the weights.
\<close>

subsection \<open>Tables\<close>

text \<open>
  A \<open>HUF_DTable\<close> is a descriptor followed by the cells.  A cell \<open>HUF_DEltX1\<close> is two bytes, the
  number of bits and the symbol, so that cell \<open>u\<close> is at offset \<open>2 * u\<close>.
\<close>

record HUF_DTable =
  dtd_maxTableLog :: nat
  dtd_tableType :: nat
  dtd_tableLog :: nat
  huf_cells :: buffer

definition HUF_DECODER_FAST_TABLELOG :: nat where "HUF_DECODER_FAST_TABLELOG = 11"

definition HUF_SYMBOLVALUE_MAX :: nat where "HUF_SYMBOLVALUE_MAX = 255"

definition x1_set :: "buffer \<Rightarrow> nat \<Rightarrow> BYTE \<Rightarrow> BYTE \<Rightarrow> buffer" where
  "x1_set dt u symb nb = write_at dt (2 * u) [nb, symb]"

definition HUF_DEltX1_set4 :: "endian \<Rightarrow> BYTE \<Rightarrow> BYTE \<Rightarrow> U64" where
  "HUF_DEltX1_set4 e symb nb =
     (let D4 = (if MEM_isLittleEndian e then push_bit 8 (ucast symb) + ucast nb
                else ucast symb + push_bit 8 (ucast nb))
      in D4 * 0x0001000100010001)"

text \<open>The weights, the number of symbols of each weight and the logarithm, scaled up to the target.\<close>

definition HUF_rescaleStats :: "nat list \<Rightarrow> nat list \<Rightarrow> nat \<Rightarrow> nat \<Rightarrow> nat list \<times> nat list \<times> nat" where
  "HUF_rescaleStats huffWeight rankVal tableLog targetTableLog =
     (if tableLog > targetTableLog then (huffWeight, rankVal, tableLog)
      else if tableLog < targetTableLog then
        let scale = targetTableLog - tableLog;
            huffWeight = map (\<lambda>w. w + (if w = 0 then 0 else scale)) huffWeight;
            rankVal = fold (\<lambda>s r. r[s := r ! (s - scale)]) (rev [scale + 1..<targetTableLog + 1]) rankVal;
            rankVal = fold (\<lambda>s r. r[s := 0]) (rev [1..<scale + 1]) rankVal
        in (huffWeight, rankVal, targetTableLog)
      else (huffWeight, rankVal, targetTableLog))"

text \<open>The first position of each weight among the symbols sorted by weight.\<close>

fun rank_starts :: "nat list \<Rightarrow> nat \<Rightarrow> nat list" where
  "rank_starts [] nextRankStart = []"
| "rank_starts (r # rankVal) nextRankStart = nextRankStart # rank_starts rankVal (nextRankStart + r)"

text \<open>The sort: symbol \<open>n\<close> goes to the next free position of its weight, four symbols at a time.\<close>

definition x1_sort_step :: "nat list \<Rightarrow> nat \<Rightarrow> nat list \<times> nat list \<Rightarrow> nat list \<times> nat list" where
  "x1_sort_step huffWeight n = (\<lambda>(symbols, rankStart).
     let w = huffWeight ! n
     in (symbols[rankStart ! w := n], rankStart[w := rankStart ! w + 1]))"

function x1_sort :: "nat list \<Rightarrow> nat \<Rightarrow> nat list \<times> nat list \<Rightarrow> nat list \<times> nat list" where
  "x1_sort huffWeight n st =
     (if n + 3 < length huffWeight
      then x1_sort huffWeight (n + 4) (fold (x1_sort_step huffWeight) [n, n + 1, n + 2, n + 3] st)
      else fold (x1_sort_step huffWeight) [n..<length huffWeight] st)"
  by auto
termination by (relation "measure (\<lambda>(ws, n, st). length ws - n)") auto

text \<open>The cells of one symbol: a power of two of them, written one, two or four at a time.\<close>

function x1_fill16 :: "endian \<Rightarrow> buffer \<Rightarrow> nat \<Rightarrow> nat \<Rightarrow> nat \<Rightarrow> U64 \<Rightarrow> buffer" where
  "x1_fill16 e dt uStart u len D4 =
     (if u < len
      then let dt = MEM_write64 e dt (2 * (uStart + u + 0)) D4;
               dt = MEM_write64 e dt (2 * (uStart + u + 4)) D4;
               dt = MEM_write64 e dt (2 * (uStart + u + 8)) D4;
               dt = MEM_write64 e dt (2 * (uStart + u + 12)) D4
           in x1_fill16 e dt uStart (u + 16) len D4
      else dt)"
  by auto
termination by (relation "measure (\<lambda>(e, dt, uStart, u, len, D4). len - u)") auto

definition x1_fill_symbol :: "endian \<Rightarrow> buffer \<Rightarrow> nat \<Rightarrow> nat \<Rightarrow> BYTE \<Rightarrow> BYTE \<Rightarrow> buffer" where
  "x1_fill_symbol e dt uStart len symb nb =
     (let D4 = HUF_DEltX1_set4 e symb nb
      in if len = 1 then x1_set dt uStart symb nb
         else if len = 2 then x1_set (x1_set dt uStart symb nb) (uStart + 1) symb nb
         else if len = 4 then MEM_write64 e dt (2 * uStart) D4
         else if len = 8 then MEM_write64 e (MEM_write64 e dt (2 * uStart) D4) (2 * (uStart + 4)) D4
         else x1_fill16 e dt uStart 0 len D4)"

text \<open>All symbols of weight \<open>w\<close>, from position \<open>symb\<close> of the sorted symbols on.\<close>

definition x1_fill_rank ::
  "endian \<Rightarrow> nat list \<Rightarrow> nat list \<Rightarrow> nat \<Rightarrow> nat \<Rightarrow> buffer \<times> nat \<times> nat \<Rightarrow> buffer \<times> nat \<times> nat" where
  "x1_fill_rank e symbols rankVal tableLog w = (\<lambda>(dt, symb, rankStart).
     let symbolCount = rankVal ! w;
         len = 2 ^ w div 2;
         nb = of_nat (tableLog + 1 - w);
         (dt, uStart) = fold (\<lambda>s (dt, uStart).
             (x1_fill_symbol e dt uStart len (of_nat (symbols ! (symb + s))) nb, uStart + len))
           [0..<symbolCount] (dt, rankStart)
     in (dt, symb + symbolCount, rankStart + symbolCount * len))"

text \<open>
  The work space holds the statistics of \<open>HUF_readStats\<close> and the array of the sorted symbols; the
  callers provide as much as the assertion in the source asks for.
\<close>

definition HUF_readDTableX1_wksp ::
  "endian \<Rightarrow> HUF_DTable \<Rightarrow> buffer \<Rightarrow> FSE_DTable \<Rightarrow> buffer \<Rightarrow> nat list \<Rightarrow> ZSTD_ErrorCode + nat \<times> HUF_DTable" where
  "HUF_readDTableX1_wksp e DTable src dtable workSpace symbols =
     bindE (HUF_readStats_wksp (HUF_SYMBOLVALUE_MAX + 1) src dtable workSpace) (\<lambda>(iSize, stats).
       let maxTableLog = dtd_maxTableLog DTable + 1;
           targetTableLog = min maxTableLog HUF_DECODER_FAST_TABLELOG;
           (huffWeight, rankVal, tableLog) =
             HUF_rescaleStats (hs_weights stats) (hs_rankStats stats) (hs_tableLog stats) targetTableLog
       in if tableLog > maxTableLog then Inl ZSTD_error_tableLog_tooLarge
          else
            let rankStart = rank_starts (take (tableLog + 1) rankVal) 0;
                (symbols, _) = x1_sort huffWeight 0 (symbols, rankStart);
                (dt, _, _) = fold (x1_fill_rank e symbols rankVal tableLog) [1..<tableLog + 1]
                               (huf_cells DTable, rankVal ! 0, 0)
            in Inr (iSize, DTable\<lparr>dtd_tableType := 0, dtd_tableLog := tableLog, huf_cells := dt\<rparr>))"

declare x1_sort.simps [simp del] x1_fill16.simps [simp del]

subsection \<open>The cells of a table\<close>

definition x1_cell :: "buffer \<Rightarrow> nat \<Rightarrow> nat \<times> nat" where
  "x1_cell dt u = (unat (dt ! (2 * u + 1)), unat (dt ! (2 * u)))"

text \<open>A write puts the same cell on a range of the table and leaves the rest.\<close>

definition x1_filled :: "buffer \<Rightarrow> nat \<Rightarrow> nat \<Rightarrow> BYTE \<Rightarrow> BYTE \<Rightarrow> buffer \<Rightarrow> bool" where
  "x1_filled dt uStart len symb nb dt' \<longleftrightarrow> length dt' = length dt
     \<and> (\<forall>u. 2 * u + 1 < length dt \<longrightarrow> x1_cell dt' u = (if uStart \<le> u \<and> u < uStart + len then (unat symb, unat nb) else x1_cell dt u))"

lemma x1_filled_append:
  "x1_filled dt u n symb nb dt' \<Longrightarrow> x1_filled dt' (u + n) m symb nb dt'' \<Longrightarrow> x1_filled dt u (n + m) symb nb dt''"
  by (auto simp: x1_filled_def)

lemma set4_bytes: "native e (le_bytes 8 (unat (HUF_DEltX1_set4 e symb nb))) = [nb, symb, nb, symb, nb, symb, nb, symb]"
proof -
  have *: "le_bytes 8 (unat ((push_bit 8 (ucast b) + ucast a :: U64) * 0x0001000100010001)) = [a, b, a, b, a, b, a, b]"
    for a b :: BYTE
  proof (rule le_bytes_inject)
    have ab: "unat a < 256" "unat b < 256" by simp_all
    have "unat b * 2 ^ 8 < 256 * 2 ^ 8" using ab(2) by (simp only: mult_less_cancel2) simp
    then have "unat b * 2 ^ 8 < 2 ^ 64" by (rule less_trans) simp
    then have p: "unat (push_bit 8 (ucast b) :: U64) = 256 * unat b"
      by (simp only: unat_push_bit_mod) (simp add: unat_ucast_up)
    have m: "256 * unat b + unat a \<le> 65535" using ab by linarith
    have l: "(256 * unat b + unat a) * 0x0001000100010001 < 2 ^ 64" "256 * unat b + unat a < 2 ^ 64"
      by (rule le_less_trans[OF mult_le_mono1[OF m]], simp, rule le_less_trans[OF m], simp)
    then have "unat (push_bit 8 (ucast b) + ucast a :: U64) = 256 * unat b + unat a"
      by (simp only: unat_word_ariths p unat_ucast_up) (simp add: unat_ucast_up)
    then have u: "unat ((push_bit 8 (ucast b) + ucast a :: U64) * 0x0001000100010001) = (256 * unat b + unat a) * 0x0001000100010001"
      using l by (simp only: unat_word_ariths) simp
    have "(256 * unat b + unat a) * 0x0001000100010001 < 256 ^ 8" using l(1) by simp
    then show "le_val (le_bytes 8 (unat ((push_bit 8 (ucast b) + ucast a :: U64) * 0x0001000100010001))) = le_val [a, b, a, b, a, b, a, b]"
      by (simp only: u le_val_le_bytes mod_less) (simp add: algebra_simps)
  qed simp
  show ?thesis
  proof (cases e)
    case LittleEndian
    then show ?thesis
      by (simp only: HUF_DEltX1_set4_def MEM_isLittleEndian_def Let_def native_def * refl if_True endian.case)
  next
    case BigEndian
    have "HUF_DEltX1_set4 BigEndian symb nb = (push_bit 8 (ucast nb) + ucast symb) * 0x0001000100010001"
      by (simp only: HUF_DEltX1_set4_def MEM_isLittleEndian_def Let_def add.commute[of "ucast symb"] if_False endian.distinct)
    then show ?thesis by (simp only: BigEndian * native_def endian.case) simp
  qed
qed

lemma cell_write_at:
  assumes "2 * p + 2 * n \<le> length dt" "length bs = 2 * n" "\<forall>i<n. bs ! (2 * i) = nb \<and> bs ! (2 * i + 1) = symb"
  shows "x1_filled dt p n symb nb (write_at dt (2 * p) bs)"
proof -
  have "x1_cell (write_at dt (2 * p) bs) u = (if p \<le> u \<and> u < p + n then (unat symb, unat nb) else x1_cell dt u)"
    if "2 * u + 1 < length dt" for u
  proof (cases "p \<le> u \<and> u < p + n")
    case True
    then obtain i where i: "u = p + i" "i < n" by (metis le_iff_add nat_add_left_cancel_less)
    have "2 * u + 1 - 2 * p = 2 * i + 1" "2 * u - 2 * p = 2 * i" using i by auto
    then show ?thesis using True assms i that by (simp add: x1_cell_def nth_write_at)
  next
    case False
    then show ?thesis using assms that by (auto simp: x1_cell_def nth_write_at)
  qed
  then show ?thesis using assms(1,2) by (simp add: x1_filled_def)
qed

lemma x1_set_filled: "2 * u + 2 \<le> length dt \<Longrightarrow> x1_filled dt u 1 symb nb (x1_set dt u symb nb)"
  unfolding x1_set_def by (rule cell_write_at) auto

lemma all_less_4: "(\<forall>i<4. P i) \<longleftrightarrow> P 0 \<and> P 1 \<and> P 2 \<and> P (3::nat)"
  by (auto simp: numeral_eq_Suc less_Suc_eq)

lemma write4_filled:
  "2 * u + 8 \<le> length dt \<Longrightarrow> x1_filled dt u 4 symb nb (MEM_write64 e dt (2 * u) (HUF_DEltX1_set4 e symb nb))"
  unfolding MEM_write64_def set4_bytes by (rule cell_write_at) (auto simp: all_less_4)

lemma x1_fill16_filled:
  assumes "u \<le> len" "16 dvd len - u" "2 * (uStart + len) \<le> length dt"
  shows "x1_filled dt (uStart + u) (len - u) symb nb (x1_fill16 e dt uStart u len (HUF_DEltX1_set4 e symb nb))"
  using assms
proof (induction e dt uStart u len "HUF_DEltX1_set4 e symb nb" rule: x1_fill16.induct)
  case (1 e dt uStart u len)
  show ?case
  proof (cases "u < len")
    case False
    then show ?thesis using 1(2) by (subst x1_fill16.simps) (auto simp: x1_filled_def)
  next
    case True
    then have l: "u + 16 \<le> len" using 1(3) dvd_imp_le[of 16 "len - u"] by simp
    let ?D = "HUF_DEltX1_set4 e symb nb"
    define d1 where "d1 = MEM_write64 e dt (2 * (uStart + u + 0)) ?D"
    define d2 where "d2 = MEM_write64 e d1 (2 * (uStart + u + 4)) ?D"
    define d3 where "d3 = MEM_write64 e d2 (2 * (uStart + u + 8)) ?D"
    define d4 where "d4 = MEM_write64 e d3 (2 * (uStart + u + 12)) ?D"
    have f1: "x1_filled dt (uStart + u) 4 symb nb d1" using 1(4) l unfolding d1_def add_0_right by (intro write4_filled) simp
    then have f2: "x1_filled d1 (uStart + u + 4) 4 symb nb d2"
      using 1(4) l unfolding d2_def by (intro write4_filled) (simp add: x1_filled_def)
    then have f3: "x1_filled d2 (uStart + u + 8) 4 symb nb d3"
      using 1(4) l f1 unfolding d3_def by (intro write4_filled) (simp add: x1_filled_def)
    then have f4: "x1_filled d3 (uStart + u + 12) 4 symb nb d4"
      using 1(4) l f1 f2 unfolding d4_def by (intro write4_filled) (simp add: x1_filled_def)
    have f: "x1_filled dt (uStart + u) 16 symb nb d4"
      using x1_filled_append[OF x1_filled_append[OF x1_filled_append[OF f1 f2]], of 4 d3 4 d4] f3 f4 by (simp add: add.assoc)
    have "16 dvd len - u - 16" using 1(3) by (rule dvd_diff_nat) simp
    then have dv: "16 dvd len - (u + 16)" by (simp only: diff_diff_left)
    have "2 * (uStart + len) \<le> length d4" using 1(4) f by (simp only: x1_filled_def)
    from 1(1)[OF True d1_def d2_def d3_def d4_def l dv this]
    have "x1_filled d4 (uStart + (u + 16)) (len - (u + 16)) symb nb (x1_fill16 e d4 uStart (u + 16) len ?D)"
      by simp
    then have "x1_filled dt (uStart + u) (16 + (len - (u + 16))) symb nb (x1_fill16 e d4 uStart (u + 16) len ?D)"
      using x1_filled_append[OF f] by (simp add: add.assoc)
    moreover have "x1_fill16 e dt uStart u len ?D = x1_fill16 e d4 uStart (u + 16) len ?D"
      using True by (subst x1_fill16.simps) (simp only: if_True Let_def d1_def d2_def d3_def d4_def)
    ultimately show ?thesis using l by simp
  qed
qed

lemma x1_fill_symbol_filled:
  assumes "2 * (uStart + 2 ^ k) \<le> length dt"
  shows "x1_filled dt uStart (2 ^ k) symb nb (x1_fill_symbol e dt uStart (2 ^ k) symb nb)"
proof -
  consider "k = 0" | "k = 1" | "k = 2" | "k = 3" | (big) "4 \<le> k" by linarith
  then show ?thesis
  proof cases
    case 2
    let ?d = "x1_set dt uStart symb nb"
    have a: "x1_filled dt uStart 1 symb nb ?d" using assms 2 by (intro x1_set_filled) simp
    then have "x1_filled ?d (uStart + 1) 1 symb nb (x1_set ?d (uStart + 1) symb nb)"
      using assms 2 by (intro x1_set_filled) (simp add: x1_filled_def)
    from x1_filled_append[OF a this] 2 show ?thesis by (simp add: x1_fill_symbol_def Let_def numeral_2_eq_2)
  next
    case 4
    let ?d = "MEM_write64 e dt (2 * uStart) (HUF_DEltX1_set4 e symb nb)"
    have a: "x1_filled dt uStart 4 symb nb ?d" using assms 4 by (intro write4_filled) simp
    then have "x1_filled ?d (uStart + 4) 4 symb nb (MEM_write64 e ?d (2 * (uStart + 4)) (HUF_DEltX1_set4 e symb nb))"
      using assms 4 by (intro write4_filled) (simp add: x1_filled_def)
    from x1_filled_append[OF a this] 4 show ?thesis by (simp add: x1_fill_symbol_def Let_def)
  next
    case big
    then have p: "(2::nat) ^ k = 16 * 2 ^ (k - 4)" using power_add[of "2::nat" 4 "k - 4"] by simp
    have "x1_filled dt (uStart + 0) (2 ^ k - 0) symb nb (x1_fill16 e dt uStart 0 (2 ^ k) (HUF_DEltX1_set4 e symb nb))"
      by (rule x1_fill16_filled) (use assms p in auto)
    moreover have "(2::nat) ^ k \<noteq> 1" "(2::nat) ^ k \<noteq> 2" "(2::nat) ^ k \<noteq> 4" "(2::nat) ^ k \<noteq> 8" unfolding p by presburger+
    ultimately show ?thesis by (simp add: x1_fill_symbol_def)
  qed (use assms in \<open>simp_all add: x1_fill_symbol_def Let_def x1_set_filled[simplified] write4_filled\<close>)
qed

subsection \<open>The canonical prefix code of weights\<close>

text \<open>
  The symbols are ordered by weight and, at equal weight, by value.  A symbol of weight \<open>w > 0\<close> owns
  \<open>2 ^ (w - 1)\<close> consecutive cells of a table, in that order; its code word is what the indices of its
  cells have in common, the first \<open>tableLog + 1 - w\<close> bits.
\<close>

definition huf_before :: "nat list \<Rightarrow> nat \<Rightarrow> nat \<Rightarrow> bool" where
  "huf_before ws t s \<longleftrightarrow> ws ! t < ws ! s \<or> ws ! t = ws ! s \<and> t < s"

definition huf_span :: "nat list \<Rightarrow> nat \<Rightarrow> nat" where
  "huf_span ws s = 2 ^ (ws ! s) div 2"

definition huf_start :: "nat list \<Rightarrow> nat \<Rightarrow> nat" where
  "huf_start ws s = (\<Sum>t\<leftarrow>filter (\<lambda>t. huf_before ws t s) [0..<length ws]. huf_span ws t)"

definition huf_len :: "nat \<Rightarrow> nat list \<Rightarrow> nat \<Rightarrow> nat" where
  "huf_len tableLog ws s = tableLog + 1 - ws ! s"

definition huf_code :: "nat list \<Rightarrow> nat \<Rightarrow> nat" where
  "huf_code ws s = huf_start ws s div huf_span ws s"

text \<open>The weights describe a complete code of at most \<open>tableLog\<close> bits.\<close>

definition huf_complete :: "nat list \<Rightarrow> nat \<Rightarrow> bool" where
  "huf_complete ws tableLog \<longleftrightarrow> length ws \<le> 256 \<and> 1 \<le> tableLog \<and> tableLog \<le> 12
     \<and> (\<forall>w\<in>set ws. w \<le> tableLog) \<and> (\<Sum>w\<leftarrow>ws. 2 ^ w div 2) = (2::nat) ^ tableLog"

text \<open>A table realises the code when the cells of every symbol hold it and the length of its code word.\<close>

definition x1_realises :: "nat list \<Rightarrow> nat \<Rightarrow> buffer \<Rightarrow> bool" where
  "x1_realises ws tableLog dt \<longleftrightarrow> 2 * 2 ^ tableLog \<le> length dt
     \<and> (\<forall>s<length ws. \<forall>u. huf_start ws s \<le> u \<and> u < huf_start ws s + huf_span ws s
          \<longrightarrow> x1_cell dt u = (s, huf_len tableLog ws s))"

lemma huf_before_total: "s \<noteq> t \<Longrightarrow> huf_before ws s t \<or> huf_before ws t s"
  by (auto simp: huf_before_def)

lemma huf_before_irrefl [simp]: "\<not> huf_before ws s s"
  by (simp add: huf_before_def)

lemma huf_before_trans: "huf_before ws r s \<Longrightarrow> huf_before ws s t \<Longrightarrow> huf_before ws r t"
  by (auto simp: huf_before_def)

lemma huf_start_sum: "huf_start ws s = (\<Sum>t | t < length ws \<and> huf_before ws t s. huf_span ws t)"
proof -
  have "{t. t < length ws \<and> huf_before ws t s} = set (filter (\<lambda>t. huf_before ws t s) [0..<length ws])" by auto
  then show ?thesis by (simp only: huf_start_def sum_list_distinct_conv_sum_set distinct_filter distinct_upt)
qed

lemma huf_start_next:
  assumes "huf_before ws s t" "s < length ws"
  shows "huf_start ws s + huf_span ws s \<le> huf_start ws t"
proof -
  let ?B = "\<lambda>s. {t. t < length ws \<and> huf_before ws t s}"
  have fin: "finite (?B s)" "finite (?B t)" by auto
  have "huf_start ws s + huf_span ws s = sum (huf_span ws) (insert s (?B s))"
    by (simp add: huf_start_sum add.commute)
  also have "\<dots> \<le> sum (huf_span ws) (?B t)"
    by (rule sum_mono2) (use assms huf_before_trans in auto)
  finally show ?thesis by (simp add: huf_start_sum)
qed

lemma sum_spans: "(\<Sum>w\<leftarrow>ws. 2 ^ w div 2) = (\<Sum>t<length ws. huf_span ws t)"
proof -
  have "(\<Sum>w\<leftarrow>ws. 2 ^ w div 2) = sum_list (map (huf_span ws) [0..<length ws])"
    by (rule arg_cong[of _ _ sum_list], rule nth_equalityI) (simp_all add: huf_span_def)
  also have "\<dots> = sum (huf_span ws) (set [0..<length ws])" by (simp only: sum_list_distinct_conv_sum_set distinct_upt)
  finally show ?thesis by (simp add: lessThan_atLeast0)
qed

lemma huf_start_bound:
  assumes "huf_complete ws tableLog" "s < length ws"
  shows "huf_start ws s + huf_span ws s \<le> 2 ^ tableLog"
proof -
  have "huf_start ws s + huf_span ws s = sum (huf_span ws) (insert s {t. t < length ws \<and> huf_before ws t s})"
    by (simp add: huf_start_sum add.commute)
  also have "\<dots> \<le> sum (huf_span ws) {..<length ws}"
    by (rule sum_mono2) (use assms in auto)
  finally show ?thesis using assms(1) sum_spans[of ws] by (simp add: huf_complete_def)
qed

text \<open>The cells of a symbol start at a multiple of their number, as the later symbols own as many or more.\<close>

lemma huf_span_dvd: "0 < ws ! s \<Longrightarrow> ws ! s \<le> ws ! t \<Longrightarrow> huf_span ws s dvd huf_span ws t"
  by (cases "ws ! s"; cases "ws ! t") (auto simp: huf_span_def le_imp_power_dvd)

lemma huf_start_aligned:
  assumes "huf_complete ws tableLog" "s < length ws" "0 < ws ! s"
  shows "huf_span ws s dvd huf_start ws s"
proof -
  let ?B = "{t. t < length ws \<and> huf_before ws t s}" and ?A = "{t. t < length ws \<and> \<not> huf_before ws t s}"
  have wl: "ws ! s \<le> tableLog" using assms by (simp add: huf_complete_def)
  have "sum (huf_span ws) ?B + sum (huf_span ws) ?A = sum (huf_span ws) (?B \<union> ?A)"
    by (rule sum.union_disjoint[symmetric]) auto
  also have "?B \<union> ?A = {..<length ws}" by auto
  also have "sum (huf_span ws) {..<length ws} = 2 ^ tableLog"
    using assms(1) sum_spans[of ws] by (simp add: huf_complete_def)
  finally have t: "huf_start ws s + sum (huf_span ws) ?A = 2 ^ tableLog" by (simp add: huf_start_sum)
  have "huf_span ws s dvd sum (huf_span ws) ?A"
    by (rule dvd_sum) (rule huf_span_dvd, use assms(3) in \<open>auto simp: huf_before_def\<close>)
  moreover have "huf_span ws s dvd 2 ^ tableLog"
    using wl assms(3) by (cases "ws ! s") (auto simp: huf_span_def le_imp_power_dvd)
  ultimately show ?thesis using t by (metis dvd_add_left_iff)
qed

lemma huf_span_len:
  assumes "ws ! s \<le> tableLog" "0 < ws ! s"
  shows "huf_span ws s = 2 ^ (tableLog - huf_len tableLog ws s)" "huf_len tableLog ws s \<le> tableLog" "0 < huf_len tableLog ws s"
  using assms by (cases "ws ! s"; auto simp: huf_span_def huf_len_def)+

text \<open>Every index of the table belongs to exactly one symbol, the one whose code word it starts with.\<close>

lemma huf_owner_ex:
  assumes "huf_complete ws tableLog" "u < 2 ^ tableLog"
  shows "\<exists>s<length ws. 0 < ws ! s \<and> huf_start ws s \<le> u \<and> u < huf_start ws s + huf_span ws s"
proof (rule ccontr)
  assume no: "\<not> ?thesis"
  let ?I = "\<lambda>s. {huf_start ws s..<huf_start ws s + huf_span ws s}"
  have z: "?I s = {}" if "ws ! s = 0" for s using that by (simp add: huf_span_def)
  have disj: "?I s \<inter> ?I t = {}" if "s < length ws" "t < length ws" "s \<noteq> t" for s t
    using that huf_before_total[of s t ws] huf_start_next[of ws s t] huf_start_next[of ws t s] by fastforce
  have "card (\<Union>s<length ws. ?I s) = (\<Sum>s<length ws. card (?I s))"
    by (rule card_UN_disjoint) (use disj in auto)
  also have "\<dots> = 2 ^ tableLog" using assms(1) sum_spans[of ws] by (simp add: huf_complete_def)
  finally have c: "card (\<Union>s<length ws. ?I s) = 2 ^ tableLog" .
  have "(\<Union>s<length ws. ?I s) \<subseteq> {..<2 ^ tableLog} - {u}"
    using no z huf_start_bound[OF assms(1)] by fastforce
  then have "card (\<Union>s<length ws. ?I s) \<le> card ({..<2 ^ tableLog :: nat} - {u})" by (intro card_mono) auto
  then show False using c assms(2) by (simp add: card_Diff_singleton)
qed

lemma huf_owner_code:
  assumes "huf_complete ws tableLog" "s < length ws" "0 < ws ! s"
  shows "huf_start ws s \<le> u \<and> u < huf_start ws s + huf_span ws s \<longleftrightarrow> u div huf_span ws s = huf_code ws s"
proof -
  have p: "0 < huf_span ws s" using assms(3) by (cases "ws ! s") (auto simp: huf_span_def)
  obtain k where k: "huf_start ws s = huf_span ws s * k" using huf_start_aligned[OF assms] by (elim dvdE)
  then have "huf_code ws s = k" using p by (simp add: huf_code_def)
  moreover have "u div huf_span ws s = k \<longleftrightarrow> huf_span ws s * k \<le> u \<and> u < huf_span ws s * k + huf_span ws s"
    using p by (auto simp: div_nat_eqI algebra_simps dividend_less_times_div intro!: div_nat_eqI)
  ultimately show ?thesis by (simp add: k)
qed

subsection \<open>Sorting by weight\<close>

definition huf_pos :: "nat list \<Rightarrow> nat \<Rightarrow> nat" where
  "huf_pos ws s = card {t. t < length ws \<and> huf_before ws t s}"

lemma huf_pos_less: "huf_before ws s t \<Longrightarrow> s < length ws \<Longrightarrow> huf_pos ws s < huf_pos ws t"
proof -
  assume b: "huf_before ws s t" "s < length ws"
  then have "insert s {r. r < length ws \<and> huf_before ws r s} \<subseteq> {r. r < length ws \<and> huf_before ws r t}"
    using huf_before_trans by auto
  then have "card (insert s {r. r < length ws \<and> huf_before ws r s}) \<le> huf_pos ws t"
    unfolding huf_pos_def by (intro card_mono) auto
  then show ?thesis by (simp add: huf_pos_def)
qed

lemma huf_pos_inj: "s < length ws \<Longrightarrow> t < length ws \<Longrightarrow> huf_pos ws s = huf_pos ws t \<Longrightarrow> s = t"
  using huf_before_total[of s t ws] huf_pos_less[of ws s t] huf_pos_less[of ws t s] by auto

lemma huf_pos_bound: "s < length ws \<Longrightarrow> huf_pos ws s < length ws"
proof -
  assume s: "s < length ws"
  then have "{t. t < length ws \<and> huf_before ws t s} \<subset> {..<length ws}" using huf_before_irrefl by blast
  then have "huf_pos ws s < card {..<length ws}" unfolding huf_pos_def by (intro psubset_card_mono) auto
  then show ?thesis by simp
qed

text \<open>The position of a symbol: the symbols of smaller weight, then those of the same weight before it.\<close>

definition below_weight :: "nat list \<Rightarrow> nat \<Rightarrow> nat" where
  "below_weight ws w = card {t. t < length ws \<and> ws ! t < w}"

definition same_weight :: "nat list \<Rightarrow> nat \<Rightarrow> nat \<Rightarrow> nat" where
  "same_weight ws n w = card {t. t < n \<and> ws ! t = w}"

lemma huf_pos_split: "s < length ws \<Longrightarrow> huf_pos ws s = below_weight ws (ws ! s) + same_weight ws s (ws ! s)"
proof -
  assume s: "s < length ws"
  let ?A = "{t. t < length ws \<and> ws ! t < ws ! s}" and ?B = "{t. t < s \<and> ws ! t = ws ! s}"
  have "{t. t < length ws \<and> huf_before ws t s} = ?A \<union> ?B" using s by (auto simp: huf_before_def)
  moreover have "card (?A \<union> ?B) = card ?A + card ?B" by (rule card_Un_disjoint) auto
  ultimately show ?thesis by (simp only: huf_pos_def below_weight_def same_weight_def)
qed

lemma same_weight_Suc: "same_weight ws (Suc n) w = same_weight ws n w + (if ws ! n = w then 1 else 0)"
proof -
  have "{t. t < Suc n \<and> ws ! t = w} = {t. t < n \<and> ws ! t = w} \<union> (if ws ! n = w then {n} else {})"
    by (auto simp: less_Suc_eq)
  then show ?thesis unfolding same_weight_def by simp
qed

lemma same_weight_count: "same_weight ws (length ws) w = count_list ws w"
  by (simp add: same_weight_def count_list_eq_length_filter length_filter_conv_card eq_commute)

lemma below_weight_Suc: "below_weight ws (Suc w) = below_weight ws w + count_list ws w"
proof -
  let ?A = "{t. t < length ws \<and> ws ! t < w}" and ?B = "{t. t < length ws \<and> ws ! t = w}"
  have "{t. t < length ws \<and> ws ! t < Suc w} = ?A \<union> ?B" by auto
  moreover have "card (?A \<union> ?B) = card ?A + card ?B" by (rule card_Un_disjoint) auto
  ultimately have "below_weight ws (Suc w) = below_weight ws w + same_weight ws (length ws) w"
    by (simp only: below_weight_def same_weight_def)
  then show ?thesis by (simp only: same_weight_count)
qed

lemma length_rank_starts [simp]: "length (rank_starts rv k) = length rv"
  by (induction rv arbitrary: k) auto

lemma rank_starts_nth: "w < length rv \<Longrightarrow> rank_starts rv k ! w = k + sum_list (take w rv)"
  by (induction rv arbitrary: k w) (auto simp: less_Suc_eq_0_disj)

lemma rank_starts_below:
  assumes "w < length rv" "\<forall>i<length rv. rv ! i = count_list ws i"
  shows "rank_starts rv 0 ! w = below_weight ws w"
proof -
  have "w < length rv \<Longrightarrow> sum_list (take w rv) = below_weight ws w" for w
  proof (induction w)
    case 0
    then show ?case by (simp add: below_weight_def)
  next
    case (Suc w)
    then show ?case using assms(2) by (simp add: take_Suc_conv_app_nth below_weight_Suc)
  qed
  then show ?thesis using assms(1) by (simp add: rank_starts_nth)
qed

lemma x1_sort_fold: "n \<le> length ws \<Longrightarrow> x1_sort ws n st = fold (x1_sort_step ws) [n..<length ws] st"
proof (induction ws n st rule: x1_sort.induct)
  case (1 ws n st)
  show ?case
  proof (cases "n + 3 < length ws")
    case True
    have "[n..<length ws] = [n, n + 1, n + 2, n + 3] @ [n + 4..<length ws]"
      using True upt_add_eq_append[of n "n + 4" "length ws - (n + 4)"] by (simp add: upt_rec numeral_eq_Suc)
    then show ?thesis using 1(1)[OF True] True by (subst x1_sort.simps) simp
  qed (subst x1_sort.simps, simp)
qed

definition sorted_upto :: "nat list \<Rightarrow> nat \<Rightarrow> nat list \<times> nat list \<Rightarrow> bool" where
  "sorted_upto ws n st \<longleftrightarrow> (\<forall>w<length (snd st). snd st ! w = below_weight ws w + same_weight ws n w)
     \<and> (\<forall>t<n. fst st ! huf_pos ws t = t)"

lemma x1_sort_step_sorted:
  assumes "sorted_upto ws n st" "n < length ws" "\<forall>w\<in>set ws. w < length (snd st)" "length ws \<le> length (fst st)"
  shows "sorted_upto ws (Suc n) (x1_sort_step ws n st)" "length (snd (x1_sort_step ws n st)) = length (snd st)"
    "length (fst (x1_sort_step ws n st)) = length (fst st)"
proof -
  obtain symbols rs where st: "st = (symbols, rs)" by fastforce
  have w: "ws ! n < length rs" using assms(2,3) st by simp
  have p: "rs ! (ws ! n) = huf_pos ws n" using assms(1,2) w by (simp add: sorted_upto_def st huf_pos_split)
  have b: "huf_pos ws n < length symbols" using huf_pos_bound[OF assms(2)] assms(4) st by simp
  have ne: "huf_pos ws n \<noteq> huf_pos ws t" if "t < n" for t using that assms(2) huf_pos_inj[of n ws t] by auto
  show "sorted_upto ws (Suc n) (x1_sort_step ws n st)"
    using assms(1) w p b ne[THEN not_sym] ne
    by (auto simp: sorted_upto_def st x1_sort_step_def Let_def same_weight_Suc nth_list_update less_Suc_eq)
qed (auto simp: x1_sort_step_def Let_def split: prod.splits)

lemma x1_sort_sorted:
  assumes "\<forall>w\<in>set ws. w < length rv" "\<forall>i<length rv. rv ! i = count_list ws i" "length ws \<le> length symbols"
  shows "\<forall>t<length ws. fst (x1_sort ws 0 (symbols, rank_starts rv 0)) ! huf_pos ws t = t"
proof -
  have "n \<le> length ws \<Longrightarrow> sorted_upto ws n (fold (x1_sort_step ws) [0..<n] (symbols, rank_starts rv 0))
      \<and> length (snd (fold (x1_sort_step ws) [0..<n] (symbols, rank_starts rv 0))) = length rv
      \<and> length (fst (fold (x1_sort_step ws) [0..<n] (symbols, rank_starts rv 0))) = length symbols" for n
  proof (induction n)
    case 0
    then show ?case using assms(2) by (simp add: sorted_upto_def rank_starts_below same_weight_def)
  next
    case (Suc n)
    then show ?case using x1_sort_step_sorted[of ws n] assms(1,3) by simp
  qed
  then show ?thesis by (simp add: x1_sort_fold sorted_upto_def)
qed

subsection \<open>Filling the table\<close>

definition cells_below :: "nat list \<Rightarrow> nat \<Rightarrow> nat" where
  "cells_below ws w = (\<Sum>t | t < length ws \<and> ws ! t < w. huf_span ws t)"

lemma sum_same_weight: "(\<Sum>t | t < n \<and> ws ! t = w. huf_span ws t) = same_weight ws n w * (2 ^ w div 2)"
proof -
  have "(\<Sum>t | t < n \<and> ws ! t = w. huf_span ws t) = (\<Sum>t | t < n \<and> ws ! t = w. 2 ^ w div 2)"
    by (rule sum.cong) (auto simp: huf_span_def)
  then show ?thesis by (simp add: same_weight_def)
qed

lemma huf_start_split:
  "s < length ws \<Longrightarrow> huf_start ws s = cells_below ws (ws ! s) + same_weight ws s (ws ! s) * huf_span ws s"
proof -
  assume s: "s < length ws"
  let ?A = "{t. t < length ws \<and> ws ! t < ws ! s}" and ?B = "{t. t < s \<and> ws ! t = ws ! s}"
  have "{t. t < length ws \<and> huf_before ws t s} = ?A \<union> ?B" using s by (auto simp: huf_before_def)
  moreover have "sum (huf_span ws) (?A \<union> ?B) = sum (huf_span ws) ?A + sum (huf_span ws) ?B" by (rule sum.union_disjoint) auto
  ultimately show ?thesis by (simp only: huf_start_sum cells_below_def sum_same_weight) (simp add: huf_span_def)
qed

lemma cells_below_Suc: "cells_below ws (Suc w) = cells_below ws w + count_list ws w * (2 ^ w div 2)"
proof -
  let ?A = "{t. t < length ws \<and> ws ! t < w}" and ?B = "{t. t < length ws \<and> ws ! t = w}"
  have "{t. t < length ws \<and> ws ! t < Suc w} = ?A \<union> ?B" by auto
  moreover have "sum (huf_span ws) (?A \<union> ?B) = sum (huf_span ws) ?A + sum (huf_span ws) ?B" by (rule sum.union_disjoint) auto
  ultimately show ?thesis by (simp only: cells_below_def sum_same_weight same_weight_count)
qed

lemma same_weight_nth: "k < same_weight ws n w \<Longrightarrow> \<exists>t<n. ws ! t = w \<and> same_weight ws t w = k"
proof (induction n)
  case 0
  then show ?case by (simp add: same_weight_def)
next
  case (Suc n)
  show ?case
  proof (cases "k < same_weight ws n w")
    case True
    then show ?thesis using Suc.IH by (meson less_SucI)
  next
    case False
    then have "ws ! n = w" "same_weight ws n w = k" using Suc.prems by (auto simp: same_weight_Suc split: if_splits)
    then show ?thesis by blast
  qed
qed

text \<open>The symbols whose cells end at \<open>u\<close> or before are in the table.\<close>

definition x1_upto :: "nat list \<Rightarrow> nat \<Rightarrow> nat \<Rightarrow> buffer \<Rightarrow> nat \<Rightarrow> bool" where
  "x1_upto ws tableLog sz dt u \<longleftrightarrow> length dt = sz \<and> (\<forall>s<length ws. 0 < ws ! s \<and> huf_start ws s + huf_span ws s \<le> u
     \<longrightarrow> (\<forall>v. huf_start ws s \<le> v \<and> v < huf_start ws s + huf_span ws s \<longrightarrow> x1_cell dt v = (s, huf_len tableLog ws s)))"

lemma x1_fill_symbol_upto:
  assumes "huf_complete ws tableLog" "2 * 2 ^ tableLog \<le> sz" "x1_upto ws tableLog sz dt (huf_start ws s)"
    and s: "s < length ws" "0 < ws ! s"
  shows "x1_upto ws tableLog sz (x1_fill_symbol e dt (huf_start ws s) (huf_span ws s) (of_nat s) (of_nat (tableLog + 1 - ws ! s)))
           (huf_start ws s + huf_span ws s)"
proof -
  let ?nb = "of_nat (tableLog + 1 - ws ! s) :: BYTE" and ?u = "huf_start ws s" and ?n = "huf_span ws s"
  define dt' where "dt' = x1_fill_symbol e dt ?u ?n (of_nat s) ?nb"
  note c = assms(1)[unfolded huf_complete_def]
  have len: "length dt = sz" using assms(3) by (simp add: x1_upto_def)
  have wl: "ws ! s \<le> tableLog" using c s by simp
  have b: "?u + ?n \<le> 2 ^ tableLog" by (rule huf_start_bound[OF assms(1) s(1)])
  have n: "?n = 2 ^ (ws ! s - 1)" using s(2) by (cases "ws ! s") (auto simp: huf_span_def)
  have f: "x1_filled dt ?u ?n (of_nat s) ?nb dt'"
    unfolding dt'_def n by (rule x1_fill_symbol_filled) (use b assms(2) len n in simp)
  have u: "unat (of_nat s :: BYTE) = s" "unat ?nb = tableLog + 1 - ws ! s" using s c wl by (auto simp: unat_of_nat_byte)
  have "x1_cell dt' v = (t, huf_len tableLog ws t)"
    if t: "t < length ws" "0 < ws ! t" "huf_start ws t + huf_span ws t \<le> ?u + ?n"
      "huf_start ws t \<le> v" "v < huf_start ws t + huf_span ws t" for t v
  proof -
    have v: "2 * v + 1 < length dt" using t(5) huf_start_bound[OF assms(1) t(1)] assms(2) len by linarith
    show ?thesis
    proof (cases "t = s")
      case True
      then show ?thesis using f v t u by (simp add: x1_filled_def huf_len_def)
    next
      case False
      have "0 < huf_span ws t" using t(2) by (cases "ws ! t") (auto simp: huf_span_def)
      then have "huf_before ws t s" using huf_before_total[OF False, of ws] huf_start_next[of ws s t] s(1) t(3) by auto
      then have e: "huf_start ws t + huf_span ws t \<le> ?u" by (rule huf_start_next[OF _ t(1)])
      then have "x1_cell dt' v = x1_cell dt v" using f v t(5) by (auto simp: x1_filled_def)
      then show ?thesis using assms(3) t e by (simp add: x1_upto_def)
    qed
  qed
  then show ?thesis using f len unfolding dt'_def[symmetric] by (simp add: x1_upto_def x1_filled_def)
qed

lemma x1_fill_rank_upto:
  assumes c: "huf_complete ws tableLog" "2 * 2 ^ tableLog \<le> sz" and w: "0 < w"
    and symbols: "\<forall>t<length ws. symbols ! huf_pos ws t = t" and rv: "rankVal ! w = count_list ws w"
    and upto: "x1_upto ws tableLog sz dt (cells_below ws w)"
  shows "\<exists>dt'. x1_fill_rank e symbols rankVal tableLog w (dt, below_weight ws w, cells_below ws w)
           = (dt', below_weight ws (Suc w), cells_below ws (Suc w)) \<and> x1_upto ws tableLog sz dt' (cells_below ws (Suc w))"
proof -
  let ?len = "2 ^ w div 2 :: nat"
  define step where "step = (\<lambda>s (dt, uStart). (x1_fill_symbol e dt uStart ?len (of_nat (symbols ! (below_weight ws w + s)))
      (of_nat (tableLog + 1 - w)), uStart + ?len))"
  have "k \<le> count_list ws w \<Longrightarrow> \<exists>dt'. fold step [0..<k] (dt, cells_below ws w) = (dt', cells_below ws w + k * ?len)
      \<and> x1_upto ws tableLog sz dt' (cells_below ws w + k * ?len)" for k
  proof (induction k)
    case 0
    then show ?case using upto by simp
  next
    case (Suc k)
    then obtain dt' where IH: "fold step [0..<k] (dt, cells_below ws w) = (dt', cells_below ws w + k * ?len)"
      "x1_upto ws tableLog sz dt' (cells_below ws w + k * ?len)" by auto
    obtain t where t: "t < length ws" "ws ! t = w" "same_weight ws t w = k"
      using same_weight_nth[of k ws "length ws" w] Suc.prems by (auto simp: same_weight_count)
    have st: "huf_start ws t = cells_below ws w + k * ?len" "huf_span ws t = ?len"
      using huf_start_split[OF t(1)] t by (simp_all add: huf_span_def)
    have "symbols ! (below_weight ws w + k) = t" using symbols[rule_format, OF t(1)] t huf_pos_split[OF t(1)] by simp
    then have "step k (dt', cells_below ws w + k * ?len)
        = (x1_fill_symbol e dt' (huf_start ws t) (huf_span ws t) (of_nat t) (of_nat (tableLog + 1 - ws ! t)), cells_below ws w + k * ?len + ?len)"
      using t(2) st by (simp add: step_def)
    moreover have "x1_upto ws tableLog sz (x1_fill_symbol e dt' (huf_start ws t) (huf_span ws t) (of_nat t) (of_nat (tableLog + 1 - ws ! t)))
        (huf_start ws t + huf_span ws t)"
      using IH(2) w t(1,2) unfolding st(1)[symmetric] by (intro x1_fill_symbol_upto[OF c]) auto
    ultimately show ?case using IH(1) st by (auto simp: algebra_simps)
  qed
  from this[OF order_refl] obtain dt' where
    d: "fold step [0..<count_list ws w] (dt, cells_below ws w) = (dt', cells_below ws (Suc w))" "x1_upto ws tableLog sz dt' (cells_below ws (Suc w))"
    unfolding cells_below_Suc[symmetric] by blast
  then have "x1_fill_rank e symbols rankVal tableLog w (dt, below_weight ws w, cells_below ws w)
      = (dt', below_weight ws (Suc w), cells_below ws (Suc w))"
    unfolding x1_fill_rank_def step_def by (simp add: Let_def rv below_weight_Suc cells_below_Suc)
  then show ?thesis using d(2) by blast
qed

lemma x1_fill_realises:
  assumes c: "huf_complete ws tableLog" "2 * 2 ^ tableLog \<le> length dt"
    and symbols: "\<forall>t<length ws. symbols ! huf_pos ws t = t" and rv: "\<forall>w\<le>tableLog. rankVal ! w = count_list ws w"
  shows "x1_realises ws tableLog (fst (fold (x1_fill_rank e symbols rankVal tableLog) [1..<tableLog + 1] (dt, rankVal ! 0, 0)))"
    and "length (fst (fold (x1_fill_rank e symbols rankVal tableLog) [1..<tableLog + 1] (dt, rankVal ! 0, 0))) = length dt"
proof -
  have z: "below_weight ws (Suc 0) = rankVal ! 0" "cells_below ws (Suc 0) = 0"
    using rv below_weight_Suc[of ws 0] cells_below_Suc[of ws 0] by (simp_all add: below_weight_def cells_below_def)
  have span: "0 < huf_span ws s" if "0 < ws ! s" for s using that by (cases "ws ! s") (auto simp: huf_span_def)
  have "w \<le> tableLog \<Longrightarrow> \<exists>dt'. fold (x1_fill_rank e symbols rankVal tableLog) [1..<Suc w] (dt, rankVal ! 0, 0)
      = (dt', below_weight ws (Suc w), cells_below ws (Suc w)) \<and> x1_upto ws tableLog (length dt) dt' (cells_below ws (Suc w))" for w
  proof (induction w)
    case 0
    then show ?case using z span by (fastforce simp: x1_upto_def)
  next
    case (Suc w)
    then obtain dt' where IH: "fold (x1_fill_rank e symbols rankVal tableLog) [1..<Suc w] (dt, rankVal ! 0, 0)
      = (dt', below_weight ws (Suc w), cells_below ws (Suc w))" "x1_upto ws tableLog (length dt) dt' (cells_below ws (Suc w))" by auto
    from x1_fill_rank_upto[OF c zero_less_Suc symbols _ this(2), of rankVal e] Suc.prems rv IH(1) show ?case by simp
  qed
  from this[OF order_refl] obtain dt' where d: "fst (fold (x1_fill_rank e symbols rankVal tableLog) [1..<tableLog + 1] (dt, rankVal ! 0, 0)) = dt'"
    "x1_upto ws tableLog (length dt) dt' (cells_below ws (Suc tableLog))" by auto
  have "{t. t < length ws \<and> ws ! t < Suc tableLog} = {..<length ws}" using c(1) by (auto simp: huf_complete_def less_Suc_eq_le)
  then have "cells_below ws (Suc tableLog) = 2 ^ tableLog"
    using c(1) sum_spans[of ws] by (simp add: cells_below_def huf_complete_def)
  then have "x1_realises ws tableLog dt'"
    using d(2) huf_start_bound[OF c(1)] c(2) by (fastforce simp: x1_realises_def x1_upto_def huf_span_def)
  then show "x1_realises ws tableLog (fst (fold (x1_fill_rank e symbols rankVal tableLog) [1..<tableLog + 1] (dt, rankVal ! 0, 0)))"
    using d(1) by simp
  show "length (fst (fold (x1_fill_rank e symbols rankVal tableLog) [1..<tableLog + 1] (dt, rankVal ! 0, 0))) = length dt"
    using d by (simp add: x1_upto_def)
qed

subsection \<open>Rescaling keeps the code\<close>

definition upscale :: "nat \<Rightarrow> nat list \<Rightarrow> nat list" where
  "upscale scale ws = map (\<lambda>w. w + (if w = 0 then 0 else scale)) ws"

text \<open>Two sets of weights with the same code words.\<close>

definition same_code :: "nat list \<Rightarrow> nat \<Rightarrow> nat list \<Rightarrow> nat \<Rightarrow> bool" where
  "same_code ws tableLog ws' tableLog' \<longleftrightarrow> length ws' = length ws
     \<and> (\<forall>s<length ws. (ws' ! s = 0 \<longleftrightarrow> ws ! s = 0)
          \<and> (0 < ws ! s \<longrightarrow> huf_len tableLog' ws' s = huf_len tableLog ws s \<and> huf_code ws' s = huf_code ws s))"

lemma same_code_refl: "same_code ws tableLog ws tableLog"
  by (simp add: same_code_def)

lemma upscale_span: "t < length ws \<Longrightarrow> huf_span (upscale scale ws) t = 2 ^ scale * huf_span ws t"
  by (cases "ws ! t") (simp_all add: huf_span_def upscale_def power_add)

lemma upscale_before:
  "s < length ws \<Longrightarrow> t < length ws \<Longrightarrow> huf_before (upscale scale ws) t s \<longleftrightarrow> huf_before ws t s"
  by (auto simp: huf_before_def upscale_def)

lemma upscale_start: "s < length ws \<Longrightarrow> huf_start (upscale scale ws) s = 2 ^ scale * huf_start ws s"
proof -
  assume s: "s < length ws"
  have l: "length (upscale scale ws) = length ws" by (simp add: upscale_def)
  have "huf_start (upscale scale ws) s = (\<Sum>t | t < length ws \<and> huf_before ws t s. 2 ^ scale * huf_span ws t)"
    unfolding huf_start_sum l by (rule sum.cong) (use s in \<open>auto simp: upscale_before upscale_span\<close>)
  then show ?thesis by (simp add: huf_start_sum sum_distrib_left)
qed

lemma upscale_same_code: "same_code ws tableLog (upscale scale ws) (tableLog + scale)"
proof -
  have "huf_code (upscale scale ws) s = huf_code ws s" if "s < length ws" for s
    using that by (simp add: huf_code_def upscale_start upscale_span)
  moreover have "huf_len (tableLog + scale) (upscale scale ws) s = huf_len tableLog ws s" if "s < length ws" "0 < ws ! s" for s
    using that by (simp add: huf_len_def upscale_def)
  ultimately show ?thesis by (auto simp: same_code_def) (auto simp: upscale_def)
qed

lemma upscale_complete:
  assumes "huf_complete ws tableLog" "tableLog + scale \<le> 12"
  shows "huf_complete (upscale scale ws) (tableLog + scale)"
proof -
  have l: "length (upscale scale ws) = length ws" by (simp add: upscale_def)
  have "(\<Sum>w\<leftarrow>upscale scale ws. 2 ^ w div 2) = (\<Sum>t<length ws. 2 ^ scale * huf_span ws t)"
    unfolding sum_spans l by (rule sum.cong) (auto simp: upscale_span)
  also have "\<dots> = 2 ^ scale * (\<Sum>w\<leftarrow>ws. 2 ^ w div 2)" by (simp add: sum_spans sum_distrib_left)
  finally show ?thesis using assms by (auto simp: huf_complete_def power_add mult.commute l upscale_def)
qed

lemma count_upscale:
  "count_list (upscale scale ws) w = (if w = 0 then count_list ws 0 else if w \<le> scale then 0 else count_list ws (w - scale))"
  unfolding upscale_def by (induction ws) auto

lemma fold_shift:
  assumes "scale < m" "m \<le> b" "b \<le> length r" "0 < scale"
  shows "length (fold (\<lambda>s r. r[s := r ! (s - scale)]) (rev [m..<b]) r) = length r
    \<and> (\<forall>i<length r. fold (\<lambda>s r. r[s := r ! (s - scale)]) (rev [m..<b]) r ! i = (if m \<le> i \<and> i < b then r ! (i - scale) else r ! i))"
  using assms(2,1)
proof (induction m rule: inc_induct)
  case (step n)
  define r' where "r' = fold (\<lambda>s r. r[s := r ! (s - scale)]) (rev [Suc n..<b]) r"
  have IH: "length r' = length r" "\<forall>i<length r. r' ! i = (if Suc n \<le> i \<and> i < b then r ! (i - scale) else r ! i)"
    using step unfolding r'_def by auto
  have "fold (\<lambda>s r. r[s := r ! (s - scale)]) (rev [n..<b]) r = r'[n := r' ! (n - scale)]"
    using step(2) by (simp add: upt_conv_Cons r'_def)
  then show ?case using IH step(2,4) assms(3,4) by (auto simp: nth_list_update)
qed auto

lemma fold_clear:
  "length (fold (\<lambda>s r. r[s := 0]) xs r) = length r
    \<and> (\<forall>i<length r. fold (\<lambda>s r. r[s := 0]) xs r ! i = (if i \<in> set xs then 0 else r ! i))" for r :: "nat list"
  by (induction xs arbitrary: r) (auto simp: nth_list_update)

lemma rescaleStats_spec:
  assumes c: "huf_complete ws tableLog" "target \<le> 12" and rv: "length rv = 13" "\<forall>w\<le>12. rv ! w = count_list ws w"
    and r: "HUF_rescaleStats ws rv tableLog target = (ws', rv', tableLog')"
  shows "huf_complete ws' tableLog' \<and> same_code ws tableLog ws' tableLog' \<and> length rv' = 13
    \<and> (\<forall>w\<le>tableLog'. rv' ! w = count_list ws' w) \<and> tableLog' = max tableLog target"
proof (cases "tableLog < target")
  case True
  define scale where "scale = target - tableLog"
  have sc: "0 < scale" "tableLog + scale = target" using True by (auto simp: scale_def)
  define r1 where "r1 = fold (\<lambda>s r. r[s := r ! (s - scale)]) (rev [scale + 1..<target + 1]) rv"
  have r1: "length r1 = 13" "\<forall>i<13. r1 ! i = (if scale + 1 \<le> i \<and> i < target + 1 then rv ! (i - scale) else rv ! i)"
    using fold_shift[of scale "scale + 1" "target + 1" rv] sc rv(1) c(2) unfolding r1_def by auto
  have e: "ws' = upscale scale ws" "rv' = fold (\<lambda>s r. r[s := 0]) (rev [1..<scale + 1]) r1" "tableLog' = target"
    using r True unfolding HUF_rescaleStats_def scale_def r1_def Let_def upscale_def by auto
  have rv': "length rv' = 13" "\<forall>i<13. rv' ! i = (if 1 \<le> i \<and> i < scale + 1 then 0 else r1 ! i)"
    using fold_clear[of "rev [1..<scale + 1]" r1] r1(1) unfolding e by auto
  have "\<forall>w\<le>target. rv' ! w = count_list ws' w"
  proof (intro allI impI)
    fix w assume w: "w \<le> target"
    then have "w < 13" using c(2) by simp
    then have "rv' ! w = (if 1 \<le> w \<and> w < scale + 1 then 0 else if scale + 1 \<le> w then rv ! (w - scale) else rv ! w)"
      using rv'(2) r1(2) w by auto
    also have "\<dots> = count_list ws' w" using rv(2) \<open>w < 13\<close> by (auto simp: e(1) count_upscale)
    finally show "rv' ! w = count_list ws' w" .
  qed
  then show ?thesis using upscale_complete[OF c(1), of scale] upscale_same_code[of ws tableLog scale] sc c(2) rv'(1) e True by simp
next
  case False
  then have "ws' = ws" "rv' = rv" "tableLog' = max tableLog target" using r by (auto simp: HUF_rescaleStats_def split: if_splits)
  then show ?thesis using c rv same_code_refl False by (auto simp: huf_complete_def max_def)
qed

text \<open>A descriptor with room for its cells.\<close>

definition huf_dtable_ok :: "HUF_DTable \<Rightarrow> bool" where
  "huf_dtable_ok DTable \<longleftrightarrow> length (huf_cells DTable) = 4 * 2 ^ dtd_maxTableLog DTable"

text \<open>The weights after rescaling, which the cells are filled from.\<close>

definition x1_weights :: "HUF_DTable \<Rightarrow> huf_stats \<Rightarrow> nat list" where
  "x1_weights DTable stats = fst (HUF_rescaleStats (hs_weights stats) (hs_rankStats stats) (hs_tableLog stats)
     (min (dtd_maxTableLog DTable + 1) HUF_DECODER_FAST_TABLELOG))"

lemma readDTableX1_realises:
  assumes r: "HUF_readDTableX1_wksp e DTable src dtable wksp symbols = Inr (iSize, DTable')"
    and "huf_dtable_ok DTable" "256 \<le> length symbols"
  shows "\<exists>stats. HUF_readStats_wksp 256 src dtable wksp = Inr (iSize, stats)
    \<and> huf_complete (hs_weights stats) (hs_tableLog stats) \<and> iSize \<le> length src
    \<and> same_code (hs_weights stats) (hs_tableLog stats) (x1_weights DTable stats) (dtd_tableLog DTable')
    \<and> huf_complete (x1_weights DTable stats) (dtd_tableLog DTable')
    \<and> x1_realises (x1_weights DTable stats) (dtd_tableLog DTable') (huf_cells DTable')
    \<and> dtd_tableType DTable' = 0 \<and> dtd_maxTableLog DTable' = dtd_maxTableLog DTable \<and> huf_dtable_ok DTable'
    \<and> dtd_tableLog DTable' = max (hs_tableLog stats) (min (dtd_maxTableLog DTable + 1) 11)
    \<and> dtd_tableLog DTable' \<le> dtd_maxTableLog DTable + 1"
proof -
  let ?M = "dtd_maxTableLog DTable + 1"
  obtain stats where s: "HUF_readStats_wksp 256 src dtable wksp = Inr (iSize, stats)"
    using r by (auto simp: HUF_readDTableX1_wksp_def HUF_SYMBOLVALUE_MAX_def Let_def split_beta simp del: upt_Suc split: if_splits)
  note st = HUF_readStats_complete[OF s, simplified]
  have hc: "huf_complete (hs_weights stats) (hs_tableLog stats)" using st by (simp add: huf_complete_def)
  obtain ws' rv' tl' where rs: "HUF_rescaleStats (hs_weights stats) (hs_rankStats stats) (hs_tableLog stats) (min ?M 11) = (ws', rv', tl')"
    by (metis prod_cases3)
  have m: "min ?M 11 \<le> 12" by simp
  have sp: "huf_complete ws' tl'" "same_code (hs_weights stats) (hs_tableLog stats) ws' tl'" "length rv' = 13"
    "\<forall>w\<le>tl'. rv' ! w = count_list ws' w" "tl' = max (hs_tableLog stats) (min ?M 11)"
    using rescaleStats_spec[OF hc m _ _ rs] st by (blast, blast, blast, blast, blast)
  define srt where "srt = x1_sort ws' 0 (symbols, rank_starts (take (tl' + 1) rv') 0)"
  define res where "res = fold (x1_fill_rank e (fst srt) rv' tl') [1..<tl' + 1] (huf_cells DTable, rv' ! 0, 0)"
  have le: "tl' \<le> ?M" and D: "DTable' = DTable\<lparr>dtd_tableType := 0, dtd_tableLog := tl', huf_cells := fst res\<rparr>"
    using r s rs by (auto simp: HUF_readDTableX1_wksp_def HUF_SYMBOLVALUE_MAX_def HUF_DECODER_FAST_TABLELOG_def
        srt_def res_def Let_def split_beta simp del: upt_Suc split: if_splits)
  have tl: "tl' + 1 \<le> 13" using sp(1) by (simp add: huf_complete_def)
  have "\<forall>t<length ws'. fst srt ! huf_pos ws' t = t"
    unfolding srt_def by (rule x1_sort_sorted) (use sp tl assms(3) in \<open>auto simp: huf_complete_def less_Suc_eq_le\<close>)
  moreover have "2 * 2 ^ tl' \<le> length (huf_cells DTable)"
    using assms(2) le power_increasing[of tl' ?M "2::nat"] by (simp add: huf_dtable_ok_def)
  ultimately have "x1_realises ws' tl' (fst res)" "length (fst res) = length (huf_cells DTable)"
    using x1_fill_realises[OF sp(1), of "huf_cells DTable" "fst srt" rv' e] sp(4) unfolding res_def by auto
  moreover have "x1_weights DTable stats = ws'" using rs by (simp add: x1_weights_def HUF_DECODER_FAST_TABLELOG_def)
  ultimately show ?thesis using s hc sp le assms(2) D st by (auto simp: huf_dtable_ok_def)
qed

end
