(* ===== verification/Zstd_HufDecode.thy ===== *)
theory Zstd_HufDecode
  imports Zstd_Huffman
begin

section \<open>Huffman decoding, one and four streams\<close>

text \<open>
  The single-symbol decoders of \<^verbatim>\<open>decompress/huf_decompress.c\<close>: one stream
  (\<^verbatim>\<open>HUF_decompress1X1\<close>) and four interleaved streams (\<^verbatim>\<open>HUF_decompress4X1\<close>).
  Both are shown to regenerate what the code of the weights defines, with an error exactly when a
  stream is not used up by it.
\<close>

subsection \<open>Streams\<close>

definition HUF_decodeSymbolX1 :: "BIT_DStream_t \<Rightarrow> buffer \<Rightarrow> nat \<Rightarrow> BYTE \<times> BIT_DStream_t" where
  "HUF_decodeSymbolX1 DStream dt dtLog =
     (let val = unat (BIT_lookBitsFast DStream dtLog);
          c = dt ! (2 * val + 1)
      in (c, BIT_skipBits DStream (unat (dt ! (2 * val)))))"

text \<open>Symbols one after the other, without a reload; the result is in the order of the output.\<close>

fun x1_symbols :: "nat \<Rightarrow> BIT_DStream_t \<Rightarrow> buffer \<Rightarrow> nat \<Rightarrow> buffer \<times> BIT_DStream_t" where
  "x1_symbols 0 DStream dt dtLog = ([], DStream)"
| "x1_symbols (Suc n) DStream dt dtLog =
     (let (c, DStream) = HUF_decodeSymbolX1 DStream dt dtLog;
          (cs, DStream) = x1_symbols n DStream dt dtLog
      in (c # cs, DStream))"

text \<open>Four symbols per reload; \<open>n\<close> is \<open>pEnd - p\<close>, and the result has the number still to decode.\<close>

function x1_loop4 :: "nat \<Rightarrow> BIT_DStream_t \<Rightarrow> buffer \<Rightarrow> nat \<Rightarrow> buffer \<times> nat \<times> BIT_DStream_t" where
  "x1_loop4 n DStream dt dtLog =
     (let (status, DStream) = BIT_reloadDStream DStream
      in if status = BIT_DStream_unfinished \<and> n > 3
         then let (cs, DStream) = x1_symbols 4 DStream dt dtLog;
                  (cs', n, DStream) = x1_loop4 (n - 4) DStream dt dtLog
              in (cs @ cs', n, DStream)
         else ([], n, DStream))"
  by auto
termination by (relation "measure (\<lambda>(n, d, dt, dtLog). n)") auto

definition HUF_decodeStreamX1 :: "nat \<Rightarrow> BIT_DStream_t \<Rightarrow> buffer \<Rightarrow> nat \<Rightarrow> buffer \<times> BIT_DStream_t" where
  "HUF_decodeStreamX1 n DStream dt dtLog =
     (let (cs, n, DStream) = (if n > 3 then x1_loop4 n DStream dt dtLog
                              else ([], n, snd (BIT_reloadDStream DStream)));
          (cs', DStream) = x1_symbols n DStream dt dtLog
      in (cs @ cs', DStream))"

definition HUF_decompress1X1_usingDTable_internal_body ::
  "nat \<Rightarrow> buffer \<Rightarrow> HUF_DTable \<Rightarrow> ZSTD_ErrorCode + buffer" where
  "HUF_decompress1X1_usingDTable_internal_body dstSize cSrc DTable =
     bindE (BIT_initDStream cSrc) (\<lambda>bitD.
       let (out, bitD) = HUF_decodeStreamX1 dstSize bitD (huf_cells DTable) (dtd_tableLog DTable)
       in if \<not> BIT_endOfDStream bitD then Inl ZSTD_error_corruption_detected else Inr out)"

text \<open>
  Four streams are decoded in rounds, a symbol of each in turn.  A stream is its bit stream with the
  output so far.  The streams are only reloaded by \<open>BIT_reloadDStreamFast\<close> here, so that their
  pointers stay in the source.
\<close>

type_synonym x1_stream = "BIT_DStream_t \<times> buffer"

definition x1_round :: "buffer \<Rightarrow> nat \<Rightarrow> x1_stream list \<Rightarrow> x1_stream list" where
  "x1_round dt dtLog = map (\<lambda>(bitD, out). let (c, bitD) = HUF_decodeSymbolX1 bitD dt dtLog in (bitD, out @ [c]))"

definition reload_fast :: "BIT_DStream_t \<Rightarrow> BIT_DStream_status \<times> BIT_DStream_t" where
  "reload_fast bitD = (case d_ptr bitD of At ptr \<Rightarrow> BIT_reloadDStreamFast bitD ptr
                       | ZeroFilled \<Rightarrow> (BIT_DStream_overflow, bitD))"

text \<open>\<open>op4\<close> and \<open>olimit\<close> are counted from the start of the fourth segment.\<close>

function x1_loop16 :: "bool \<Rightarrow> int \<Rightarrow> x1_stream list \<Rightarrow> buffer \<Rightarrow> nat \<Rightarrow> x1_stream list" where
  "x1_loop16 endSignal olimit streams dt dtLog =
     (if endSignal \<and> int (length (snd (streams ! 3))) < olimit \<and> length streams = 4
      then let streams = x1_round dt dtLog streams;
               streams = x1_round dt dtLog streams;
               streams = x1_round dt dtLog streams;
               streams = x1_round dt dtLog streams;
               reloaded = map (\<lambda>(bitD, out). (reload_fast bitD, out)) streams
           in x1_loop16 (list_all (\<lambda>((status, _), _). status = BIT_DStream_unfinished) reloaded) olimit
                (map (\<lambda>((_, bitD), out). (bitD, out)) reloaded) dt dtLog
      else streams)"
  by auto
termination
  by (relation "measure (\<lambda>(e, olimit, streams, dt, dtLog). nat (olimit - int (length (snd (streams ! 3)))))")
     (auto simp: x1_round_def split_beta)

text \<open>The interleaved loop, the check of the output pointers, and the streams finished one by one.\<close>

definition x1_segments :: "nat \<Rightarrow> nat \<Rightarrow> x1_stream list \<Rightarrow> buffer \<Rightarrow> nat \<Rightarrow> ZSTD_ErrorCode + buffer" where
  "x1_segments segmentSize segment4 streams dt dtLog =
     (let streams = (if segment4 \<ge> 8 then x1_loop16 True (int segment4 - 3) streams dt dtLog else streams)
      in if list_ex (\<lambda>(_, out). length out > segmentSize) (take 3 streams)
         then Inl ZSTD_error_corruption_detected
         else
           let streams = map2 (\<lambda>(bitD, out) segmentEnd.
                   let (cs, bitD) = HUF_decodeStreamX1 (segmentEnd - length out) bitD dt dtLog
                   in (bitD, out @ cs))
                 streams [segmentSize, segmentSize, segmentSize, segment4]
           in if \<not> list_all (\<lambda>(bitD, _). BIT_endOfDStream bitD) streams
              then Inl ZSTD_error_corruption_detected
              else Inr (concat (map snd streams)))"

definition HUF_decompress4X1_usingDTable_internal_body ::
  "nat \<Rightarrow> buffer \<Rightarrow> HUF_DTable \<Rightarrow> ZSTD_ErrorCode + buffer" where
  "HUF_decompress4X1_usingDTable_internal_body dstSize cSrc DTable =
     (let cSrcSize = length cSrc; dt = huf_cells DTable; dtLog = dtd_tableLog DTable in
      if cSrcSize < 10 then Inl ZSTD_error_corruption_detected
      else if dstSize < 6 then Inl ZSTD_error_corruption_detected
      else
        let length1 = unat (MEM_readLE16 LittleEndian cSrc 0);
            length2 = unat (MEM_readLE16 LittleEndian cSrc 2);
            length3 = unat (MEM_readLE16 LittleEndian cSrc 4);
            length4 = (of_nat cSrcSize - of_nat (length1 + length2 + length3 + 6) :: size_t);
            istart1 = 6; istart2 = istart1 + length1; istart3 = istart2 + length2; istart4 = istart3 + length3;
            segmentSize = (dstSize + 3) div 4
        in if length4 > of_nat cSrcSize then Inl ZSTD_error_corruption_detected
           else if 3 * segmentSize > dstSize then Inl ZSTD_error_corruption_detected
           else
             bindE (BIT_initDStream (bytes_at cSrc istart1 length1)) (\<lambda>bitD1.
             bindE (BIT_initDStream (bytes_at cSrc istart2 length2)) (\<lambda>bitD2.
             bindE (BIT_initDStream (bytes_at cSrc istart3 length3)) (\<lambda>bitD3.
             bindE (BIT_initDStream (bytes_at cSrc istart4 (unat length4))) (\<lambda>bitD4.
               x1_segments segmentSize (dstSize - 3 * segmentSize)
                 [(bitD1, []), (bitD2, []), (bitD3, []), (bitD4, [])] dt dtLog)))))"

text \<open>The table is read and the rest of the source is decoded.\<close>

definition HUF_decompress1X1_DCtx_wksp ::
  "endian \<Rightarrow> HUF_DTable \<Rightarrow> nat \<Rightarrow> buffer \<Rightarrow> FSE_DTable \<Rightarrow> buffer \<Rightarrow> nat list \<Rightarrow> ZSTD_ErrorCode + HUF_DTable \<times> buffer" where
  "HUF_decompress1X1_DCtx_wksp e dctx dstSize cSrc dtable workSpace symbols =
     bindE (HUF_readDTableX1_wksp e dctx cSrc dtable workSpace symbols) (\<lambda>(hSize, dctx).
       if hSize \<ge> length cSrc then Inl ZSTD_error_srcSize_wrong
       else bindE (HUF_decompress1X1_usingDTable_internal_body dstSize (drop hSize cSrc) dctx)
              (\<lambda>out. Inr (dctx, out)))"

declare x1_loop4.simps [simp del] x1_loop16.simps [simp del]


subsection \<open>The format: decoding by code words\<close>

text \<open>
  A bit stream is a value \<open>x\<close> of \<open>l\<close> bits, read from the highest bit down.  The next symbol is the
  one whose code word the stream starts with.  \<open>huf_run\<close> reads \<open>n\<close> symbols and leaves the rest.
\<close>

definition huf_prefix :: "nat \<Rightarrow> nat list \<Rightarrow> nat \<Rightarrow> nat \<Rightarrow> nat \<Rightarrow> bool" where
  "huf_prefix tableLog ws x l s \<longleftrightarrow> 0 < ws ! s \<and> huf_len tableLog ws s \<le> l
     \<and> x div 2 ^ (l - huf_len tableLog ws s) = huf_code ws s"

fun huf_run :: "nat \<Rightarrow> nat list \<Rightarrow> nat \<Rightarrow> nat \<Rightarrow> nat \<Rightarrow> (buffer \<times> nat \<times> nat) option" where
  "huf_run tableLog ws 0 x l = Some ([], x, l)"
| "huf_run tableLog ws (Suc n) x l =
     (case find (huf_prefix tableLog ws x l) [0..<length ws] of
        None \<Rightarrow> None
      | Some s \<Rightarrow>
          let l' = l - huf_len tableLog ws s in
          (case huf_run tableLog ws n (x mod 2 ^ l') l' of
             None \<Rightarrow> None
           | Some (out, rest) \<Rightarrow> Some (of_nat s # out, rest)))"

text \<open>The value in front of the end mark, which is the highest bit set of the last byte.\<close>

definition stream_len :: "buffer \<Rightarrow> nat" where
  "stream_len src = 8 * (length src - 1) + ZSTD_highbit32 (ucast (last src))"

definition stream_bits :: "buffer \<Rightarrow> ZSTD_ErrorCode + nat \<times> nat" where
  "stream_bits src =
     (if src = [] then Inl ZSTD_error_srcSize_wrong
      else if last src = 0 then Inl (if length src \<ge> 8 then ZSTD_error_GENERIC else ZSTD_error_corruption_detected)
      else Inr (le_val src mod 2 ^ stream_len src, stream_len src))"

text \<open>The symbols have to use the stream up.\<close>

definition huf_exactly :: "nat \<Rightarrow> nat list \<Rightarrow> nat \<Rightarrow> nat \<times> nat \<Rightarrow> ZSTD_ErrorCode + buffer" where
  "huf_exactly tableLog ws n = (\<lambda>(x, l).
     case huf_run tableLog ws n x l of
       Some (out, _, 0) \<Rightarrow> Inr out
     | _ \<Rightarrow> Inl ZSTD_error_corruption_detected)"

definition huf_stream :: "nat \<Rightarrow> nat list \<Rightarrow> nat \<Rightarrow> buffer \<Rightarrow> ZSTD_ErrorCode + buffer" where
  "huf_stream tableLog ws n src = bindE (stream_bits src) (huf_exactly tableLog ws n)"

text \<open>
  Four streams, behind the sizes of the first three: all but the last regenerate a quarter of the
  output, rounded up.
\<close>

definition huf_streams4 :: "nat \<Rightarrow> nat list \<Rightarrow> nat \<Rightarrow> buffer \<Rightarrow> ZSTD_ErrorCode + buffer" where
  "huf_streams4 tableLog ws n src =
     (let a = le_val (bytes_at src 0 2); b = le_val (bytes_at src 2 2); c = le_val (bytes_at src 4 2);
          q = (n + 3) div 4
      in if length src < 10 \<or> n < 6 \<or> length src < 6 + a + b + c \<or> n < 3 * q
         then Inl ZSTD_error_corruption_detected
         else
           bindE (stream_bits (bytes_at src 6 a)) (\<lambda>b1.
           bindE (stream_bits (bytes_at src (6 + a) b)) (\<lambda>b2.
           bindE (stream_bits (bytes_at src (6 + a + b) c)) (\<lambda>b3.
           bindE (stream_bits (drop (6 + a + b + c) src)) (\<lambda>b4.
           bindE (huf_exactly tableLog ws q b1) (\<lambda>o1.
           bindE (huf_exactly tableLog ws q b2) (\<lambda>o2.
           bindE (huf_exactly tableLog ws q b3) (\<lambda>o3.
           bindE (huf_exactly tableLog ws (n - 3 * q) b4) (\<lambda>o4. Inr (o1 @ o2 @ o3 @ o4))))))))))"

lemma huf_run_same_code:
  assumes "same_code ws tableLog ws' tableLog'"
  shows "huf_run tableLog' ws' n x l = huf_run tableLog ws n x l"
proof (induction n arbitrary: x l)
  case (Suc n)
  have "huf_prefix tableLog' ws' x l s \<longleftrightarrow> huf_prefix tableLog ws x l s" if "s < length ws" for s
    using assms that by (cases "ws ! s = 0") (auto simp: huf_prefix_def same_code_def)
  then have f: "find (huf_prefix tableLog' ws' x l) [0..<length ws'] = find (huf_prefix tableLog ws x l) [0..<length ws]"
    using assms by (intro find_cong) (auto simp: same_code_def)
  have "huf_len tableLog' ws' s = huf_len tableLog ws s" if "find (huf_prefix tableLog ws x l) [0..<length ws] = Some s" for s
    using that assms by (auto simp: find_Some_iff huf_prefix_def same_code_def)
  then show ?case using f Suc by (simp split: option.splits)
qed simp

lemma huf_run_add:
  "huf_run tableLog ws (n + m) x l = (case huf_run tableLog ws n x l of None \<Rightarrow> None
     | Some (out, x', l') \<Rightarrow> (case huf_run tableLog ws m x' l' of None \<Rightarrow> None
         | Some (out', rest) \<Rightarrow> Some (out @ out', rest)))"
  by (induction n arbitrary: x l) (auto simp: Let_def split: option.splits)

subsection \<open>One lookup\<close>

lemma find_unique:
  "P s \<Longrightarrow> s \<in> set xs \<Longrightarrow> (\<And>t. t \<in> set xs \<Longrightarrow> P t \<Longrightarrow> t = s) \<Longrightarrow> find P xs = Some s"
proof (induction xs)
  case (Cons a xs)
  show ?case
  proof (cases "P a")
    case True
    then show ?thesis using Cons.prems(3)[of a] by simp
  next
    case False
    moreover from this have "s \<in> set xs" using Cons.prems(1,2) by auto
    ultimately show ?thesis using Cons.IH[OF Cons.prems(1)] Cons.prems(3) by simp
  qed
qed simp

text \<open>
  An index \<open>y\<close> made of the next bits of the stream, filled up with zeros when there are not enough,
  is in the cells of the symbol whose code word is in front, if there is one.
\<close>

definition huf_index :: "nat \<Rightarrow> nat \<Rightarrow> nat \<Rightarrow> nat" where
  "huf_index tableLog x l = (if tableLog \<le> l then x div 2 ^ (l - tableLog) else x * 2 ^ (tableLog - l))"

lemma index_div:
  assumes "n \<le> l" "n \<le> tableLog"
  shows "huf_index tableLog x l div 2 ^ (tableLog - n) = x div 2 ^ (l - n)"
proof (cases "tableLog \<le> l")
  case True
  have e: "l - n = (l - tableLog) + (tableLog - n)" using True assms by simp
  have "x div 2 ^ (l - tableLog) div 2 ^ (tableLog - n) = x div 2 ^ (l - n)"
    unfolding e by (simp only: power_add div_mult2_eq)
  then show ?thesis using True by (simp add: huf_index_def)
next
  case False
  have "tableLog - n = (tableLog - l) + (l - n)" using False assms by simp
  then have "(2::nat) ^ (tableLog - n) = 2 ^ (tableLog - l) * 2 ^ (l - n)" by (simp only: power_add)
  then show ?thesis using False by (simp add: huf_index_def mult.commute)
qed

lemma huf_find_owner:
  assumes c: "huf_complete ws tableLog" and y: "y < 2 ^ tableLog" "0 < l \<Longrightarrow> y = huf_index tableLog x l"
    and s: "s < length ws" "0 < ws ! s" "huf_start ws s \<le> y" "y < huf_start ws s + huf_span ws s"
  shows "find (huf_prefix tableLog ws x l) [0..<length ws] = (if huf_len tableLog ws s \<le> l then Some s else None)"
proof -
  have wl: "ws ! t \<le> tableLog" if "t < length ws" for t using nth_mem[OF that] c unfolding huf_complete_def by blast
  have pre: "huf_prefix tableLog ws x l t \<longleftrightarrow> huf_len tableLog ws t \<le> l \<and> huf_start ws t \<le> y \<and> y < huf_start ws t + huf_span ws t"
    if t: "t < length ws" "0 < ws ! t" for t
  proof (cases "huf_len tableLog ws t \<le> l")
    case True
    note sl = huf_span_len[OF wl[OF t(1)] t(2)]
    have "y div huf_span ws t = x div 2 ^ (l - huf_len tableLog ws t)"
      unfolding sl(1) y(2)[OF less_le_trans[OF sl(3) True]] by (rule index_div[OF True sl(2)])
    then show ?thesis using True t huf_owner_code[OF c t, of y] by (simp add: huf_prefix_def)
  qed (simp add: huf_prefix_def)
  have uni: "t = s" if t: "t < length ws" "0 < ws ! t" "huf_start ws t \<le> y \<and> y < huf_start ws t + huf_span ws t" for t
  proof (rule ccontr)
    assume "t \<noteq> s"
    then consider (ts) "huf_before ws t s" | (st) "huf_before ws s t" using huf_before_total[of t s ws] by auto
    then show False
    proof cases
      case ts
      from huf_start_next[OF this t(1)] t(3) s(3) show False by linarith
    next
      case st
      from huf_start_next[OF this s(1)] t(3) s(4) show False by linarith
    qed
  qed
  have pos: "0 < ws ! t" if "huf_prefix tableLog ws x l t" for t using that by (simp add: huf_prefix_def)
  show ?thesis
  proof (cases "huf_len tableLog ws s \<le> l")
    case True
    then have "huf_prefix tableLog ws x l s" using pre[OF s(1,2)] s(3,4) by simp
    then have "find (huf_prefix tableLog ws x l) [0..<length ws] = Some s"
    proof (rule find_unique)
      show "s \<in> set [0..<length ws]" using s(1) by simp
      show "t = s" if "t \<in> set [0..<length ws]" "huf_prefix tableLog ws x l t" for t
      proof -
        have t: "t < length ws" using that(1) by simp
        show ?thesis using iffD1[OF pre[OF t pos[OF that(2)]] that(2)] by (intro uni[OF t pos[OF that(2)]]) (rule conjunct2)
      qed
    qed
    then show ?thesis using True by simp
  next
    case False
    have "\<not> huf_prefix tableLog ws x l t" if "t < length ws" for t
    proof
      assume h: "huf_prefix tableLog ws x l t"
      have "t = s" using iffD1[OF pre[OF that pos[OF h]] h] by (intro uni[OF that pos[OF h]]) (rule conjunct2)
      then show False using h False by (simp add: huf_prefix_def)
    qed
    then show ?thesis using False by (simp add: find_None_iff)
  qed
qed

lemma lookBitsFast_index:
  assumes "d_inv d" "d_pos d = 0 \<or> d_bitsConsumed d + k \<le> 64" "1 \<le> k" "k < 64" "0 < d_len d"
  shows "unat (BIT_lookBitsFast d k) = huf_index k (d_val d) (d_len d)"
proof (cases "d_bitsConsumed d + k \<le> 64")
  case True
  then have "k \<le> d_len d" using d_len_eq[OF assms(1)] by simp
  moreover have "unat (BIT_lookBitsFast d k) = unat (fst (BIT_readBits d k))"
    using arg_cong[OF readBitsFast_eq[OF True assms(3,4)], of fst] by (simp add: BIT_readBitsFast_def)
  ultimately show ?thesis using readBits_spec(1)[OF assms(1) True assms(4)] by (simp add: huf_index_def)
next
  case False
  let ?b = "d_bitsConsumed d" and ?R = "unat (d_bitContainer d)"
  have z: "d_pos d = 0" "?b \<le> 64" "?R = le_val (d_src d) mod 2 ^ 64" using False assms(1,2) by (auto simp: d_inv_def)
  have l: "d_len d = 64 - ?b" "?b < 64" using z assms(5) by (auto simp: d_len_def)
  have "?R mod 2 ^ (64 - ?b) = d_val d" using z(3) l by (simp only: d_val_def mod_pow2_cancel[of "64 - ?b" 64] diff_le_self)
  moreover have "?R * 2 ^ ?b mod 2 ^ 64 = (?R mod 2 ^ (64 - ?b)) * 2 ^ ?b"
  proof -
    have "(2::nat) ^ 64 = 2 ^ (64 - ?b) * 2 ^ ?b" using l(2) by (simp only: power_add[symmetric]) simp
    then show ?thesis by (simp add: mult_mod_left)
  qed
  ultimately have r: "?R * 2 ^ ?b mod 2 ^ 64 = d_val d * 2 ^ ?b" by simp
  have w: "LENGTH(64) = 64" by simp
  have e: "?b = (k - d_len d) + (64 - k)" using False l assms(4) by simp
  have "d_val d * 2 ^ ?b div 2 ^ (64 - k) = d_val d * 2 ^ (k - d_len d)"
    by (subst e) (simp add: power_add)
  moreover have "nat ((64 - int k) mod 64) = 64 - k" 
    using assms(3,4) mod_pos_pos_trivial[of "64 - int k" 64] by auto
  moreover have "?b mod 64 = ?b" using l(2) by simp
  ultimately have "unat (BIT_lookBitsFast d k) = d_val d * 2 ^ (k - d_len d)"
    using r by (simp only: BIT_lookBitsFast_def unat_drop_bit_div unat_push_bit_mod w)
  then show ?thesis using False l by (auto simp: huf_index_def)
qed

subsection \<open>One stream\<close>

text \<open>
  The reader is at a point of the stream, or it has run over its end: then it has consumed more
  than its register holds, which no later step takes back.
\<close>

definition reads :: "BIT_DStream_t \<Rightarrow> nat \<Rightarrow> nat \<Rightarrow> bool" where
  "reads d x l \<longleftrightarrow> d_inv d \<and> d_val d = x \<and> d_len d = l"

definition overrun :: "BIT_DStream_t \<Rightarrow> bool" where
  "overrun d \<longleftrightarrow> 64 < d_bitsConsumed d"

lemma reads_reload: "reads d x l \<Longrightarrow> reads (snd (BIT_reloadDStream d)) x l"
  using reload_spec(1-3)[of d] by (auto simp: reads_def d_val_def)

lemma overrun_reload:
  "overrun d \<Longrightarrow> overrun (snd (BIT_reloadDStream d)) \<and> fst (BIT_reloadDStream d) = BIT_DStream_overflow"
  by (simp add: overrun_def BIT_reloadDStream_def)

lemma end_of_stream:
  "reads d x l \<Longrightarrow> BIT_endOfDStream d \<longleftrightarrow> l = 0" "overrun d \<Longrightarrow> \<not> BIT_endOfDStream d"
  by (auto simp: reads_def d_inv_def d_len_def BIT_endOfDStream_def overrun_def)

text \<open>The outcome of decoding agrees with the format.\<close>

definition run_agrees :: "(buffer \<times> nat \<times> nat) option \<Rightarrow> buffer \<times> BIT_DStream_t \<Rightarrow> bool" where
  "run_agrees run res \<longleftrightarrow> (case run of Some (out, x, l) \<Rightarrow> fst res = out \<and> reads (snd res) x l | None \<Rightarrow> overrun (snd res))"

locale x1_decoder =
  fixes ws :: "nat list" and tableLog :: nat and dt :: buffer
  assumes complete: "huf_complete ws tableLog" and realises: "x1_realises ws tableLog dt"
begin

lemma log_bounds: "1 \<le> tableLog" "tableLog \<le> 12"
  using complete by (simp_all add: huf_complete_def)

lemma cell_of_index:
  assumes "y < 2 ^ tableLog"
  obtains s where "s < length ws" "0 < ws ! s" "huf_start ws s \<le> y" "y < huf_start ws s + huf_span ws s"
    "dt ! (2 * y + 1) = of_nat s" "unat (dt ! (2 * y)) = huf_len tableLog ws s"
    "0 < huf_len tableLog ws s" "huf_len tableLog ws s \<le> tableLog"
proof -
  obtain s where s: "s < length ws" "0 < ws ! s" "huf_start ws s \<le> y" "y < huf_start ws s + huf_span ws s"
    using huf_owner_ex[OF complete assms] by blast
  have "x1_cell dt y = (s, huf_len tableLog ws s)" using realises s by (simp add: x1_realises_def)
  then have "unat (dt ! (2 * y + 1)) = s" "unat (dt ! (2 * y)) = huf_len tableLog ws s" by (simp_all add: x1_cell_def)
  moreover from this(1) have "dt ! (2 * y + 1) = of_nat s" by (metis word_unat_eq_iff unat_of_nat_byte mod_less unat_byte_less)
  moreover have "ws ! s \<le> tableLog" using complete s(1) by (simp add: huf_complete_def)
  ultimately show ?thesis using that s huf_span_len[of ws s tableLog] by blast
qed

lemma decodeSymbol_cell:
  obtains s where "HUF_decodeSymbolX1 d dt tableLog = (of_nat s, BIT_skipBits d (huf_len tableLog ws s))"
    "s < length ws" "0 < ws ! s" "0 < huf_len tableLog ws s" "huf_len tableLog ws s \<le> tableLog"
    "huf_start ws s \<le> unat (BIT_lookBitsFast d tableLog)"
    "unat (BIT_lookBitsFast d tableLog) < huf_start ws s + huf_span ws s"
proof -
  let ?y = "unat (BIT_lookBitsFast d tableLog)"
  have "nat ((64 - int tableLog) mod 64) = 64 - tableLog"
    using log_bounds mod_pos_pos_trivial[of "64 - int tableLog" 64] by auto
  moreover have "unat w div 2 ^ (64 - tableLog) < 2 ^ tableLog" for w :: U64
  proof -
    have "unat w < 2 ^ ((64 - tableLog) + tableLog)" using unat_less_exp[of w] log_bounds by simp
    then show ?thesis by (simp add: power_add less_mult_imp_div_less mult.commute)
  qed
  ultimately have "?y < 2 ^ tableLog" by (simp add: BIT_lookBitsFast_def unat_drop_bit_div)
  then obtain s where s: "s < length ws" "0 < ws ! s" "huf_start ws s \<le> ?y" "?y < huf_start ws s + huf_span ws s"
    "dt ! (2 * ?y + 1) = of_nat s" "unat (dt ! (2 * ?y)) = huf_len tableLog ws s"
    "0 < huf_len tableLog ws s" "huf_len tableLog ws s \<le> tableLog" by (rule cell_of_index)
  then show ?thesis using that[of s] by (simp add: HUF_decodeSymbolX1_def Let_def)
qed

lemma symbols_consume:
  "d_bitsConsumed d \<le> d_bitsConsumed (snd (x1_symbols n d dt tableLog))
    \<and> d_bitsConsumed (snd (x1_symbols n d dt tableLog)) \<le> d_bitsConsumed d + n * tableLog
    \<and> d_ptr (snd (x1_symbols n d dt tableLog)) = d_ptr d"
proof (induction n arbitrary: d)
  case (Suc n)
  obtain s where s: "HUF_decodeSymbolX1 d dt tableLog = (of_nat s, BIT_skipBits d (huf_len tableLog ws s))"
    "huf_len tableLog ws s \<le> tableLog" using decodeSymbol_cell[of d] by metis
  show ?case using Suc[of "BIT_skipBits d (huf_len tableLog ws s)"] s
    by (simp add: split_beta) (simp add: BIT_skipBits_def)
qed simp

lemma symbols_overrun: "overrun d \<Longrightarrow> overrun (snd (x1_symbols n d dt tableLog))"
  using symbols_consume[of d n] by (simp add: overrun_def)

lemma decodeSymbol_agrees:
  assumes "reads d x l" "d_pos d = 0 \<or> d_bitsConsumed d + tableLog \<le> 64"
  shows "case find (huf_prefix tableLog ws x l) [0..<length ws] of
      Some s \<Rightarrow> HUF_decodeSymbolX1 d dt tableLog = (of_nat s, BIT_skipBits d (huf_len tableLog ws s))
        \<and> reads (BIT_skipBits d (huf_len tableLog ws s)) (x mod 2 ^ (l - huf_len tableLog ws s)) (l - huf_len tableLog ws s)
    | None \<Rightarrow> overrun (snd (HUF_decodeSymbolX1 d dt tableLog))"
proof -
  let ?y = "unat (BIT_lookBitsFast d tableLog)" and ?len = "\<lambda>s. huf_len tableLog ws s"
  have inv: "d_inv d" and x: "d_val d = x" and l: "d_len d = l" using assms(1) by (simp_all add: reads_def)
  obtain s where s: "HUF_decodeSymbolX1 d dt tableLog = (of_nat s, BIT_skipBits d (?len s))" "s < length ws" "0 < ws ! s"
    "0 < ?len s" "?len s \<le> tableLog" "huf_start ws s \<le> ?y" "?y < huf_start ws s + huf_span ws s" by (rule decodeSymbol_cell)
  have y: "?y < 2 ^ tableLog" using s(7) huf_start_bound[OF complete s(2)] by linarith
  have ix: "?y = huf_index tableLog x l" if "0 < l"
    using lookBitsFast_index[OF inv assms(2)] log_bounds that x l by simp
  note f = huf_find_owner[OF complete y ix s(2,3,6,7)]
  show ?thesis
  proof (cases "?len s \<le> l")
    case True
    then have "d_bitsConsumed d + ?len s \<le> 64"
      using assms(2) s(5) d_len_eq[OF inv] l inv s(4) unfolding d_inv_def by linarith
    then have "reads (BIT_skipBits d (?len s)) (x mod 2 ^ (l - ?len s)) (l - ?len s)"
      using readBits_spec[OF inv, of "?len s"] s(5) log_bounds x l by (simp add: reads_def BIT_readBits_def)
    then show ?thesis using f True s(1) by simp
  next
    case False
    then have "\<not> d_bitsConsumed d + tableLog \<le> 64" using s(5) d_len_eq[OF inv] l by linarith
    then have "d_pos d = 0" using assms(2) by blast
    then have "overrun (BIT_skipBits d (?len s))"
      using False l inv by (simp add: overrun_def BIT_skipBits_def d_len_def d_inv_def)
    then show ?thesis using f False s(1) by simp
  qed
qed

lemma symbols_agree:
  assumes "reads d x l" "d_pos d = 0 \<or> d_bitsConsumed d + n * tableLog \<le> 64"
  shows "run_agrees (huf_run tableLog ws n x l) (x1_symbols n d dt tableLog)"
  using assms
proof (induction n arbitrary: d x l)
  case 0
  then show ?case by (simp add: run_agrees_def)
next
  case (Suc n)
  have r: "d_pos d = 0 \<or> d_bitsConsumed d + tableLog \<le> 64" using Suc.prems(2) by auto
  note ds = decodeSymbol_agrees[OF Suc.prems(1) r]
  show ?case
  proof (cases "find (huf_prefix tableLog ws x l) [0..<length ws]")
    case None
    then have "overrun (snd (HUF_decodeSymbolX1 d dt tableLog))" using ds by simp
    then have "overrun (snd (x1_symbols n (snd (HUF_decodeSymbolX1 d dt tableLog)) dt tableLog))" by (rule symbols_overrun)
    then show ?thesis using None by (simp add: run_agrees_def split_beta)
  next
    case (Some s)
    let ?len = "huf_len tableLog ws s"
    let ?d = "BIT_skipBits d ?len"
    have d: "HUF_decodeSymbolX1 d dt tableLog = (of_nat s, ?d)" "reads ?d (x mod 2 ^ (l - ?len)) (l - ?len)" using ds Some by auto
    have "?len \<le> tableLog" using symbols_consume[of d 1] d(1) by (simp add: BIT_skipBits_def)
    then have "d_pos ?d = 0 \<or> d_bitsConsumed ?d + n * tableLog \<le> 64"
      using Suc.prems(2) by (auto simp: BIT_skipBits_def d_pos_def)
    from Suc.IH[OF d(2) this] show ?thesis using Some d(1)
      by (auto simp: run_agrees_def split_beta Let_def split: option.splits)
  qed
qed

text \<open>A run that the register has room for does not fail.\<close>

lemma symbols_succeed:
  assumes "reads d x l" "d_bitsConsumed d + n * tableLog \<le> 64"
  obtains out x' l' d' where "huf_run tableLog ws n x l = Some (out, x', l')" "x1_symbols n d dt tableLog = (out, d')"
    "reads d' x' l'" "d_bitsConsumed d' \<le> d_bitsConsumed d + n * tableLog" "d_ptr d' = d_ptr d"
proof -
  have a: "run_agrees (huf_run tableLog ws n x l) (x1_symbols n d dt tableLog)" using symbols_agree assms by blast
  have b: "d_bitsConsumed (snd (x1_symbols n d dt tableLog)) \<le> d_bitsConsumed d + n * tableLog"
    "d_ptr (snd (x1_symbols n d dt tableLog)) = d_ptr d" using symbols_consume[of d n] by auto
  then have "\<not> overrun (snd (x1_symbols n d dt tableLog))" using assms(2) by (simp add: overrun_def)
  then obtain out x' l' where "huf_run tableLog ws n x l = Some (out, x', l')"
    using a by (auto simp: run_agrees_def split: option.splits)
  then show ?thesis using a b that[of out x' l' "snd (x1_symbols n d dt tableLog)"] by (auto simp: run_agrees_def prod_eq_iff)
qed

text \<open>The loop decodes some of the symbols, and leaves a register that has room for the rest.\<close>

lemma loop4_agrees:
  assumes "reads d x l"
  shows "\<exists>k out x' l' n' d'. n = k + n' \<and> huf_run tableLog ws k x l = Some (out, x', l')
    \<and> x1_loop4 n d dt tableLog = (out, n', d') \<and> reads d' x' l' \<and> (d_pos d' = 0 \<or> d_bitsConsumed d' + n' * tableLog \<le> 64)"
  using assms
proof (induction n arbitrary: d x l rule: less_induct)
  case (less n)
  obtain status d1 where r: "BIT_reloadDStream d = (status, d1)" by fastforce
  have d1: "reads d1 x l" using reads_reload[OF less.prems] r by simp
  have rs: "d_bitsConsumed d1 < 8 \<or> d_pos d1 = 0" "status = BIT_DStream_unfinished \<Longrightarrow> d_bitsConsumed d1 < 8"
    using reload_spec(4,5)[of d] less.prems r by (simp_all add: reads_def)
  have t12: "tableLog \<le> 12" by (rule log_bounds)
  show ?case
  proof (cases "status = BIT_DStream_unfinished \<and> n > 3")
    case True
    have "d_bitsConsumed d1 + 4 * tableLog \<le> 64" using rs(2) True t12 by simp
    then obtain out x' l' d2 where s: "huf_run tableLog ws 4 x l = Some (out, x', l')" "x1_symbols 4 d1 dt tableLog = (out, d2)"
      "reads d2 x' l'" by (rule symbols_succeed[OF d1])
    obtain k out' x'' l'' n' d' where k: "n - 4 = k + n'" "huf_run tableLog ws k x' l' = Some (out', x'', l'')"
      "x1_loop4 (n - 4) d2 dt tableLog = (out', n', d')" "reads d' x'' l''" "d_pos d' = 0 \<or> d_bitsConsumed d' + n' * tableLog \<le> 64"
      using less.IH[OF _ s(3), of "n - 4"] True by auto
    have "huf_run tableLog ws (4 + k) x l = Some (out @ out', x'', l'')" using s(1) k(2) by (simp only: huf_run_add) simp
    moreover have "x1_loop4 n d dt tableLog = (out @ out', n', d')"
      using r True s(2) k(3) by (subst x1_loop4.simps) simp
    moreover have "n = (4 + k) + n'" using k(1) True by linarith
    ultimately show ?thesis using k(4,5) by blast
  next
    case False
    have "x1_loop4 n d dt tableLog = ([], n, d1)" by (subst x1_loop4.simps) (simp only: r prod.case Let_def False if_False)
    moreover have "d_pos d1 = 0 \<or> d_bitsConsumed d1 + n * tableLog \<le> 64"
    proof (cases "status = BIT_DStream_unfinished")
      case True
      then have "n * tableLog \<le> 3 * 12" using False t12 by (intro mult_le_mono) auto
      then show ?thesis using rs(2) True by simp
    next
      case nu: False
      obtain p where p: "d_ptr d = At p" using less.prems by (auto simp: reads_def d_inv_def)
      have "d_pos d1 = 0"
        using nu r p less.prems reload_spec(6)[of d] unfolding reads_def
        by (auto simp: BIT_reloadDStream_def BIT_reloadDStream_internal_def Let_def d_pos_def split: if_splits)
      then show ?thesis ..
    qed
    ultimately show ?thesis using d1 by (intro exI[of _ 0]) auto
  qed
qed

lemma decodeStream_agrees:
  assumes "reads d x l"
  shows "run_agrees (huf_run tableLog ws n x l) (HUF_decodeStreamX1 n d dt tableLog)"
proof -
  have "\<exists>k out x' l' n' d'. n = k + n' \<and> huf_run tableLog ws k x l = Some (out, x', l')
    \<and> (if n > 3 then x1_loop4 n d dt tableLog else ([], n, snd (BIT_reloadDStream d))) = (out, n', d')
    \<and> reads d' x' l' \<and> (d_pos d' = 0 \<or> d_bitsConsumed d' + n' * tableLog \<le> 64)"
  proof (cases "n > 3")
    case True
    then show ?thesis using loop4_agrees[OF assms, of n] by simp
  next
    case False
    then have "n * tableLog \<le> 3 * 12" using log_bounds by (intro mult_le_mono) auto
    then show ?thesis using False reads_reload[OF assms] reload_spec(4)[of d] assms
      by (intro exI[of _ 0] exI[of _ "[]"] exI[of _ x] exI[of _ l] exI[of _ n]) (auto simp: reads_def)
  qed
  then obtain k out x' l' n' d' where k: "n = k + n'" "huf_run tableLog ws k x l = Some (out, x', l')"
    "(if n > 3 then x1_loop4 n d dt tableLog else ([], n, snd (BIT_reloadDStream d))) = (out, n', d')"
    "reads d' x' l'" "d_pos d' = 0 \<or> d_bitsConsumed d' + n' * tableLog \<le> 64" by blast
  have "HUF_decodeStreamX1 n d dt tableLog = (out @ fst (x1_symbols n' d' dt tableLog), snd (x1_symbols n' d' dt tableLog))"
    unfolding HUF_decodeStreamX1_def k(3) by (simp add: split_beta)
  moreover have "huf_run tableLog ws n x l = (case huf_run tableLog ws n' x' l' of None \<Rightarrow> None | Some (out', rest) \<Rightarrow> Some (out @ out', rest))"
    unfolding k(1) huf_run_add k(2) by simp
  ultimately show ?thesis using symbols_agree[OF k(4,5)] by (auto simp: run_agrees_def split: option.splits)
qed

lemma decodeStream_overrun: "overrun d \<Longrightarrow> overrun (snd (HUF_decodeStreamX1 n d dt tableLog))"
  using overrun_reload[of d] symbols_overrun[of "snd (BIT_reloadDStream d)"]
  by (auto simp: HUF_decodeStreamX1_def split_beta x1_loop4.simps[of n d])

text \<open>Four streams: the point each has reached after \<open>k\<close> rounds.\<close>

definition at_round :: "nat \<Rightarrow> nat \<times> nat \<Rightarrow> x1_stream \<Rightarrow> bool" where
  "at_round k bits st \<longleftrightarrow> run_agrees (huf_run tableLog ws k (fst bits) (snd bits)) (snd st, fst st) \<and> length (snd st) = k"

definition round_ready :: "x1_stream \<Rightarrow> bool" where
  "round_ready st \<longleftrightarrow> d_inv (fst st) \<and> (d_pos (fst st) = 0 \<or> d_bitsConsumed (fst st) \<le> 8)"

lemma length_symbols: "length (fst (x1_symbols n d dt tableLog)) = n"
  by (induction n arbitrary: d) (auto simp: split_beta)

lemma four_rounds:
  "x1_round dt tableLog (x1_round dt tableLog (x1_round dt tableLog (x1_round dt tableLog streams)))
    = map (\<lambda>(d, out). (snd (x1_symbols 4 d dt tableLog), out @ fst (x1_symbols 4 d dt tableLog))) streams"
  by (simp add: x1_round_def split_beta numeral_eq_Suc)

lemma at_round_reads:
  assumes "at_round k bits st" "\<not> overrun (fst st)"
  obtains x l where "huf_run tableLog ws k (fst bits) (snd bits) = Some (snd st, x, l)" "reads (fst st) x l"
  using assms by (auto simp: at_round_def run_agrees_def split: option.splits)

end

subsection \<open>Four streams\<close>

context x1_decoder
begin

lemma run_agrees_add:
  assumes "run_agrees (huf_run tableLog ws k x l) (out, d)"
    and "\<And>x l. reads d x l \<Longrightarrow> run_agrees (huf_run tableLog ws n x l) (cs, d')" "overrun d \<Longrightarrow> overrun d'"
  shows "run_agrees (huf_run tableLog ws (k + n) x l) (out @ cs, d')"
proof (cases "huf_run tableLog ws k x l")
  case None
  then show ?thesis using assms(1,3) by (simp add: run_agrees_def huf_run_add)
next
  case (Some r)
  then obtain x' l' where x: "huf_run tableLog ws k x l = Some (out, x', l')" "reads d x' l'"
    using assms(1) by (cases r) (auto simp: run_agrees_def)
  then show ?thesis using assms(2)[OF x(2)] by (auto simp: run_agrees_def huf_run_add split: option.splits)
qed

lemma at_round_add:
  assumes "at_round k bits (d, out)" and "\<And>x l. reads d x l \<Longrightarrow> run_agrees (huf_run tableLog ws n x l) (cs, d')"
    and "overrun d \<Longrightarrow> overrun d'" "length cs = n"
  shows "at_round (k + n) bits (d', out @ cs)"
proof -
  have "run_agrees (huf_run tableLog ws k (fst bits) (snd bits)) (out, d)" "length out = k" using assms(1) by (simp_all add: at_round_def)
  from run_agrees_add[OF this(1) assms(2,3)] this(2) assms(4) show ?thesis by (simp add: at_round_def)
qed

lemma reload_fast_reads:
  assumes "reads d x l" "d_bitsConsumed d \<le> 64"
  shows "reads (snd (reload_fast d)) x l"
    and "fst (reload_fast d) = BIT_DStream_unfinished \<Longrightarrow> d_bitsConsumed (snd (reload_fast d)) \<le> 8"
proof -
  obtain p where p: "d_ptr d = At p" "d_pos d = p" "d_limitPtr d = 8" using assms(1) by (auto simp: reads_def d_inv_def)
  have e: "reload_fast d = (if p < 8 then (BIT_DStream_overflow, d) else BIT_reloadDStream d)"
    using p assms(2) by (simp add: reload_fast_def BIT_reloadDStreamFast_def BIT_reloadDStream_def)
  show "reads (snd (reload_fast d)) x l" using assms(1) reads_reload by (simp add: e)
  show "fst (reload_fast d) = BIT_DStream_unfinished \<Longrightarrow> d_bitsConsumed (snd (reload_fast d)) \<le> 8"
    using assms(1) reload_spec(5)[of d] by (auto simp: e reads_def split: if_splits)
qed

lemma x1_symbols_limit: "d_limitPtr (snd (x1_symbols n d dt tableLog)) = d_limitPtr d"
  by (induction n arbitrary: d) (simp_all add: split_beta HUF_decodeSymbolX1_def Let_def BIT_skipBits_def)

lemma round_step:
  assumes "at_round k bits (d, out)" "round_ready (d, out)"
  defines "d1 \<equiv> snd (x1_symbols 4 d dt tableLog)"
  shows "at_round (k + 4) bits (snd (reload_fast d1), out @ fst (x1_symbols 4 d dt tableLog))"
    and "fst (reload_fast d1) = BIT_DStream_unfinished
      \<Longrightarrow> round_ready (snd (reload_fast d1), out @ fst (x1_symbols 4 d dt tableLog))"
proof -
  have inv: "d_inv d" and r: "d_pos d = 0 \<or> d_bitsConsumed d \<le> 8" using assms(2) by (simp_all add: round_ready_def)
  have room: "d_pos d = 0 \<or> d_bitsConsumed d + 4 * tableLog \<le> 64" using r log_bounds by auto
  have p: "d_ptr d1 = d_ptr d" "d_ptr d = At (d_pos d)" using symbols_consume[of d 4] inv by (auto simp: d1_def d_inv_def)
  have lim: "d_limitPtr d1 = 8" using inv by (simp add: d1_def d_inv_def x1_symbols_limit)
  have a: "at_round (k + 4) bits (d1, out @ fst (x1_symbols 4 d dt tableLog))"
    by (rule at_round_add[OF assms(1)]) (use symbols_agree room symbols_overrun in \<open>auto simp: d1_def length_symbols\<close>)
  have over: "d_pos d = 0" if "overrun d1" using that room symbols_consume[of d 4] by (auto simp: overrun_def d1_def)
  have c: "at_round (k + 4) bits (snd (reload_fast d1), out @ fst (x1_symbols 4 d dt tableLog))
      \<and> (fst (reload_fast d1) = BIT_DStream_unfinished \<longrightarrow> round_ready (snd (reload_fast d1), out @ fst (x1_symbols 4 d dt tableLog)))"
  proof (cases "overrun d1")
    case True
    then have "reload_fast d1 = (BIT_DStream_overflow, d1)"
      using over p lim by (simp add: reload_fast_def BIT_reloadDStreamFast_def)
    then show ?thesis using a by simp
  next
    case False
    then obtain x l where x: "huf_run tableLog ws (k + 4) (fst bits) (snd bits) = Some (out @ fst (x1_symbols 4 d dt tableLog), x, l)" "reads d1 x l"
      using at_round_reads[OF a] by auto
    then show ?thesis using a False reload_fast_reads[OF x(2)]
      by (auto simp: at_round_def run_agrees_def round_ready_def overrun_def reads_def)
  qed
  then show "at_round (k + 4) bits (snd (reload_fast d1), out @ fst (x1_symbols 4 d dt tableLog))" by simp
  show "fst (reload_fast d1) = BIT_DStream_unfinished \<Longrightarrow> round_ready (snd (reload_fast d1), out @ fst (x1_symbols 4 d dt tableLog))"
    using c by simp
qed


lemma loop16_agrees:
  assumes "list_all2 (at_round k) bits streams" "length streams = 4" "endSignal \<Longrightarrow> list_all round_ready streams" "int k \<le> olimit + 3"
  shows "\<exists>k'. int k' \<le> olimit + 3 \<and> list_all2 (at_round k') bits (x1_loop16 endSignal olimit streams dt tableLog)"
  using assms
proof (induction "nat (olimit - int k)" arbitrary: k streams endSignal rule: less_induct)
  case less
  have k: "length (snd (streams ! 3)) = k" using list_all2_nthD2[OF less.prems(1), of 3] less.prems(2) by (simp add: at_round_def)
  define f where "f = (\<lambda>(d, out). (reload_fast (snd (x1_symbols 4 d dt tableLog)), out @ fst (x1_symbols 4 d dt tableLog)))"
  define g where "g = (\<lambda>((status :: BIT_DStream_status, bitD :: BIT_DStream_t), out :: buffer). (bitD, out))"
  define e where "e = list_all (\<lambda>((status, _), _). status = BIT_DStream_unfinished) (map f streams)"
  show ?case
  proof (cases "endSignal \<and> int k < olimit")
    case False
    then have n: "\<not> (endSignal \<and> int (length (snd (streams ! 3))) < olimit \<and> length streams = 4)" by (auto simp: k)
    have "x1_loop16 endSignal olimit streams dt tableLog = streams" by (subst x1_loop16.simps) (simp only: n if_False)
    then show ?thesis using less.prems by auto
  next
    case True
    then have u: "x1_loop16 endSignal olimit streams dt tableLog = x1_loop16 e olimit (map g (map f streams)) dt tableLog"
      using less.prems(2) k unfolding e_def f_def g_def
      by (subst x1_loop16.simps) (simp add: four_rounds case_prod_unfold comp_def Let_def)
    have rdy: "list_all round_ready streams" using less.prems(3) True by simp
    have "list_all2 (at_round (k + 4)) bits (map g (map f streams))"
      using less.prems(1) rdy round_step(1) unfolding list_all2_conv_all_nth list_all_length
      by (auto simp: f_def g_def split_beta)
    moreover have "list_all round_ready (map g (map f streams))" if e
    proof (unfold list_all_length, intro allI impI)
      fix n assume "n < length (map g (map f streams))"
      then have n: "n < length streams" by simp
      have "at_round k (bits ! n) (fst (streams ! n), snd (streams ! n))" "round_ready (fst (streams ! n), snd (streams ! n))"
        using less.prems(1) rdy n by (simp_all add: list_all2_conv_all_nth list_all_length)
      from round_step(2)[OF this] show "round_ready (map g (map f streams) ! n)"
        using that n by (simp add: e_def list_all_length f_def g_def split_beta)
    qed
    moreover have "int (k + 4) \<le> olimit + 3" "nat (olimit - int (k + 4)) < nat (olimit - int k)" using True by auto
    ultimately show ?thesis unfolding u using less.hyps[of "k + 4" "map g (map f streams)" e] less.prems(2) by simp
  qed
qed

end

subsection \<open>The decoders agree with the format\<close>

lemma init_error: "stream_bits src = Inl e \<Longrightarrow> BIT_initDStream src = Inl e"
  by (cases "src = []") (auto simp: stream_bits_def BIT_initDStream_def Let_def last_conv_nth Suc_le_eq split: if_splits)

lemma init_reads:
  assumes "stream_bits src = Inr (x, l)"
  shows "\<exists>d. BIT_initDStream src = Inr d \<and> reads d x l \<and> (d_pos d = 0 \<or> d_bitsConsumed d \<le> 8)"
proof -
  have src: "src \<noteq> []" "last src \<noteq> 0" and x: "l = stream_len src" "x = le_val src mod 2 ^ l"
    using assms by (auto simp: stream_bits_def split: if_splits)
  obtain d where d: "BIT_initDStream src = Inr d" "d_inv d" "d_src d = src" "2 ^ d_len d \<le> le_val src" "le_val src < 2 ^ Suc (d_len d)"
    using initDStream_spec[OF src] by blast
  have "d_len d = stream_len src"
    using pow2_log_unique[OF d(4,5)] last_byte_bounds(1,2)[OF src] by (simp add: stream_len_def)
  then have "reads d x l" using d x by (simp add: reads_def d_val_def)
  moreover have "d_pos d = 0 \<or> d_bitsConsumed d \<le> 8" using initDStream_room[OF d(1)] by (auto simp: room_def)
  ultimately show ?thesis using d(1) by blast
qed

context x1_decoder
begin

lemma exactly_agrees:
  assumes "run_agrees (huf_run tableLog ws n x l) (out, d)"
  shows "huf_exactly tableLog ws n (x, l) = (if BIT_endOfDStream d then Inr out else Inl ZSTD_error_corruption_detected)"
  using assms end_of_stream[of d] by (auto simp: huf_exactly_def run_agrees_def split: option.splits nat.splits)

lemma decompress1X1_agrees:
  assumes "huf_cells DTable = dt" "dtd_tableLog DTable = tableLog"
  shows "HUF_decompress1X1_usingDTable_internal_body n src DTable = huf_stream tableLog ws n src"
proof (cases "stream_bits src")
  case (Inl e)
  then show ?thesis using init_error[OF Inl] by (simp add: HUF_decompress1X1_usingDTable_internal_body_def huf_stream_def)
next
  case (Inr b)
  obtain x l where b: "b = (x, l)" by fastforce
  obtain d where d: "BIT_initDStream src = Inr d" "reads d x l" using init_reads[of src x l] Inr b by blast
  obtain out d' where o': "HUF_decodeStreamX1 n d dt tableLog = (out, d')" by fastforce
  have "huf_exactly tableLog ws n (x, l) = (if BIT_endOfDStream d' then Inr out else Inl ZSTD_error_corruption_detected)"
    using decodeStream_agrees[OF d(2), of n] unfolding o' by (rule exactly_agrees)
  then show ?thesis using d(1) Inr b o' assms by (simp add: HUF_decompress1X1_usingDTable_internal_body_def huf_stream_def)
qed

lemma finish_agrees:
  assumes "at_round k bits (d, out)" "k \<le> n"
  shows "huf_exactly tableLog ws n bits = (if BIT_endOfDStream (snd (HUF_decodeStreamX1 (n - length out) d dt tableLog))
    then Inr (out @ fst (HUF_decodeStreamX1 (n - length out) d dt tableLog)) else Inl ZSTD_error_corruption_detected)"
proof -
  have k: "length out = k" "run_agrees (huf_run tableLog ws k (fst bits) (snd bits)) (out, d)"
    using assms(1) by (simp_all add: at_round_def)
  let ?r = "HUF_decodeStreamX1 (n - length out) d dt tableLog"
  have "run_agrees (huf_run tableLog ws (k + (n - length out)) (fst bits) (snd bits)) (out @ fst ?r, snd ?r)"
    by (rule run_agrees_add[OF k(2)]) (use decodeStream_agrees[of d] decodeStream_overrun[of d] in auto)
  then show ?thesis using exactly_agrees[of n "fst bits" "snd bits"] k(1) assms(2) by simp
qed

text \<open>The segments: three of a quarter of the output, rounded up, and the rest.\<close>

lemma segments_agree:
  assumes "list_all2 (at_round 0) [b1, b2, b3, b4] streams" "list_all round_ready streams" "q4 \<le> q"
  shows "x1_segments q q4 streams dt tableLog
    = bindE (huf_exactly tableLog ws q b1) (\<lambda>o1. bindE (huf_exactly tableLog ws q b2) (\<lambda>o2.
      bindE (huf_exactly tableLog ws q b3) (\<lambda>o3. bindE (huf_exactly tableLog ws q4 b4) (\<lambda>o4. Inr (o1 @ o2 @ o3 @ o4)))))"
proof -
  have len: "length streams = 4" using assms(1) by (simp add: list_all2_lengthD[symmetric])
  define streams' where "streams' = (if q4 \<ge> 8 then x1_loop16 True (int q4 - 3) streams dt tableLog else streams)"
  have "\<exists>k. k \<le> q4 \<and> list_all2 (at_round k) [b1, b2, b3, b4] streams'"
  proof (cases "q4 \<ge> 8")
    case True
    then show ?thesis using loop16_agrees[OF assms(1) len, of True "int q4 - 3"] assms(2) by (auto simp: streams'_def)
  next
    case False
    then show ?thesis using assms(1) by (intro exI[of _ 0]) (simp add: streams'_def)
  qed
  then obtain k d1 o1 d2 o2 d3 o3 d4 o4 where k: "k \<le> q4" "streams' = [(d1, o1), (d2, o2), (d3, o3), (d4, o4)]"
    "at_round k b1 (d1, o1)" "at_round k b2 (d2, o2)" "at_round k b3 (d3, o3)" "at_round k b4 (d4, o4)"
    by (auto simp: list_all2_Cons1)
  have l: "length o1 = k" "length o2 = k" "length o3 = k" using k(3-5) by (simp_all add: at_round_def)
  have kq: "k \<le> q" using k(1) assms(3) by simp
  show ?thesis unfolding x1_segments_def streams'_def[symmetric] k(2) finish_agrees[OF k(3) kq] finish_agrees[OF k(4) kq] finish_agrees[OF k(5) kq] finish_agrees[OF k(6,1)]
    using l kq by (simp add: split_beta Let_def)
qed

end

lemma size_t_overflow:
  assumes "c < 2 ^ 64" "s < 2 ^ 64"
  shows "(of_nat c - of_nat s :: size_t) > of_nat c \<longleftrightarrow> c < s" "s \<le> c \<Longrightarrow> unat (of_nat c - of_nat s :: size_t) = c - s"
proof -
  have u: "unat (of_nat c :: size_t) = c" "unat (of_nat s :: size_t) = s" using assms by (simp_all add: unat_of_nat)
  show "s \<le> c \<Longrightarrow> unat (of_nat c - of_nat s :: size_t) = c - s"
    using u by (simp add: unat_sub word_le_nat_alt)
  show "(of_nat c - of_nat s :: size_t) > of_nat c \<longleftrightarrow> c < s"
    using u assms by (auto simp: word_less_nat_alt unat_sub_if_size word_size)
qed

context x1_decoder
begin

lemma init_stream:
  obtains e where "stream_bits src = Inl e" "BIT_initDStream src = Inl e"
  | b d where "stream_bits src = Inr b" "BIT_initDStream src = Inr d" "at_round 0 b (d, [])" "round_ready (d, [])"
proof (cases "stream_bits src")
  case (Inl e)
  then show ?thesis using that(1) init_error by blast
next
  case (Inr b)
  moreover obtain x l where "b = (x, l)" by fastforce
  ultimately show ?thesis using init_reads[of src x l] that(2)[of b]
    by (auto simp: at_round_def round_ready_def run_agrees_def reads_def)
qed

lemma decompress4X1_agrees:
  assumes "huf_cells DTable = dt" "dtd_tableLog DTable = tableLog" "length src < 2 ^ 64"
  shows "HUF_decompress4X1_usingDTable_internal_body n src DTable = huf_streams4 tableLog ws n src"
proof (cases "length src < 10 \<or> n < 6")
  case True
  then have "HUF_decompress4X1_usingDTable_internal_body n src DTable = Inl ZSTD_error_corruption_detected"
    unfolding HUF_decompress4X1_usingDTable_internal_body_def Let_def by (simp only: split: if_splits) auto
  moreover have "huf_streams4 tableLog ws n src = Inl ZSTD_error_corruption_detected"
    using True unfolding huf_streams4_def Let_def by auto
  ultimately show ?thesis by simp
next
  case big: False
  define a b c where "a = le_val (bytes_at src 0 2)" and "b = le_val (bytes_at src 2 2)" and "c = le_val (bytes_at src 4 2)"
  have le: "unat (MEM_readLE16 LittleEndian src p) = le_val (bytes_at src p 2)" "le_val (bytes_at src p 2) < 65536" if "p \<le> 4" for p
    using that big le_val_less[of "bytes_at src p 2"] by (auto simp: readLE16_eq unat_of_nat)
  have s: "a + b + c + 6 < 2 ^ 64" using le(2)[of 0] le(2)[of 2] le(2)[of 4] by (simp add: a_def b_def c_def)
  have le': "unat (MEM_readLE16 LittleEndian src 0) = le_val (bytes_at src 0 2)" "unat (MEM_readLE16 LittleEndian src 2) = le_val (bytes_at src 2 2)"
    "unat (MEM_readLE16 LittleEndian src 4) = le_val (bytes_at src 4 2)" using le(1) by simp_all
  have big': "\<not> length src < 10" "\<not> n < 6" using big by auto
  note ov = size_t_overflow[OF assms(3) s]
  define q where "q = (n + 3) div 4"
  define s1 s2 s3 s4 where "s1 = bytes_at src 6 a" and "s2 = bytes_at src (6 + a) b" and "s3 = bytes_at src (6 + a + b) c"
    and "s4 = drop (6 + a + b + c) src"
  have "HUF_decompress4X1_usingDTable_internal_body n src DTable = (if length src < a + b + c + 6 \<or> n < 3 * q
      then Inl ZSTD_error_corruption_detected
      else bindE (BIT_initDStream s1) (\<lambda>d1. bindE (BIT_initDStream s2) (\<lambda>d2. bindE (BIT_initDStream s3) (\<lambda>d3.
        bindE (BIT_initDStream (bytes_at src (6 + a + b + c) (unat (of_nat (length src) - of_nat (a + b + c + 6) :: size_t)))) (\<lambda>d4.
          x1_segments q (n - 3 * q) [(d1, []), (d2, []), (d3, []), (d4, [])] dt tableLog)))))"
    unfolding HUF_decompress4X1_usingDTable_internal_body_def Let_def assms(1,2) s1_def s2_def s3_def
      le'[unfolded a_def[symmetric] b_def[symmetric] c_def[symmetric]] q_def[symmetric] ov(1)
    by (cases "length src < a + b + c + 6"; cases "n < 3 * q") (simp_all only: big' if_False if_True simp_thms)
  moreover have "bytes_at src (6 + a + b + c) (unat (of_nat (length src) - of_nat (a + b + c + 6) :: size_t)) = s4"
    if "\<not> length src < a + b + c + 6" unfolding ov(2)[OF that[unfolded not_less]] by (simp add: s4_def bytes_at_def add_ac)
  ultimately have body: "HUF_decompress4X1_usingDTable_internal_body n src DTable = (if length src < a + b + c + 6 \<or> n < 3 * q
      then Inl ZSTD_error_corruption_detected
      else bindE (BIT_initDStream s1) (\<lambda>d1. bindE (BIT_initDStream s2) (\<lambda>d2. bindE (BIT_initDStream s3) (\<lambda>d3.
        bindE (BIT_initDStream s4) (\<lambda>d4. x1_segments q (n - 3 * q) [(d1, []), (d2, []), (d3, []), (d4, [])] dt tableLog)))))"
    by (cases "length src < a + b + c + 6") (simp_all only: not_False_eq_True simp_thms if_True if_False)
  have spec: "huf_streams4 tableLog ws n src = (if length src < a + b + c + 6 \<or> n < 3 * q then Inl ZSTD_error_corruption_detected
      else bindE (stream_bits s1) (\<lambda>b1. bindE (stream_bits s2) (\<lambda>b2. bindE (stream_bits s3) (\<lambda>b3. bindE (stream_bits s4) (\<lambda>b4.
        bindE (huf_exactly tableLog ws q b1) (\<lambda>o1. bindE (huf_exactly tableLog ws q b2) (\<lambda>o2.
        bindE (huf_exactly tableLog ws q b3) (\<lambda>o3. bindE (huf_exactly tableLog ws (n - 3 * q) b4) (\<lambda>o4. Inr (o1 @ o2 @ o3 @ o4))))))))))"
    using big unfolding huf_streams4_def Let_def s1_def s2_def s3_def s4_def a_def b_def c_def q_def by (simp add: add_ac)
  have q4: "n - 3 * q \<le> q" by (simp add: q_def)
  have seg: "x1_segments q (n - 3 * q) [(d1, []), (d2, []), (d3, []), (d4, [])] dt tableLog
      = bindE (huf_exactly tableLog ws q b1) (\<lambda>o1. bindE (huf_exactly tableLog ws q b2) (\<lambda>o2.
        bindE (huf_exactly tableLog ws q b3) (\<lambda>o3. bindE (huf_exactly tableLog ws (n - 3 * q) b4) (\<lambda>o4. Inr (o1 @ o2 @ o3 @ o4)))))"
    if "at_round 0 b1 (d1, [])" "at_round 0 b2 (d2, [])" "at_round 0 b3 (d3, [])" "at_round 0 b4 (d4, [])"
      "round_ready (d1, [])" "round_ready (d2, [])" "round_ready (d3, [])" "round_ready (d4, [])" for d1 d2 d3 d4 b1 b2 b3 b4
    by (rule segments_agree) (use that q4 in auto)
  show ?thesis unfolding body spec
    by (cases rule: init_stream[of s1]; cases rule: init_stream[of s2]; cases rule: init_stream[of s3]; cases rule: init_stream[of s4])
       (simp_all add: seg)
qed

end

subsection \<open>Tables that were read\<close>

text \<open>
  The decoders work on the tables \<open>HUF_readDTableX1_wksp\<close> builds; where it refuses its source, the
  table before the call stays in use, for which a code of two symbols stands here.
\<close>

definition x1_table_of :: "endian \<Rightarrow> HUF_DTable \<Rightarrow> buffer \<Rightarrow> FSE_DTable \<Rightarrow> buffer \<Rightarrow> nat list \<Rightarrow> nat list \<times> nat \<times> buffer" where
  "x1_table_of e DTable src dtable wksp symbols =
     (case (HUF_readStats_wksp 256 src dtable wksp, HUF_readDTableX1_wksp e DTable src dtable wksp symbols) of
        (Inr (_, stats), Inr (_, DTable')) \<Rightarrow>
          if huf_dtable_ok DTable \<and> 256 \<le> length symbols
          then (x1_weights DTable stats, dtd_tableLog DTable', huf_cells DTable') else ([1, 1], 1, [1, 0, 1, 1])
      | _ \<Rightarrow> ([1, 1], 1, [1, 0, 1, 1]))"

lemma two_symbols: "huf_complete [1, 1] 1" "x1_realises [1, 1] 1 [1, 0, 1, 1]"
proof -
  show "huf_complete [1, 1] 1" by (simp add: huf_complete_def)
  have "huf_start [1, 1] 0 = 0" "huf_start [1, 1] 1 = 1" "huf_span [1, 1] 0 = 1" "huf_span [1, 1] 1 = 1"
    by (simp_all add: huf_start_def huf_span_def huf_before_def)
  then show "x1_realises [1, 1] 1 [1, 0, 1, 1]"
    by (auto simp: x1_realises_def less_Suc_eq x1_cell_def huf_len_def)
qed

interpretation read_table: x1_decoder
  "fst (x1_table_of e DTable src dtable wksp symbols)" "fst (snd (x1_table_of e DTable src dtable wksp symbols))"
  "snd (snd (x1_table_of e DTable src dtable wksp symbols))" for e DTable src dtable wksp symbols
proof -
  show "x1_decoder (fst (x1_table_of e DTable src dtable wksp symbols)) (fst (snd (x1_table_of e DTable src dtable wksp symbols)))
      (snd (snd (x1_table_of e DTable src dtable wksp symbols)))"
    using readDTableX1_realises[of e DTable src dtable wksp symbols] two_symbols
    by unfold_locales (fastforce simp: x1_table_of_def split: sum.splits prod.splits)+
qed

lemma read_table_eq:
  assumes "HUF_readDTableX1_wksp e DTable src dtable wksp symbols = Inr (iSize, DTable')"
    "huf_dtable_ok DTable" "256 \<le> length symbols"
  obtains stats where "HUF_readStats_wksp 256 src dtable wksp = Inr (iSize, stats)"
    "same_code (hs_weights stats) (hs_tableLog stats) (x1_weights DTable stats) (dtd_tableLog DTable')"
    "x1_table_of e DTable src dtable wksp symbols = (x1_weights DTable stats, dtd_tableLog DTable', huf_cells DTable')"
  using readDTableX1_realises[OF assms] assms by (auto simp: x1_table_of_def)

lemma huf_exactly_same_code:
  "same_code ws tableLog ws' tableLog' \<Longrightarrow> huf_exactly tableLog' ws' n = huf_exactly tableLog ws n"
  by (simp add: huf_exactly_def huf_run_same_code)

lemma huf_stream_same_code:
  assumes "same_code ws tableLog ws' tableLog'"
  shows "huf_stream tableLog' ws' n src = huf_stream tableLog ws n src" "huf_streams4 tableLog' ws' n src = huf_streams4 tableLog ws n src"
  unfolding huf_stream_def huf_streams4_def Let_def huf_exactly_same_code[OF assms] by (rule refl)+

lemma read_decompress_agrees:
  assumes "HUF_readDTableX1_wksp e DTable hdr dtable wksp symbols = Inr (iSize, DTable')"
    "huf_dtable_ok DTable" "256 \<le> length symbols"
  shows "\<exists>stats. HUF_readStats_wksp 256 hdr dtable wksp = Inr (iSize, stats)
    \<and> HUF_decompress1X1_usingDTable_internal_body n src DTable' = huf_stream (hs_tableLog stats) (hs_weights stats) n src
    \<and> (length src < 2 ^ 64 \<longrightarrow>
        HUF_decompress4X1_usingDTable_internal_body n src DTable' = huf_streams4 (hs_tableLog stats) (hs_weights stats) n src)"
proof -
  obtain stats where s: "HUF_readStats_wksp 256 hdr dtable wksp = Inr (iSize, stats)"
    "same_code (hs_weights stats) (hs_tableLog stats) (x1_weights DTable stats) (dtd_tableLog DTable')"
    "x1_table_of e DTable hdr dtable wksp symbols = (x1_weights DTable stats, dtd_tableLog DTable', huf_cells DTable')"
    by (rule read_table_eq[OF assms])
  note a1 = read_table.decompress1X1_agrees[of DTable' e DTable hdr dtable wksp symbols n src]
    and a4 = read_table.decompress4X1_agrees[of DTable' e DTable hdr dtable wksp symbols src n]
  show ?thesis using s(1) a1 a4 unfolding s(3) by (simp add: huf_stream_same_code[OF s(2)])
qed

context x1_decoder
begin

lemma cell_code_iff:
  assumes "y < 2 ^ tableLog" "s < length ws" "0 < ws ! s"
  shows "x1_cell dt y = (s, huf_len tableLog ws s) \<longleftrightarrow> y div 2 ^ (tableLog - huf_len tableLog ws s) = huf_code ws s"
proof -
  have "ws ! s \<le> tableLog" using complete assms(2) by (simp add: huf_complete_def)
  from huf_span_len(1)[OF this assms(3)] huf_owner_code[OF complete assms(2,3), of y]
  have c: "y div 2 ^ (tableLog - huf_len tableLog ws s) = huf_code ws s \<longleftrightarrow> huf_start ws s \<le> y \<and> y < huf_start ws s + huf_span ws s" by simp
  obtain t where t: "t < length ws" "huf_start ws t \<le> y" "y < huf_start ws t + huf_span ws t" "x1_cell dt y = (t, huf_len tableLog ws t)"
    using huf_owner_ex[OF complete assms(1)] realises unfolding x1_realises_def by blast
  have own: "huf_start ws u \<le> y \<and> y < huf_start ws u + huf_span ws u \<Longrightarrow> u < length ws \<Longrightarrow> x1_cell dt y = (u, huf_len tableLog ws u)" for u
    using realises unfolding x1_realises_def by blast
  show ?thesis unfolding c using own[OF _ assms(2)] t by auto
qed

end

text \<open>An example: three symbols with code words of two, two and one bits.\<close>

definition huf_example :: "HUF_DTable" where
  "huf_example = \<lparr>dtd_maxTableLog = 1, dtd_tableType = 0, dtd_tableLog = 0, huf_cells = replicate 8 0\<rparr>"

definition fse_space :: FSE_DTable where
  "fse_space = \<lparr>dt_tableLog = 0, dt_fastMode = False, dt_table = []\<rparr>"

lemma huf_example_stats:
  "HUF_readStats_wksp 256 [129, 0x11] fse_space [] = Inr (2, \<lparr>hs_weights = [1, 1, 2],
     hs_rankStats = ((replicate 13 0)[1 := 2])[2 := 1], hs_tableLog = 2\<rparr>)"
proof -
  have h: "ZSTD_highbit32 2 = 1" by (rule highbit32_unique) simp_all
  have "HUF_readWeights 256 [129, 0x11] fse_space [] = Inr ([1, 1], 1)" by (simp add: HUF_readWeights_def)
  moreover have "HUF_collect [1, 1] (replicate 13 0) 0 = Inr ((replicate 13 0)[1 := 2], 2)" by (simp add: numeral_2_eq_2)
  ultimately show ?thesis
    by (simp add: HUF_readStats_wksp_def HUF_readStats_body_def h Let_def numeral_2_eq_2[symmetric])
qed

lemma huf_example_read:
  "\<exists>DTable'. HUF_readDTableX1_wksp LittleEndian huf_example [129, 0x11] fse_space [] (replicate 256 0) = Inr (2, DTable')"
  "huf_dtable_ok huf_example"
proof -
  have "HUF_rescaleStats [1, 1, 2] rv 2 (min (1 + 1) 11) = ([1, 1, 2], rv, 2)" for rv by (simp add: HUF_rescaleStats_def)
  then show "\<exists>DTable'. HUF_readDTableX1_wksp LittleEndian huf_example [129, 0x11] fse_space [] (replicate 256 0) = Inr (2, DTable')"
    unfolding HUF_readDTableX1_wksp_def HUF_SYMBOLVALUE_MAX_def HUF_DECODER_FAST_TABLELOG_def huf_example_def
    by (simp add: huf_example_stats Let_def split_beta del: upt_Suc One_nat_def)
qed (simp add: huf_dtable_ok_def huf_example_def)

lemma huf_example_codes: "huf_code [1, 1, 2] 0 = 0" "huf_code [1, 1, 2] 1 = 1" "huf_code [1, 1, 2] 2 = 1"
  by code_simp+

lemma huf_example_run:
  "huf_run 2 [1, 1, 2] 3 17 5 = Some ([2, 0, 1], 0, 0)"
  by code_simp

text \<open>
  Property C7: the table built from accepted weights realises their canonical prefix code: the cell
  at an index holds a symbol, and the length of its code word, exactly when the index starts with
  that code word.  The code is that of the transmitted weights, although the table may be larger.\<close>

theorem huf_table_realises_code:
  assumes "HUF_readDTableX1_wksp e DTable src dtable wksp symbols = Inr (iSize, DTable')"
    and "huf_dtable_ok DTable" "256 \<le> length symbols"
  shows "\<exists>stats. HUF_readStats_wksp 256 src dtable wksp = Inr (iSize, stats)
    \<and> dtd_tableLog DTable' = max (hs_tableLog stats) (min (dtd_maxTableLog DTable + 1) 11)
    \<and> dtd_tableLog DTable' \<le> dtd_maxTableLog DTable + 1
    \<and> (\<forall>y<2 ^ dtd_tableLog DTable'. \<forall>s<length (hs_weights stats). 0 < hs_weights stats ! s \<longrightarrow>
         (x1_cell (huf_cells DTable') y = (s, huf_len (hs_tableLog stats) (hs_weights stats) s)
           \<longleftrightarrow> y div 2 ^ (dtd_tableLog DTable' - huf_len (hs_tableLog stats) (hs_weights stats) s) = huf_code (hs_weights stats) s))"
proof -
  let ?l = "dtd_tableLog DTable'"
  obtain stats where st: "HUF_readStats_wksp 256 src dtable wksp = Inr (iSize, stats)"
    "same_code (hs_weights stats) (hs_tableLog stats) (x1_weights DTable stats) ?l" "huf_complete (x1_weights DTable stats) ?l"
    "x1_realises (x1_weights DTable stats) ?l (huf_cells DTable')"
    "?l = max (hs_tableLog stats) (min (dtd_maxTableLog DTable + 1) 11)" "?l \<le> dtd_maxTableLog DTable + 1"
    using readDTableX1_realises[OF assms] by blast
  note tbl = read_table_eq[OF assms]
  have t: "x1_table_of e DTable src dtable wksp symbols = (x1_weights DTable stats, ?l, huf_cells DTable')"
    using st(1) by (auto intro: tbl)
  have "x1_cell (huf_cells DTable') y = (s, huf_len (hs_tableLog stats) (hs_weights stats) s)
      \<longleftrightarrow> y div 2 ^ (?l - huf_len (hs_tableLog stats) (hs_weights stats) s) = huf_code (hs_weights stats) s"
    if "y < 2 ^ ?l" "s < length (hs_weights stats)" "0 < hs_weights stats ! s" for y s
    using read_table.cell_code_iff[of y e DTable src dtable wksp symbols s] that st(2) unfolding t same_code_def by auto
  then show ?thesis using st(1,5,6) by blast
qed

theorem huf_table_realises_code_witness:
  "\<exists>DTable' stats. HUF_readDTableX1_wksp LittleEndian huf_example [129, 0x11] fse_space [] (replicate 256 0) = Inr (2, DTable')
    \<and> x1_cell (huf_cells DTable') 3 = (2, 1) \<and> x1_cell (huf_cells DTable') 1 = (1, 2)"
proof -
  obtain DTable' where r: "HUF_readDTableX1_wksp LittleEndian huf_example [129, 0x11] fse_space [] (replicate 256 0) = Inr (2, DTable')"
    using huf_example_read(1) by blast
  from huf_table_realises_code[OF r huf_example_read(2)] have l: "dtd_tableLog DTable' = 2"
    and c: "\<forall>y<2 ^ 2. \<forall>s<length [1, 1, 2 :: nat]. 0 < [1, 1, 2 :: nat] ! s \<longrightarrow> (x1_cell (huf_cells DTable') y = (s, huf_len 2 [1, 1, 2] s)
      \<longleftrightarrow> y div 2 ^ (2 - huf_len 2 [1, 1, 2] s) = huf_code [1, 1, 2] s)"
    by (simp_all add: huf_example_stats huf_example_def del: One_nat_def)
  show ?thesis
    using c[rule_format, of 3 2] c[rule_format, of 1 1] r huf_example_codes by (simp add: huf_len_def)
qed

text \<open>
  Property C16: one stream is decoded as the prefix code of the transmitted weights defines it: the
  output is the sequence of symbols whose code words make up the stream, and an error is reported
  exactly when the stream has no end mark or the symbols asked for do not use it up.\<close>

theorem huf_stream_refines_code:
  assumes "HUF_readDTableX1_wksp e DTable hdr dtable wksp symbols = Inr (iSize, DTable')"
    and "huf_dtable_ok DTable" "256 \<le> length symbols"
  shows "\<exists>stats. HUF_readStats_wksp 256 hdr dtable wksp = Inr (iSize, stats)
    \<and> HUF_decompress1X1_usingDTable_internal_body n src DTable' = huf_stream (hs_tableLog stats) (hs_weights stats) n src"
  using read_decompress_agrees[OF assms, of n src] by blast

theorem huf_stream_refines_code_witness:
  "\<exists>DTable'. HUF_readDTableX1_wksp LittleEndian huf_example [129, 0x11] fse_space [] (replicate 256 0) = Inr (2, DTable')
    \<and> HUF_decompress1X1_usingDTable_internal_body 3 [49] DTable' = Inr [2, 0, 1]"
proof -
  obtain DTable' where r: "HUF_readDTableX1_wksp LittleEndian huf_example [129, 0x11] fse_space [] (replicate 256 0) = Inr (2, DTable')"
    using huf_example_read(1) by blast
  have h: "ZSTD_highbit32 49 = 5" by (rule highbit32_unique) simp_all
  have "huf_stream 2 [1, 1, 2] 3 [49] = Inr [2, 0, 1]"
    using huf_example_run by (simp add: huf_stream_def stream_bits_def stream_len_def h huf_exactly_def)
  then show ?thesis
    using huf_stream_refines_code[OF r huf_example_read(2), of 3 "[49]"] r by (simp add: huf_example_stats)
qed

text \<open>
  Property C5: four interleaved streams regenerate what they define one by one: the interleaved loop
  with its unchecked reloads, the finish of each stream and the checks in between give the
  concatenation of the four outputs, or the error of the format.\<close>

theorem huf_four_streams_refine_code:
  assumes "HUF_readDTableX1_wksp e DTable hdr dtable wksp symbols = Inr (iSize, DTable')"
    and "huf_dtable_ok DTable" "256 \<le> length symbols" "length src < 2 ^ 64"
  shows "\<exists>stats. HUF_readStats_wksp 256 hdr dtable wksp = Inr (iSize, stats)
    \<and> HUF_decompress4X1_usingDTable_internal_body n src DTable' = huf_streams4 (hs_tableLog stats) (hs_weights stats) n src"
  using read_decompress_agrees[OF assms(1-3), of n src] assms(4) by blast

theorem huf_four_streams_refine_code_witness:
  "\<exists>DTable'. HUF_readDTableX1_wksp LittleEndian huf_example [129, 0x11] fse_space [] (replicate 256 0) = Inr (2, DTable')
    \<and> HUF_decompress4X1_usingDTable_internal_body 9 [1, 0, 1, 0, 1, 0, 49, 49, 49, 1] DTable' = Inr [2, 0, 1, 2, 0, 1, 2, 0, 1]"
proof -
  obtain DTable' where r: "HUF_readDTableX1_wksp LittleEndian huf_example [129, 0x11] fse_space [] (replicate 256 0) = Inr (2, DTable')"
    using huf_example_read(1) by blast
  let ?src = "[1, 0, 1, 0, 1, 0, 49, 49, 49, 1] :: buffer"
  have h: "ZSTD_highbit32 49 = 5" "ZSTD_highbit32 1 = 0" by (rule highbit32_unique; simp)+
  have "huf_exactly 2 [1, 1, 2] 3 (17, 5) = Inr [2, 0, 1]" "huf_exactly 2 [1, 1, 2] 0 (0, 0) = Inr []"
    using huf_example_run by (simp_all add: huf_exactly_def)
  moreover have "stream_bits [49] = Inr (17, 5)" "stream_bits [1] = Inr (0, 0)" by (simp_all add: stream_bits_def stream_len_def h)
  ultimately have "huf_streams4 2 [1, 1, 2] 9 ?src = Inr [2, 0, 1, 2, 0, 1, 2, 0, 1]"
    by (simp add: huf_streams4_def bytes_at_def)
  then show ?thesis
    using huf_four_streams_refine_code[OF r huf_example_read(2), of ?src 9] r by (simp add: huf_example_stats)
qed

end
