(* ===== verification/Zstd_SeqTables.thy ===== *)
theory Zstd_SeqTables
  imports Zstd_NCount
begin

section \<open>Decoding tables of sequences\<close>

text \<open>
  The tables with which \<^verbatim>\<open>decompress/zstd_decompress_block.c\<close> decodes literal lengths, match
  lengths and offsets: cells that hold a base value and a number of extra bits next to the step of
  the state machine.  The theory models their construction (\<open>ZSTD_buildFSETable\<close>,
  \<open>ZSTD_buildSeqTable_rle\<close>), the predefined tables, and the header of the sequences section
  (\<open>ZSTD_buildSeqTable\<close>, \<open>ZSTD_decodeSeqHeaders\<close>).  It shows that the predefined tables are what
  the construction gives on the default distributions, and that a table accepted from arbitrary
  bytes never leads a state out of it.
\<close>

subsection \<open>Constants\<close>

definition MaxLL :: nat where "MaxLL = 35"

definition MaxML :: nat where "MaxML = 52"

definition MaxOff :: nat where "MaxOff = 31"

definition DefaultMaxOff :: nat where "DefaultMaxOff = 28"

definition MaxSeq :: nat where "MaxSeq = max MaxLL MaxML"

definition LLFSELog :: nat where "LLFSELog = 9"

definition MLFSELog :: nat where "MLFSELog = 9"

definition OffFSELog :: nat where "OffFSELog = 8"

definition MaxFSELog :: nat where "MaxFSELog = max (max MLFSELog LLFSELog) OffFSELog"

definition LL_DEFAULTNORMLOG :: nat where "LL_DEFAULTNORMLOG = 6"

definition ML_DEFAULTNORMLOG :: nat where "ML_DEFAULTNORMLOG = 6"

definition OF_DEFAULTNORMLOG :: nat where "OF_DEFAULTNORMLOG = 5"

definition LONGNBSEQ :: nat where "LONGNBSEQ = 0x7F00"

definition MIN_SEQUENCES_SIZE :: nat where "MIN_SEQUENCES_SIZE = 1"

definition LL_base :: "nat list" where
  "LL_base =
    [0, 1, 2, 3, 4, 5, 6, 7, 8, 9, 10, 11, 12, 13, 14, 15,
     16, 18, 20, 22, 24, 28, 32, 40, 48, 64, 0x80, 0x100, 0x200, 0x400, 0x800, 0x1000,
     0x2000, 0x4000, 0x8000, 0x10000]"

definition OF_base :: "nat list" where
  "OF_base =
    [0, 1, 1, 5, 0xD, 0x1D, 0x3D, 0x7D, 0xFD, 0x1FD, 0x3FD, 0x7FD, 0xFFD, 0x1FFD, 0x3FFD, 0x7FFD,
     0xFFFD, 0x1FFFD, 0x3FFFD, 0x7FFFD, 0xFFFFD, 0x1FFFFD, 0x3FFFFD, 0x7FFFFD, 0xFFFFFD, 0x1FFFFFD, 0x3FFFFFD, 0x7FFFFFD, 0xFFFFFFD, 0x1FFFFFFD, 0x3FFFFFFD, 0x7FFFFFFD]"

definition OF_bits :: "nat list" where
  "OF_bits =
    [0, 1, 2, 3, 4, 5, 6, 7, 8, 9, 10, 11, 12, 13, 14, 15,
     16, 17, 18, 19, 20, 21, 22, 23, 24, 25, 26, 27, 28, 29, 30, 31]"

definition ML_base :: "nat list" where
  "ML_base =
    [3, 4, 5, 6, 7, 8, 9, 10, 11, 12, 13, 14, 15, 16, 17, 18,
     19, 20, 21, 22, 23, 24, 25, 26, 27, 28, 29, 30, 31, 32, 33, 34,
     35, 37, 39, 41, 43, 47, 51, 59, 67, 83, 99, 0x83, 0x103, 0x203, 0x403, 0x803,
     0x1003, 0x2003, 0x4003, 0x8003, 0x10003]"

definition LL_bits :: "nat list" where
  "LL_bits =
    [0, 0, 0, 0, 0, 0, 0, 0, 0, 0, 0, 0, 0, 0, 0, 0,
     1, 1, 1, 1, 2, 2, 3, 3, 4, 6, 7, 8, 9, 10, 11, 12,
     13, 14, 15, 16]"

definition LL_defaultNorm :: "int list" where
  "LL_defaultNorm =
    [4, 3, 2, 2, 2, 2, 2, 2, 2, 2, 2, 2, 2, 1, 1, 1,
     2, 2, 2, 2, 2, 2, 2, 2, 2, 3, 2, 1, 1, 1, 1, 1,
     -1, -1, -1, -1]"

definition ML_bits :: "nat list" where
  "ML_bits =
    [0, 0, 0, 0, 0, 0, 0, 0, 0, 0, 0, 0, 0, 0, 0, 0,
     0, 0, 0, 0, 0, 0, 0, 0, 0, 0, 0, 0, 0, 0, 0, 0,
     1, 1, 1, 1, 2, 2, 3, 3, 4, 4, 5, 7, 8, 9, 10, 11,
     12, 13, 14, 15, 16]"

definition ML_defaultNorm :: "int list" where
  "ML_defaultNorm =
    [1, 4, 3, 2, 2, 2, 2, 2, 2, 1, 1, 1, 1, 1, 1, 1,
     1, 1, 1, 1, 1, 1, 1, 1, 1, 1, 1, 1, 1, 1, 1, 1,
     1, 1, 1, 1, 1, 1, 1, 1, 1, 1, 1, 1, 1, 1, -1, -1,
     -1, -1, -1, -1, -1]"

definition OF_defaultNorm :: "int list" where
  "OF_defaultNorm =
    [1, 1, 1, 1, 1, 1, 2, 2, 2, 1, 1, 1, 1, 1, 1, 1,
     1, 1, 1, 1, 1, 1, 1, 1, -1, -1, -1, -1, -1]"

subsection \<open>Tables\<close>

text \<open>An array of \<open>ZSTD_seqSymbol\<close> starts with a cell that is a \<open>ZSTD_seqSymbol_header\<close>.\<close>

record ZSTD_seqSymbol =
  nextState :: nat
  nbAdditionalBits :: nat
  sq_nbBits :: nat
  baseValue :: nat

record ZSTD_seqTable =
  sq_fastMode :: bool
  sq_tableLog :: nat
  sq_cells :: "ZSTD_seqSymbol list"

definition seq_cells :: "(nat \<times> nat \<times> nat \<times> nat) list \<Rightarrow> ZSTD_seqSymbol list" where
  "seq_cells =
     map (\<lambda>(nx, add, nb, base). \<lparr>nextState = nx, nbAdditionalBits = add, sq_nbBits = nb, baseValue = base\<rparr>)"

definition LL_defaultDTable :: ZSTD_seqTable where
  "LL_defaultDTable =
   \<lparr>sq_fastMode = True, sq_tableLog = LL_DEFAULTNORMLOG, sq_cells = seq_cells [
    (0, 0, 4, 0), (16, 0, 4, 0), (32, 0, 5, 1), (0, 0, 5, 3), (0, 0, 5, 4), (0, 0, 5, 6), (0, 0, 5, 7),
    (0, 0, 5, 9), (0, 0, 5, 10), (0, 0, 5, 12), (0, 0, 6, 14), (0, 1, 5, 16), (0, 1, 5, 20), (0, 1, 5, 22),
    (0, 2, 5, 28), (0, 3, 5, 32), (0, 4, 5, 48), (32, 6, 5, 64), (0, 7, 5, 128), (0, 8, 6, 256),
    (0, 10, 6, 1024), (0, 12, 6, 4096), (32, 0, 4, 0), (0, 0, 4, 1), (0, 0, 5, 2), (32, 0, 5, 4),
    (0, 0, 5, 5), (32, 0, 5, 7), (0, 0, 5, 8), (32, 0, 5, 10), (0, 0, 5, 11), (0, 0, 6, 13),
    (32, 1, 5, 16), (0, 1, 5, 18), (32, 1, 5, 22), (0, 2, 5, 24), (32, 3, 5, 32), (0, 3, 5, 40),
    (0, 6, 4, 64), (16, 6, 4, 64), (32, 7, 5, 128), (0, 9, 6, 512), (0, 11, 6, 2048), (48, 0, 4, 0),
    (16, 0, 4, 1), (32, 0, 5, 2), (32, 0, 5, 3), (32, 0, 5, 5), (32, 0, 5, 6), (32, 0, 5, 8),
    (32, 0, 5, 9), (32, 0, 5, 11), (32, 0, 5, 12), (0, 0, 6, 15), (32, 1, 5, 18), (32, 1, 5, 20),
    (32, 2, 5, 24), (32, 2, 5, 28), (32, 3, 5, 40), (32, 4, 5, 48), (0, 16, 6, 65536), (0, 15, 6, 32768),
    (0, 14, 6, 16384), (0, 13, 6, 8192)]\<rparr>"

definition OF_defaultDTable :: ZSTD_seqTable where
  "OF_defaultDTable =
   \<lparr>sq_fastMode = True, sq_tableLog = OF_DEFAULTNORMLOG, sq_cells = seq_cells [
    (0, 0, 5, 0), (0, 6, 4, 61), (0, 9, 5, 509), (0, 15, 5, 32765), (0, 21, 5, 2097149), (0, 3, 5, 5),
    (0, 7, 4, 125), (0, 12, 5, 4093), (0, 18, 5, 262141), (0, 23, 5, 8388605), (0, 5, 5, 29),
    (0, 8, 4, 253), (0, 14, 5, 16381), (0, 20, 5, 1048573), (0, 2, 5, 1), (16, 7, 4, 125),
    (0, 11, 5, 2045), (0, 17, 5, 131069), (0, 22, 5, 4194301), (0, 4, 5, 13), (16, 8, 4, 253),
    (0, 13, 5, 8189), (0, 19, 5, 524285), (0, 1, 5, 1), (16, 6, 4, 61), (0, 10, 5, 1021),
    (0, 16, 5, 65533), (0, 28, 5, 268435453), (0, 27, 5, 134217725), (0, 26, 5, 67108861),
    (0, 25, 5, 33554429), (0, 24, 5, 16777213)]\<rparr>"

definition ML_defaultDTable :: ZSTD_seqTable where
  "ML_defaultDTable =
   \<lparr>sq_fastMode = True, sq_tableLog = ML_DEFAULTNORMLOG, sq_cells = seq_cells [
    (0, 0, 6, 3), (0, 0, 4, 4), (32, 0, 5, 5), (0, 0, 5, 6), (0, 0, 5, 8), (0, 0, 5, 9), (0, 0, 5, 11),
    (0, 0, 6, 13), (0, 0, 6, 16), (0, 0, 6, 19), (0, 0, 6, 22), (0, 0, 6, 25), (0, 0, 6, 28),
    (0, 0, 6, 31), (0, 0, 6, 34), (0, 1, 6, 37), (0, 1, 6, 41), (0, 2, 6, 47), (0, 3, 6, 59),
    (0, 4, 6, 83), (0, 7, 6, 131), (0, 9, 6, 515), (16, 0, 4, 4), (0, 0, 4, 5), (32, 0, 5, 6),
    (0, 0, 5, 7), (32, 0, 5, 9), (0, 0, 5, 10), (0, 0, 6, 12), (0, 0, 6, 15), (0, 0, 6, 18), (0, 0, 6, 21),
    (0, 0, 6, 24), (0, 0, 6, 27), (0, 0, 6, 30), (0, 0, 6, 33), (0, 1, 6, 35), (0, 1, 6, 39),
    (0, 2, 6, 43), (0, 3, 6, 51), (0, 4, 6, 67), (0, 5, 6, 99), (0, 8, 6, 259), (32, 0, 4, 4),
    (48, 0, 4, 4), (16, 0, 4, 5), (32, 0, 5, 7), (32, 0, 5, 8), (32, 0, 5, 10), (32, 0, 5, 11),
    (0, 0, 6, 14), (0, 0, 6, 17), (0, 0, 6, 20), (0, 0, 6, 23), (0, 0, 6, 26), (0, 0, 6, 29),
    (0, 0, 6, 32), (0, 16, 6, 65539), (0, 15, 6, 32771), (0, 14, 6, 16387), (0, 13, 6, 8195),
    (0, 12, 6, 4099), (0, 11, 6, 2051), (0, 10, 6, 1027)]\<rparr>"

subsection \<open>Construction\<close>

definition ZSTD_buildSeqTable_rle :: "ZSTD_seqTable \<Rightarrow> nat \<Rightarrow> nat \<Rightarrow> ZSTD_seqTable" where
  "ZSTD_buildSeqTable_rle dt baseVal nbAddBits =
     dt\<lparr>sq_tableLog := 0, sq_fastMode := False,
        sq_cells := (sq_cells dt)[0 := \<lparr>nextState = 0, nbAdditionalBits = nbAddBits, sq_nbBits = 0, baseValue = baseVal\<rparr>]\<rparr>"

text \<open>While the table is built, a cell notes its symbol in the field for the base value.\<close>

definition put_base :: "nat \<Rightarrow> nat \<Rightarrow> ZSTD_seqSymbol list \<Rightarrow> ZSTD_seqSymbol list" where
  "put_base p s table = table[p := (table ! p)\<lparr>baseValue := s\<rparr>]"

definition seq_build_one ::
  "nat \<Rightarrow> nat list \<Rightarrow> nat list \<Rightarrow> nat \<Rightarrow> ZSTD_seqSymbol list \<times> nat list \<Rightarrow> ZSTD_seqSymbol list \<times> nat list" where
  "seq_build_one tableLog base addBits u st =
     (let (table, symbolNext) = st;
          s = baseValue (table ! u);
          nx = symbolNext ! s;
          nb = sub32 tableLog (ZSTD_highbit32 (of_nat nx)) mod 2 ^ 8
      in (table[u := \<lparr>nextState = sub32 (nx * 2 ^ nb mod 2 ^ 32) (2 ^ tableLog) mod 2 ^ 16,
                      nbAdditionalBits = addBits ! s, sq_nbBits = nb, baseValue = base ! s\<rparr>],
          symbolNext[s := (nx + 1) mod 2 ^ 16]))"

definition ZSTD_BUILD_FSE_TABLE_WKSP_SIZE :: nat where
  "ZSTD_BUILD_FSE_TABLE_WKSP_SIZE = 2 * (MaxSeq + 1) + 2 ^ MaxFSELog + 8"

definition ZSTD_buildFSETable_body ::
  "endian \<Rightarrow> ZSTD_seqTable \<Rightarrow> int list \<Rightarrow> nat \<Rightarrow> nat list \<Rightarrow> nat list \<Rightarrow> nat \<Rightarrow> buffer \<Rightarrow> ZSTD_seqTable" where
  "ZSTD_buildFSETable_body e dt normalizedCounter maxSymbolValue base addBits tableLog wksp =
     (let maxSV1 = maxSymbolValue + 1;
          tableSize = 2 ^ tableLog;
          norm = take maxSV1 normalizedCounter;
          spread = drop (2 * (MaxSeq + 1)) wksp;
          ((table, highThreshold), symbolNext, fastMode) =
            fold (dt_init_one put_base norm (2 ^ (tableLog - 1))) [0..<maxSV1]
              ((sq_cells dt, tableSize - 1), replicate maxSV1 0, True);
          (table, position) = spread_symbols put_base e norm tableSize highThreshold spread table;
          (table, symbolNext) = fold (seq_build_one tableLog base addBits) [0..<tableSize] (table, symbolNext)
      in \<lparr>sq_fastMode = fastMode, sq_tableLog = tableLog, sq_cells = table\<rparr>)"

definition ZSTD_buildFSETable ::
  "endian \<Rightarrow> ZSTD_seqTable \<Rightarrow> int list \<Rightarrow> nat \<Rightarrow> nat list \<Rightarrow> nat list \<Rightarrow> nat \<Rightarrow> buffer \<Rightarrow> ZSTD_seqTable" where
  "ZSTD_buildFSETable e dt normalizedCounter maxSymbolValue base addBits tableLog wksp =
     ZSTD_buildFSETable_body e dt normalizedCounter maxSymbolValue base addBits tableLog wksp"

subsection \<open>The header of the sequences section\<close>

datatype SymbolEncodingType_e = set_basic | set_rle | set_compressed | set_repeat

definition SymbolEncodingType_of :: "nat \<Rightarrow> SymbolEncodingType_e" where
  "SymbolEncodingType_of n =
     (if n = 0 then set_basic else if n = 1 then set_rle else if n = 2 then set_compressed else set_repeat)"

text \<open>The result: the bytes read, the table space, and the table in use afterwards.\<close>

definition ZSTD_buildSeqTable ::
  "ZSTD_seqTable \<Rightarrow> ZSTD_seqTable \<Rightarrow> SymbolEncodingType_e \<Rightarrow> nat \<Rightarrow> nat \<Rightarrow> buffer \<Rightarrow> nat list \<Rightarrow> nat list
    \<Rightarrow> ZSTD_seqTable \<Rightarrow> bool \<Rightarrow> buffer \<Rightarrow> ZSTD_ErrorCode + nat \<times> ZSTD_seqTable \<times> ZSTD_seqTable" where
  "ZSTD_buildSeqTable space current type maxSV maxLog src base addBits defaultTable flagRepeatTable wksp =
     (case type of
        set_rle \<Rightarrow>
          if length src = 0 then Inl ZSTD_error_srcSize_wrong
          else if unat (src ! 0) > maxSV then Inl ZSTD_error_corruption_detected
          else let s = unat (src ! 0); space = ZSTD_buildSeqTable_rle space (base ! s) (addBits ! s)
               in Inr (1, space, space)
      | set_basic \<Rightarrow> Inr (0, space, defaultTable)
      | set_repeat \<Rightarrow>
          if \<not> flagRepeatTable then Inl ZSTD_error_corruption_detected else Inr (0, space, current)
      | set_compressed \<Rightarrow>
          (case FSE_readNCount maxSV src of
             Inl e \<Rightarrow> Inl ZSTD_error_corruption_detected
           | Inr (headerSize, norm, maxSV, tableLog) \<Rightarrow>
               if tableLog > maxLog then Inl ZSTD_error_corruption_detected
               else let space = ZSTD_buildFSETable LittleEndian space norm maxSV base addBits tableLog wksp
                    in Inr (headerSize, space, space)))"

text \<open>
  What \<open>ZSTD_DCtx\<close> and its \<open>entropy\<close> member hold for sequences: the space of the three tables, the
  tables in use (the space, a predefined table or that of a dictionary), whether they may be
  repeated, the recent offsets and the work space.
\<close>

record ZSTD_seqEntropy =
  LLTable :: ZSTD_seqTable
  OFTable :: ZSTD_seqTable
  MLTable :: ZSTD_seqTable
  LLTptr :: ZSTD_seqTable
  OFTptr :: ZSTD_seqTable
  MLTptr :: ZSTD_seqTable
  fseEntropy :: bool
  sq_rep :: "nat list"
  sq_workspace :: buffer

text \<open>The number of sequences, and the offset after it.\<close>

definition decode_nbSeq :: "buffer \<Rightarrow> ZSTD_ErrorCode + nat \<times> nat" where
  "decode_nbSeq src =
     (let nbSeq = unat (src ! 0)
      in if nbSeq > 0x7F
         then if nbSeq = 0xFF
              then if 1 + 2 > length src then Inl ZSTD_error_srcSize_wrong
                   else Inr (unat (MEM_readLE16 LittleEndian src 1) + LONGNBSEQ, 3)
              else if 1 \<ge> length src then Inl ZSTD_error_srcSize_wrong
                   else Inr ((nbSeq - 0x80) * 2 ^ 8 + unat (src ! 1), 2)
         else Inr (nbSeq, 1))"

text \<open>An error of a table is reported as corruption.\<close>

definition table_error :: "ZSTD_ErrorCode + 'a \<Rightarrow> ZSTD_ErrorCode + 'a" where
  "table_error r = (case r of Inl e \<Rightarrow> Inl ZSTD_error_corruption_detected | Inr x \<Rightarrow> Inr x)"

text \<open>The result: the number of sequences, the bytes read and the tables.\<close>

definition ZSTD_decodeSeqHeaders ::
  "ZSTD_seqEntropy \<Rightarrow> buffer \<Rightarrow> ZSTD_ErrorCode + nat \<times> nat \<times> ZSTD_seqEntropy" where
  "ZSTD_decodeSeqHeaders en src =
     (if length src < MIN_SEQUENCES_SIZE then Inl ZSTD_error_srcSize_wrong
      else bindE (decode_nbSeq src) (\<lambda>(nbSeq, ip).
        if nbSeq = 0
        then if ip \<noteq> length src then Inl ZSTD_error_corruption_detected else Inr (nbSeq, ip, en)
        else if ip + 1 > length src then Inl ZSTD_error_srcSize_wrong
        else if src ! ip AND 3 \<noteq> 0 then Inl ZSTD_error_corruption_detected
        else
          let LLtype = SymbolEncodingType_of (unat (drop_bit 6 (src ! ip)));
              OFtype = SymbolEncodingType_of (unat (drop_bit 4 (src ! ip) AND 3));
              MLtype = SymbolEncodingType_of (unat (drop_bit 2 (src ! ip) AND 3));
              ip = ip + 1
          in bindE (table_error (ZSTD_buildSeqTable (LLTable en) (LLTptr en) LLtype MaxLL LLFSELog (drop ip src)
                      LL_base LL_bits LL_defaultDTable (fseEntropy en) (sq_workspace en))) (\<lambda>(llhSize, space, ptr).
             let en = en\<lparr>LLTable := space, LLTptr := ptr\<rparr>; ip = ip + llhSize
             in bindE (table_error (ZSTD_buildSeqTable (OFTable en) (OFTptr en) OFtype MaxOff OffFSELog (drop ip src)
                         OF_base OF_bits OF_defaultDTable (fseEntropy en) (sq_workspace en))) (\<lambda>(ofhSize, space, ptr).
                let en = en\<lparr>OFTable := space, OFTptr := ptr\<rparr>; ip = ip + ofhSize
                in bindE (table_error (ZSTD_buildSeqTable (MLTable en) (MLTptr en) MLtype MaxML MLFSELog (drop ip src)
                            ML_base ML_bits ML_defaultDTable (fseEntropy en) (sq_workspace en))) (\<lambda>(mlhSize, space, ptr).
                   Inr (nbSeq, ip + mlhSize, en\<lparr>MLTable := space, MLTptr := ptr\<rparr>))))))"

subsection \<open>What the tables hold\<close>

interpretation stab: symbol_table put_base "map baseValue"
  by unfold_locales (simp add: put_base_def map_update)

text \<open>A cell is that of the decoding table of the entropy coder, with the symbol replaced by its
  base value and extra bits.\<close>

definition seq_entry :: "nat list \<Rightarrow> nat list \<Rightarrow> FSE_decode_t \<Rightarrow> ZSTD_seqSymbol" where
  "seq_entry base addBits d =
     \<lparr>nextState = newState d, nbAdditionalBits = addBits ! symbol d, sq_nbBits = nbBits d, baseValue = base ! symbol d\<rparr>"

lemma seq_build_run:
  assumes "normalized tableLog norm"
    and sy: "map baseValue (take (2 ^ tableLog) table) = symtab tableLog norm"
  defines "st \<equiv> symtab tableLog norm"
  shows "u \<le> 2 ^ tableLog \<Longrightarrow>
    fold (seq_build_one tableLog base addBits) [0..<u] (table, map (\<lambda>s. ncount (norm ! s)) [0..<length norm]) =
      (map (\<lambda>v. if v < u then seq_entry base addBits (dentry tableLog norm st v) else table ! v) [0..<length table],
       map (\<lambda>s. ncount (norm ! s) + count_list (take u st) s) [0..<length norm])"
proof (induction u)
  case 0
  then show ?case by (simp add: map_nth)
next
  case (Suc u)
  let ?tb = "\<lambda>u. map (\<lambda>v. if v < u then seq_entry base addBits (dentry tableLog norm st v) else table ! v) [0..<length table]"
    and ?sn = "\<lambda>u. map (\<lambda>s. ncount (norm ! s) + count_list (take u st) s) [0..<length norm]"
  have len: "2 ^ tableLog \<le> length table" using arg_cong[OF sy, of length] by simp
  then have u: "u < length table" "u < length st" using Suc.prems by (auto simp: st_def)
  have su: "baseValue (table ! u) = st ! u"
    using arg_cong[OF sy, of "\<lambda>l. l ! u"] u Suc.prems by (simp add: st_def)
  have sl: "st ! u < length norm" using symtab_less[OF assms(1), of u] Suc.prems by (simp add: st_def)
  have y: "?sn u ! (st ! u) = entry_state norm st u" using sl by (simp add: entry_state_def rank_def)
  have m: "(entry_state norm st u + 1) mod 2 ^ 16 = entry_state norm st u + 1"
    using entry_state_next[OF assms(1), of u] Suc.prems by (simp add: st_def)
  have "(?sn u)[st ! u := entry_state norm st u + 1] = ?sn (Suc u)"
    using u by (intro nth_equalityI) (auto simp: nth_list_update count_take_Suc entry_state_def rank_def)
  moreover have "(?tb u)[u := seq_entry base addBits (dentry tableLog norm st u)] = ?tb (Suc u)"
    using u by (intro nth_equalityI) (auto simp: nth_list_update less_Suc_eq)
  moreover have "?tb u ! u = table ! u" using u by simp
  ultimately have "seq_build_one tableLog base addBits u (?tb u, ?sn u) = (?tb (Suc u), ?sn (Suc u))"
    unfolding seq_build_one_def Let_def prod.case by (simp only: su y m) (simp add: seq_entry_def dentry_def Let_def)
  with Suc show ?case by simp
qed

lemma ZSTD_buildFSETable_table:
  fixes base addBits :: "nat list" and e :: endian
  assumes n: "normalized tableLog (take (maxSymbolValue + 1) normalizedCounter)"
    and "maxSymbolValue < length normalizedCounter"
    and "2 * (MaxSeq + 1) + 2 ^ tableLog + 8 \<le> length wksp"
    and "2 ^ tableLog \<le> length (sq_cells dt)"
  defines "norm \<equiv> take (maxSymbolValue + 1) normalizedCounter"
    and "dt' \<equiv> ZSTD_buildFSETable e dt normalizedCounter maxSymbolValue base addBits tableLog wksp"
  shows "sq_tableLog dt' = tableLog" "length (sq_cells dt') = length (sq_cells dt)"
    "sq_fastMode dt' = (\<forall>c\<in>set norm. c < 2 ^ (tableLog - 1))"
    "\<forall>u<2 ^ tableLog. sq_cells dt' ! u = seq_entry base addBits (dentry tableLog norm (symtab tableLog norm) u)"
proof -
  have nn: "normalized tableLog norm" using n by (simp add: norm_def)
  note b = normalized_bounds[OF nn]
  have len: "length norm = maxSymbolValue + 1" using assms(2) by (simp add: norm_def)
  define t where "t = lay put_base (all_cells tableLog norm) (all_symbols norm) (sq_cells dt)"
  define low where "low = fold (low_one put_base norm) [0..<length norm] (sq_cells dt, 2 ^ tableLog - 1)"
  have ini: "fold (dt_init_one put_base norm (2 ^ (tableLog - 1))) [0..<length norm]
       ((sq_cells dt, 2 ^ tableLog - 1), replicate (length norm) 0, True) =
     (low, map (\<lambda>s. ncount (norm ! s)) [0..<length norm], \<forall>s<length norm. norm ! s = -1 \<or> norm ! s < 2 ^ (tableLog - 1))"
    unfolding low_def using b(1) by (subst dt_init_run) auto
  have "2 ^ tableLog + 8 \<le> length (drop (2 * (MaxSeq + 1)) wksp)" using assms(3) by simp
  then have sp: "spread_symbols put_base e norm (2 ^ tableLog) (snd low) (drop (2 * (MaxSeq + 1)) wksp) (fst low) = (t, 0)"
    unfolding t_def low_def by (rule spread_table[OF nn])
  have st: "map baseValue (take (2 ^ tableLog) t) = symtab tableLog norm" "length t = length (sq_cells dt)"
    using stab.sym_table[OF nn, of "sq_cells dt"] assms(4) by (simp_all add: t_def take_map)
  have "dt' = \<lparr>sq_fastMode = (\<forall>s<length norm. norm ! s = -1 \<or> norm ! s < 2 ^ (tableLog - 1)), sq_tableLog = tableLog,
      sq_cells = map (\<lambda>v. if v < 2 ^ tableLog then seq_entry base addBits (dentry tableLog norm (symtab tableLog norm) v)
                          else t ! v) [0..<length t]\<rparr>"
    unfolding dt'_def ZSTD_buildFSETable_def ZSTD_buildFSETable_body_def Let_def norm_def[symmetric]
    using ini[unfolded len] sp seq_build_run[OF nn st(1), of "2 ^ tableLog" base addBits]
    by (cases low) (simp add: len)
  then show "sq_tableLog dt' = tableLog" "length (sq_cells dt') = length (sq_cells dt)"
    "sq_fastMode dt' = (\<forall>c\<in>set norm. c < 2 ^ (tableLog - 1))"
    "\<forall>u<2 ^ tableLog. sq_cells dt' ! u = seq_entry base addBits (dentry tableLog norm (symtab tableLog norm) u)"
    using assms(4) st(2) small_counts[of norm "tableLog - 1"] by simp_all
qed

text \<open>From a cell the next state stays in the table, whatever the bits read.\<close>

lemma dentry_next:
  assumes n: "normalized tableLog norm" and u: "u < 2 ^ tableLog"
  defines "d \<equiv> dentry tableLog norm (symtab tableLog norm) u"
  shows "newState d + 2 ^ nbBits d \<le> 2 ^ tableLog" "nbBits d \<le> tableLog" "symbol d < length norm"
proof -
  let ?y = "entry_state norm (symtab tableLog norm) u"
  note b = normalized_bounds[OF n] and e = entry_bits[OF n u]
  show nb: "nbBits d \<le> tableLog" using e(1) by (simp add: d_def)
  show "symbol d < length norm" using symtab_less[OF n u] by (simp add: d_def dentry_def Let_def)
  have f: "ncount (norm ! (symtab tableLog norm ! u)) \<le> 2 ^ tableLog"
    using b(2) symtab_less[OF n u] by simp
  have y: "1 \<le> ?y" "?y < 2 * 2 ^ tableLog" using e(3,4) f by linarith+
  define h where "h = ZSTD_highbit32 (of_nat ?y)"
  have "2 * 2 ^ tableLog \<le> (8192::nat)" using b(3) by simp
  then have u32: "unat (of_nat ?y :: U32) = ?y" using y(2) by (simp add: unat_of_nat)
  then have "(of_nat ?y :: U32) \<noteq> 0" using y(1) by (metis not_one_le_zero unsigned_0)
  from highbit32_bounds[OF this] have hb: "2 ^ h \<le> ?y" "?y < 2 ^ Suc h" by (auto simp: h_def u32)
  have "(2::nat) ^ h < 2 ^ Suc tableLog" using hb(1) y(2) by simp
  then have hl: "h \<le> tableLog" using power_less_imp_less_exp[of "2::nat" h "Suc tableLog"] by simp
  define nb where "nb = tableLog - h"
  have tl: "h + nb = tableLog" using hl by (simp add: nb_def)
  have p: "2 ^ h * 2 ^ nb = (2::nat) ^ tableLog" using tl by (metis power_add)
  have lo: "2 ^ tableLog \<le> ?y * 2 ^ nb" using mult_right_mono[OF hb(1), of "2 ^ nb"] p by simp
  have "(?y + 1) * 2 ^ nb \<le> 2 ^ Suc h * 2 ^ nb" using hb(2) by (intro mult_right_mono) simp_all
  then have hi: "?y * 2 ^ nb + 2 ^ nb \<le> 2 * 2 ^ tableLog" using p by (simp add: algebra_simps)
  have "?y * 2 ^ nb < ?y * 2 ^ nb + 2 ^ nb" by simp
  with hi have lt: "?y * 2 ^ nb < 2 * 2 ^ tableLog" by linarith
  have d: "nbBits d = nb" "newState d = ?y * 2 ^ nb - 2 ^ tableLog"
    using dentry_spec[OF n, of nb "?y * 2 ^ nb" "symtab tableLog norm" u] lo lt by (simp_all add: nb_def d_def)
  show "newState d + 2 ^ nbBits d \<le> 2 ^ tableLog" unfolding d using lo hi by linarith
qed

text \<open>
  A table in use is well formed: it has all its cells, no state leads out of it, and each cell has
  the base value and the extra bits of a code.
\<close>

definition seq_cell_ok :: "nat \<Rightarrow> nat list \<Rightarrow> nat list \<Rightarrow> ZSTD_seqSymbol \<Rightarrow> bool" where
  "seq_cell_ok tableLog base addBits c \<longleftrightarrow>
     nextState c + 2 ^ sq_nbBits c \<le> 2 ^ tableLog \<and> sq_nbBits c \<le> tableLog
     \<and> list_ex (\<lambda>s. s < length addBits \<and> baseValue c = base ! s \<and> nbAdditionalBits c = addBits ! s) [0..<length base]"

definition seq_table_ok :: "nat \<Rightarrow> nat list \<Rightarrow> nat list \<Rightarrow> ZSTD_seqTable \<Rightarrow> bool" where
  "seq_table_ok maxLog base addBits dt \<longleftrightarrow>
     sq_tableLog dt \<le> maxLog \<and> 2 ^ sq_tableLog dt \<le> length (sq_cells dt)
     \<and> list_all (seq_cell_ok (sq_tableLog dt) base addBits) (take (2 ^ sq_tableLog dt) (sq_cells dt))"

lemma seq_table_okI:
  assumes "sq_tableLog dt \<le> maxLog" "2 ^ sq_tableLog dt \<le> length (sq_cells dt)"
    and "\<And>u. u < 2 ^ sq_tableLog dt \<Longrightarrow> seq_cell_ok (sq_tableLog dt) base addBits (sq_cells dt ! u)"
  shows "seq_table_ok maxLog base addBits dt"
  unfolding seq_table_ok_def using assms by (auto simp: list_all_length)

lemma seq_table_okD:
  assumes "seq_table_ok maxLog base addBits dt" "u < 2 ^ sq_tableLog dt"
  shows "seq_cell_ok (sq_tableLog dt) base addBits (sq_cells dt ! u)"
  using assms by (auto simp: seq_table_ok_def list_all_length)

lemma seq_table_ok_built:
  assumes "normalized tableLog (take (maxSymbolValue + 1) normalizedCounter)"
    and "maxSymbolValue < length normalizedCounter" "maxSymbolValue < length base" "maxSymbolValue < length addBits"
    and "2 * (MaxSeq + 1) + 2 ^ tableLog + 8 \<le> length wksp" "2 ^ tableLog \<le> length (sq_cells dt)" "tableLog \<le> maxLog"
  shows "seq_table_ok maxLog base addBits
    (ZSTD_buildFSETable e dt normalizedCounter maxSymbolValue base addBits tableLog wksp)" (is "seq_table_ok _ _ _ ?dt")
proof (rule seq_table_okI)
  note t = ZSTD_buildFSETable_table[OF assms(1,2,5,6), of e base addBits]
  show "sq_tableLog ?dt \<le> maxLog" "2 ^ sq_tableLog ?dt \<le> length (sq_cells ?dt)" using t assms(6,7) by simp_all
  fix u :: nat
  assume "u < 2 ^ sq_tableLog ?dt"
  then have u: "u < 2 ^ tableLog" using t(1) by simp
  let ?norm = "take (maxSymbolValue + 1) normalizedCounter"
  define d where "d = dentry tableLog ?norm (symtab tableLog ?norm) u"
  have d: "newState d + 2 ^ nbBits d \<le> 2 ^ tableLog" "nbBits d \<le> tableLog" "symbol d < length ?norm"
    unfolding d_def by (rule dentry_next[OF assms(1) u])+
  moreover have "symbol d < length base" "symbol d < length addBits" using d(3) assms(2-4) by auto
  moreover have "sq_cells ?dt ! u = seq_entry base addBits d" using t(4) u by (simp only: d_def)
  ultimately show "seq_cell_ok (sq_tableLog ?dt) base addBits (sq_cells ?dt ! u)"
    unfolding t(1) by (auto simp: seq_cell_ok_def seq_entry_def list_ex_iff)
qed

subsection \<open>The predefined tables\<close>

lemmas seq_constants [tbl_defs] =
  MaxLL_def MaxML_def MaxOff_def DefaultMaxOff_def MaxSeq_def LLFSELog_def MLFSELog_def OffFSELog_def MaxFSELog_def
  LL_DEFAULTNORMLOG_def ML_DEFAULTNORMLOG_def OF_DEFAULTNORMLOG_def

text \<open>The cells which the construction gives, as a computation on the distribution alone.\<close>

definition seq_spec :: "nat list \<Rightarrow> nat list \<Rightarrow> nat \<Rightarrow> int list \<Rightarrow> ZSTD_seqSymbol list" where
  "seq_spec base addBits tableLog norm =
     map (\<lambda>u. seq_entry base addBits (dentry tableLog norm (symtab tableLog norm) u)) [0..<2 ^ tableLog]"

definition seq_cell_of :: "nat list \<Rightarrow> nat list \<Rightarrow> nat \<Rightarrow> nat \<times> nat \<Rightarrow> ZSTD_seqSymbol" where
  "seq_cell_of base addBits tableLog =
     (\<lambda>(s, y). let nb = sub32 tableLog (ZSTD_highbit32 (of_nat y)) mod 2 ^ 8
               in \<lparr>nextState = sub32 (y * 2 ^ nb mod 2 ^ 32) (2 ^ tableLog) mod 2 ^ 16,
                   nbAdditionalBits = addBits ! s, sq_nbBits = nb, baseValue = base ! s\<rparr>)"

lemma seq_spec_cells:
  "seq_spec base addBits tableLog norm =
     map (seq_cell_of base addBits tableLog)
       (zip (symtab tableLog norm) (map (entry_state norm (symtab tableLog norm)) [0..<2 ^ tableLog]))"
  by (rule nth_equalityI) (simp_all add: seq_spec_def seq_cell_of_def seq_entry_def dentry_def Let_def)

lemma symtab_eqI:
  assumes n: "normalized tableLog norm" and len: "length st = 2 ^ tableLog"
    and al: "list_all (\<lambda>(p, s). st ! p = s) (zip (all_cells tableLog norm) (all_symbols norm))"
  shows "symtab tableLog norm = st"
proof (rule nth_equalityI)
  fix u
  assume "u < length (symtab tableLog norm)"
  then have u: "u < 2 ^ tableLog" by simp
  note l = normalized_lengths[OF n] and c = all_cells_perm[OF n]
  from u c(2) obtain i where i: "i < length (all_cells tableLog norm)" "all_cells tableLog norm ! i = u"
    by (metis atLeastLessThan_iff in_set_conv_nth le0)
  then have "map_of (zip (all_cells tableLog norm) (all_symbols norm)) u = Some (all_symbols norm ! i)"
    using c(1) l(2,3) by (metis map_of_zip_nth)
  moreover have "st ! u = all_symbols norm ! i" using al i l(2,3) by (auto simp: list_all_length)
  ultimately show "symtab tableLog norm ! u = st ! u" using u by (simp add: symtab_def)
qed (simp add: len)

lemma LL_normalized: "normalized 6 LL_defaultNorm"
  by code_simp

lemma OF_normalized: "normalized 5 OF_defaultNorm"
  by code_simp

lemma ML_normalized: "normalized 6 ML_defaultNorm"
  by code_simp

lemma LL_symtab:
  "symtab 6 LL_defaultNorm =
    [0, 0, 1, 3, 4, 6, 7, 9, 10, 12, 14, 16, 18, 19, 21, 22, 24, 25, 26, 27, 29, 31, 0, 1,
     2, 4, 5, 7, 8, 10, 11, 13, 16, 17, 19, 20, 22, 23, 25, 25, 26, 28, 30, 0, 1, 2, 3, 5,
     6, 8, 9, 11, 12, 15, 17, 18, 20, 21, 23, 24, 35, 34, 33, 32]"
  by (rule symtab_eqI[OF LL_normalized]) (code_simp+)

lemma LL_states:
  "map (entry_state LL_defaultNorm (symtab 6 LL_defaultNorm)) [0..<2 ^ 6] =
    [4, 5, 3, 2, 2, 2, 2, 2, 2, 2, 1, 2, 2, 2, 2, 2, 2, 3, 2, 1, 1, 1, 6, 4,
     2, 3, 2, 3, 2, 3, 2, 1, 3, 2, 3, 2, 3, 2, 4, 5, 3, 1, 1, 7, 5, 3, 3, 3,
     3, 3, 3, 3, 3, 1, 3, 3, 3, 3, 3, 3, 1, 1, 1, 1]"
  unfolding LL_symtab by code_simp

lemma OF_symtab:
  "symtab 5 OF_defaultNorm =
    [0, 6, 9, 15, 21, 3, 7, 12, 18, 23, 5, 8, 14, 20, 2, 7, 11, 17, 22, 4, 8, 13, 19, 1,
     6, 10, 16, 28, 27, 26, 25, 24]"
  by (rule symtab_eqI[OF OF_normalized]) (code_simp+)

lemma OF_states:
  "map (entry_state OF_defaultNorm (symtab 5 OF_defaultNorm)) [0..<2 ^ 5] =
    [1, 2, 1, 1, 1, 1, 2, 1, 1, 1, 1, 2, 1, 1, 1, 3, 1, 1, 1, 1, 3, 1, 1, 1,
     3, 1, 1, 1, 1, 1, 1, 1]"
  unfolding OF_symtab by code_simp

lemma ML_symtab:
  "symtab 6 ML_defaultNorm =
    [0, 1, 2, 3, 5, 6, 8, 10, 13, 16, 19, 22, 25, 28, 31, 33, 35, 37, 39, 41, 43, 45, 1, 2,
     3, 4, 6, 7, 9, 12, 15, 18, 21, 24, 27, 30, 32, 34, 36, 38, 40, 42, 44, 1, 1, 2, 4, 5,
     7, 8, 11, 14, 17, 20, 23, 26, 29, 52, 51, 50, 49, 48, 47, 46]"
  by (rule symtab_eqI[OF ML_normalized]) (code_simp+)

lemma ML_states:
  "map (entry_state ML_defaultNorm (symtab 6 ML_defaultNorm)) [0..<2 ^ 6] =
    [1, 4, 3, 2, 2, 2, 2, 1, 1, 1, 1, 1, 1, 1, 1, 1, 1, 1, 1, 1, 1, 1, 5, 4,
     3, 2, 3, 2, 1, 1, 1, 1, 1, 1, 1, 1, 1, 1, 1, 1, 1, 1, 1, 6, 7, 5, 3, 3,
     3, 3, 1, 1, 1, 1, 1, 1, 1, 1, 1, 1, 1, 1, 1, 1]"
  unfolding ML_symtab by code_simp

lemma highbit32_small:
  "ZSTD_highbit32 1 = 0" "ZSTD_highbit32 2 = 1" "ZSTD_highbit32 3 = 1" "ZSTD_highbit32 4 = 2"
  "ZSTD_highbit32 5 = 2" "ZSTD_highbit32 6 = 2" "ZSTD_highbit32 7 = 2"
  by (rule highbit32_unique; simp)+

lemmas predefined_eval = seq_cell_of_def seq_cells_def highbit32_small sub32_eq

lemma LL_spec: "seq_spec LL_base LL_bits 6 LL_defaultNorm = sq_cells LL_defaultDTable"
  unfolding seq_spec_cells LL_states unfolding LL_symtab
  by (simp add: predefined_eval LL_base_def LL_bits_def LL_defaultDTable_def)

lemma OF_spec: "seq_spec OF_base OF_bits 5 OF_defaultNorm = sq_cells OF_defaultDTable"
  unfolding seq_spec_cells OF_states unfolding OF_symtab
  by (simp add: predefined_eval OF_base_def OF_bits_def OF_defaultDTable_def)

lemma ML_spec: "seq_spec ML_base ML_bits 6 ML_defaultNorm = sq_cells ML_defaultDTable"
  unfolding seq_spec_cells ML_states unfolding ML_symtab
  by (simp add: predefined_eval ML_base_def ML_bits_def ML_defaultDTable_def)

text \<open>The part of a table which decoding looks at.\<close>

definition used_part :: "ZSTD_seqTable \<Rightarrow> ZSTD_seqTable" where
  "used_part dt = dt\<lparr>sq_cells := take (2 ^ sq_tableLog dt) (sq_cells dt)\<rparr>"

lemma used_part_built:
  assumes n: "normalized tableLog norm" and "length norm = Suc maxSymbolValue"
    and "2 * (MaxSeq + 1) + 2 ^ tableLog + 8 \<le> length wksp" "2 ^ tableLog \<le> length (sq_cells dt)"
  shows "used_part (ZSTD_buildFSETable e dt norm maxSymbolValue base addBits tableLog wksp) =
    \<lparr>sq_fastMode = (\<forall>c\<in>set norm. c < 2 ^ (tableLog - 1)), sq_tableLog = tableLog,
     sq_cells = seq_spec base addBits tableLog norm\<rparr>"
proof -
  have n': "normalized tableLog (take (maxSymbolValue + 1) norm)" "maxSymbolValue < length norm"
    using assms(1,2) by simp_all
  note t = ZSTD_buildFSETable_table[OF n' assms(3,4), of e base addBits]
  let ?dt = "ZSTD_buildFSETable e dt norm maxSymbolValue base addBits tableLog wksp"
  have tk: "take (maxSymbolValue + 1) norm = norm" using assms(2) by simp
  have "take (2 ^ tableLog) (sq_cells ?dt) = seq_spec base addBits tableLog norm"
    using t(2,4) assms(4) unfolding tk by (intro nth_equalityI) (simp_all add: seq_spec_def)
  then show ?thesis using t(1,3) unfolding tk by (simp add: used_part_def)
qed

lemma wksp_room:
  assumes "ZSTD_BUILD_FSE_TABLE_WKSP_SIZE \<le> length wksp" "tableLog \<le> 9"
  shows "2 * (MaxSeq + 1) + 2 ^ tableLog + 8 \<le> length wksp"
proof -
  have "(2::nat) ^ tableLog \<le> 2 ^ 9" using assms(2) by (rule power_increasing) simp
  then show ?thesis using assms(1)
    by (simp add: ZSTD_BUILD_FSE_TABLE_WKSP_SIZE_def MaxFSELog_def MLFSELog_def LLFSELog_def OffFSELog_def)
qed

lemma LL_predefined:
  assumes "ZSTD_BUILD_FSE_TABLE_WKSP_SIZE \<le> length wksp" "64 \<le> length (sq_cells dt)"
  shows "used_part (ZSTD_buildFSETable e dt LL_defaultNorm MaxLL LL_base LL_bits LL_DEFAULTNORMLOG wksp) = LL_defaultDTable"
  using wksp_room[OF assms(1), of 6] assms(2) unfolding seq_constants
  by (subst used_part_built[OF LL_normalized])
    (simp_all add: LL_spec, simp_all add: LL_defaultNorm_def LL_defaultDTable_def seq_constants)

lemma OF_predefined:
  assumes "ZSTD_BUILD_FSE_TABLE_WKSP_SIZE \<le> length wksp" "32 \<le> length (sq_cells dt)"
  shows "used_part (ZSTD_buildFSETable e dt OF_defaultNorm DefaultMaxOff OF_base OF_bits OF_DEFAULTNORMLOG wksp) = OF_defaultDTable"
  using wksp_room[OF assms(1), of 5] assms(2) unfolding seq_constants
  by (subst used_part_built[OF OF_normalized])
    (simp_all add: OF_spec, simp_all add: OF_defaultNorm_def OF_defaultDTable_def seq_constants)

lemma ML_predefined:
  assumes "ZSTD_BUILD_FSE_TABLE_WKSP_SIZE \<le> length wksp" "64 \<le> length (sq_cells dt)"
  shows "used_part (ZSTD_buildFSETable e dt ML_defaultNorm MaxML ML_base ML_bits ML_DEFAULTNORMLOG wksp) = ML_defaultDTable"
  using wksp_room[OF assms(1), of 6] assms(2) unfolding seq_constants
  by (subst used_part_built[OF ML_normalized])
    (simp_all add: ML_spec, simp_all add: ML_defaultNorm_def ML_defaultDTable_def seq_constants)

text \<open>
  Property C20: the predefined tables, which the source gives as constants, are what
  \<open>ZSTD_buildFSETable\<close> computes from the default distributions of the format, whatever the table
  memory and the work space held and on machines of either byte order.\<close>

theorem predefined_tables_are_built:
  assumes "ZSTD_BUILD_FSE_TABLE_WKSP_SIZE \<le> length wksp" "64 \<le> length (sq_cells dt)"
  shows "used_part (ZSTD_buildFSETable e dt LL_defaultNorm MaxLL LL_base LL_bits LL_DEFAULTNORMLOG wksp) = LL_defaultDTable
    \<and> used_part (ZSTD_buildFSETable e dt OF_defaultNorm DefaultMaxOff OF_base OF_bits OF_DEFAULTNORMLOG wksp) = OF_defaultDTable
    \<and> used_part (ZSTD_buildFSETable e dt ML_defaultNorm MaxML ML_base ML_bits ML_DEFAULTNORMLOG wksp) = ML_defaultDTable"
  using LL_predefined[OF assms] OF_predefined[OF assms(1), of dt] ML_predefined[OF assms] assms(2) by simp

theorem predefined_tables_are_built_witness:
  "used_part (ZSTD_buildFSETable BigEndian
      \<lparr>sq_fastMode = False, sq_tableLog = 0,
       sq_cells = replicate 64 \<lparr>nextState = 0, nbAdditionalBits = 0, sq_nbBits = 0, baseValue = 0\<rparr>\<rparr>
      LL_defaultNorm MaxLL LL_base LL_bits LL_DEFAULTNORMLOG (replicate ZSTD_BUILD_FSE_TABLE_WKSP_SIZE 0)) = LL_defaultDTable"
  by (rule predefined_tables_are_built[THEN conjunct1]) simp_all

subsection \<open>Accepted headers give well-formed tables\<close>

lemma seq_table_ok_used_part: "seq_table_ok maxLog base addBits dt \<Longrightarrow> seq_table_ok maxLog base addBits (used_part dt)"
  by (simp add: seq_table_ok_def used_part_def)

lemma seq_lengths:
  "length LL_base = 36" "length LL_bits = 36" "length OF_base = 32" "length OF_bits = 32"
  "length ML_base = 53" "length ML_bits = 53"
  by (simp_all add: LL_base_def LL_bits_def OF_base_def OF_bits_def ML_base_def ML_bits_def)

lemma default_tables_ok:
  "seq_table_ok LLFSELog LL_base LL_bits LL_defaultDTable"
  "seq_table_ok OffFSELog OF_base OF_bits OF_defaultDTable"
  "seq_table_ok MLFSELog ML_base ML_bits ML_defaultDTable"
proof -
  let ?w = "replicate ZSTD_BUILD_FSE_TABLE_WKSP_SIZE 0 :: buffer"
    and ?d = "\<lparr>sq_fastMode = False, sq_tableLog = 0,
       sq_cells = replicate 64 \<lparr>nextState = 0, nbAdditionalBits = 0, sq_nbBits = 0, baseValue = 0\<rparr>\<rparr>"
  have w: "ZSTD_BUILD_FSE_TABLE_WKSP_SIZE \<le> length ?w" and d: "64 \<le> length (sq_cells ?d)" "32 \<le> length (sq_cells ?d)" by simp_all
  have n: "normalized 6 (take (35 + 1) LL_defaultNorm)" "normalized 5 (take (28 + 1) OF_defaultNorm)"
    "normalized 6 (take (52 + 1) ML_defaultNorm)"
    using LL_normalized OF_normalized ML_normalized by (simp_all add: LL_defaultNorm_def OF_defaultNorm_def ML_defaultNorm_def)
  have l: "35 < length LL_defaultNorm" "28 < length OF_defaultNorm" "52 < length ML_defaultNorm"
    by (simp_all add: LL_defaultNorm_def OF_defaultNorm_def ML_defaultNorm_def)
  note r = wksp_room[OF w] and c = seq_constants and sl = seq_lengths
  show "seq_table_ok LLFSELog LL_base LL_bits LL_defaultDTable"
    unfolding LL_predefined[OF w d(1), of LittleEndian, symmetric] unfolding c
    by (rule seq_table_ok_used_part, rule seq_table_ok_built[OF n(1) l(1)]) (use r[of 6] d sl in \<open>simp_all add: c\<close>)
  show "seq_table_ok OffFSELog OF_base OF_bits OF_defaultDTable"
    unfolding OF_predefined[OF w d(2), of LittleEndian, symmetric] unfolding c
    by (rule seq_table_ok_used_part, rule seq_table_ok_built[OF n(2) l(2)]) (use r[of 5] d sl in \<open>simp_all add: c\<close>)
  show "seq_table_ok MLFSELog ML_base ML_bits ML_defaultDTable"
    unfolding ML_predefined[OF w d(1), of LittleEndian, symmetric] unfolding c
    by (rule seq_table_ok_used_part, rule seq_table_ok_built[OF n(3) l(3)]) (use r[of 6] d sl in \<open>simp_all add: c\<close>)
qed

lemma rle_table_ok:
  assumes "s < length base" "s < length addBits" "0 < length (sq_cells dt)"
  shows "seq_table_ok maxLog base addBits (ZSTD_buildSeqTable_rle dt (base ! s) (addBits ! s))"
  using assms by (intro seq_table_okI) (auto simp: ZSTD_buildSeqTable_rle_def seq_cell_ok_def list_ex_iff Suc_le_eq)

lemma ZSTD_buildSeqTable_ok:
  assumes r: "ZSTD_buildSeqTable space current type maxSV maxLog src base addBits defaultTable flag wksp
      = Inr (sz, space', current')"
    and "maxSV < length base" "maxSV < length addBits" "maxSV \<le> 255" "maxLog \<le> 9"
    and "2 ^ maxLog \<le> length (sq_cells space)" "ZSTD_BUILD_FSE_TABLE_WKSP_SIZE \<le> length wksp"
    and "seq_table_ok maxLog base addBits defaultTable" "flag \<Longrightarrow> seq_table_ok maxLog base addBits current"
  shows "sz \<le> length src" "length (sq_cells space') = length (sq_cells space)" "seq_table_ok maxLog base addBits current'"
proof -
  have "sz \<le> length src \<and> length (sq_cells space') = length (sq_cells space) \<and> seq_table_ok maxLog base addBits current'"
  proof (cases type)
    case set_basic
    then show ?thesis using r assms(8) by (simp add: ZSTD_buildSeqTable_def)
  next
    case set_rle
    then have "unat (src ! 0) \<le> maxSV" and l: "length src \<noteq> 0"
      and e: "sz = 1" "space' = ZSTD_buildSeqTable_rle space (base ! unat (src ! 0)) (addBits ! unat (src ! 0))" "current' = space'"
      using r by (auto simp: ZSTD_buildSeqTable_def Let_def split: if_splits)
    moreover have "(0::nat) < 2 ^ maxLog" by simp
    then have "0 < length (sq_cells space)" using assms(6) by linarith
    ultimately have "seq_table_ok maxLog base addBits current'" using assms(2,3) by (auto intro!: rle_table_ok)
    then show ?thesis using l e by (auto simp: Suc_le_eq) (simp add: ZSTD_buildSeqTable_rle_def)
  next
    case set_compressed
    then obtain norm maxSV' tableLog where n: "FSE_readNCount maxSV src = Inr (sz, norm, maxSV', tableLog)"
      and tl: "tableLog \<le> maxLog"
      and e: "space' = ZSTD_buildFSETable LittleEndian space norm maxSV' base addBits tableLog wksp" "current' = space'"
      using r by (auto simp: ZSTD_buildSeqTable_def Let_def split: if_splits sum.splits)
    have r': "FSE_readNCount_bmi2 maxSV src = Inr (sz, norm, maxSV', tableLog)" using n by (simp add: FSE_readNCount_def)
    note sp = FSE_readNCount_spec[OF r']
    have tl9: "tableLog \<le> 9" "tableLog \<le> 12" using tl assms(5) by auto
    have nn: "normalized tableLog (take (maxSV' + 1) norm)" by (rule normalized_readNCount[OF r' tl9(2) assms(4)])
    have ln: "maxSV' < length norm" "maxSV' < length base" "maxSV' < length addBits" using sp(2,3) assms(2,3) by auto
    have "(2::nat) ^ tableLog \<le> 2 ^ maxLog" using tl by (rule power_increasing) simp
    then have c: "2 ^ tableLog \<le> length (sq_cells space)" using assms(6) by linarith
    note w = wksp_room[OF assms(7) tl9(1)]
    show ?thesis unfolding e
      using sp(1) ZSTD_buildFSETable_table(2)[OF nn ln(1) w c] seq_table_ok_built[OF nn ln w c tl] by simp
  next
    case set_repeat
    then show ?thesis using r assms(9) by (auto simp: ZSTD_buildSeqTable_def split: if_splits)
  qed
  then show "sz \<le> length src" "length (sq_cells space') = length (sq_cells space)" "seq_table_ok maxLog base addBits current'"
    by auto
qed

text \<open>The room of the tables, and the tables in use once they have been set.\<close>

definition seq_entropy_room :: "ZSTD_seqEntropy \<Rightarrow> bool" where
  "seq_entropy_room en \<longleftrightarrow>
     2 ^ LLFSELog \<le> length (sq_cells (LLTable en)) \<and> 2 ^ OffFSELog \<le> length (sq_cells (OFTable en))
     \<and> 2 ^ MLFSELog \<le> length (sq_cells (MLTable en)) \<and> ZSTD_BUILD_FSE_TABLE_WKSP_SIZE \<le> length (sq_workspace en)"

definition seq_tables_ok :: "ZSTD_seqEntropy \<Rightarrow> bool" where
  "seq_tables_ok en \<longleftrightarrow>
     seq_table_ok LLFSELog LL_base LL_bits (LLTptr en) \<and> seq_table_ok OffFSELog OF_base OF_bits (OFTptr en)
     \<and> seq_table_ok MLFSELog ML_base ML_bits (MLTptr en)"

lemma decode_nbSeq_bounds:
  assumes "decode_nbSeq src = Inr (nbSeq, ip)" "src \<noteq> []"
  shows "ip \<le> length src" "1 \<le> ip" "nbSeq < 2 ^ 16 + LONGNBSEQ"
proof -
  have "unat (MEM_readLE16 LittleEndian src 1) < 2 ^ 16" using unat_less_exp[of "MEM_readLE16 LittleEndian src 1"] by simp
  moreover have "unat (src ! 0) < 256" "unat (src ! 1) < 256" by simp_all
  moreover from this have "(unat (src ! 0) - 0x80) * 256 + unat (src ! 1) < 0x80 * 256 + 256" by linarith
  ultimately show "ip \<le> length src" "1 \<le> ip" "nbSeq < 2 ^ 16 + LONGNBSEQ"
    using assms by (auto simp: decode_nbSeq_def Let_def LONGNBSEQ_def Suc_le_eq split: if_splits)
qed

lemma table_error_Inr [simp]: "table_error r = Inr x \<longleftrightarrow> r = Inr x"
  by (simp add: table_error_def split: sum.splits)

lemma ZSTD_decodeSeqHeaders_cases:
  assumes "ZSTD_decodeSeqHeaders en src = Inr (nbSeq, sz, en')"
  obtains (none) "nbSeq = 0" "sz = length src" "en' = en" "src \<noteq> []" "decode_nbSeq src = Inr (nbSeq, sz)"
  | (some) ip t1 t2 t3 n1 n2 n3 s1 p1 s2 p2 s3 p3 where
      "decode_nbSeq src = Inr (nbSeq, ip)" "0 < nbSeq" "ip < length src"
      "ZSTD_buildSeqTable (LLTable en) (LLTptr en) t1 MaxLL LLFSELog (drop (ip + 1) src)
         LL_base LL_bits LL_defaultDTable (fseEntropy en) (sq_workspace en) = Inr (n1, s1, p1)"
      "ZSTD_buildSeqTable (OFTable en) (OFTptr en) t2 MaxOff OffFSELog (drop (ip + 1 + n1) src)
         OF_base OF_bits OF_defaultDTable (fseEntropy en) (sq_workspace en) = Inr (n2, s2, p2)"
      "ZSTD_buildSeqTable (MLTable en) (MLTptr en) t3 MaxML MLFSELog (drop (ip + 1 + n1 + n2) src)
         ML_base ML_bits ML_defaultDTable (fseEntropy en) (sq_workspace en) = Inr (n3, s3, p3)"
      "sz = ip + 1 + n1 + n2 + n3"
      "en' = en\<lparr>LLTable := s1, LLTptr := p1, OFTable := s2, OFTptr := p2, MLTable := s3, MLTptr := p3\<rparr>"
proof -
  from assms obtain ip where d: "decode_nbSeq src = Inr (nbSeq, ip)" and src: "src \<noteq> []"
    by (auto simp: ZSTD_decodeSeqHeaders_def MIN_SEQUENCES_SIZE_def Let_def split: if_splits)
  show thesis
  proof (cases "nbSeq = 0")
    case True
    then show thesis using assms d src none
      by (auto simp: ZSTD_decodeSeqHeaders_def MIN_SEQUENCES_SIZE_def split: if_splits)
  next
    case False
    then show thesis using assms d src some
      by (auto simp: ZSTD_decodeSeqHeaders_def MIN_SEQUENCES_SIZE_def Let_def split: if_splits)
  qed
qed

text \<open>
  Property C19: whatever the bytes, if the header of a sequences section is accepted, then it ends
  inside the section, the number of sequences is below the format's limit, the recent offsets and
  the room of the tables are kept, and with at least one sequence all three tables in use are
  well formed: decoding a sequence with them cannot leave a table, and its extra bits and base
  values are those of a code.\<close>

theorem seq_headers_sound:
  assumes "ZSTD_decodeSeqHeaders en src = Inr (nbSeq, sz, en')"
    and "seq_entropy_room en" "fseEntropy en \<longrightarrow> seq_tables_ok en"
  shows "sz \<le> length src \<and> nbSeq < 2 ^ 16 + LONGNBSEQ \<and> seq_entropy_room en' \<and> sq_rep en' = sq_rep en
    \<and> (0 < nbSeq \<longrightarrow> seq_tables_ok en') \<and> (nbSeq = 0 \<longrightarrow> sz = length src \<and> en' = en)"
  using assms(1)
proof (cases rule: ZSTD_decodeSeqHeaders_cases)
  case none
  then show ?thesis using assms decode_nbSeq_bounds[OF none(5,4)] by simp
next
  case (some ip t1 t2 t3 n1 n2 n3 s1 p1 s2 p2 s3 p3)
  have src: "src \<noteq> []" using some(3) by auto
  note b = decode_nbSeq_bounds[OF some(1) src] and room = assms(2)[unfolded seq_entropy_room_def]
    and c = seq_constants and sl = seq_lengths
  have t1: "n1 \<le> length (drop (ip + 1) src)" "length (sq_cells s1) = length (sq_cells (LLTable en))"
      "seq_table_ok LLFSELog LL_base LL_bits p1"
    by (rule ZSTD_buildSeqTable_ok[OF some(4)]; use room assms(3) default_tables_ok(1) sl in \<open>simp add: c seq_tables_ok_def\<close>)+
  have t2: "n2 \<le> length (drop (ip + 1 + n1) src)" "length (sq_cells s2) = length (sq_cells (OFTable en))"
      "seq_table_ok OffFSELog OF_base OF_bits p2"
    by (rule ZSTD_buildSeqTable_ok[OF some(5)]; use room assms(3) default_tables_ok(2) sl in \<open>simp add: c seq_tables_ok_def\<close>)+
  have t3: "n3 \<le> length (drop (ip + 1 + n1 + n2) src)" "length (sq_cells s3) = length (sq_cells (MLTable en))"
      "seq_table_ok MLFSELog ML_base ML_bits p3"
    by (rule ZSTD_buildSeqTable_ok[OF some(6)]; use room assms(3) default_tables_ok(3) sl in \<open>simp add: c seq_tables_ok_def\<close>)+
  show ?thesis using some(2,3,7) b(3) t1 t2 t3 room unfolding some(8)
    by (simp add: seq_entropy_room_def seq_tables_ok_def)
qed

definition seq_entropy_example :: ZSTD_seqEntropy where
  "seq_entropy_example =
     (let t = \<lparr>sq_fastMode = False, sq_tableLog = 0,
                sq_cells = replicate 512 \<lparr>nextState = 0, nbAdditionalBits = 0, sq_nbBits = 0, baseValue = 0\<rparr>\<rparr>
      in \<lparr>LLTable = t, OFTable = t, MLTable = t, LLTptr = t, OFTptr = t, MLTptr = t, fseEntropy = False,
          sq_rep = [1, 4, 8], sq_workspace = replicate 630 0\<rparr>)"

lemma seq_entropy_example_room: "seq_entropy_room seq_entropy_example" "\<not> fseEntropy seq_entropy_example"
  by (simp_all add: seq_entropy_example_def Let_def seq_entropy_room_def seq_constants ZSTD_BUILD_FSE_TABLE_WKSP_SIZE_def)

lemma seq_headers_example:
  "\<exists>en'. ZSTD_decodeSeqHeaders seq_entropy_example [1, 0x54, 5, 2, 0] = Inr (1, 5, en')"
  by (simp add: ZSTD_decodeSeqHeaders_def MIN_SEQUENCES_SIZE_def decode_nbSeq_def SymbolEncodingType_of_def
      ZSTD_buildSeqTable_def table_error_def Let_def MaxLL_def MaxOff_def MaxML_def)

theorem seq_headers_sound_witness:
  "\<exists>en'. ZSTD_decodeSeqHeaders seq_entropy_example [1, 0x54, 5, 2, 0] = Inr (1, 5, en') \<and> seq_tables_ok en'"
  using seq_headers_example seq_entropy_example_room
    seq_headers_sound[of seq_entropy_example "[1, 0x54, 5, 2, 0]" 1 5] by fastforce

end
