(* ===== verification/Zstd_ExecSequence.thy ===== *)
theory Zstd_ExecSequence
  imports Zstd_Mem Zstd_Errors
begin

section \<open>Executing a sequence\<close>

text \<open>
  The copying routines of \<^verbatim>\<open>common/zstd_internal.h\<close> (\<open>ZSTD_wildcopy\<close>) and
  \<^verbatim>\<open>decompress/zstd_decompress_block.c\<close> (\<open>ZSTD_overlapCopy8\<close>, \<open>ZSTD_safecopy\<close>,
  \<open>ZSTD_execSequence\<close> and its variants).  They copy literals and matches in chunks that run past
  the end, and spread short offsets so that chunks of a match do not overlap their source.

  Literals, output and dictionary may share one buffer, so that the model has one flat memory in
  which all pointers are offsets; pointers that may lie before it are integers.  The main result
  is that a sequence is executed as the format defines it, byte by byte, whatever the path taken,
  and that nothing outside the room of the output is written.
\<close>

subsection \<open>Copies\<close>

definition WILDCOPY_OVERLENGTH :: nat where "WILDCOPY_OVERLENGTH = 32"

definition WILDCOPY_VECLEN :: nat where "WILDCOPY_VECLEN = 16"

definition ZSTD_memmove :: "buffer \<Rightarrow> nat \<Rightarrow> nat \<Rightarrow> nat \<Rightarrow> buffer" where
  "ZSTD_memmove mem dst src n = write_at mem dst (bytes_at mem src n)"

definition ZSTD_copy4 :: "buffer \<Rightarrow> nat \<Rightarrow> nat \<Rightarrow> buffer" where
  "ZSTD_copy4 mem dst src = ZSTD_memmove mem dst src 4"

definition ZSTD_copy8 :: "buffer \<Rightarrow> nat \<Rightarrow> nat \<Rightarrow> buffer" where
  "ZSTD_copy8 mem dst src = ZSTD_memmove mem dst src 8"

definition ZSTD_copy16 :: "buffer \<Rightarrow> nat \<Rightarrow> nat \<Rightarrow> buffer" where
  "ZSTD_copy16 mem dst src = ZSTD_memmove mem dst src 16"

datatype ZSTD_overlap_e = ZSTD_no_overlap | ZSTD_overlap_src_before_dst

text \<open>The loop \<open>while (op < oend) *op++ = *ip++\<close>, for a number of rounds.\<close>

fun copy_bytes :: "buffer \<Rightarrow> nat \<Rightarrow> nat \<Rightarrow> nat \<Rightarrow> buffer" where
  "copy_bytes mem op ip 0 = mem"
| "copy_bytes mem op ip (Suc n) = copy_bytes (mem[op := mem ! ip]) (op + 1) (ip + 1) n"

text \<open>The two loops of \<open>ZSTD_wildcopy\<close>: \<open>COPY8\<close> once and \<open>COPY16\<close> twice per round.\<close>

function copy8_loop :: "buffer \<Rightarrow> nat \<Rightarrow> nat \<Rightarrow> nat \<Rightarrow> buffer" where
  "copy8_loop mem op ip oend =
     (let mem = ZSTD_copy8 mem op ip; op = op + 8; ip = ip + 8
      in if op < oend then copy8_loop mem op ip oend else mem)"
  by pat_completeness auto
termination by (relation "measure (\<lambda>(mem, op, ip, oend). oend - op)") auto

function copy32_loop :: "buffer \<Rightarrow> nat \<Rightarrow> nat \<Rightarrow> nat \<Rightarrow> buffer" where
  "copy32_loop mem op ip oend =
     (let mem = ZSTD_copy16 mem op ip; op = op + 16; ip = ip + 16;
          mem = ZSTD_copy16 mem op ip; op = op + 16; ip = ip + 16
      in if op < oend then copy32_loop mem op ip oend else mem)"
  by pat_completeness auto
termination by (relation "measure (\<lambda>(mem, op, ip, oend). oend - op)") auto

declare copy8_loop.simps [simp del] copy32_loop.simps [simp del]

definition ZSTD_wildcopy :: "buffer \<Rightarrow> nat \<Rightarrow> nat \<Rightarrow> nat \<Rightarrow> ZSTD_overlap_e \<Rightarrow> buffer" where
  "ZSTD_wildcopy mem dst src len ovtype =
     (let diff = int dst - int src; oend = dst + len
      in if ovtype = ZSTD_overlap_src_before_dst \<and> diff < int WILDCOPY_VECLEN
         then copy8_loop mem dst src oend
         else let mem = ZSTD_copy16 mem dst src
              in if 16 \<ge> len then mem else copy32_loop mem (dst + 16) (src + 16) oend)"

definition dec32table :: "nat list" where "dec32table = [0, 1, 2, 1, 4, 4, 4, 4]"

definition dec64table :: "nat list" where "dec64table = [8, 8, 8, 7, 8, 9, 10, 11]"

text \<open>The result: the memory and both pointers.\<close>

definition ZSTD_overlapCopy8 :: "buffer \<Rightarrow> nat \<Rightarrow> nat \<Rightarrow> nat \<Rightarrow> buffer \<times> nat \<times> nat" where
  "ZSTD_overlapCopy8 mem op ip off =
     (if off < 8
      then let sub2 = dec64table ! off;
               mem = mem[op := mem ! ip];
               mem = mem[op + 1 := mem ! (ip + 1)];
               mem = mem[op + 2 := mem ! (ip + 2)];
               mem = mem[op + 3 := mem ! (ip + 3)];
               ip = ip + dec32table ! off;
               mem = ZSTD_copy4 mem (op + 4) ip
           in (mem, op + 8, ip + 8 - sub2)
      else (ZSTD_copy8 mem op ip, op + 8, ip + 8))"

text \<open>The end \<open>oend_w\<close> of the room for wide copies may lie before the buffer.\<close>

definition ZSTD_safecopy :: "buffer \<Rightarrow> nat \<Rightarrow> int \<Rightarrow> nat \<Rightarrow> nat \<Rightarrow> ZSTD_overlap_e \<Rightarrow> buffer" where
  "ZSTD_safecopy mem op oend_w ip len ovtype =
     (let diff = op - ip; oend = op + len
      in if len < 8 then copy_bytes mem op ip len
         else
           let (mem, op, ip, len) =
                 (if ovtype = ZSTD_overlap_src_before_dst
                  then let (mem, op, ip) = ZSTD_overlapCopy8 mem op ip diff in (mem, op, ip, len - 8)
                  else (mem, op, ip, len))
           in if int oend \<le> oend_w then ZSTD_wildcopy mem op ip len ovtype
              else
                let (mem, op, ip) =
                      (if int op \<le> oend_w
                       then let n = nat (oend_w - int op) in (ZSTD_wildcopy mem op ip n ovtype, op + n, ip + n)
                       else (mem, op, ip))
                in copy_bytes mem op ip (oend - op))"

definition ZSTD_safecopyDstBeforeSrc :: "buffer \<Rightarrow> nat \<Rightarrow> nat \<Rightarrow> nat \<Rightarrow> buffer" where
  "ZSTD_safecopyDstBeforeSrc mem op ip len =
     (let diff = int op - int ip; oend = op + len
      in if len < 8 \<or> diff > -8 then copy_bytes mem op ip len
         else
           let (mem, op, ip) =
                 (if int op \<le> int oend - int WILDCOPY_OVERLENGTH \<and> diff < - int WILDCOPY_VECLEN
                  then let n = oend - WILDCOPY_OVERLENGTH - op
                       in (ZSTD_wildcopy mem op ip n ZSTD_no_overlap, op + n, ip + n)
                  else (mem, op, ip))
           in copy_bytes mem op ip (oend - op))"

subsection \<open>Sequences\<close>

record seq_t =
  litLength :: nat
  matchLength :: nat
  offset :: nat

text \<open>
  The match, once the literals are in place.  The four variants of the function find its source in
  the same way and differ in how they copy the part that lies in the prefix: \<open>copy mem op match
  len\<close>.
\<close>

definition exec_match ::
  "(buffer \<Rightarrow> nat \<Rightarrow> nat \<Rightarrow> nat \<Rightarrow> buffer) \<Rightarrow> buffer \<Rightarrow> nat \<Rightarrow> seq_t \<Rightarrow> nat \<Rightarrow> int \<Rightarrow> nat
    \<Rightarrow> ZSTD_ErrorCode + buffer" where
  "exec_match copy mem oLitEnd sequence prefixStart virtualStart dictEnd =
     (let match = int oLitEnd - int (offset sequence)
      in if offset sequence > oLitEnd - prefixStart
         then if int (offset sequence) > int oLitEnd - virtualStart then Inl ZSTD_error_corruption_detected
              else
                let match = int dictEnd + (match - int prefixStart)
                in if match + int (matchLength sequence) \<le> int dictEnd
                   then Inr (ZSTD_memmove mem oLitEnd (nat match) (matchLength sequence))
                   else
                     let length1 = nat (int dictEnd - match);
                         mem = ZSTD_memmove mem oLitEnd (nat match) length1
                     in Inr (copy mem (oLitEnd + length1) prefixStart (matchLength sequence - length1))
         else Inr (copy mem oLitEnd (nat match) (matchLength sequence)))"

text \<open>The copy of the fast path, which has room to run over the end.\<close>

definition copy_match_fast :: "nat \<Rightarrow> buffer \<Rightarrow> nat \<Rightarrow> nat \<Rightarrow> nat \<Rightarrow> buffer" where
  "copy_match_fast off mem op match len =
     (if off \<ge> WILDCOPY_VECLEN then ZSTD_wildcopy mem op match len ZSTD_no_overlap
      else
        let (mem, op, match) = ZSTD_overlapCopy8 mem op match off
        in if len > 8 then ZSTD_wildcopy mem op match (len - 8) ZSTD_overlap_src_before_dst else mem)"

text \<open>The copy near the end of the buffer.\<close>

definition copy_match_end :: "int \<Rightarrow> buffer \<Rightarrow> nat \<Rightarrow> nat \<Rightarrow> nat \<Rightarrow> buffer" where
  "copy_match_end oend_w mem op match len = ZSTD_safecopy mem op oend_w match len ZSTD_overlap_src_before_dst"

text \<open>The result: the memory, the literals that are left and the number of bytes produced.\<close>

definition ZSTD_execSequenceEnd ::
  "buffer \<Rightarrow> nat \<Rightarrow> nat \<Rightarrow> seq_t \<Rightarrow> nat \<Rightarrow> nat \<Rightarrow> nat \<Rightarrow> int \<Rightarrow> nat \<Rightarrow> ZSTD_ErrorCode + buffer \<times> nat \<times> nat" where
  "ZSTD_execSequenceEnd mem op oend sequence litPtr litLimit prefixStart virtualStart dictEnd =
     (let oLitEnd = op + litLength sequence;
          sequenceLength = litLength sequence + matchLength sequence;
          iLitEnd = litPtr + litLength sequence;
          oend_w = int oend - int WILDCOPY_OVERLENGTH
      in if sequenceLength > oend - op then Inl ZSTD_error_dstSize_tooSmall
         else if litLength sequence > litLimit - litPtr then Inl ZSTD_error_corruption_detected
         else
           let mem = ZSTD_safecopy mem op oend_w litPtr (litLength sequence) ZSTD_no_overlap
           in bindE (exec_match (copy_match_end oend_w) mem oLitEnd sequence prefixStart virtualStart dictEnd)
                (\<lambda>mem. Inr (mem, iLitEnd, sequenceLength)))"

definition ZSTD_execSequenceEndSplitLitBuffer ::
  "buffer \<Rightarrow> nat \<Rightarrow> nat \<Rightarrow> int \<Rightarrow> seq_t \<Rightarrow> nat \<Rightarrow> nat \<Rightarrow> nat \<Rightarrow> int \<Rightarrow> nat \<Rightarrow> ZSTD_ErrorCode + buffer \<times> nat \<times> nat" where
  "ZSTD_execSequenceEndSplitLitBuffer mem op oend oend_w sequence litPtr litLimit prefixStart virtualStart dictEnd =
     (let oLitEnd = op + litLength sequence;
          sequenceLength = litLength sequence + matchLength sequence;
          iLitEnd = litPtr + litLength sequence
      in if sequenceLength > oend - op then Inl ZSTD_error_dstSize_tooSmall
         else if litLength sequence > litLimit - litPtr then Inl ZSTD_error_corruption_detected
         else if op > litPtr \<and> op < litPtr + litLength sequence then Inl ZSTD_error_dstSize_tooSmall
         else
           let mem = ZSTD_safecopyDstBeforeSrc mem op litPtr (litLength sequence)
           in bindE (exec_match (copy_match_end oend_w) mem oLitEnd sequence prefixStart virtualStart dictEnd)
                (\<lambda>mem. Inr (mem, iLitEnd, sequenceLength)))"

text \<open>Both fast paths copy sixteen literals, then the others if there are more.\<close>

definition copy_literals_fast :: "buffer \<Rightarrow> nat \<Rightarrow> nat \<Rightarrow> nat \<Rightarrow> buffer" where
  "copy_literals_fast mem op litPtr len =
     (let mem = ZSTD_copy16 mem op litPtr
      in if len > 16 then ZSTD_wildcopy mem (op + 16) (litPtr + 16) (len - 16) ZSTD_no_overlap else mem)"

definition ZSTD_execSequence ::
  "buffer \<Rightarrow> nat \<Rightarrow> nat \<Rightarrow> seq_t \<Rightarrow> nat \<Rightarrow> nat \<Rightarrow> nat \<Rightarrow> int \<Rightarrow> nat \<Rightarrow> ZSTD_ErrorCode + buffer \<times> nat \<times> nat" where
  "ZSTD_execSequence mem op oend sequence litPtr litLimit prefixStart virtualStart dictEnd =
     (let oLitEnd = op + litLength sequence;
          sequenceLength = litLength sequence + matchLength sequence;
          oMatchEnd = op + sequenceLength;
          oend_w = int oend - int WILDCOPY_OVERLENGTH;
          iLitEnd = litPtr + litLength sequence
      in if iLitEnd > litLimit \<or> int oMatchEnd > oend_w
         then ZSTD_execSequenceEnd mem op oend sequence litPtr litLimit prefixStart virtualStart dictEnd
         else
           let mem = copy_literals_fast mem op litPtr (litLength sequence)
           in bindE (exec_match (copy_match_fast (offset sequence)) mem oLitEnd sequence prefixStart virtualStart dictEnd)
                (\<lambda>mem. Inr (mem, iLitEnd, sequenceLength)))"

definition ZSTD_execSequenceSplitLitBuffer ::
  "buffer \<Rightarrow> nat \<Rightarrow> nat \<Rightarrow> int \<Rightarrow> seq_t \<Rightarrow> nat \<Rightarrow> nat \<Rightarrow> nat \<Rightarrow> int \<Rightarrow> nat \<Rightarrow> ZSTD_ErrorCode + buffer \<times> nat \<times> nat" where
  "ZSTD_execSequenceSplitLitBuffer mem op oend oend_w sequence litPtr litLimit prefixStart virtualStart dictEnd =
     (let oLitEnd = op + litLength sequence;
          sequenceLength = litLength sequence + matchLength sequence;
          oMatchEnd = op + sequenceLength;
          iLitEnd = litPtr + litLength sequence
      in if iLitEnd > litLimit \<or> int oMatchEnd > oend_w
         then ZSTD_execSequenceEndSplitLitBuffer mem op oend oend_w sequence litPtr litLimit prefixStart virtualStart dictEnd
         else
           let mem = copy_literals_fast mem op litPtr (litLength sequence)
           in bindE (exec_match (copy_match_fast (offset sequence)) mem oLitEnd sequence prefixStart virtualStart dictEnd)
                (\<lambda>mem. Inr (mem, iLitEnd, sequenceLength)))"

subsection \<open>Copies byte by byte\<close>

text \<open>The memory is changed between two addresses only.\<close>

definition frame :: "buffer \<Rightarrow> buffer \<Rightarrow> nat \<Rightarrow> nat \<Rightarrow> bool" where
  "frame mem mem' a b \<longleftrightarrow>
     length mem' = length mem \<and> (\<forall>i<length mem. i < a \<or> b \<le> i \<longrightarrow> mem' ! i = mem ! i)"

lemma frame_refl [simp]: "frame mem mem a b"
  by (simp add: frame_def)

lemma frame_trans: "frame mem mem' a b \<Longrightarrow> frame mem' mem'' a b \<Longrightarrow> frame mem mem'' a b"
  by (simp add: frame_def)

lemma frame_mono: "frame mem mem' a b \<Longrightarrow> a' \<le> a \<Longrightarrow> b \<le> b' \<Longrightarrow> frame mem mem' a' b'"
  by (auto simp: frame_def)

lemma frame_length: "frame mem mem' a b \<Longrightarrow> length mem' = length mem"
  by (simp add: frame_def)

lemma frame_nth: "frame mem mem' a b \<Longrightarrow> i < length mem \<Longrightarrow> i < a \<or> b \<le> i \<Longrightarrow> mem' ! i = mem ! i"
  by (auto simp: frame_def)

lemma frame_bytes_at:
  assumes "frame mem mem' a b" "p + n \<le> length mem" "p + n \<le> a \<or> b \<le> p"
  shows "bytes_at mem' p n = bytes_at mem p n"
  using assms by (intro nth_equalityI) (auto simp: frame_def bytes_at_def)

lemma copy_bytes_frame: "frame mem (copy_bytes mem op ip n) op (op + n)"
proof (induction n arbitrary: mem op ip)
  case (Suc n)
  have "frame mem (mem[op := mem ! ip]) op (op + Suc n)" by (simp add: frame_def nth_list_update)
  moreover have "frame (mem[op := mem ! ip]) (copy_bytes (mem[op := mem ! ip]) (op + 1) (ip + 1) n) op (op + Suc n)"
    by (rule frame_mono[OF Suc.IH]) auto
  ultimately show ?case by (simp add: frame_trans[of mem "mem[op := mem ! ip]"])
qed simp

lemma length_copy_bytes [simp]: "length (copy_bytes mem op ip n) = length mem"
  by (rule frame_length[OF copy_bytes_frame])

lemma copy_bytes_add: "copy_bytes mem op ip (m + n) = copy_bytes (copy_bytes mem op ip m) (op + m) (ip + m) n"
  by (induction m arbitrary: mem op ip) simp_all

text \<open>A source before the destination: every byte is the one at the same distance before it.\<close>

lemma copy_bytes_before:
  "ip < op \<Longrightarrow> op + n \<le> length mem \<Longrightarrow> i < n \<Longrightarrow> copy_bytes mem op ip n ! (op + i) = copy_bytes mem op ip n ! (ip + i)"
proof (induction n arbitrary: mem op ip i)
  case (Suc n)
  let ?m = "mem[op := mem ! ip]"
  note f = copy_bytes_frame[of ?m "op + 1" "ip + 1" n]
  show ?case
  proof (cases i)
    case 0
    then show ?thesis using frame_nth[OF f, of op] frame_nth[OF f, of ip] Suc.prems by simp
  next
    case (Suc j)
    then show ?thesis using Suc.IH[of "ip + 1" "op + 1" ?m j] Suc.prems by simp
  qed
qed simp

text \<open>A source that is not overwritten before it is read.\<close>

lemma copy_bytes_apart:
  "op \<le> ip \<or> ip + n \<le> op \<Longrightarrow> op + n \<le> length mem \<Longrightarrow> i < n \<Longrightarrow> copy_bytes mem op ip n ! (op + i) = mem ! (ip + i)"
proof (induction n arbitrary: mem op ip i)
  case (Suc n)
  let ?m = "mem[op := mem ! ip]"
  note f = copy_bytes_frame[of ?m "op + 1" "ip + 1" n]
  show ?case
  proof (cases i)
    case 0
    then show ?thesis using frame_nth[OF f, of op] Suc.prems by simp
  next
    case (Suc j)
    then have "copy_bytes ?m (op + 1) (ip + 1) n ! (op + 1 + j) = ?m ! (ip + 1 + j)"
      using Suc.prems by (intro Suc.IH) auto
    then show ?thesis using Suc Suc.prems by (auto simp: nth_list_update)
  qed
qed simp

text \<open>A chunk is a copy byte by byte unless it overlaps its source from behind.\<close>

lemma memmove_copy_bytes:
  assumes "op \<le> ip \<or> ip + n \<le> op" "op + n \<le> length mem" "ip + n \<le> length mem"
  shows "ZSTD_memmove mem op ip n = copy_bytes mem op ip n"
proof (rule nth_equalityI)
  have l: "length (bytes_at mem ip n) = n" using assms(3) by simp
  then show "length (ZSTD_memmove mem op ip n) = length (copy_bytes mem op ip n)" using assms(2) by (simp add: ZSTD_memmove_def)
  fix i
  assume "i < length (ZSTD_memmove mem op ip n)"
  then have i: "i < length mem" using assms(2) l by (simp add: ZSTD_memmove_def)
  have w: "ZSTD_memmove mem op ip n ! i = (if op \<le> i \<and> i < op + n then bytes_at mem ip n ! (i - op) else mem ! i)"
    using i assms(2) l by (simp add: ZSTD_memmove_def nth_write_at)
  show "ZSTD_memmove mem op ip n ! i = copy_bytes mem op ip n ! i"
  proof (cases "op \<le> i \<and> i < op + n")
    case True
    then have "copy_bytes mem op ip n ! (op + (i - op)) = mem ! (ip + (i - op))"
      using assms(1,2) by (intro copy_bytes_apart) auto
    moreover have "i - op < n" using True by auto
    ultimately show ?thesis using True w assms(3) by (simp add: bytes_at_def)
  next
    case False
    then show ?thesis using frame_nth[OF copy_bytes_frame[of mem op ip n] i] w by auto
  qed
qed

lemma memmove_frame:
  assumes "op + n \<le> length mem" "ip + n \<le> length mem"
  shows "frame mem (ZSTD_memmove mem op ip n) op (op + n)"
    and "i < n \<Longrightarrow> ZSTD_memmove mem op ip n ! (op + i) = mem ! (ip + i)"
  using assms by (auto simp: ZSTD_memmove_def frame_def nth_write_at bytes_at_def)

lemma copy8_loop_bytes:
  "op \<le> oend \<Longrightarrow> oend + 8 \<le> length mem \<Longrightarrow> ip + 8 \<le> op \<Longrightarrow>
    \<exists>n. oend \<le> op + n \<and> op + n \<le> oend + 8 \<and> copy8_loop mem op ip oend = copy_bytes mem op ip n"
proof (induction mem op ip oend rule: copy8_loop.induct)
  case (1 mem op ip oend)
  have c: "ZSTD_copy8 mem op ip = copy_bytes mem op ip 8"
    unfolding ZSTD_copy8_def using "1.prems" by (intro memmove_copy_bytes) auto
  show ?case
  proof (cases "op + 8 < oend")
    case True
    then obtain n where n: "oend \<le> op + 8 + n" "op + 8 + n \<le> oend + 8"
      "copy8_loop (copy_bytes mem op ip 8) (op + 8) (ip + 8) oend = copy_bytes (copy_bytes mem op ip 8) (op + 8) (ip + 8) n"
      using "1.IH"[OF refl refl refl True] "1.prems" unfolding c by auto
    then show ?thesis using True c copy_bytes_add[of mem op ip 8 n]
      by (intro exI[of _ "8 + n"]) (simp add: copy8_loop.simps[of mem] add.assoc)
  next
    case False
    then show ?thesis using "1.prems" c by (intro exI[of _ 8]) (simp add: copy8_loop.simps[of mem])
  qed
qed

lemma copy32_loop_bytes:
  "op \<le> oend \<Longrightarrow> oend + 32 \<le> length mem \<Longrightarrow> ip + (oend - op) + 32 \<le> length mem \<Longrightarrow> op \<le> ip \<or> ip + 16 \<le> op \<Longrightarrow>
    \<exists>n. oend \<le> op + n \<and> op + n \<le> oend + 32 \<and> copy32_loop mem op ip oend = copy_bytes mem op ip n"
proof (induction mem op ip oend rule: copy32_loop.induct)
  case (1 mem op ip oend)
  have c1: "ZSTD_copy16 mem op ip = copy_bytes mem op ip 16"
    unfolding ZSTD_copy16_def using "1.prems" by (intro memmove_copy_bytes) auto
  have c2: "ZSTD_copy16 (copy_bytes mem op ip 16) (op + 16) (ip + 16) = copy_bytes (copy_bytes mem op ip 16) (op + 16) (ip + 16) 16"
    unfolding ZSTD_copy16_def using "1.prems" by (intro memmove_copy_bytes) auto
  have c: "ZSTD_copy16 (ZSTD_copy16 mem op ip) (op + 16) (ip + 16) = copy_bytes mem op ip 32"
    unfolding c1 c2 using copy_bytes_add[of mem op ip 16 16] by simp
  have s: "copy32_loop mem op ip oend = (if op + 32 < oend then copy32_loop (copy_bytes mem op ip 32) (op + 32) (ip + 32) oend
      else copy_bytes mem op ip 32)"
    unfolding copy32_loop.simps[of mem] Let_def c by (simp add: add.assoc)
  show ?case
  proof (cases "op + 32 < oend")
    case True
    have "op + 16 + 16 < oend" using True by simp
    from "1.IH"[OF refl refl refl refl refl refl this] "1.prems" True
    obtain n where n: "oend \<le> op + 32 + n" "op + 32 + n \<le> oend + 32"
      "copy32_loop (copy_bytes mem op ip 32) (op + 32) (ip + 32) oend = copy_bytes (copy_bytes mem op ip 32) (op + 32) (ip + 32) n"
      unfolding c by (auto simp: add.assoc)
    then show ?thesis using True s copy_bytes_add[of mem op ip 32 n]
      by (intro exI[of _ "32 + n"]) (simp add: add.assoc)
  next
    case False
    then show ?thesis using "1.prems" s by (intro exI[of _ 32]) simp
  qed
qed

lemma ZSTD_wildcopy_bytes:
  assumes "op + len + 32 \<le> length mem" "ip + len + 32 \<le> length mem"
    and "ovtype = ZSTD_no_overlap \<Longrightarrow> op \<le> ip \<or> ip + 16 \<le> op"
    and "ovtype = ZSTD_overlap_src_before_dst \<Longrightarrow> ip + 8 \<le> op"
  obtains n where "len \<le> n" "n \<le> len + 32" "ZSTD_wildcopy mem op ip len ovtype = copy_bytes mem op ip n"
proof (cases "ovtype = ZSTD_overlap_src_before_dst \<and> int op - int ip < 16")
  case True
  then obtain n where n: "op + len \<le> op + n" "op + n \<le> op + len + 8" "copy8_loop mem op ip (op + len) = copy_bytes mem op ip n"
    using copy8_loop_bytes[of op "op + len" mem ip] assms by auto
  from n show thesis using True by (intro that[of n]) (auto simp: ZSTD_wildcopy_def WILDCOPY_VECLEN_def)
next
  case False
  then have ap: "op \<le> ip \<or> ip + 16 \<le> op" using assms(3,4) by (cases ovtype) auto
  have c: "ZSTD_copy16 mem op ip = copy_bytes mem op ip 16"
    unfolding ZSTD_copy16_def using assms ap by (intro memmove_copy_bytes) auto
  have w: "ZSTD_wildcopy mem op ip len ovtype =
    (if 16 \<ge> len then copy_bytes mem op ip 16 else copy32_loop (copy_bytes mem op ip 16) (op + 16) (ip + 16) (op + len))"
    using False by (auto simp: ZSTD_wildcopy_def Let_def WILDCOPY_VECLEN_def c)
  show thesis
  proof (cases "len \<le> 16")
    case True
    then show thesis using w by (intro that[of 16]) auto
  next
    case False
    then have pre: "op + 16 \<le> op + len" "op + len + 32 \<le> length (copy_bytes mem op ip 16)"
      "ip + 16 + (op + len - (op + 16)) + 32 \<le> length (copy_bytes mem op ip 16)" "op + 16 \<le> ip + 16 \<or> ip + 16 + 16 \<le> op + 16"
      using assms(1,2) ap by auto
    obtain n where n: "op + len \<le> op + 16 + n" "op + 16 + n \<le> op + len + 32"
      "copy32_loop (copy_bytes mem op ip 16) (op + 16) (ip + 16) (op + len) = copy_bytes (copy_bytes mem op ip 16) (op + 16) (ip + 16) n"
      using copy32_loop_bytes[OF pre] by auto
    then show thesis using w False copy_bytes_add[of mem op ip 16 n] by (intro that[of "16 + n"]) auto
  qed
qed

subsection \<open>Copies of a match\<close>

text \<open>From \<open>op\<close> on, \<open>n\<close> bytes are those at the distance \<open>off\<close> before them.\<close>

definition repeats :: "buffer \<Rightarrow> nat \<Rightarrow> nat \<Rightarrow> nat \<Rightarrow> bool" where
  "repeats mem op off n \<longleftrightarrow> (\<forall>i<n. mem ! (op + i) = mem ! (op + i - off))"

lemma repeatsD: "repeats mem op off n \<Longrightarrow> i < n \<Longrightarrow> mem ! (op + i) = mem ! (op + i - off)"
  by (simp add: repeats_def)

lemma repeats_mono: "repeats mem op off n \<Longrightarrow> m \<le> n \<Longrightarrow> repeats mem op off m"
  by (simp add: repeats_def)

lemma repeats_frame:
  assumes "repeats mem op off n" "frame mem mem' a b" "op + n \<le> a" "op + n \<le> length mem"
  shows "repeats mem' op off n"
  using assms by (auto simp: repeats_def frame_def)

lemma copy_bytes_repeats:
  assumes "1 \<le> off" "off \<le> op" "op + n \<le> length mem"
  shows "repeats (copy_bytes mem op (op - off) n) op off n"
  using copy_bytes_before[of "op - off" op n mem] assms by (auto simp: repeats_def)

lemma repeats_append:
  assumes "repeats mem op off m" "repeats mem (op + m) off n"
  shows "repeats mem op off (m + n)"
proof (unfold repeats_def, intro allI impI)
  fix i
  assume i: "i < m + n"
  show "mem ! (op + i) = mem ! (op + i - off)"
  proof (cases "i < m")
    case False
    then show ?thesis using repeatsD[OF assms(2), of "i - m"] i by simp
  qed (use repeatsD[OF assms(1)] in simp)
qed

text \<open>
  Short offsets: once \<open>k\<close> bytes repeat with the distance \<open>off\<close>, going on with a multiple of the
  distance, as far as the repetition reaches, is the same.
\<close>

lemma repeats_multiple:
  assumes r: "repeats mem op off k" and c: "repeats mem (op + k) d n"
    and d: "off dvd d" "1 \<le> off" "off \<le> d" "d \<le> k + off" "off \<le> op"
  shows "repeats mem op off (k + n)"
proof (unfold repeats_def, intro allI impI)
  fix i
  assume "i < k + n"
  then show "mem ! (op + i) = mem ! (op + i - off)"
  proof (induction i rule: less_induct)
    case (less i)
    show ?case
    proof (cases "i < k")
      case True
      then show ?thesis using repeatsD[OF r] by simp
    next
      case False
      obtain q where q: "d = off * q" using d(1) by blast
      have "mem ! (op + i - off * j) = mem ! (op + i - off)" if "1 \<le> j" "j \<le> q" for j
        using that
      proof (induction j rule: dec_induct)
        case (step j)
        have "off * Suc j \<le> d" unfolding q by (rule mult_le_mono2[OF step.prems])
        then have j: "off * j \<le> k" "off * j + off \<le> d" using d(4) by simp_all
        have j1: "1 \<le> off * j" using step.hyps(1) d(2) by (metis mult_le_mono nat_mult_1)
        have "i - off * j < i" using j1 j(1) False by linarith
        then have "mem ! (op + (i - off * j)) = mem ! (op + (i - off * j) - off)"
          using less.prems by (intro less.IH) auto
        moreover have "op + (i - off * j) = op + i - off * j" "op + (i - off * j) - off = op + i - off * Suc j"
          using j(1) False by simp_all
        ultimately show ?case using step by simp
      qed simp
      moreover have "1 \<le> q" using d(2,3) q by (cases q) auto
      moreover have "mem ! (op + i) = mem ! (op + i - d)"
        using repeatsD[OF c, of "i - k"] False less.prems by simp
      ultimately show ?thesis using q by auto
    qed
  qed
qed

lemma ZSTD_overlapCopy8_repeats:
  assumes "1 \<le> off" "off \<le> op" "op + 8 \<le> length mem"
  obtains mem' d where "ZSTD_overlapCopy8 mem op (op - off) off = (mem', op + 8, op + 8 - d)"
    "8 \<le> d" "off dvd d" "off \<le> d" "d \<le> 8 + off" "frame mem mem' op (op + 8)" "repeats mem' op off 8"
proof (cases "off < 8")
  case True
  define dec where "dec = dec32table ! off"
  define sub where "sub = dec64table ! off"
  have "off \<in> {1, 2, 3, 4, 5, 6, 7}" using True assms(1) by auto
  then have t: "dec \<le> off" "off dvd (off + 4 - dec)" "4 \<le> off + 4 - dec" "off \<le> off + 4 - dec"
    "off dvd (off + sub - dec)" "8 \<le> off + sub - dec" "off \<le> off + sub - dec" "sub \<le> 8 + dec" "off + sub - dec \<le> 8 + off"
    by (auto simp: dec_def sub_def dec32table_def dec64table_def)
  define m1 where "m1 = copy_bytes mem op (op - off) 4"
  define m2 where "m2 = copy_bytes m1 (op + 4) (op - off + dec) 4"
  have c4: "ZSTD_copy4 m1 (op + 4) (op - off + dec) = m2"
    unfolding ZSTD_copy4_def m2_def using t assms by (intro memmove_copy_bytes) (auto simp: m1_def)
  have "m1 = mem[op := mem ! (op - off), op + 1 := mem[op := mem ! (op - off)] ! (op - off + 1),
      op + 2 := (mem[op := mem ! (op - off), op + 1 := mem[op := mem ! (op - off)] ! (op - off + 1)]) ! (op - off + 2),
      op + 3 := (mem[op := mem ! (op - off), op + 1 := mem[op := mem ! (op - off)] ! (op - off + 1),
        op + 2 := (mem[op := mem ! (op - off), op + 1 := mem[op := mem ! (op - off)] ! (op - off + 1)]) ! (op - off + 2)])
        ! (op - off + 3)]"
    by (simp add: m1_def eval_nat_numeral)
  then have o: "ZSTD_overlapCopy8 mem op (op - off) off = (m2, op + 8, op + 8 - (off + sub - dec))"
    unfolding ZSTD_overlapCopy8_def Let_def using True c4 t assms(2)
    by (simp add: dec_def[symmetric] sub_def[symmetric])
  have f2: "frame m1 m2 (op + 4) (op + 4 + 4)" unfolding m2_def by (rule copy_bytes_frame)
  have r1: "repeats m2 op off 4"
    using copy_bytes_repeats[OF assms(1,2), of 4 mem] assms(3)
    by (intro repeats_frame[OF _ f2]) (simp_all add: m1_def)
  have ip: "op + 4 - (off + 4 - dec) = op - off + dec" using t assms(2) by simp
  have r2: "repeats m2 (op + 4) (off + 4 - dec) 4"
    using copy_bytes_repeats[of "off + 4 - dec" "op + 4" 4 m1] t assms unfolding m2_def ip by (simp add: m1_def)
  have "repeats m2 op off (4 + 4)"
    by (rule repeats_multiple[OF r1 r2]) (use t assms in auto)
  moreover have "frame mem m2 op (op + 8)"
    using frame_trans[of mem m1 op "op + 8" m2] frame_mono[OF f2, of op "op + 8"]
      frame_mono[OF copy_bytes_frame[of mem op "op - off" 4], of op "op + 8"] by (simp add: m1_def)
  ultimately show thesis using o t by (intro that[of m2 "off + sub - dec"]) simp_all
next
  case False
  have "ZSTD_copy8 mem op (op - off) = copy_bytes mem op (op - off) 8"
    unfolding ZSTD_copy8_def using False assms by (intro memmove_copy_bytes) auto
  moreover have "op - off + 8 = op + 8 - off" using assms(2) by simp
  ultimately show thesis using False assms copy_bytes_repeats[OF assms(1,2), of 8 mem] copy_bytes_frame[of mem op "op - off" 8]
    by (intro that[of "copy_bytes mem op (op - off) 8" off]) (simp_all add: ZSTD_overlapCopy8_def)
qed

text \<open>
  What a copy of a match within the prefix promises, for matches that end at \<open>lim\<close> at most and
  room for writing up to \<open>room\<close>.
\<close>

locale match_copy =
  fixes copy :: "buffer \<Rightarrow> nat \<Rightarrow> nat \<Rightarrow> nat \<Rightarrow> buffer" and off lim room :: nat
  assumes copy_repeats:
    "\<lbrakk>1 \<le> off; off \<le> op; 1 \<le> len; op + len \<le> lim; room \<le> length mem\<rbrakk> \<Longrightarrow>
       frame mem (copy mem op (op - off) len) op room \<and> repeats (copy mem op (op - off) len) op off len"

lemma wildcopy_repeats:
  assumes "8 \<le> d" "d \<le> op" "op + len + 32 \<le> room" "room \<le> length mem"
    and "ovtype = ZSTD_no_overlap \<Longrightarrow> 16 \<le> d"
  shows "frame mem (ZSTD_wildcopy mem op (op - d) len ovtype) op room"
    and "repeats (ZSTD_wildcopy mem op (op - d) len ovtype) op d len"
proof -
  obtain n where n: "len \<le> n" "n \<le> len + 32" "ZSTD_wildcopy mem op (op - d) len ovtype = copy_bytes mem op (op - d) n"
    by (rule ZSTD_wildcopy_bytes[of op len mem "op - d" ovtype]) (use assms in auto)
  show "frame mem (ZSTD_wildcopy mem op (op - d) len ovtype) op room"
    unfolding n(3) by (rule frame_mono[OF copy_bytes_frame]) (use n(2) assms(3) in auto)
  show "repeats (ZSTD_wildcopy mem op (op - d) len ovtype) op d len"
    unfolding n(3) by (rule repeats_mono[OF copy_bytes_repeats n(1)]) (use n(2) assms in auto)
qed

interpretation fast: match_copy "copy_match_fast off" off "room - 32" room for off room
proof
  fix op len :: nat and mem :: buffer
  assume a: "1 \<le> off" "off \<le> op" "1 \<le> len" "op + len \<le> room - 32" "room \<le> length mem"
  then have room: "op + len + 32 \<le> room" by simp
  show "frame mem (copy_match_fast off mem op (op - off) len) op room
    \<and> repeats (copy_match_fast off mem op (op - off) len) op off len"
  proof (cases "off \<ge> 16")
    case True
    then show ?thesis using wildcopy_repeats[of off op len room mem ZSTD_no_overlap] a room
      by (simp add: copy_match_fast_def WILDCOPY_VECLEN_def)
  next
    case False
    have "op + 8 \<le> length mem" using room a(5) by simp
    from ZSTD_overlapCopy8_repeats[OF a(1,2) this] obtain m d where
      m: "ZSTD_overlapCopy8 mem op (op - off) off = (m, op + 8, op + 8 - d)" "8 \<le> d" "off dvd d" "off \<le> d" "d \<le> 8 + off"
        "frame mem m op (op + 8)" "repeats m op off 8" .
    have f: "frame mem m op room" by (rule frame_mono[OF m(6)]) (use room in auto)
    show ?thesis
    proof (cases "len > 8")
      case True
      define M where "M = ZSTD_wildcopy m (op + 8) (op + 8 - d) (len - 8) ZSTD_overlap_src_before_dst"
      have "room \<le> length m" using frame_length[OF f] a(5) by simp
      then have M: "frame m M (op + 8) room" "repeats M (op + 8) d (len - 8)"
        unfolding M_def using True room m(2,5) a(2) by (intro wildcopy_repeats; simp)+
      have "repeats M op off (8 + (len - 8))"
        by (rule repeats_multiple[OF repeats_frame[OF m(7) M(1)] M(2) m(3) a(1) m(4,5) a(2)])
          (use frame_length[OF f] room a(5) in auto)
      moreover have "frame mem M op room" by (rule frame_trans[OF f frame_mono[OF M(1)]]) auto
      ultimately show ?thesis using True False m(1)
        by (simp add: copy_match_fast_def WILDCOPY_VECLEN_def M_def)
    next
      case l: False
      then show ?thesis using False m(1) f repeats_mono[OF m(7), of len]
        by (simp add: copy_match_fast_def WILDCOPY_VECLEN_def)
    qed
  qed
qed

text \<open>The end of \<open>ZSTD_safecopy\<close>: wide copies as far as there is room for them, then byte by byte.\<close>

definition safecopy_rest :: "buffer \<Rightarrow> nat \<Rightarrow> int \<Rightarrow> nat \<Rightarrow> nat \<Rightarrow> ZSTD_overlap_e \<Rightarrow> buffer" where
  "safecopy_rest mem op oend_w ip len ovtype =
     (if int (op + len) \<le> oend_w then ZSTD_wildcopy mem op ip len ovtype
      else if int op \<le> oend_w
      then let n = nat (oend_w - int op) in copy_bytes (ZSTD_wildcopy mem op ip n ovtype) (op + n) (ip + n) (len - n)
      else copy_bytes mem op ip len)"

lemma ZSTD_safecopy_rest:
  "ZSTD_safecopy mem op oend_w ip len ovtype =
     (if len < 8 then copy_bytes mem op ip len
      else if ovtype = ZSTD_overlap_src_before_dst
      then let (mem, op', ip) = ZSTD_overlapCopy8 mem op ip (op - ip) in safecopy_rest mem op' oend_w ip (len - 8) ovtype
      else safecopy_rest mem op oend_w ip len ovtype)"
proof -
  have 1: "fst (snd (ZSTD_overlapCopy8 mem op ip (op - ip))) = op + 8"
    by (simp add: ZSTD_overlapCopy8_def Let_def)
  obtain m o' i where o: "ZSTD_overlapCopy8 mem op ip (op - ip) = (m, o', i)" by (metis prod_cases3)
  have "o' = op + 8" using 1 o by simp
  then show ?thesis
    by (auto simp: ZSTD_safecopy_def safecopy_rest_def Let_def o)
qed

lemma safecopy_rest_repeats:
  assumes d: "8 \<le> d" "d \<le> op" and r: "op + len \<le> room" "room \<le> length mem"
  defines "M \<equiv> safecopy_rest mem op (int room - 32) (op - d) len ZSTD_overlap_src_before_dst"
  shows "frame mem M op room \<and> repeats M op d len"
proof -
  consider (wide) "int (op + len) \<le> int room - 32" | (mixed) "\<not> int (op + len) \<le> int room - 32" "int op \<le> int room - 32"
    | (bytes) "\<not> int op \<le> int room - 32" by linarith
  then show ?thesis
  proof cases
    case wide
    then show ?thesis using wildcopy_repeats[OF d, of len room mem ZSTD_overlap_src_before_dst] r
      by (simp add: M_def safecopy_rest_def)
  next
    case mixed
    define n where "n = nat (int room - 32 - int op)"
    have n: "op + n + 32 = room" "n \<le> len" using mixed by (auto simp: n_def)
    define W where "W = ZSTD_wildcopy mem op (op - d) n ZSTD_overlap_src_before_dst"
    have W: "frame mem W op room" "repeats W op d n" unfolding W_def using n r by (intro wildcopy_repeats[OF d]; simp)+
    have "op - d + n = op + n - d" using d by simp
    then have M: "M = copy_bytes W (op + n) (op + n - d) (len - n)"
      using mixed by (simp add: M_def safecopy_rest_def Let_def n_def[symmetric] W_def)
    have f: "frame W M (op + n) room" unfolding M by (rule frame_mono[OF copy_bytes_frame]) (use n r in auto)
    have "repeats M (op + n) d (len - n)"
      unfolding M using d n r frame_length[OF W(1)] by (intro copy_bytes_repeats) auto
    moreover have "repeats M op d n"
      by (rule repeats_frame[OF W(2) f]) (use n r frame_length[OF W(1)] in auto)
    ultimately have "repeats M op d (n + (len - n))" by (rule repeats_append[rotated])
    moreover have "frame mem M op room" by (rule frame_trans[OF W(1) frame_mono[OF f]]) auto
    ultimately show ?thesis using n(2) by simp
  next
    case bytes
    then have M: "M = copy_bytes mem op (op - d) len" by (simp add: M_def safecopy_rest_def)
    show ?thesis unfolding M using copy_bytes_repeats[of d op len mem] d r
      by (auto intro: frame_mono[OF copy_bytes_frame])
  qed
qed

interpretation ending: match_copy "copy_match_end (int room - 32)" off room room for off room
proof
  fix op len :: nat and mem :: buffer
  assume a: "1 \<le> off" "off \<le> op" "1 \<le> len" "op + len \<le> room" "room \<le> length mem"
  let ?M = "copy_match_end (int room - 32) mem op (op - off) len"
  show "frame mem ?M op room \<and> repeats ?M op off len"
  proof (cases "len < 8")
    case True
    then have "?M = copy_bytes mem op (op - off) len" by (simp add: copy_match_end_def ZSTD_safecopy_rest)
    then show ?thesis using copy_bytes_repeats[OF a(1,2), of len mem] a
      by (auto intro: frame_mono[OF copy_bytes_frame])
  next
    case False
    have "op + 8 \<le> length mem" using False a(4,5) by simp
    from ZSTD_overlapCopy8_repeats[OF a(1,2) this] obtain m d where
      m: "ZSTD_overlapCopy8 mem op (op - off) off = (m, op + 8, op + 8 - d)" "8 \<le> d" "off dvd d" "off \<le> d" "d \<le> 8 + off"
        "frame mem m op (op + 8)" "repeats m op off 8" .
    have f: "frame mem m op room" by (rule frame_mono[OF m(6)]) (use False a(4) in auto)
    have M: "?M = safecopy_rest m (op + 8) (int room - 32) (op + 8 - d) (len - 8) ZSTD_overlap_src_before_dst"
      using False m(1) a(2) by (simp add: copy_match_end_def ZSTD_safecopy_rest)
    have R: "frame m ?M (op + 8) room" "repeats ?M (op + 8) d (len - 8)"
      unfolding M using safecopy_rest_repeats[of d "op + 8" "len - 8" room m] m(2,5) False a frame_length[OF f] by auto
    have "repeats ?M op off (8 + (len - 8))"
      by (rule repeats_multiple[OF repeats_frame[OF m(7) R(1)] R(2) m(3) a(1) m(4,5) a(2)])
        (use frame_length[OF f] False a(4,5) in auto)
    moreover have "frame mem ?M op room" by (rule frame_trans[OF f frame_mono[OF R(1)]]) auto
    ultimately show ?thesis using False by simp
  qed
qed

subsection \<open>Copies of literals\<close>

lemma copy_bytes_literals:
  assumes "op \<le> ip \<or> ip + n \<le> op" "op + n \<le> room" "room \<le> length mem"
  shows "frame mem (copy_bytes mem op ip n) op room" "i < n \<Longrightarrow> copy_bytes mem op ip n ! (op + i) = mem ! (ip + i)"
proof -
  show "frame mem (copy_bytes mem op ip n) op room" by (rule frame_mono[OF copy_bytes_frame]) (use assms in auto)
  assume "i < n"
  then show "copy_bytes mem op ip n ! (op + i) = mem ! (ip + i)" using assms by (intro copy_bytes_apart) auto
qed

lemma wildcopy_literals:
  assumes "op \<le> ip \<or> ip + len + 32 \<le> op" "op + len + 32 \<le> room" "room \<le> length mem" "ip + len + 32 \<le> length mem"
  shows "frame mem (ZSTD_wildcopy mem op ip len ZSTD_no_overlap) op room"
    "i < len \<Longrightarrow> ZSTD_wildcopy mem op ip len ZSTD_no_overlap ! (op + i) = mem ! (ip + i)"
proof -
  obtain n where n: "len \<le> n" "n \<le> len + 32" "ZSTD_wildcopy mem op ip len ZSTD_no_overlap = copy_bytes mem op ip n"
    by (rule ZSTD_wildcopy_bytes[of op len mem ip ZSTD_no_overlap]) (use assms in auto)
  note c = copy_bytes_literals[of op ip n room mem]
  show "frame mem (ZSTD_wildcopy mem op ip len ZSTD_no_overlap) op room"
    unfolding n(3) by (rule c(1)) (use n(2) assms in auto)
  assume "i < len"
  then show "ZSTD_wildcopy mem op ip len ZSTD_no_overlap ! (op + i) = mem ! (ip + i)"
    unfolding n(3) using n(1,2) assms by (intro c(2)) auto
qed

lemma copy_literals_fast_copies:
  assumes "op \<le> ip \<or> ip + len + 32 \<le> op" "op + len + 32 \<le> room" "room \<le> length mem" "ip + len + 32 \<le> length mem"
  shows "frame mem (copy_literals_fast mem op ip len) op room"
    "i < len \<Longrightarrow> copy_literals_fast mem op ip len ! (op + i) = mem ! (ip + i)"
proof -
  have c16: "ZSTD_copy16 mem op ip = copy_bytes mem op ip 16"
    unfolding ZSTD_copy16_def using assms by (intro memmove_copy_bytes) auto
  obtain n where n: "len \<le> n" "n \<le> len + 32" "copy_literals_fast mem op ip len = copy_bytes mem op ip n"
  proof (cases "len > 16")
    case True
    obtain n where "len - 16 \<le> n" "n \<le> len - 16 + 32"
      "ZSTD_wildcopy (copy_bytes mem op ip 16) (op + 16) (ip + 16) (len - 16) ZSTD_no_overlap
         = copy_bytes (copy_bytes mem op ip 16) (op + 16) (ip + 16) n"
      by (rule ZSTD_wildcopy_bytes[of "op + 16" "len - 16" "copy_bytes mem op ip 16" "ip + 16" ZSTD_no_overlap])
        (use assms True in auto)
    then show thesis using True c16 copy_bytes_add[of mem op ip 16 n]
      by (intro that[of "16 + n"]) (simp_all add: copy_literals_fast_def)
  next
    case False
    then show thesis using c16 by (intro that[of 16]) (simp_all add: copy_literals_fast_def)
  qed
  note c = copy_bytes_literals[of op ip n room mem]
  show "frame mem (copy_literals_fast mem op ip len) op room"
    unfolding n(3) by (rule c(1)) (use n(2) assms in auto)
  assume "i < len"
  then show "copy_literals_fast mem op ip len ! (op + i) = mem ! (ip + i)"
    unfolding n(3) using n(1,2) assms by (intro c(2)) auto
qed

text \<open>
  Near the end of the room, literals have to lie behind it, or before it with what a wide copy may
  read past their end.
\<close>

lemma safecopy_literals:
  assumes a: "room \<le> ip \<or> ip + len + 32 \<le> op" "op + len \<le> room" "room \<le> length mem" "ip + len + 32 \<le> length mem"
  defines "M \<equiv> ZSTD_safecopy mem op (int room - 32) ip len ZSTD_no_overlap"
  shows "frame mem M op room \<and> (\<forall>i<len. M ! (op + i) = mem ! (ip + i))"
proof -
  consider (bytes) "len < 8 \<or> \<not> int op \<le> int room - 32" | (wide) "8 \<le> len" "int (op + len) \<le> int room - 32"
    | (mixed) "8 \<le> len" "\<not> int (op + len) \<le> int room - 32" "int op \<le> int room - 32" by linarith
  then show ?thesis
  proof cases
    case bytes
    then have "M = copy_bytes mem op ip len" by (auto simp: M_def ZSTD_safecopy_rest safecopy_rest_def)
    then show ?thesis using copy_bytes_literals[of op ip len room mem] a by auto
  next
    case wide
    then have "M = ZSTD_wildcopy mem op ip len ZSTD_no_overlap" by (simp add: M_def ZSTD_safecopy_rest safecopy_rest_def)
    moreover have "op + len + 32 \<le> room" using wide by linarith
    ultimately show ?thesis using wildcopy_literals[of op ip len room mem] a by auto
  next
    case mixed
    define n where "n = nat (int room - 32 - int op)"
    have n: "op + n + 32 = room" "n \<le> len" using mixed by (auto simp: n_def)
    define W where "W = ZSTD_wildcopy mem op ip n ZSTD_no_overlap"
    have W: "frame mem W op room" "\<And>i. i < n \<Longrightarrow> W ! (op + i) = mem ! (ip + i)"
      unfolding W_def using n a by (intro wildcopy_literals; auto)+
    have M: "M = copy_bytes W (op + n) (ip + n) (len - n)"
      using mixed by (simp add: M_def ZSTD_safecopy_rest safecopy_rest_def Let_def n_def[symmetric] W_def)
    have f: "frame W M (op + n) room" "\<And>i. i < len - n \<Longrightarrow> M ! (op + n + i) = W ! (ip + n + i)"
      unfolding M using n a frame_length[OF W(1)] by (intro copy_bytes_literals; auto)+
    have "M ! (op + i) = mem ! (ip + i)" if i: "i < len" for i
    proof (cases "i < n")
      case True
      then have "M ! (op + i) = W ! (op + i)" using frame_nth[OF f(1)] frame_length[OF W(1)] n a by simp
      then show ?thesis using W(2)[OF True] by simp
    next
      case False
      then have "M ! (op + n + (i - n)) = W ! (ip + n + (i - n))" using i by (intro f(2)) simp
      moreover have "W ! (ip + i) = mem ! (ip + i)" using i a by (intro frame_nth[OF W(1)]) auto
      ultimately show ?thesis using False by simp
    qed
    moreover have "frame mem M op room" by (rule frame_trans[OF W(1) frame_mono[OF f(1)]]) auto
    ultimately show ?thesis by blast
  qed
qed

subsection \<open>The format's definition of a sequence\<close>

text \<open>A match repeats the byte at the given distance, one byte after the other, in the window.\<close>

fun lz_match :: "nat \<Rightarrow> nat \<Rightarrow> buffer \<Rightarrow> buffer" where
  "lz_match off 0 window = window"
| "lz_match off (Suc n) window = lz_match off n (window @ [window ! (length window - off)])"

definition lz_sequence :: "seq_t \<Rightarrow> buffer \<Rightarrow> buffer \<Rightarrow> buffer" where
  "lz_sequence sequence literals window =
     lz_match (offset sequence) (matchLength sequence) (window @ take (litLength sequence) literals)"

lemma length_lz_match [simp]: "length (lz_match off n window) = length window + n"
  by (induction n arbitrary: window) simp_all

lemma lz_match_unique:
  "\<lbrakk>length w' = length w + n; take (length w) w' = w; 1 \<le> off; off \<le> length w;
    \<forall>i<n. w' ! (length w + i) = w' ! (length w + i - off)\<rbrakk> \<Longrightarrow> w' = lz_match off n w"
proof (induction n arbitrary: w)
  case (Suc n)
  have "w' ! length w = w' ! (length w - off)" using Suc.prems(5) by force
  moreover have "w' ! (length w - off) = w ! (length w - off)"
    using Suc.prems(2,3,4) by (metis diff_less le_eq_less_or_eq less_le_trans nth_take zero_less_one)
  ultimately have t: "take (Suc (length w)) w' = w @ [w ! (length w - off)]"
    using Suc.prems(1,2) by (simp add: take_Suc_conv_app_nth)
  have "w' ! (Suc (length w) + i) = w' ! (Suc (length w) + i - off)" if "i < n" for i
    using Suc.prems(5) that by (metis Suc_less_eq add_Suc_shift)
  then show ?case using Suc.IH[of "w @ [w ! (length w - off)]"] Suc.prems t by simp
qed simp

text \<open>The window in memory: the dictionary segment, and the prefix up to \<open>p\<close>.\<close>

definition window_at :: "buffer \<Rightarrow> nat \<Rightarrow> nat \<Rightarrow> nat \<Rightarrow> nat \<Rightarrow> buffer" where
  "window_at mem dictSize dictEnd prefixStart p =
     bytes_at mem (dictEnd - dictSize) dictSize @ bytes_at mem prefixStart (p - prefixStart)"

lemma length_window_at:
  "dictSize \<le> dictEnd \<Longrightarrow> dictEnd \<le> length mem \<Longrightarrow> prefixStart \<le> p \<Longrightarrow> p \<le> length mem \<Longrightarrow>
    length (window_at mem dictSize dictEnd prefixStart p) = dictSize + (p - prefixStart)"
  by (simp add: window_at_def bytes_at_def)

lemma window_at_nth:
  assumes "dictSize \<le> dictEnd" "dictEnd \<le> length mem" "prefixStart \<le> p" "p \<le> length mem" "i < dictSize + (p - prefixStart)"
  shows "window_at mem dictSize dictEnd prefixStart p ! i =
    mem ! (if i < dictSize then dictEnd - dictSize + i else prefixStart + (i - dictSize))"
  using assms by (auto simp: window_at_def bytes_at_def nth_append)

lemma window_at_extend:
  assumes "frame mem M p room" "dictSize \<le> dictEnd" "dictEnd \<le> length mem" "prefixStart \<le> p" "p \<le> q" "q \<le> length mem"
    and "dictEnd \<le> p \<or> room \<le> dictEnd - dictSize"
  shows "take (dictSize + (p - prefixStart)) (window_at M dictSize dictEnd prefixStart q)
    = window_at mem dictSize dictEnd prefixStart p"
proof (rule nth_equalityI)
  have l: "length M = length mem" by (rule frame_length[OF assms(1)])
  show "length (take (dictSize + (p - prefixStart)) (window_at M dictSize dictEnd prefixStart q))
      = length (window_at mem dictSize dictEnd prefixStart p)"
    using assms(2-6) by (simp add: length_window_at l)
  fix i
  assume "i < length (take (dictSize + (p - prefixStart)) (window_at M dictSize dictEnd prefixStart q))"
  then have i: "i < dictSize + (p - prefixStart)" by simp
  then have iq: "i < dictSize + (q - prefixStart)" using assms(5) by linarith
  let ?a = "if i < dictSize then dictEnd - dictSize + i else prefixStart + (i - dictSize)"
  have "window_at M dictSize dictEnd prefixStart q ! i = M ! ?a"
    using iq assms(2-6) l by (intro window_at_nth) auto
  moreover have "M ! ?a = mem ! ?a" using i assms by (intro frame_nth[OF assms(1)]) (auto split: if_splits)
  moreover have "window_at mem dictSize dictEnd prefixStart p ! i = mem ! ?a"
    using i assms(2-6) by (intro window_at_nth) auto
  ultimately show "take (dictSize + (p - prefixStart)) (window_at M dictSize dictEnd prefixStart q) ! i
      = window_at mem dictSize dictEnd prefixStart p ! i" using i by simp
qed

text \<open>To be the match it is enough to repeat in the window.\<close>

lemma window_is_match:
  assumes "frame mem M p room" "p + n \<le> room" "room \<le> length mem"
    and "dictSize \<le> dictEnd" "dictEnd \<le> length mem" "prefixStart \<le> p" "dictEnd \<le> p \<or> room \<le> dictEnd - dictSize"
    and off: "1 \<le> off" "off \<le> dictSize + (p - prefixStart)"
    and rep: "\<And>i. i < n \<Longrightarrow> M ! (p + i) =
      (if dictSize + (p - prefixStart) + i - off < dictSize
       then mem ! (dictEnd - dictSize + (dictSize + (p - prefixStart) + i - off)) else M ! (p + i - off))"
  shows "window_at M dictSize dictEnd prefixStart (p + n) = lz_match off n (window_at mem dictSize dictEnd prefixStart p)"
proof (rule lz_match_unique[OF _ _ off(1)])
  let ?w = "window_at mem dictSize dictEnd prefixStart p" and ?w' = "window_at M dictSize dictEnd prefixStart (p + n)"
  have l: "length M = length mem" by (rule frame_length[OF assms(1)])
  have lw: "length ?w = dictSize + (p - prefixStart)" using assms(2-6) by (intro length_window_at) auto
  show "length ?w' = length ?w + n" unfolding lw using assms(2-6) l by (subst length_window_at) auto
  show "take (length ?w) ?w' = ?w" unfolding lw using assms by (intro window_at_extend[OF assms(1)]) auto
  show "off \<le> length ?w" using off(2) lw by simp
  have nth: "?w' ! i = M ! (if i < dictSize then dictEnd - dictSize + i else prefixStart + (i - dictSize))"
    if "i < dictSize + (p + n - prefixStart)" for i
    using that assms(2-6) l by (intro window_at_nth) auto
  show "\<forall>i<n. ?w' ! (length ?w + i) = ?w' ! (length ?w + i - off)"
  proof (intro allI impI)
    fix i
    assume i: "i < n"
    have "?w' ! (length ?w + i) = M ! (p + i)" unfolding lw using i assms(6) by (subst nth) auto
    moreover have "?w' ! (length ?w + i - off) = (if dictSize + (p - prefixStart) + i - off < dictSize
       then M ! (dictEnd - dictSize + (dictSize + (p - prefixStart) + i - off)) else M ! (p + i - off))"
      unfolding lw using i off assms(6) by (subst nth) auto
    moreover have "M ! (dictEnd - dictSize + j) = mem ! (dictEnd - dictSize + j)" if "j < dictSize" for j
      using that assms(4,5,7) by (intro frame_nth[OF assms(1)]) auto
    ultimately show "?w' ! (length ?w + i) = ?w' ! (length ?w + i - off)" using rep[OF i] by auto
  qed
qed

context match_copy
begin

lemma exec_match_window:
  assumes "prefixStart \<le> p" "p + matchLength s \<le> lim" "lim \<le> room" "room \<le> length mem"
    and dict: "dictSize \<le> dictEnd" "dictEnd \<le> length mem" "dictEnd \<le> p \<or> room \<le> dictEnd - dictSize"
    and s: "offset s = off" "1 \<le> off" "1 \<le> matchLength s"
  defines "r \<equiv> exec_match copy mem p s prefixStart (int prefixStart - int dictSize) dictEnd"
  shows "if dictSize + (p - prefixStart) < off then r = Inl ZSTD_error_corruption_detected
    else \<exists>M. r = Inr M \<and> frame mem M p room
      \<and> window_at M dictSize dictEnd prefixStart (p + matchLength s)
          = lz_match off (matchLength s) (window_at mem dictSize dictEnd prefixStart p)"
proof (cases "dictSize + (p - prefixStart) < off")
  case True
  then have "p - prefixStart < off" "int p - (int prefixStart - int dictSize) < int off" using assms(1) by linarith+
  then show ?thesis using True s(1) by (simp add: r_def exec_match_def Let_def)
next
  case False
  let ?n = "matchLength s"
  have "\<exists>M. r = Inr M \<and> frame mem M p room \<and> (\<forall>i<?n. M ! (p + i) =
      (if dictSize + (p - prefixStart) + i - off < dictSize
       then mem ! (dictEnd - dictSize + (dictSize + (p - prefixStart) + i - off)) else M ! (p + i - off)))"
  proof (cases "off > p - prefixStart")
    case in_prefix: False
    then have r: "r = Inr (copy mem p (p - off) ?n)" and op: "off \<le> p"
      using s(1) by (auto simp: r_def exec_match_def Let_def nat_diff_distrib')
    from copy_repeats[OF s(2) op s(3) assms(2,4)] show ?thesis
      unfolding r using in_prefix by (auto simp: repeats_def)
  next
    case True
    define m where "m = dictEnd - (off - (p - prefixStart))"
    have m: "int dictEnd + (int p - int off - int prefixStart) = int m" "m \<le> dictEnd" "dictEnd - dictSize \<le> m"
      "dictEnd - m = off - (p - prefixStart)"
      using True False dict(1) assms(1) by (auto simp: m_def)
    have addr: "dictEnd - dictSize + (dictSize + (p - prefixStart) + i - off) = m + i" for i
      using True False dict(1) by (auto simp: m_def)
    show ?thesis
    proof (cases "m + ?n \<le> dictEnd")
      case inside: True
      then have r: "r = Inr (ZSTD_memmove mem p m ?n)"
        unfolding r_def exec_match_def Let_def using True False s(1) assms(1) m by simp
      have f: "frame mem (ZSTD_memmove mem p m ?n) p (p + ?n)" "\<And>i. i < ?n \<Longrightarrow> ZSTD_memmove mem p m ?n ! (p + i) = mem ! (m + i)"
        using inside dict(2) assms(2-4) by (intro memmove_frame; auto)+
      have "dictSize + (p - prefixStart) + i - off < dictSize" if "i < ?n" for i
        using that inside m(2,4) True False by linarith
      then show ?thesis unfolding r addr using f(2) assms(2,3)
        by (auto intro!: frame_mono[OF f(1)])
    next
      case spans: False
      define l where "l = dictEnd - m"
      define M1 where "M1 = ZSTD_memmove mem p m l"
      define M where "M = copy M1 (p + l) prefixStart (?n - l)"
      have l: "l < ?n" "p + l - off = prefixStart" "off \<le> p + l" "m + l = dictEnd"
        using spans m True assms(1) by (auto simp: l_def)
      have lr: "nat (int dictEnd - int m) = l" by (simp add: l_def)
      have r: "r = Inr M"
        unfolding r_def exec_match_def Let_def s(1) m(1) nat_int lr M_def M1_def using True False spans assms(1) s(1) by simp
      have f1: "frame mem M1 p (p + l)" "\<And>i. i < l \<Longrightarrow> M1 ! (p + i) = mem ! (m + i)"
        unfolding M1_def using l dict(2) assms(2-4) by (intro memmove_frame; auto)+
      have len: "length M1 = length mem" by (rule frame_length[OF f1(1)])
      have f2: "frame M1 M (p + l) room" "repeats M (p + l) off (?n - l)"
        unfolding M_def using copy_repeats[OF s(2) l(3), of "?n - l" M1] l len assms(2,4) by auto
      have f: "frame mem M p room"
        by (rule frame_trans[OF frame_mono[OF f1(1)] frame_mono[OF f2(1)]]) (use l(1) assms(2,3) in auto)
      have "M ! (p + i) = (if dictSize + (p - prefixStart) + i - off < dictSize
          then mem ! (dictEnd - dictSize + (dictSize + (p - prefixStart) + i - off)) else M ! (p + i - off))"
        if i: "i < ?n" for i
      proof (cases "i < l")
        case il: True
        have "M ! (p + i) = M1 ! (p + i)" using il l(1) assms(2-4) len by (intro frame_nth[OF f2(1)]) auto
        moreover have "dictSize + (p - prefixStart) + i - off < dictSize" using il True m(2,4) False unfolding l_def by linarith
        ultimately show ?thesis unfolding addr using f1(2)[OF il] by simp
      next
        case il: False
        then have "M ! (p + l + (i - l)) = M ! (p + l + (i - l) - off)" using i by (intro repeatsD[OF f2(2)]) simp
        moreover have "\<not> dictSize + (p - prefixStart) + i - off < dictSize" using il True m(2,4) False unfolding l_def by linarith
        ultimately show ?thesis using il by simp
      qed
      with r f show ?thesis by blast
    qed
  qed
  then obtain M where M: "r = Inr M" "frame mem M p room" "\<And>i. i < ?n \<Longrightarrow> M ! (p + i) =
      (if dictSize + (p - prefixStart) + i - off < dictSize
       then mem ! (dictEnd - dictSize + (dictSize + (p - prefixStart) + i - off)) else M ! (p + i - off))" by blast
  have "window_at M dictSize dictEnd prefixStart (p + ?n) = lz_match off ?n (window_at mem dictSize dictEnd prefixStart p)"
    by (rule window_is_match[OF M(2) _ assms(4) dict(1,2) assms(1) dict(3) s(2) _ M(3)]) (use False assms(2,3) in auto)
  then show ?thesis using False M(1,2) by auto
qed

end

subsection \<open>A sequence is executed as defined\<close>

text \<open>
  The layout of the buffers around an output position: the prefix, the room for the output, the
  literals and the dictionary segment do not overlap, and wide copies of literals stay in memory.
\<close>

definition exec_layout :: "buffer \<Rightarrow> nat \<Rightarrow> nat \<Rightarrow> nat \<Rightarrow> nat \<Rightarrow> nat \<Rightarrow> nat \<Rightarrow> nat \<Rightarrow> bool" where
  "exec_layout mem op oend litPtr litLimit prefixStart dictSize dictEnd \<longleftrightarrow>
     prefixStart \<le> op \<and> op \<le> oend \<and> oend \<le> length mem
     \<and> litPtr \<le> litLimit \<and> litLimit + 32 \<le> length mem \<and> (litLimit + 32 \<le> op \<or> oend \<le> litPtr)
     \<and> dictSize \<le> dictEnd \<and> dictEnd \<le> length mem \<and> (dictEnd \<le> op \<or> oend \<le> dictEnd - dictSize)"

text \<open>Literals in place extend the window.\<close>

lemma window_literals:
  assumes "frame mem M op room" "op + n \<le> room" "room \<le> length mem" "prefixStart \<le> op"
    and "dictSize \<le> dictEnd" "dictEnd \<le> length mem" "dictEnd \<le> op \<or> room \<le> dictEnd - dictSize"
    and "\<And>i. i < n \<Longrightarrow> M ! (op + i) = mem ! (litPtr + i)" "litPtr + n \<le> litLimit" "litLimit \<le> length mem"
  shows "window_at M dictSize dictEnd prefixStart (op + n)
    = window_at mem dictSize dictEnd prefixStart op @ take n (bytes_at mem litPtr (litLimit - litPtr))"
proof -
  have l: "length M = length mem" by (rule frame_length[OF assms(1)])
  have "bytes_at M prefixStart (op + n - prefixStart)
      = bytes_at mem prefixStart (op - prefixStart) @ take n (bytes_at mem litPtr (litLimit - litPtr))"
  proof (rule nth_equalityI)
    show "length (bytes_at M prefixStart (op + n - prefixStart))
        = length (bytes_at mem prefixStart (op - prefixStart) @ take n (bytes_at mem litPtr (litLimit - litPtr)))"
      using assms l by (simp add: bytes_at_def)
    fix i
    assume "i < length (bytes_at M prefixStart (op + n - prefixStart))"
    then have i: "i < op + n - prefixStart" using assms l by (simp add: bytes_at_def)
    show "bytes_at M prefixStart (op + n - prefixStart) ! i
        = (bytes_at mem prefixStart (op - prefixStart) @ take n (bytes_at mem litPtr (litLimit - litPtr))) ! i"
    proof (cases "i < op - prefixStart")
      case True
      then have "M ! (prefixStart + i) = mem ! (prefixStart + i)" using assms(2-4) by (intro frame_nth[OF assms(1)]) auto
      then show ?thesis using True i assms l by (simp add: bytes_at_def nth_append)
    next
      case False
      then have "M ! (op + (i - (op - prefixStart))) = mem ! (litPtr + (i - (op - prefixStart)))"
        using i by (intro assms(8)) auto
      then show ?thesis using False i assms(2-4,9,10) l by (simp add: bytes_at_def nth_append add.commute)
    qed
  qed
  moreover have "bytes_at M (dictEnd - dictSize) dictSize = bytes_at mem (dictEnd - dictSize) dictSize"
    using assms by (intro frame_bytes_at[OF assms(1)]) auto
  ultimately show ?thesis by (simp add: window_at_def)
qed

text \<open>
  What executing a sequence promises: the first of the three conditions that fails is reported;
  otherwise the window is extended by the sequence and no byte before it or from \<open>room\<close> on is changed.
\<close>

definition executes ::
  "nat \<Rightarrow> buffer \<Rightarrow> nat \<Rightarrow> nat \<Rightarrow> seq_t \<Rightarrow> nat \<Rightarrow> nat \<Rightarrow> nat \<Rightarrow> nat \<Rightarrow> nat \<Rightarrow> ZSTD_ErrorCode + buffer \<times> nat \<times> nat \<Rightarrow> bool" where
  "executes room mem op oend s litPtr litLimit prefixStart dictSize dictEnd r \<longleftrightarrow>
     (if oend - op < litLength s + matchLength s then r = Inl ZSTD_error_dstSize_tooSmall
      else if litLimit - litPtr < litLength s then r = Inl ZSTD_error_corruption_detected
      else if dictSize + (op + litLength s - prefixStart) < offset s then r = Inl ZSTD_error_corruption_detected
      else \<exists>mem'. r = Inr (mem', litPtr + litLength s, litLength s + matchLength s) \<and> frame mem mem' op room
        \<and> window_at mem' dictSize dictEnd prefixStart (op + litLength s + matchLength s)
            = lz_sequence s (bytes_at mem litPtr (litLimit - litPtr)) (window_at mem dictSize dictEnd prefixStart op))"

lemma executes_steps:
  assumes m: "match_copy copy (offset s) lim room"
    and lay: "prefixStart \<le> op" "room \<le> oend" "oend \<le> length mem" "litPtr \<le> litLimit" "litLimit \<le> length mem"
      "dictSize \<le> dictEnd" "dictEnd \<le> length mem" "dictEnd \<le> op \<or> room \<le> dictEnd - dictSize"
    and fit: "op + litLength s + matchLength s \<le> lim" "lim \<le> room" "litLength s \<le> litLimit - litPtr"
    and s: "1 \<le> offset s" "1 \<le> matchLength s"
    and lits: "frame mem M op room" "\<And>i. i < litLength s \<Longrightarrow> M ! (op + i) = mem ! (litPtr + i)"
  shows "executes room mem op oend s litPtr litLimit prefixStart dictSize dictEnd
    (bindE (exec_match copy M (op + litLength s) s prefixStart (int prefixStart - int dictSize) dictEnd)
       (\<lambda>mem. Inr (mem, litPtr + litLength s, litLength s + matchLength s)))" (is "executes _ _ _ _ _ _ _ _ _ _ (bindE ?r _)")
proof -
  let ?p = "op + litLength s"
  have len: "length M = length mem" by (rule frame_length[OF lits(1)])
  have w: "window_at M dictSize dictEnd prefixStart ?p
      = window_at mem dictSize dictEnd prefixStart op @ take (litLength s) (bytes_at mem litPtr (litLimit - litPtr))"
    by (rule window_literals[OF lits(1)]) (use lay fit lits(2) in auto)
  have "if dictSize + (?p - prefixStart) < offset s then ?r = Inl ZSTD_error_corruption_detected
    else \<exists>M'. ?r = Inr M' \<and> frame M M' ?p room
      \<and> window_at M' dictSize dictEnd prefixStart (?p + matchLength s)
          = lz_match (offset s) (matchLength s) (window_at M dictSize dictEnd prefixStart ?p)"
    by (rule match_copy.exec_match_window[OF m]) (use lay fit s len in auto)
  moreover have "frame mem M' op room" if "frame M M' ?p room" for M'
    by (rule frame_trans[OF lits(1) frame_mono[OF that]]) auto
  moreover have "\<not> oend - op < litLength s + matchLength s" using fit(1,2) lay(2) by linarith
  ultimately show ?thesis using fit(3) w by (auto simp: executes_def lz_sequence_def split: if_splits)
qed

lemma execSequence_executes:
  assumes "exec_layout mem op oend litPtr litLimit prefixStart dictSize dictEnd"
    and "1 \<le> offset s" "1 \<le> matchLength s"
  shows "executes oend mem op oend s litPtr litLimit prefixStart dictSize dictEnd
    (ZSTD_execSequence mem op oend s litPtr litLimit prefixStart (int prefixStart - int dictSize) dictEnd)"
proof -
  note lay = assms(1)[unfolded exec_layout_def]
  define r where "r = ZSTD_execSequence mem op oend s litPtr litLimit prefixStart (int prefixStart - int dictSize) dictEnd"
  show ?thesis
  proof (cases "litPtr + litLength s > litLimit \<or> int (op + (litLength s + matchLength s)) > int oend - 32")
    case True
    then have r: "r = ZSTD_execSequenceEnd mem op oend s litPtr litLimit prefixStart (int prefixStart - int dictSize) dictEnd"
      by (simp add: r_def ZSTD_execSequence_def Let_def WILDCOPY_OVERLENGTH_def)
    show ?thesis
    proof (cases "oend - op < litLength s + matchLength s \<or> litLimit - litPtr < litLength s")
      case True
      then show ?thesis unfolding r_def[symmetric] r by (auto simp: executes_def ZSTD_execSequenceEnd_def)
    next
      case False
      define M where "M = ZSTD_safecopy mem op (int oend - 32) litPtr (litLength s) ZSTD_no_overlap"
      have M: "frame mem M op oend \<and> (\<forall>i<litLength s. M ! (op + i) = mem ! (litPtr + i))"
        unfolding M_def by (rule safecopy_literals) (use lay False in auto)
      have eq: "r = bindE (exec_match (copy_match_end (int oend - 32)) M (op + litLength s) s prefixStart
          (int prefixStart - int dictSize) dictEnd) (\<lambda>mem. Inr (mem, litPtr + litLength s, litLength s + matchLength s))"
        unfolding r ZSTD_execSequenceEnd_def Let_def using False by (simp add: M_def WILDCOPY_OVERLENGTH_def)
      show ?thesis unfolding r_def[symmetric] eq
        by (rule executes_steps[OF ending.match_copy_axioms]) (use False M lay assms(2,3) in auto)
    qed
  next
    case False
    define M where "M = copy_literals_fast mem op litPtr (litLength s)"
    have M: "frame mem M op oend" "\<And>i. i < litLength s \<Longrightarrow> M ! (op + i) = mem ! (litPtr + i)"
      unfolding M_def by (rule copy_literals_fast_copies; use lay False in auto)+
    have eq: "r = bindE (exec_match (copy_match_fast (offset s)) M (op + litLength s) s prefixStart
        (int prefixStart - int dictSize) dictEnd) (\<lambda>mem. Inr (mem, litPtr + litLength s, litLength s + matchLength s))"
      unfolding r_def ZSTD_execSequence_def Let_def using False by (simp add: M_def WILDCOPY_OVERLENGTH_def)
    show ?thesis unfolding r_def[symmetric] eq
      by (rule executes_steps[OF fast.match_copy_axioms]) (use False lay assms(2,3) M in auto)
  qed
qed

text \<open>
  Property C3: \<open>ZSTD_execSequence\<close> does what the format defines.  On a layout where the buffers do
  not overlap, a sequence that does not fit the output, the literals or the history is refused, in
  this order; any other one extends the window by its literals and by the match, copied byte by
  byte.  The memory before the output position and behind its end is not changed, although copies
  run over the end of literals and matches; and whether a match lies in the dictionary segment, in
  the prefix or in both, and overlaps itself, makes no difference.\<close>

theorem execSequence_correct:
  assumes "exec_layout mem op oend litPtr litLimit prefixStart dictSize dictEnd"
    and "1 \<le> offset s" "1 \<le> matchLength s"
  shows "executes oend mem op oend s litPtr litLimit prefixStart dictSize dictEnd
    (ZSTD_execSequence mem op oend s litPtr litLimit prefixStart (int prefixStart - int dictSize) dictEnd)"
  using assms by (rule execSequence_executes)

lemma execSequence_example_layout:
  "exec_layout (replicate 8 7 @ [1, 2, 3] @ replicate 61 0 @ [4, 5] @ replicate 32 9) 11 72 72 74 8 8 8"
  by (simp add: exec_layout_def)

theorem execSequence_correct_witness:
  "executes 72 (replicate 8 7 @ [1, 2, 3] @ replicate 61 0 @ [4, 5] @ replicate 32 9) 11 72
     \<lparr>litLength = 2, matchLength = 20, offset = 7\<rparr> 72 74 8 8 8
     (ZSTD_execSequence (replicate 8 7 @ [1, 2, 3] @ replicate 61 0 @ [4, 5] @ replicate 32 9) 11 72
       \<lparr>litLength = 2, matchLength = 20, offset = 7\<rparr> 72 74 8 0 8)"
  using execSequence_correct[OF execSequence_example_layout, of "\<lparr>litLength = 2, matchLength = 20, offset = 7\<rparr>"] by simp

subsection \<open>Literals in the room of the output\<close>

text \<open>
  When the literals of a large block are kept at the end of its output, a copy moves them down.  It
  is a move as long as the distance covers what wide copies write past their end.
\<close>

lemma safecopyDstBeforeSrc_moves:
  assumes a: "op + 32 \<le> ip" "ip + len \<le> length mem"
  defines "M \<equiv> ZSTD_safecopyDstBeforeSrc mem op ip len"
  shows "frame mem M op (op + len) \<and> (\<forall>i<len. M ! (op + i) = mem ! (ip + i))"
proof (cases "32 \<le> len")
  case True
  define n where "n = len - 32"
  have n: "n + 32 = len" using True by (simp add: n_def)
  obtain k where k: "n \<le> k" "k \<le> n + 32" "ZSTD_wildcopy mem op ip n ZSTD_no_overlap = copy_bytes mem op ip k"
    by (rule ZSTD_wildcopy_bytes[of op n mem ip ZSTD_no_overlap]) (use a n in auto)
  define W where "W = copy_bytes mem op ip k"
  have W: "frame mem W op (op + k)" "\<And>i. i < k \<Longrightarrow> W ! (op + i) = mem ! (ip + i)"
    unfolding W_def by (rule copy_bytes_literals; use a n k in auto)+
  have M: "M = copy_bytes W (op + n) (ip + n) (len - n)"
    using True a(1) n k(3) by (simp add: M_def ZSTD_safecopyDstBeforeSrc_def Let_def WILDCOPY_OVERLENGTH_def WILDCOPY_VECLEN_def W_def)
      (simp add: n_def)
  have f: "frame W M (op + n) (op + len)" "\<And>i. i < len - n \<Longrightarrow> M ! (op + n + i) = W ! (ip + n + i)"
    unfolding M by (rule copy_bytes_literals; use a n frame_length[OF W(1)] in auto)+
  have "M ! (op + i) = mem ! (ip + i)" if i: "i < len" for i
  proof (cases "i < n")
    case True
    then have "M ! (op + i) = W ! (op + i)" using frame_nth[OF f(1)] frame_length[OF W(1)] n a by simp
    then show ?thesis using W(2) True k(1) by simp
  next
    case False
    then have "M ! (op + n + (i - n)) = W ! (ip + n + (i - n))" using i by (intro f(2)) simp
    moreover have "W ! (ip + i) = mem ! (ip + i)" using i a False k(2) by (intro frame_nth[OF W(1)]) auto
    ultimately show ?thesis using False by simp
  qed
  moreover have "frame mem M op (op + len)"
    by (rule frame_trans[OF frame_mono[OF W(1)] frame_mono[OF f(1)]]) (use k n in auto)
  ultimately show ?thesis by blast
next
  case False
  then have "M = copy_bytes mem op ip len" by (auto simp: M_def ZSTD_safecopyDstBeforeSrc_def Let_def WILDCOPY_OVERLENGTH_def)
  then show ?thesis using copy_bytes_literals[of op ip len "op + len" mem] a by auto
qed

lemma execSplit_executes:
  assumes "prefixStart \<le> op" "op + 32 \<le> litPtr" "op + matchLength s \<le> litPtr" "litPtr \<le> litLimit"
    and "litLimit + 32 \<le> oend" "oend \<le> length mem"
    and "dictSize \<le> dictEnd" "dictEnd \<le> length mem" "dictEnd \<le> op \<or> litLimit \<le> dictEnd - dictSize"
    and "1 \<le> offset s" "1 \<le> matchLength s"
  shows "executes (litPtr + litLength s) mem op oend s litPtr litLimit prefixStart dictSize dictEnd
    (ZSTD_execSequenceSplitLitBuffer mem op oend (int (litPtr + litLength s) - 32) s litPtr litLimit prefixStart
       (int prefixStart - int dictSize) dictEnd)" (is "executes ?room _ _ _ _ _ _ _ _ _ ?r")
proof (cases "litPtr + litLength s > litLimit \<or> int (op + (litLength s + matchLength s)) > int ?room - 32")
  case True
  then have r: "?r = ZSTD_execSequenceEndSplitLitBuffer mem op oend (int ?room - 32) s litPtr litLimit prefixStart
      (int prefixStart - int dictSize) dictEnd"
    by (simp add: ZSTD_execSequenceSplitLitBuffer_def Let_def)
  show ?thesis
  proof (cases "oend - op < litLength s + matchLength s \<or> litLimit - litPtr < litLength s")
    case True
    then show ?thesis unfolding r by (auto simp: executes_def ZSTD_execSequenceEndSplitLitBuffer_def)
  next
    case False
    define M where "M = ZSTD_safecopyDstBeforeSrc mem op litPtr (litLength s)"
    have M: "frame mem M op (op + litLength s) \<and> (\<forall>i<litLength s. M ! (op + i) = mem ! (litPtr + i))"
      unfolding M_def by (rule safecopyDstBeforeSrc_moves) (use assms False in auto)
    have f: "frame mem M op ?room" by (rule frame_mono[OF conjunct1[OF M]]) (use assms(2) in auto)
    have eq: "?r = bindE (exec_match (copy_match_end (int ?room - 32)) M (op + litLength s) s prefixStart
        (int prefixStart - int dictSize) dictEnd) (\<lambda>mem. Inr (mem, litPtr + litLength s, litLength s + matchLength s))"
      unfolding r ZSTD_execSequenceEndSplitLitBuffer_def Let_def using False assms(2) by (simp add: M_def)
    show ?thesis unfolding eq
      by (rule executes_steps[OF ending.match_copy_axioms]) (use False M f assms in auto)
  qed
next
  case False
  define M where "M = copy_literals_fast mem op litPtr (litLength s)"
  have M: "frame mem M op ?room" "\<And>i. i < litLength s \<Longrightarrow> M ! (op + i) = mem ! (litPtr + i)"
    unfolding M_def by (rule copy_literals_fast_copies; use assms False in auto)+
  have eq: "?r = bindE (exec_match (copy_match_fast (offset s)) M (op + litLength s) s prefixStart
      (int prefixStart - int dictSize) dictEnd) (\<lambda>mem. Inr (mem, litPtr + litLength s, litLength s + matchLength s))"
    unfolding ZSTD_execSequenceSplitLitBuffer_def Let_def using False by (simp add: M_def)
  show ?thesis unfolding eq
    by (rule executes_steps[OF fast.match_copy_axioms]) (use False assms M in auto)
qed

text \<open>
  Property C21: the same for literals that lie ahead of the output in its own buffer, as
  \<open>ZSTD_execSequenceSplitLitBuffer\<close> finds them.  While the output stays 32 bytes behind the
  literals and the sequence ends before those it has not consumed, the sequence extends the window
  as defined and the other literals are not changed.\<close>

theorem execSequenceSplitLitBuffer_correct:
  assumes "prefixStart \<le> op" "op + 32 \<le> litPtr" "op + matchLength s \<le> litPtr" "litPtr \<le> litLimit"
    and "litLimit + 32 \<le> oend" "oend \<le> length mem"
    and "dictSize \<le> dictEnd" "dictEnd \<le> length mem" "dictEnd \<le> op \<or> litLimit \<le> dictEnd - dictSize"
    and "1 \<le> offset s" "1 \<le> matchLength s"
  shows "executes (litPtr + litLength s) mem op oend s litPtr litLimit prefixStart dictSize dictEnd
    (ZSTD_execSequenceSplitLitBuffer mem op oend (int (litPtr + litLength s) - 32) s litPtr litLimit prefixStart
       (int prefixStart - int dictSize) dictEnd)"
  by (rule execSplit_executes[OF assms])

theorem execSequenceSplitLitBuffer_correct_witness:
  "executes 66 (replicate 80 0 @ replicate 40 3) 4 120 \<lparr>litLength = 2, matchLength = 20, offset = 5\<rparr> 64 80 0 0 0
     (ZSTD_execSequenceSplitLitBuffer (replicate 80 0 @ replicate 40 3) 4 120 34
        \<lparr>litLength = 2, matchLength = 20, offset = 5\<rparr> 64 80 0 0 0)"
  using execSequenceSplitLitBuffer_correct[of 0 4 64 "\<lparr>litLength = 2, matchLength = 20, offset = 5\<rparr>" 80 120
      "replicate 80 0 @ replicate 40 3" 0 0] by simp

text \<open>
  Property C39: a distance of 17 bytes is not enough for \<open>ZSTD_safecopyDstBeforeSrc\<close>, although it
  takes wide copies from there on: the wide copy writes up to 31 bytes past its end, over literals
  that have yet to be moved.  Moving 49 bytes down by 17 gives the wrong bytes.\<close>

theorem safecopyDstBeforeSrc_clobbers:
  "take 49 (ZSTD_safecopyDstBeforeSrc (map of_nat [0..<66]) 0 17 49) \<noteq> bytes_at (map of_nat [0..<66]) 17 49"
proof -
  define m where "m = (map of_nat [0..<66] :: buffer)"
  have l: "length m = 66" by (simp add: m_def)
  have c: "ZSTD_copy16 M op ip = copy_bytes M op ip 16" if "op \<le> ip" "ip + 16 \<le> length M" for M op ip
    unfolding ZSTD_copy16_def using that by (intro memmove_copy_bytes) auto
  have w: "ZSTD_wildcopy m 0 17 17 ZSTD_no_overlap = copy_bytes m 0 17 48"
    using copy_bytes_add[of m 0 17 16 16] copy_bytes_add[of m 0 17 32 16]
    by (simp add: ZSTD_wildcopy_def Let_def copy32_loop.simps c l)
  define W where "W = copy_bytes m 0 17 48"
  have "ZSTD_safecopyDstBeforeSrc m 0 17 49 = copy_bytes W 17 34 32"
    by (simp add: ZSTD_safecopyDstBeforeSrc_def Let_def WILDCOPY_OVERLENGTH_def WILDCOPY_VECLEN_def w W_def)
  moreover have "copy_bytes W 17 34 32 ! (17 + 0) = W ! (34 + 0)" by (rule copy_bytes_apart) (auto simp: W_def l)
  moreover have "W ! (0 + 34) = m ! (17 + 34)" unfolding W_def by (rule copy_bytes_apart) (auto simp: l)
  ultimately have "take 49 (ZSTD_safecopyDstBeforeSrc m 0 17 49) ! 17 = 51" by (simp add: m_def)
  moreover have "bytes_at m 17 49 ! 17 = 34" by (simp add: bytes_at_def m_def)
  moreover have "(51 :: BYTE) \<noteq> 34" by simp
  ultimately show ?thesis unfolding m_def[symmetric] by metis
qed

end
