(* ===== verification/Zstd_BlockFormat.thy ===== *)
theory Zstd_BlockFormat
  imports Zstd_HufDecode Zstd_SeqTables Zstd_ExecSequence "HOL-Library.Monad_Syntax"
begin

section \<open>What a compressed block stands for\<close>

text \<open>
  The format of a compressed block, written from its description and not from the decoder: bit fields
  are numbers cut off a number, an offset is a value above three or names a recent offset, sequences
  are executed byte by byte, the headers of literals are fields of a little-endian number, and
  compressed literals are code words.  The decoders of \<open>Zstd_Sequences\<close> and \<open>Zstd_Literals\<close> are
  shown to agree with it; no function of theirs is used here.
\<close>

subsection \<open>Bit fields\<close>

text \<open>A stream of \<open>l\<close> bits with the value \<open>x\<close> is read from the highest bit down.\<close>

type_synonym bits = "nat \<times> nat"

fun take_bits :: "nat \<Rightarrow> bits \<Rightarrow> (nat \<times> bits) option" where
  "take_bits n (x, l) = (if n \<le> l then Some (x div 2 ^ (l - n), (x mod 2 ^ (l - n), l - n)) else None)"

subsection \<open>Offsets\<close>

text \<open>
  A value above three is an offset, counted from four.  The others name a recent offset: the first,
  second or third one, or, without literals before the match, the second, the third, or the one
  before the first.  The offset then becomes the first recent one.  Zero is not an offset.
\<close>

type_synonym recent = "nat \<times> nat \<times> nat"

fun format_offset :: "nat \<Rightarrow> bool \<Rightarrow> recent \<Rightarrow> nat \<times> recent" where
  "format_offset v no_literals (r1, r2, r3) =
     (if v > 3 then (v - 3, (v - 3, r1, r2))
      else
        let k = (if no_literals then v + 1 else v)
        in if k = 1 then (r1, (r1, r2, r3))
           else if k = 2 then (r2, (r2, r1, r3))
           else if k = 3 then (r3, (r3, r1, r2))
           else (r1 - 1, (r1 - 1, r1, r2)))"

subsection \<open>Sequences\<close>

text \<open>The bits that are left, the states of the three tables and the recent offsets.\<close>

record format_state =
  fm_bits :: bits
  fm_ll :: nat
  fm_of :: nat
  fm_ml :: nat
  fm_recent :: recent

definition ll_cell :: "ZSTD_seqEntropy \<Rightarrow> format_state \<Rightarrow> ZSTD_seqSymbol" where
  "ll_cell en st = sq_cells (LLTptr en) ! fm_ll st"
definition of_cell :: "ZSTD_seqEntropy \<Rightarrow> format_state \<Rightarrow> ZSTD_seqSymbol" where
  "of_cell en st = sq_cells (OFTptr en) ! fm_of st"
definition ml_cell :: "ZSTD_seqEntropy \<Rightarrow> format_state \<Rightarrow> ZSTD_seqSymbol" where
  "ml_cell en st = sq_cells (MLTptr en) ! fm_ml st"

text \<open>The states start with the literal lengths, then the offsets, then the match lengths.\<close>

definition format_start :: "ZSTD_seqEntropy \<Rightarrow> bits \<Rightarrow> format_state option" where
  "format_start en bits = do {
     (ll, bits) \<leftarrow> take_bits (sq_tableLog (LLTptr en)) bits;
     (off, bits) \<leftarrow> take_bits (sq_tableLog (OFTptr en)) bits;
     (ml, bits) \<leftarrow> take_bits (sq_tableLog (MLTptr en)) bits;
     Some \<lparr>fm_bits = bits, fm_ll = ll, fm_of = off, fm_ml = ml,
           fm_recent = (sq_rep en ! 0, sq_rep en ! 1, sq_rep en ! 2)\<rparr> }"

text \<open>
  The values of a sequence come in the order offset, match length, literal length.  The code of an
  offset is the number of its extra bits, which stand behind a leading one; a length is a base value
  and its extra bits.
\<close>

definition format_sequence :: "ZSTD_seqEntropy \<Rightarrow> format_state \<Rightarrow> (seq_t \<times> format_state) option" where
  "format_sequence en st = do {
     (v, bits) \<leftarrow> take_bits (nbAdditionalBits (of_cell en st)) (fm_bits st);
     (m, bits) \<leftarrow> take_bits (nbAdditionalBits (ml_cell en st)) bits;
     (l, bits) \<leftarrow> take_bits (nbAdditionalBits (ll_cell en st)) bits;
     let n = baseValue (ll_cell en st) + l;
     let (off, recent) = format_offset (2 ^ nbAdditionalBits (of_cell en st) + v) (n = 0) (fm_recent st);
     Some (\<lparr>litLength = n, matchLength = baseValue (ml_cell en st) + m, offset = off\<rparr>,
           st\<lparr>fm_bits := bits, fm_recent := recent\<rparr>) }"

text \<open>The states move on in the order literal lengths, match lengths, offsets.\<close>

definition format_next :: "ZSTD_seqEntropy \<Rightarrow> format_state \<Rightarrow> format_state option" where
  "format_next en st = do {
     (ll, bits) \<leftarrow> take_bits (sq_nbBits (ll_cell en st)) (fm_bits st);
     (ml, bits) \<leftarrow> take_bits (sq_nbBits (ml_cell en st)) bits;
     (off, bits) \<leftarrow> take_bits (sq_nbBits (of_cell en st)) bits;
     Some (st\<lparr>fm_bits := bits, fm_ll := nextState (ll_cell en st) + ll, fm_of := nextState (of_cell en st) + off,
              fm_ml := nextState (ml_cell en st) + ml\<rparr>) }"

text \<open>
  The sequences of a section, as far as the stream goes, and the state behind the last one when the
  stream has all of them.
\<close>

fun format_sequences :: "ZSTD_seqEntropy \<Rightarrow> nat \<Rightarrow> format_state \<Rightarrow> seq_t list \<times> format_state option" where
  "format_sequences en 0 st = ([], Some st)"
| "format_sequences en (Suc n) st =
     (case format_sequence en st of
        None \<Rightarrow> ([], None)
      | Some (s, st) \<Rightarrow>
          (case (if n = 0 then Some st else format_next en st) of
             None \<Rightarrow> ([s], None)
           | Some st \<Rightarrow> (let (sequences, end) = format_sequences en n st in (s # sequences, end))))"

subsection \<open>Executing sequences\<close>

text \<open>
  Sequences run on a window, with the literals and the room that are left.  A sequence has to fit the
  room, the literals and the window.
\<close>

fun lz_run :: "nat \<Rightarrow> seq_t list \<Rightarrow> buffer \<Rightarrow> buffer \<Rightarrow> ZSTD_ErrorCode + nat \<times> buffer \<times> buffer" where
  "lz_run capacity [] literals window = Inr (capacity, literals, window)"
| "lz_run capacity (s # sequences) literals window =
     (if capacity < litLength s + matchLength s then Inl ZSTD_error_dstSize_tooSmall
      else if length literals < litLength s then Inl ZSTD_error_corruption_detected
      else if offset s = 0 \<or> length window + litLength s < offset s then Inl ZSTD_error_corruption_detected
      else lz_run (capacity - (litLength s + matchLength s)) sequences (drop (litLength s) literals)
             (lz_sequence s literals window))"

definition lz_end :: "ZSTD_seqEntropy \<Rightarrow> nat \<Rightarrow> buffer \<Rightarrow> buffer \<Rightarrow> ZSTD_ErrorCode list + ZSTD_seqEntropy \<times> buffer" where
  "lz_end en capacity literals window =
     (if capacity < length literals then Inl [ZSTD_error_dstSize_tooSmall] else Inr (en, window @ literals))"

text \<open>
  The block.  An error is given by the codes it may be reported with: just one, except for a stream
  that ends too early, behind which a decoder that looks at the end of the stream only once meets
  sequences that are not there.
\<close>

definition lz_block ::
  "ZSTD_seqEntropy \<Rightarrow> nat \<Rightarrow> buffer \<Rightarrow> nat \<Rightarrow> buffer \<Rightarrow> buffer \<Rightarrow> ZSTD_ErrorCode list + ZSTD_seqEntropy \<times> buffer" where
  "lz_block en capacity src nbSeq literals window =
     (if nbSeq = 0 then lz_end en capacity literals window
      else case stream_bits src of
        Inl _ \<Rightarrow> Inl [ZSTD_error_corruption_detected]
      | Inr bits \<Rightarrow>
          let (sequences, end) = (case format_start en bits of None \<Rightarrow> ([], None) | Some st \<Rightarrow> format_sequences en nbSeq st)
          in case lz_run capacity sequences literals window of
               Inl e \<Rightarrow> Inl [e]
             | Inr (capacity, literals, window) \<Rightarrow>
                 (case end of
                    None \<Rightarrow> Inl [ZSTD_error_corruption_detected, ZSTD_error_dstSize_tooSmall]
                  | Some st \<Rightarrow>
                      if snd (fm_bits st) \<noteq> 0 then Inl [ZSTD_error_corruption_detected]
                      else
                        let (r1, r2, r3) = fm_recent st
                        in lz_end (en\<lparr>fseEntropy := True, sq_rep := [r1, r2, r3]\<rparr>) capacity literals window))"

lemma lz_run_append:
  "lz_run capacity (xs @ ys) literals window =
     (case lz_run capacity xs literals window of Inl e \<Rightarrow> Inl e
      | Inr (capacity, literals, window) \<Rightarrow> lz_run capacity ys literals window)"
  by (induction xs arbitrary: capacity literals window) simp_all

lemma lz_run_error: "lz_run capacity xs literals window = Inl e \<Longrightarrow>
    e = ZSTD_error_corruption_detected \<or> e = ZSTD_error_dstSize_tooSmall"
  by (induction xs arbitrary: capacity literals window) (auto split: if_splits)

lemma lz_run_room:
  "lz_run capacity xs literals window = Inr (capacity', literals', window') \<Longrightarrow>
    length window' + capacity' \<le> length window + capacity"
proof (induction xs arbitrary: capacity literals window)
  case (Cons s xs)
  then show ?case using Cons.IH[of "capacity - (litLength s + matchLength s)" "drop (litLength s) literals" "lz_sequence s literals window"]
    by (auto simp: lz_sequence_def split: if_splits)
qed simp

subsection \<open>Literals\<close>

text \<open>
  The first byte of a literals section has two bits for the kind and two for the format of the sizes,
  which follow in a little-endian number: one size of 5, 12 or 20 bits for literals that are stored
  (kind 0) or a repeated byte (kind 1), two sizes of 10, 14 or 18 bits for compressed literals.
\<close>

definition literals_kind :: "buffer \<Rightarrow> nat" where
  "literals_kind section = unat (section ! 0) mod 4"

definition size_format :: "buffer \<Rightarrow> nat" where
  "size_format section = unat (section ! 0) div 4 mod 4"

definition stored_sizes :: "buffer \<Rightarrow> nat \<times> nat" where
  "stored_sizes section =
     (let h = (if size_format section = 1 then 2 else if size_format section = 3 then 3 else 1)
      in (h, le_val (take h section) div (if h = 1 then 8 else 16)))"

definition compressed_sizes :: "buffer \<Rightarrow> bool \<times> nat \<times> nat \<times> nat" where
  "compressed_sizes section =
     (let k = (if size_format section = 2 then 14 else if size_format section = 3 then 18 else 10);
          h = (4 + 2 * k) div 8;
          v = le_val (take h section)
      in (size_format section = 0, h, v div 2 ^ 4 mod 2 ^ k, v div 2 ^ (4 + k)))"

text \<open>
  A prefix code is given by its accuracy and weights.  Compressed literals are code words, in one
  stream or in four, of a code described in front of them (kind 2) or of the code in use (kind 3).
  Reading descriptions is a matter of \<open>Zstd_NCount\<close> and an argument here.
\<close>

type_synonym huf_code = "nat \<times> nat list"

definition coded_literals :: "bool \<Rightarrow> nat \<Rightarrow> huf_code \<Rightarrow> buffer \<Rightarrow> ZSTD_ErrorCode + buffer" where
  "coded_literals single n code streams =
     (case code of (tableLog, ws) \<Rightarrow> if single then huf_stream tableLog ws n streams else huf_streams4 tableLog ws n streams)"

definition described_literals ::
  "(buffer \<Rightarrow> ZSTD_ErrorCode + nat \<times> huf_code) \<Rightarrow> bool \<Rightarrow> nat \<Rightarrow> buffer \<Rightarrow> ZSTD_ErrorCode + huf_code \<times> buffer" where
  "described_literals describe single n body =
     bindE (describe body) (\<lambda>(h, code).
       if length body \<le> h then Inl ZSTD_error_srcSize_wrong
       else bindE (coded_literals single n code (drop h body)) (\<lambda>out. Inr (code, out)))"

definition huffman_section ::
  "(buffer \<Rightarrow> ZSTD_ErrorCode + nat \<times> huf_code) \<Rightarrow> nat \<Rightarrow> bool \<Rightarrow> nat \<Rightarrow> huf_code option \<Rightarrow> buffer
    \<Rightarrow> ZSTD_ErrorCode + nat \<times> buffer \<times> huf_code option" where
  "huffman_section describe blockSizeMax dst_null capacity code section =
     (if length section < 5 then Inl ZSTD_error_corruption_detected
      else case compressed_sizes section of (single, h, n, cSize) \<Rightarrow>
        if n > 0 \<and> dst_null then Inl ZSTD_error_dstSize_tooSmall
        else if n > blockSizeMax then Inl ZSTD_error_corruption_detected
        else if \<not> single \<and> n < 6 then Inl ZSTD_error_literals_headerWrong
        else if h + cSize > length section then Inl ZSTD_error_corruption_detected
        else if n > min blockSizeMax capacity then Inl ZSTD_error_dstSize_tooSmall
        else
          let body = take cSize (drop h section)
          in case (case code of
                     None \<Rightarrow> described_literals describe single n body
                   | Some c \<Rightarrow> bindE (coded_literals single n c body) (\<lambda>out. Inr (c, out))) of
               Inl _ \<Rightarrow> Inl ZSTD_error_corruption_detected
             | Inr (c, out) \<Rightarrow> Inr (h + cSize, out, Some c))"

text \<open>The section: the bytes it takes, the literals, and the code in use afterwards.\<close>

definition literals_format ::
  "(buffer \<Rightarrow> ZSTD_ErrorCode + nat \<times> huf_code) \<Rightarrow> nat \<Rightarrow> bool \<Rightarrow> nat \<Rightarrow> huf_code option \<Rightarrow> buffer
    \<Rightarrow> ZSTD_ErrorCode + nat \<times> buffer \<times> huf_code option" where
  "literals_format describe blockSizeMax dst_null capacity code section =
     (if length section < 2 then Inl ZSTD_error_corruption_detected
      else if literals_kind section = 2 then huffman_section describe blockSizeMax dst_null capacity None section
      else if literals_kind section = 3
      then if code = None then Inl ZSTD_error_dictionary_corrupted
           else huffman_section describe blockSizeMax dst_null capacity code section
      else case stored_sizes section of (h, n) \<Rightarrow>
        let body = (if literals_kind section = 0 then n else 1)
        in if length section < h + (if literals_kind section = 0 then 0 else 1) then Inl ZSTD_error_corruption_detected
           else if n > 0 \<and> dst_null then Inl ZSTD_error_dstSize_tooSmall
           else if n > blockSizeMax then Inl ZSTD_error_corruption_detected
           else if n > min blockSizeMax capacity then Inl ZSTD_error_dstSize_tooSmall
           else if h + body > length section then Inl ZSTD_error_corruption_detected
           else Inr (h + body,
                     if literals_kind section = 0 then take n (drop h section) else replicate n (section ! h), code))"

end
