(* ===== verification/Zstd_Sequences.thy ===== *)
theory Zstd_Sequences
  imports Zstd_BlockFormat
begin

section \<open>Decoding sequences\<close>

text \<open>
  The decoders of the sequences section of \<^verbatim>\<open>decompress/zstd_decompress_block.c\<close>: the three
  state machines that share one bit stream (\<open>ZSTD_decodeSequence\<close>), the recent offsets, and the
  loop that executes the sequences (\<open>ZSTD_decompressSequences\<close>), on 64-bit machines.  The main
  result is that the loop refines the format of \<open>Zstd_BlockFormat\<close>: the sequences which the bit
  stream stands for, executed byte by byte on the window, followed by the literals that are left, with
  the same errors.
\<close>

subsection \<open>States\<close>

record ZSTD_fseState =
  fs_state :: nat
  fs_table :: "ZSTD_seqSymbol list"

record seqState_t =
  ss_DStream :: BIT_DStream_t
  stateLL :: ZSTD_fseState
  stateOffb :: ZSTD_fseState
  stateML :: ZSTD_fseState
  prevOffset :: "nat list"

definition STREAM_ACCUMULATOR_MIN_64 :: nat where "STREAM_ACCUMULATOR_MIN_64 = 57"

definition ZSTD_initFseState :: "BIT_DStream_t \<Rightarrow> ZSTD_seqTable \<Rightarrow> ZSTD_fseState \<times> BIT_DStream_t" where
  "ZSTD_initFseState bitD dt =
     (let (state, bitD) = BIT_readBits bitD (sq_tableLog dt);
          (status, bitD) = BIT_reloadDStream bitD
      in (\<lparr>fs_state = unat state, fs_table = sq_cells dt\<rparr>, bitD))"

definition ZSTD_updateFseStateWithDInfo ::
  "ZSTD_fseState \<Rightarrow> BIT_DStream_t \<Rightarrow> nat \<Rightarrow> nat \<Rightarrow> ZSTD_fseState \<times> BIT_DStream_t" where
  "ZSTD_updateFseStateWithDInfo DStatePtr bitD nextSt nb =
     (let (lowBits, bitD) = BIT_readBits bitD nb
      in (DStatePtr\<lparr>fs_state := nextSt + unat lowBits\<rparr>, bitD))"

text \<open>
  The offset of a sequence: new, or one of the three recent ones, and the recent offsets after it.
  A recent offset that becomes zero stands for no valid offset at all.
\<close>

definition decode_offset ::
  "nat \<Rightarrow> nat \<Rightarrow> bool \<Rightarrow> nat list \<Rightarrow> BIT_DStream_t \<Rightarrow> nat \<times> nat list \<times> BIT_DStream_t" where
  "decode_offset ofBase ofBits ll0 prev bitD =
     (if ofBits > 1
      then let (v, bitD) = BIT_readBitsFast bitD ofBits;
               off = (ofBase + unat v) mod 2 ^ 64
           in (off, [off, prev ! 0, prev ! 1], bitD)
      else if ofBits = 0
      then let off = prev ! of_bool ll0
           in (off, [off, prev ! of_bool (\<not> ll0), prev ! 2], bitD)
      else let (v, bitD) = BIT_readBitsFast bitD 1;
               code = (ofBase + of_bool ll0 + unat v) mod 2 ^ 64;
               temp = (if code = 3 then (prev ! 0 + 2 ^ 64 - 1) mod 2 ^ 64 else prev ! code);
               temp = (if temp = 0 then 2 ^ 64 - 1 else temp)
           in (temp, [temp, prev ! 0, if code \<noteq> 1 then prev ! 1 else prev ! 2], bitD))"

text \<open>A length: the base value, and extra bits if there are any.\<close>

definition add_bits :: "nat \<Rightarrow> nat \<Rightarrow> BIT_DStream_t \<Rightarrow> nat \<times> BIT_DStream_t" where
  "add_bits base nb bitD =
     (if nb > 0 then let (v, bitD) = BIT_readBitsFast bitD nb in ((base + unat v) mod 2 ^ 64, bitD) else (base, bitD))"

definition ZSTD_decodeSequence :: "seqState_t \<Rightarrow> bool \<Rightarrow> seq_t \<times> seqState_t" where
  "ZSTD_decodeSequence seqState isLastSeq =
     (let llDInfo = fs_table (stateLL seqState) ! fs_state (stateLL seqState);
          mlDInfo = fs_table (stateML seqState) ! fs_state (stateML seqState);
          ofDInfo = fs_table (stateOffb seqState) ! fs_state (stateOffb seqState);
          llBits = nbAdditionalBits llDInfo;
          mlBits = nbAdditionalBits mlDInfo;
          ofBits = nbAdditionalBits ofDInfo;
          totalBits = (llBits + mlBits + ofBits) mod 2 ^ 8;
          (off, prev, bitD) =
            decode_offset (baseValue ofDInfo) ofBits (baseValue llDInfo = 0) (prevOffset seqState) (ss_DStream seqState);
          (matchL, bitD) = add_bits (baseValue mlDInfo) mlBits bitD;
          bitD = (if totalBits \<ge> STREAM_ACCUMULATOR_MIN_64 - (LLFSELog + MLFSELog + OffFSELog)
                  then snd (BIT_reloadDStream bitD) else bitD);
          (litL, bitD) = add_bits (baseValue llDInfo) llBits bitD;
          sequence = \<lparr>litLength = litL, matchLength = matchL, offset = off\<rparr>;
          seqState = seqState\<lparr>ss_DStream := bitD, prevOffset := prev\<rparr>
      in if isLastSeq then (sequence, seqState)
         else
           let (ll, bitD) = ZSTD_updateFseStateWithDInfo (stateLL seqState) bitD (nextState llDInfo) (sq_nbBits llDInfo);
               (ml, bitD) = ZSTD_updateFseStateWithDInfo (stateML seqState) bitD (nextState mlDInfo) (sq_nbBits mlDInfo);
               (off, bitD) = ZSTD_updateFseStateWithDInfo (stateOffb seqState) bitD (nextState ofDInfo) (sq_nbBits ofDInfo);
               bitD = snd (BIT_reloadDStream bitD)
           in (sequence, seqState\<lparr>ss_DStream := bitD, stateLL := ll, stateML := ml, stateOffb := off\<rparr>))"

text \<open>The start of all three decoders.\<close>

definition init_seqState :: "ZSTD_seqEntropy \<Rightarrow> buffer \<Rightarrow> ZSTD_ErrorCode + seqState_t" where
  "init_seqState en src =
     (case BIT_initDStream src of
        Inl e \<Rightarrow> Inl ZSTD_error_corruption_detected
      | Inr bitD \<Rightarrow>
          let (ll, bitD) = ZSTD_initFseState bitD (LLTptr en);
              (off, bitD) = ZSTD_initFseState bitD (OFTptr en);
              (ml, bitD) = ZSTD_initFseState bitD (MLTptr en)
          in Inr \<lparr>ss_DStream = bitD, stateLL = ll, stateOffb = off, stateML = ml, prevOffset = sq_rep en\<rparr>)"

subsection \<open>Buffers\<close>

text \<open>
  What the context says about the literals and the history of a block, as addresses: the literals
  that are decoded, where their buffer lies, and the extra buffer of the context.
\<close>

datatype ZSTD_litLocation_e = ZSTD_not_in_dst | ZSTD_in_dst | ZSTD_split

record ZSTD_litState =
  lb_litPtr :: nat
  lb_litSize :: nat
  lb_litBuffer :: nat
  lb_litBufferEnd :: nat
  lb_litBufferLocation :: ZSTD_litLocation_e
  lb_litExtraBuffer :: nat

record ZSTD_history =
  hs_prefixStart :: nat
  hs_virtualStart :: int
  hs_dictEnd :: nat

subsection \<open>The regular decoder\<close>

text \<open>The loop over the sequences; the result is the state, the memory, the output and the literals.\<close>

fun sequences_loop ::
  "nat \<Rightarrow> seqState_t \<Rightarrow> buffer \<Rightarrow> nat \<Rightarrow> nat \<Rightarrow> nat \<Rightarrow> nat \<Rightarrow> ZSTD_history
    \<Rightarrow> ZSTD_ErrorCode + seqState_t \<times> buffer \<times> nat \<times> nat" where
  "sequences_loop 0 seqState mem op oend litPtr litEnd h = Inr (seqState, mem, op, litPtr)"
| "sequences_loop (Suc nbSeq) seqState mem op oend litPtr litEnd h =
     (let (sequence, seqState) = ZSTD_decodeSequence seqState (nbSeq = 0)
      in bindE (ZSTD_execSequence mem op oend sequence litPtr litEnd (hs_prefixStart h) (hs_virtualStart h) (hs_dictEnd h))
           (\<lambda>(mem, litPtr, oneSeqSize).
              sequences_loop nbSeq seqState mem (op + oneSeqSize) oend litPtr litEnd h))"

text \<open>The result: the tables and offsets for the next block, the memory and the size of the output.\<close>

definition save_reps :: "ZSTD_seqEntropy \<Rightarrow> seqState_t \<Rightarrow> ZSTD_seqEntropy" where
  "save_reps en seqState = en\<lparr>fseEntropy := True, sq_rep := map (\<lambda>off. off mod 2 ^ 32) (prevOffset seqState)\<rparr>"

definition last_literals ::
  "ZSTD_seqEntropy \<Rightarrow> buffer \<Rightarrow> nat \<Rightarrow> nat \<Rightarrow> nat \<Rightarrow> nat \<Rightarrow> nat \<Rightarrow> ZSTD_ErrorCode + ZSTD_seqEntropy \<times> buffer \<times> nat" where
  "last_literals en mem ostart op oend litPtr litEnd =
     (let lastLLSize = litEnd - litPtr
      in if lastLLSize > oend - op then Inl ZSTD_error_dstSize_tooSmall
         else Inr (en, ZSTD_memmove mem op litPtr lastLLSize, op + lastLLSize - ostart))"

definition ZSTD_decompressSequences_body ::
  "ZSTD_seqEntropy \<Rightarrow> buffer \<Rightarrow> nat \<Rightarrow> nat \<Rightarrow> ZSTD_litState \<Rightarrow> ZSTD_history \<Rightarrow> buffer \<Rightarrow> nat
    \<Rightarrow> ZSTD_ErrorCode + ZSTD_seqEntropy \<times> buffer \<times> nat" where
  "ZSTD_decompressSequences_body en mem ostart maxDstSize lit h src nbSeq =
     (let oend = (if lb_litBufferLocation lit = ZSTD_not_in_dst then ostart + maxDstSize else lb_litBuffer lit);
          litPtr = lb_litPtr lit;
          litEnd = litPtr + lb_litSize lit
      in if nbSeq \<noteq> 0
         then bindE (init_seqState en src) (\<lambda>seqState.
              bindE (sequences_loop nbSeq seqState mem ostart oend litPtr litEnd h) (\<lambda>(seqState, mem, op, litPtr).
              if \<not> BIT_endOfDStream (ss_DStream seqState) then Inl ZSTD_error_corruption_detected
              else last_literals (save_reps en seqState) mem ostart op oend litPtr litEnd))
         else last_literals en mem ostart ostart oend litPtr litEnd)"

subsection \<open>Decoded sequences\<close>

text \<open>All sequences of a section, and the state behind them.\<close>

fun decode_sequences :: "nat \<Rightarrow> seqState_t \<Rightarrow> seq_t list \<times> seqState_t" where
  "decode_sequences 0 seqState = ([], seqState)"
| "decode_sequences (Suc n) seqState =
     (let (sequence, seqState) = ZSTD_decodeSequence seqState (n = 0);
          (sequences, seqState) = decode_sequences n seqState
      in (sequence # sequences, seqState))"

lemma lookBits_less: "nb < 64 \<Longrightarrow> unat (BIT_lookBits d nb) < 2 ^ nb"
proof -
  assume "nb < 64"
  then have "(push_bit nb 1 - 1 :: U64) = mask nb" by (simp add: mask_eq_exp_minus_1 push_bit_eq_mult)
  then show ?thesis by (simp add: BIT_lookBits_def BIT_getMiddleBits_def unat_and_mask)
qed

lemma lookBitsFast_less: "0 < nb \<Longrightarrow> nb < 64 \<Longrightarrow> unat (BIT_lookBitsFast d nb) < 2 ^ nb"
proof -
  assume nb: "0 < nb" "nb < 64"
  define w where "w = push_bit (d_bitsConsumed d mod 64) (d_bitContainer d)"
  have "(64 - int nb) mod 64 = 64 - int nb" by (rule mod_pos_pos_trivial) (use nb in auto)
  then have "nat ((64 - int nb) mod 64) = 64 - nb" by simp
  then have "unat (BIT_lookBitsFast d nb) = unat w div 2 ^ (64 - nb)"
    by (simp add: BIT_lookBitsFast_def w_def unat_drop_bit_div)
  moreover have "unat w < 2 ^ nb * 2 ^ (64 - nb)"
    using unat_less_exp[of w] nb by (simp flip: power_add)
  ultimately show ?thesis by (simp add: div_less_iff_less_mult)
qed

text \<open>The codes of the three alphabets.\<close>

lemma LL_codes: "s < 36 \<Longrightarrow> LL_base ! s \<le> 65536 \<and> LL_bits ! s \<le> 16"
proof -
  have "list_all (\<lambda>(b, a). b \<le> 65536 \<and> a \<le> 16) (zip LL_base LL_bits)" by (simp add: LL_base_def LL_bits_def)
  then show "s < 36 \<Longrightarrow> ?thesis" using seq_lengths(1,2) by (auto simp: list_all_length)
qed

lemma ML_codes: "s < 53 \<Longrightarrow> 3 \<le> ML_base ! s \<and> ML_base ! s \<le> 65539 \<and> ML_bits ! s \<le> 16"
proof -
  have "list_all (\<lambda>(b, a). 3 \<le> b \<and> b \<le> 65539 \<and> a \<le> 16) (zip ML_base ML_bits)" by (simp add: ML_base_def ML_bits_def)
  then show "s < 53 \<Longrightarrow> ?thesis" using seq_lengths(5,6) by (auto simp: list_all_length)
qed

lemma OF_codes:
  "s < 32 \<Longrightarrow> OF_bits ! s \<le> 31 \<and> (OF_bits ! s = 1 \<longrightarrow> OF_base ! s = 1)
    \<and> (1 < OF_bits ! s \<longrightarrow> 1 \<le> OF_base ! s \<and> OF_base ! s < 2 ^ 31)"
proof -
  have "list_all (\<lambda>(b, a). a \<le> 31 \<and> (a = 1 \<longrightarrow> b = 1) \<and> (1 < a \<longrightarrow> 1 \<le> b \<and> b < 2 ^ 31)) (zip OF_base OF_bits)"
    by (simp add: OF_base_def OF_bits_def)
  then show "s < 32 \<Longrightarrow> ?thesis" using seq_lengths(3,4) by (auto simp: list_all_length)
qed

text \<open>A state is in its table, which is well formed; the recent offsets are valid.\<close>

definition fse_state_ok :: "nat \<Rightarrow> nat list \<Rightarrow> nat list \<Rightarrow> ZSTD_fseState \<Rightarrow> bool" where
  "fse_state_ok maxLog base addBits st \<longleftrightarrow>
     (\<exists>dt. seq_table_ok maxLog base addBits dt \<and> fs_table st = sq_cells dt \<and> fs_state st < 2 ^ sq_tableLog dt)"

definition reps_ok :: "nat list \<Rightarrow> bool" where
  "reps_ok prev \<longleftrightarrow> length prev = 3 \<and> (\<forall>off\<in>set prev. 0 < off \<and> off < 2 ^ 64)"

definition seqState_ok :: "seqState_t \<Rightarrow> bool" where
  "seqState_ok ss \<longleftrightarrow>
     fse_state_ok LLFSELog LL_base LL_bits (stateLL ss) \<and> fse_state_ok OffFSELog OF_base OF_bits (stateOffb ss)
     \<and> fse_state_ok MLFSELog ML_base ML_bits (stateML ss) \<and> reps_ok (prevOffset ss)"

lemma fse_state_cell:
  assumes "fse_state_ok maxLog base addBits st"
  obtains s where "s < length base" "s < length addBits"
    "baseValue (fs_table st ! fs_state st) = base ! s" "nbAdditionalBits (fs_table st ! fs_state st) = addBits ! s"
proof -
  from assms obtain dt where dt: "seq_table_ok maxLog base addBits dt" "fs_table st = sq_cells dt" "fs_state st < 2 ^ sq_tableLog dt"
    by (auto simp: fse_state_ok_def)
  show thesis using seq_table_okD[OF dt(1,3)] dt(2) by (auto simp: seq_cell_ok_def list_ex_iff intro: that)
qed

lemma fse_state_init:
  assumes "seq_table_ok maxLog base addBits dt" "maxLog < 64"
  shows "fse_state_ok maxLog base addBits (fst (ZSTD_initFseState bitD dt))"
proof -
  have "sq_tableLog dt < 64" using assms by (simp add: seq_table_ok_def)
  from lookBits_less[OF this, of bitD] show ?thesis using assms(1)
    by (auto simp: fse_state_ok_def ZSTD_initFseState_def BIT_readBits_def split: prod.splits)
qed

lemma fse_state_update:
  assumes "fse_state_ok maxLog base addBits st" "maxLog < 64"
  defines "c \<equiv> fs_table st ! fs_state st"
  shows "fse_state_ok maxLog base addBits (fst (ZSTD_updateFseStateWithDInfo st bitD (nextState c) (sq_nbBits c)))"
proof -
  from assms(1) obtain dt where dt: "seq_table_ok maxLog base addBits dt" "fs_table st = sq_cells dt" "fs_state st < 2 ^ sq_tableLog dt"
    by (auto simp: fse_state_ok_def)
  have c: "nextState c + 2 ^ sq_nbBits c \<le> 2 ^ sq_tableLog dt" "sq_nbBits c \<le> sq_tableLog dt"
    using seq_table_okD[OF dt(1,3)] dt(2) by (auto simp: seq_cell_ok_def c_def)
  have "sq_nbBits c < 64" using c(2) dt(1) assms(2) by (simp add: seq_table_ok_def)
  then have "nextState c + unat (BIT_lookBits bitD (sq_nbBits c)) < 2 ^ sq_tableLog dt"
    using lookBits_less[of "sq_nbBits c" bitD] c(1) by linarith
  then show ?thesis using dt(1,2) by (auto simp: fse_state_ok_def ZSTD_updateFseStateWithDInfo_def BIT_readBits_def)
qed

lemma add_bits_bounds:
  assumes "nb \<le> 16" "base \<le> 2 ^ 32"
  shows "base \<le> fst (add_bits base nb bitD)" "fst (add_bits base nb bitD) < base + 2 ^ 16"
proof -
  have "base \<le> fst (add_bits base nb bitD) \<and> fst (add_bits base nb bitD) < base + 2 ^ 16"
  proof (cases "nb = 0")
    case False
    have "(2::nat) ^ nb \<le> 2 ^ 16" using assms(1) by (rule power_increasing) simp
    with lookBitsFast_less[of nb bitD] False assms(1) have "unat (BIT_lookBitsFast bitD nb) < 2 ^ 16" by simp
    then show ?thesis using False assms(2) by (simp add: add_bits_def BIT_readBitsFast_def)
  qed (simp add: add_bits_def)
  then show "base \<le> fst (add_bits base nb bitD)" "fst (add_bits base nb bitD) < base + 2 ^ 16" by auto
qed

lemma nth_reps: "reps_ok prev \<Longrightarrow> i < 3 \<Longrightarrow> 0 < prev ! i \<and> prev ! i < 2 ^ 64"
  by (simp add: reps_ok_def)

lemma decode_offset_ok:
  assumes r: "reps_ok prev" and c: "ofBits \<le> 31" "ofBits = 1 \<longrightarrow> ofBase = 1" "1 < ofBits \<longrightarrow> 1 \<le> ofBase \<and> ofBase < 2 ^ 31"
    and e: "decode_offset ofBase ofBits ll0 prev bitD = (off, prev', bitD')"
  shows "1 \<le> off \<and> off < 2 ^ 64 \<and> reps_ok prev'"
proof -
  note p = nth_reps[OF r]
  consider (new) "1 < ofBits" | (first) "ofBits = 0" | (rep) "ofBits = 1" by linarith
  then show ?thesis
  proof cases
    case new
    have "(2::nat) ^ ofBits \<le> 2 ^ 31" using c(1) by (rule power_increasing) simp
    with lookBitsFast_less[of ofBits bitD] new c(1) have v: "unat (BIT_lookBitsFast bitD ofBits) < 2 ^ 31" by simp
    then have "off = ofBase + unat (BIT_lookBitsFast bitD ofBits)" "prev' = [off, prev ! 0, prev ! 1]"
      using e new c(3) by (auto simp: decode_offset_def BIT_readBitsFast_def Let_def)
    then show ?thesis using v new c(3) p[of 0] p[of 1] by (auto simp: reps_ok_def)
  next
    case first
    then have "off = prev ! of_bool ll0" "prev' = [off, prev ! of_bool (\<not> ll0), prev ! 2]"
      using e by (auto simp: decode_offset_def Let_def)
    then show ?thesis using p[of 0] p[of 1] p[of 2] by (cases ll0) (auto simp: reps_ok_def)
  next
    case rep
    define code where "code = (ofBase + of_bool ll0 + unat (BIT_lookBitsFast bitD 1)) mod 2 ^ 64"
    have "unat (BIT_lookBitsFast bitD 1) < 2" using lookBitsFast_less[of 1 bitD] by simp
    then have code: "code \<le> 3" using rep c(2) by (cases ll0) (auto simp: code_def)
    define t where "t = (if code = 3 then (prev ! 0 + 2 ^ 64 - 1) mod 2 ^ 64 else prev ! code)"
    have t: "t < 2 ^ 64" using code p[of code] by (auto simp: t_def)
    have "off = (if t = 0 then 2 ^ 64 - 1 else t)" "prev' = [off, prev ! 0, if code \<noteq> 1 then prev ! 1 else prev ! 2]"
      using e rep by (auto simp: decode_offset_def BIT_readBitsFast_def Let_def code_def t_def)
    then show ?thesis using t p[of 0] p[of 1] p[of 2] by (auto simp: reps_ok_def)
  qed
qed

lemma decodeSequence_ok:
  assumes ok: "seqState_ok ss" and r: "ZSTD_decodeSequence ss isLast = (s, ss')"
  shows "1 \<le> offset s \<and> offset s < 2 ^ 64 \<and> 3 \<le> matchLength s \<and> matchLength s \<le> 131074 \<and> litLength s \<le> 131071
    \<and> seqState_ok ss'"
proof -
  let ?ll = "fs_table (stateLL ss) ! fs_state (stateLL ss)" and ?ml = "fs_table (stateML ss) ! fs_state (stateML ss)"
    and ?of = "fs_table (stateOffb ss) ! fs_state (stateOffb ss)"
  have ok': "fse_state_ok LLFSELog LL_base LL_bits (stateLL ss)" "fse_state_ok OffFSELog OF_base OF_bits (stateOffb ss)"
    "fse_state_ok MLFSELog ML_base ML_bits (stateML ss)" "reps_ok (prevOffset ss)" using ok by (auto simp: seqState_ok_def)
  have ll: "baseValue ?ll \<le> 65536" "nbAdditionalBits ?ll \<le> 16"
    by (rule fse_state_cell[OF ok'(1)], use LL_codes seq_lengths in simp)+
  have ml: "3 \<le> baseValue ?ml" "baseValue ?ml \<le> 65539" "nbAdditionalBits ?ml \<le> 16"
    by (rule fse_state_cell[OF ok'(3)], use ML_codes seq_lengths in simp)+
  have off: "nbAdditionalBits ?of \<le> 31" "nbAdditionalBits ?of = 1 \<longrightarrow> baseValue ?of = 1"
    "1 < nbAdditionalBits ?of \<longrightarrow> 1 \<le> baseValue ?of \<and> baseValue ?of < 2 ^ 31"
    by (rule fse_state_cell[OF ok'(2)], use OF_codes seq_lengths in simp)+
  obtain off prev b1 where o: "decode_offset (baseValue ?of) (nbAdditionalBits ?of) (baseValue ?ll = 0) (prevOffset ss)
      (ss_DStream ss) = (off, prev, b1)" by (metis prod_cases3)
  obtain m b2 where m: "add_bits (baseValue ?ml) (nbAdditionalBits ?ml) b1 = (m, b2)" by fastforce
  define b3 where "b3 = (if (nbAdditionalBits ?ll + nbAdditionalBits ?ml + nbAdditionalBits ?of) mod 2 ^ 8
      \<ge> STREAM_ACCUMULATOR_MIN_64 - (LLFSELog + MLFSELog + OffFSELog) then snd (BIT_reloadDStream b2) else b2)"
  obtain l b4 where l: "add_bits (baseValue ?ll) (nbAdditionalBits ?ll) b3 = (l, b4)" by fastforce
  have s: "s = \<lparr>litLength = l, matchLength = m, offset = off\<rparr>"
    using r unfolding ZSTD_decodeSequence_def Let_def o prod.case m b3_def[symmetric] l by (auto split: if_splits prod.splits)
  have ok2: "1 \<le> off \<and> off < 2 ^ 64 \<and> reps_ok prev" by (rule decode_offset_ok[OF ok'(4) off o])
  have mb: "3 \<le> m" "m \<le> 131074" using add_bits_bounds[of "nbAdditionalBits ?ml" "baseValue ?ml" b1] ml m by auto
  have lb: "l \<le> 131071" using add_bits_bounds[of "nbAdditionalBits ?ll" "baseValue ?ll" b3] ll l by auto
  have st: "seqState_ok ss'"
  proof (cases isLast)
    case True
    then have "ss' = ss\<lparr>ss_DStream := b4, prevOffset := prev\<rparr>"
      using r unfolding ZSTD_decodeSequence_def Let_def o prod.case m b3_def[symmetric] l by simp
    then show ?thesis using ok' ok2 by (simp add: seqState_ok_def)
  next
    case False
    obtain x1 b5 where x1: "ZSTD_updateFseStateWithDInfo (stateLL ss) b4 (nextState ?ll) (sq_nbBits ?ll) = (x1, b5)" by fastforce
    obtain x2 b6 where x2: "ZSTD_updateFseStateWithDInfo (stateML ss) b5 (nextState ?ml) (sq_nbBits ?ml) = (x2, b6)" by fastforce
    obtain x3 b7 where x3: "ZSTD_updateFseStateWithDInfo (stateOffb ss) b6 (nextState ?of) (sq_nbBits ?of) = (x3, b7)" by fastforce
    have "ss' = ss\<lparr>prevOffset := prev, ss_DStream := snd (BIT_reloadDStream b7), stateLL := x1, stateML := x2, stateOffb := x3\<rparr>"
      using r False x1 x2 x3 unfolding ZSTD_decodeSequence_def Let_def o prod.case m b3_def[symmetric] l by auto
    then show ?thesis
      using fse_state_update[OF ok'(1), of b4] fse_state_update[OF ok'(3), of b5] fse_state_update[OF ok'(2), of b6] x1 x2 x3 ok2
      by (simp add: seqState_ok_def seq_constants)
  qed
  show ?thesis using s ok2 mb lb st by simp
qed

lemma init_seqState_ok:
  assumes "init_seqState en src = Inr ss" "seq_tables_ok en" "reps_ok (sq_rep en)"
  shows "seqState_ok ss"
proof -
  from assms(1) obtain b0 where b0: "BIT_initDStream src = Inr b0"
    by (auto simp: init_seqState_def split: sum.splits)
  obtain x1 b1 where x1: "ZSTD_initFseState b0 (LLTptr en) = (x1, b1)" by fastforce
  obtain x2 b2 where x2: "ZSTD_initFseState b1 (OFTptr en) = (x2, b2)" by fastforce
  obtain x3 b3 where x3: "ZSTD_initFseState b2 (MLTptr en) = (x3, b3)" by fastforce
  have "ss = \<lparr>ss_DStream = b3, stateLL = x1, stateOffb = x2, stateML = x3, prevOffset = sq_rep en\<rparr>"
    using assms(1) by (simp add: init_seqState_def b0 x1 x2 x3)
  then show ?thesis
    using fse_state_init[of LLFSELog LL_base LL_bits "LLTptr en" b0] fse_state_init[of OffFSELog OF_base OF_bits "OFTptr en" b1]
      fse_state_init[of MLFSELog ML_base ML_bits "MLTptr en" b2] x1 x2 x3 assms(2,3)
    by (simp add: seqState_ok_def seq_tables_ok_def seq_constants)
qed

subsection \<open>Reading agrees with the format\<close>

text \<open>
  The register has room for \<open>k\<close> bits, or holds the rest of the stream.  A read agrees with the format
  when it gives the same value and leaves the reader at the same point, or has run over the end of a
  stream that is too short.
\<close>

definition fits :: "nat \<Rightarrow> BIT_DStream_t \<Rightarrow> bool" where
  "fits k d \<longleftrightarrow> d_pos d = 0 \<or> d_bitsConsumed d + k \<le> 64"

definition at :: "BIT_DStream_t \<Rightarrow> bits \<Rightarrow> bool" where
  "at d b \<longleftrightarrow> reads d (fst b) (snd b)"

definition read_agrees :: "(nat \<times> bits) option \<Rightarrow> nat \<Rightarrow> nat \<Rightarrow> BIT_DStream_t \<Rightarrow> bool" where
  "read_agrees r k v d \<longleftrightarrow> (case r of None \<Rightarrow> overrun d | Some (v', b) \<Rightarrow> v = v' \<and> at d b \<and> fits k d)"

lemma fits_mono: "fits k d \<Longrightarrow> j \<le> k \<Longrightarrow> fits j d"
  by (auto simp: fits_def)

lemma readBits_agrees:
  assumes "at d b" "fits k d" "n \<le> k" "n < 64"
  shows "read_agrees (take_bits n b) (k - n) (unat (fst (BIT_readBits d n))) (snd (BIT_readBits d n))"
proof (cases "d_bitsConsumed d + n \<le> 64")
  case True
  have d: "d_inv d" "d_val d = fst b" "d_len d = snd b" using assms(1) by (simp_all add: at_def reads_def)
  have "n \<le> snd b" using True d_len_eq[OF d(1)] d(3) by simp
  moreover have "fits (k - n) (snd (BIT_readBits d n))"
    using assms(2,3) by (auto simp: fits_def BIT_readBits_def BIT_skipBits_def d_pos_def)
  ultimately show ?thesis using readBits_spec[OF d(1) True assms(4)] d(2,3)
    by (cases b) (simp add: read_agrees_def at_def reads_def)
next
  case False
  then have "d_pos d = 0" using assms(2,3) by (auto simp: fits_def)
  moreover have "d_inv d" "d_len d = snd b" using assms(1) by (simp_all add: at_def reads_def)
  ultimately have "snd b = 64 - d_bitsConsumed d" "d_bitsConsumed d \<le> 64" using d_len_eq[of d] by (auto simp: d_inv_def)
  then have "\<not> n \<le> snd b" using False by linarith
  then show ?thesis using False
    by (cases b) (simp add: read_agrees_def overrun_def BIT_readBits_def BIT_skipBits_def)
qed

lemma readBitsFast_agrees:
  assumes "at d b" "fits k d" "n \<le> k" "1 \<le> n" "n < 64"
  shows "read_agrees (take_bits n b) (k - n) (unat (fst (BIT_readBitsFast d n))) (snd (BIT_readBitsFast d n))"
proof (cases "d_bitsConsumed d + n \<le> 64")
  case True
  show ?thesis unfolding readBitsFast_eq[OF True assms(4,5)] by (rule readBits_agrees[OF assms(1-3,5)])
next
  case False
  have "snd (BIT_readBitsFast d n) = snd (BIT_readBits d n)" by (simp add: BIT_readBitsFast_def BIT_readBits_def)
  moreover have "take_bits n b = None"
    using readBits_agrees[OF assms(1-3,5)] False
    by (auto simp: read_agrees_def at_def reads_def d_inv_def BIT_readBits_def BIT_skipBits_def split: option.splits)
  ultimately show ?thesis using readBits_agrees[OF assms(1-3,5)] by (simp add: read_agrees_def)
qed

lemma reload_agrees: "at d b \<Longrightarrow> at (snd (BIT_reloadDStream d)) b \<and> fits 57 (snd (BIT_reloadDStream d))"
  using reload_spec(4)[of d] reads_reload[of d] by (auto simp: at_def reads_def fits_def)

text \<open>Once over the end, the reader stays there.\<close>

lemma overrun_read [simp]:
  "overrun d \<Longrightarrow> overrun (snd (BIT_readBits d n))" "overrun d \<Longrightarrow> overrun (snd (BIT_readBitsFast d n))"
  "overrun d \<Longrightarrow> overrun (snd (BIT_reloadDStream d))"
  using overrun_reload by (auto simp: overrun_def BIT_readBits_def BIT_readBitsFast_def BIT_skipBits_def)

lemma overrun_add_bits: "overrun d \<Longrightarrow> overrun (snd (add_bits base nb d))"
  by (auto simp: add_bits_def split_beta)

lemma overrun_decode_offset: "overrun d \<Longrightarrow> overrun (snd (snd (decode_offset ofBase ofBits ll0 prev d)))"
  by (auto simp: decode_offset_def split_beta Let_def)

lemma overrun_update: "overrun d \<Longrightarrow> overrun (snd (ZSTD_updateFseStateWithDInfo st d next nb))"
  by (auto simp: ZSTD_updateFseStateWithDInfo_def split_beta)

lemma overrun_decodeSequence:
  assumes "overrun (ss_DStream ss)"
  shows "overrun (ss_DStream (snd (ZSTD_decodeSequence ss isLast)))"
  using assms
  by (simp add: ZSTD_decodeSequence_def Let_def split_beta overrun_add_bits overrun_decode_offset overrun_update)

lemma overrun_decode_sequences: "overrun (ss_DStream ss) \<Longrightarrow> overrun (ss_DStream (snd (decode_sequences n ss)))"
proof (induction n arbitrary: ss)
  case (Suc n)
  then show ?case using overrun_decodeSequence[OF Suc.prems, of "n = 0"] by (simp add: split_beta Let_def)
qed simp

lemma add_bits_agrees:
  assumes "at d b" "fits k d" "nb \<le> k" "nb \<le> 16" "base \<le> 2 ^ 32"
  shows "case take_bits nb b of None \<Rightarrow> overrun (snd (add_bits base nb d))
    | Some (v, b') \<Rightarrow> fst (add_bits base nb d) = base + v \<and> at (snd (add_bits base nb d)) b' \<and> fits (k - nb) (snd (add_bits base nb d))"
proof (cases "nb = 0")
  case True
  then show ?thesis using assms by (cases b) (auto simp: add_bits_def at_def reads_def d_val_def)
next
  case False
  have "unat (fst (BIT_readBitsFast d nb)) < 2 ^ 16"
    using lookBitsFast_less[of nb d] power_increasing[of nb 16 "2::nat"] False assms(4) by (simp add: BIT_readBitsFast_def)
  then have "(base + unat (fst (BIT_readBitsFast d nb))) mod 2 ^ 64 = base + unat (fst (BIT_readBitsFast d nb))"
    using assms(5) by simp
  then show ?thesis using readBitsFast_agrees[OF assms(1-3), of] False assms(4)
    by (auto simp: add_bits_def read_agrees_def split_beta split: option.splits)
qed

text \<open>Recent offsets of the format: a decoder that has met the offset zero has the largest number instead.\<close>

definition recent_ok :: "recent \<Rightarrow> bool" where
  "recent_ok = (\<lambda>(r1, r2, r3). \<forall>r\<in>{r1, r2, r3}. 0 < r \<and> r < 2 ^ 32)"

definition same_recent :: "nat list \<Rightarrow> recent \<Rightarrow> bool" where
  "same_recent prev = (\<lambda>(r1, r2, r3). prev = [r1, r2, r3])"

lemma decode_offset_recent:
  assumes v: "v = unat (fst (BIT_readBitsFast d 1))" "v < 2" and r: "0 < r1" "0 < r2" "0 < r3" "r1 < 2 ^ 32"
  shows "decode_offset 1 1 ll0 [r1, r2, r3] d =
    (case format_offset (2 + v) ll0 (r1, r2, r3) of (o', a, b, c) \<Rightarrow>
      let off = (if o' = 0 then 2 ^ 64 - 1 else o') in (off, [off, b, c], snd (BIT_readBitsFast d 1)))"
proof -
  obtain w d1 where w: "BIT_readBitsFast d 1 = (w, d1)" by fastforce
  have "r1 + 2 ^ 64 - 1 = (r1 - 1) + 2 ^ 64" using r(1) by simp
  moreover have "(r1 - 1) mod 2 ^ 64 = r1 - 1" using r(4) by simp
  ultimately have m: "([r1, r2, r3] ! 0 + 2 ^ 64 - 1) mod 2 ^ 64 = r1 - 1" by (simp only: nth_Cons_0 mod_add_self2)
  define f where "f code = (let temp = (if code = 3 then ([r1, r2, r3] ! 0 + 2 ^ 64 - 1) mod 2 ^ 64 else [r1, r2, r3] ! code);
      temp = (if temp = 0 then 2 ^ 64 - 1 else temp)
    in (temp, [temp, [r1, r2, r3] ! 0, if code \<noteq> 1 then [r1, r2, r3] ! 1 else [r1, r2, r3] ! 2], d1))" for code
  have "decode_offset 1 1 ll0 [r1, r2, r3] d = f ((1 + of_bool ll0 + unat w) mod 2 ^ 64)"
    by (simp only: decode_offset_def w f_def Let_def prod.case less_irrefl if_False one_neq_zero)
  moreover have "1 + of_bool ll0 + unat w < 4" using v w by (cases ll0) auto
  then have "(1 + of_bool ll0 + unat w) mod 2 ^ 64 = 1 + of_bool ll0 + v" using v(1) w by simp
  moreover have f: "f 1 = (r2, [r2, r1, r3], d1)" "f 2 = (r3, [r3, r1, r2], d1)"
    using r(2,3) by (simp_all add: f_def)
  moreover have "f 3 = (let off = (if r1 - 1 = 0 then 2 ^ 64 - 1 else r1 - 1) in (off, [off, r1, r2], d1))"
    unfolding f_def m by (simp add: Let_def)
  moreover have "v = 0 \<or> v = 1" using v(2) by auto
  ultimately show ?thesis using r(2,3) w by (cases ll0) (auto simp: numeral_2_eq_2[symmetric] numeral_3_eq_3[symmetric] Let_def)
qed

lemma decode_offset_agrees:
  assumes "at d b" "fits k d" "nb \<le> k" "nb \<le> 31" "base = (if nb = 0 then 0 else if nb = 1 then 1 else 2 ^ nb - 3)"
    and r: "same_recent prev r" "recent_ok r" and e: "decode_offset base nb ll0 prev d = (off, prev', d')"
  shows "case take_bits nb b of None \<Rightarrow> overrun d'
    | Some (v, b') \<Rightarrow> at d' b' \<and> fits (k - nb) d' \<and> (case format_offset (2 ^ nb + v) ll0 r of
        (o', r') \<Rightarrow> if o' = 0 then off = 2 ^ 64 - 1 else off = o' \<and> same_recent prev' r' \<and> recent_ok r')"
proof -
  obtain r1 r2 r3 where rr: "r = (r1, r2, r3)" by (metis prod_cases3)
  have p: "prev = [r1, r2, r3]" and pos: "0 < r1" "0 < r2" "0 < r3" "r1 < 2 ^ 32" "r2 < 2 ^ 32" "r3 < 2 ^ 32"
    using r by (auto simp: rr same_recent_def recent_ok_def)
  show ?thesis
  proof (cases "nb = 0")
    case True
    have "take_bits 0 b = Some (0, b)" using assms(1) by (cases b) (auto simp: at_def reads_def d_val_def)
    then show ?thesis using True assms(1,2,5) e pos
      by (cases ll0) (auto simp: decode_offset_def Let_def p rr same_recent_def recent_ok_def)
  next
    case False
    define v where "v = unat (fst (BIT_readBitsFast d nb))"
    have d': "d' = snd (BIT_readBitsFast d nb)" 
      using e False by (cases "nb = 1") (auto simp: decode_offset_def split_beta Let_def split: if_splits)
    have a: "read_agrees (take_bits nb b) (k - nb) v d'"
      unfolding v_def d' using assms(1-4) False by (intro readBitsFast_agrees) auto
    have v: "v < 2 ^ nb" using lookBitsFast_less[of nb d] False assms(4) by (simp add: v_def BIT_readBitsFast_def)
    have "case format_offset (2 ^ nb + v) ll0 r of
        (o', r') \<Rightarrow> if o' = 0 then off = 2 ^ 64 - 1 else off = o' \<and> same_recent prev' r' \<and> recent_ok r'"
    proof (cases "nb = 1")
      case True
      have "v < 2" using v True by simp
      note dr = decode_offset_recent[OF v_def[unfolded True] this pos(1-4), of ll0]
      show ?thesis using e True assms(5) dr pos \<open>v < 2\<close> unfolding p rr
        by (auto simp: same_recent_def recent_ok_def Let_def split: prod.splits if_splits)
    next
      case big: False
      have n4: "(4::nat) \<le> 2 ^ nb" using power_increasing[of 2 nb "2::nat"] False big by simp
      have n31: "(2::nat) ^ nb \<le> 2 ^ 31" using assms(4) by (intro power_increasing) simp_all
      have "off = 2 ^ nb - 3 + v" "prev' = [off, r1, r2]"
        using e False big assms(5) v n31 n4
        by (auto simp: decode_offset_def split_beta Let_def p v_def)
      then show ?thesis using n4 n31 v pos by (auto simp: rr same_recent_def recent_ok_def)
    qed
    then show ?thesis using a by (auto simp: read_agrees_def split: option.splits)
  qed
qed


subsection \<open>Sequences agree with the format\<close>

definition follows :: "ZSTD_seqEntropy \<Rightarrow> seqState_t \<Rightarrow> format_state \<Rightarrow> bool" where
  "follows en ss st \<longleftrightarrow> at (ss_DStream ss) (fm_bits st)
     \<and> stateLL ss = \<lparr>fs_state = fm_ll st, fs_table = sq_cells (LLTptr en)\<rparr>
     \<and> stateOffb ss = \<lparr>fs_state = fm_of st, fs_table = sq_cells (OFTptr en)\<rparr>
     \<and> stateML ss = \<lparr>fs_state = fm_ml st, fs_table = sq_cells (MLTptr en)\<rparr>
     \<and> same_recent (prevOffset ss) (fm_recent st) \<and> recent_ok (fm_recent st)"

lemma fse_state_nbBits:
  "fse_state_ok maxLog base addBits st \<Longrightarrow> sq_nbBits (fs_table st ! fs_state st) \<le> maxLog"
  using seq_table_okD[of maxLog base addBits _ "fs_state st"]
  by (fastforce simp: fse_state_ok_def seq_cell_ok_def seq_table_ok_def)

lemma OF_code_values:
  "s < 32 \<Longrightarrow> OF_base ! s = (if OF_bits ! s = 0 then 0 else if OF_bits ! s = 1 then 1 else 2 ^ (OF_bits ! s) - 3)"
proof -
  have "list_all (\<lambda>(b, a). b = (if a = 0 then 0 else if a = 1 then 1 else 2 ^ a - 3)) (zip OF_base OF_bits)"
    by (simp add: OF_base_def OF_bits_def)
  then show "s < 32 \<Longrightarrow> ?thesis" using seq_lengths(3,4) by (auto simp: list_all_length)
qed

lemma LL_code_zero: "s < 36 \<Longrightarrow> LL_base ! s = 0 \<Longrightarrow> LL_bits ! s = 0"
proof -
  have "list_all (\<lambda>(b, a). b = 0 \<longrightarrow> a = 0) (zip LL_base LL_bits)" by (simp add: LL_base_def LL_bits_def)
  then show "s < 36 \<Longrightarrow> LL_base ! s = 0 \<Longrightarrow> ?thesis" using seq_lengths(1,2) by (auto simp: list_all_length)
qed

text \<open>What the cells of the current states can hold.\<close>

lemma current_cells:
  assumes "seqState_ok ss" "follows en ss st"
  shows "baseValue (ll_cell en st) \<le> 65536" "nbAdditionalBits (ll_cell en st) \<le> 16"
    "baseValue (ll_cell en st) = 0 \<Longrightarrow> nbAdditionalBits (ll_cell en st) = 0"
    "baseValue (ml_cell en st) \<le> 65539" "nbAdditionalBits (ml_cell en st) \<le> 16"
    "nbAdditionalBits (of_cell en st) \<le> 31"
    "baseValue (of_cell en st) = (if nbAdditionalBits (of_cell en st) = 0 then 0
      else if nbAdditionalBits (of_cell en st) = 1 then 1 else 2 ^ nbAdditionalBits (of_cell en st) - 3)"
    "sq_nbBits (ll_cell en st) \<le> 9" "sq_nbBits (ml_cell en st) \<le> 9" "sq_nbBits (of_cell en st) \<le> 8"
proof -
  have c: "fs_table (stateLL ss) ! fs_state (stateLL ss) = ll_cell en st"
    "fs_table (stateML ss) ! fs_state (stateML ss) = ml_cell en st"
    "fs_table (stateOffb ss) ! fs_state (stateOffb ss) = of_cell en st"
    using assms(2) by (simp_all add: follows_def ll_cell_def ml_cell_def of_cell_def)
  have ok: "fse_state_ok LLFSELog LL_base LL_bits (stateLL ss)" "fse_state_ok OffFSELog OF_base OF_bits (stateOffb ss)"
    "fse_state_ok MLFSELog ML_base ML_bits (stateML ss)" using assms(1) by (auto simp: seqState_ok_def)
  show "baseValue (ll_cell en st) \<le> 65536" "nbAdditionalBits (ll_cell en st) \<le> 16"
    "baseValue (ll_cell en st) = 0 \<Longrightarrow> nbAdditionalBits (ll_cell en st) = 0"
    by (rule fse_state_cell[OF ok(1)], use LL_codes LL_code_zero seq_lengths c in simp)+
  show "baseValue (ml_cell en st) \<le> 65539" "nbAdditionalBits (ml_cell en st) \<le> 16"
    by (rule fse_state_cell[OF ok(3)], use ML_codes seq_lengths c in simp)+
  show "nbAdditionalBits (of_cell en st) \<le> 31"
    by (rule fse_state_cell[OF ok(2)], use OF_codes seq_lengths c in simp)
  show "baseValue (of_cell en st) = (if nbAdditionalBits (of_cell en st) = 0 then 0
      else if nbAdditionalBits (of_cell en st) = 1 then 1 else 2 ^ nbAdditionalBits (of_cell en st) - 3)"
  proof (rule fse_state_cell[OF ok(2)])
    fix s assume "s < length OF_base" "baseValue (fs_table (stateOffb ss) ! fs_state (stateOffb ss)) = OF_base ! s"
      "nbAdditionalBits (fs_table (stateOffb ss) ! fs_state (stateOffb ss)) = OF_bits ! s"
    then show ?thesis using OF_code_values[of s] seq_lengths(3) by (simp add: c(3))
  qed
  show "sq_nbBits (ll_cell en st) \<le> 9" "sq_nbBits (ml_cell en st) \<le> 9" "sq_nbBits (of_cell en st) \<le> 8"
    using fse_state_nbBits[OF ok(1)] fse_state_nbBits[OF ok(2)] fse_state_nbBits[OF ok(3)] c by (simp_all add: seq_constants)
qed

text \<open>The values of a sequence.  The register is reloaded when the three states would not fit otherwise.\<close>

definition decode_values :: "ZSTD_seqEntropy \<Rightarrow> format_state \<Rightarrow> nat list \<Rightarrow> BIT_DStream_t \<Rightarrow> seq_t \<times> nat list \<times> BIT_DStream_t" where
  "decode_values en st prev d =
     (let (off, prev, d) = decode_offset (baseValue (of_cell en st)) (nbAdditionalBits (of_cell en st)) (baseValue (ll_cell en st) = 0) prev d;
          (m, d) = add_bits (baseValue (ml_cell en st)) (nbAdditionalBits (ml_cell en st)) d;
          d = (if (nbAdditionalBits (ll_cell en st) + nbAdditionalBits (ml_cell en st) + nbAdditionalBits (of_cell en st)) mod 2 ^ 8
                  \<ge> STREAM_ACCUMULATOR_MIN_64 - (LLFSELog + MLFSELog + OffFSELog)
               then snd (BIT_reloadDStream d) else d);
          (l, d) = add_bits (baseValue (ll_cell en st)) (nbAdditionalBits (ll_cell en st)) d
      in (\<lparr>litLength = l, matchLength = m, offset = off\<rparr>, prev, d))"

definition decode_states :: "ZSTD_seqEntropy \<Rightarrow> format_state \<Rightarrow> seqState_t \<Rightarrow> seqState_t" where
  "decode_states en st ss =
     (let (ll, d) = ZSTD_updateFseStateWithDInfo (stateLL ss) (ss_DStream ss) (nextState (ll_cell en st)) (sq_nbBits (ll_cell en st));
          (ml, d) = ZSTD_updateFseStateWithDInfo (stateML ss) d (nextState (ml_cell en st)) (sq_nbBits (ml_cell en st));
          (off, d) = ZSTD_updateFseStateWithDInfo (stateOffb ss) d (nextState (of_cell en st)) (sq_nbBits (of_cell en st))
      in ss\<lparr>ss_DStream := snd (BIT_reloadDStream d), stateLL := ll, stateML := ml, stateOffb := off\<rparr>)"

lemma decodeSequence_parts:
  assumes "follows en ss st"
  shows "ZSTD_decodeSequence ss isLast =
    (case decode_values en st (prevOffset ss) (ss_DStream ss) of (s, prev, d) \<Rightarrow>
       let ss = ss\<lparr>ss_DStream := d, prevOffset := prev\<rparr> in (s, if isLast then ss else decode_states en st ss))"
proof -
  have c: "fs_table (stateLL ss) ! fs_state (stateLL ss) = ll_cell en st"
    "fs_table (stateML ss) ! fs_state (stateML ss) = ml_cell en st"
    "fs_table (stateOffb ss) ! fs_state (stateOffb ss) = of_cell en st"
    using assms by (simp_all add: follows_def ll_cell_def ml_cell_def of_cell_def)
  show ?thesis
    unfolding ZSTD_decodeSequence_def c Let_def decode_values_def decode_states_def split_beta by (cases isLast) simp_all
qed

lemma decode_values_agree:
  assumes ok: "seqState_ok ss" and f: "follows en ss st" and fit: "fits 57 (ss_DStream ss)"
    and v: "decode_values en st (prevOffset ss) (ss_DStream ss) = (s, prev, d)"
  shows "case format_sequence en st of None \<Rightarrow> overrun d
    | Some (s', st') \<Rightarrow> at d (fm_bits st') \<and> fits 26 d
        \<and> (if offset s' = 0 then s = s'\<lparr>offset := 2 ^ 64 - 1\<rparr>
           else s = s' \<and> same_recent prev (fm_recent st') \<and> recent_ok (fm_recent st'))"
proof -
  note c = current_cells[OF ok f]
  let ?nl = "nbAdditionalBits (ll_cell en st)" and ?nm = "nbAdditionalBits (ml_cell en st)" and ?no = "nbAdditionalBits (of_cell en st)"
    and ?bl = "baseValue (ll_cell en st)" and ?bm = "baseValue (ml_cell en st)"
  obtain off prev1 d1 where o1: "decode_offset (baseValue (of_cell en st)) ?no (?bl = 0) (prevOffset ss) (ss_DStream ss) = (off, prev1, d1)"
    by (metis prod_cases3)
  obtain m d2 where m: "add_bits ?bm ?nm d1 = (m, d2)" by fastforce
  define re where "re = ((?nl + ?nm + ?no) mod 2 ^ 8 \<ge> STREAM_ACCUMULATOR_MIN_64 - (LLFSELog + MLFSELog + OffFSELog))"
  define d3 where "d3 = (if re then snd (BIT_reloadDStream d2) else d2)"
  obtain l d4 where l: "add_bits ?bl ?nl d3 = (l, d4)" by fastforce
  have res: "s = \<lparr>litLength = l, matchLength = m, offset = off\<rparr>" "prev = prev1" "d = d4"
    using v unfolding decode_values_def Let_def o1 prod.case m re_def[symmetric] d3_def[symmetric] l by simp_all
  have f': "at (ss_DStream ss) (fm_bits st)" "same_recent (prevOffset ss) (fm_recent st)" "recent_ok (fm_recent st)"
    using f by (auto simp: follows_def)
  note o2 = decode_offset_agrees[OF f'(1) fit _ c(6) c(7) f'(2,3) o1, simplified]
  have over: "overrun d1 \<Longrightarrow> overrun d4" "overrun d2 \<Longrightarrow> overrun d4" "overrun d3 \<Longrightarrow> overrun d4"
    using overrun_add_bits[of d1 ?bm ?nm] overrun_add_bits[of d3 ?bl ?nl] m l by (auto simp: d3_def)
  show ?thesis
  proof (cases "take_bits ?no (fm_bits st)")
    case None
    then show ?thesis using o2 c(6) over(1) res(3) by (simp add: format_sequence_def)
  next
    case s1: (Some p1)
    obtain v1 b1 where p1: "p1 = (v1, b1)" by (cases p1)
    have a1: "at d1 b1" "fits (57 - ?no) d1" using o2 s1 p1 c(6) by auto
    have k1: "?nm \<le> 57 - ?no" using c(5,6) by linarith
    have bm: "?bm \<le> 2 ^ 32" "?bl \<le> 2 ^ 32" using c(1,4) by simp_all
    note m2 = add_bits_agrees[OF a1 k1 c(5) bm(1), unfolded m fst_conv snd_conv]
    show ?thesis
    proof (cases "take_bits ?nm b1")
      case None
      then show ?thesis using m2 over(2) res(3) s1 p1 by (simp add: format_sequence_def)
    next
      case s2: (Some p2)
      obtain v2 b2 where p2: "p2 = (v2, b2)" by (cases p2)
      have a2: "at d2 b2" "fits (57 - ?no - ?nm) d2" and mm: "m = ?bm + v2" using m2 s2 p2 by auto
      have a3: "at d3 b2" "fits (?nl + 26) d3"
      proof -
        have sum: "(?nl + ?nm + ?no) mod 2 ^ 8 = ?nl + ?nm + ?no" using c(2,5,6) by simp
        have "fits (?nl + 26) d2" if "\<not> re"
        proof -
          have "?nl + ?nm + ?no < 31" using that unfolding re_def sum by (simp add: seq_constants STREAM_ACCUMULATOR_MIN_64_def)
          then show ?thesis by (intro fits_mono[OF a2(2)]) linarith
        qed
        moreover have "fits (?nl + 26) (snd (BIT_reloadDStream d2))"
          using c(2) conjunct2[OF reload_agrees[OF a2(1)]] by (rule_tac fits_mono[of 57]) auto
        ultimately show "at d3 b2" "fits (?nl + 26) d3" using reload_agrees[OF a2(1)] a2(1) by (auto simp: d3_def)
      qed
      note l2 = add_bits_agrees[OF a3 le_add1 c(2) bm(2), unfolded l fst_conv snd_conv]
      show ?thesis
      proof (cases "take_bits ?nl b2")
        case None
        then show ?thesis using l2 res(3) s1 p1 s2 p2 by (simp add: format_sequence_def)
      next
        case s3: (Some p3)
        obtain v3 b3 where p3: "p3 = (v3, b3)" by (cases p3)
        have a4: "at d4 b3" "fits 26 d4" and ll: "l = ?bl + v3" using l2 s3 p3 by auto
        have "?bl + v3 = 0 \<longleftrightarrow> ?bl = 0"
          using c(3) l ll by (auto simp: add_bits_def)
        then show ?thesis using o2 s1 p1 s2 p2 s3 p3 a4 mm ll res c(6)
          by (auto simp: format_sequence_def Let_def split: prod.splits if_splits)
      qed
    qed
  qed
qed


lemma update_agrees:
  assumes "at d b" "fits k d" "nb \<le> k" "nb \<le> 9"
  shows "case take_bits nb b of None \<Rightarrow> overrun (snd (ZSTD_updateFseStateWithDInfo s d next nb))
    | Some (v, b') \<Rightarrow> ZSTD_updateFseStateWithDInfo s d next nb = (s\<lparr>fs_state := next + v\<rparr>, snd (BIT_readBits d nb))
        \<and> at (snd (BIT_readBits d nb)) b' \<and> fits (k - nb) (snd (BIT_readBits d nb))"
  using readBits_agrees[OF assms(1-3)] assms(4)
  by (auto simp: ZSTD_updateFseStateWithDInfo_def read_agrees_def split_beta split: option.splits)

lemma decode_states_agree:
  assumes ok: "seqState_ok ss" and f: "follows en ss st" and fit: "fits 26 (ss_DStream ss)"
  shows "case format_next en st of None \<Rightarrow> overrun (ss_DStream (decode_states en st ss))
    | Some st' \<Rightarrow> follows en (decode_states en st ss) st' \<and> fits 57 (ss_DStream (decode_states en st ss))"
proof -
  note c = current_cells(8-10)[OF ok f]
  let ?nl = "sq_nbBits (ll_cell en st)" and ?nm = "sq_nbBits (ml_cell en st)" and ?no = "sq_nbBits (of_cell en st)"
  let ?d1 = "snd (BIT_readBits (ss_DStream ss) ?nl)"
  let ?d2 = "snd (BIT_readBits ?d1 ?nm)"
  let ?d3 = "snd (BIT_readBits ?d2 ?no)"
  have d: "ss_DStream (decode_states en st ss) = snd (BIT_reloadDStream ?d3)"
    by (simp add: decode_states_def ZSTD_updateFseStateWithDInfo_def split_beta)
  have f': "at (ss_DStream ss) (fm_bits st)" using f by (simp add: follows_def)
  have k: "?nl \<le> 26" "?nm \<le> 26 - ?nl" "?no \<le> 26 - ?nl - ?nm" using c by linarith+
  have no: "?no \<le> 9" using c(3) by simp
  note u1 = readBits_agrees[OF f' fit k(1)]
  have over: "overrun ?d1 \<Longrightarrow> overrun (snd (BIT_reloadDStream ?d3))" "overrun ?d2 \<Longrightarrow> overrun (snd (BIT_reloadDStream ?d3))"
    "overrun ?d3 \<Longrightarrow> overrun (snd (BIT_reloadDStream ?d3))" by simp_all
  show ?thesis
  proof (cases "take_bits ?nl (fm_bits st)")
    case None
    then show ?thesis using u1 c over(1) by (simp add: format_next_def d read_agrees_def)
  next
    case s1: (Some p1)
    obtain v1 b1 where p1: "p1 = (v1, b1)" by (cases p1)
    have a1: "at ?d1 b1" "fits (26 - ?nl) ?d1" using u1 s1 p1 c by (auto simp: read_agrees_def)
    note u2 = readBits_agrees[OF a1 k(2)]
    show ?thesis
    proof (cases "take_bits ?nm b1")
      case None
      then show ?thesis using u2 c over(2) s1 p1 by (simp add: format_next_def d read_agrees_def)
    next
      case s2: (Some p2)
      obtain v2 b2 where p2: "p2 = (v2, b2)" by (cases p2)
      have a2: "at ?d2 b2" "fits (26 - ?nl - ?nm) ?d2" using u2 s2 p2 c by (auto simp: read_agrees_def)
      note u3 = update_agrees[OF a2 k(3) no]
      show ?thesis
      proof (cases "take_bits ?no b2")
        case None
        then have "overrun ?d3" using u3 by (simp add: ZSTD_updateFseStateWithDInfo_def split_beta)
        then show ?thesis using None over(3) s1 p1 s2 p2 by (simp add: format_next_def d)
      next
        case s3: (Some p3)
        obtain v3 b3 where p3: "p3 = (v3, b3)" by (cases p3)
        have a3: "at (snd (BIT_reloadDStream ?d3)) b3" "fits 57 (snd (BIT_reloadDStream ?d3))"
          using u3 s3 p3 reload_agrees[of ?d3 b3] by simp_all
        have "decode_states en st ss = ss\<lparr>ss_DStream := snd (BIT_reloadDStream ?d3),
            stateLL := (stateLL ss)\<lparr>fs_state := nextState (ll_cell en st) + v1\<rparr>,
            stateML := (stateML ss)\<lparr>fs_state := nextState (ml_cell en st) + v2\<rparr>,
            stateOffb := (stateOffb ss)\<lparr>fs_state := nextState (of_cell en st) + v3\<rparr>\<rparr>"
          using update_agrees[OF f' fit k(1) c(1)] update_agrees[OF a1 k(2) c(2)] u3 s1 p1 s2 p2 s3 p3
          by (simp add: decode_states_def)
        then show ?thesis using a3 f s1 p1 s2 p2 s3 p3 by (simp add: format_next_def follows_def)
      qed
    qed
  qed
qed

lemma format_sequence_keeps:
  assumes "format_sequence en st = Some (s, st')"
  shows "ll_cell en st' = ll_cell en st" "ml_cell en st' = ml_cell en st" "of_cell en st' = of_cell en st"
    "fm_ll st' = fm_ll st" "fm_ml st' = fm_ml st" "fm_of st' = fm_of st"
  using assms by (auto simp: format_sequence_def ll_cell_def ml_cell_def of_cell_def Let_def
      split: bind_splits prod.splits)

text \<open>
  The decoder reads the sequences the stream stands for.  When it ends too early, the sequences that
  follow are not there; after an offset of zero, which no decoder executes, they may be any.
\<close>

lemma decode_sequences_agree:
  assumes "seqState_ok ss" "follows en ss st" "fits 57 (ss_DStream ss)"
    and "format_sequences en n st = (S, r)" "decode_sequences n ss = (L, ss')"
  shows "(\<exists>t. L = S @ t \<and> (case r of None \<Rightarrow> overrun (ss_DStream ss') | Some st' \<Rightarrow> t = [] \<and> follows en ss' st'))
    \<or> (\<exists>p z q t. S = p @ z # q \<and> offset z = 0 \<and> L = p @ z\<lparr>offset := 2 ^ 64 - 1\<rparr> # t)"
  using assms
proof (induction n arbitrary: ss st S L)
  case (Suc n)
  obtain s prev d where v: "decode_values en st (prevOffset ss) (ss_DStream ss) = (s, prev, d)" by (metis prod_cases3)
  define ss1 where "ss1 = ss\<lparr>ss_DStream := d, prevOffset := prev\<rparr>"
  define ss2 where "ss2 = (if n = 0 then ss1 else decode_states en st ss1)"
  have dec: "ZSTD_decodeSequence ss (n = 0) = (s, ss2)"
    using decodeSequence_parts[OF Suc.prems(2), of "n = 0"] v by (simp add: ss2_def ss1_def Let_def)
  obtain L' where L': "decode_sequences n ss2 = (L', ss')" "L = s # L'"
    using Suc.prems(5) dec by (auto split: prod.splits)
  have ok2: "seqState_ok ss2" using decodeSequence_ok[OF Suc.prems(1) dec] by simp
  note va = decode_values_agree[OF Suc.prems(1-3) v]
  have end2: "overrun (ss_DStream ss2) \<Longrightarrow> overrun (ss_DStream ss')"
    using overrun_decode_sequences[of ss2 n] L'(1) by simp
  have over: "overrun d \<Longrightarrow> overrun (ss_DStream ss')"
  proof -
    assume "overrun d"
    then have "overrun (ss_DStream ss2)"
      by (simp add: ss2_def ss1_def decode_states_def split_beta overrun_update)
    then show ?thesis by (rule end2)
  qed
  show ?case
  proof (cases "format_sequence en st")
    case None
    then show ?thesis using va over Suc.prems(4) by auto
  next
    case (Some p)
    obtain s' st1 where p: "p = (s', st1)" by (cases p)
    note keep = format_sequence_keeps[OF Some[unfolded p]]
    show ?thesis
    proof (cases "offset s' = 0")
      case True
      then have "s = s'\<lparr>offset := 2 ^ 64 - 1\<rparr>" using va Some p by auto
      moreover have "\<exists>q. S = s' # q" using Suc.prems(4) Some p by (auto split: option.splits prod.splits if_splits)
      ultimately show ?thesis using True L'(2) by (metis append_Nil)
    next
      case False
      then have a: "at d (fm_bits st1)" "fits 26 d" "s = s'" "same_recent prev (fm_recent st1)" "recent_ok (fm_recent st1)"
        using va Some p by auto
      have f1: "follows en ss1 st1" using a Suc.prems(2) keep by (simp add: follows_def ss1_def)
      show ?thesis
      proof (cases "n = 0")
        case True
        then show ?thesis using Suc.prems(4) Some p L' f1 a(3) ss2_def by auto
      next
        case nz: False
        have dsec: "decode_states en st = decode_states en st1" by (rule ext) (simp add: decode_states_def keep)
        have "seqState_ok ss1"
        proof -
          have "ZSTD_decodeSequence ss True = (s, ss1)"
            using decodeSequence_parts[OF Suc.prems(2), of True] v by (simp add: ss1_def Let_def)
          then show ?thesis using decodeSequence_ok[OF Suc.prems(1)] by blast
        qed
        note ns = decode_states_agree[OF this f1, folded dsec]
        show ?thesis
        proof (cases "format_next en st1")
          case None
          then have "overrun (ss_DStream ss2)" using ns a(2) nz by (simp add: ss2_def ss1_def)
          then show ?thesis using None nz Suc.prems(4) Some p L'(2) a(3) end2 by auto
        next
          case s2: (Some st2)
          then have f2: "follows en ss2 st2" "fits 57 (ss_DStream ss2)" using ns a(2) nz by (simp_all add: ss2_def ss1_def)
          obtain S' where S': "format_sequences en n st2 = (S', r)" "S = s # S'"
            using Suc.prems(4) Some p nz s2 a(3) by (auto split: prod.splits)
          from Suc.IH[OF ok2 f2 S'(1) L'(1)] show ?thesis
          proof
            assume "\<exists>t. L' = S' @ t \<and> (case r of None \<Rightarrow> overrun (ss_DStream ss') | Some st' \<Rightarrow> t = [] \<and> follows en ss' st')"
            then show ?thesis unfolding S'(2) L'(2) by auto
          next
            assume "\<exists>p z q t. S' = p @ z # q \<and> offset z = 0 \<and> L' = p @ z\<lparr>offset := 2 ^ 64 - 1\<rparr> # t"
            then show ?thesis unfolding S'(2) L'(2) by (metis append_Cons)
          qed
        qed
      qed
    qed
  qed
qed auto


lemma init_state_agrees:
  assumes "at d b" "fits 56 d" "sq_tableLog dt \<le> 9"
  shows "case take_bits (sq_tableLog dt) b of None \<Rightarrow> overrun (snd (ZSTD_initFseState d dt))
    | Some (v, b') \<Rightarrow> fst (ZSTD_initFseState d dt) = \<lparr>fs_state = v, fs_table = sq_cells dt\<rparr>
        \<and> at (snd (ZSTD_initFseState d dt)) b' \<and> fits 57 (snd (ZSTD_initFseState d dt))"
  using readBits_agrees[OF assms(1,2), of "sq_tableLog dt"] assms(3) reload_agrees
  by (auto simp: ZSTD_initFseState_def read_agrees_def split_beta split: option.splits)

lemma overrun_init: "overrun d \<Longrightarrow> overrun (snd (ZSTD_initFseState d dt))"
  by (simp add: ZSTD_initFseState_def split_beta)

lemma init_seqState_agrees:
  assumes "seq_tables_ok en" "length (sq_rep en) = 3" "\<forall>r\<in>set (sq_rep en). 0 < r \<and> r < 2 ^ 32"
  shows "case stream_bits src of Inl _ \<Rightarrow> init_seqState en src = Inl ZSTD_error_corruption_detected
    | Inr bits \<Rightarrow> (\<exists>ss. init_seqState en src = Inr ss \<and> seqState_ok ss \<and>
        (case format_start en bits of None \<Rightarrow> overrun (ss_DStream ss) | Some st \<Rightarrow> follows en ss st \<and> fits 57 (ss_DStream ss)))"
proof (cases "stream_bits src")
  case (Inl e)
  then show ?thesis using init_error[OF Inl] by (simp add: init_seqState_def)
next
  case (Inr bits)
  obtain d0 where d0: "BIT_initDStream src = Inr d0" "at d0 bits" "fits 56 d0"
    using init_reads[of src "fst bits" "snd bits"] Inr by (auto simp: at_def fits_def)
  have logs: "sq_tableLog (LLTptr en) \<le> 9" "sq_tableLog (OFTptr en) \<le> 9" "sq_tableLog (MLTptr en) \<le> 9"
    using assms(1) by (auto simp: seq_tables_ok_def seq_table_ok_def seq_constants)
  obtain x1 d1 where x1: "ZSTD_initFseState d0 (LLTptr en) = (x1, d1)" by fastforce
  obtain x2 d2 where x2: "ZSTD_initFseState d1 (OFTptr en) = (x2, d2)" by fastforce
  obtain x3 d3 where x3: "ZSTD_initFseState d2 (MLTptr en) = (x3, d3)" by fastforce
  define ss where "ss = \<lparr>ss_DStream = d3, stateLL = x1, stateOffb = x2, stateML = x3, prevOffset = sq_rep en\<rparr>"
  have i: "init_seqState en src = Inr ss" by (simp add: init_seqState_def d0(1) x1 x2 x3 ss_def)
  have rep: "reps_ok (sq_rep en)" using assms(2,3) by (fastforce simp: reps_ok_def)
  obtain r1 r2 r3 where r: "sq_rep en = [r1, r2, r3]"
    using assms(2) by (auto simp: numeral_3_eq_3 length_Suc_conv)
  have rr: "same_recent (sq_rep en) (r1, r2, r3)" "recent_ok (r1, r2, r3)"
    using assms(3) by (auto simp: same_recent_def recent_ok_def r)
  have "case format_start en bits of None \<Rightarrow> overrun d3 | Some st \<Rightarrow> follows en ss st \<and> fits 57 d3"
  proof (cases "take_bits (sq_tableLog (LLTptr en)) bits")
    case None
    then have "overrun d1" using init_state_agrees[OF d0(2,3) logs(1)] x1 by simp
    then show ?thesis using None overrun_init[of d1 "OFTptr en"] overrun_init[of d2 "MLTptr en"] x2 x3
      by (simp add: format_start_def)
  next
    case s1: (Some p1)
    obtain v1 b1 where p1: "p1 = (v1, b1)" by (cases p1)
    have a1: "x1 = \<lparr>fs_state = v1, fs_table = sq_cells (LLTptr en)\<rparr>" "at d1 b1" "fits 56 d1"
      using init_state_agrees[OF d0(2,3) logs(1)] x1 s1 p1 fits_mono[of 57 d1 56] by auto
    show ?thesis
    proof (cases "take_bits (sq_tableLog (OFTptr en)) b1")
      case None
      then have "overrun d2" using init_state_agrees[OF a1(2,3) logs(2)] x2 by simp
      then show ?thesis using None s1 p1 overrun_init[of d2 "MLTptr en"] x3 by (simp add: format_start_def)
    next
      case s2: (Some p2)
      obtain v2 b2 where p2: "p2 = (v2, b2)" by (cases p2)
      have a2: "x2 = \<lparr>fs_state = v2, fs_table = sq_cells (OFTptr en)\<rparr>" "at d2 b2" "fits 56 d2"
        using init_state_agrees[OF a1(2,3) logs(2)] x2 s2 p2 fits_mono[of 57 d2 56] by auto
      show ?thesis using init_state_agrees[OF a2(2,3) logs(3)] x3 s1 p1 s2 p2 a1(1) a2(1) rr
        by (cases "take_bits (sq_tableLog (MLTptr en)) b2") (auto simp: format_start_def follows_def ss_def r)
    qed
  qed
  then show ?thesis using i Inr init_seqState_ok[OF i assms(1) rep] by (auto simp: ss_def split: option.splits)
qed

text \<open>Running what the decoder reads and what the stream stands for.\<close>

lemma run_zero_offset:
  assumes "offset z = 0" "length window + capacity < 2 ^ 64 - 1"
  shows "\<exists>e. lz_run capacity (z # q) literals window = Inl e
    \<and> lz_run capacity (z\<lparr>offset := 2 ^ 64 - 1\<rparr> # t) literals window = Inl e"
  using assms by auto

lemma run_agrees_error:
  assumes "(\<exists>t. L = S @ t \<and> P t) \<or> (\<exists>p z q t. S = p @ z # q \<and> offset z = 0 \<and> L = p @ z\<lparr>offset := 2 ^ 64 - 1\<rparr> # t)"
    and room: "length window + capacity < 2 ^ 64 - 1"
  shows "(\<exists>e. lz_run capacity S literals window = Inl e \<and> lz_run capacity L literals window = Inl e) \<or> (\<exists>t. L = S @ t \<and> P t)"
  using assms(1)
proof
  assume "\<exists>p z q t. S = p @ z # q \<and> offset z = 0 \<and> L = p @ z\<lparr>offset := 2 ^ 64 - 1\<rparr> # t"
  then obtain p z q t where z: "S = p @ z # q" "offset z = 0" "L = p @ z\<lparr>offset := 2 ^ 64 - 1\<rparr> # t" by blast
  show ?thesis
  proof (cases "lz_run capacity p literals window")
    case (Inl e)
    then show ?thesis unfolding z lz_run_append by simp
  next
    case (Inr v)
    obtain c l w where v: "v = (c, l, w)" by (metis prod_cases3)
    have "length w + c < 2 ^ 64 - 1" using lz_run_room[OF Inr[unfolded v]] room by simp
    from run_zero_offset[OF z(2) this, of q l t] obtain e
      where "lz_run c (z # q) l w = Inl e" "lz_run c (z\<lparr>offset := 2 ^ 64 - 1\<rparr> # t) l w = Inl e" by blast
    then show ?thesis unfolding z(1,3) lz_run_append Inr v sum.case prod.case by blast
  qed
qed blast


subsection \<open>The loop refines the format\<close>

lemma layout_step:
  assumes "exec_layout mem op oend litPtr litEnd prefixSt dictSize dictE" "frame mem mem' op oend"
    and "n \<le> oend - op" "ll \<le> litEnd - litPtr"
  shows "exec_layout mem' (op + n) oend (litPtr + ll) litEnd prefixSt dictSize dictE"
    and "bytes_at mem' (litPtr + ll) (litEnd - (litPtr + ll)) = drop ll (bytes_at mem litPtr (litEnd - litPtr))"
proof -
  note l = assms(1)[unfolded exec_layout_def] and f = frame_length[OF assms(2)]
  show "exec_layout mem' (op + n) oend (litPtr + ll) litEnd prefixSt dictSize dictE"
    unfolding exec_layout_def f using l assms(3,4) by auto
  have "bytes_at mem' (litPtr + ll) (litEnd - (litPtr + ll)) = bytes_at mem (litPtr + ll) (litEnd - (litPtr + ll))"
    by (rule frame_bytes_at[OF assms(2)]) (use l assms(4) in auto)
  also have "\<dots> = drop ll (bytes_at mem litPtr (litEnd - litPtr))" using assms(4) by (simp add: bytes_at_def drop_take add.commute)
  finally show "bytes_at mem' (litPtr + ll) (litEnd - (litPtr + ll)) = drop ll (bytes_at mem litPtr (litEnd - litPtr))" .
qed

text \<open>The state of the loop as the format sees it.\<close>

definition lz_view ::
  "ZSTD_history \<Rightarrow> nat \<Rightarrow> nat \<Rightarrow> nat \<Rightarrow> buffer \<Rightarrow> nat \<Rightarrow> nat \<Rightarrow> nat \<times> buffer \<times> buffer" where
  "lz_view h dictSize oend litEnd mem op litPtr =
     (oend - op, bytes_at mem litPtr (litEnd - litPtr), window_at mem dictSize (hs_dictEnd h) (hs_prefixStart h) op)"

definition loop_layout :: "ZSTD_history \<Rightarrow> nat \<Rightarrow> nat \<Rightarrow> nat \<Rightarrow> buffer \<Rightarrow> nat \<Rightarrow> nat \<Rightarrow> bool" where
  "loop_layout h dictSize oend litEnd mem op litPtr \<longleftrightarrow>
     exec_layout mem op oend litPtr litEnd (hs_prefixStart h) dictSize (hs_dictEnd h)
     \<and> hs_virtualStart h = int (hs_prefixStart h) - int dictSize"

text \<open>One round.\<close>

lemma sequence_step:
  assumes lay: "loop_layout h dictSize oend litEnd mem op litPtr" and s: "1 \<le> offset s" "1 \<le> matchLength s"
    and v: "lz_view h dictSize oend litEnd mem op litPtr = (capacity, literals, window)"
  defines "r \<equiv> ZSTD_execSequence mem op oend s litPtr litEnd (hs_prefixStart h) (hs_virtualStart h) (hs_dictEnd h)"
  shows "case lz_run capacity [s] literals window of
      Inl e \<Rightarrow> r = Inl e
    | Inr v' \<Rightarrow> \<exists>mem'. r = Inr (mem', litPtr + litLength s, litLength s + matchLength s) \<and> frame mem mem' op oend
        \<and> loop_layout h dictSize oend litEnd mem' (op + (litLength s + matchLength s)) (litPtr + litLength s)
        \<and> lz_view h dictSize oend litEnd mem' (op + (litLength s + matchLength s)) (litPtr + litLength s) = v'"
proof -
  let ?p = "hs_prefixStart h" and ?d = "hs_dictEnd h"
  have l: "exec_layout mem op oend litPtr litEnd ?p dictSize ?d" and vs: "hs_virtualStart h = int ?p - int dictSize"
    using lay by (auto simp: loop_layout_def)
  note l' = l[unfolded exec_layout_def]
  have vv: "capacity = oend - op" "literals = bytes_at mem litPtr (litEnd - litPtr)" "window = window_at mem dictSize ?d ?p op"
    using v by (auto simp: lz_view_def)
  have len: "length literals = litEnd - litPtr" "length window = dictSize + (op - ?p)"
    using l' by (auto simp: vv length_window_at)
  have ex: "executes oend mem op oend s litPtr litEnd ?p dictSize ?d r"
    unfolding r_def vs by (rule execSequence_executes[OF l s])
  show ?thesis
  proof (cases "oend - op < litLength s + matchLength s \<or> litEnd - litPtr < litLength s
      \<or> dictSize + (op + litLength s - ?p) < offset s")
    case True
    then show ?thesis using ex len l' s by (auto simp: executes_def vv(1))
  next
    case False
    then obtain mem' where m: "r = Inr (mem', litPtr + litLength s, litLength s + matchLength s)" "frame mem mem' op oend"
      "window_at mem' dictSize ?d ?p (op + litLength s + matchLength s) = lz_sequence s literals window"
      using ex by (auto simp: executes_def vv)
    note st = layout_step[OF l m(2), of "litLength s + matchLength s" "litLength s"]
    have "lz_run capacity [s] literals window =
        Inr (capacity - (litLength s + matchLength s), drop (litLength s) literals, lz_sequence s literals window)"
      using False len l' s by (auto simp: vv(1))
    then show ?thesis using m st vs False by (simp add: loop_layout_def lz_view_def vv(1,2) add.assoc)
  qed
qed

lemma lz_run_Cons:
  "lz_run capacity (s # sequences) literals window =
     bindE (lz_run capacity [s] literals window) (\<lambda>(capacity, literals, window). lz_run capacity sequences literals window)"
  by simp

lemma sequences_loop_refines:
  assumes "seqState_ok ss" "loop_layout h dictSize oend litEnd mem op litPtr"
    and "lz_view h dictSize oend litEnd mem op litPtr = (capacity, literals, window)"
  shows "case lz_run capacity (fst (decode_sequences n ss)) literals window of
      Inl e \<Rightarrow> sequences_loop n ss mem op oend litPtr litEnd h = Inl e
    | Inr v' \<Rightarrow> \<exists>mem' op' litPtr'. sequences_loop n ss mem op oend litPtr litEnd h
          = Inr (snd (decode_sequences n ss), mem', op', litPtr') \<and> frame mem mem' op oend \<and> op \<le> op'
        \<and> loop_layout h dictSize oend litEnd mem' op' litPtr' \<and> lz_view h dictSize oend litEnd mem' op' litPtr' = v'"
  using assms
proof (induction n arbitrary: ss mem op litPtr capacity literals window)
  case (Suc n)
  obtain s ss1 where d: "ZSTD_decodeSequence ss (n = 0) = (s, ss1)" by fastforce
  obtain ls ss2 where ds: "decode_sequences n ss1 = (ls, ss2)" by fastforce
  note ok = decodeSequence_ok[OF Suc.prems(1) d]
  then have s: "1 \<le> offset s" "1 \<le> matchLength s" by auto
  note st = sequence_step[OF Suc.prems(2) s Suc.prems(3)]
  have dd: "decode_sequences (Suc n) ss = (s # ls, ss2)" by (simp add: d ds)
  show ?case
  proof (cases "lz_run capacity [s] literals window")
    case (Inl e)
    then have "lz_run capacity (s # ls) literals window = Inl e" unfolding lz_run_Cons[of capacity s ls] by simp
    moreover have "sequences_loop (Suc n) ss mem op oend litPtr litEnd h = Inl e"
      using st Inl by (simp add: d del: lz_run.simps)
    ultimately show ?thesis unfolding dd fst_conv by (simp only: sum.case)
  next
    case (Inr v1)
    obtain room1 literals1 window1 where v1: "v1 = (room1, literals1, window1)" by (metis prod_cases3)
    from st Inr v1 obtain mem1 where m1:
      "ZSTD_execSequence mem op oend s litPtr litEnd (hs_prefixStart h) (hs_virtualStart h) (hs_dictEnd h)
        = Inr (mem1, litPtr + litLength s, litLength s + matchLength s)" "frame mem mem1 op oend"
      "loop_layout h dictSize oend litEnd mem1 (op + (litLength s + matchLength s)) (litPtr + litLength s)"
      "lz_view h dictSize oend litEnd mem1 (op + (litLength s + matchLength s)) (litPtr + litLength s) = (room1, literals1, window1)"
      by (auto simp del: lz_run.simps)
    have ok1: "seqState_ok ss1" using ok by simp
    note ih = Suc.IH[OF ok1 m1(3,4), unfolded ds fst_conv snd_conv]
    have run: "lz_run capacity (s # ls) literals window = lz_run room1 ls literals1 window1"
      unfolding lz_run_Cons[of capacity s ls] Inr v1 by simp
    have lp: "sequences_loop (Suc n) ss mem op oend litPtr litEnd h =
        sequences_loop n ss1 mem1 (op + (litLength s + matchLength s)) oend (litPtr + litLength s) litEnd h"
      by (simp add: d m1(1))
    have fr: "frame mem mem' op oend" if "frame mem1 mem' (op + (litLength s + matchLength s)) oend" for mem'
      by (rule frame_trans[OF m1(2) frame_mono[OF that]]) auto
    show ?thesis unfolding dd fst_conv snd_conv run lp
      using ih fr by (auto split: sum.splits dest: add_leD1)
  qed
qed simp

lemma last_literals_refines:
  assumes lay: "loop_layout h dictSize oend litEnd mem op litPtr" and "ostart \<le> op"
    and v: "lz_view h dictSize oend litEnd mem op litPtr = (capacity, literals, window)"
  shows "case last_literals en mem ostart op oend litPtr litEnd of
      Inl e \<Rightarrow> lz_end en capacity literals window = Inl [e]
    | Inr (en', mem', n) \<Rightarrow>
        lz_end en capacity literals window = Inr (en', window_at mem' dictSize (hs_dictEnd h) (hs_prefixStart h) (ostart + n))
        \<and> n \<le> oend - ostart \<and> frame mem mem' op oend"
proof -
  let ?n = "litEnd - litPtr" and ?p = "hs_prefixStart h" and ?d = "hs_dictEnd h"
  have l: "?p \<le> op" "op \<le> oend" "oend \<le> length mem" "litPtr \<le> litEnd" "litEnd + 32 \<le> length mem"
    "dictSize \<le> ?d" "?d \<le> length mem" "?d \<le> op \<or> oend \<le> ?d - dictSize"
    using lay by (auto simp: loop_layout_def exec_layout_def)
  have vv: "capacity = oend - op" "literals = bytes_at mem litPtr ?n" "window = window_at mem dictSize ?d ?p op"
    using v by (auto simp: lz_view_def)
  have len: "length literals = ?n" unfolding vv using l by simp
  show ?thesis
  proof (cases "?n > oend - op")
    case True
    then show ?thesis using len vv(1) by (simp add: last_literals_def lz_end_def)
  next
    case False
    define M where "M = ZSTD_memmove mem op litPtr ?n"
    have M: "frame mem M op (op + ?n)" "\<And>i. i < ?n \<Longrightarrow> M ! (op + i) = mem ! (litPtr + i)"
      unfolding M_def using False l by (intro memmove_frame; simp)+
    have f: "frame mem M op oend" by (rule frame_mono[OF M(1)]) (use False l in auto)
    have "window_at M dictSize ?d ?p (op + ?n) = window @ take ?n (bytes_at mem litPtr ?n)"
      unfolding vv using False l M(2) by (intro window_literals[OF f]) auto
    then have "window_at M dictSize ?d ?p (op + ?n) = window @ literals" using vv(2) len by simp
    then show ?thesis using False len vv(1) f l assms(2)
      by (simp add: last_literals_def lz_end_def flip: M_def)
  qed
qed

text \<open>Some code of the errors of the format, or the window it defines, with only the room of the output written.\<close>

definition block_agrees ::
  "ZSTD_ErrorCode + ZSTD_seqEntropy \<times> buffer \<times> nat \<Rightarrow> ZSTD_ErrorCode list + ZSTD_seqEntropy \<times> buffer
    \<Rightarrow> ZSTD_history \<Rightarrow> nat \<Rightarrow> buffer \<Rightarrow> nat \<Rightarrow> nat \<Rightarrow> bool" where
  "block_agrees result spec h dictSize mem ostart oend \<longleftrightarrow>
     (case result of
        Inl e \<Rightarrow> \<exists>es. spec = Inl es \<and> e \<in> set es
      | Inr (en', mem', n) \<Rightarrow>
          spec = Inr (en', window_at mem' dictSize (hs_dictEnd h) (hs_prefixStart h) (ostart + n))
          \<and> n \<le> oend - ostart \<and> frame mem mem' ostart oend)"

lemma window_room:
  assumes "loop_layout h dictSize oend litEnd mem op litPtr" "length mem < 2 ^ 63"
  shows "length (window_at mem dictSize (hs_dictEnd h) (hs_prefixStart h) op) + (oend - op) < 2 ^ 64 - 1"
proof -
  have l: "hs_prefixStart h \<le> op" "op \<le> oend" "oend \<le> length mem" "dictSize \<le> hs_dictEnd h" "hs_dictEnd h \<le> length mem"
    using assms(1) by (auto simp: loop_layout_def exec_layout_def)
  then have "length (window_at mem dictSize (hs_dictEnd h) (hs_prefixStart h) op) = dictSize + (op - hs_prefixStart h)"
    by (intro length_window_at) auto
  then have "length (window_at mem dictSize (hs_dictEnd h) (hs_prefixStart h) op) + (oend - op) \<le> 2 * length mem"
    using l by linarith
  then show ?thesis using assms(2) by simp
qed

lemma loop_end_agrees:
  assumes "sequences_loop nbSeq ss mem ostart oend litPtr litEnd h = Inr (ss', mem', op', litPtr')"
    "frame mem mem' ostart oend" "ostart \<le> op'" "loop_layout h dictSize oend litEnd mem' op' litPtr'"
    "lz_view h dictSize oend litEnd mem' op' litPtr' = (cap', lits', w')" "follows en ss' st"
  shows "block_agrees
    (if \<not> BIT_endOfDStream (ss_DStream ss') then Inl ZSTD_error_corruption_detected
     else last_literals (save_reps en ss') mem' ostart op' oend litPtr' litEnd)
    (if snd (fm_bits st) \<noteq> 0 then Inl [ZSTD_error_corruption_detected]
     else let (r1, r2, r3) = fm_recent st in lz_end (en\<lparr>fseEntropy := True, sq_rep := [r1, r2, r3]\<rparr>) cap' lits' w')
    h dictSize mem ostart oend"
proof -
  obtain r1 r2 r3 where r: "fm_recent st = (r1, r2, r3)" by (metis prod_cases3)
  have p: "prevOffset ss' = [r1, r2, r3]" "r1 < 2 ^ 32" "r2 < 2 ^ 32" "r3 < 2 ^ 32"
    using assms(6) by (auto simp: follows_def same_recent_def recent_ok_def r)
  then have sv: "save_reps en ss' = en\<lparr>fseEntropy := True, sq_rep := [r1, r2, r3]\<rparr>" by (simp add: save_reps_def)
  have e: "BIT_endOfDStream (ss_DStream ss') \<longleftrightarrow> snd (fm_bits st) = 0"
    using assms(6) by (intro end_of_stream(1)[of _ "fst (fm_bits st)"]) (simp add: follows_def at_def)
  have fr: "frame mem M ostart oend" if "frame mem' M op' oend" for M
    by (rule frame_trans[OF assms(2) frame_mono[OF that]]) (use assms(3) in auto)
  show ?thesis
    using last_literals_refines[OF assms(4,3,5), of "en\<lparr>fseEntropy := True, sq_rep := [r1, r2, r3]\<rparr>"] fr
    by (auto simp: block_agrees_def e r sv split: sum.splits)
qed

lemma decompressSequences_body_agrees:
  assumes "seq_tables_ok en \<or> nbSeq = 0" "length (sq_rep en) = 3" "\<forall>r\<in>set (sq_rep en). 0 < r \<and> r < 2 ^ 32"
    and "oend = (if lb_litBufferLocation lit = ZSTD_not_in_dst then ostart + maxDstSize else lb_litBuffer lit)"
    and lay: "loop_layout h dictSize oend (lb_litPtr lit + lb_litSize lit) mem ostart (lb_litPtr lit)" and "length mem < 2 ^ 63"
  shows "block_agrees (ZSTD_decompressSequences_body en mem ostart maxDstSize lit h src nbSeq)
    (lz_block en (oend - ostart) src nbSeq (bytes_at mem (lb_litPtr lit) (lb_litSize lit))
       (window_at mem dictSize (hs_dictEnd h) (hs_prefixStart h) ostart))
    h dictSize mem ostart oend"
proof -
  let ?lit = "lb_litPtr lit" and ?litEnd = "lb_litPtr lit + lb_litSize lit"
  define cap lits w where "cap = oend - ostart" and "lits = bytes_at mem ?lit (lb_litSize lit)"
    and "w = window_at mem dictSize (hs_dictEnd h) (hs_prefixStart h) ostart"
  let ?spec = "lz_block en cap src nbSeq lits w" and ?body = "ZSTD_decompressSequences_body en mem ostart maxDstSize lit h src nbSeq"
  have v: "lz_view h dictSize oend ?litEnd mem ostart ?lit = (cap, lits, w)" by (simp add: lz_view_def cap_def lits_def w_def)
  have "block_agrees ?body ?spec h dictSize mem ostart oend"
  proof (cases "nbSeq = 0")
    case True
    then have "?body = last_literals en mem ostart ostart oend ?lit ?litEnd" "?spec = lz_end en cap lits w"
      by (simp_all add: ZSTD_decompressSequences_body_def lz_block_def Let_def flip: assms(4))
    then show ?thesis using last_literals_refines[OF lay order_refl v, of en]
      by (auto simp: block_agrees_def split: sum.splits)
  next
    case nz: False
    then have tbl: "seq_tables_ok en" using assms(1) by simp
    note init = init_seqState_agrees[OF tbl assms(2,3), of src]
    show ?thesis
    proof (cases "stream_bits src")
      case (Inl e)
      then show ?thesis using init nz by (simp add: block_agrees_def ZSTD_decompressSequences_body_def lz_block_def Let_def)
    next
      case (Inr bits)
      then obtain ss where ss: "init_seqState en src = Inr ss" "seqState_ok ss"
        "case format_start en bits of None \<Rightarrow> overrun (ss_DStream ss) | Some st \<Rightarrow> follows en ss st \<and> fits 57 (ss_DStream ss)"
        using init by auto
      obtain L ss' where d: "decode_sequences nbSeq ss = (L, ss')" by fastforce
      obtain S r where S: "(case format_start en bits of None \<Rightarrow> ([], None) | Some st \<Rightarrow> format_sequences en nbSeq st) = (S, r)"
        by fastforce
      have "(\<exists>t. L = S @ t \<and> (case r of None \<Rightarrow> overrun (ss_DStream ss') | Some st' \<Rightarrow> t = [] \<and> follows en ss' st'))
        \<or> (\<exists>p z q t. S = p @ z # q \<and> offset z = 0 \<and> L = p @ z\<lparr>offset := 2 ^ 64 - 1\<rparr> # t)"
      proof (cases "format_start en bits")
        case None
        then show ?thesis using ss(3) S overrun_decode_sequences[of ss nbSeq] d by auto
      next
        case (Some st)
        then show ?thesis using ss(2,3) S d by (intro decode_sequences_agree) auto
      qed
      note run = run_agrees_error[OF this, of w cap lits]
      have room: "length w + cap < 2 ^ 64 - 1" using window_room[OF lay assms(6)] by (simp add: w_def cap_def)
      have spec: "?spec = (case lz_run cap S lits w of Inl e \<Rightarrow> Inl [e]
        | Inr (cap', lits', w') \<Rightarrow> (case r of None \<Rightarrow> Inl [ZSTD_error_corruption_detected, ZSTD_error_dstSize_tooSmall]
          | Some st \<Rightarrow> if snd (fm_bits st) \<noteq> 0 then Inl [ZSTD_error_corruption_detected]
              else let (r1, r2, r3) = fm_recent st in lz_end (en\<lparr>fseEntropy := True, sq_rep := [r1, r2, r3]\<rparr>) cap' lits' w'))"
        using nz Inr S by (simp add: lz_block_def)
      have body: "?body = bindE (sequences_loop nbSeq ss mem ostart oend ?lit ?litEnd h) (\<lambda>(seqState, mem, op, litPtr).
          if \<not> BIT_endOfDStream (ss_DStream seqState) then Inl ZSTD_error_corruption_detected
          else last_literals (save_reps en seqState) mem ostart op oend litPtr ?litEnd)"
        using nz ss(1) by (simp add: ZSTD_decompressSequences_body_def Let_def flip: assms(4))
      note lp = sequences_loop_refines[OF ss(2) lay v, of nbSeq, unfolded d fst_conv snd_conv]
      show ?thesis
      proof (cases "lz_run cap L lits w")
        case (Inl e)
        then have b: "?body = Inl e" unfolding body using lp by simp
        from run[OF room] consider "lz_run cap S lits w = Inl e"
          | t where "L = S @ t" "case r of None \<Rightarrow> overrun (ss_DStream ss') | Some st' \<Rightarrow> t = [] \<and> follows en ss' st'"
          using Inl by auto
        then show ?thesis
        proof cases
          case 1
          then show ?thesis unfolding b spec by (simp add: block_agrees_def)
        next
          case (2 t)
          then show ?thesis using Inl lz_run_error[OF Inl] unfolding b spec
            by (auto simp: block_agrees_def lz_run_append split: sum.splits option.splits)
        qed
      next
        case (Inr v')
        obtain cap' lits' w' where v': "v' = (cap', lits', w')" by (metis prod_cases3)
        from lp Inr v' obtain mem' op' litPtr' where
          l: "sequences_loop nbSeq ss mem ostart oend ?lit ?litEnd h = Inr (ss', mem', op', litPtr')" "frame mem mem' ostart oend"
            "ostart \<le> op'" "loop_layout h dictSize oend ?litEnd mem' op' litPtr'"
            "lz_view h dictSize oend ?litEnd mem' op' litPtr' = (cap', lits', w')" by auto
        from run[OF room] obtain t where t: "L = S @ t"
          "case r of None \<Rightarrow> overrun (ss_DStream ss') | Some st' \<Rightarrow> t = [] \<and> follows en ss' st'"
          using Inr by auto
        show ?thesis
        proof (cases r)
          case None
          then have "?body = Inl ZSTD_error_corruption_detected" using t(2) end_of_stream(2) unfolding body l(1) by simp
          then show ?thesis using Inr t(1) None unfolding spec
            by (auto simp: block_agrees_def lz_run_append split: sum.splits)
        next
          case (Some st)
          then have f: "follows en ss' st" "L = S" using t by auto
          show ?thesis using loop_end_agrees[OF l f(1)] unfolding spec body l(1) by (simp add: Some Inr v' flip: f(2))
        qed
      qed
    qed
  qed
  then show ?thesis by (simp add: cap_def lits_def w_def)
qed

text \<open>
  Property C1: \<open>ZSTD_decompressSequences\<close> does what the format defines, on buffers that do not
  overlap, with well-formed tables and recent offsets that are numbers of 32 bits other than zero.
  The stream stands for sequences by its bit fields, states and recent offsets, as \<open>lz_block\<close>
  describes without the decoder.  If they fit the room, the literals and the window, and use the
  stream up exactly, the window in memory is the one they define, and the next block starts with the
  recent offsets they leave; otherwise there is an error, with the code of the first sequence that
  does not fit.  Only the room of the output has been written.\<close>

theorem sequences_refine_format:
  assumes "seq_tables_ok en \<or> nbSeq = 0" "length (sq_rep en) = 3" "\<forall>r\<in>set (sq_rep en). 0 < r \<and> r < 2 ^ 32"
    and "oend = (if lb_litBufferLocation lit = ZSTD_not_in_dst then ostart + maxDstSize else lb_litBuffer lit)"
    and "loop_layout h dictSize oend (lb_litPtr lit + lb_litSize lit) mem ostart (lb_litPtr lit)" "length mem < 2 ^ 63"
  shows "case ZSTD_decompressSequences_body en mem ostart maxDstSize lit h src nbSeq of
      Inl e \<Rightarrow> \<exists>es. lz_block en (oend - ostart) src nbSeq (bytes_at mem (lb_litPtr lit) (lb_litSize lit))
                 (window_at mem dictSize (hs_dictEnd h) (hs_prefixStart h) ostart) = Inl es \<and> e \<in> set es
    | Inr (en', mem', n) \<Rightarrow> lz_block en (oend - ostart) src nbSeq (bytes_at mem (lb_litPtr lit) (lb_litSize lit))
                 (window_at mem dictSize (hs_dictEnd h) (hs_prefixStart h) ostart)
               = Inr (en', window_at mem' dictSize (hs_dictEnd h) (hs_prefixStart h) (ostart + n))
        \<and> n \<le> oend - ostart \<and> frame mem mem' ostart oend"
  using decompressSequences_body_agrees[OF assms, of src] by (simp only: block_agrees_def)

definition default_entropy :: ZSTD_seqEntropy where
  "default_entropy = seq_entropy_example\<lparr>LLTptr := LL_defaultDTable, OFTptr := OF_defaultDTable, MLTptr := ML_defaultDTable\<rparr>"

lemma default_entropy_ok: "seq_tables_ok default_entropy" "length (sq_rep default_entropy) = 3"
  "\<forall>r\<in>set (sq_rep default_entropy). 0 < r \<and> r < 2 ^ 32"
  using default_tables_ok by (simp_all add: default_entropy_def seq_tables_ok_def seq_entropy_example_def Let_def)

text \<open>One sequence without literals, which repeats the second recent offset, and one literal left.\<close>

definition block_memory :: buffer where
  "block_memory = [1, 2, 3, 4, 5, 0, 0, 0, 0, 0, 0, 0, 9] @ replicate 40 0"

lemma block_example_format:
  "\<exists>en'. lz_block default_entropy 5 [0, 0, 2] 1 [9] [1, 2, 3, 4, 5] = Inr (en', [1, 2, 3, 4, 5, 2, 3, 4, 9])
    \<and> sq_rep en' = [4, 1, 8]"
proof -
  have h: "ZSTD_highbit32 2 = 1" by (rule highbit32_unique) simp_all
  have "stream_bits [0, 0, 2] = Inr (0, 17)" by (simp add: stream_bits_def stream_len_def h)
  moreover have "format_start default_entropy (0, 17) = Some \<lparr>fm_bits = (0, 0), fm_ll = 0, fm_of = 0, fm_ml = 0, fm_recent = (1, 4, 8)\<rparr>"
    by (simp add: format_start_def default_entropy_def seq_entropy_example_def LL_defaultDTable_def OF_defaultDTable_def
        ML_defaultDTable_def seq_constants Let_def)
  moreover have "lz_sequence \<lparr>litLength = 0, matchLength = 3, offset = 4\<rparr> [9] [1, 2, 3, 4, 5] = [1, 2, 3, 4, 5, 2, 3, 4 :: BYTE]"
    by (simp add: lz_sequence_def numeral_3_eq_3)
  ultimately show ?thesis
    by (simp add: lz_block_def format_sequence_def ll_cell_def ml_cell_def of_cell_def default_entropy_def LL_defaultDTable_def
        OF_defaultDTable_def ML_defaultDTable_def seq_cells_def Let_def lz_end_def seq_constants)
qed

theorem sequences_refine_format_witness:
  "\<exists>en' mem'. ZSTD_decompressSequences_body default_entropy block_memory 5 5
      \<lparr>lb_litPtr = 12, lb_litSize = 1, lb_litBuffer = 10, lb_litBufferEnd = 13, lb_litBufferLocation = ZSTD_in_dst,
       lb_litExtraBuffer = 40\<rparr> \<lparr>hs_prefixStart = 0, hs_virtualStart = 0, hs_dictEnd = 0\<rparr> [0, 0, 2] 1 = Inr (en', mem', 4)
    \<and> window_at mem' 0 0 0 9 = [1, 2, 3, 4, 5, 2, 3, 4, 9]"
proof -
  let ?lit = "\<lparr>lb_litPtr = 12, lb_litSize = 1, lb_litBuffer = 10, lb_litBufferEnd = 13, lb_litBufferLocation = ZSTD_in_dst,
       lb_litExtraBuffer = 40\<rparr>" and ?h = "\<lparr>hs_prefixStart = 0, hs_virtualStart = 0, hs_dictEnd = 0\<rparr>"
  let ?r = "ZSTD_decompressSequences_body default_entropy block_memory 5 5 ?lit ?h [0, 0, 2] 1"
  have lay: "loop_layout ?h 0 10 (12 + 1) block_memory 5 12" by (simp add: loop_layout_def exec_layout_def block_memory_def)
  have b: "bytes_at block_memory 12 1 = [9]" "window_at block_memory 0 0 0 5 = [1, 2, 3, 4, 5]" "length block_memory < 2 ^ 63"
    by (simp_all add: bytes_at_def window_at_def block_memory_def)
  obtain en' where spec: "lz_block default_entropy 5 [0, 0, 2] 1 [9] [1, 2, 3, 4, 5] = Inr (en', [1, 2, 3, 4, 5, 2, 3, 4, 9])"
    using block_example_format by blast
  have "case ?r of Inl e \<Rightarrow> False | Inr (en, mem', n) \<Rightarrow> window_at mem' 0 0 0 (5 + n) = [1, 2, 3, 4, 5, 2, 3, 4, 9]
      \<and> n \<le> 5 \<and> length mem' = 53"
    using sequences_refine_format[of default_entropy 1 10 ?lit 5 5 ?h 0 block_memory "[0, 0, 2]"] default_entropy_ok lay b spec
      frame_length[of block_memory _ 5 10]
    by (auto simp: block_memory_def split: sum.splits)
  then obtain en mem' n where r: "?r = Inr (en, mem', n)" "window_at mem' 0 0 0 (5 + n) = [1, 2, 3, 4, 5, 2, 3, 4, 9]" "n \<le> 5" "length mem' = 53"
    by (auto split: sum.splits)
  have "length (window_at mem' 0 0 0 (5 + n)) = 5 + n" using r(3,4) by (subst length_window_at) auto
  then have "n = 4" using r(2) by simp
  then show ?thesis using r(1,2) by auto
qed

end
