(* ===== verification/Zstd_Literals.thy ===== *)
theory Zstd_Literals
  imports Zstd_Sequences Zstd_FrameHeader
begin

section \<open>The literals section\<close>

text \<open>
  The first part of a compressed block of \<^verbatim>\<open>decompress/zstd_decompress_block.c\<close>:
  \<open>ZSTD_decodeLiteralsBlock\<close> reads the header of the literals and puts them behind the room of the
  block in the destination, into the extra buffer of the context, or, when neither is large enough,
  partly into both; stored literals may stay in the source.  On one flat memory, like the execution of
  sequences.  The main result is that the literals are those the format defines, that they are found
  where the decoders of sequences look for them, with the room these need to read over the end, and
  that only the destination and the extra buffer are written.

  The Huffman decoders are arguments (record \<open>huf_codec\<close>): the library chooses between tables with
  one and with two symbols per cell, which give the same literals, by their speed.  Only the
  code of an error is kept, not what was written to the buffers and to the tables before it.
\<close>

subsection \<open>Buffers\<close>

definition ZSTD_LITBUFFEREXTRASIZE :: nat where "ZSTD_LITBUFFEREXTRASIZE = 2 ^ 16"



definition ZSTD_blockSizeMax :: "bool \<Rightarrow> nat \<Rightarrow> nat" where
  "ZSTD_blockSizeMax isFrameDecompression blockSizeMax = (if isFrameDecompression then blockSizeMax else ZSTD_BLOCKSIZE_MAX)"

definition ZSTD_allocateLiteralsBuffer ::
  "nat \<Rightarrow> ZSTD_litState \<Rightarrow> nat \<Rightarrow> nat \<Rightarrow> nat \<Rightarrow> bool \<Rightarrow> nat \<Rightarrow> bool \<Rightarrow> ZSTD_litState" where
  "ZSTD_allocateLiteralsBuffer blockSizeMax lit dst0 dstCapacity litSize streaming expectedWriteSize splitImmediately =
     (if \<not> streaming \<and> dstCapacity > blockSizeMax + WILDCOPY_OVERLENGTH + litSize + WILDCOPY_OVERLENGTH
      then let litBuffer = dst0 + blockSizeMax + WILDCOPY_OVERLENGTH
           in lit\<lparr>lb_litBuffer := litBuffer, lb_litBufferEnd := litBuffer + litSize, lb_litBufferLocation := ZSTD_in_dst\<rparr>
      else if litSize \<le> ZSTD_LITBUFFEREXTRASIZE
      then lit\<lparr>lb_litBuffer := lb_litExtraBuffer lit, lb_litBufferEnd := lb_litExtraBuffer lit + litSize,
               lb_litBufferLocation := ZSTD_not_in_dst\<rparr>
      else
        let (litBuffer, litBufferEnd) =
              (if splitImmediately
               then let litBuffer = dst0 + expectedWriteSize - litSize + ZSTD_LITBUFFEREXTRASIZE - WILDCOPY_OVERLENGTH
                    in (litBuffer, litBuffer + litSize - ZSTD_LITBUFFEREXTRASIZE)
               else (dst0 + expectedWriteSize - litSize, dst0 + expectedWriteSize))
        in lit\<lparr>lb_litBuffer := litBuffer, lb_litBufferEnd := litBufferEnd, lb_litBufferLocation := ZSTD_split\<rparr>)"

subsection \<open>Headers\<close>




subsection \<open>Huffman decoders\<close>





subsection \<open>The decoder\<close>







subsection \<open>The decoder without buffers\<close>





definition only_in :: "nat set \<Rightarrow> buffer \<Rightarrow> buffer \<Rightarrow> bool" where
  "only_in S mem mem' \<longleftrightarrow> length mem' = length mem \<and> (\<forall>i<length mem. i \<notin> S \<longrightarrow> mem' ! i = mem ! i)"


subsection \<open>Writing to the buffers\<close>

lemma only_in_refl [simp]: "only_in S mem mem"
  by (simp add: only_in_def)








subsection \<open>Placing literals\<close>





subsection \<open>The decoder puts its value into the buffers\<close>


lemma allocate_extra [simp]:
  "lb_litExtraBuffer (ZSTD_allocateLiteralsBuffer blockSizeMax lit dst0 capacity n streaming E now) = lb_litExtraBuffer lit"
  by (simp add: ZSTD_allocateLiteralsBuffer_def Let_def)











subsection \<open>Decoders with one symbol per cell\<close>














subsection \<open>The headers\<close>












subsection \<open>Decoders of a code\<close>







subsection \<open>Tables with one symbol per cell\<close>










subsection \<open>Properties\<close>









end
