(* ===== verification/Zstd_HufEncode.thy ===== *)
theory Zstd_HufEncode
  imports Zstd_HufDecode
begin

section \<open>Huffman encoding\<close>

text \<open>
  The encoder of \<^verbatim>\<open>compress/huf_compress.c\<close>: code tables read back from transmitted weights
  (\<^verbatim>\<open>HUF_readCTable\<close>), the bit stream with two containers (\<^verbatim>\<open>HUF_CStream_t\<close>) and
  the streams (\<^verbatim>\<open>HUF_compress1X_usingCTable\<close>, \<^verbatim>\<open>HUF_compress4X_usingCTable\<close>).
  The code table holds the canonical code of the weights; the stream written is the sequence of the
  code words whatever unrolling and unmasked additions are chosen, or nothing if it does not fit;
  and what was encoded is decoded again.
\<close>

subsection \<open>Code tables\<close>

text \<open>
  A \<open>HUF_CElt\<close> has the number of bits in its low byte and the code word in its highest bits.  A code
  table is a header followed by 256 elements.
\<close>

record HUF_CTable =
  hct_tableLog :: nat
  hct_maxSymbolValue :: nat
  hct_elts :: "U64 list"

definition HUF_getNbBits :: "U64 \<Rightarrow> nat" where
  "HUF_getNbBits elt = unat (elt AND 0xFF)"

definition HUF_getNbBitsFast :: "U64 \<Rightarrow> U64" where
  "HUF_getNbBitsFast elt = elt"

definition HUF_getValue :: "U64 \<Rightarrow> U64" where
  "HUF_getValue elt = elt AND NOT 0xFF"

definition HUF_getValueFast :: "U64 \<Rightarrow> U64" where
  "HUF_getValueFast elt = elt"

definition HUF_setNbBits :: "nat \<Rightarrow> U64" where
  "HUF_setNbBits nb = of_nat nb"

definition HUF_setValue :: "U64 \<Rightarrow> U64 \<Rightarrow> U64" where
  "HUF_setValue elt val =
     (let nb = HUF_getNbBits elt
      in if nb > 0 then elt OR push_bit (64 - nb) val else elt)"

definition HUF_writeCTableHeader :: "HUF_CTable \<Rightarrow> nat \<Rightarrow> nat \<Rightarrow> HUF_CTable" where
  "HUF_writeCTableHeader ctable tableLog maxSymbolValue =
     ctable\<lparr>hct_tableLog := tableLog, hct_maxSymbolValue := maxSymbolValue\<rparr>"

text \<open>The number of symbols of each length, and the first code word of each length.\<close>

definition rank_counts :: "U64 list \<Rightarrow> nat \<Rightarrow> nat list" where
  "rank_counts ct nbSymbols = fold (\<lambda>n r. let nb = HUF_getNbBits (ct ! n) in r[nb := r ! nb + 1]) [0..<nbSymbols] (replicate 14 0)"

definition rank_values :: "nat list \<Rightarrow> nat \<Rightarrow> nat list" where
  "rank_values nbPerRank tableLog =
     fst (fold (\<lambda>n (valPerRank, mn). (valPerRank[n := mn], (mn + nbPerRank ! n) div 2)) (rev [1..<tableLog + 1]) (replicate 14 0, 0))"

definition set_values :: "nat \<Rightarrow> U64 list \<Rightarrow> nat list \<Rightarrow> U64 list" where
  "set_values nbSymbols ct valPerRank =
     fst (fold (\<lambda>n (ct, valPerRank).
         let nb = HUF_getNbBits (ct ! n)
         in (ct[n := HUF_setValue (ct ! n) (of_nat (valPerRank ! nb))], valPerRank[nb := valPerRank ! nb + 1]))
       [0..<nbSymbols] (ct, valPerRank))"

text \<open>
  The result: the bytes read, the table, the last symbol and whether a symbol has no code word.  The
  base values per rank, which the source prepares first, are not used by it.
\<close>

definition HUF_readCTable ::
  "HUF_CTable \<Rightarrow> nat \<Rightarrow> buffer \<Rightarrow> FSE_DTable \<Rightarrow> buffer \<Rightarrow> ZSTD_ErrorCode + nat \<times> HUF_CTable \<times> nat \<times> bool" where
  "HUF_readCTable CTable maxSymbolValue src dtable workSpace =
     bindE (HUF_readStats_wksp (HUF_SYMBOLVALUE_MAX + 1) src dtable workSpace) (\<lambda>(readSize, stats).
       let huffWeight = hs_weights stats; tableLog = hs_tableLog stats; nbSymbols = length huffWeight;
           hasZeroWeights = (hs_rankStats stats ! 0 > 0)
       in if tableLog > 12 then Inl ZSTD_error_tableLog_tooLarge
          else if nbSymbols > maxSymbolValue + 1 then Inl ZSTD_error_maxSymbolValue_tooSmall
          else
            let maxSymbolValue = nbSymbols - 1;
                CTable = HUF_writeCTableHeader CTable tableLog maxSymbolValue;
                ct = fold (\<lambda>n ct. let w = huffWeight ! n in ct[n := HUF_setNbBits (if w \<noteq> 0 then tableLog + 1 - w else 0)])
                       [0..<nbSymbols] (hct_elts CTable);
                ct = set_values nbSymbols ct (rank_values (rank_counts ct nbSymbols) tableLog)
            in Inr (readSize, CTable\<lparr>hct_elts := ct\<rparr>, maxSymbolValue, hasZeroWeights))"

subsection \<open>The bit stream with two containers\<close>

record HUF_CStream_t =
  h_bitContainer0 :: U64
  h_bitContainer1 :: U64
  h_bitPos0 :: U64
  h_bitPos1 :: U64
  h_mem :: buffer
  h_ptr :: nat
  h_endPtr :: nat

definition HUF_initCStream :: "buffer \<Rightarrow> nat \<Rightarrow> ZSTD_ErrorCode + HUF_CStream_t" where
  "HUF_initCStream startPtr dstCapacity =
     (if dstCapacity \<le> 8 then Inl ZSTD_error_dstSize_tooSmall
      else Inr \<lparr>h_bitContainer0 = 0, h_bitContainer1 = 0, h_bitPos0 = 0, h_bitPos1 = 0,
                h_mem = startPtr, h_ptr = 0, h_endPtr = dstCapacity - 8\<rparr>)"

text \<open>
  A container is filled from above.  The fast variant adds the whole element: its low bits end up
  below the bits in use, and its high bits above the low byte of the position.
\<close>

definition huf_shift_in :: "U64 \<Rightarrow> U64 \<Rightarrow> bool \<Rightarrow> U64" where
  "huf_shift_in bitContainer elt kFast =
     drop_bit (HUF_getNbBits elt) bitContainer OR (if kFast then HUF_getValueFast elt else HUF_getValue elt)"

definition HUF_addBits :: "HUF_CStream_t \<Rightarrow> U64 \<Rightarrow> nat \<Rightarrow> bool \<Rightarrow> HUF_CStream_t" where
  "HUF_addBits bitC elt idx kFast =
     (if idx = 0
      then bitC\<lparr>h_bitContainer0 := huf_shift_in (h_bitContainer0 bitC) elt kFast,
                h_bitPos0 := h_bitPos0 bitC + HUF_getNbBitsFast elt\<rparr>
      else bitC\<lparr>h_bitContainer1 := huf_shift_in (h_bitContainer1 bitC) elt kFast,
                h_bitPos1 := h_bitPos1 bitC + HUF_getNbBitsFast elt\<rparr>)"

definition HUF_zeroIndex1 :: "HUF_CStream_t \<Rightarrow> HUF_CStream_t" where
  "HUF_zeroIndex1 bitC = bitC\<lparr>h_bitContainer1 := 0, h_bitPos1 := 0\<rparr>"

definition HUF_mergeIndex1 :: "HUF_CStream_t \<Rightarrow> HUF_CStream_t" where
  "HUF_mergeIndex1 bitC =
     bitC\<lparr>h_bitContainer0 := drop_bit (unat (h_bitPos1 bitC AND 0xFF)) (h_bitContainer0 bitC) OR h_bitContainer1 bitC,
          h_bitPos0 := h_bitPos0 bitC + h_bitPos1 bitC\<rparr>"

definition HUF_flushBits :: "HUF_CStream_t \<Rightarrow> bool \<Rightarrow> HUF_CStream_t" where
  "HUF_flushBits bitC kFast =
     (let nb = unat (h_bitPos0 bitC AND 0xFF);
          nbBytes = nb div 8;
          bitContainer = drop_bit (64 - nb) (h_bitContainer0 bitC);
          ptr = h_ptr bitC + nbBytes
      in bitC\<lparr>h_bitPos0 := h_bitPos0 bitC AND 7,
              h_mem := MEM_writeLEST LittleEndian (h_mem bitC) (h_ptr bitC) bitContainer,
              h_ptr := (if \<not> kFast \<and> ptr > h_endPtr bitC then h_endPtr bitC else ptr)\<rparr>)"

definition HUF_endMark :: U64 where
  "HUF_endMark = HUF_setValue (HUF_setNbBits 1) 1"

definition HUF_closeCStream :: "HUF_CStream_t \<Rightarrow> nat \<times> HUF_CStream_t" where
  "HUF_closeCStream bitC =
     (let bitC = HUF_flushBits (HUF_addBits bitC HUF_endMark 0 False) False;
          nb = unat (h_bitPos0 bitC AND 0xFF)
      in if h_ptr bitC \<ge> h_endPtr bitC then (0, bitC) else (h_ptr bitC + (if nb > 0 then 1 else 0), bitC))"

subsection \<open>Streams\<close>

definition HUF_encodeSymbol :: "HUF_CStream_t \<Rightarrow> BYTE \<Rightarrow> U64 list \<Rightarrow> nat \<Rightarrow> bool \<Rightarrow> HUF_CStream_t" where
  "HUF_encodeSymbol bitC symb ct idx fast = HUF_addBits bitC (ct ! unat symb) idx fast"

text \<open>The symbols from \<open>n - 1\<close> down to \<open>n - kUnroll\<close>.\<close>

definition encode_group :: "HUF_CStream_t \<Rightarrow> buffer \<Rightarrow> nat \<Rightarrow> U64 list \<Rightarrow> nat \<Rightarrow> nat \<Rightarrow> bool \<Rightarrow> HUF_CStream_t" where
  "encode_group bitC ip n ct kUnroll idx kLastFast =
     (let bitC = fold (\<lambda>u bitC. HUF_encodeSymbol bitC (ip ! (n - u)) ct idx True) [1..<kUnroll] bitC
      in HUF_encodeSymbol bitC (ip ! (n - kUnroll)) ct idx kLastFast)"

function encode_loop :: "HUF_CStream_t \<Rightarrow> buffer \<Rightarrow> nat \<Rightarrow> U64 list \<Rightarrow> nat \<Rightarrow> bool \<Rightarrow> bool \<Rightarrow> HUF_CStream_t" where
  "encode_loop bitC ip n ct kUnroll kFastFlush kLastFast =
     (if n > 0 \<and> kUnroll > 0
      then let bitC = encode_group bitC ip n ct kUnroll 0 kLastFast;
               bitC = HUF_flushBits bitC kFastFlush;
               bitC = HUF_zeroIndex1 bitC;
               bitC = encode_group bitC ip (n - kUnroll) ct kUnroll 1 kLastFast;
               bitC = HUF_mergeIndex1 bitC;
               bitC = HUF_flushBits bitC kFastFlush
           in encode_loop bitC ip (n - 2 * kUnroll) ct kUnroll kFastFlush kLastFast
      else bitC)"
  by auto
termination by (relation "measure (\<lambda>(bitC, ip, n, _). n)") auto

declare encode_loop.simps [simp del]

definition HUF_compress1X_usingCTable_internal_body_loop ::
  "HUF_CStream_t \<Rightarrow> buffer \<Rightarrow> U64 list \<Rightarrow> nat \<Rightarrow> bool \<Rightarrow> bool \<Rightarrow> HUF_CStream_t" where
  "HUF_compress1X_usingCTable_internal_body_loop bitC ip ct kUnroll kFastFlush kLastFast =
     (let n = length ip;
          rm = n mod kUnroll;
          (bitC, n) = (if rm > 0
             then (HUF_flushBits (fold (\<lambda>i bitC. HUF_encodeSymbol bitC (ip ! i) ct 0 False) (rev [n - rm..<n]) bitC) kFastFlush, n - rm)
             else (bitC, n));
          (bitC, n) = (if n mod (2 * kUnroll) \<noteq> 0
             then (HUF_flushBits (encode_group bitC ip n ct kUnroll 0 kLastFast) kFastFlush, n - kUnroll)
             else (bitC, n))
      in encode_loop bitC ip n ct kUnroll kFastFlush kLastFast)"

definition HUF_tightCompressBound :: "nat \<Rightarrow> nat \<Rightarrow> nat" where
  "HUF_tightCompressBound srcSize tableLog = srcSize * tableLog div 8 + 8"

text \<open>The unrolling of the 64-bit builds, and whether flushes and last additions are fast.\<close>

definition unroll_choice :: "nat \<Rightarrow> nat \<times> bool \<times> bool" where
  "unroll_choice tableLog =
     (if tableLog = 11 then (5, True, False)
      else if tableLog = 10 then (5, True, True)
      else if tableLog = 9 then (6, True, False)
      else if tableLog = 8 then (7, True, False)
      else if tableLog = 7 then (8, True, False)
      else (9, True, True))"

text \<open>The result is the size of the stream, 0 if it does not fit, and the destination.\<close>

definition HUF_compress1X_usingCTable_internal_body :: "buffer \<Rightarrow> buffer \<Rightarrow> HUF_CTable \<Rightarrow> nat \<times> buffer" where
  "HUF_compress1X_usingCTable_internal_body ostart src CTable =
     (let dstSize = length ostart; tableLog = hct_tableLog CTable; ct = hct_elts CTable
      in if dstSize < 8 then (0, ostart)
         else case HUF_initCStream ostart dstSize of
           Inl _ \<Rightarrow> (0, ostart)
         | Inr bitC \<Rightarrow>
             let (kUnroll, kFastFlush, kLastFast) =
                   (if dstSize < HUF_tightCompressBound (length src) tableLog \<or> tableLog > 11
                    then (4, False, False) else unroll_choice tableLog);
                 bitC = HUF_compress1X_usingCTable_internal_body_loop bitC src ct kUnroll kFastFlush kLastFast;
                 (n, bitC) = HUF_closeCStream bitC
             in (n, h_mem bitC))"

text \<open>
  Four streams behind the sizes of the first three.  A segment is written from \<open>op\<close> to the end of the
  destination; each of them gives up where the stream is empty or its size has no 16 bits.
\<close>

definition compress_segment :: "buffer \<Rightarrow> nat \<Rightarrow> buffer \<Rightarrow> HUF_CTable \<Rightarrow> nat \<times> buffer" where
  "compress_segment ostart op ip CTable =
     (let (cSize, out) = HUF_compress1X_usingCTable_internal_body (drop op ostart) ip CTable
      in (cSize, take op ostart @ out))"

definition HUF_compress4X_usingCTable_internal :: "buffer \<Rightarrow> buffer \<Rightarrow> HUF_CTable \<Rightarrow> nat \<times> buffer" where
  "HUF_compress4X_usingCTable_internal ostart src CTable =
     (let dstSize = length ostart; srcSize = length src; segmentSize = (srcSize + 3) div 4
      in if dstSize < 6 + 1 + 1 + 1 + 8 then (0, ostart)
         else if srcSize < 12 then (0, ostart)
         else
           let op = 6; (cSize, ostart) = compress_segment ostart op (bytes_at src 0 segmentSize) CTable
           in if cSize = 0 \<or> cSize > 65535 then (0, ostart)
           else let ostart = MEM_writeLE16 LittleEndian ostart 0 (of_nat cSize); op = op + cSize;
             (cSize, ostart) = compress_segment ostart op (bytes_at src segmentSize segmentSize) CTable
           in if cSize = 0 \<or> cSize > 65535 then (0, ostart)
           else let ostart = MEM_writeLE16 LittleEndian ostart 2 (of_nat cSize); op = op + cSize;
             (cSize, ostart) = compress_segment ostart op (bytes_at src (2 * segmentSize) segmentSize) CTable
           in if cSize = 0 \<or> cSize > 65535 then (0, ostart)
           else let ostart = MEM_writeLE16 LittleEndian ostart 4 (of_nat cSize); op = op + cSize;
             (cSize, ostart) = compress_segment ostart op (drop (3 * segmentSize) src) CTable
           in if cSize = 0 \<or> cSize > 65535 then (0, ostart)
           else (op + cSize, ostart))"

subsection \<open>Containers filled from above\<close>

text \<open>The \<open>p\<close> highest bits of a container.\<close>

definition top_val :: "nat \<Rightarrow> U64 \<Rightarrow> nat" where
  "top_val p c = unat c div 2 ^ (64 - p)"

lemma top_val_bound: "p \<le> 64 \<Longrightarrow> top_val p c < 2 ^ p"
proof -
  assume "p \<le> 64"
  then have "unat c < 2 ^ ((64 - p) + p)" using unat_less_exp[of c] by simp
  then show ?thesis by (simp add: top_val_def power_add less_mult_imp_div_less mult.commute)
qed

lemma top_val_drop: "top_val p c = unat (drop_bit (64 - p) c)"
  by (simp add: top_val_def unat_drop_bit_div)

text \<open>Shifting in \<open>n\<close> bits of value \<open>x\<close>, with anything below the bits in use.\<close>

lemma shift_in_top:
  fixes c e :: U64
  assumes "p + n \<le> 64" "top_val n e = x" "take_bit (64 - n) e = j" "unat j < 2 ^ (64 - (p + n))"
  shows "top_val (p + n) (drop_bit n c OR e) = top_val p c + 2 ^ p * x"
proof -
  let ?k = "64 - (p + n)"
  have a: "drop_bit ?k (drop_bit n c) = drop_bit (64 - p) c" using assms(1) by simp
  have e: "drop_bit ?k e = push_bit p (drop_bit (64 - n) e)"
  proof (rule bit_word_eqI)
    fix i assume i: "i < LENGTH(64)"
    have "\<not> bit e (?k + i)" if "i < p"
    proof -
      have "bit e (?k + i) = bit j (?k + i)" using that assms(1,3) by (auto simp: bit_simps)
      moreover have "\<not> bit j (?k + i)" using assms(4) by (auto simp: unat_less_iff_bits)
      ultimately show ?thesis by simp
    qed
    note low = this
    show "bit (drop_bit ?k e) i = bit (push_bit p (drop_bit (64 - n) e)) i"
    proof (cases "i < p")
      case True
      then show ?thesis using low by (simp add: bit_simps)
    next
      case False
      then have "64 - n + (i - p) = ?k + i" using assms(1) by simp
      then show ?thesis using False i by (simp add: bit_simps)
    qed
  qed
  have "drop_bit ?k (drop_bit n c OR e) = drop_bit (64 - p) c OR push_bit p (drop_bit (64 - n) e)"
    by (simp only: drop_bit_or a e)
  moreover have "unat (drop_bit (64 - p) c) < 2 ^ p"
    using top_val_bound[of p c] assms(1) by (simp add: top_val_drop)
  moreover have "unat (drop_bit (64 - n) e) * 2 ^ p < 2 ^ LENGTH(64)"
  proof -
    have "unat (drop_bit (64 - n) e) < 2 ^ n" using top_val_bound[of n e] assms(1) by (simp add: top_val_drop)
    then have "unat (drop_bit (64 - n) e) * 2 ^ p < 2 ^ n * 2 ^ p" by simp
    also have "\<dots> \<le> 2 ^ 64" using assms(1) by (simp only: power_add[symmetric]) (intro power_increasing, auto)
    finally show ?thesis by simp
  qed
  ultimately have "top_val (p + n) (drop_bit n c OR e) = unat (drop_bit (64 - p) c) + unat (drop_bit (64 - n) e) * 2 ^ p"
    by (simp only: top_val_drop unat_or_push_bit)
  then show ?thesis using assms(2) by (simp add: top_val_drop mult.commute)
qed

lemma or_less: "unat a < 2 ^ d \<Longrightarrow> unat b < 2 ^ d \<Longrightarrow> unat (a OR b) < 2 ^ d" for a b :: U64
  by (auto simp: unat_less_iff_bits bit_simps)

text \<open>An element of a code table.\<close>

definition huf_elt :: "U64 \<Rightarrow> nat \<Rightarrow> nat \<Rightarrow> bool" where
  "huf_elt elt x nb \<longleftrightarrow> 1 \<le> nb \<and> nb \<le> 12 \<and> x < 2 ^ nb \<and> unat elt = x * 2 ^ (64 - nb) + nb"

lemma huf_elt_facts:
  assumes "huf_elt elt x nb"
  shows "HUF_getNbBits elt = nb" "top_val nb elt = x" "unat (take_bit (64 - nb) elt) = nb"
    "top_val nb (HUF_getValue elt) = x" "take_bit (64 - nb) (HUF_getValue elt) = 0" "unat elt mod 256 = nb"
proof -
  have nb: "1 \<le> nb" "nb \<le> 12" "x < 2 ^ nb" and u: "unat elt = x * 2 ^ (64 - nb) + nb" using assms by (auto simp: huf_elt_def)
  have "(2::nat) ^ 52 \<le> 2 ^ (64 - nb)" using nb by (intro power_increasing) auto
  then have lt: "nb < 2 ^ (64 - nb)" using nb(2) by (simp add: less_le_trans)
  have d: "(2::nat) ^ (64 - nb) = 2 ^ (56 - nb) * 256" using power_add[of "2::nat" "56 - nb" 8] nb(2) by simp
  have "unat elt mod 256 = nb mod 256" unfolding u d by (simp add: mult.assoc[symmetric])
  then show m: "unat elt mod 256 = nb" using nb(2) by simp
  have ff: "(0xFF :: U64) = mask 8" by (simp add: mask_eq_exp_minus_1)
  show "HUF_getNbBits elt = nb" unfolding HUF_getNbBits_def ff unat_and_mask using m by simp
  show t: "top_val nb elt = x" using lt by (simp add: top_val_def u)
  show k: "unat (take_bit (64 - nb) elt) = nb" using lt by (simp add: unat_take_bit_mod u)
  have gv: "bit (HUF_getValue elt) i \<longleftrightarrow> 8 \<le> i \<and> bit elt i" for i
    unfolding HUF_getValue_def ff using bit_imp_le_length[of elt i] by (auto simp: bit_simps)
  have low: "\<not> bit elt i" if "8 \<le> i" "i < 64 - nb" for i
  proof -
    have "nb < 2 ^ 8" using nb(2) by simp
    then have "unat (take_bit (64 - nb) elt) < 2 ^ 8" using k by simp
    then have "\<not> bit (take_bit (64 - nb) elt) i" using that(1) unfolding unat_less_iff_bits by blast
    then show ?thesis using that(2) by (simp add: bit_simps)
  qed
  have "drop_bit (64 - nb) (HUF_getValue elt) = drop_bit (64 - nb) elt"
    by (rule bit_word_eqI) (use nb(2) in \<open>auto simp: bit_drop_bit_eq gv\<close>)
  then show "top_val nb (HUF_getValue elt) = x" using t by (simp add: top_val_drop)
  show "take_bit (64 - nb) (HUF_getValue elt) = 0"
    by (rule bit_word_eqI) (use low in \<open>auto simp: bit_take_bit_iff gv\<close>)
qed

subsection \<open>The stream as a list of fields\<close>

text \<open>
  The stream holds the fields \<open>fs\<close>, at most \<open>k\<close> bits of them in container 0; or it has run into the
  end of its buffer, where it stays.
\<close>

definition h_pos :: "HUF_CStream_t \<Rightarrow> nat" where
  "h_pos c = unat (h_bitPos0 c) mod 256"

definition h_room :: "nat \<Rightarrow> nat \<Rightarrow> HUF_CStream_t \<Rightarrow> bool" where
  "h_room E sz c \<longleftrightarrow> h_endPtr c = E \<and> length (h_mem c) = sz \<and> E + 8 \<le> sz \<and> h_ptr c \<le> E"

definition h_holds :: "(nat \<times> nat) list \<Rightarrow> HUF_CStream_t \<Rightarrow> bool" where
  "h_holds fs c \<longleftrightarrow> 8 * h_ptr c + h_pos c = flen fs
     \<and> le_val (take (h_ptr c) (h_mem c)) + 256 ^ h_ptr c * top_val (h_pos c) (h_bitContainer0 c) = fval fs"

definition hst :: "nat \<Rightarrow> nat \<Rightarrow> (nat \<times> nat) list \<Rightarrow> nat \<Rightarrow> HUF_CStream_t \<Rightarrow> bool" where
  "hst E sz fs k c \<longleftrightarrow> h_room E sz c \<and> h_pos c \<le> k \<and> k \<le> 64 \<and> (h_holds fs c \<or> h_ptr c = E \<and> 8 * E + 8 \<le> flen fs)"

text \<open>Container 1 holds fields of its own, with at most \<open>d\<close> bits below them.\<close>

definition h1_holds :: "nat \<Rightarrow> (nat \<times> nat) list \<Rightarrow> nat \<Rightarrow> HUF_CStream_t \<Rightarrow> bool" where
  "h1_holds d fs k c \<longleftrightarrow> unat (h_bitPos1 c) mod 256 = flen fs \<and> flen fs \<le> k
     \<and> top_val (flen fs) (h_bitContainer1 c) = fval fs \<and> unat (take_bit (64 - flen fs) (h_bitContainer1 c)) < 2 ^ d"

lemma shift_in_elt:
  assumes "huf_elt elt x nb" "p + nb + (if kFast then d else 0) \<le> 64" "nb < 2 ^ d"
  shows "top_val (p + nb) (huf_shift_in c elt kFast) = top_val p c + 2 ^ p * x"
proof -
  note f = huf_elt_facts[OF assms(1)]
  show ?thesis
  proof (cases kFast)
    case True
    then have "(2::nat) ^ d \<le> 2 ^ (64 - (p + nb))" using assms(2) by (intro power_increasing) auto
    then have "unat (take_bit (64 - nb) elt) < 2 ^ (64 - (p + nb))" using assms(3) f(3) by linarith
    from shift_in_top[OF _ f(2) refl this] assms(2) True show ?thesis
      by (simp add: huf_shift_in_def f(1) HUF_getValueFast_def)
  next
    case False
    from shift_in_top[OF _ f(4) f(5), of p c] assms(2) False show ?thesis
      by (simp add: huf_shift_in_def f(1))
  qed
qed

lemma unat_add_mod256: "unat (a + b :: U64) mod 256 = (unat a mod 256 + unat b mod 256) mod 256"
proof -
  have "unat (a + b) mod 2 ^ 8 = (unat a + unat b) mod 2 ^ 64 mod 2 ^ 8" by (simp add: unat_word_ariths)
  also have "\<dots> = (unat a + unat b) mod 2 ^ 8" by (rule mod_pow2_cancel) simp
  finally show ?thesis by (simp add: mod_add_eq)
qed

lemma hst_add:
  assumes "hst E sz fs k c" "huf_elt elt x nb" "nb < 2 ^ d" "k + nb + (if kFast then d else 0) \<le> 64"
  shows "hst E sz (fs @ [(x, nb)]) (k + nb) (HUF_addBits c elt 0 kFast)"
proof -
  let ?c = "HUF_addBits c elt 0 kFast" and ?p = "h_pos c"
  have k: "?p \<le> k" "k + nb \<le> 64" using assms(1,4) by (auto simp: hst_def)
  have e: "h_ptr ?c = h_ptr c" "h_mem ?c = h_mem c" "h_endPtr ?c = h_endPtr c"
    "h_bitContainer0 ?c = huf_shift_in (h_bitContainer0 c) elt kFast" "h_bitPos0 ?c = h_bitPos0 c + elt"
    by (simp_all add: HUF_addBits_def HUF_getNbBitsFast_def)
  have p: "h_pos ?c = ?p + nb"
    using huf_elt_facts(6)[OF assms(2)] k by (simp add: h_pos_def e unat_add_mod256)
  have t: "top_val (?p + nb) (huf_shift_in (h_bitContainer0 c) elt kFast) = top_val ?p (h_bitContainer0 c) + 2 ^ ?p * x"
    by (rule shift_in_elt[OF assms(2) _ assms(3)]) (use assms(4) k in auto)
  have "h_holds (fs @ [(x, nb)]) ?c" if "h_holds fs c"
  proof -
    have x: "x mod 2 ^ nb = x" using assms(2) by (simp add: huf_elt_def)
    have "(2::nat) ^ flen fs = 256 ^ h_ptr c * 2 ^ ?p" using that by (simp only: h_holds_def pow256 power_add[symmetric])
    then show ?thesis using that unfolding h_holds_def p e t by (simp add: fval_snoc x distrib_left)
  qed
  then show ?thesis using assms(1) k p by (auto simp: hst_def h_room_def e)
qed

lemma div_pow_less: "j < 2 ^ d \<Longrightarrow> j div 2 ^ n < (2::nat) ^ (d - n)"
proof (cases "n \<le> d")
  case True
  assume "j < 2 ^ d"
  then have "j < 2 ^ (d - n) * 2 ^ n" using True by (simp add: power_add[symmetric])
  then show ?thesis by (rule less_mult_imp_div_less)
next
  case False
  assume "j < 2 ^ d"
  moreover have "(2::nat) ^ d \<le> 2 ^ n" using False by (intro power_increasing) auto
  ultimately have "j < 2 ^ n" by (rule less_le_trans)
  then show ?thesis by simp
qed

lemma h1_add:
  assumes "h1_holds d fs k c" "huf_elt elt x nb" "if kFast then nb < 2 ^ d \<and> k + nb + d \<le> 64 else k + nb \<le> 64"
  shows "h1_holds (if kFast then d else d - nb) (fs @ [(x, nb)]) (k + nb) (HUF_addBits c elt 1 kFast)"
proof -
  let ?c = "HUF_addBits c elt 1 kFast" and ?p = "flen fs"
  note f = huf_elt_facts[OF assms(2)]
  have k: "?p \<le> k" "k + nb \<le> 64" "unat (h_bitPos1 c) mod 256 = ?p" using assms(1,3) by (auto simp: h1_holds_def split: if_splits)
  have e: "h_bitContainer1 ?c = huf_shift_in (h_bitContainer1 c) elt kFast" "h_bitPos1 ?c = h_bitPos1 c + elt"
    by (simp_all add: HUF_addBits_def HUF_getNbBitsFast_def)
  have p: "unat (h_bitPos1 ?c) mod 256 = ?p + nb"
    using f(6) k unfolding e by (simp add: unat_add_mod256)
  have nbd: "nb < 2 ^ (if kFast then d else nb)" using assms(3) less_exp[of nb] by (auto split: if_splits)
  have t: "top_val (?p + nb) (huf_shift_in (h_bitContainer1 c) elt kFast) = top_val ?p (h_bitContainer1 c) + 2 ^ ?p * x"
    by (rule shift_in_elt[OF assms(2) _ nbd]) (use assms(3) k in \<open>auto split: if_splits\<close>)
  have x: "x mod 2 ^ nb = x" using assms(2) by (simp add: huf_elt_def)
  let ?k = "64 - (?p + nb)"
  have low: "take_bit ?k (huf_shift_in (h_bitContainer1 c) elt kFast)
      = take_bit ?k (drop_bit nb (h_bitContainer1 c)) OR take_bit ?k (if kFast then elt else HUF_getValue elt)"
    by (simp add: huf_shift_in_def f(1) HUF_getValueFast_def take_bit_or)
  have "take_bit ?k (drop_bit nb (h_bitContainer1 c)) = drop_bit nb (take_bit (64 - ?p) (h_bitContainer1 c))"
    by (rule bit_word_eqI) (use k in \<open>auto simp: bit_simps\<close>)
  then have a: "unat (take_bit ?k (drop_bit nb (h_bitContainer1 c))) < 2 ^ (d - nb)"
    using assms(1) div_pow_less by (simp only: unat_drop_bit_div h1_holds_def)
  have "unat (take_bit ?k (huf_shift_in (h_bitContainer1 c) elt kFast)) < 2 ^ (if kFast then d else d - nb)"
  proof (cases kFast)
    case True
    have "unat (take_bit ?k elt) = unat (take_bit (64 - nb) elt) mod 2 ^ ?k"
      by (simp only: unat_take_bit_mod) (rule mod_pow2_cancel[symmetric], simp)
    also have "\<dots> \<le> nb" using f(3) by simp
    finally have "unat (take_bit ?k elt) < 2 ^ d" using assms(3) True by simp
    moreover have "unat (take_bit ?k (drop_bit nb (h_bitContainer1 c))) < 2 ^ d"
      by (rule less_le_trans[OF a]) (intro power_increasing, auto)
    ultimately show ?thesis using True unfolding low by (simp add: or_less)
  next
    case False
    have "take_bit ?k (HUF_getValue elt) = take_bit ?k (take_bit (64 - nb) (HUF_getValue elt))" by (simp add: min_def)
    then show ?thesis using a False f(5) unfolding low by simp
  qed
  then show ?thesis using assms(1) p t k x unfolding h1_holds_def e by (simp add: fval_snoc)
qed

lemma hst_index1:
  "hst E sz fs k (HUF_addBits c elt 1 kFast) = hst E sz fs k c" "hst E sz fs k (HUF_zeroIndex1 c) = hst E sz fs k c"
  by (simp_all add: hst_def h_room_def h_holds_def h_pos_def HUF_addBits_def HUF_zeroIndex1_def)

lemma zeroIndex1_holds: "h1_holds 0 [] 0 (HUF_zeroIndex1 c)"
  by (simp add: h1_holds_def HUF_zeroIndex1_def top_val_def)

lemma hst_mono: "hst E sz fs k c \<Longrightarrow> k \<le> k' \<Longrightarrow> k' \<le> 64 \<Longrightarrow> hst E sz fs k' c"
  by (auto simp: hst_def)

lemma h1_mono: "h1_holds d fs k c \<Longrightarrow> k \<le> k' \<Longrightarrow> d \<le> d' \<Longrightarrow> h1_holds d' fs k' c"
  by (auto simp: h1_holds_def elim: less_le_trans intro: power_increasing)

lemma hst_merge:
  assumes "hst E sz fs k c" "h1_holds d gs k1 c" "k + k1 + d \<le> 64"
  shows "hst E sz (fs @ gs) (k + k1) (HUF_mergeIndex1 c)"
proof -
  let ?c = "HUF_mergeIndex1 c" and ?p = "h_pos c" and ?n = "flen gs"
  have ff: "(0xFF :: U64) = mask 8" by (simp add: mask_eq_exp_minus_1)
  have h1: "unat (h_bitPos1 c) mod 256 = ?n" "?n \<le> k1" "top_val ?n (h_bitContainer1 c) = fval gs"
    "unat (take_bit (64 - ?n) (h_bitContainer1 c)) < 2 ^ d" using assms(2) by (auto simp: h1_holds_def)
  have k: "?p \<le> k" using assms(1) by (simp add: hst_def)
  have n: "unat (h_bitPos1 c AND 0xFF) = ?n" unfolding ff unat_and_mask using h1(1) by simp
  have e: "h_ptr ?c = h_ptr c" "h_mem ?c = h_mem c" "h_endPtr ?c = h_endPtr c"
    "h_bitContainer0 ?c = drop_bit ?n (h_bitContainer0 c) OR h_bitContainer1 c" "h_bitPos0 ?c = h_bitPos0 c + h_bitPos1 c"
    by (simp_all add: HUF_mergeIndex1_def n)
  have p: "h_pos ?c = ?p + ?n" using h1(1,2) k assms(3) by (simp add: h_pos_def e unat_add_mod256)
  have "(2::nat) ^ d \<le> 2 ^ (64 - (?p + ?n))" using h1(2) k assms(3) by (intro power_increasing) auto
  then have "unat (take_bit (64 - ?n) (h_bitContainer1 c)) < 2 ^ (64 - (?p + ?n))" using h1(4) by linarith
  from shift_in_top[OF _ h1(3) refl this, of "h_bitContainer0 c"] h1(2) k assms(3)
  have t: "top_val (?p + ?n) (drop_bit ?n (h_bitContainer0 c) OR h_bitContainer1 c) = top_val ?p (h_bitContainer0 c) + 2 ^ ?p * fval gs" by simp
  have "h_holds (fs @ gs) ?c" if "h_holds fs c"
  proof -
    have "(2::nat) ^ flen fs = 256 ^ h_ptr c * 2 ^ ?p" using that by (simp only: h_holds_def pow256 power_add[symmetric])
    then show ?thesis using that unfolding h_holds_def p e t by (simp add: fval_append distrib_left)
  qed
  then show ?thesis using assms(1,3) h1(2) k p by (auto simp: hst_def h_room_def e)
qed

text \<open>A flush; a fast one needs the room.\<close>

lemma hst_flush:
  assumes "hst E sz fs k c" "kFast \<Longrightarrow> flen fs \<le> 8 * E + 7"
  shows "hst E sz fs 7 (HUF_flushBits c kFast)"
proof -
  let ?c = "HUF_flushBits c kFast" and ?p = "h_pos c"
  have ff: "(0xFF :: U64) = mask 8" "(7 :: U64) = mask 3" by (simp_all add: mask_eq_exp_minus_1)
  define n where "n = ?p div 8"
  have p: "?p \<le> 64" and r: "h_room E sz c" using assms(1) by (auto simp: hst_def)
  have nb: "unat (h_bitPos0 c AND 0xFF) = ?p" unfolding ff unat_and_mask by (simp add: h_pos_def)
  have e: "h_mem ?c = MEM_writeLEST LittleEndian (h_mem c) (h_ptr c) (drop_bit (64 - ?p) (h_bitContainer0 c))" "h_endPtr ?c = h_endPtr c"
    "h_bitContainer0 ?c = h_bitContainer0 c" "h_bitPos0 ?c = h_bitPos0 c AND 7"
    "h_ptr ?c = (if \<not> kFast \<and> h_ptr c + n > h_endPtr c then h_endPtr c else h_ptr c + n)"
    by (simp_all add: HUF_flushBits_def nb Let_def n_def)
  have pos: "h_pos ?c = ?p mod 8"
    using mod_pow2_cancel[of 3 8 "unat (h_bitPos0 c)"] unfolding h_pos_def e ff unat_and_mask by simp
  have len: "length (h_mem ?c) = sz" using r by (simp add: e h_room_def MEM_writeLEST_def writeLE64_eq)
  have n8: "n \<le> 8" "?p = 8 * n + ?p mod 8" using p by (auto simp: n_def)
  have fits: "h_ptr ?c = h_ptr c + n \<and> h_ptr ?c \<le> E \<and> h_holds fs ?c" if h: "h_holds fs c" "h_ptr c + n \<le> E"
  proof -
    have ptr: "h_ptr ?c = h_ptr c + n" using h(2) r by (simp add: e h_room_def)
    have "take (h_ptr c + n) (h_mem ?c) = take (h_ptr c) (h_mem c) @ le_bytes n (top_val ?p (h_bitContainer0 c))"
      unfolding e top_val_drop using take_after_store[of "h_ptr c" "h_mem c" n] r n8(1) by (simp add: h_room_def)
    then have lv: "le_val (take (h_ptr c + n) (h_mem ?c)) = le_val (take (h_ptr c) (h_mem c)) + 256 ^ h_ptr c * (top_val ?p (h_bitContainer0 c) mod 256 ^ n)"
      using r by (simp add: le_val_append h_room_def min_def)
    have "top_val (?p mod 8) (h_bitContainer0 c) = top_val ?p (h_bitContainer0 c) div 256 ^ n"
    proof -
      have "64 - ?p mod 8 = (64 - ?p) + 8 * n" using n8 p by linarith
      then show ?thesis by (simp add: top_val_def pow256 power_add div_mult2_eq)
    qed
    moreover have "256 ^ h_ptr c * (t mod 256 ^ n) + 256 ^ (h_ptr c + n) * (t div 256 ^ n) = 256 ^ h_ptr c * t" for t :: nat
      by (simp only: power_add mult.assoc distrib_left[symmetric] mod_mult_div_eq)
    moreover have "8 * (h_ptr c + n) + ?p mod 8 = 8 * h_ptr c + ?p" by (subst (2) n8(2)) (simp add: distrib_left)
    ultimately have "h_holds fs ?c" using h(1) unfolding h_holds_def ptr pos lv e(3) by (simp only: add.assoc)
    then show ?thesis using ptr h(2) by simp
  qed
  have over: "h_ptr ?c = E \<and> 8 * E + 8 \<le> flen fs" if "\<not> (h_holds fs c \<and> h_ptr c + n \<le> E)"
  proof (cases "h_holds fs c")
    case True
    then have "E + 1 \<le> h_ptr c + n" "flen fs = 8 * h_ptr c + ?p" using that by (auto simp: h_holds_def)
    then have fl: "8 * E + 8 \<le> flen fs" using n8(2) by linarith
    then have "\<not> kFast" using assms(2) by auto
    then show ?thesis using fl r that True unfolding e h_room_def by auto
  next
    case False
    then have h: "h_ptr c = E" "8 * E + 8 \<le> flen fs" using assms(1) by (auto simp: hst_def)
    then have "\<not> kFast" using assms(2) by auto
    then show ?thesis using h r unfolding e h_room_def by auto
  qed
  have "?p mod 8 < 8" by simp
  then have "h_pos ?c \<le> 7" unfolding pos by linarith
  then show ?thesis using fits over len r e(2) unfolding hst_def h_room_def by (cases "h_holds fs c \<and> h_ptr c + n \<le> E") auto
qed

lemma endMark_elt: "huf_elt HUF_endMark 1 1"
proof -
  have "HUF_getNbBits 1 = 1" by (simp add: HUF_getNbBits_def)
  then have e: "HUF_endMark = 0x8000000000000001" by (simp add: HUF_endMark_def HUF_setValue_def HUF_setNbBits_def)
  show ?thesis unfolding huf_elt_def e by simp
qed


lemma hst_close:
  assumes "hst E sz fs 7 c"
  shows "\<exists>n c'. HUF_closeCStream c = (n, c') \<and> length (h_mem c') = sz
    \<and> (if (flen fs + 1) div 8 < E then n = flen fs div 8 + 1 \<and> take n (h_mem c') = field_bytes fs else n = 0)"
proof -
  define a where "a = HUF_addBits c HUF_endMark 0 False"
  define c' where "c' = HUF_flushBits a False"
  have ha: "hst E sz (fs @ [(1, 1)]) 8 a"
    using hst_add[OF assms endMark_elt, of 1 False] by (simp add: a_def)
  have hc: "hst E sz (fs @ [(1, 1)]) 7 c'" unfolding c'_def by (rule hst_flush[OF ha]) simp
  have ff: "(0xFF :: U64) = mask 8" by (simp add: mask_eq_exp_minus_1)
  have cl: "HUF_closeCStream c = (if h_ptr c' \<ge> h_endPtr c' then 0 else h_ptr c' + (if h_pos c' > 0 then 1 else 0), c')"
    unfolding HUF_closeCStream_def Let_def a_def[symmetric] c'_def[symmetric] ff unat_and_mask by (simp add: h_pos_def)
  have r: "h_endPtr c' = E" "length (h_mem c') = sz" "E + 8 \<le> sz" "h_ptr c' \<le> E" "h_pos c' \<le> 7"
    using hc by (auto simp: hst_def h_room_def)
  show ?thesis
  proof (cases "(flen fs + 1) div 8 < E")
    case False
    have "h_ptr c' = E" using hc r(4,5) False by (auto simp: hst_def h_holds_def)
    then show ?thesis using cl r False by simp
  next
    case True
    then have hold: "h_holds (fs @ [(1, 1)]) c'" "h_holds (fs @ [(1, 1)]) a" using hc ha by (auto simp: hst_def)
    then have len: "8 * h_ptr c' + h_pos c' = flen fs + 1" "8 * h_ptr a + h_pos a = flen fs + 1"
      and va: "le_val (take (h_ptr a) (h_mem a)) + 256 ^ h_ptr a * top_val (h_pos a) (h_bitContainer0 a) = fval fs + 2 ^ flen fs"
      by (auto simp: h_holds_def fval_snoc)
    have pa: "h_pos a \<le> 8" "1 \<le> h_pos a"
      using ha assms endMark_elt huf_elt_facts(6)[OF endMark_elt]
      by (auto simp: hst_def a_def HUF_addBits_def h_pos_def HUF_getNbBitsFast_def unat_add_mod256)
    define n where "n = flen fs div 8 + 1"
    have n: "n = h_ptr a + 1" using len(2) pa by (simp add: n_def)
    have room: "h_ptr a + 8 \<le> length (h_mem a)" using ha by (auto simp: hst_def h_room_def)
    have nb: "unat (h_bitPos0 a AND 0xFF) = h_pos a" unfolding ff unat_and_mask by (simp add: h_pos_def)
    have mem: "take n (h_mem c') = take (h_ptr a) (h_mem a) @ le_bytes 1 (top_val (h_pos a) (h_bitContainer0 a))"
      using take_after_store[OF room, of 1] unfolding n c'_def by (simp add: HUF_flushBits_def nb Let_def top_val_drop)
    have "top_val (h_pos a) (h_bitContainer0 a) < 256"
      using top_val_bound[of "h_pos a" "h_bitContainer0 a"] pa(1) power_increasing[of "h_pos a" 8 "2::nat"] by simp
    then have "le_val (take n (h_mem c')) = fval fs + 2 ^ flen fs"
      using va room unfolding mem by (simp add: le_val_append min_def unat_of_nat_byte)
    moreover have "length (take n (h_mem c')) = n" using room n unfolding mem by simp
    ultimately have bytes: "take n (h_mem c') = field_bytes fs"
      using le_bytes_le_val[of "take n (h_mem c')"] by (simp add: field_bytes_def n_def)
    have "h_ptr c' < E" using True len(1) r(5) by simp
    moreover have "h_ptr c' + (if h_pos c' > 0 then 1 else 0) = n" using len(1) r(5) by (auto simp: n_def)
    ultimately show ?thesis using cl r(1,2) bytes True by (simp add: n_def)
  qed
qed

subsection \<open>Groups of symbols\<close>

text \<open>Every symbol of the source has a code word of at most \<open>tableLog\<close> bits; its length fits \<open>d\<close> bits.\<close>

definition codes_in :: "U64 list \<Rightarrow> nat \<Rightarrow> nat \<Rightarrow> (BYTE \<Rightarrow> nat \<times> nat) \<Rightarrow> buffer \<Rightarrow> bool" where
  "codes_in ct tableLog d f src \<longleftrightarrow> tableLog < 2 ^ d
     \<and> (\<forall>s\<in>set src. huf_elt (ct ! unat s) (fst (f s)) (snd (f s)) \<and> snd (f s) \<le> tableLog)"

text \<open>The fields of the symbols from \<open>j - 1\<close> down to \<open>i\<close>.\<close>

definition code_fields :: "(BYTE \<Rightarrow> nat \<times> nat) \<Rightarrow> buffer \<Rightarrow> nat \<Rightarrow> nat \<Rightarrow> (nat \<times> nat) list" where
  "code_fields f src i j = map (\<lambda>t. f (src ! t)) (rev [i..<j])"

lemma fields_append: "i \<le> j \<Longrightarrow> j \<le> k \<Longrightarrow> code_fields f src j k @ code_fields f src i j = code_fields f src i k"
  using upt_add_eq_append[of i j "k - j"] by (simp add: code_fields_def)

lemma fields_Suc: "Suc i \<le> j \<Longrightarrow> code_fields f src i j = code_fields f src (Suc i) j @ [f (src ! i)]"
  by (simp add: code_fields_def upt_conv_Cons)

lemma fields_refl [simp]: "code_fields f src i i = []"
  by (simp add: code_fields_def)

lemma flen_fields:
  assumes "codes_in ct tableLog d f src" "j \<le> length src"
  shows "flen (code_fields f src i j) \<le> (j - i) * tableLog"
  using assms(2)
proof (induction "j - i" arbitrary: i)
  case (Suc n)
  then have "flen (code_fields f src (Suc i) j) \<le> (j - Suc i) * tableLog" by (intro Suc.hyps(1)) auto
  moreover have "snd (f (src ! i)) \<le> tableLog" using assms Suc by (auto simp: codes_in_def)
  moreover have "j - i = Suc (j - Suc i)" using Suc by simp
  moreover have "code_fields f src i j = code_fields f src (Suc i) j @ [(fst (f (src ! i)), snd (f (src ! i)))]" using Suc by (simp add: fields_Suc)
  moreover have "flen [f (src ! i)] = snd (f (src ! i))" by (simp add: flen_def)
  ultimately show ?case by simp
qed (simp add: code_fields_def)

text \<open>The unrolling leaves room for the low bits of the elements.\<close>

definition unroll_ok :: "nat \<Rightarrow> nat \<Rightarrow> nat \<Rightarrow> bool \<Rightarrow> bool" where
  "unroll_ok tableLog d kUnroll kLastFast \<longleftrightarrow> 0 < kUnroll \<and> 7 + (kUnroll - 1) * tableLog + d \<le> 64
     \<and> 7 + kUnroll * tableLog + (if kLastFast then d else 0) \<le> 64"

lemma codes_nth:
  assumes "codes_in ct tableLog d f src" "i < length src"
  shows "huf_elt (ct ! unat (src ! i)) (fst (f (src ! i))) (snd (f (src ! i)))" "snd (f (src ! i)) \<le> tableLog" "snd (f (src ! i)) < 2 ^ d"
  using assms by (auto simp: codes_in_def intro: le_less_trans)

lemma encode_step0:
  assumes "codes_in ct tableLog d f src" "hst E sz (fs @ code_fields f src (Suc i) n) k c" "i < n" "n \<le> length src"
    and "k + tableLog + (if kFast then d else 0) \<le> 64"
  shows "hst E sz (fs @ code_fields f src i n) (k + tableLog) (HUF_encodeSymbol c (src ! i) ct 0 kFast)"
proof -
  note e = codes_nth[OF assms(1), of i]
  have i: "i < length src" using assms(3,4) by simp
  have fe: "fs @ code_fields f src i n = (fs @ code_fields f src (Suc i) n) @ [(fst (f (src ! i)), snd (f (src ! i)))]"
    using fields_Suc[of i n f src] assms(3) by simp
  have "hst E sz (fs @ code_fields f src i n) (k + snd (f (src ! i))) (HUF_encodeSymbol c (src ! i) ct 0 kFast)"
    unfolding fe HUF_encodeSymbol_def
    by (rule hst_add[OF assms(2) e(1)[OF i] e(3)[OF i]]) (use e(2)[OF i] assms(5) in \<open>simp split: if_splits\<close>)
  then show ?thesis by (rule hst_mono) (use e(2)[OF i] assms(5) in \<open>simp_all split: if_splits\<close>)
qed

lemma group_fold0:
  assumes "codes_in ct tableLog d f src" "hst E sz fs 7 c" "m < n" "n \<le> length src" "7 + m * tableLog + d \<le> 64"
  shows "hst E sz (fs @ code_fields f src (n - m) n) (7 + m * tableLog) (fold (\<lambda>u c. HUF_encodeSymbol c (src ! (n - u)) ct 0 True) [1..<Suc m] c)"
  using assms(3,5)
proof (induction m)
  case 0
  then show ?case using assms(2) by simp
next
  case (Suc m)
  let ?c = "fold (\<lambda>u c. HUF_encodeSymbol c (src ! (n - u)) ct 0 True) [1..<Suc m] c"
  have s: "Suc (n - Suc m) = n - m" using Suc.prems(1) by simp
  have "hst E sz (fs @ code_fields f src (Suc (n - Suc m)) n) (7 + m * tableLog) ?c"
    unfolding s by (rule Suc.IH) (use Suc.prems in auto)
  from encode_step0[OF assms(1) this _ assms(4), of True] Suc.prems
  have "hst E sz (fs @ code_fields f src (n - Suc m) n) (7 + m * tableLog + tableLog) (HUF_encodeSymbol ?c (src ! (n - Suc m)) ct 0 True)"
    by simp
  moreover have "fold (\<lambda>u c. HUF_encodeSymbol c (src ! (n - u)) ct 0 True) [1..<Suc (Suc m)] c = HUF_encodeSymbol ?c (src ! (n - Suc m)) ct 0 True"
    by simp
  moreover have "7 + Suc m * tableLog = 7 + m * tableLog + tableLog" by simp
  ultimately show ?case by (simp only:)
qed

lemma encode_group0:
  assumes "codes_in ct tableLog d f src" "hst E sz fs 7 c" "kUnroll \<le> n" "n \<le> length src" "unroll_ok tableLog d kUnroll kLastFast"
  shows "hst E sz (fs @ code_fields f src (n - kUnroll) n) (7 + kUnroll * tableLog) (encode_group c src n ct kUnroll 0 kLastFast)"
proof -
  obtain m where m: "kUnroll = Suc m" using assms(5) by (cases kUnroll) (auto simp: unroll_ok_def)
  have ok: "7 + m * tableLog + d \<le> 64" "7 + m * tableLog + tableLog + (if kLastFast then d else 0) \<le> 64"
    using assms(5) by (simp_all add: unroll_ok_def m)
  have s: "Suc (n - Suc m) = n - m" using assms(3) m by simp
  have "hst E sz (fs @ code_fields f src (Suc (n - Suc m)) n) (7 + m * tableLog) (fold (\<lambda>u c. HUF_encodeSymbol c (src ! (n - u)) ct 0 True) [1..<Suc m] c)"
    unfolding s using group_fold0[OF assms(1,2) _ assms(4) ok(1)] assms(3) m by simp
  from encode_step0[OF assms(1) this _ assms(4) ok(2)] assms(3) m show ?thesis
    by (simp add: encode_group_def add_ac del: upt_Suc)
qed

lemma encode_step1:
  assumes "codes_in ct tableLog d f src" "h1_holds d (code_fields f src (Suc i) n) k c" "i < n" "n \<le> length src"
    and "k + tableLog + d \<le> 64"
  shows "h1_holds d (code_fields f src i n) (k + tableLog) (HUF_encodeSymbol c (src ! i) ct 1 True)"
proof -
  note e = codes_nth[OF assms(1), of i]
  have i: "i < length src" using assms(3,4) by simp
  have fe: "code_fields f src i n = code_fields f src (Suc i) n @ [(fst (f (src ! i)), snd (f (src ! i)))]"
    using fields_Suc[of i n f src] assms(3) by simp
  have "h1_holds (if True then d else d - snd (f (src ! i))) (code_fields f src i n) (k + snd (f (src ! i))) (HUF_encodeSymbol c (src ! i) ct 1 True)"
    unfolding fe HUF_encodeSymbol_def
    by (rule h1_add[OF assms(2) e(1)[OF i]]) (use e(2,3)[OF i] assms(5) in auto)
  then have "h1_holds d (code_fields f src i n) (k + snd (f (src ! i))) (HUF_encodeSymbol c (src ! i) ct 1 True)" by simp
  then show ?thesis by (rule h1_mono) (use e(2)[OF i] in auto)
qed

lemma group_fold1:
  assumes "codes_in ct tableLog d f src" "h1_holds 0 [] 0 c" "m < n" "n \<le> length src" "m * tableLog + d \<le> 64"
  shows "h1_holds d (code_fields f src (n - m) n) (m * tableLog) (fold (\<lambda>u c. HUF_encodeSymbol c (src ! (n - u)) ct 1 True) [1..<Suc m] c)"
  using assms(3,5)
proof (induction m)
  case 0
  then show ?case using h1_mono[OF assms(2), of 0 d] by simp
next
  case (Suc m)
  let ?c = "fold (\<lambda>u c. HUF_encodeSymbol c (src ! (n - u)) ct 1 True) [1..<Suc m] c"
  have s: "Suc (n - Suc m) = n - m" using Suc.prems(1) by simp
  have "h1_holds d (code_fields f src (Suc (n - Suc m)) n) (m * tableLog) ?c"
    unfolding s by (rule Suc.IH) (use Suc.prems in auto)
  from encode_step1[OF assms(1) this _ assms(4)] Suc.prems
  have "h1_holds d (code_fields f src (n - Suc m) n) (m * tableLog + tableLog) (HUF_encodeSymbol ?c (src ! (n - Suc m)) ct 1 True)"
    by simp
  moreover have "fold (\<lambda>u c. HUF_encodeSymbol c (src ! (n - u)) ct 1 True) [1..<Suc (Suc m)] c = HUF_encodeSymbol ?c (src ! (n - Suc m)) ct 1 True"
    by simp
  moreover have "Suc m * tableLog = m * tableLog + tableLog" by simp
  ultimately show ?case by (simp only:)
qed

lemma hst_group1:
  "hst E sz fs k (encode_group c src n ct kUnroll 1 kLastFast) = hst E sz fs k c"
proof -
  have "hst E sz fs k (fold (\<lambda>u c. HUF_encodeSymbol c (src ! (n - u)) ct 1 True) us c) = hst E sz fs k c" for us c
    by (induction us arbitrary: c) (simp_all add: HUF_encodeSymbol_def hst_index1(1)[simplified])
  then show ?thesis by (simp add: encode_group_def HUF_encodeSymbol_def hst_index1(1)[simplified])
qed

text \<open>The second container keeps few enough low bits for the merge.\<close>

lemma encode_group1:
  assumes "codes_in ct tableLog d f src" "h1_holds 0 [] 0 c" "kUnroll \<le> n" "n \<le> length src" "unroll_ok tableLog d kUnroll kLastFast"
  shows "\<exists>k1 d1. h1_holds d1 (code_fields f src (n - kUnroll) n) k1 (encode_group c src n ct kUnroll 1 kLastFast) \<and> 7 + k1 + d1 \<le> 64"
proof -
  obtain m where m: "kUnroll = Suc m" using assms(5) by (cases kUnroll) (auto simp: unroll_ok_def)
  have ok: "7 + m * tableLog + d \<le> 64" "7 + m * tableLog + tableLog + (if kLastFast then d else 0) \<le> 64"
    using assms(5) by (simp_all add: unroll_ok_def m)
  let ?c = "fold (\<lambda>u c. HUF_encodeSymbol c (src ! (n - u)) ct 1 True) [1..<Suc m] c" and ?i = "n - Suc m"
  let ?nb = "snd (f (src ! ?i))"
  have i: "?i < length src" "Suc ?i = n - m" "Suc ?i \<le> n" using assms(3,4) m by auto
  note e = codes_nth[OF assms(1) i(1)]
  have h: "h1_holds d (code_fields f src (Suc ?i) n) (m * tableLog) ?c"
    unfolding i(2) using group_fold1[OF assms(1,2) _ assms(4), of m] ok(1) assms(3) m by simp
  have fe: "code_fields f src ?i n = code_fields f src (Suc ?i) n @ [(fst (f (src ! ?i)), ?nb)]"
    using fields_Suc[OF i(3), of f src] by simp
  have g: "encode_group c src n ct (Suc m) 1 kLastFast = HUF_addBits ?c (ct ! unat (src ! ?i)) 1 kLastFast"
    by (simp only: encode_group_def HUF_encodeSymbol_def Let_def)
  have "h1_holds (if kLastFast then d else d - ?nb) (code_fields f src ?i n) (m * tableLog + ?nb) (HUF_addBits ?c (ct ! unat (src ! ?i)) 1 kLastFast)"
    unfolding fe by (rule h1_add[OF h e(1)]) (use e(2,3) ok in \<open>auto split: if_splits\<close>)
  moreover have "7 + (m * tableLog + ?nb) + (if kLastFast then d else d - ?nb) \<le> 64" using ok e(2) by (auto split: if_splits)
  ultimately show ?thesis unfolding m g by blast
qed

lemma loop_step:
  assumes "codes_in ct tableLog d f src" "unroll_ok tableLog d kUnroll kLastFast" "hst E sz (code_fields f src n N) 7 c"
    and "2 * kUnroll \<le> n" "n \<le> N" "N \<le> length src" "kFastFlush \<Longrightarrow> length src * tableLog \<le> 8 * E + 7"
  shows "hst E sz (code_fields f src (n - 2 * kUnroll) N) 7
    (HUF_flushBits (HUF_mergeIndex1 (encode_group (HUF_zeroIndex1 (HUF_flushBits (encode_group c src n ct kUnroll 0 kLastFast) kFastFlush))
       src (n - kUnroll) ct kUnroll 1 kLastFast)) kFastFlush)"
proof -
  have fits: "flen (code_fields f src i N) \<le> 8 * E + 7" if kFastFlush for i
  proof -
    have "flen (code_fields f src i N) \<le> (N - i) * tableLog" by (rule flen_fields[OF assms(1,6)])
    also have "\<dots> \<le> length src * tableLog" using assms(6) by (intro mult_le_mono1) simp
    finally show ?thesis using assms(7)[OF that] by linarith
  qed
  define c1 where "c1 = HUF_flushBits (encode_group c src n ct kUnroll 0 kLastFast) kFastFlush"
  have n: "kUnroll \<le> n" "n \<le> length src" "kUnroll \<le> n - kUnroll" "n - kUnroll \<le> length src" using assms(4-6) by auto
  have "hst E sz (code_fields f src n N @ code_fields f src (n - kUnroll) n) (7 + kUnroll * tableLog) (encode_group c src n ct kUnroll 0 kLastFast)"
    by (rule encode_group0[OF assms(1,3) n(1,2) assms(2)])
  then have c1: "hst E sz (code_fields f src (n - kUnroll) N) 7 c1"
    unfolding c1_def using assms(5) fits by (intro hst_flush) (simp_all add: fields_append)
  obtain k1 d1 where g1: "h1_holds d1 (code_fields f src (n - kUnroll - kUnroll) (n - kUnroll)) k1
      (encode_group (HUF_zeroIndex1 c1) src (n - kUnroll) ct kUnroll 1 kLastFast)" "7 + k1 + d1 \<le> 64"
    using encode_group1[OF assms(1) zeroIndex1_holds n(3,4) assms(2)] by blast
  have "hst E sz (code_fields f src (n - kUnroll) N) 7 (encode_group (HUF_zeroIndex1 c1) src (n - kUnroll) ct kUnroll 1 kLastFast)"
    using c1 by (simp only: hst_group1 hst_index1(2))
  from hst_merge[OF this g1] have "hst E sz (code_fields f src (n - 2 * kUnroll) N) (7 + k1)
      (HUF_mergeIndex1 (encode_group (HUF_zeroIndex1 c1) src (n - kUnroll) ct kUnroll 1 kLastFast))"
    using assms(4,5) by (simp add: fields_append mult_2 diff_diff_left)
  then show ?thesis unfolding c1_def[symmetric] by (rule hst_flush) (rule fits)
qed

lemma encode_loop_holds:
  assumes "codes_in ct tableLog d f src" "unroll_ok tableLog d kUnroll kLastFast" "hst E sz (code_fields f src n N) 7 c"
    and "n mod (2 * kUnroll) = 0" "n \<le> N" "N \<le> length src" "kFastFlush \<Longrightarrow> length src * tableLog \<le> 8 * E + 7"
  shows "hst E sz (code_fields f src 0 N) 7 (encode_loop c src n ct kUnroll kFastFlush kLastFast)"
  using assms(3,4,5)
proof (induction n arbitrary: c rule: less_induct)
  case (less n)
  show ?case
  proof (cases "n = 0")
    case True
    then show ?thesis using less.prems(1) by (subst encode_loop.simps) simp
  next
    case False
    have k: "0 < kUnroll" using assms(2) by (simp add: unroll_ok_def)
    then have n: "2 * kUnroll \<le> n" using less.prems(2) False mod_less[of n "2 * kUnroll"] by (cases "n < 2 * kUnroll") auto
    let ?c = "HUF_flushBits (HUF_mergeIndex1 (encode_group (HUF_zeroIndex1 (HUF_flushBits (encode_group c src n ct kUnroll 0 kLastFast) kFastFlush))
       src (n - kUnroll) ct kUnroll 1 kLastFast)) kFastFlush"
    have "hst E sz (code_fields f src (n - 2 * kUnroll) N) 7 ?c"
      by (rule loop_step[OF assms(1,2) less.prems(1) n less.prems(3) assms(6,7)])
    moreover have "(n - 2 * kUnroll) mod (2 * kUnroll) = 0" using less.prems(2) n by (simp add: mod_if le_mod_geq[symmetric])
    moreover have "encode_loop c src n ct kUnroll kFastFlush kLastFast = encode_loop ?c src (n - 2 * kUnroll) ct kUnroll kFastFlush kLastFast"
      using False k by (subst encode_loop.simps) (simp only: neq0_conv Let_def if_True simp_thms)
    ultimately show ?thesis using less.IH[of "n - 2 * kUnroll" ?c] False k less.prems(3) by simp
  qed
qed

subsection \<open>A whole stream\<close>

lemma encode_rest:
  assumes "codes_in ct tableLog d f src" "hst E sz [] 7 c" "i \<le> n" "n \<le> length src" "7 + (n - i) * tableLog \<le> 64"
  shows "hst E sz (code_fields f src i n) (7 + (n - i) * tableLog) (fold (\<lambda>i c. HUF_encodeSymbol c (src ! i) ct 0 False) (rev [i..<n]) c)"
  using assms(3,5)
proof (induction i rule: inc_induct)
  case base
  then show ?case using assms(2) by simp
next
  case (step i)
  have e: "n - i = Suc (n - Suc i)" using step.hyps by simp
  have "hst E sz ([] @ code_fields f src (Suc i) n) (7 + (n - Suc i) * tableLog) (fold (\<lambda>i c. HUF_encodeSymbol c (src ! i) ct 0 False) (rev [Suc i..<n]) c)"
    using step.IH step.prems by (simp add: e)
  from encode_step0[OF assms(1) this step.hyps(2) assms(4), of False] step.prems
  show ?case using step.hyps by (simp add: e upt_conv_Cons add_ac)
qed

lemma double_mod:
  assumes "n mod k = 0" "n mod (2 * k) \<noteq> (0::nat)"
  shows "n mod (2 * k) = k \<and> k \<le> n"
proof -
  obtain q where q: "n = k * q" using assms(1) by (metis mult_div_mod_eq add_0_right)
  have m: "n mod (2 * k) = k * (q mod 2)" unfolding q mult.commute[of 2 k] by (rule mult_mod_right[symmetric])
  then have "q mod 2 = 1" using assms(2) by (cases "q mod 2 = 0") auto
  moreover from this have "0 < q" by (cases q) auto
  ultimately show ?thesis using m q by simp
qed

lemma body_loop_holds:
  assumes "codes_in ct tableLog d f src" "unroll_ok tableLog d kUnroll kLastFast" "hst E sz [] 7 c"
    and "kFastFlush \<Longrightarrow> length src * tableLog \<le> 8 * E + 7"
  shows "hst E sz (code_fields f src 0 (length src)) 7
    (HUF_compress1X_usingCTable_internal_body_loop c src ct kUnroll kFastFlush kLastFast)"
proof -
  let ?N = "length src"
  define rm where "rm = ?N mod kUnroll"
  have k: "0 < kUnroll" "7 + (kUnroll - 1) * tableLog \<le> 64" using assms(2) by (auto simp: unroll_ok_def)
  have fits: "flen (code_fields f src i ?N) \<le> 8 * E + 7" if kFastFlush for i
  proof -
    have "flen (code_fields f src i ?N) \<le> (?N - i) * tableLog" by (rule flen_fields[OF assms(1) order_refl])
    also have "\<dots> \<le> ?N * tableLog" by (intro mult_le_mono1) simp
    finally show ?thesis using assms(4)[OF that] by linarith
  qed
  have r: "rm < kUnroll" "rm \<le> ?N" using k by (auto simp: rm_def)
  then have "rm * tableLog \<le> (kUnroll - 1) * tableLog" by (intro mult_le_mono1) auto
  then have "7 + rm * tableLog \<le> 64" using k(2) by linarith
  then have room: "7 + (?N - (?N - rm)) * tableLog \<le> 64" using r(2) by simp
  define s1 where "s1 = (if rm > 0
      then (HUF_flushBits (fold (\<lambda>i c. HUF_encodeSymbol c (src ! i) ct 0 False) (rev [?N - rm..<?N]) c) kFastFlush, ?N - rm) else (c, ?N))"
  have s1: "snd s1 = ?N - rm" "hst E sz (code_fields f src (?N - rm) ?N) 7 (fst s1)"
  proof -
    show "snd s1 = ?N - rm" by (simp add: s1_def)
    have "hst E sz (code_fields f src (?N - rm) ?N) (7 + (?N - (?N - rm)) * tableLog)
        (fold (\<lambda>i c. HUF_encodeSymbol c (src ! i) ct 0 False) (rev [?N - rm..<?N]) c)"
      by (rule encode_rest[OF assms(1,3) _ order_refl room]) simp
    from hst_flush[OF this, of kFastFlush] fits assms(3) show "hst E sz (code_fields f src (?N - rm) ?N) 7 (fst s1)"
      by (simp add: s1_def del: upt_Suc)
  qed
  define n where "n = ?N - rm"
  have n: "n \<le> ?N" "n mod kUnroll = 0" by (simp_all add: n_def rm_def minus_mod_eq_mult_div)
  define s2 where "s2 = (if n mod (2 * kUnroll) \<noteq> 0
      then (HUF_flushBits (encode_group (fst s1) src n ct kUnroll 0 kLastFast) kFastFlush, n - kUnroll) else (fst s1, n))"
  have s2: "snd s2 \<le> ?N" "snd s2 mod (2 * kUnroll) = 0" "hst E sz (code_fields f src (snd s2) ?N) 7 (fst s2)"
  proof -
    show "snd s2 \<le> ?N" using n by (auto simp: s2_def)
    note m2 = double_mod[OF n(2)]
    show "snd s2 mod (2 * kUnroll) = 0"
    proof (cases "n mod (2 * kUnroll) = 0")
      case False
      then have e: "n mod (2 * kUnroll) = kUnroll" using m2 by blast
      then show ?thesis using False minus_mod_eq_mult_div[of n "2 * kUnroll"] by (simp add: s2_def)
    qed (simp add: s2_def)
    have h1: "hst E sz (code_fields f src n ?N) 7 (fst s1)" unfolding n_def by (rule s1(2))
    show "hst E sz (code_fields f src (snd s2) ?N) 7 (fst s2)"
    proof (cases "n mod (2 * kUnroll) = 0")
      case True
      then show ?thesis using h1 by (simp add: s2_def)
    next
      case False
      then have "kUnroll \<le> n" using m2 by blast
      from encode_group0[OF assms(1) h1 this n(1) assms(2)] fields_append[of "n - kUnroll" n ?N f src] n(1)
      have "hst E sz (code_fields f src (n - kUnroll) ?N) (7 + kUnroll * tableLog) (encode_group (fst s1) src n ct kUnroll 0 kLastFast)" by simp
      from hst_flush[OF this, of kFastFlush] fits False show ?thesis by (simp add: s2_def)
    qed
  qed
  have "HUF_compress1X_usingCTable_internal_body_loop c src ct kUnroll kFastFlush kLastFast
      = encode_loop (fst s2) src (snd s2) ct kUnroll kFastFlush kLastFast"
    unfolding HUF_compress1X_usingCTable_internal_body_loop_def Let_def s2_def n_def s1_def rm_def by (simp add: split_beta)
  then show ?thesis using encode_loop_holds[OF assms(1,2) s2(3,2,1) order_refl assms(4)] by simp
qed

definition low_bits :: "nat \<Rightarrow> nat" where
  "low_bits tableLog = (if tableLog < 8 then 3 else 4)"

lemma unroll_choice_ok:
  assumes "tableLog \<le> 12"
  shows "unroll_ok tableLog (low_bits tableLog) 4 False" "tableLog < 2 ^ low_bits tableLog"
    and "tableLog \<le> 11 \<Longrightarrow> unroll_choice tableLog = (kUnroll, kFastFlush, kLastFast) \<Longrightarrow> unroll_ok tableLog (low_bits tableLog) kUnroll kLastFast"
  using assms by (auto simp: unroll_ok_def low_bits_def unroll_choice_def split: if_splits)

text \<open>The stream is the sequence of the code words, from the last symbol to the first, if it fits.\<close>

lemma compress1X_holds:
  assumes c: "codes_in (hct_elts CTable) (hct_tableLog CTable) (low_bits (hct_tableLog CTable)) f src" "hct_tableLog CTable \<le> 12"
  shows "\<exists>n out. HUF_compress1X_usingCTable_internal_body ostart src CTable = (n, out) \<and> length out = length ostart
    \<and> (if 8 < length ostart \<and> (flen (map f (rev src)) + 1) div 8 < length ostart - 8
       then n = flen (map f (rev src)) div 8 + 1 \<and> take n out = field_bytes (map f (rev src)) else n = 0)"
proof (cases "length ostart \<le> 8")
  case True
  then show ?thesis by (auto simp: HUF_compress1X_usingCTable_internal_body_def HUF_initCStream_def Let_def)
next
  case False
  let ?E = "length ostart - 8" and ?l = "hct_tableLog CTable"
  define bitC where "bitC = \<lparr>h_bitContainer0 = 0, h_bitContainer1 = 0, h_bitPos0 = 0, h_bitPos1 = 0, h_mem = ostart, h_ptr = 0, h_endPtr = ?E\<rparr>"
  define par where "par = (if length ostart < HUF_tightCompressBound (length src) ?l \<or> ?l > 11 then (4, False, False) else unroll_choice ?l)"
  obtain kUnroll kFastFlush kLastFast where par: "par = (kUnroll, kFastFlush, kLastFast)" by (metis prod_cases3)
  have ok: "unroll_ok ?l (low_bits ?l) kUnroll kLastFast"
    using par unroll_choice_ok[OF c(2)] by (auto simp: par_def split: if_splits)
  have fits: "length src * ?l \<le> 8 * ?E + 7" if kFastFlush
  proof -
    have "length src * ?l div 8 \<le> ?E" using that par False by (auto simp: par_def HUF_tightCompressBound_def split: if_splits)
    then show ?thesis by linarith
  qed
  have "hst ?E (length ostart) [] 7 bitC"
    using False by (simp add: hst_def h_room_def h_holds_def h_pos_def bitC_def top_val_def)
  moreover have "map f (rev src) = code_fields f src 0 (length src)"
    by (rule nth_equalityI) (simp_all add: code_fields_def rev_nth)
  ultimately
  have h: "hst ?E (length ostart) (map f (rev src)) 7 (HUF_compress1X_usingCTable_internal_body_loop bitC src (hct_elts CTable) kUnroll kFastFlush kLastFast)"
    using body_loop_holds[OF c(1) ok _ fits] by simp
  have "HUF_initCStream ostart (length ostart) = Inr bitC" using False by (simp add: HUF_initCStream_def bitC_def)
  then have "HUF_compress1X_usingCTable_internal_body ostart src CTable
      = (let (n, c) = HUF_closeCStream (HUF_compress1X_usingCTable_internal_body_loop bitC src (hct_elts CTable) kUnroll kFastFlush kLastFast) in (n, h_mem c))"
    using False par unfolding HUF_compress1X_usingCTable_internal_body_def Let_def par_def by simp
  then show ?thesis using hst_close[OF h] False by (auto simp: split: if_splits)
qed

subsection \<open>The code table holds the canonical code\<close>

lemma huf_code_bound:
  assumes "huf_complete ws tableLog" "s < length ws" "0 < ws ! s"
  shows "huf_code ws s < 2 ^ huf_len tableLog ws s"
proof -
  have "ws ! s \<le> tableLog" using assms by (simp add: huf_complete_def)
  note sl = huf_span_len[OF this assms(3)]
  have p: "0 < huf_span ws s" by (simp add: sl)
  have "huf_start ws s < 2 ^ tableLog" using huf_start_bound[OF assms(1,2)] p by linarith
  also have "(2::nat) ^ tableLog = 2 ^ huf_len tableLog ws s * huf_span ws s"
    using sl(1,2) by (simp add: power_add[symmetric])
  finally show ?thesis unfolding huf_code_def by (rule less_mult_imp_div_less)
qed

lemma setValue_elt:
  assumes "1 \<le> nb" "nb \<le> 12" "v < 2 ^ nb"
  shows "huf_elt (HUF_setValue (HUF_setNbBits nb) (of_nat v)) v nb"
proof -
  have "v < 2 ^ 12" by (rule less_le_trans[OF assms(3)]) (use assms(2) in \<open>intro power_increasing, auto\<close>)
  then have v: "unat (of_nat v :: U64) = v" by (simp add: unat_of_nat)
  have n: "unat (of_nat nb :: U64) = nb" using assms(2) by (simp add: unat_of_nat)
  have ff: "(0xFF :: U64) = mask 8" by (simp add: mask_eq_exp_minus_1)
  have g: "HUF_getNbBits (of_nat nb) = nb" unfolding HUF_getNbBits_def ff unat_and_mask n using assms(2) by simp
  have "(2::nat) ^ 52 \<le> 2 ^ (64 - nb)" using assms(2) by (intro power_increasing) auto
  then have "nb < 2 ^ (64 - nb)" using assms(2) by (simp add: less_le_trans)
  moreover have "v * 2 ^ (64 - nb) < 2 ^ LENGTH(64)"
  proof -
    have "v * 2 ^ (64 - nb) < 2 ^ nb * 2 ^ (64 - nb)" using assms(3) by simp
    then show ?thesis using assms(2) by (simp add: power_add[symmetric])
  qed
  ultimately have "unat (of_nat nb OR push_bit (64 - nb) (of_nat v) :: U64) = nb + v * 2 ^ (64 - nb)"
    using unat_or_push_bit[of "of_nat nb :: U64" "64 - nb" "of_nat v"] v n by simp
  then show ?thesis using assms g by (simp add: huf_elt_def HUF_setValue_def HUF_setNbBits_def)
qed

text \<open>The lengths of the code words, 0 for symbols without one.\<close>

definition nb_list :: "nat list \<Rightarrow> nat \<Rightarrow> nat list" where
  "nb_list ws tableLog = map (\<lambda>w. if w \<noteq> 0 then tableLog + 1 - w else 0) ws"

lemma same_length_weight:
  assumes "\<forall>w\<in>set ws. w \<le> tableLog" "0 < w" "w \<le> tableLog" "n \<le> length ws"
  shows "same_weight (nb_list ws tableLog) n (tableLog + 1 - w) = same_weight ws n w"
proof -
  have "nb_list ws tableLog ! t = tableLog + 1 - w \<longleftrightarrow> ws ! t = w" if "t < n" for t
  proof -
    have "ws ! t \<le> tableLog" using assms(1,4) that by simp
    then show ?thesis using assms(2-4) that by (auto simp: nb_list_def)
  qed
  then have "{t. t < n \<and> nb_list ws tableLog ! t = tableLog + 1 - w} = {t. t < n \<and> ws ! t = w}" by auto
  then show ?thesis by (simp add: same_weight_def)
qed

lemma fold_set_nth:
  "N \<le> length ct \<Longrightarrow> length (fold (\<lambda>n ct. ct[n := g n]) [0..<N] ct) = length ct
    \<and> (\<forall>i<N. fold (\<lambda>n ct. ct[n := g n]) [0..<N] ct ! i = g i)"
  by (induction N) (auto simp: nth_list_update less_Suc_eq)

lemma rank_counts_nth:
  assumes "\<forall>i<N. HUF_getNbBits (ct ! i) = nbs ! i" "\<forall>i<N. nbs ! i < 14" "nb < 14"
  shows "rank_counts ct N ! nb = same_weight nbs N nb"
proof -
  define step where "step = (\<lambda>n r. let nb = HUF_getNbBits (ct ! n) in r[nb := r ! nb + 1 :: nat])"
  have "n \<le> N \<Longrightarrow> length (fold step [0..<n] (replicate 14 0)) = 14 \<and> (\<forall>nb<14. fold step [0..<n] (replicate 14 0) ! nb = same_weight nbs n nb)" for n
  proof (induction n)
    case 0
    then show ?case by (simp add: same_weight_def)
  next
    case (Suc n)
    then have "step n r = r[nbs ! n := r ! (nbs ! n) + 1]" for r using assms(1) by (simp add: step_def Let_def)
    then show ?case using Suc assms(2) by (auto simp: same_weight_Suc nth_list_update)
  qed
  then show ?thesis using assms(3) by (simp add: rank_counts_def step_def)
qed

lemma set_values_nth:
  assumes "N \<le> length ct" "\<forall>i<N. ct ! i = HUF_setNbBits (nbs ! i)" "\<forall>i<N. HUF_getNbBits (ct ! i) = nbs ! i"
    and "\<forall>i<N. nbs ! i < 14" "length vals = 14" "i < N"
  shows "set_values N ct vals ! i = HUF_setValue (HUF_setNbBits (nbs ! i)) (of_nat (vals ! (nbs ! i) + same_weight nbs i (nbs ! i)))"
    "length (set_values N ct vals) = length ct"
proof -
  define step where "step = (\<lambda>n (ct, v). let nb = HUF_getNbBits (ct ! n)
         in (ct[n := HUF_setValue (ct ! n) (of_nat (v ! nb))], v[nb := v ! nb + 1]))"
  have "n \<le> N \<Longrightarrow> length (fst (fold step [0..<n] (ct, vals))) = length ct \<and> length (snd (fold step [0..<n] (ct, vals))) = 14
      \<and> (\<forall>nb<14. snd (fold step [0..<n] (ct, vals)) ! nb = vals ! nb + same_weight nbs n nb)
      \<and> (\<forall>i<n. fst (fold step [0..<n] (ct, vals)) ! i = HUF_setValue (HUF_setNbBits (nbs ! i)) (of_nat (vals ! (nbs ! i) + same_weight nbs i (nbs ! i))))
      \<and> (\<forall>i\<ge>n. fst (fold step [0..<n] (ct, vals)) ! i = ct ! i)" for n
  proof (induction n)
    case 0
    then show ?case using assms(5) by (simp add: same_weight_def)
  next
    case (Suc n)
    obtain c v where cv: "fold step [0..<n] (ct, vals) = (c, v)" by fastforce
    have c: "c ! n = ct ! n" "length c = length ct" "length v = 14" "v ! (nbs ! n) = vals ! (nbs ! n) + same_weight nbs n (nbs ! n)"
      using Suc cv assms(4) by auto
    have "fold step [0..<Suc n] (ct, vals) = (c[n := HUF_setValue (ct ! n) (of_nat (v ! (nbs ! n)))], v[nbs ! n := v ! (nbs ! n) + 1])"
      using Suc.prems assms(3) cv c(1) by (simp add: step_def Let_def)
    then show ?case using Suc cv c assms(1,2,4)
      by (auto simp: same_weight_Suc nth_list_update less_Suc_eq)
  qed
  from this[OF order_refl] show "set_values N ct vals ! i = HUF_setValue (HUF_setNbBits (nbs ! i)) (of_nat (vals ! (nbs ! i) + same_weight nbs i (nbs ! i)))"
    "length (set_values N ct vals) = length ct"
    using assms(6) by (simp_all add: set_values_def step_def)
qed

lemma rank_values_nth:
  assumes "\<forall>n. 1 \<le> n \<and> n \<le> tableLog \<longrightarrow> counts ! n = count_list ws (tableLog + 1 - n)" "tableLog \<le> 12" "1 \<le> n" "n \<le> tableLog"
    and "\<forall>w\<in>set ws. w \<le> tableLog"
  shows "rank_values counts tableLog ! n = cells_below ws (tableLog + 1 - n) div 2 ^ (tableLog - n)" "length (rank_values counts tableLog) = 14"
proof -
  define step where "step = (\<lambda>n (v, mn). (v[n := mn :: nat], (mn + counts ! n) div 2))"
  have "j \<le> Suc tableLog \<Longrightarrow> 1 \<le> j \<Longrightarrow> length (fst (fold step (rev [j..<Suc tableLog]) (replicate 14 0, 0))) = 14
      \<and> snd (fold step (rev [j..<Suc tableLog]) (replicate 14 0, 0)) = cells_below ws (tableLog + 2 - j) div 2 ^ (tableLog + 1 - j)
      \<and> (\<forall>n. j \<le> n \<and> n \<le> tableLog \<longrightarrow> fst (fold step (rev [j..<Suc tableLog]) (replicate 14 0, 0)) ! n
           = cells_below ws (tableLog + 1 - n) div 2 ^ (tableLog - n))" for j
  proof (induction j rule: inc_induct)
    case base
    have "cells_below ws 1 = 0" using cells_below_Suc[of ws 0] by (simp add: cells_below_def)
    then show ?case by simp
  next
    case (step j)
    obtain v mn where vm: "fold step (rev [Suc j..<Suc tableLog]) (replicate 14 0, 0) = (v, mn)" by fastforce
    let ?m = "tableLog - j"
    have IH: "length v = 14" "mn = cells_below ws (Suc ?m) div 2 ^ ?m"
      "\<forall>n. Suc j \<le> n \<and> n \<le> tableLog \<longrightarrow> v ! n = cells_below ws (tableLog + 1 - n) div 2 ^ (tableLog - n)"
      using step vm by (auto simp: Suc_diff_le)
    have f: "fold step (rev [j..<Suc tableLog]) (replicate 14 0, 0) = (v[j := mn], (mn + counts ! j) div 2)"
      using step.hyps vm by (simp add: upt_conv_Cons step_def del: upt_Suc)
    have cj: "counts ! j = count_list ws (Suc ?m)" using assms(1) step by (simp add: Suc_diff_le)
    have "cells_below ws (Suc (Suc ?m)) = cells_below ws (Suc ?m) + count_list ws (Suc ?m) * 2 ^ ?m"
      by (simp add: cells_below_Suc[of ws "Suc ?m"])
    then have "cells_below ws (Suc (Suc ?m)) div 2 ^ Suc ?m = (cells_below ws (Suc ?m) + count_list ws (Suc ?m) * 2 ^ ?m) div 2 ^ ?m div 2"
      by (simp only: power_Suc2 div_mult2_eq)
    also have "(cells_below ws (Suc ?m) + count_list ws (Suc ?m) * 2 ^ ?m) div 2 ^ ?m = mn + count_list ws (Suc ?m)"
      by (simp add: IH(2))
    finally have "(mn + counts ! j) div 2 = cells_below ws (Suc (Suc ?m)) div 2 ^ Suc ?m" using cj by simp
    then show ?case unfolding f using IH step assms(2) by (auto simp: Suc_diff_le nth_list_update)
  qed
  from this[of 1] show "rank_values counts tableLog ! n = cells_below ws (tableLog + 1 - n) div 2 ^ (tableLog - n)"
    "length (rank_values counts tableLog) = 14"
    using assms(3,4) by (simp_all add: rank_values_def step_def)
qed


lemma readCTable_codes:
  assumes r: "HUF_readCTable CTable maxSymbolValue src dtable wksp = Inr (sz, CTable', maxSV, hz)" and len: "256 \<le> length (hct_elts CTable)"
  shows "\<exists>stats. HUF_readStats_wksp 256 src dtable wksp = Inr (sz, stats) \<and> huf_complete (hs_weights stats) (hs_tableLog stats)
    \<and> hct_tableLog CTable' = hs_tableLog stats \<and> maxSV = length (hs_weights stats) - 1
    \<and> (\<forall>s<length (hs_weights stats). 0 < hs_weights stats ! s \<longrightarrow>
         huf_elt (hct_elts CTable' ! s) (huf_code (hs_weights stats) s) (huf_len (hs_tableLog stats) (hs_weights stats) s))"
proof -
  obtain stats where s: "HUF_readStats_wksp 256 src dtable wksp = Inr (sz, stats)"
    using r by (auto simp: HUF_readCTable_def HUF_SYMBOLVALUE_MAX_def Let_def split: if_splits)
  define ws l where "ws = hs_weights stats" and "l = hs_tableLog stats"
  have hc: "huf_complete ws l" using HUF_readStats_complete[OF s, simplified] by (simp add: huf_complete_def ws_def l_def)
  define N where "N = length ws"
  define nbs where "nbs = nb_list ws l"
  define ct1 where "ct1 = fold (\<lambda>n ct. ct[n := HUF_setNbBits (nbs ! n)]) [0..<N] (hct_elts CTable)"
  have ws: "\<forall>w\<in>set ws. w \<le> l" "l \<le> 12" "N \<le> 256" using hc by (simp_all add: huf_complete_def N_def)
  have nbs: "\<forall>i<N. nbs ! i \<le> 12" using ws(2) by (auto simp: nbs_def nb_list_def N_def)
  have "fold (\<lambda>n ct. let w = ws ! n in ct[n := HUF_setNbBits (if w \<noteq> 0 then l + 1 - w else 0)]) [0..<N] (hct_elts CTable) = ct1"
    unfolding ct1_def by (rule fold_cong) (auto simp: nbs_def nb_list_def N_def Let_def)
  then have f: "fold (\<lambda>n ct. ct[n := HUF_setNbBits (if ws ! n \<noteq> 0 then l + 1 - ws ! n else 0)]) [0..<length ws] (hct_elts CTable) = ct1"
    by (simp only: Let_def N_def)
  have "\<not> l > 12" "\<not> N > maxSymbolValue + 1"
    using r s by (auto simp: HUF_readCTable_def HUF_SYMBOLVALUE_MAX_def Let_def N_def ws_def l_def split: if_splits)
  then have "Inr (sz, (HUF_writeCTableHeader CTable l (N - 1))\<lparr>hct_elts := set_values N ct1 (rank_values (rank_counts ct1 N) l)\<rparr>, N - 1,
      0 < hs_rankStats stats ! 0) = HUF_readCTable CTable maxSymbolValue src dtable wksp"
    using s f[unfolded ws_def l_def] unfolding HUF_readCTable_def Let_def HUF_SYMBOLVALUE_MAX_def by (simp add: N_def ws_def l_def HUF_writeCTableHeader_def)
  then have e: "hct_elts CTable' = set_values N ct1 (rank_values (rank_counts ct1 N) l)" "hct_tableLog CTable' = l" "maxSV = N - 1"
    unfolding r by (auto simp: HUF_writeCTableHeader_def)
  have c1: "N \<le> length ct1" "\<forall>i<N. ct1 ! i = HUF_setNbBits (nbs ! i)"
    using fold_set_nth[of N "hct_elts CTable" "\<lambda>n. HUF_setNbBits (nbs ! n)"] len ws(3) unfolding ct1_def by auto
  have ff: "(0xFF :: U64) = mask 8" by (simp add: mask_eq_exp_minus_1)
  have "HUF_getNbBits (HUF_setNbBits k) = k" if "k \<le> 12" for k
    unfolding HUF_getNbBits_def HUF_setNbBits_def ff unat_and_mask using that by (simp add: unat_of_nat)
  then have c2: "\<forall>i<N. HUF_getNbBits (ct1 ! i) = nbs ! i" using c1(2) nbs by simp
  have n14: "\<forall>i<N. nbs ! i < 14" using nbs by auto
  have counts: "\<forall>n. 1 \<le> n \<and> n \<le> l \<longrightarrow> rank_counts ct1 N ! n = count_list ws (l + 1 - n)"
  proof (intro allI impI)
    fix n assume n: "1 \<le> n \<and> n \<le> l"
    then have m: "0 < l + 1 - n" "l + 1 - n \<le> l" "l + 1 - (l + 1 - n) = n" by auto
    have "rank_counts ct1 N ! n = same_weight nbs N n" by (rule rank_counts_nth[OF c2 n14]) (use n ws(2) in simp)
    also have "\<dots> = same_weight ws N (l + 1 - n)"
      using same_length_weight[OF ws(1), of "l + 1 - n" N] m by (simp add: nbs_def N_def)
    finally show "rank_counts ct1 N ! n = count_list ws (l + 1 - n)" by (simp add: same_weight_count N_def)
  qed
  have "huf_elt (hct_elts CTable' ! t) (huf_code ws t) (huf_len l ws t)" if t: "t < length ws" "0 < ws ! t" for t
  proof -
    have w: "ws ! t \<le> l" using ws(1) t(1) by simp
    note sl = huf_span_len[OF w t(2)]
    have tN: "t < N" using t(1) by (simp add: N_def)
    have nb: "nbs ! t = huf_len l ws t" using t by (simp add: nbs_def nb_list_def huf_len_def)
    have lw: "l + 1 - huf_len l ws t = ws ! t" using w by (simp add: huf_len_def)
    have v: "rank_values (rank_counts ct1 N) l ! huf_len l ws t = cells_below ws (ws ! t) div huf_span ws t"
      using rank_values_nth(1)[OF counts ws(2) _ _ ws(1), of "huf_len l ws t"] sl lw by simp
    have vl: "length (rank_values (rank_counts ct1 N) l) = 14"
      using rank_values_nth(2)[OF counts ws(2) _ _ ws(1), of "huf_len l ws t"] sl by simp
    have sw: "same_weight nbs t (huf_len l ws t) = same_weight ws t (ws ! t)"
      using same_length_weight[OF ws(1) t(2) w, of t] t(1) by (simp add: nbs_def huf_len_def)
    have "0 < huf_span ws t" by (simp add: sl)
    then have "huf_code ws t = cells_below ws (ws ! t) div huf_span ws t + same_weight ws t (ws ! t)"
      unfolding huf_code_def huf_start_split[OF t(1)] by simp
    then have "hct_elts CTable' ! t = HUF_setValue (HUF_setNbBits (huf_len l ws t)) (of_nat (huf_code ws t))"
      using set_values_nth(1)[OF c1 c2 n14 vl tN] v sw unfolding e nb by simp
    then show ?thesis using setValue_elt[of "huf_len l ws t"] huf_code_bound[OF hc t] sl ws(2) by simp
  qed
  then show ?thesis using s hc e unfolding ws_def l_def N_def by blast
qed

subsection \<open>Encoded streams are decoded\<close>

text \<open>The field of a symbol, and sources whose symbols all have code words.\<close>

definition huf_field :: "nat \<Rightarrow> nat list \<Rightarrow> BYTE \<Rightarrow> nat \<times> nat" where
  "huf_field tableLog ws s = (huf_code ws (unat s), huf_len tableLog ws (unat s))"

definition huf_covers :: "nat list \<Rightarrow> buffer \<Rightarrow> bool" where
  "huf_covers ws src \<longleftrightarrow> (\<forall>s\<in>set src. unat s < length ws \<and> 0 < ws ! unat s)"

lemma huf_run_fields:
  assumes "huf_complete ws tableLog" "huf_covers ws src"
  shows "huf_run tableLog ws (length src) (fval (map (huf_field tableLog ws) (rev src))) (flen (map (huf_field tableLog ws) (rev src))) = Some (src, 0, 0)"
  using assms(2)
proof (induction src)
  case (Cons b src)
  let ?s = "unat b" and ?fs = "map (huf_field tableLog ws) (rev src)"
  let ?len = "huf_len tableLog ws ?s"
  let ?x = "fval (?fs @ [(huf_code ws ?s, ?len)])" and ?l = "flen ?fs + ?len"
  have s: "?s < length ws" "0 < ws ! ?s" and cov: "huf_covers ws src" using Cons.prems by (auto simp: huf_covers_def)
  have w: "ws ! ?s \<le> tableLog" using assms(1) s(1) by (simp add: huf_complete_def)
  note sl = huf_span_len[OF w s(2)]
  have x: "?x = fval ?fs + 2 ^ flen ?fs * huf_code ws ?s" using huf_code_bound[OF assms(1) s] by (simp add: fval_snoc)
  have d: "?x div 2 ^ flen ?fs = huf_code ws ?s" "?x mod 2 ^ flen ?fs = fval ?fs" unfolding x using fval_bound[of ?fs] by simp_all
  define y where "y = huf_index tableLog ?x ?l"
  have "y div huf_span ws ?s = huf_code ws ?s"
    unfolding y_def sl(1) using index_div[of ?len ?l tableLog ?x] sl(2) d(1) by simp
  then have own: "huf_start ws ?s \<le> y" "y < huf_start ws ?s + huf_span ws ?s" using huf_owner_code[OF assms(1) s, of y] by auto
  have "y < 2 ^ tableLog" using own(2) huf_start_bound[OF assms(1) s(1)] by linarith
  from huf_find_owner[OF assms(1) this y_def s own]
  have "find (huf_prefix tableLog ws ?x ?l) [0..<length ws] = Some ?s" by simp
  moreover have "map (huf_field tableLog ws) (rev (b # src)) = ?fs @ [(huf_code ws ?s, ?len)]" by (simp add: huf_field_def)
  moreover have "flen (?fs @ [(huf_code ws ?s, ?len)]) = ?l" by simp
  moreover have "?l - ?len = flen ?fs" by simp
  ultimately show ?case using Cons.IH[OF cov] d(2) by (simp only: huf_run.simps list.size) simp
qed simp

lemma stream_bits_field_bytes: "stream_bits (field_bytes fs) = Inr (fval fs, flen fs)"
proof -
  obtain d where d: "BIT_initDStream (field_bytes fs) = Inr d" "dst fs d" using field_bytes_reader by blast
  obtain x l where b: "stream_bits (field_bytes fs) = Inr (x, l)"
    using init_error[of "field_bytes fs"] d(1) by (cases "stream_bits (field_bytes fs)") auto
  from init_reads[OF b] d show ?thesis using b by (auto simp: dst_def reads_def)
qed

lemma huf_exactly_fields:
  assumes "huf_complete ws tableLog" "huf_covers ws src"
  shows "bindE (stream_bits (field_bytes (map (huf_field tableLog ws) (rev src)))) (huf_exactly tableLog ws (length src)) = Inr src"
  unfolding stream_bits_field_bytes huf_exactly_def by (simp add: huf_run_fields[OF assms])

text \<open>The table that was read encodes the sources it covers.\<close>

lemma compress1X_fields:
  assumes "HUF_readCTable CTable maxSymbolValue hdr dtable wksp = Inr (sz, CTable', maxSV, hz)" "256 \<le> length (hct_elts CTable)"
    and "HUF_readStats_wksp 256 hdr dtable wksp = Inr (sz', stats)" "huf_covers (hs_weights stats) src"
  shows "\<exists>n out. HUF_compress1X_usingCTable_internal_body ostart src CTable' = (n, out) \<and> length out = length ostart
    \<and> (let fs = map (huf_field (hs_tableLog stats) (hs_weights stats)) (rev src)
       in if 8 < length ostart \<and> (flen fs + 1) div 8 < length ostart - 8
          then n = flen fs div 8 + 1 \<and> take n out = field_bytes fs else n = 0)"
proof -
  note c = readCTable_codes[OF assms(1,2), unfolded assms(3), simplified]
  have l: "hct_tableLog CTable' = hs_tableLog stats" "hs_tableLog stats \<le> 12" and hc: "huf_complete (hs_weights stats) (hs_tableLog stats)"
    using c by (auto simp: huf_complete_def)
  have "huf_len (hs_tableLog stats) (hs_weights stats) t \<le> hs_tableLog stats" if "t < length (hs_weights stats)" "0 < hs_weights stats ! t" for t
    using that by (simp add: huf_len_def)
  then have "codes_in (hct_elts CTable') (hct_tableLog CTable') (low_bits (hct_tableLog CTable')) (huf_field (hs_tableLog stats) (hs_weights stats)) src"
    using c assms(4) unroll_choice_ok(2)[OF l(2)] by (auto simp: codes_in_def huf_field_def huf_covers_def l)
  from compress1X_holds[OF this, of ostart] l show ?thesis by (simp add: Let_def)
qed

subsection \<open>Four segments\<close>

lemma read_tables_agree:
  assumes "HUF_readCTable CTable maxSymbolValue hdr dtable wksp = Inr (sz, CTable', maxSV, hz)" "256 \<le> length (hct_elts CTable)"
  obtains stats where "HUF_readStats_wksp 256 hdr dtable wksp = Inr (sz, stats)" "huf_complete (hs_weights stats) (hs_tableLog stats)"
  using readCTable_codes[OF assms] by blast

lemma segment_holds:
  assumes t: "HUF_readCTable CTable maxSymbolValue hdr dtable wksp = Inr (sz, CTable', maxSV, hz)" "256 \<le> length (hct_elts CTable)"
      "HUF_readStats_wksp 256 hdr dtable wksp = Inr (sz', stats)" "huf_covers (hs_weights stats) ip"
    and c: "compress_segment mem op ip CTable' = (cSize, mem')" "cSize \<noteq> 0" "op \<le> length mem" "take op mem = b"
  shows "let out = field_bytes (map (huf_field (hs_tableLog stats) (hs_weights stats)) (rev ip))
    in cSize = length out \<and> length mem' = length mem \<and> op + cSize \<le> length mem \<and> take (op + cSize) mem' = b @ out"
proof -
  let ?fs = "map (huf_field (hs_tableLog stats) (hs_weights stats)) (rev ip)"
  obtain n out where h: "HUF_compress1X_usingCTable_internal_body (drop op mem) ip CTable' = (n, out)" "length out = length (drop op mem)"
    "if 8 < length (drop op mem) \<and> (flen ?fs + 1) div 8 < length (drop op mem) - 8 then n = flen ?fs div 8 + 1 \<and> take n out = field_bytes ?fs else n = 0"
    using compress1X_fields[OF t, of "drop op mem"] by (auto simp: Let_def)
  have m: "n = cSize" "mem' = take op mem @ out" using c(1) h(1) by (auto simp: compress_segment_def)
  then have n: "n = flen ?fs div 8 + 1" "take n out = field_bytes ?fs" "n \<le> length out"
    using h(2,3) c(2) by (auto split: if_splits)
  then have "n = length (field_bytes ?fs)" by (simp add: field_bytes_def del: le_bytes.simps)
  moreover have "length b = op" using c(3,4) by auto
  ultimately show ?thesis using n m h(2) c(3,4) by (simp add: Let_def)
qed

lemma write_jump:
  assumes "take op mem = j1 @ j2 @ j3 @ b" "op \<le> length mem" "length j1 = 2" "length j2 = 2" "length j3 = 2"
  shows "take op (MEM_writeLE16 LittleEndian mem 0 v) = le_bytes 2 (unat v) @ j2 @ j3 @ b"
    "take op (MEM_writeLE16 LittleEndian mem 2 v) = j1 @ le_bytes 2 (unat v) @ j3 @ b"
    "take op (MEM_writeLE16 LittleEndian mem 4 v) = j1 @ j2 @ le_bytes 2 (unat v) @ b"
    "length (MEM_writeLE16 LittleEndian mem 0 v) = length mem" "length (MEM_writeLE16 LittleEndian mem 2 v) = length mem"
    "length (MEM_writeLE16 LittleEndian mem 4 v) = length mem"
proof -
  have l: "op = 6 + length b" using arg_cong[OF assms(1), of length] assms(2-5) by simp
  have "mem = (j1 @ j2 @ j3 @ b) @ drop op mem" using assms(1) by (metis append_take_drop_id)
  then obtain r where m: "mem = j1 @ j2 @ j3 @ b @ r" by simp
  show "take op (MEM_writeLE16 LittleEndian mem 0 v) = le_bytes 2 (unat v) @ j2 @ j3 @ b"
    "take op (MEM_writeLE16 LittleEndian mem 2 v) = j1 @ le_bytes 2 (unat v) @ j3 @ b"
    "take op (MEM_writeLE16 LittleEndian mem 4 v) = j1 @ j2 @ le_bytes 2 (unat v) @ b"
    using assms(3-5) unfolding l m by (simp_all add: writeLE16_eq write_at_def del: le_bytes.simps)
  show "length (MEM_writeLE16 LittleEndian mem 0 v) = length mem" "length (MEM_writeLE16 LittleEndian mem 2 v) = length mem"
    "length (MEM_writeLE16 LittleEndian mem 4 v) = length mem"
    using assms(3-5) by (simp_all add: m writeLE16_eq write_at_def del: le_bytes.simps)
qed

lemma compress4X_body:
  assumes big: "17 \<le> length ostart" "12 \<le> length src"
    and q: "q = (length src + 3) div 4"
    and s1: "compress_segment ostart 6 (bytes_at src 0 q) CTable = (c1, m1)"
    and s2: "compress_segment (MEM_writeLE16 LittleEndian m1 0 (of_nat c1)) (6 + c1) (bytes_at src q q) CTable = (c2, m2)"
    and s3: "compress_segment (MEM_writeLE16 LittleEndian m2 2 (of_nat c2)) (6 + c1 + c2) (bytes_at src (2 * q) q) CTable = (c3, m3)"
    and s4: "compress_segment (MEM_writeLE16 LittleEndian m3 4 (of_nat c3)) (6 + c1 + c2 + c3) (drop (3 * q) src) CTable = (c4, m4)"
  shows "HUF_compress4X_usingCTable_internal ostart src CTable
      = (if c1 = 0 \<or> c1 > 65535 then (0, m1) else if c2 = 0 \<or> c2 > 65535 then (0, m2) else if c3 = 0 \<or> c3 > 65535 then (0, m3)
         else if c4 = 0 \<or> c4 > 65535 then (0, m4) else (6 + c1 + c2 + c3 + c4, m4))"
proof -
  have g: "(length ostart < 6 + 1 + 1 + 1 + 8) = False" "(length src < 12) = False" using big by auto
  show ?thesis by (simp only: HUF_compress4X_usingCTable_internal_def Let_def g if_False q[symmetric] prod.case s1 s2 s3 s4)
qed

text \<open>What the four segments are written as.\<close>

definition jump_bytes :: "buffer \<Rightarrow> buffer \<Rightarrow> buffer \<Rightarrow> buffer" where
  "jump_bytes b1 b2 b3 = le_bytes 2 (length b1) @ le_bytes 2 (length b2) @ le_bytes 2 (length b3)"

lemma compress4X_segments:
  assumes t: "HUF_readCTable CTable maxSymbolValue hdr dtable wksp = Inr (sz, CTable', maxSV, hz)" "256 \<le> length (hct_elts CTable)"
      "HUF_readStats_wksp 256 hdr dtable wksp = Inr (sz', stats)" "huf_covers (hs_weights stats) src"
    and c: "HUF_compress4X_usingCTable_internal ostart src CTable' = (n, out)" "n \<noteq> 0"
    and bs: "\<And>i. bs i = field_bytes (map (huf_field (hs_tableLog stats) (hs_weights stats)) (rev (segs i)))"
    and segs: "q = (length src + 3) div 4" "segs 0 = bytes_at src 0 q" "segs 1 = bytes_at src q q" "segs 2 = bytes_at src (2 * q) q" "segs (3::nat) = drop (3 * q) src"
  shows "take n out = jump_bytes (bs 0) (bs 1) (bs 2) @ bs 0 @ bs 1 @ bs 2 @ bs 3 \<and> n = length (take n out) \<and> 12 \<le> length src
    \<and> (\<forall>i<4. length (bs i) \<le> 65535)"
proof -
  have cov: "huf_covers (hs_weights stats) (segs 0)" "huf_covers (hs_weights stats) (segs 1)" "huf_covers (hs_weights stats) (segs 2)" "huf_covers (hs_weights stats) (segs 3)"
    using t(4) by (auto simp: segs huf_covers_def bytes_at_def dest: in_set_takeD in_set_dropD simp del: One_nat_def)
  have big: "17 \<le> length ostart" "12 \<le> length src"
    using c by (auto simp: HUF_compress4X_usingCTable_internal_def Let_def split: if_splits)
  obtain c1 m1 where s1: "compress_segment ostart 6 (segs 0) CTable' = (c1, m1)" by fastforce
  define w1 where "w1 = MEM_writeLE16 LittleEndian m1 0 (of_nat c1)"
  obtain c2 m2 where s2: "compress_segment w1 (6 + c1) (segs 1) CTable' = (c2, m2)" by fastforce
  define w2 where "w2 = MEM_writeLE16 LittleEndian m2 2 (of_nat c2)"
  obtain c3 m3 where s3: "compress_segment w2 (6 + c1 + c2) (segs 2) CTable' = (c3, m3)" by fastforce
  define w3 where "w3 = MEM_writeLE16 LittleEndian m3 4 (of_nat c3)"
  obtain c4 m4 where s4: "compress_segment w3 (6 + c1 + c2 + c3) (segs 3) CTable' = (c4, m4)" by fastforce
  note body = compress4X_body[OF big segs(1) s1[unfolded segs(2)] s2[unfolded segs(3) w1_def] s3[unfolded segs(4) w2_def] s4[unfolded segs(5) w3_def]]
  have nz: "c1 \<noteq> 0" "c2 \<noteq> 0" "c3 \<noteq> 0" "c4 \<noteq> 0" and le: "c1 \<le> 65535" "c2 \<le> 65535" "c3 \<le> 65535" "c4 \<le> 65535"
    and n: "n = 6 + c1 + c2 + c3 + c4" "out = m4"
    using c unfolding body by (auto split: if_splits)
  have u: "unat (of_nat k :: U16) = k" if "k \<le> 65535" for k using that by (simp add: unat_of_nat)
  obtain j1 j2 j3 where j: "take 6 ostart = j1 @ j2 @ j3 @ []" and jl: "length j1 = 2" "length j2 = 2" "length j3 = 2"
  proof -
    have "take 6 ostart = take 2 ostart @ take 2 (drop 2 ostart) @ take 2 (drop 4 ostart) @ []"
      by (simp add: take_add[of 2 4, simplified] take_add[of 2 2, simplified] drop_drop)
    then show ?thesis using that[of "take 2 ostart" "take 2 (drop 2 ostart)" "take 2 (drop 4 ostart)"] big(1) by simp
  qed
  note r1 = segment_holds[OF t(1-3) cov(1) s1 nz(1) _ j, folded bs, unfolded Let_def, simplified append.assoc]
  have p1: "take (6 + c1) m1 = j1 @ j2 @ j3 @ bs 0" "c1 = length (bs 0)" "length m1 = length ostart" "6 + c1 \<le> length m1" using r1 big(1) by auto
  have p1': "take (6 + c1) w1 = le_bytes 2 c1 @ j2 @ j3 @ bs 0" "length w1 = length ostart"
    using write_jump[OF p1(1) p1(4) jl] p1(3) u[OF le(1)] by (simp_all add: w1_def del: le_bytes.simps)
  have op1: "6 + c1 \<le> length w1" using p1 p1' by simp
  note r2 = segment_holds[OF t(1-3) cov(2) s2 nz(2) op1 p1'(1), folded bs, unfolded Let_def, simplified append.assoc]
  have p2: "take (6 + c1 + c2) m2 = le_bytes 2 c1 @ j2 @ j3 @ bs 0 @ bs 1" "6 + c1 + c2 \<le> length m2" "length m2 = length ostart" "c2 = length (bs 1)"
    using r2 p1'(2) by (auto simp del: le_bytes.simps)
  have p2': "take (6 + c1 + c2) w2 = le_bytes 2 c1 @ le_bytes 2 c2 @ j3 @ bs 0 @ bs 1" "length w2 = length ostart"
    using write_jump[OF p2(1,2) length_le_bytes jl(2,3)] p2(3) u[OF le(2)] by (simp_all add: w2_def del: le_bytes.simps)
  have op2: "6 + c1 + c2 \<le> length w2" using p2 p2' by simp
  note r3 = segment_holds[OF t(1-3) cov(3) s3 nz(3) op2 p2'(1), folded bs, unfolded Let_def, simplified append.assoc]
  have p3: "take (6 + c1 + c2 + c3) m3 = le_bytes 2 c1 @ le_bytes 2 c2 @ j3 @ bs 0 @ bs 1 @ bs 2" "6 + c1 + c2 + c3 \<le> length m3"
    "length m3 = length ostart" "c3 = length (bs 2)"
    using r3 p2'(2) by (auto simp del: le_bytes.simps)
  have p3': "take (6 + c1 + c2 + c3) w3 = le_bytes 2 c1 @ le_bytes 2 c2 @ le_bytes 2 c3 @ bs 0 @ bs 1 @ bs 2" "length w3 = length ostart"
    using write_jump[OF p3(1,2) length_le_bytes length_le_bytes jl(3)] p3(3) u[OF le(3)] by (simp_all add: w3_def del: le_bytes.simps)
  have op3: "6 + c1 + c2 + c3 \<le> length w3" using p3 p3' by simp
  note r4 = segment_holds[OF t(1-3) cov(4) s4 nz(4) op3 p3'(1), folded bs, unfolded Let_def, simplified append.assoc]
  have p4: "take n out = le_bytes 2 c1 @ le_bytes 2 c2 @ le_bytes 2 c3 @ bs 0 @ bs 1 @ bs 2 @ bs 3" "n \<le> length out" "c4 = length (bs 3)"
    using r4 p3'(2) unfolding n by (auto simp del: le_bytes.simps)
  have "length (bs i) \<le> 65535" if i: "i < 4" for i
  proof -
    consider "i = 0" | "i = 1" | "i = 2" | "i = 3" using i by linarith
    then show ?thesis using le p1(2) p2(4) p3(4) p4(3) by cases simp_all
  qed
  moreover have "n = length (take n out)" using p4(2) by simp
  ultimately show ?thesis using p4(1) big(2) unfolding jump_bytes_def p1(2) p2(4) p3(4) by auto
qed

subsection \<open>Round trips\<close>

lemma flen_lengths: "flen (map (huf_field tableLog ws) (rev src)) = (\<Sum>s\<leftarrow>src. huf_len tableLog ws (unat s))"
  by (induction src) (simp_all add: huf_field_def)

lemma roundtrip1X:
  assumes t: "HUF_readCTable CTable maxSymbolValue hdr dtable wksp = Inr (sz, CTable', maxSV, hz)" "256 \<le> length (hct_elts CTable)"
    and d: "HUF_readDTableX1_wksp e DTable hdr dtable wksp symbols = Inr (iSize, DTable')" "huf_dtable_ok DTable" "256 \<le> length symbols"
    and c: "HUF_readStats_wksp 256 hdr dtable wksp = Inr (sz', stats)" "huf_covers (hs_weights stats) src"
    and bits: "bits = (\<Sum>s\<leftarrow>src. huf_len (hs_tableLog stats) (hs_weights stats) (unat s))"
  shows "\<exists>n out. HUF_compress1X_usingCTable_internal_body ostart src CTable' = (n, out) \<and> length out = length ostart
    \<and> (n \<noteq> 0 \<longleftrightarrow> 8 < length ostart \<and> (bits + 1) div 8 < length ostart - 8)
    \<and> (n \<noteq> 0 \<longrightarrow> n = bits div 8 + 1 \<and> HUF_decompress1X1_usingDTable_internal_body (length src) (take n out) DTable' = Inr src)"
proof -
  let ?fs = "map (huf_field (hs_tableLog stats) (hs_weights stats)) (rev src)"
  obtain n out where h: "HUF_compress1X_usingCTable_internal_body ostart src CTable' = (n, out)" "length out = length ostart"
    "if 8 < length ostart \<and> (bits + 1) div 8 < length ostart - 8 then n = bits div 8 + 1 \<and> take n out = field_bytes ?fs else n = 0"
    using compress1X_fields[OF t c, of ostart] unfolding bits Let_def flen_lengths by blast
  have hc: "huf_complete (hs_weights stats) (hs_tableLog stats)" using read_tables_agree[OF t] c(1) by fastforce
  have "HUF_decompress1X1_usingDTable_internal_body (length src) (field_bytes ?fs) DTable' = Inr src"
    using read_decompress_agrees[OF d, of "length src" "field_bytes ?fs"] huf_exactly_fields[OF hc c(2)] c(1) by (auto simp: huf_stream_def)
  then have "n \<noteq> 0 \<longrightarrow> n = bits div 8 + 1 \<and> HUF_decompress1X1_usingDTable_internal_body (length src) (take n out) DTable' = Inr src"
    "n \<noteq> 0 \<longleftrightarrow> 8 < length ostart \<and> (bits + 1) div 8 < length ostart - 8"
    using h(3) by (auto split: if_splits)
  then show ?thesis using h(1,2) by (intro exI[of _ n] exI[of _ out] conjI)
qed

lemma segments_concat:
  "bytes_at src 0 q @ bytes_at src q q @ bytes_at src (2 * q) q @ drop (3 * q) src = src"
proof -
  have "drop k src = take q (drop k src) @ drop (k + q) src" for k by (metis append_take_drop_id drop_drop add.commute)
  from this[of 0] this[of q] this[of "2 * q"] show ?thesis by (simp add: bytes_at_def mult_2[symmetric] del: append_take_drop_id)
qed

lemma streams4_segments:
  assumes "huf_complete ws tableLog" "huf_covers ws src" "12 \<le> length src" "q = (length src + 3) div 4"
    and bs: "\<And>i. bs i = field_bytes (map (huf_field tableLog ws) (rev (segs i)))" "\<forall>i<4. length (bs i) \<le> 65535"
    and segs: "segs 0 = bytes_at src 0 q" "segs 1 = bytes_at src q q" "segs 2 = bytes_at src (2 * q) q" "segs (3::nat) = drop (3 * q) src"
  shows "huf_streams4 tableLog ws (length src) (jump_bytes (bs 0) (bs 1) (bs 2) @ bs 0 @ bs 1 @ bs 2 @ bs 3) = Inr src"
proof -
  let ?src = "jump_bytes (bs 0) (bs 1) (bs 2) @ bs 0 @ bs 1 @ bs 2 @ bs 3"
  have q: "3 * q \<le> length src" using assms(3,4) by linarith
  have sl: "length (segs 0) = q" "length (segs 1) = q" "length (segs 2) = q" "length (segs 3) = length src - 3 * q"
    using q by (simp_all add: segs bytes_at_def del: One_nat_def)
  have cov: "huf_covers ws (segs 0)" "huf_covers ws (segs 1)" "huf_covers ws (segs 2)" "huf_covers ws (segs 3)"
    using assms(2) by (auto simp: segs huf_covers_def bytes_at_def dest: in_set_takeD in_set_dropD simp del: One_nat_def)
  have x: "bindE (stream_bits (bs i)) (huf_exactly tableLog ws (length (segs i))) = Inr (segs i)" if "huf_covers ws (segs i)" for i
    unfolding bs using huf_exactly_fields[OF assms(1) that] by simp
  have pos: "0 < length (bs i)" for i by (simp add: bs field_bytes_def)
  obtain b1 b2 b3 b4 where b: "stream_bits (bs 0) = Inr b1" "stream_bits (bs 1) = Inr b2" "stream_bits (bs 2) = Inr b3" "stream_bits (bs 3) = Inr b4"
    by (simp add: bs stream_bits_field_bytes)
  have e: "huf_exactly tableLog ws q b1 = Inr (segs 0)" "huf_exactly tableLog ws q b2 = Inr (segs 1)"
    "huf_exactly tableLog ws q b3 = Inr (segs 2)" "huf_exactly tableLog ws (length src - 3 * q) b4 = Inr (segs 3)"
    using x[OF cov(1)] x[OF cov(2)] x[OF cov(3)] x[OF cov(4)] unfolding sl b by simp_all
  have lv: "le_val (le_bytes 2 (length (bs i))) = length (bs i)" if "i < 4" for i
  proof -
    have "length (bs i) \<le> 65535" using bs(2) that by simp
    then show ?thesis by (simp add: le_val_le_bytes del: le_bytes.simps)
  qed
  have j: "le_val (bytes_at ?src 0 2) = length (bs 0)" "le_val (bytes_at ?src 2 2) = length (bs 1)" "le_val (bytes_at ?src 4 2) = length (bs 2)"
    using lv[of 0] lv[of 1] lv[of 2] by (simp_all add: jump_bytes_def bytes_at_def del: le_bytes.simps)
  have jl: "length (jump_bytes (bs 0) (bs 1) (bs 2)) = 6" by (simp add: jump_bytes_def del: le_bytes.simps)
  have s: "bytes_at ?src 6 (length (bs 0)) = bs 0" "bytes_at ?src (6 + length (bs 0)) (length (bs 1)) = bs 1"
    "bytes_at ?src (6 + length (bs 0) + length (bs 1)) (length (bs 2)) = bs 2" "drop (6 + length (bs 0) + length (bs 1) + length (bs 2)) ?src = bs 3"
    using jl by (simp_all add: bytes_at_def)
  have "\<not> length ?src < 10" unfolding length_append jl using pos[of 0] pos[of 1] pos[of 2] pos[of 3] by linarith
  moreover have "segs 0 @ segs 1 @ segs 2 @ segs 3 = src" unfolding segs by (rule segments_concat)
  ultimately show ?thesis using assms(3) q jl
    unfolding huf_streams4_def Let_def j s b bindE.simps assms(4)[symmetric] e by (simp del: One_nat_def)
qed

lemma roundtrip4X:
  assumes t: "HUF_readCTable CTable maxSymbolValue hdr dtable wksp = Inr (sz, CTable', maxSV, hz)" "256 \<le> length (hct_elts CTable)"
    and d: "HUF_readDTableX1_wksp e DTable hdr dtable wksp symbols = Inr (iSize, DTable')" "huf_dtable_ok DTable" "256 \<le> length symbols"
    and c: "HUF_readStats_wksp 256 hdr dtable wksp = Inr (sz', stats)" "huf_covers (hs_weights stats) src"
    and r: "HUF_compress4X_usingCTable_internal ostart src CTable' = (n, out)" "n \<noteq> 0"
  shows "HUF_decompress4X1_usingDTable_internal_body (length src) (take n out) DTable' = Inr src"
proof -
  define q where "q = (length src + 3) div 4"
  define segs where "segs i = (if i = 0 then bytes_at src 0 q else if i = 1 then bytes_at src q q
    else if i = 2 then bytes_at src (2 * q) q else drop (3 * q) src)" for i :: nat
  define bs where "bs i = field_bytes (map (huf_field (hs_tableLog stats) (hs_weights stats)) (rev (segs i)))" for i
  have segs: "segs 0 = bytes_at src 0 q" "segs 1 = bytes_at src q q" "segs 2 = bytes_at src (2 * q) q" "segs 3 = drop (3 * q) src"
    by (simp_all add: segs_def)
  note w = compress4X_segments[OF t c r bs_def q_def segs]
  have hc: "huf_complete (hs_weights stats) (hs_tableLog stats)" using read_tables_agree[OF t] c(1) by fastforce
  have "huf_streams4 (hs_tableLog stats) (hs_weights stats) (length src) (take n out) = Inr src"
    using streams4_segments[OF hc c(2) _ q_def bs_def _ segs] w by simp
  moreover have "length (take n out) < 2 ^ 64"
  proof -
    have "\<forall>i<4. length (bs i) \<le> 65535" using w by blast
    then have "length (bs 0) \<le> 65535" "length (bs 1) \<le> 65535" "length (bs 2) \<le> 65535" "length (bs 3) \<le> 65535" by auto
    moreover have "length (take n out) = 6 + length (bs 0) + length (bs 1) + length (bs 2) + length (bs 3)"
      using w by (simp add: jump_bytes_def del: le_bytes.simps length_take One_nat_def)
    ultimately show ?thesis by simp
  qed
  ultimately show ?thesis using read_decompress_agrees[OF d, of "length src" "take n out"] c(1) by auto
qed

text \<open>A segment whose code words fit is written; 128 KB are few enough for the jump table.\<close>

lemma segment_fits:
  assumes t: "HUF_readCTable CTable maxSymbolValue hdr dtable wksp = Inr (sz, CTable', maxSV, hz)" "256 \<le> length (hct_elts CTable)"
      "HUF_readStats_wksp 256 hdr dtable wksp = Inr (sz', stats)" "huf_covers (hs_weights stats) ip"
    and c: "compress_segment mem op ip CTable' = (cSize, mem')" "length ip \<le> q" "op + 3 * q div 2 + 10 \<le> length mem" "op \<le> 6 + k * (3 * q div 2 + 1)"
  shows "cSize \<noteq> 0" "length mem' = length mem" "cSize \<le> 3 * q div 2 + 1" "op + cSize \<le> 6 + (k + 1) * (3 * q div 2 + 1)"
proof -
  let ?fs = "map (huf_field (hs_tableLog stats) (hs_weights stats)) (rev ip)"
  have hc: "huf_complete (hs_weights stats) (hs_tableLog stats)" using read_tables_agree[OF t(1,2)] t(3) by fastforce
  have "huf_len (hs_tableLog stats) (hs_weights stats) (unat s) \<le> 12" if "s \<in> set ip" for s
    using hc t(4) that by (auto simp: huf_len_def huf_complete_def huf_covers_def)
  then have "(\<Sum>s\<leftarrow>ip. huf_len (hs_tableLog stats) (hs_weights stats) (unat s)) \<le> (\<Sum>s\<leftarrow>ip. 12)" by (intro sum_list_mono)
  then have f: "flen ?fs \<le> 12 * q" using c(2) by (simp add: flen_lengths sum_list_triv)
  obtain n out where h: "HUF_compress1X_usingCTable_internal_body (drop op mem) ip CTable' = (n, out)" "length out = length (drop op mem)"
    "if 8 < length (drop op mem) \<and> (flen ?fs + 1) div 8 < length (drop op mem) - 8 then n = flen ?fs div 8 + 1 \<and> take n out = field_bytes ?fs else n = 0"
    using compress1X_fields[OF t, of "drop op mem"] by (auto simp: Let_def)
  have "(flen ?fs + 1) div 8 < length (drop op mem) - 8" "flen ?fs div 8 \<le> 3 * q div 2"
    unfolding length_drop using f c(3) by linarith+
  then have n: "n = flen ?fs div 8 + 1" "n \<le> 3 * q div 2 + 1" using h(3) c(3) by auto
  have m: "n = cSize" "mem' = take op mem @ out" using c(1) h(1) by (auto simp: compress_segment_def)
  show "cSize \<noteq> 0" "cSize \<le> 3 * q div 2 + 1" using n m by auto
  then show "length mem' = length mem" "op + cSize \<le> 6 + (k + 1) * (3 * q div 2 + 1)" using m h(2) c(3,4) by simp_all
qed

lemma compress4X_fits:
  assumes t: "HUF_readCTable CTable maxSymbolValue hdr dtable wksp = Inr (sz, CTable', maxSV, hz)" "256 \<le> length (hct_elts CTable)"
      "HUF_readStats_wksp 256 hdr dtable wksp = Inr (sz', stats)" "huf_covers (hs_weights stats) src"
    and l: "12 \<le> length src" "length src \<le> 131072" "3 * length src div 2 + 30 \<le> length ostart"
  shows "fst (HUF_compress4X_usingCTable_internal ostart src CTable') \<noteq> 0"
proof -
  define q where "q = (length src + 3) div 4"
  define B where "B = 3 * q div 2 + 1"
  have big: "17 \<le> length ostart" using l by linarith
  have B: "B \<le> 65535" "6 + 4 * B + 9 \<le> length ostart" 
  proof -
    have "4 * q \<le> length src + 3" "2 * (3 * q div 2) \<le> 3 * q" "3 * length src \<le> 2 * (3 * length src div 2) + 1" unfolding q_def by linarith+
    moreover define a b where "a = 3 * q div 2" and "b = 3 * length src div 2"
    ultimately have "4 * q \<le> length src + 3" "2 * a \<le> 3 * q" "3 * length src \<le> 2 * b + 1" "b + 30 \<le> length ostart" "B = a + 1"
      using l(3) by (simp_all add: B_def)
    then show "B \<le> 65535" "6 + 4 * B + 9 \<le> length ostart" using l(2) by linarith+
  qed
  have len: "length (MEM_writeLE16 LittleEndian mem p v) = length mem" if "length mem = length ostart" "p \<le> 4" for mem p v
    using that big by (simp add: writeLE16_eq write_at_def del: le_bytes.simps)
  have cov: "huf_covers (hs_weights stats) (bytes_at src p q)" "huf_covers (hs_weights stats) (drop p src)" for p
    using t(4) by (auto simp: huf_covers_def bytes_at_def dest: in_set_takeD in_set_dropD)
  note fits = segment_fits[OF t(1-3), where q = q, folded B_def]
  have b: "length (bytes_at src p q) \<le> q" for p by (simp add: bytes_at_def)
  have d: "length (drop (3 * q) src) \<le> q" unfolding q_def by simp
  obtain c1 m1 where s1: "compress_segment ostart 6 (bytes_at src 0 q) CTable' = (c1, m1)" by fastforce
  note f1 = fits[OF cov(1) s1 b, of 0]
  define w1 where "w1 = MEM_writeLE16 LittleEndian m1 0 (of_nat c1)"
  obtain c2 m2 where s2: "compress_segment w1 (6 + c1) (bytes_at src q q) CTable' = (c2, m2)" by fastforce
  note f2 = fits[OF cov(1) s2 b, of 1]
  define w2 where "w2 = MEM_writeLE16 LittleEndian m2 2 (of_nat c2)"
  obtain c3 m3 where s3: "compress_segment w2 (6 + c1 + c2) (bytes_at src (2 * q) q) CTable' = (c3, m3)" by fastforce
  note f3 = fits[OF cov(1) s3 b, of 2]
  define w3 where "w3 = MEM_writeLE16 LittleEndian m3 4 (of_nat c3)"
  obtain c4 m4 where s4: "compress_segment w3 (6 + c1 + c2 + c3) (drop (3 * q) src) CTable' = (c4, m4)" by fastforce
  note f4 = fits[OF cov(2) s4 d, of 3]
  have e1: "c1 \<noteq> 0" "length m1 = length ostart" "c1 \<le> B" "6 + c1 \<le> 6 + 1 * B" using f1 B by (simp_all add: B_def)
  then have "length w1 = length ostart" unfolding w1_def by (intro trans[OF len]) simp_all
  then have e2: "c2 \<noteq> 0" "length m2 = length ostart" "c2 \<le> B" "6 + c1 + c2 \<le> 6 + 2 * B" using f2 B e1 by (simp_all add: B_def)
  then have "length w2 = length ostart" unfolding w2_def by (intro trans[OF len]) simp_all
  then have e3: "c3 \<noteq> 0" "length m3 = length ostart" "c3 \<le> B" "6 + c1 + c2 + c3 \<le> 6 + 3 * B" using f3 B e2 by (simp_all add: B_def)
  then have "length w3 = length ostart" unfolding w3_def by (intro trans[OF len]) simp_all
  then have e4: "c4 \<noteq> 0" "c4 \<le> B" using f4 B e3 by (simp_all add: B_def)
  show ?thesis unfolding compress4X_body[OF big l(1) q_def s1 s2[unfolded w1_def] s3[unfolded w2_def] s4[unfolded w3_def]]
    using e1 e2 e3 e4 B(1) by auto
qed

text \<open>
  Property C2: what was encoded is decoded again.  With the code table and the decoding table read
  from the same weights, the stream of a source whose symbols all have code words is written with its
  exact size, one bit more than the code words rounded up to bytes, or not at all if it does not fit
  in front of the last eight bytes of the destination; and decoding the stream gives the source back.\<close>

theorem huf_stream_roundtrip:
  assumes "HUF_readCTable CTable maxSymbolValue hdr dtable wksp = Inr (sz, CTable', maxSV, hz)" "256 \<le> length (hct_elts CTable)"
    and "HUF_readDTableX1_wksp e DTable hdr dtable wksp symbols = Inr (iSize, DTable')" "huf_dtable_ok DTable" "256 \<le> length symbols"
    and "HUF_readStats_wksp 256 hdr dtable wksp = Inr (sz', stats)" "huf_covers (hs_weights stats) src"
    and "bits = (\<Sum>s\<leftarrow>src. huf_len (hs_tableLog stats) (hs_weights stats) (unat s))"
  shows "\<exists>n out. HUF_compress1X_usingCTable_internal_body ostart src CTable' = (n, out) \<and> length out = length ostart
    \<and> (n \<noteq> 0 \<longleftrightarrow> 8 < length ostart \<and> (bits + 1) div 8 < length ostart - 8)
    \<and> (n \<noteq> 0 \<longrightarrow> n = bits div 8 + 1 \<and> HUF_decompress1X1_usingDTable_internal_body (length src) (take n out) DTable' = Inr src)"
  by (rule roundtrip1X[OF assms])

definition ctable_example :: HUF_CTable where
  "ctable_example = \<lparr>hct_tableLog = 0, hct_maxSymbolValue = 0, hct_elts = replicate 256 0\<rparr>"

lemma ctable_example_read:
  "\<exists>CTable'. HUF_readCTable ctable_example 255 [129, 0x11] fse_space [] = Inr (2, CTable', 2, False)" "256 \<le> length (hct_elts ctable_example)"
proof -
  show "\<exists>CTable'. HUF_readCTable ctable_example 255 [129, 0x11] fse_space [] = Inr (2, CTable', 2, False)"
    unfolding HUF_readCTable_def HUF_SYMBOLVALUE_MAX_def by (simp add: huf_example_stats Let_def)
  show "256 \<le> length (hct_elts ctable_example)" by (simp add: ctable_example_def)
qed

theorem huf_stream_roundtrip_witness:
  "\<exists>CTable' DTable' n out. HUF_readCTable ctable_example 255 [129, 0x11] fse_space [] = Inr (2, CTable', 2, False)
    \<and> HUF_readDTableX1_wksp LittleEndian huf_example [129, 0x11] fse_space [] (replicate 256 0) = Inr (2, DTable')
    \<and> HUF_compress1X_usingCTable_internal_body (replicate 12 0) [2, 0, 1, 1] CTable' = (n, out)
    \<and> n = 1 \<and> HUF_decompress1X1_usingDTable_internal_body 4 (take n out) DTable' = Inr [2, 0, 1, 1]"
proof -
  obtain CTable' where c: "HUF_readCTable ctable_example 255 [129, 0x11] fse_space [] = Inr (2, CTable', 2, False)"
    using ctable_example_read(1) by blast
  obtain DTable' where d: "HUF_readDTableX1_wksp LittleEndian huf_example [129, 0x11] fse_space [] (replicate 256 0) = Inr (2, DTable')"
    using huf_example_read(1) by blast
  have l: "256 \<le> length (replicate 256 (0::nat))" by simp
  obtain n out where r: "HUF_compress1X_usingCTable_internal_body (replicate 12 0) [2, 0, 1, 1] CTable' = (n, out)"
    "n \<noteq> 0 \<longleftrightarrow> (8::nat) < 12 \<and> (7 + 1) div 8 < (12::nat) - 8"
    "n \<noteq> 0 \<longrightarrow> n = 7 div 8 + 1 \<and> HUF_decompress1X1_usingDTable_internal_body (Suc (Suc (Suc (Suc 0)))) (take n out) DTable' = Inr [2, 0, 1, 1]"
    using huf_stream_roundtrip[OF c ctable_example_read(2) d huf_example_read(2) l huf_example_stats, of "[2, 0, 1, 1]" 7 "replicate 12 0"]
    by (auto simp: huf_covers_def huf_len_def)
  moreover have "Suc (Suc (Suc (Suc 0))) = 4" by simp
  ultimately show ?thesis using c d by auto
qed

text \<open>
  Property C15: four streams with their jump table round-trip as well: whenever the encoder of four
  segments writes anything, the interleaved decoder gives the source back from exactly those bytes;
  and it does write the source if that has between 12 bytes and 128 KB and the destination has one
  and a half times the room, and 30 bytes more.\<close>

theorem huf_four_streams_roundtrip:
  assumes "HUF_readCTable CTable maxSymbolValue hdr dtable wksp = Inr (sz, CTable', maxSV, hz)" "256 \<le> length (hct_elts CTable)"
    and "HUF_readDTableX1_wksp e DTable hdr dtable wksp symbols = Inr (iSize, DTable')" "huf_dtable_ok DTable" "256 \<le> length symbols"
    and "HUF_readStats_wksp 256 hdr dtable wksp = Inr (sz', stats)" "huf_covers (hs_weights stats) src"
    and "HUF_compress4X_usingCTable_internal ostart src CTable' = (n, out)"
  shows "(n \<noteq> 0 \<longrightarrow> HUF_decompress4X1_usingDTable_internal_body (length src) (take n out) DTable' = Inr src)
    \<and> (12 \<le> length src \<and> length src \<le> 131072 \<and> 3 * length src div 2 + 30 \<le> length ostart \<longrightarrow> n \<noteq> 0)"
  using roundtrip4X[OF assms] compress4X_fits[OF assms(1,2,6,7), of ostart] assms(8) by auto

theorem huf_four_streams_roundtrip_witness:
  "\<exists>CTable' DTable' n out. HUF_readCTable ctable_example 255 [129, 0x11] fse_space [] = Inr (2, CTable', 2, False)
    \<and> HUF_readDTableX1_wksp LittleEndian huf_example [129, 0x11] fse_space [] (replicate 256 0) = Inr (2, DTable')
    \<and> HUF_compress4X_usingCTable_internal (replicate 100 0) (replicate 20 2) CTable' = (n, out)
    \<and> n \<noteq> 0 \<and> HUF_decompress4X1_usingDTable_internal_body 20 (take n out) DTable' = Inr (replicate 20 2)"
proof -
  obtain CTable' where c: "HUF_readCTable ctable_example 255 [129, 0x11] fse_space [] = Inr (2, CTable', 2, False)"
    using ctable_example_read(1) by blast
  obtain DTable' where d: "HUF_readDTableX1_wksp LittleEndian huf_example [129, 0x11] fse_space [] (replicate 256 0) = Inr (2, DTable')"
    using huf_example_read(1) by blast
  have l: "256 \<le> length (replicate 256 (0::nat))" by simp
  obtain n out where r: "HUF_compress4X_usingCTable_internal (replicate 100 0) (replicate 20 2) CTable' = (n, out)" by fastforce
  have "(n \<noteq> 0 \<longrightarrow> HUF_decompress4X1_usingDTable_internal_body 20 (take n out) DTable' = Inr (replicate 20 2)) \<and> n \<noteq> 0"
    using huf_four_streams_roundtrip[OF c ctable_example_read(2) d huf_example_read(2) l huf_example_stats _ r] by (simp add: huf_covers_def)
  then show ?thesis using c d r by blast
qed

end
