(* ===== verification/Spec2Isabelle.thy ===== *)
theory Spec2Isabelle
  imports Zstd_NCountRoundtrip Zstd_Continue Zstd_Literals Zstd_HufEncode
begin

text \<open>
  \<^bold>\<open>A verification library for the native part of zstd-jni.\<close>

  The repository wraps the Zstandard compression library, in C under
  \<^verbatim>\<open>src/src/main/native\<close>, for Java.  The library turns data into frames of blocks and back.  This
  development models the decompression side of it and the layers both sides share, bottom up, and
  proves what makes them correct.  File names below are relative to that directory.

  \<^bold>\<open>The build that is modelled.\<close>  A little-endian 64-bit machine with a 64-bit \<open>size_t\<close>, GCC, release
  mode (an \<open>assert\<close> of the source is a precondition), no legacy formats, no BMI2 at compile time.  The
  accessors, the checksum and the table builders are modelled for both byte orders.

  \<^bold>\<open>How C is translated.\<close>  A buffer with its size is a list of bytes; a pointer into a buffer is an
  offset.  Integers are words, or natural numbers with the reductions of the casts written out where
  a proof needs arithmetic.  A function that returns a size or an error code returns a sum, with the
  error on the left.  A function that may leave its buffer or not return has a result of type
  \<open>outcome\<close>: \<open>None\<close> when it does not return, \<open>OutOfBounds\<close> when it leaves a buffer.  Where buffers
  may share memory (executing sequences) there is one flat memory.

  \<^bold>\<open>Theories, from the bottom.\<close>

  \<^item> \<open>Zstd_Prelude\<close>: machine types, little-endian values, lemmas on words and lists.
  \<^item> \<open>Zstd_Errors\<close> (\<^verbatim>\<open>zstd_errors.h\<close>, \<^verbatim>\<open>common/error_private.h\<close>): error codes inside sizes, and that
    the encoding is unambiguous.
  \<^item> \<open>Zstd_Mem\<close> (\<^verbatim>\<open>common/mem.h\<close>): unaligned accesses and byte swaps.
  \<^item> \<open>Zstd_Bits\<close> (\<^verbatim>\<open>common/bits.h\<close>): bit counting, and that the portable forms agree with the
    instructions.
  \<^item> \<open>Zstd_Bitstream\<close> (\<^verbatim>\<open>common/bitstream.h\<close>): the writer and the backward reader of bit fields;
    the interface \<open>bit_lifo\<close> of a stack of bit fields, the round trip, overflow detection, bounds of
    reloads.
  \<^item> \<open>Zstd_Spread\<close>, \<open>Zstd_FSE\<close>, \<open>Zstd_FSE_Stream\<close> (\<^verbatim>\<open>common/fse.h\<close>, \<^verbatim>\<open>common/fse_decompress.c\<close>,
    \<^verbatim>\<open>compress/fse_compress.c\<close>): spreading of symbols, with the interface \<open>symbol_table\<close> of anything
    symbols are spread over; decoding and encoding tables, inverse to each other; the round trip of
    whole streams with two interleaved states.
  \<^item> \<open>Zstd_NCount\<close> (\<^verbatim>\<open>common/entropy_common.c\<close>): table descriptions read from arbitrary bytes are
    normalized distributions, Huffman weights are complete codes.
  \<^item> \<open>Zstd_Normalize\<close>, \<open>Zstd_WriteNCount\<close>, \<open>Zstd_NCountRoundtrip\<close> (\<^verbatim>\<open>compress/fse_compress.c\<close>):
    normalization of a histogram at the accuracy the library chooses always succeeds; descriptions are
    written as a list of bit fields and read back by \<open>FSE_readNCount\<close>; the bound for writing without
    checks is too small.
  \<^item> \<open>Zstd_Huffman\<close>, \<open>Zstd_HufDecode\<close> (\<^verbatim>\<open>decompress/huf_decompress.c\<close>): the decoding table with one
    symbol per cell realises the canonical prefix code of the weights; streams of one and of four
    segments are decoded as that code defines, by the interface \<open>x1_decoder\<close> of a table that realises
    a code.
  \<^item> \<open>Zstd_HufEncode\<close> (\<^verbatim>\<open>compress/huf_compress.c\<close>): the code table holds the same code; the bit stream
    with two containers, whatever is unrolled; round trips of one and of four segments.
  \<^item> \<open>Zstd_SeqTables\<close> (\<^verbatim>\<open>decompress/zstd_decompress_block.c\<close>): the decoding tables of sequences, the
    predefined tables as results of their construction, the header of the sequences section.
  \<^item> \<open>Zstd_ExecSequence\<close> (\<^verbatim>\<open>common/zstd_internal.h\<close>, \<^verbatim>\<open>decompress/zstd_decompress_block.c\<close>): wide and
    overlapping copies; the interface \<open>match_copy\<close> of a copy of a match, with the fast path and the
    path near the end of the buffer as instances; a sequence is executed as the format defines it.
  \<^item> \<open>Zstd_Sequences\<close> (the same file): decoding of sequences with recent offsets; the decoding loop
    refines the format.
  \<^item> \<open>Zstd_Literals\<close> (the same file): the literals section, with stored, repeated and compressed
    literals, and where they are put: in the destination behind the block, in the extra buffer of the
    context, split between both, or left in the source; it refines the format.
  \<^item> \<open>Zstd_XXHash\<close> (\<^verbatim>\<open>common/xxhash.h\<close>): XXH32 and XXH64, one-shot and streaming.
  \<^item> \<open>Zstd_DDictSet\<close> (\<^verbatim>\<open>decompress/zstd_decompress.c\<close>): the hash set of dictionaries as a map.
  \<^item> \<open>Zstd_FrameHeader\<close>, \<open>Zstd_Frame\<close> (\<^verbatim>\<open>decompress/zstd_decompress.c\<close>, \<^verbatim>\<open>compress/zstd_compress.c\<close>):
    frame headers written and parsed, skippable frames, block headers, measuring of frames.
  \<^item> \<open>Zstd_Decompress\<close> (\<^verbatim>\<open>decompress/zstd_decompress.c\<close>): one-shot decompression of concatenated
    frames, with dictionaries, sizes and checksums verified.
  \<^item> \<open>Zstd_Continue\<close> (the same file): the stage machine \<open>ZSTD_decompressContinue\<close>; its invariant, that
    calls are safe, that feeding it ends, and that it refines one-shot decompression.

  \<^bold>\<open>How the parts interact.\<close>  Frames (\<open>Zstd_Decompress\<close>, \<open>Zstd_Continue\<close>) call the decoder of a
  compressed block through the record \<open>block_codec\<close>; what they rely on is \<open>codec_ok\<close>, that it does
  not produce more than the capacity.  A compressed block is literals and a sequences section.  The
  literals (\<open>Zstd_Literals\<close>) call the Huffman decoders through the record \<open>huf_codec\<close>, and rely on
  \<open>huf_codec_ok\<close>, that these write the size they are asked for; the decoders of \<open>Zstd_HufDecode\<close> are an
  instance.  Literals are left where the decoders of sequences look for them.  The sequences section
  starts with table descriptions (\<open>Zstd_SeqTables\<close>, on \<open>Zstd_NCount\<close>), is read from a bit
  stream (\<open>Zstd_Bitstream\<close>) and executed on the window (\<open>Zstd_ExecSequence\<close>).

  \<^bold>\<open>Termination.\<close>  Loops that consume input are recursive functions with a measure and need no fuel.
  Probing in the hash set and the turns of the second normalization method are \<open>partial_function\<close>s,
  with theorems that they end.  The inner loop of
  spreading skips at most one round of the table, which is the fuel it is given.

  \<^bold>\<open>Not modelled.\<close>  The dispatch of \<open>ZSTD_decompressBlock\<close> between the decoders of sequences; Huffman tables with
  two symbols per cell and the fast loop over four streams; the construction of Huffman codes; the
  loops for literals split between two buffers and for prefetching; buffered streaming;
  creation of dictionaries.  On the compression side only what writes headers, stored blocks and
  entropy-coded streams: match finders and parameters are heuristics whose result is any valid
  sequence of matches.  The thread pool, the dictionary builder and the bindings to Java depend on
  threads, floating point and the virtual machine.  The XXH3 family is not used by the library.
\<close>

end
